(* ===== verification/Prelude.thy ===== *)
theory Prelude
  imports Main "HOL-Library.Word" "HOL-Library.Sublist" "HOL-Library.Monad_Syntax"
begin

text \<open>
  What every component shares: the fixed-width integer types of
  \<^verbatim>\<open>kernel/include/types.h\<close>, the error numbers returned as values, the byte-addressed
  memory of the big-endian MC68010 with its 32-bit loads and stores, and the generic lemmas
  about them.  Addresses are 32-bit words; layouts are stated over natural numbers below
  \<open>2 ^ 32\<close>, so that "no pointer wraps" is an explicit premise.  The collection \<open>mem_simps\<close>
  holds the read-over-write rules.
\<close>

unbundle bit_operations_syntax

named_theorems mem_simps "read-over-write rules for the byte memory"

type_synonym u8 = "8 word"
type_synonym u16 = "16 word"
type_synonym u32 = "32 word"
type_synonym u64 = "64 word"
type_synonym mem = "u32 \<Rightarrow> u8"

text \<open>The error numbers of \<^verbatim>\<open>klibc/include/errors.h\<close> that the modelled code returns.\<close>

datatype errno = EINVAL | ENOMEM | EAGAIN | ENOSYS | ERANGE

type_synonym 'a result = "errno + 'a"

abbreviation adr :: "nat \<Rightarrow> u32" where
  "adr n \<equiv> word_of_nat n"

subsection \<open>Big-endian loads and stores\<close>

definition load32 :: "mem \<Rightarrow> u32 \<Rightarrow> u32" where
  "load32 m a = push_bit 24 (ucast (m a)) OR push_bit 16 (ucast (m (a + 1)))
      OR push_bit 8 (ucast (m (a + 2))) OR ucast (m (a + 3))"

definition store32 :: "mem \<Rightarrow> u32 \<Rightarrow> u32 \<Rightarrow> mem" where
  "store32 m a v = m(a := ucast (drop_bit 24 v), a + 1 := ucast (drop_bit 16 v),
                     a + 2 := ucast (drop_bit 8 v), a + 3 := ucast v)"

definition load16 :: "mem \<Rightarrow> u32 \<Rightarrow> u16" where
  "load16 m a = push_bit 8 (ucast (m a)) OR ucast (m (a + 1))"

definition store16 :: "mem \<Rightarrow> u32 \<Rightarrow> u16 \<Rightarrow> mem" where
  "store16 m a v = m(a := ucast (drop_bit 8 v), a + 1 := ucast v)"

lemma load16_store16_same [simp, mem_simps]: "load16 (store16 m a v) a = v"
  unfolding load16_def store16_def by (rule bit_word_eqI) (auto simp: bit_simps)

lemma word32_of_bytes:
  fixes v :: u32
  shows "push_bit 24 (ucast (ucast (drop_bit 24 v) :: u8) :: u32)
     OR push_bit 16 (ucast (ucast (drop_bit 16 v) :: u8))
     OR push_bit 8 (ucast (ucast (drop_bit 8 v) :: u8)) OR ucast (ucast v :: u8) = v" (is "?l = v")
proof (rule bit_word_eqI)
  fix n assume "n < LENGTH(32)"
  then have "n < 32" by simp
  then consider "n < 8" | "8 \<le> n \<and> n < 16" | "16 \<le> n \<and> n < 24" | "24 \<le> n \<and> n < 32"
    by linarith
  then show "bit ?l n = bit v n"
    by cases (auto simp: bit_simps)
qed

lemma load32_store32_same [simp, mem_simps]: "load32 (store32 m a v) a = v"
  by (simp add: load32_def store32_def word32_of_bytes)

text \<open>
  The normal form of an address is \<open>adr n\<close>: the simplifier gathers the offsets on the side of
  the natural numbers instead of distributing \<open>adr\<close> over sums.
\<close>

lemma adr_add: "adr (a + b) = adr a + adr b"
  by simp

lemma adr_fold [simp]:
  "adr a + numeral k = adr (a + numeral k)" "numeral k + adr a = adr (a + numeral k)"
  "adr a + 1 = adr (Suc a)" "1 + adr a = adr (Suc a)" "adr a + adr b = adr (a + b)"
  by simp_all

lemma adr_Suc_0 [simp]: "adr (Suc 0) = 1"
  by simp

lemma adr_diff: "b \<le> a \<Longrightarrow> adr a - adr b = adr (a - b)"
  by simp

lemma adr_diff_numeral: "numeral k \<le> a \<Longrightarrow> adr a - numeral k = adr (a - numeral k)"
  by simp

lemmas adr_distrib = of_nat_add of_nat_diff of_nat_Suc

declare adr_distrib [simp del]

lemma adr_shift: "p + adr (Suc i) = p + 1 + adr i"
  by (simp only: of_nat_Suc add.assoc)

lemma offset_pred: "s + a + 1 - s - 1 = (a :: u32)"
  by simp

lemma unat_adr [simp]: "a < 4294967296 \<Longrightarrow> unat (adr a) = a"
  by (simp add: unsigned_of_nat take_bit_nat_eq_self)

lemma unat_bound: "unat (w :: u32) < 4294967296"
  using unsigned_less [of w] by simp

lemma adr_eq_iff: "a < 4294967296 \<Longrightarrow> b < 4294967296 \<Longrightarrow> adr a = adr b \<longleftrightarrow> a = b"
  by (metis unat_adr)

lemma adr_inj: "adr a = adr b \<Longrightarrow> a < 4294967296 \<Longrightarrow> b < 4294967296 \<Longrightarrow> a = b"
  by (metis unat_adr)

lemma adr_less_iff: "a < 4294967296 \<Longrightarrow> b < 4294967296 \<Longrightarrow> adr a < adr b \<longleftrightarrow> a < b"
  by (simp add: word_less_nat_alt)

lemma adr_unat [simp]: "adr (unat w) = w"
  by simp

lemma adr_eq_0_iff: "a < 4294967296 \<Longrightarrow> adr a = 0 \<longleftrightarrow> a = 0"
  using adr_eq_iff [of a 0] by simp

lemma load32_byte:
  "ucast (drop_bit 24 (load32 m a)) = m a" "ucast (drop_bit 16 (load32 m a)) = m (a + 1)"
  "ucast (drop_bit 8 (load32 m a)) = m (a + 2)" "ucast (load32 m a) = m (a + 3)"
  by (rule bit_word_eqI, auto simp: load32_def bit_simps dest: bit_imp_le_length)+

lemma store32_byte:
  assumes "i < 4"
  shows "store32 m (adr a) v (adr (a + i)) = ucast (drop_bit (24 - 8 * i) v)"
proof -
  have "i = 0 \<or> i = 1 \<or> i = 2 \<or> i = 3" using assms by auto
  then show ?thesis by (auto simp: store32_def adr_add simp del: adr_fold)
qed

lemma store32_load32_byte:
  assumes "i < 4"
  shows "store32 m (adr a) (load32 m' (adr b)) (adr (a + i)) = m' (adr (b + i))"
proof -
  have "i = 0 \<or> i = 1 \<or> i = 2 \<or> i = 3" using assms by auto
  then show ?thesis unfolding store32_byte [OF assms] using load32_byte [of m' "adr b"] by auto
qed

subsection \<open>Memories that agree on a range\<close>

definition agree :: "mem \<Rightarrow> mem \<Rightarrow> nat \<Rightarrow> nat \<Rightarrow> bool" where
  "agree m m' lo hi \<longleftrightarrow> (\<forall>x. lo \<le> x \<and> x < hi \<longrightarrow> m' (adr x) = m (adr x))"

lemma agree_refl [simp]: "agree m m lo hi"
  by (simp add: agree_def)

lemma agree_sym: "agree m m' lo hi \<Longrightarrow> agree m' m lo hi"
  by (simp add: agree_def)

lemma agree_trans: "agree m m' lo hi \<Longrightarrow> agree m' m'' lo hi \<Longrightarrow> agree m m'' lo hi"
  by (simp add: agree_def)

lemma agree_mono: "agree m m' lo hi \<Longrightarrow> lo \<le> lo' \<Longrightarrow> hi' \<le> hi \<Longrightarrow> agree m m' lo' hi'"
  by (simp add: agree_def)

lemma agree_load32:
  assumes "agree m m' lo hi" "lo \<le> a" "a + 4 \<le> hi"
  shows "load32 m' (adr a) = load32 m (adr a)"
proof -
  have "m' (adr (a + i)) = m (adr (a + i))" if "i < 4" for i
    using assms(1) [unfolded agree_def, rule_format, of "a + i"] assms(2,3) that by simp
  from this [of 0] this [of 1] this [of 2] this [of 3] show ?thesis
    by (simp add: load32_def add.commute)
qed

lemma agree_upd:
  assumes "a < lo \<or> hi \<le> a" "hi \<le> 4294967296" "a < 4294967296"
  shows "agree m (m(adr a := v)) lo hi"
proof -
  have "adr x \<noteq> adr a" if "lo \<le> x" "x < hi" for x
    using assms that adr_eq_iff [of x a] by auto
  then show ?thesis by (simp add: agree_def)
qed

lemma agree_store32:
  assumes "a + 4 \<le> lo \<or> hi \<le> a" "hi \<le> 4294967296" "a + 4 \<le> 4294967296"
  shows "agree m (store32 m (adr a) v) lo hi"
proof -
  have "adr x \<noteq> adr (a + i)" if "lo \<le> x" "x < hi" "i < 4" for x i
    using assms that adr_eq_iff [of x "a + i"] by auto
  from this [of _ 0] this [of _ 1] this [of _ 2] this [of _ 3] show ?thesis
    by (simp add: agree_def store32_def add.commute)
qed

lemma load32_store32_other:
  assumes "a + 4 \<le> b \<or> b + 4 \<le> a" "b + 4 \<le> 4294967296" "a + 4 \<le> 4294967296"
  shows "load32 (store32 m (adr a) v) (adr b) = load32 m (adr b)"
  using agree_load32 [OF agree_store32, of a b "b + 4" b] assms by simp

text \<open>\<open>modifies m m' lo hi\<close>: the two memories differ at most in the addresses \<open>lo \<le> x < hi\<close>.\<close>

definition modifies :: "mem \<Rightarrow> mem \<Rightarrow> nat \<Rightarrow> nat \<Rightarrow> bool" where
  "modifies m m' lo hi \<longleftrightarrow> agree m m' 0 lo \<and> agree m m' hi 4294967296"

lemma modifies_refl [simp]: "modifies m m lo hi"
  by (simp add: modifies_def)

lemma modifies_trans: "modifies m m' lo hi \<Longrightarrow> modifies m' m'' lo hi \<Longrightarrow> modifies m m'' lo hi"
  by (auto simp: modifies_def intro: agree_trans)

lemma modifies_mono: "modifies m m' lo hi \<Longrightarrow> lo' \<le> lo \<Longrightarrow> hi \<le> hi' \<Longrightarrow> modifies m m' lo' hi'"
  by (auto simp: modifies_def elim: agree_mono)

lemma modifies_agree:
  "modifies m m' lo hi \<Longrightarrow> y \<le> lo \<or> hi \<le> x \<Longrightarrow> y \<le> 4294967296 \<Longrightarrow> agree m m' x y"
  by (auto simp: modifies_def elim: agree_mono)

lemma modifies_store32:
  "a + 4 \<le> 4294967296 \<Longrightarrow> modifies m (store32 m (adr a) v) a (a + 4)"
  by (simp add: modifies_def agree_store32)

lemma modifies_store32_step:
  "modifies m m' lo hi \<Longrightarrow> lo \<le> x \<Longrightarrow> x + 4 \<le> hi \<Longrightarrow> hi \<le> 4294967296 \<Longrightarrow>
     modifies m (store32 m' (adr x) v) lo hi"
  by (rule modifies_trans, assumption, rule modifies_mono [OF modifies_store32]) auto

lemma modifies_upd: "a < 4294967296 \<Longrightarrow> modifies m (m(adr a := v)) a (a + 1)"
  by (simp add: modifies_def agree_upd)

lemma modifies_load32:
  "modifies m m' lo hi \<Longrightarrow> a + 4 \<le> lo \<or> hi \<le> a \<Longrightarrow> a + 4 \<le> 4294967296 \<Longrightarrow>
     load32 m' (adr a) = load32 m (adr a)"
  by (rule agree_load32 [of m m' a "a + 4"]) (auto intro: modifies_agree)

lemma modifies_at: "modifies m m' lo hi \<Longrightarrow> x < lo \<or> hi \<le> x \<Longrightarrow> x < 4294967296 \<Longrightarrow> m' (adr x) = m (adr x)"
  by (auto simp: modifies_def agree_def)

lemma modifies_store16:
  assumes "a + 2 \<le> 4294967296"
  shows "modifies m (store16 m (adr a) v) a (a + 2)"
proof -
  have e: "adr a + 1 = adr (a + 1)"
    by (simp only: of_nat_add of_nat_1)
  have s: "store16 m (adr a) v = (m(adr a := ucast (drop_bit 8 v)))(adr (a + 1) := ucast v)"
    unfolding store16_def e ..
  have "modifies m (m(adr a := ucast (drop_bit 8 v))) a (a + 2)"
    by (rule modifies_mono [OF modifies_upd]) (use assms in simp_all)
  moreover have "modifies (m(adr a := ucast (drop_bit 8 v))) (store16 m (adr a) v) a (a + 2)"
    unfolding s by (rule modifies_mono [OF modifies_upd]) (use assms in simp_all)
  ultimately show ?thesis
    by (rule modifies_trans)
qed

lemma agree_load16:
  assumes "agree m m' lo hi" "lo \<le> a" "a + 2 \<le> hi"
  shows "load16 m' (adr a) = load16 m (adr a)"
  using assms(1) [unfolded agree_def, rule_format, of a] assms(1) [unfolded agree_def, rule_format, of "a + 1"] assms(2,3)
  by (simp add: load16_def)

lemma modifies_load16:
  "modifies m m' lo hi \<Longrightarrow> a + 2 \<le> lo \<or> hi \<le> a \<Longrightarrow> a + 2 \<le> 4294967296 \<Longrightarrow>
     load16 m' (adr a) = load16 m (adr a)"
  by (rule agree_load16 [of m m' a "a + 2"]) (auto intro: modifies_agree)

subsection \<open>Rounding to a power of two\<close>

lemma and_not_mask_nat:
  fixes x :: u32
  shows "unat (x AND NOT (mask k)) = unat x div 2 ^ k * 2 ^ k"
proof -
  have "x AND NOT (mask k) = push_bit k (drop_bit k x)"
    by (rule bit_word_eqI) (auto simp: bit_simps)
  moreover have "unat (push_bit k (drop_bit k x)) = unat x div 2 ^ k * 2 ^ k"
  proof -
    have "unat x div 2 ^ k * 2 ^ k \<le> unat x" by (metis div_times_less_eq_dividend)
    also have "unat x < 2 ^ 32" using unsigned_less [of x] by simp
    finally have "unat x div 2 ^ k * 2 ^ k < 2 ^ 32" .
    then have lt: "push_bit k (drop_bit k (unat x)) < 2 ^ 32"
      by (simp add: drop_bit_eq_div push_bit_eq_mult)
    have "unat (push_bit k (drop_bit k x)) = take_bit 32 (push_bit k (drop_bit k (unat x)))"
      using take_bit_nat_eq_self [OF unsigned_less [of x]]
      by (simp add: unsigned_push_bit_eq unsigned_drop_bit_eq)
    also have "\<dots> = push_bit k (drop_bit k (unat x))"
      using lt by (rule take_bit_nat_eq_self)
    finally show ?thesis by (simp only: drop_bit_eq_div push_bit_eq_mult)
  qed
  ultimately show ?thesis by simp
qed

end
