(* ===== verification/Preempt.thy ===== *)
theory Preempt
  imports Prelude
begin

text \<open>
  Pre-emption control of \<^verbatim>\<open>kernel/include/preempt.h\<close> and the locks of
  \<^verbatim>\<open>kernel/include/lock.h\<close>, over a machine state that holds the memory, the CPU's
  interrupt-enable state and the global \<^verbatim>\<open>preempt_count\<close>.  The two CPU intrinsics
  \<^verbatim>\<open>cpu_disable_interrupts\<close> and \<^verbatim>\<open>cpu_enable_interrupts\<close> set and clear
  the interrupt mask.
\<close>

record machine =
  ram :: mem
  irq_enabled :: bool
  preempt_count :: u32

definition preempt_disable :: "machine \<Rightarrow> machine" where
  "preempt_disable s = s\<lparr>irq_enabled := False, preempt_count := preempt_count s + 1\<rparr>"

definition preempt_enable :: "machine \<Rightarrow> machine" where
  "preempt_enable s =
     (let c = preempt_count s - 1
      in s\<lparr>preempt_count := c, irq_enabled := (if c \<noteq> 0 then True else irq_enabled s)\<rparr>)"

text \<open>A \<^verbatim>\<open>lock_t\<close> is a counter; the functions return its new value with the state.\<close>

definition lock_init :: "u32" where
  "lock_init = 0"

definition lock_enter :: "u32 \<Rightarrow> machine \<Rightarrow> u32 \<times> machine" where
  "lock_enter l s = (l + 1, preempt_disable s)"

definition lock_leave :: "u32 \<Rightarrow> machine \<Rightarrow> u32 \<times> machine" where
  "lock_leave l s = (let l' = l - 1 in (l', if l' = 0 then preempt_enable s else s))"

lemma preempt_disable_sel [simp]:
  "ram (preempt_disable s) = ram s"
  "irq_enabled (preempt_disable s) = False"
  "preempt_count (preempt_disable s) = preempt_count s + 1"
  by (simp_all add: preempt_disable_def)

lemma preempt_enable_sel [simp]:
  "ram (preempt_enable s) = ram s"
  "preempt_count (preempt_enable s) = preempt_count s - 1"
  "irq_enabled (preempt_enable s) = (preempt_count s \<noteq> 1 \<or> irq_enabled s)"
  by (simp_all add: preempt_enable_def Let_def)

text \<open>
  A critical section is \<open>preempt_disable\<close>, an update of the memory and \<open>preempt_enable\<close>; the
  allocators use it in this form.
\<close>

definition section_exit :: "machine \<Rightarrow> mem \<Rightarrow> machine" where
  "section_exit s m = preempt_enable ((preempt_disable s)\<lparr>ram := m\<rparr>)"

lemma section_exit_sel [simp]:
  "ram (section_exit s m) = m"
  "preempt_count (section_exit s m) = preempt_count s"
  "irq_enabled (section_exit s m) = (preempt_count s \<noteq> 0)"
  by (simp_all add: section_exit_def)

lemma section_exit_again [simp]: "section_exit (section_exit s m) m' = section_exit s m'"
  by (simp add: section_exit_def preempt_enable_def preempt_disable_def Let_def)

lemma section_exit_ram [simp]: "(section_exit s m)\<lparr>ram := m'\<rparr> = section_exit s m'"
  by (simp add: section_exit_def preempt_enable_def preempt_disable_def Let_def)

end
