(* ===== verification/Allocator.thy ===== *)
theory Allocator
  imports Preempt
begin

text \<open>
  The interface every client of \<^verbatim>\<open>kmalloc\<close> and \<^verbatim>\<open>kfree\<close> relies on.
  The kernel selects the allocator at build time
  (\<^verbatim>\<open>ALLOCATOR_FN(name)\<close> in \<^verbatim>\<open>kmalloc.h\<close>), so the contract is stated once,
  for any pair of functions, any type of states that contain a memory and any abstract state \<open>A\<close>
  that such a state represents: \<open>live A\<close> maps the address of each allocated region to its length.
  The heap allocator and the slab allocator both provide it.
\<close>

definition preserves :: "(nat \<Rightarrow> nat option) \<Rightarrow> mem \<Rightarrow> mem \<Rightarrow> bool" where
  "preserves l m m' \<longleftrightarrow> (\<forall>x k. l x = Some k \<longrightarrow> agree m m' x (x + k))"

lemma preserves_refl [simp]: "preserves l m m"
  by (simp add: preserves_def)

lemma preserves_trans: "preserves l m m' \<Longrightarrow> preserves l m' m'' \<Longrightarrow> preserves l m m''"
  unfolding preserves_def by (blast intro: agree_trans)

lemma preserves_mono: "preserves l m m' \<Longrightarrow> l' \<subseteq>\<^sub>m l \<Longrightarrow> preserves l' m m'"
  by (auto simp: preserves_def map_le_def dom_def)

lemma preserves_remove: "preserves l m m' \<Longrightarrow> preserves (l(x := None)) m m'"
  by (auto simp: preserves_def)

lemma preservesD: "preserves l m m' \<Longrightarrow> l x = Some k \<Longrightarrow> agree m m' x (x + k)"
  by (simp add: preserves_def)

locale allocator =
  fixes memory :: "'s \<Rightarrow> mem"
    and put_memory :: "mem \<Rightarrow> 's \<Rightarrow> 's"
    and rep :: "'s \<Rightarrow> 'a \<Rightarrow> bool"
    and live :: "'a \<Rightarrow> nat \<Rightarrow> nat option"
    and malloc :: "u32 \<Rightarrow> 's \<Rightarrow> (u32 \<times> 's) option"
    and free :: "u32 \<Rightarrow> 's \<Rightarrow> 's option"
    and max_request :: nat
  assumes malloc_zero: "malloc 0 s = Some (0, s)"
    and malloc_cases: "rep s A \<Longrightarrow> n \<noteq> 0 \<Longrightarrow> unat n \<le> max_request \<Longrightarrow>
        (\<exists>s'. malloc n s = Some (0, s') \<and> memory s' = memory s \<and> rep s' A) \<or>
        (\<exists>p s' A' k. malloc n s = Some (p, s') \<and> p \<noteq> 0 \<and> rep s' A' \<and> live A (unat p) = None \<and>
           unat n \<le> k \<and> live A' = (live A)(unat p \<mapsto> k) \<and> preserves (live A) (memory s) (memory s'))"
    and free_null: "free 0 s = Some s"
    and free_live: "rep s A \<Longrightarrow> live A (unat p) = Some k \<Longrightarrow>
        \<exists>s' A'. free p s = Some s' \<and> rep s' A' \<and> live A' = (live A)(unat p := None) \<and>
          preserves (live A') (memory s) (memory s')"
    and live_apart: "rep s A \<Longrightarrow> live A x = Some j \<Longrightarrow> live A y = Some k \<Longrightarrow> x < y \<Longrightarrow> x + j \<le> y"
    and live_range: "rep s A \<Longrightarrow> live A x = Some j \<Longrightarrow> 0 < x \<and> x + j < 4294967296"
    and write_live: "rep s A \<Longrightarrow> live A x = Some j \<Longrightarrow> modifies (memory s) m x (x + j) \<Longrightarrow>
        rep (put_memory m s) A"
begin

lemma live_word_range: "rep s A \<Longrightarrow> live A (unat p) = Some j \<Longrightarrow> p \<noteq> 0"
  using live_range by fastforce

text \<open>Writing inside one live region leaves every other live region unchanged.\<close>

lemma write_preserves:
  assumes "rep s A" "live A x = Some j" "modifies (memory s) m x (x + j)"
  shows "preserves ((live A)(x := None)) (memory s) m"
  unfolding preserves_def
proof (intro allI impI)
  fix y k assume "((live A)(x := None)) y = Some k"
  then have y: "y \<noteq> x" "live A y = Some k" by (auto split: if_splits)
  then have "y + k \<le> x \<or> x + j \<le> y"
    using live_apart [OF assms(1)] assms(2) by (metis linorder_neqE_nat)
  then show "agree (memory s) m y (y + k)"
    using live_range [OF assms(1) y(2)] by (intro modifies_agree [OF assms(3)]) auto
qed

text \<open>An allocation followed by the release of the same block restores the live regions.\<close>

lemma malloc_free_roundtrip:
  assumes "rep s A" "n \<noteq> 0" "unat n \<le> max_request" "malloc n s = Some (p, s1)" "p \<noteq> 0"
  shows "\<exists>s2 A2. free p s1 = Some s2 \<and> rep s2 A2 \<and> live A2 = live A \<and>
    preserves (live A) (memory s) (memory s2)"
proof -
  obtain A1 k where a: "rep s1 A1" "live A (unat p) = None" "live A1 = (live A)(unat p \<mapsto> k)"
    "preserves (live A) (memory s) (memory s1)"
    using malloc_cases [OF assms(1-3)] assms(4,5) by auto
  then obtain s2 A2 where b: "free p s1 = Some s2" "rep s2 A2" "live A2 = (live A1)(unat p := None)"
    "preserves (live A2) (memory s1) (memory s2)"
    using free_live [of s1 A1 p k] by auto
  have "live A2 = live A" using a b by auto
  then show ?thesis using a b by (auto intro: preserves_trans)
qed

end

text \<open>
  \<^verbatim>\<open>krealloc\<close>: the resized block is a new one, the old contents are copied, the old
  block is released; when the request is refused nothing happens and the old block stays live.
  \<open>refuses A n\<close> tells when the arena has no room for a request.
\<close>

locale reallocator = allocator +
  fixes realloc :: "u32 \<Rightarrow> u32 \<Rightarrow> 's \<Rightarrow> (u32 \<times> 's) option"
    and refuses :: "'a \<Rightarrow> u32 \<Rightarrow> bool"
  assumes malloc_refuses: "rep s A \<Longrightarrow> n \<noteq> 0 \<Longrightarrow> unat n \<le> max_request \<Longrightarrow> malloc n s = Some (0, s') \<Longrightarrow> refuses A n"
    and realloc_null: "n \<noteq> 0 \<Longrightarrow> realloc 0 n s = malloc n s"
    and realloc_live: "rep s A \<Longrightarrow> live A (unat p) = Some k \<Longrightarrow> n \<noteq> 0 \<Longrightarrow> unat n \<le> max_request \<Longrightarrow>
        (\<exists>s'. realloc p n s = Some (0, s') \<and> memory s' = memory s \<and> rep s' A \<and> refuses A n) \<or>
        (\<exists>q s' A' j. realloc p n s = Some (q, s') \<and> q \<noteq> 0 \<and> rep s' A' \<and> live A (unat q) = None \<and>
           unat n \<le> j \<and> live A' = (live A)(unat q \<mapsto> j, unat p := None) \<and>
           preserves ((live A)(unat p := None)) (memory s) (memory s') \<and>
           (\<forall>i < min (unat n) k. memory s' (adr (unat q + i)) = memory s (adr (unat p + i))))"
begin

text \<open>
  A growing buffer: \<open>p\<close> is null or a live block that holds \<open>j\<close> bytes of interest, and
  \<open>L\<close> are the live regions apart from it.
\<close>

lemma grow:
  assumes "rep s A" "n \<noteq> 0" "unat n \<le> max_request"
    and "p = 0 \<and> j = 0 \<and> L = live A \<or> live A (unat p) = Some k \<and> j \<le> k \<and> j \<le> unat n \<and> L = (live A)(unat p := None)"
  shows "(\<exists>s'. realloc p n s = Some (0, s') \<and> rep s' A \<and> memory s' = memory s \<and> refuses A n) \<or>
    (\<exists>q s' A' k'. realloc p n s = Some (q, s') \<and> rep s' A' \<and> live A' (unat q) = Some k' \<and> unat n \<le> k' \<and>
       L = (live A')(unat q := None) \<and> preserves L (memory s) (memory s') \<and>
       (\<forall>i < j. memory s' (adr (unat q + i)) = memory s (adr (unat p + i))))"
  using assms(4)
proof (elim disjE conjE)
  assume p: "p = 0" "j = 0" "L = live A"
  show ?thesis
    using malloc_cases [OF assms(1-3)]
  proof (elim disjE exE conjE)
    fix q s' A' k'
    assume "malloc n s = Some (q, s')" "rep s' A'" "live A (unat q) = None" "unat n \<le> k'"
      "live A' = (live A)(unat q \<mapsto> k')" "preserves (live A) (memory s) (memory s')"
    then show ?thesis
      using p by (intro disjI2 exI [of _ q] exI [of _ s'] exI [of _ A'] exI [of _ k']) (auto simp: realloc_null assms(2))
  qed (use p assms(2) malloc_refuses [OF assms(1-3)] in \<open>auto simp: realloc_null\<close>)
next
  assume p: "live A (unat p) = Some k" "j \<le> k" "j \<le> unat n" "L = (live A)(unat p := None)"
  from realloc_live [OF assms(1) p(1) assms(2,3)] show ?thesis
  proof (elim disjE exE conjE)
    fix q s' A' k'
    assume "realloc p n s = Some (q, s')" "rep s' A'" "live A (unat q) = None" "unat n \<le> k'"
      "live A' = (live A)(unat q \<mapsto> k', unat p := None)" "preserves ((live A)(unat p := None)) (memory s) (memory s')"
      "\<forall>i < min (unat n) k. memory s' (adr (unat q + i)) = memory s (adr (unat p + i))"
    moreover from this(3) p(1) have q: "unat q \<noteq> unat p" by auto
    moreover have "(live A')(unat q := None) = L" "live A' (unat q) = Some k'"
      using calculation q p(4) by (auto simp: fun_eq_iff)
    ultimately show ?thesis
      using p by (intro disjI2 exI [of _ q] exI [of _ s'] exI [of _ A'] exI [of _ k']) simp
  qed auto
qed

end

end
