(* ===== verification/Heap.thy ===== *)
theory Heap
  imports Allocator
begin

text \<open>
  The kernel's heap allocator, \<^verbatim>\<open>kernel/memory/heap.c\<close>: blocks with an eight-byte
  header (magic word and size) laid out back to back in memory, first-fit allocation that splits
  a block, and freeing that merges the free blocks that follow.
\<close>

record heap_ctx =
  start :: u32
  hsize :: u32

definition MEMBLOCK_HDR_MAGIC :: u32 where
  "MEMBLOCK_HDR_MAGIC = 0xc91d58be"

definition MEMBLOCK_ALIGN_MASK :: u32 where
  "MEMBLOCK_ALIGN_MASK = mask 2"

text \<open>The fields of a \<^verbatim>\<open>heap_memblock\<close> at address \<open>p\<close>; the header is 8 bytes.\<close>

abbreviation hdr_magic :: "mem \<Rightarrow> u32 \<Rightarrow> u32" where
  "hdr_magic m p \<equiv> load32 m p"

abbreviation hdr_size :: "mem \<Rightarrow> u32 \<Rightarrow> u32" where
  "hdr_size m p \<equiv> load32 m (p + 4)"

abbreviation hdr_len :: u32 where
  "hdr_len \<equiv> 8"

definition write_hdr :: "mem \<Rightarrow> u32 \<Rightarrow> u32 \<Rightarrow> u32 \<Rightarrow> mem" where
  "write_hdr m p magic sz = store32 (store32 m p magic) (p + 4) sz"

subsection \<open>Operations\<close>

definition heap_init :: "u32 \<Rightarrow> u32 \<Rightarrow> machine \<Rightarrow> heap_ctx \<times> machine" where
  "heap_init start0 mem_len s =
     (let mem_len = mem_len AND NOT 1;
          sz = mem_len - 2 * hdr_len;
          m1 = write_hdr (ram s) start0 MEMBLOCK_HDR_MAGIC sz;
          p = start0 + hdr_size m1 start0 + hdr_len;
          m2 = write_hdr m1 p (MEMBLOCK_HDR_MAGIC OR 1) 0
      in (\<lparr>start = start0, hsize = mem_len\<rparr>, s\<lparr>ram := m2\<rparr>))"

text \<open>The search loop of \<^verbatim>\<open>heap_malloc\<close>; it may not end on a damaged heap, hence \<open>option\<close>.\<close>

definition heap_take :: "mem \<Rightarrow> u32 \<Rightarrow> u32 \<Rightarrow> mem" where
  "heap_take m p sz =
     (let m' = (if hdr_size m p - sz > hdr_len + MEMBLOCK_ALIGN_MASK
                then let p2 = (p + hdr_len) + sz;
                         m1 = write_hdr m p2 MEMBLOCK_HDR_MAGIC (hdr_size m p - (sz + hdr_len))
                     in store32 m1 (p + 4) sz
                else m)
      in store32 m' p (hdr_magic m' p OR 1))"

partial_function (option) heap_malloc_loop :: "u32 \<Rightarrow> u32 \<Rightarrow> mem \<Rightarrow> (u32 \<times> mem) option" where
  "heap_malloc_loop p sz m =
     (if hdr_size m p \<noteq> 0
      then if hdr_magic m p AND 1 = 0 \<and> sz \<le> hdr_size m p
           then Some (p + hdr_len, heap_take m p sz)
           else heap_malloc_loop (p + hdr_size m p + hdr_len) sz m
      else Some (0, m))"

definition heap_malloc :: "heap_ctx \<Rightarrow> u32 \<Rightarrow> machine \<Rightarrow> (u32 \<times> machine) option" where
  "heap_malloc heap sz s =
     (if sz = 0 then Some (0, s)
      else let sz = (sz + MEMBLOCK_ALIGN_MASK) AND NOT MEMBLOCK_ALIGN_MASK
           in case heap_malloc_loop (start heap) sz (ram (preempt_disable s)) of
                None \<Rightarrow> None
              | Some (p, m) \<Rightarrow> Some (p, preempt_enable ((preempt_disable s)\<lparr>ram := m\<rparr>)))"

text \<open>\<^verbatim>\<open>for(n >>= 2; n--;) ((u32 *) p)[n] = 0;\<close>\<close>

fun zero_words :: "u32 \<Rightarrow> nat \<Rightarrow> mem \<Rightarrow> mem" where
  "zero_words p 0 m = m"
| "zero_words p (Suc n) m = zero_words p n (store32 m (p + 4 * adr n) 0)"

definition heap_calloc :: "heap_ctx \<Rightarrow> u32 \<Rightarrow> u32 \<Rightarrow> machine \<Rightarrow> (u32 \<times> machine) option" where
  "heap_calloc heap nmemb sz s =
     (let n = nmemb * sz
      in case heap_malloc heap n s of
           None \<Rightarrow> None
         | Some (p, s') \<Rightarrow>
             Some (p, if p \<noteq> 0
                      then s'\<lparr>ram := zero_words p (unat (drop_bit 2 (n + (2 ^ 2 - 1)))) (ram s')\<rparr>
                      else s'))"

text \<open>The merging loop of \<^verbatim>\<open>heap_free\<close>: \<open>q\<close> is the block after \<open>p\<close> under inspection.\<close>

partial_function (option) heap_merge_loop :: "u32 \<Rightarrow> u32 \<Rightarrow> u32 \<Rightarrow> mem \<Rightarrow> mem option" where
  "heap_merge_loop lim p q m =
     (if q < lim \<and> hdr_magic m q AND 1 = 0
      then let m' = store32 m (p + 4) (hdr_size m p + (hdr_size m q + hdr_len))
           in heap_merge_loop lim p (hdr_size m' q + (q + hdr_len)) m'
      else Some m)"

definition heap_free :: "heap_ctx \<Rightarrow> u32 \<Rightarrow> machine \<Rightarrow> machine option" where
  "heap_free heap ptr s =
     (if ptr = 0 then Some s
      else let p = ptr - hdr_len; s1 = preempt_disable s; m = ram s1
           in if hdr_magic m p = MEMBLOCK_HDR_MAGIC OR 1
              then let m1 = store32 m p (hdr_magic m p AND NOT 1)
                   in case heap_merge_loop (start heap + hsize heap) p (ptr + hdr_size m1 p) m1 of
                        None \<Rightarrow> None
                      | Some m2 \<Rightarrow> Some (preempt_enable (s1\<lparr>ram := m2\<rparr>))
              else Some (preempt_enable s1))"

text \<open>\<^verbatim>\<open>for(size >>= 2; size--;) ((u32 *) pnew)[size] = ((u32 *) ptr)[size];\<close>\<close>

fun copy_words :: "u32 \<Rightarrow> u32 \<Rightarrow> nat \<Rightarrow> mem \<Rightarrow> mem" where
  "copy_words dst src 0 m = m"
| "copy_words dst src (Suc n) m =
     copy_words dst src n (store32 m (dst + 4 * adr n) (load32 m (src + 4 * adr n)))"

definition heap_realloc :: "heap_ctx \<Rightarrow> u32 \<Rightarrow> u32 \<Rightarrow> machine \<Rightarrow> (u32 \<times> machine) option" where
  "heap_realloc heap ptr sz s =
     (let p = ptr - hdr_len
      in if sz = 0 \<and> ptr \<noteq> 0 then map_option (\<lambda>s'. (0, s')) (heap_free heap ptr s)
         else if ptr = 0 \<and> sz \<noteq> 0 then heap_malloc heap sz s
         else if hdr_magic (ram s) p = MEMBLOCK_HDR_MAGIC OR 1
         then case heap_malloc heap sz s of
                None \<Rightarrow> None
              | Some (pnew, s1) \<Rightarrow>
                  if pnew = 0 then Some (0, s1)
                  else let sz = (if sz > hdr_size (ram s1) p then hdr_size (ram s1) p else sz);
                           sz = sz + (2 ^ 2 - 1);
                           m = copy_words pnew ptr (unat (drop_bit 2 sz)) (ram s1)
                       in map_option (\<lambda>s'. (pnew, s')) (heap_free heap ptr (s1\<lparr>ram := m\<rparr>))
         else Some (0, s))"

text \<open>
  The common walk of \<^verbatim>\<open>heap_freemem\<close> and \<^verbatim>\<open>heap_usedmem\<close>: sum the sizes of the blocks
  whose magic word is \<open>tag\<close>.
\<close>

partial_function (option) heap_sum_loop :: "u32 \<Rightarrow> u32 \<Rightarrow> u32 \<Rightarrow> u32 \<Rightarrow> mem \<Rightarrow> u32 option" where
  "heap_sum_loop tag lim p acc m =
     (if p < lim
      then heap_sum_loop tag lim (p + hdr_size m p + hdr_len)
             (if hdr_magic m p = tag then acc + hdr_size m p else acc) m
      else Some acc)"

definition heap_freemem :: "heap_ctx \<Rightarrow> machine \<Rightarrow> (u32 \<times> machine) option" where
  "heap_freemem heap s =
     map_option (\<lambda>n. (n, preempt_enable (preempt_disable s)))
       (heap_sum_loop MEMBLOCK_HDR_MAGIC (start heap + hsize heap) (start heap) 0
          (ram (preempt_disable s)))"

definition heap_usedmem :: "heap_ctx \<Rightarrow> machine \<Rightarrow> (u32 \<times> machine) option" where
  "heap_usedmem heap s =
     map_option (\<lambda>n. (n, preempt_enable (preempt_disable s)))
       (heap_sum_loop (MEMBLOCK_HDR_MAGIC OR 1) (start heap + hsize heap) (start heap) 0
          (ram (preempt_disable s)))"

subsection \<open>The block list a heap represents\<close>

type_synonym block = "nat \<times> bool"

definition hmagic :: "bool \<Rightarrow> u32" where
  "hmagic u = (if u then MEMBLOCK_HDR_MAGIC OR 1 else MEMBLOCK_HDR_MAGIC)"

fun span :: "block list \<Rightarrow> nat" where
  "span [] = 0"
| "span ((n, u) # bs) = n + 8 + span bs"

fun chunk :: "mem \<Rightarrow> nat \<Rightarrow> block list \<Rightarrow> bool" where
  "chunk m a [] \<longleftrightarrow> True"
| "chunk m a ((n, u) # bs) \<longleftrightarrow> 0 < n \<and> load32 m (adr a) = hmagic u \<and>
     load32 m (adr (a + 4)) = adr n \<and> chunk m (a + 8 + n) bs"

definition layout :: "mem \<Rightarrow> nat \<Rightarrow> block list \<Rightarrow> bool" where
  "layout m a bs \<longleftrightarrow> chunk m a bs \<and> load32 m (adr (a + span bs)) = hmagic True \<and>
     load32 m (adr (a + span bs + 4)) = 0"

definition heap_wf :: "heap_ctx \<Rightarrow> mem \<Rightarrow> block list \<Rightarrow> bool" where
  "heap_wf h m bs \<longleftrightarrow> layout m (unat (start h)) bs \<and> span bs + 8 = unat (hsize h) \<and>
     unat (start h) + unat (hsize h) < 4294967296 \<and> start h \<noteq> 0"

text \<open>The allocated regions: payload address to payload length.\<close>

fun live :: "nat \<Rightarrow> block list \<Rightarrow> nat \<Rightarrow> nat option" where
  "live a [] x = None"
| "live a ((n, u) # bs) x = (if x = a + 8 \<and> u then Some n else live (a + 8 + n) bs x)"

fun a_malloc :: "nat \<Rightarrow> block list \<Rightarrow> (nat \<times> block list) option" where
  "a_malloc n [] = None"
| "a_malloc n ((k, u) # bs) =
     (if \<not> u \<and> n \<le> k
      then Some (0, if k - n > 11 then (n, True) # (k - n - 8, False) # bs else (k, True) # bs)
      else map_option (\<lambda>(off, bs'). (k + 8 + off, (k, u) # bs')) (a_malloc n bs))"

fun coalesce :: "nat \<Rightarrow> block list \<Rightarrow> block list" where
  "coalesce n ((k, False) # bs) = coalesce (n + k + 8) bs"
| "coalesce n bs = (n, False) # bs"

fun a_free :: "nat \<Rightarrow> block list \<Rightarrow> block list" where
  "a_free off [] = []"
| "a_free off ((k, u) # bs) =
     (if off = 0 then if u then coalesce k bs else (k, u) # bs
      else (k, u) # a_free (off - (k + 8)) bs)"

lemma hmagic_simps [simp]:
  "hmagic True = 0xc91d58bf" "hmagic False = 0xc91d58be"
  by (simp_all add: hmagic_def MEMBLOCK_HDR_MAGIC_def)

lemma MEMBLOCK_ALIGN_MASK_eq [simp]: "MEMBLOCK_ALIGN_MASK = 3"
  by (simp add: MEMBLOCK_ALIGN_MASK_def mask_eq_exp_minus_1)

lemma hmagic_bit0: "hmagic u AND 1 = 0 \<longleftrightarrow> \<not> u"
  by (cases u) simp_all

lemma span_append [simp]: "span (xs @ ys) = span xs + span ys"
  by (induction xs rule: span.induct) auto

lemma chunk_append: "chunk m a (xs @ ys) \<longleftrightarrow> chunk m a xs \<and> chunk m (a + span xs) ys"
  by (induction m a xs rule: chunk.induct) (auto simp: ac_simps)

lemma chunk_modifies:
  "chunk m a bs \<Longrightarrow> modifies m m' lo hi \<Longrightarrow> a + span bs \<le> lo \<or> hi \<le> a \<Longrightarrow>
     a + span bs \<le> 4294967296 \<Longrightarrow> chunk m' a bs"
proof (induction m a bs rule: chunk.induct)
  case (2 m a n u bs)
  have "a + 8 + n + span bs \<le> lo \<or> hi \<le> a" "a + 8 + n + span bs \<le> 4294967296"
    using "2.prems"(3,4) by auto
  then have "load32 m' (adr a) = load32 m (adr a)" "load32 m' (adr (a + 4)) = load32 m (adr (a + 4))"
    by (auto intro!: modifies_load32 [OF "2.prems"(2)])
  moreover have "chunk m' (a + 8 + n) bs"
    using 2 by auto
  ultimately show ?case using "2.prems"(1) by (simp)
qed simp

lemma live_split:
  "live a bs x = Some k \<Longrightarrow> \<exists>pre post. bs = pre @ (k, True) # post \<and> x = a + span pre + 8"
proof (induction a bs x rule: live.induct)
  case (2 a n u bs x)
  show ?case
  proof (cases "x = a + 8 \<and> u")
    case True
    with 2 have "(n, u) # bs = [] @ (k, True) # bs \<and> x = a + span [] + 8" by simp
    then show ?thesis by blast
  next
    case False
    with 2 obtain pre post where "bs = pre @ (k, True) # post" "x = a + 8 + n + span pre + 8"
      by auto
    then show ?thesis by (intro exI [of _ "(n, u) # pre"] exI [of _ post]) auto
  qed
qed simp

lemma live_bounds: "live a bs x = Some k \<Longrightarrow> a + 8 \<le> x \<and> x + k \<le> a + span bs"
  by (auto dest!: live_split)

lemma chunk_payload:
  assumes "chunk m a bs" "live a bs x = Some k" "modifies m m' x (x + k)"
    "a + span bs \<le> 4294967296"
  shows "chunk m' a bs"
proof -
  obtain pre post where bs: "bs = pre @ (k, True) # post" and x: "x = a + span pre + 8"
    using live_split [OF assms(2)] by blast
  have pre: "chunk m' a pre"
    using assms x bs by (auto simp: chunk_append intro!: chunk_modifies [OF _ assms(3)])
  have post: "chunk m' (a + span pre + 8 + k) post"
    using assms x bs by (auto simp: chunk_append intro!: chunk_modifies [OF _ assms(3)])
  have hdr: "load32 m' (adr (a + span pre)) = load32 m (adr (a + span pre))"
    "load32 m' (adr (a + span pre + 4)) = load32 m (adr (a + span pre + 4))"
    using assms x bs by (auto intro!: modifies_load32 [OF assms(3)])
  show ?thesis
    using assms(1) pre post hdr unfolding bs by (simp add: chunk_append)
qed



abbreviation a_split :: "nat \<Rightarrow> nat \<Rightarrow> block list" where
  "a_split n k \<equiv> (if k - n > 11 then [(n, True), (k - n - 8, False)] else [(k, True)])"

lemma write_hdr_adr: "write_hdr m (adr x) g v = store32 (store32 m (adr x) g) (adr (x + 4)) v"
  by (simp add: write_hdr_def)

lemma heap_take_eq:
  assumes "load32 m (adr a) = 0xc91d58be" "load32 m (adr (a + 4)) = adr k" "n \<le> k"
    "a + 8 + k \<le> 4294967296"
  shows "heap_take m (adr a) (adr n) =
      (if k - n > 11
       then store32 (store32 (write_hdr m (adr (a + 8 + n)) 0xc91d58be (adr (k - (n + 8))))
              (adr (a + 4)) (adr n)) (adr a) 0xc91d58bf
       else store32 m (adr a) 0xc91d58bf)"
proof -
  have gt: "adr k - adr n > 11 \<longleftrightarrow> k - n > 11"
    using assms(3,4) adr_less_iff [of 11 "k - n"] by (simp add: adr_diff)
  have sz: "hdr_size m (adr a) = adr k"
    using assms(2) by simp
  have mk: "MEMBLOCK_HDR_MAGIC = 0xc91d58be" "hdr_len + MEMBLOCK_ALIGN_MASK = 11"
    "(0xc91d58be :: u32) OR 1 = 0xc91d58bf"
    by (simp_all add: MEMBLOCK_HDR_MAGIC_def)
  show ?thesis
  proof (cases "k - n > 11")
    case True
    let ?m2 = "store32 (write_hdr m (adr (a + 8 + n)) 0xc91d58be (adr (k - (n + 8)))) (adr (a + 4)) (adr n)"
    have a8: "adr n + 8 = adr (n + 8)" "adr a + 4 = adr (a + 4)" "adr a + 8 + adr n = adr (a + 8 + n)"
      by simp_all
    have "load32 ?m2 (adr a) = 0xc91d58be"
      using True assms(1,4) unfolding write_hdr_adr by (simp add: load32_store32_other)
    moreover have "adr k - adr (n + 8) = adr (k - (n + 8))"
      by (rule adr_diff) (use True in simp)
    moreover have "heap_take m (adr a) (adr n) =
        (let m' = store32 (write_hdr m (adr a + 8 + adr n) MEMBLOCK_HDR_MAGIC (adr k - (adr n + 8)))
           (adr a + 4) (adr n) in store32 m' (adr a) (load32 m' (adr a) OR 1))"
      unfolding heap_take_def Let_def sz mk using True gt by (subst if_P) auto
    ultimately show ?thesis
      using True unfolding a8 mk Let_def by simp
  next
    case False
    moreover have "heap_take m (adr a) (adr n) = store32 m (adr a) (load32 m (adr a) OR 1)"
      unfolding heap_take_def Let_def sz mk using False gt by (subst if_not_P) auto
    ultimately show ?thesis
      unfolding assms(1) mk by simp
  qed
qed

lemma heap_take_chunk:
  assumes "chunk m a [(k, False)]" "0 < n" "n \<le> k" "a + 8 + k \<le> 4294967296"
  shows "chunk (heap_take m (adr a) (adr n)) a (a_split n k)"
    "modifies m (heap_take m (adr a) (adr n)) a (a + 8 + k)"
proof -
  have hdr: "load32 m (adr a) = 0xc91d58be" "load32 m (adr (a + 4)) = adr k" "0 < k"
    using assms(1) by simp_all
  note eq = heap_take_eq [OF hdr(1,2) assms(3,4)]
  show "chunk (heap_take m (adr a) (adr n)) a (a_split n k)"
    using assms hdr unfolding eq write_hdr_adr
    by (auto simp: load32_store32_other)
  show "modifies m (heap_take m (adr a) (adr n)) a (a + 8 + k)"
    unfolding eq write_hdr_adr using assms
    by (auto intro!: modifies_store32_step)
qed

lemma span_a_split [simp]: "n \<le> k \<Longrightarrow> span (a_split n k) = k + 8"
  by simp

lemma layout_replace:
  assumes "layout m a (xs @ bs)" "chunk m' a ys" "span ys = span xs"
    "modifies m m' a (a + span xs)" "a + span (xs @ bs) + 8 \<le> 4294967296"
  shows "layout m' a (ys @ bs)"
proof -
  let ?e = "a + span (xs @ bs)"
  have "chunk m' (a + span xs) bs"
    using assms by (auto simp: layout_def chunk_append intro: chunk_modifies)
  moreover have "load32 m' (adr ?e) = load32 m (adr ?e)" "load32 m' (adr (?e + 4)) = load32 m (adr (?e + 4))"
    using assms(5) by (auto intro!: modifies_load32 [OF assms(4)])
  ultimately show ?thesis
    using assms(1-3) by (simp add: layout_def chunk_append)
qed

lemma layout_Cons:
  "layout m a ((n, u) # bs) \<longleftrightarrow> 0 < n \<and> load32 m (adr a) = hmagic u \<and>
     load32 m (adr (a + 4)) = adr n \<and> layout m (a + 8 + n) bs"
  by (auto simp: layout_def ac_simps)

lemma live_ge: "live a bs x = Some k \<Longrightarrow> a + 8 \<le> x"
  by (auto dest: live_bounds)

lemma live_None: "x < a + 8 \<Longrightarrow> live a bs x = None"
  using live_ge [of a bs x] by (cases "live a bs x") auto

lemma a_malloc_live:
  "a_malloc n bs = Some (off, bs') \<Longrightarrow>
     span bs' = span bs \<and> live a bs (a + off + 8) = None \<and>
     (\<exists>k. n \<le> k \<and> k \<le> n + 11 \<and> off + 8 + k \<le> span bs \<and>
          live a bs' = (live a bs)(a + off + 8 \<mapsto> k))"
proof (induction n bs arbitrary: off bs' a rule: a_malloc.induct)
  case (2 n k u bs)
  show ?case
  proof (cases "\<not> u \<and> n \<le> k")
    case True
    then have res: "off = 0" "bs' = a_split n k @ bs"
      using "2.prems" by auto
    show ?thesis
      using True unfolding res
      by (intro conjI exI [of _ "if k - n > 11 then n else k"])
        (auto simp: live_None fun_eq_iff ac_simps)
  next
    case False
    then obtain off1 bs1 where r: "a_malloc n bs = Some (off1, bs1)" "off = k + 8 + off1"
      "bs' = (k, u) # bs1"
      using "2.prems" by (auto split: if_splits)
    then obtain j where j: "span bs1 = span bs" "live (a + 8 + k) bs (a + off + 8) = None"
      "n \<le> j" "j \<le> n + 11" "off1 + 8 + j \<le> span bs"
      "live (a + 8 + k) bs1 = (live (a + 8 + k) bs)(a + off + 8 \<mapsto> j)"
    proof -
      have "a + 8 + k + off1 + 8 = a + off + 8" using r(2) by simp
      from "2.IH" [OF False r(1), of "a + 8 + k", unfolded this] that show thesis by blast
    qed
    then show ?thesis
      using r(2,3) by (intro conjI exI [of _ j]) (auto simp: fun_eq_iff)
  qed
qed simp

lemma heap_malloc_loop_refines:
  assumes "layout m a bs" "0 < n" "n < 4294967296" "a + span bs + 8 \<le> 4294967296"
  shows "case a_malloc n bs of
      None \<Rightarrow> heap_malloc_loop (adr a) (adr n) m = Some (0, m)
    | Some (off, bs') \<Rightarrow> \<exists>m'. heap_malloc_loop (adr a) (adr n) m = Some (adr (a + off + 8), m') \<and>
        layout m' a bs' \<and> modifies m m' a (a + span bs) \<and>
        (\<forall>x k. live a bs x = Some k \<longrightarrow> agree m m' x (x + k))"
  using assms
proof (induction n bs arbitrary: a rule: a_malloc.induct)
  case (1 n)
  then show ?case
    by (simp add: layout_def heap_malloc_loop.simps)
next
  case (2 n k u bs)
  let ?bs = "(k, u) # bs"
  note lay = "2.prems"(1) [unfolded layout_Cons]
  have k: "k < 4294967296" "a + 8 + k + span bs + 8 \<le> 4294967296" "0 < k"
    using "2.prems"(4) lay by auto
  have nz: "adr k \<noteq> 0" using k by (simp add: adr_eq_0_iff)
  have le: "adr n \<le> adr k \<longleftrightarrow> n \<le> k"
    using "2.prems"(3) k(1) by (simp add: word_le_nat_alt)
  have bit0: "load32 m (adr a) AND 1 = 0 \<longleftrightarrow> \<not> u"
    using lay by (simp only: hmagic_bit0)
  have step: "heap_malloc_loop (adr a) (adr n) m =
      (if \<not> u \<and> n \<le> k then Some (adr (a + 8), heap_take m (adr a) (adr n))
       else heap_malloc_loop (adr (a + 8 + k)) (adr n) m)"
    using lay nz by (subst heap_malloc_loop.simps) (simp add: bit0 le ac_simps)
  show ?case
  proof (cases "\<not> u \<and> n \<le> k")
    case True
    let ?m = "heap_take m (adr a) (adr n)"
    have ch: "chunk m a [(k, False)]" using lay True by simp
    note take = heap_take_chunk [OF ch "2.prems"(2)]
    have "layout ?m a (a_split n k @ bs)"
    proof (rule layout_replace [of m a "[(k, u)]"])
      show "layout m a ([(k, u)] @ bs)" using "2.prems"(1) by simp
      show "chunk ?m a (a_split n k)" "modifies m ?m a (a + span [(k, u)])"
        using take k True by (simp_all add: ac_simps)
      show "span (a_split n k) = span [(k, u)]" using True by simp
      show "a + span ([(k, u)] @ bs) + 8 \<le> 4294967296" using k by simp
    qed
    moreover have "modifies m ?m a (a + 8 + k)" using take(2) k True by simp
    moreover have "agree m ?m x (x + j)" if "live a ?bs x = Some j" for x j
      using that True live_bounds [of "a + 8 + k" bs x j] k
      by (intro modifies_agree [OF calculation(2)]) auto
    ultimately show ?thesis
      using True step by (auto elim: modifies_mono)
  next
    case False
    have IH: "case a_malloc n bs of
      None \<Rightarrow> heap_malloc_loop (adr (a + 8 + k)) (adr n) m = Some (0, m)
    | Some (off, bs') \<Rightarrow> \<exists>m'. heap_malloc_loop (adr (a + 8 + k)) (adr n) m = Some (adr (a + 8 + k + off + 8), m') \<and>
        layout m' (a + 8 + k) bs' \<and> modifies m m' (a + 8 + k) (a + 8 + k + span bs) \<and>
        (\<forall>x j. live (a + 8 + k) bs x = Some j \<longrightarrow> agree m m' x (x + j))"
      using "2.IH" [OF False] lay "2.prems" k by simp
    show ?thesis
    proof (cases "a_malloc n bs")
      case None
      with IH False step show ?thesis by auto
    next
      case (Some r)
      then obtain off bs' where r: "a_malloc n bs = Some (off, bs')" by (cases r) auto
      with IH obtain m' where m':
        "heap_malloc_loop (adr (a + 8 + k)) (adr n) m = Some (adr (a + 8 + k + off + 8), m')"
        "layout m' (a + 8 + k) bs'" "modifies m m' (a + 8 + k) (a + 8 + k + span bs)"
        "\<forall>x j. live (a + 8 + k) bs x = Some j \<longrightarrow> agree m m' x (x + j)"
        by auto
      have "layout m' a ((k, u) # bs')"
        using m'(2) lay k modifies_load32 [OF m'(3), of a] modifies_load32 [OF m'(3), of "a + 4"]
        by (simp add: layout_Cons)
      moreover have "agree m m' x (x + j)" if "live a ?bs x = Some j" for x j
        using that m'(4) modifies_agree [OF m'(3), of "a + 8 + k" "a + 8"] k
        by (auto split: if_splits)
      moreover have "modifies m m' a (a + span ?bs)"
        using m'(3) by (rule modifies_mono) auto
      ultimately show ?thesis
        using False step r(1) m'(1) by (auto simp: add.assoc add.left_commute [of 8])
    qed
  qed
qed


definition align4 :: "nat \<Rightarrow> nat" where
  "align4 n = (n + 3) div 4 * 4"

lemma align4_bounds: "n \<le> align4 n" "align4 n \<le> n + 3" "0 < n \<Longrightarrow> 0 < align4 n"
  unfolding align4_def by presburger+

lemma round_up_word:
  assumes "unat sz \<le> 4294967292"
  shows "(sz + MEMBLOCK_ALIGN_MASK) AND NOT MEMBLOCK_ALIGN_MASK = adr (align4 (unat sz))"
proof -
  have "unat (sz + 3) = unat sz + 3"
    using assms by (simp add: unat_word_ariths)
  then have "unat ((sz + 3) AND NOT (mask 2)) = align4 (unat sz)"
    by (simp only: and_not_mask_nat align4_def) simp
  moreover have "(mask 2 :: u32) = 3" by (simp add: mask_eq_exp_minus_1)
  ultimately show ?thesis
    by (metis MEMBLOCK_ALIGN_MASK_eq adr_unat)
qed

lemma heap_wfD:
  assumes "heap_wf h m bs"
  shows "layout m (unat (start h)) bs" "unat (start h) + span bs + 8 < 4294967296" "0 < unat (start h)"
    "start h + hsize h = adr (unat (start h) + span bs + 8)"
proof -
  show "layout m (unat (start h)) bs" "unat (start h) + span bs + 8 < 4294967296" "0 < unat (start h)"
    using assms by (auto simp: heap_wf_def unat_gt_0)
  have "unat (start h) + span bs + 8 = unat (start h) + unat (hsize h)"
    using assms by (simp add: heap_wf_def)
  then show "start h + hsize h = adr (unat (start h) + span bs + 8)"
    by (metis adr_add adr_unat)
qed

lemma heap_wfI:
  "heap_wf h m bs \<Longrightarrow> layout m' (unat (start h)) bs' \<Longrightarrow> span bs' = span bs \<Longrightarrow> heap_wf h m' bs'"
  by (simp add: heap_wf_def)

lemma heap_malloc_refines:
  assumes wf: "heap_wf h (ram s) bs" and sz: "sz \<noteq> 0" "unat sz \<le> 4294967292"
  shows "case a_malloc (align4 (unat sz)) bs of
      None \<Rightarrow> heap_malloc h sz s = Some (0, section_exit s (ram s))
    | Some (off, bs') \<Rightarrow> \<exists>m'. heap_malloc h sz s =
          Some (adr (unat (start h) + off + 8), section_exit s m') \<and> heap_wf h m' bs' \<and>
        (\<forall>x k. live (unat (start h)) bs x = Some k \<longrightarrow> agree (ram s) m' x (x + k)) \<and>
        modifies (ram s) m' (unat (start h)) (unat (start h) + span bs)"
proof -
  let ?a = "unat (start h)" and ?n = "align4 (unat sz)"
  have n: "0 < ?n" "?n < 4294967296"
    using sz align4_bounds [of "unat sz"] by (auto simp: align4_def unat_gt_0)
  have run: "heap_malloc h sz s = map_option (\<lambda>(p, m). (p, section_exit s m))
      (heap_malloc_loop (adr ?a) (adr ?n) (ram s))"
    using sz round_up_word [of sz]
    by (auto simp: heap_malloc_def Let_def section_exit_def split: option.splits)
  from heap_malloc_loop_refines [OF heap_wfD(1) [OF wf] n] heap_wfD(2) [OF wf]
  show ?thesis
  proof (cases "a_malloc ?n bs")
    case (Some r)
    then obtain off bs' where r: "a_malloc ?n bs = Some (off, bs')" by (cases r) auto
    with heap_malloc_loop_refines [OF heap_wfD(1) [OF wf] n] heap_wfD(2) [OF wf]
      a_malloc_live [OF r] run show ?thesis
      by (auto intro!: heap_wfI [OF wf])
  qed (auto simp: run)
qed

subsection \<open>Freeing\<close>

lemma span_coalesce: "span (coalesce n bs) = n + 8 + span bs"
  by (induction n bs rule: coalesce.induct) auto

lemma live_coalesce: "live a (coalesce n bs) x = live (a + 8 + n) bs x"
  by (induction n bs rule: coalesce.induct) (auto simp: ac_simps)

lemma a_free_append: "a_free (span pre) (pre @ (k, True) # post) = pre @ coalesce k post"
  by (induction pre rule: span.induct) auto

lemma live_append: "live a (xs @ ys) x =
    (case live a xs x of Some k \<Rightarrow> Some k | None \<Rightarrow> live (a + span xs) ys x)"
  by (induction a xs x rule: live.induct) (auto simp: ac_simps split: option.split)

lemma live_a_free:
  assumes "live a bs x = Some k"
  shows "live a (a_free (x - a - 8) bs) = (live a bs)(x := None)" "span (a_free (x - a - 8) bs) = span bs"
proof -
  obtain pre post where bs: "bs = pre @ (k, True) # post" and x: "x = a + span pre + 8"
    using live_split [OF assms] by blast
  then have eq: "a_free (x - a - 8) bs = pre @ coalesce k post"
    by (simp add: a_free_append)
  have "live a pre x = None"
    using live_bounds [of a pre x] x by (cases "live a pre x") auto
  moreover have "live (a + span pre + 8 + k) post x = None"
    using x by (intro live_None) simp
  ultimately show "live a (a_free (x - a - 8) bs) = (live a bs)(x := None)"
    unfolding eq unfolding bs using x by (auto simp: fun_eq_iff live_append live_coalesce split: option.splits)
  show "span (a_free (x - a - 8) bs) = span bs"
    unfolding eq unfolding bs by (simp add: span_coalesce)
qed

lemma layout_modifies:
  assumes "layout m a bs" "modifies m m' lo hi" "a + span bs + 8 \<le> lo \<or> hi \<le> a"
    "a + span bs + 8 \<le> 4294967296"
  shows "layout m' a bs"
proof -
  let ?e = "a + span bs"
  have "load32 m' (adr ?e) = load32 m (adr ?e)" "load32 m' (adr (?e + 4)) = load32 m (adr (?e + 4))"
    using assms(3,4) by (auto intro!: modifies_load32 [OF assms(2)])
  moreover have "chunk m' a bs"
    using assms by (intro chunk_modifies [OF _ assms(2)]) (auto simp: layout_def)
  ultimately show ?thesis using assms(1) by (simp add: layout_def)
qed

lemma heap_wf_frame:
  assumes "heap_wf h m bs" "modifies m m' lo hi"
    "unat (start h) + unat (hsize h) \<le> lo \<or> hi \<le> unat (start h)"
  shows "heap_wf h m' bs"
  using assms layout_modifies [OF heap_wfD(1) [OF assms(1)] assms(2)]
  by (auto simp: heap_wf_def)

lemma layout_head: "layout m a bs \<Longrightarrow>
    load32 m (adr a) = hmagic (case bs of [] \<Rightarrow> True | (k, u) # _ \<Rightarrow> u)"
  by (auto simp: layout_def split: list.split)

text \<open>One turn of the merging loop, seen from the block list.\<close>

lemma heap_merge_loop_step:
  assumes "load32 m (adr (a + 4)) = adr n" "load32 m (adr q) = hmagic False"
    "load32 m (adr (q + 4)) = adr k" "q = a + 8 + n" "q + 8 + k < lim" "lim < 4294967296"
  shows "heap_merge_loop (adr lim) (adr a) (adr q) m =
    heap_merge_loop (adr lim) (adr a) (adr (q + 8 + k)) (store32 m (adr (a + 4)) (adr (n + k + 8)))"
proof -
  let ?m = "store32 m (adr (a + 4)) (adr (n + k + 8))"
  have lt: "adr q < adr lim" using assms by (simp add: adr_less_iff)
  have sz: "hdr_size m (adr a) = adr n" "hdr_size m (adr q) = adr k"
    using assms by simp_all
  have sum: "adr n + (adr k + hdr_len) = adr (n + k + 8)" by (simp add: ac_simps)
  have st: "adr a + 4 = adr (a + 4)" by simp
  have "load32 ?m (adr (q + 4)) = adr k"
    using assms by (simp add: load32_store32_other)
  then have "hdr_size ?m (adr q) + (adr q + hdr_len) = adr (q + 8 + k)" by (simp add: ac_simps)
  then show ?thesis
    using lt assms(1-3) by (subst heap_merge_loop.simps) (simp add: Let_def ac_simps)
qed

lemma heap_merge_loop_stop:
  assumes "load32 m (adr q) = hmagic True"
  shows "heap_merge_loop lim p (adr q) m = Some m"
  using assms by (subst heap_merge_loop.simps) simp

lemma heap_merge_loop_end:
  "layout m q [] \<Longrightarrow> heap_merge_loop lim p (adr q) m = Some m"
  using heap_merge_loop_stop layout_head [of m q "[]"] by simp

lemma heap_merge_loop_refines:
  assumes "layout m (a + 8 + n) bs" "load32 m (adr a) = hmagic False" "load32 m (adr (a + 4)) = adr n"
    "0 < n" "lim = a + 8 + n + span bs + 8" "lim < 4294967296"
  shows "\<exists>m'. heap_merge_loop (adr lim) (adr a) (adr (a + 8 + n)) m = Some m' \<and>
     layout m' a (coalesce n bs) \<and> modifies m m' (a + 4) (a + 8)"
  using assms
proof (induction n bs arbitrary: m rule: coalesce.induct)
  case (1 n k bs)
  let ?q = "a + 8 + n" and ?N = "n + k + 8"
  note lay = "1.prems"(1) [unfolded layout_Cons]
  let ?m = "store32 m (adr (a + 4)) (adr ?N)"
  have mod: "modifies m ?m (a + 4) (a + 8)"
    using "1.prems"(5,6) modifies_store32 [of "a + 4" m] by (simp add: add.commute)
  have q: "?q + 8 + k = a + 8 + ?N" by simp
  have "layout ?m (a + 8 + ?N) bs"
    using lay "1.prems"(5,6) unfolding q [symmetric] by (intro layout_modifies [OF _ mod]) auto
  moreover have "load32 ?m (adr a) = hmagic False" "load32 ?m (adr (a + 4)) = adr ?N"
    using "1.prems" by (simp_all add: load32_store32_other)
  ultimately obtain m' where m': "heap_merge_loop (adr lim) (adr a) (adr (a + 8 + ?N)) ?m = Some m'"
      "layout m' a (coalesce ?N bs)" "modifies ?m m' (a + 4) (a + 8)"
    using "1.IH" [of ?m] "1.prems"(5,6) by auto
  have "heap_merge_loop (adr lim) (adr a) (adr ?q) m = heap_merge_loop (adr lim) (adr a) (adr (a + 8 + ?N)) ?m"
    unfolding q [symmetric] using lay "1.prems"(3,5,6) by (intro heap_merge_loop_step) auto
  with m' mod show ?case by (auto intro: modifies_trans)
qed (auto simp: layout_Cons heap_merge_loop_end heap_merge_loop_stop)


lemma heap_free_refines:
  assumes wf: "heap_wf h (ram s) bs" and live: "live (unat (start h)) bs (unat ptr) = Some k"
  shows "\<exists>m'. heap_free h ptr s = Some (section_exit s m') \<and>
      heap_wf h m' (a_free (unat ptr - unat (start h) - 8) bs) \<and>
      modifies (ram s) m' (unat ptr - 8) (unat ptr)"
proof -
  let ?a = "unat (start h)" and ?m = "ram s"
  obtain pre post where bs: "bs = pre @ (k, True) # post" and ptr: "unat ptr = ?a + span pre + 8"
    using live_split [OF live] by blast
  let ?x = "?a + span pre"
  note w = heap_wfD [OF wf]
  have lim: "?a + span bs + 8 = ?x + 8 + k + span post + 8" "?x + 8 + k + span post + 8 < 4294967296"
    using w(2) bs by simp_all
  have lay: "layout ?m ?a (pre @ [(k, True)] @ post)" using w(1) bs by simp
  then have hdr: "load32 ?m (adr ?x) = hmagic True" "load32 ?m (adr (?x + 4)) = adr k" "0 < k"
    by (auto simp: layout_def chunk_append)
  let ?m1 = "store32 ?m (adr ?x) (hmagic False)"
  have mod1: "modifies ?m ?m1 ?x (?x + 8)"
    using lim by (auto intro: modifies_store32_step)
  have hdr1: "load32 ?m1 (adr ?x) = hmagic False" "load32 ?m1 (adr (?x + 4)) = adr k"
    using hdr lim by (simp_all add: load32_store32_other)
  have "layout ?m (?x + 8 + k) post"
    using lay by (simp add: layout_def chunk_append ac_simps)
  then have "layout ?m1 (?x + 8 + k) post"
    using lim by (intro layout_modifies [OF _ mod1]) auto
  then obtain m2 where m2: "heap_merge_loop (adr (?x + 8 + k + span post + 8)) (adr ?x) (adr (?x + 8 + k)) ?m1 = Some m2"
      "layout m2 ?x (coalesce k post)" "modifies ?m1 m2 (?x + 4) (?x + 8)"
    using heap_merge_loop_refines [OF _ hdr1 hdr(3) refl] lim by blast
  have mod: "modifies ?m m2 ?x (?x + 8)"
    using mod1 by (rule modifies_trans) (rule modifies_mono [OF m2(3)], simp_all)
  have p: "ptr = adr (?x + 8)" using ptr by (metis adr_unat)
  have "ptr \<noteq> 0" using ptr by (auto simp: unat_gt_0)
  have "heap_free h ptr s = Some (section_exit s m2)"
    using \<open>ptr \<noteq> 0\<close> hdr(1) hdr1 m2(1) w(4) lim(1)
    unfolding heap_free_def Let_def section_exit_def p by (simp add: adr_diff_numeral MEMBLOCK_HDR_MAGIC_def ac_simps)
  moreover have "chunk m2 ?a pre"
    using lay lim by (intro chunk_modifies [OF _ mod]) (auto simp: layout_def chunk_append)
  then have "layout m2 ?a (pre @ coalesce k post)"
    using m2(2) by (simp add: layout_def chunk_append ac_simps)
  then have "heap_wf h m2 (a_free (unat ptr - ?a - 8) bs)"
    using heap_wfI [OF wf] ptr bs by (simp add: a_free_append span_coalesce)
  ultimately show ?thesis using mod ptr by auto
qed

subsection \<open>Accounting\<close>

fun a_sum :: "bool \<Rightarrow> block list \<Rightarrow> nat" where
  "a_sum u [] = 0"
| "a_sum u ((k, v) # bs) = (if u = v then k else 0) + a_sum u bs"

lemma a_sum_total: "a_sum True bs + a_sum False bs + 8 * length bs = span bs"
  by (induction bs rule: span.induct) auto

lemma hmagic_eq_iff: "hmagic u = hmagic v \<longleftrightarrow> u = v"
  by (cases u; cases v) simp_all

lemma heap_sum_loop_refines:
  assumes "layout m a bs" "a + span bs + 8 < 4294967296"
  shows "heap_sum_loop (hmagic u) (adr (a + span bs + 8)) (adr a) acc m = Some (acc + adr (a_sum u bs))"
  using assms
proof (induction u bs arbitrary: a acc rule: a_sum.induct)
  case (1 u)
  then have "hdr_size m (adr a) = 0" "adr a < adr (a + 8)"
    by (simp_all add: layout_def adr_less_iff)
  then have "heap_sum_loop (hmagic u) (adr (a + 8)) (adr a) acc m =
      heap_sum_loop (hmagic u) (adr (a + 8)) (adr (a + 8)) acc m"
    by (subst heap_sum_loop.simps) simp
  also have "\<dots> = Some acc" by (subst heap_sum_loop.simps) simp
  finally show ?case by simp
next
  case (2 u k v bs)
  let ?e = "a + span ((k, v) # bs) + 8"
  have lay: "load32 m (adr a) = hmagic v" "hdr_size m (adr a) = adr k" "layout m (a + 8 + k) bs"
    using "2.prems"(1) by (simp_all add: layout_Cons)
  have "adr a < adr ?e" using "2.prems"(2) by (subst adr_less_iff) auto
  then have "heap_sum_loop (hmagic u) (adr ?e) (adr a) acc m =
      heap_sum_loop (hmagic u) (adr ?e) (adr (a + 8 + k)) (if u = v then acc + adr k else acc) m"
    using lay by (subst heap_sum_loop.simps) (auto simp: hmagic_eq_iff ac_simps)
  then show ?case
    using "2.IH" [OF lay(3)] "2.prems"(2) by (auto simp: ac_simps)
qed


lemma heap_accounting:
  assumes "heap_wf h (ram s) bs"
  shows "\<exists>free used. heap_freemem h s = Some (adr free, section_exit s (ram s)) \<and>
     heap_usedmem h s = Some (adr used, section_exit s (ram s)) \<and>
     free = a_sum False bs \<and> used = a_sum True bs \<and>
     free + used + 8 * (length bs + 1) = unat (hsize h)"
proof -
  note w = heap_wfD [OF assms]
  have sm: "heap_sum_loop (hmagic u) (start h + hsize h) (start h) 0 (ram s) = Some (adr (a_sum u bs))" for u
    using heap_sum_loop_refines [OF w(1,2), of u 0] w(4) by simp
  have "preempt_enable (preempt_disable s) = section_exit s (ram s)"
    by (simp add: section_exit_def)
  then show ?thesis
    using sm [of True] sm [of False] a_sum_total [of bs] assms
    by (auto simp: heap_freemem_def heap_usedmem_def hmagic_def heap_wf_def)
qed

subsection \<open>Initialisation\<close>

lemma heap_init_wf:
  assumes "start0 \<noteq> 0" "18 \<le> unat len" "unat start0 + unat len < 4294967296"
  shows "case heap_init start0 len s of (h, s') \<Rightarrow>
    heap_wf h (ram s') [(unat len div 2 * 2 - 16, False)] \<and>
    modifies (ram s) (ram s') (unat start0) (unat start0 + unat len)"
proof -
  define a k where "a = unat start0" and "k = unat len div 2 * 2 - 16"
  have a: "start0 = adr a" "unat start0 = a" "0 < a" "a + unat len < 4294967296"
    using assms by (simp_all add: a_def unat_gt_0)
  have "18 \<le> unat len div 2 * 2" "unat len div 2 * 2 \<le> unat len"
    using assms(2) by presburger+
  then have k: "unat len div 2 * 2 = k + 16" "0 < k" "k + 16 \<le> unat len"
    by (auto simp: k_def)
  have len: "len AND NOT 1 = adr (k + 16)"
    using and_not_mask_nat [of len 1] k(1) by (metis adr_unat mask_1 power_one_right)
  have sz: "adr (k + 16) - 2 * hdr_len = adr k"
    using adr_diff [of 16 "k + 16"] by simp
  let ?m1 = "store32 (store32 (ram s) (adr a) (hmagic False)) (adr (a + 4)) (adr k)"
  let ?m2 = "store32 (store32 ?m1 (adr (a + k + 8)) (hmagic True)) (adr (a + k + 12)) 0"
  have "heap_init start0 len s = (\<lparr>start = start0, hsize = adr (k + 16)\<rparr>, s\<lparr>ram := ?m2\<rparr>)"
    unfolding heap_init_def Let_def len sz write_hdr_def a(1)
    by (simp add: hmagic_def MEMBLOCK_HDR_MAGIC_def add.commute)
  moreover have "layout ?m2 a [(k, False)]"
    using a k by (simp add: layout_def load32_store32_other ac_simps)
  moreover have "modifies (ram s) ?m2 a (a + unat len)"
    using a k by (auto intro!: modifies_store32_step)
  ultimately show ?thesis
    using a k assms(1) by (simp add: heap_wf_def k_def [symmetric])
qed

subsection \<open>Clearing and copying\<close>

lemma adr_index: "adr x + 4 * adr n = adr (x + 4 * n)"
  by (metis adr_fold(5) of_nat_mult of_nat_numeral)

lemma byte_index:
  assumes "i < 4 * Suc n"
  obtains "i < 4 * n" | j where "j < 4" "i = 4 * n + j"
proof (cases "i < 4 * n")
  case False
  then have "i - 4 * n < 4" "i = 4 * n + (i - 4 * n)" using assms by auto
  then show thesis using that(2) by blast
qed (use that(1) in simp)

lemma zero_words_spec:
  "a + 4 * n \<le> 4294967296 \<Longrightarrow> modifies m (zero_words (adr a) n m) a (a + 4 * n) \<and>
     (\<forall>i < 4 * n. zero_words (adr a) n m (adr (a + i)) = 0)"
proof (induction n arbitrary: m)
  case (Suc n)
  let ?m = "store32 m (adr (a + 4 * n)) 0" and ?m' = "zero_words (adr a) n (store32 m (adr (a + 4 * n)) 0)"
  have IH: "modifies ?m ?m' a (a + 4 * n)" "\<forall>i < 4 * n. ?m' (adr (a + i)) = 0"
    using Suc.IH [of ?m] Suc.prems by auto
  have "?m' (adr (a + i)) = 0" if "i < 4 * Suc n" for i
    using that
  proof (cases rule: byte_index)
    case 1
    then show ?thesis using IH(2) by simp
  next
    case (2 j)
    then have "?m' (adr (a + i)) = ?m (adr (a + 4 * n + j))"
      using modifies_at [OF IH(1), of "a + i"] Suc.prems by (simp add: ac_simps)
    then show ?thesis using store32_byte [OF 2(1), of m "a + 4 * n" 0] by simp
  qed
  moreover have "modifies m ?m' a (a + 4 * Suc n)"
    by (rule modifies_trans [of m ?m])
      (use Suc.prems in \<open>auto intro: modifies_store32_step modifies_mono [OF IH(1)]\<close>)
  ultimately show ?case by (simp only: zero_words.simps adr_index) blast
qed simp

lemma copy_words_spec:
  "d + 4 * n \<le> 4294967296 \<Longrightarrow> a + 4 * n \<le> 4294967296 \<Longrightarrow> a + 4 * n \<le> d \<or> d + 4 * n \<le> a \<Longrightarrow>
     modifies m (copy_words (adr d) (adr a) n m) d (d + 4 * n) \<and>
     (\<forall>i < 4 * n. copy_words (adr d) (adr a) n m (adr (d + i)) = m (adr (a + i)))"
proof (induction n arbitrary: m)
  case (Suc n)
  let ?m = "store32 m (adr (d + 4 * n)) (load32 m (adr (a + 4 * n)))"
  let ?m' = "copy_words (adr d) (adr a) n ?m"
  have IH: "modifies ?m ?m' d (d + 4 * n)" "\<forall>i < 4 * n. ?m' (adr (d + i)) = ?m (adr (a + i))"
    using Suc.IH [of ?m] Suc.prems by auto
  have st: "modifies m ?m (d + 4 * n) (d + 4 * Suc n)"
    using Suc.prems by (auto intro: modifies_store32_step)
  have "?m' (adr (d + i)) = m (adr (a + i))" if "i < 4 * Suc n" for i
    using that
  proof (cases rule: byte_index)
    case 1
    then show ?thesis
      using IH(2) modifies_at [OF st, of "a + i"] Suc.prems by auto
  next
    case (2 j)
    then have "?m' (adr (d + i)) = ?m (adr (d + 4 * n + j))"
      using modifies_at [OF IH(1), of "d + i"] Suc.prems by (simp add: ac_simps)
    then show ?thesis
      using store32_load32_byte [OF 2(1), of m "d + 4 * n" m "a + 4 * n"] 2(2) by (simp add: ac_simps)
  qed
  moreover have "modifies m ?m' d (d + 4 * Suc n)"
    by (rule modifies_trans [of m ?m])
      (auto intro: modifies_mono [OF st] modifies_mono [OF IH(1)])
  ultimately show ?case by (simp only: copy_words.simps adr_index) blast
qed simp

lemma layout_payload:
  assumes "layout m a bs" "live a bs x = Some k" "modifies m m' x (x + k)"
    "a + span bs + 8 \<le> 4294967296"
  shows "layout m' a bs"
proof -
  let ?e = "a + span bs"
  have "load32 m' (adr ?e) = load32 m (adr ?e)" "load32 m' (adr (?e + 4)) = load32 m (adr (?e + 4))"
    using assms(4) live_bounds [OF assms(2)] by (auto intro!: modifies_load32 [OF assms(3)])
  then show ?thesis
    using assms chunk_payload [OF _ assms(2,3)] by (simp add: layout_def)
qed

lemma heap_wf_payload:
  "heap_wf h m bs \<Longrightarrow> live (unat (start h)) bs x = Some k \<Longrightarrow> modifies m m' x (x + k) \<Longrightarrow>
     heap_wf h m' bs"
  using heap_wfD(2) [of h m bs] by (auto simp: heap_wf_def intro: layout_payload)

lemma live_disjoint:
  "live a bs x = Some j \<Longrightarrow> live a bs y = Some k \<Longrightarrow> x < y \<Longrightarrow> x + j + 8 \<le> y"
proof (induction a bs x rule: live.induct)
  case (2 a n u bs x)
  then show ?case
    using live_bounds [of "a + 8 + n" bs y k] live_bounds [of "a + 8 + n" bs x j]
    by (auto split: if_splits)
qed simp

lemma live_positive: "chunk m a bs \<Longrightarrow> live a bs x = Some k \<Longrightarrow> 0 < k"
  by (induction m a bs rule: chunk.induct) (auto split: if_splits)


subsection \<open>The heap as an allocator\<close>

text \<open>The refinement lemmas in terms of the live regions only.\<close>

lemma heap_malloc_cases:
  assumes wf: "heap_wf h (ram s) bs" and sz: "sz \<noteq> 0" "unat sz \<le> 4294967292"
  shows "a_malloc (align4 (unat sz)) bs = None \<and> heap_malloc h sz s = Some (0, section_exit s (ram s)) \<or>
    a_malloc (align4 (unat sz)) bs \<noteq> None \<and> (\<exists>p m' bs' k. heap_malloc h sz s = Some (p, section_exit s m') \<and> p \<noteq> 0 \<and> heap_wf h m' bs' \<and>
       live (unat (start h)) bs (unat p) = None \<and> align4 (unat sz) \<le> k \<and>
       live (unat (start h)) bs' = (live (unat (start h)) bs)(unat p \<mapsto> k) \<and>
       preserves (live (unat (start h)) bs) (ram s) m')"
proof (cases "a_malloc (align4 (unat sz)) bs")
  case None
  with heap_malloc_refines [OF assms] show ?thesis by simp
next
  case (Some r)
  let ?a = "unat (start h)"
  obtain off bs' where r: "a_malloc (align4 (unat sz)) bs = Some (off, bs')"
    using Some by (cases r) auto
  then obtain m' where m': "heap_malloc h sz s = Some (adr (?a + off + 8), section_exit s m')"
    "heap_wf h m' bs'" "\<forall>x k. live ?a bs x = Some k \<longrightarrow> agree (ram s) m' x (x + k)"
    using heap_malloc_refines [OF assms] by auto
  obtain k where k: "align4 (unat sz) \<le> k" "off + 8 + k \<le> span bs"
    "live ?a bs' = (live ?a bs)(?a + off + 8 \<mapsto> k)" "live ?a bs (?a + off + 8) = None"
    using a_malloc_live [OF r, of ?a] by blast
  have some: "a_malloc (align4 (unat sz)) bs \<noteq> None" using r by simp
  have "?a + off + 8 < 4294967296" using k(2) heap_wfD(2) [OF wf] by simp
  then have "unat (adr (?a + off + 8)) = ?a + off + 8" "adr (?a + off + 8) \<noteq> 0"
    by (simp_all add: adr_eq_0_iff)
  then show ?thesis
    using m' k by (intro disjI2 conjI [OF some] exI [of _ "adr (?a + off + 8)"] exI [of _ m'] exI [of _ bs'] exI [of _ k])
      (simp add: preserves_def)
qed

lemma heap_free_live:
  assumes wf: "heap_wf h (ram s) bs" and live: "live (unat (start h)) bs (unat p) = Some k"
  shows "\<exists>m' bs'. heap_free h p s = Some (section_exit s m') \<and> heap_wf h m' bs' \<and>
    live (unat (start h)) bs' = (live (unat (start h)) bs)(unat p := None) \<and>
    preserves (live (unat (start h)) bs) (ram s) m'"
proof -
  let ?a = "unat (start h)"
  obtain m' where m': "heap_free h p s = Some (section_exit s m')"
    "heap_wf h m' (a_free (unat p - ?a - 8) bs)" "modifies (ram s) m' (unat p - 8) (unat p)"
    using heap_free_refines [OF assms] by blast
  have "agree (ram s) m' x (x + j)" if x: "live ?a bs x = Some j" for x j
  proof -
    obtain pre post where bs: "bs = pre @ (k, True) # post" and ptr: "unat p = ?a + span pre + 8"
      using live_split [OF live] by blast
    have "x + j \<le> unat p - 8 \<or> unat p \<le> x"
      using x live_bounds [of ?a pre x j] live_bounds [of "?a + span pre" "(k, True) # post" x j] ptr
      by (auto simp: bs live_append split: option.splits)
    then show ?thesis
      using live_bounds [OF x] heap_wfD(2) [OF wf] by (intro modifies_agree [OF m'(3)]) auto
  qed
  then show ?thesis
    using m' live_a_free(1) [OF live] by (auto simp: preserves_def)
qed

interpretation heap: allocator ram "\<lambda>m s. s\<lparr>ram := m\<rparr>" "\<lambda>s bs. heap_wf h (ram s) bs" "live (unat (start h))"
  "heap_malloc h" "heap_free h" 4294967292 for h
proof unfold_locales
  fix s :: machine and bs n p k x j y m
  show "heap_malloc h 0 s = Some (0, s)" by (simp add: heap_malloc_def)
  show "heap_free h 0 s = Some s" by (simp add: heap_free_def)
  assume wf: "heap_wf h (ram s) bs"
  note pos = wf [THEN heap_wfD(3)] and lt = wf [THEN heap_wfD(2)]
  show "(\<exists>s'. heap_malloc h n s = Some (0, s') \<and> ram s' = ram s \<and> heap_wf h (ram s') bs) \<or>
      (\<exists>p s' A' k. heap_malloc h n s = Some (p, s') \<and> p \<noteq> 0 \<and> heap_wf h (ram s') A' \<and>
         live (unat (start h)) bs (unat p) = None \<and> unat n \<le> k \<and>
         live (unat (start h)) A' = (live (unat (start h)) bs)(unat p \<mapsto> k) \<and>
         preserves (live (unat (start h)) bs) (ram s) (ram s'))"
    if "n \<noteq> 0" "unat n \<le> 4294967292"
    using heap_malloc_cases [OF wf that]
  proof (elim disjE exE conjE)
    assume "a_malloc (align4 (unat n)) bs = None" "heap_malloc h n s = Some (0, section_exit s (ram s))"
    then show ?thesis using wf by (intro disjI1 exI [of _ "section_exit s (ram s)"]) simp
  next
    fix p m' bs' k
    assume "a_malloc (align4 (unat n)) bs \<noteq> None" "heap_malloc h n s = Some (p, section_exit s m')" "p \<noteq> 0" "heap_wf h m' bs'"
      "live (unat (start h)) bs (unat p) = None" "align4 (unat n) \<le> k"
      "live (unat (start h)) bs' = (live (unat (start h)) bs)(unat p \<mapsto> k)"
      "preserves (live (unat (start h)) bs) (ram s) m'"
    moreover from this(6) have "unat n \<le> k" using align4_bounds(1) order.trans by blast
    ultimately show ?thesis
      by (intro disjI2 exI [of _ p] exI [of _ "section_exit s m'"] exI [of _ bs'] exI [of _ k]) simp
  qed
  show "\<exists>s' A'. heap_free h p s = Some s' \<and> heap_wf h (ram s') A' \<and>
      live (unat (start h)) A' = (live (unat (start h)) bs)(unat p := None) \<and>
      preserves (live (unat (start h)) A') (ram s) (ram s')"
    if l: "live (unat (start h)) bs (unat p) = Some k"
  proof -
    obtain m' bs' where "heap_free h p s = Some (section_exit s m')" "heap_wf h m' bs'"
      "live (unat (start h)) bs' = (live (unat (start h)) bs)(unat p := None)"
      "preserves (live (unat (start h)) bs) (ram s) m'"
      using heap_free_live [OF wf l] by blast
    then show ?thesis
      by (intro exI [of _ "section_exit s m'"] exI [of _ bs']) (simp add: preserves_remove)
  qed
  show "x + j \<le> y" if "live (unat (start h)) bs x = Some j" "live (unat (start h)) bs y = Some k" "x < y"
    using live_disjoint [OF that] by simp
  show "0 < x \<and> x + j < 4294967296" if "live (unat (start h)) bs x = Some j"
    using live_bounds [OF that] lt by auto
  show "heap_wf h (ram (s\<lparr>ram := m\<rparr>)) bs"
    if "live (unat (start h)) bs x = Some j" "modifies (ram s) m x (x + j)"
    using heap_wf_payload [OF wf that] by simp
qed


subsection \<open>calloc and realloc\<close>

lemma word_count_align4:
  fixes n :: u32
  assumes "unat n \<le> 4294967292"
  shows "4 * unat (drop_bit 2 (n + (2 ^ 2 - 1))) = align4 (unat n)"
proof -
  have "unat (n + (2 ^ 2 - 1)) = unat n + 3"
    using assms by (simp add: unat_word_ariths)
  moreover have "unat (drop_bit 2 (n + (2 ^ 2 - 1))) = unat (n + (2 ^ 2 - 1)) div 4"
    using unat_drop_bit_eq [of 2 "n + (2 ^ 2 - 1)"] by (simp only: drop_bit_eq_div) simp
  ultimately show ?thesis by (simp only: align4_def)
qed

lemma live_fits:
  "heap_wf h m bs \<Longrightarrow> live (unat (start h)) bs x = Some k \<Longrightarrow> 0 < x \<and> x + k < 4294967296"
  by (rule heap.live_range [where s = "\<lparr>ram = m, irq_enabled = False, preempt_count = 0\<rparr>" and A = bs]) simp_all

lemma heap_calloc_cases:
  assumes wf: "heap_wf h (ram s) bs"
    and n: "0 < unat nmemb * unat sz" "unat nmemb * unat sz \<le> 4294967292"
  shows "a_malloc (align4 (unat nmemb * unat sz)) bs = None \<and>
      heap_calloc h nmemb sz s = Some (0, section_exit s (ram s)) \<or>
    a_malloc (align4 (unat nmemb * unat sz)) bs \<noteq> None \<and> (\<exists>p m' bs' k. heap_calloc h nmemb sz s = Some (p, section_exit s m') \<and> p \<noteq> 0 \<and>
       heap_wf h m' bs' \<and> live (unat (start h)) bs (unat p) = None \<and>
       unat nmemb * unat sz \<le> k \<and>
       live (unat (start h)) bs' = (live (unat (start h)) bs)(unat p \<mapsto> k) \<and>
       preserves (live (unat (start h)) bs) (ram s) m' \<and>
       (\<forall>i < unat nmemb * unat sz. m' (adr (unat p + i)) = 0))"
proof -
  let ?a = "unat (start h)" and ?n = "nmemb * sz"
  have un: "unat ?n = unat nmemb * unat sz" using n(2) by (simp add: unat_mult_lem [THEN iffD1])
  then have nz: "?n \<noteq> 0" and le: "unat ?n \<le> 4294967292" using n by auto
  from heap_malloc_cases [OF wf nz le] show ?thesis
  proof (elim disjE exE conjE)
    assume "a_malloc (align4 (unat ?n)) bs = None" "heap_malloc h ?n s = Some (0, section_exit s (ram s))"
    then show ?thesis by (simp add: heap_calloc_def un)
  next
    fix p m' bs' k
    assume some: "a_malloc (align4 (unat ?n)) bs \<noteq> None"
    note some = some [unfolded un]
    assume m: "heap_malloc h ?n s = Some (p, section_exit s m')" and p: "p \<noteq> 0" and wf': "heap_wf h m' bs'"
      and fresh: "live ?a bs (unat p) = None" and k: "align4 (unat ?n) \<le> k"
      and bs': "live ?a bs' = (live ?a bs)(unat p \<mapsto> k)" and pr: "preserves (live ?a bs) (ram s) m'"
    let ?w = "unat (drop_bit 2 (?n + (2 ^ 2 - 1)))"
    let ?m = "zero_words p ?w m'"
    have w: "4 * ?w = align4 (unat ?n)" by (rule word_count_align4 [OF le])
    have fit: "unat p + k < 4294967296" using live_fits [OF wf', of "unat p" k] bs' by simp
    have z: "modifies m' ?m (unat p) (unat p + 4 * ?w)" "\<forall>i < 4 * ?w. ?m (adr (unat p + i)) = 0"
      using zero_words_spec [of "unat p" ?w m'] fit k w by simp_all
    have mod: "modifies m' ?m (unat p) (unat p + k)"
      using z(1) k w by (auto elim: modifies_mono)
    have "heap_wf h ?m bs'" using heap_wf_payload [OF wf' _ mod] bs' by simp
    moreover have "preserves ((live ?a bs')(unat p := None)) m' ?m"
      using heap.write_preserves [of h "section_exit s m'" bs' "unat p" k ?m] wf' bs' mod by simp
    then have "preserves (live ?a bs) (ram s) ?m"
      using pr fresh bs' by (auto intro: preserves_trans simp: fun_upd_idem)
    moreover have "heap_calloc h nmemb sz s = Some (p, section_exit s ?m)"
      using m p by (simp add: heap_calloc_def section_exit_def preempt_enable_def Let_def)
    moreover have "unat ?n \<le> align4 (unat ?n)" by (rule align4_bounds(1))
    ultimately show ?thesis
      using p fresh bs' k z(2) w unfolding un by (intro disjI2 conjI [OF some] exI [of _ p] exI [of _ ?m] exI [of _ bs'] exI [of _ k]) auto
  qed
qed

lemma heap_hdr_live:
  assumes wf: "heap_wf h m bs" and live: "live (unat (start h)) bs (unat p) = Some k"
  shows "hdr_magic m (p - hdr_len) = MEMBLOCK_HDR_MAGIC OR 1" "hdr_size m (p - hdr_len) = adr k"
proof -
  let ?a = "unat (start h)"
  obtain pre post where bs: "bs = pre @ (k, True) # post" and x: "unat p = ?a + span pre + 8"
    using live_split [OF live] by blast
  have "p = adr (?a + span pre + 8)" using x by (metis adr_unat)
  then have p: "p - hdr_len = adr (?a + span pre)" by (simp add: adr_diff_numeral)
  show "hdr_magic m (p - hdr_len) = MEMBLOCK_HDR_MAGIC OR 1" "hdr_size m (p - hdr_len) = adr k"
    using heap_wfD(1) [OF wf] unfolding p bs by (simp_all add: layout_def chunk_append MEMBLOCK_HDR_MAGIC_def)
qed

text \<open>
  The copying step of \<^verbatim>\<open>heap_realloc\<close>: the word-wise copy of the smaller of the two
  sizes, rounded up to whole words, stays inside the new block, and although it may read past the
  old block the surplus bytes are its neighbour's header, which no copy overwrites.
\<close>

lemma heap_copy:
  assumes wf: "heap_wf h m bs" and old: "live (unat (start h)) bs (unat ptr) = Some k"
    and new: "live (unat (start h)) bs (unat p) = Some k'" and ne: "unat p \<noteq> unat ptr"
    and n: "unat (n :: u32) \<le> k" "align4 (unat n) \<le> k'"
  shows "modifies m (copy_words p ptr (unat (drop_bit 2 (n + (2 ^ 2 - 1)))) m) (unat p) (unat p + k')"
    "\<forall>i < unat n. copy_words p ptr (unat (drop_bit 2 (n + (2 ^ 2 - 1)))) m (adr (unat p + i)) =
       m (adr (unat ptr + i))"
proof -
  let ?w = "unat (drop_bit 2 (n + (2 ^ 2 - 1)))"
  have fit: "unat ptr + k + 8 < 4294967296" "unat p + k' < 4294967296"
    using live_bounds [OF old] live_bounds [OF new] heap_wfD(2) [OF wf] by auto
  then have w: "4 * ?w = align4 (unat n)" using n(1) by (intro word_count_align4) simp
  have apart: "unat p + k' + 8 \<le> unat ptr \<or> unat ptr + k + 8 \<le> unat p"
    using live_disjoint [OF old new] live_disjoint [OF new old] ne by (cases "unat p < unat ptr") auto
  have c: "modifies m (copy_words p ptr ?w m) (unat p) (unat p + 4 * ?w) \<and>
      (\<forall>i < 4 * ?w. copy_words p ptr ?w m (adr (unat p + i)) = m (adr (unat ptr + i)))"
    using copy_words_spec [of "unat p" ?w "unat ptr" m] fit apart n align4_bounds(2) [of "unat n"]
    unfolding w by auto
  note c = c [unfolded w]
  show "modifies m (copy_words p ptr ?w m) (unat p) (unat p + k')"
    using c n(2) by (auto elim: modifies_mono)
  show "\<forall>i < unat n. copy_words p ptr ?w m (adr (unat p + i)) = m (adr (unat ptr + i))"
    using c align4_bounds(1) [of "unat n"] by auto
qed

lemma heap_realloc_run:
  assumes "ptr \<noteq> 0" "sz \<noteq> 0" "hdr_magic (ram s) (ptr - hdr_len) = MEMBLOCK_HDR_MAGIC OR 1"
    "heap_malloc h sz s = Some (p, section_exit s m1)" "p \<noteq> 0"
    "hdr_size m1 (ptr - hdr_len) = adr k" "k < 4294967296"
    "m2 = copy_words p ptr (unat (drop_bit 2 (adr (min (unat sz) k) + (2 ^ 2 - 1)))) m1"
    "heap_free h ptr (section_exit s m2) = Some (section_exit s m3)"
  shows "heap_realloc h ptr sz s = Some (p, section_exit s m3)"
proof -
  have "adr (min (unat sz) k) = (if adr k < sz then adr k else sz)"
    using assms(7) by (auto simp: word_less_nat_alt min_def)
  note assms(8) [unfolded this]
  then show ?thesis
    using assms(1-6,9) unfolding heap_realloc_def Let_def by (cases "adr k < sz") simp_all
qed

lemma heap_realloc_cases:
  assumes wf: "heap_wf h (ram s) bs" and live: "live (unat (start h)) bs (unat ptr) = Some k"
    and sz: "sz \<noteq> 0" "unat sz \<le> 4294967292"
  shows "a_malloc (align4 (unat sz)) bs = None \<and> heap_realloc h ptr sz s = Some (0, section_exit s (ram s)) \<or>
    a_malloc (align4 (unat sz)) bs \<noteq> None \<and> (\<exists>p m' bs' k'. heap_realloc h ptr sz s = Some (p, section_exit s m') \<and> p \<noteq> 0 \<and>
       heap_wf h m' bs' \<and> live (unat (start h)) bs (unat p) = None \<and> unat sz \<le> k' \<and>
       live (unat (start h)) bs' = (live (unat (start h)) bs)(unat p \<mapsto> k', unat ptr := None) \<and>
       preserves ((live (unat (start h)) bs)(unat ptr := None)) (ram s) m' \<and>
       (\<forall>i < min (unat sz) k. m' (adr (unat p + i)) = ram s (adr (unat ptr + i))))"
proof -
  let ?a = "unat (start h)" and ?n = "adr (min (unat sz) k)"
  note hdr = heap_hdr_live [OF wf live]
  have ptr: "ptr \<noteq> 0" using heap.live_word_range [of h s bs ptr k] wf live by simp
  have kl: "k < 4294967296" using live_fits [OF wf live] by simp
  then have n: "unat ?n = min (unat sz) k" by simp
  from heap_malloc_cases [OF wf sz] show ?thesis
  proof (elim disjE exE conjE)
    assume "a_malloc (align4 (unat sz)) bs = None" "heap_malloc h sz s = Some (0, section_exit s (ram s))"
    then show ?thesis using sz ptr hdr by (simp add: heap_realloc_def Let_def)
  next
    fix p m1 bs1 k1
    assume some: "a_malloc (align4 (unat sz)) bs \<noteq> None"
      and m1: "heap_malloc h sz s = Some (p, section_exit s m1)" "p \<noteq> 0" and wf1: "heap_wf h m1 bs1"
      and fresh: "live ?a bs (unat p) = None" and k1: "align4 (unat sz) \<le> k1"
      and bs1: "live ?a bs1 = (live ?a bs)(unat p \<mapsto> k1)" and pr1: "preserves (live ?a bs) (ram s) m1"
    have ne: "unat p \<noteq> unat ptr" using fresh live by auto
    have old: "live ?a bs1 (unat ptr) = Some k" and new: "live ?a bs1 (unat p) = Some k1"
      using bs1 live ne by simp_all
    define m2 where "m2 = copy_words p ptr (unat (drop_bit 2 (?n + (2 ^ 2 - 1)))) m1"
    have "align4 (unat ?n) \<le> k1" using k1 unfolding n align4_def
      by (meson div_le_mono dual_order.trans min.cobounded1 mult_le_mono1 add_le_mono1)
    then have c: "modifies m1 m2 (unat p) (unat p + k1)"
      "\<forall>i < min (unat sz) k. m2 (adr (unat p + i)) = m1 (adr (unat ptr + i))"
      using heap_copy [OF wf1 old new ne, of ?n] unfolding n m2_def by simp_all
    have wf2: "heap_wf h m2 bs1" by (rule heap_wf_payload [OF wf1 new c(1)])
    have pr2: "preserves ((live ?a bs1)(unat p := None)) m1 m2"
      using heap.write_preserves [of h "section_exit s m1" bs1 "unat p" k1 m2] wf1 new c(1) by simp
    obtain m3 bs3 where m3: "heap_free h ptr (section_exit s m2) = Some (section_exit s m3)"
      "heap_wf h m3 bs3" "live ?a bs3 = (live ?a bs1)(unat ptr := None)" "preserves (live ?a bs1) m2 m3"
      using heap_free_live [of h "section_exit s m2" bs1 ptr k] wf2 old by auto
    have run: "heap_realloc h ptr sz s = Some (p, section_exit s m3)"
      using heap_realloc_run [OF ptr sz(1) hdr(1) m1 heap_hdr_live(2) [OF wf1 old] kl m2_def m3(1)] .
    have "m3 (adr (unat p + i)) = ram s (adr (unat ptr + i))" if i: "i < min (unat sz) k" for i
    proof -
      have "i < k1" using i k1 align4_bounds(1) [of "unat sz"] by simp
      then have "m3 (adr (unat p + i)) = m2 (adr (unat p + i))"
        using preservesD [OF m3(4) new] by (auto simp: agree_def)
      also have "\<dots> = m1 (adr (unat ptr + i))" using c(2) i by simp
      also have "\<dots> = ram s (adr (unat ptr + i))"
        using preservesD [OF pr1 live] i by (auto simp: agree_def)
      finally show ?thesis .
    qed
    moreover have pres: "preserves ((live ?a bs)(unat ptr := None)) (ram s) m3"
    proof -
    have "preserves (live ?a bs) (ram s) m2"
      using pr1 pr2 fresh bs1 by (auto intro: preserves_trans simp: fun_upd_idem)
    moreover have "live ?a bs \<subseteq>\<^sub>m live ?a bs1"
      using bs1 fresh by (auto simp: map_le_def)
    then have "preserves (live ?a bs) m2 m3" by (rule preserves_mono [OF m3(4)])
    ultimately show ?thesis
      by (intro preserves_remove) (rule preserves_trans)
    qed
    moreover have "unat sz \<le> k1" using k1 align4_bounds(1) [of "unat sz"] by simp
    ultimately show ?thesis
      using run m1(2) m3(2,3) fresh bs1
      by (intro disjI2 conjI [OF some] exI [of _ p] exI [of _ m3] exI [of _ bs3] exI [of _ k1]) simp
  qed
qed

subsection \<open>Reuse, double frees and oversized requests\<close>

lemma coalesce_head: "\<exists>k bs'. coalesce n bs = (k, False) # bs' \<and> n \<le> k"
proof (induction n bs rule: coalesce.induct)
  case (1 n k bs)
  then show ?case by (metis add_leD1 coalesce.simps(1))
qed auto

lemma a_malloc_reuse:
  "a_malloc n bs = Some (off, bs') \<Longrightarrow> \<exists>bs2. a_malloc n (a_free off bs') = Some (off, bs2)"
proof (induction n bs arbitrary: off bs' rule: a_malloc.induct)
  case (2 n k u bs)
  show ?case
  proof (cases "\<not> u \<and> n \<le> k")
    case True
    then have "off = 0" "bs' = a_split n k @ bs" using "2.prems" by auto
    moreover obtain j js where "a_free 0 (a_split n k @ bs) = (j, False) # js" "n \<le> j"
      using coalesce_head [of n "(k - n - 8, False) # bs"] coalesce_head [of k bs] True
      by (cases "k - n > 11") auto
    ultimately show ?thesis by simp
  next
    case False
    then obtain off1 bs1 where "a_malloc n bs = Some (off1, bs1)" "off = k + 8 + off1" "bs' = (k, u) # bs1"
      using "2.prems" by (auto split: if_splits)
    then show ?thesis using "2.IH" [OF False] False by auto
  qed
qed simp

lemma heap_free_again:
  assumes wf: "heap_wf h (ram s) bs" and live: "live (unat (start h)) bs (unat ptr) = Some k"
  shows "\<exists>m'. heap_free h ptr s = Some (section_exit s m') \<and>
     heap_free h ptr (section_exit s m') = Some (section_exit s m')"
proof -
  let ?a = "unat (start h)"
  obtain pre post where bs: "bs = pre @ (k, True) # post" and ptr: "unat ptr = ?a + span pre + 8"
    using live_split [OF live] by blast
  obtain m' where m': "heap_free h ptr s = Some (section_exit s m')"
    "heap_wf h m' (a_free (unat ptr - ?a - 8) bs)"
    using heap_free_refines [OF assms] by blast
  obtain j js where "coalesce k post = (j, False) # js" using coalesce_head by blast
  then have "load32 m' (adr (?a + span pre)) = hmagic False"
    using heap_wfD(1) [OF m'(2)] ptr by (simp add: bs a_free_append layout_def chunk_append)
  moreover have p: "ptr = adr (?a + span pre + 8)" using ptr by (metis adr_unat)
  then have "ptr - hdr_len = adr (?a + span pre)" by (simp add: adr_diff_numeral)
  moreover have "ptr \<noteq> 0" using heap.live_word_range [of h s bs ptr k] wf live by simp
  ultimately have "heap_free h ptr (section_exit s m') = Some (section_exit (section_exit s m') m')"
    by (simp add: heap_free_def Let_def section_exit_def [symmetric] MEMBLOCK_HDR_MAGIC_def)
  with m'(1) show ?thesis by auto
qed

lemma last_three:
  fixes sz :: u32
  assumes "unat sz > 4294967292"
  shows "sz = 4294967293 \<or> sz = 4294967294 \<or> sz = 4294967295"
proof -
  have "unat sz < 4294967296" using unsigned_less [of sz] by simp
  with assms have "unat sz = 4294967293 \<or> unat sz = 4294967294 \<or> unat sz = 4294967295" by arith
  then show ?thesis by (auto simp: word_unat_eq_iff)
qed

lemma round_up_wraps: "unat sz > 4294967292 \<Longrightarrow> (sz + MEMBLOCK_ALIGN_MASK) AND NOT MEMBLOCK_ALIGN_MASK = 0"
  using last_three [of sz] by auto

lemma words_wrap: "unat n > 4294967292 \<Longrightarrow> unat (drop_bit 2 (n + (2 ^ 2 - 1) :: u32)) = 0"
  using last_three [of n] by auto

lemma heap_malloc_stuck:
  assumes "hdr_size (ram s) (start h) = 0"
  shows "\<exists>s'. heap_malloc h n s = Some (0, s')"
  using assms by (simp add: heap_malloc_def Let_def heap_malloc_loop.simps)

lemma heap_malloc_wraps:
  assumes wf: "heap_wf h (ram s) ((k, False) # bs)" and k: "11 < k" and sz: "unat sz > 4294967292"
  shows "\<exists>s'. heap_malloc h sz s = Some (start h + 8, s') \<and> hdr_size (ram s') (start h) = 0 \<and>
      modifies (ram s) (ram s') (unat (start h)) (unat (start h) + 16) \<and>
      (\<forall>n. \<exists>s''. heap_malloc h n s' = Some (0, s''))"
proof -
  let ?a = "unat (start h)" and ?m = "heap_take (ram s) (start h) 0"
  note w = heap_wfD [OF wf, unfolded layout_Cons]
  have hdr: "load32 (ram s) (adr ?a) = 0xc91d58be" "load32 (ram s) (adr (?a + 4)) = adr k" "0 < k"
    using w(1) by simp_all
  have eq: "?m = store32 (store32 (write_hdr (ram s) (adr (?a + 8)) 0xc91d58be (adr (k - 8)))
      (adr (?a + 4)) 0) (adr ?a) 0xc91d58bf"
    using heap_take_eq [OF hdr(1,2), of 0] w(2) k by simp
  have sz0: "sz \<noteq> 0" using sz by auto
  have m4: "hdr_size (ram s) (start h) = adr k"
    using hdr(2) by (metis adr_add adr_unat of_nat_numeral)
  have "adr k \<noteq> 0" using w(2) k by (simp add: adr_eq_0_iff)
  moreover have "hdr_magic (ram s) (start h) AND 1 = 0" using hdr(1) by simp
  ultimately have "heap_malloc_loop (start h) 0 (ram s) = Some (start h + 8, ?m)"
    using m4 by (subst heap_malloc_loop.simps) simp
  then have run: "heap_malloc h sz s = Some (start h + 8, section_exit s ?m)"
    using sz0 round_up_wraps [OF sz] by (simp add: heap_malloc_def section_exit_def)
  have "load32 ?m (adr (?a + 4)) = 0"
    using load32_store32_other [of ?a "?a + 4"] w(2) unfolding eq by simp
  then have sz: "hdr_size ?m (start h) = 0"
    by (metis adr_add adr_unat of_nat_numeral)
  have "modifies (ram s) ?m ?a (?a + 16)"
    using w(2) k unfolding eq write_hdr_adr by (intro modifies_store32_step modifies_refl) auto
  then show ?thesis using run sz heap_malloc_stuck [of "section_exit s ?m" h]
    by (intro exI [of _ "section_exit s ?m"]) simp
qed

lemma heap_calloc_wraps:
  assumes "heap_wf h (ram s) ((k, False) # bs)" "11 < k" "unat nmemb * unat sz > 4294967292"
    "unat nmemb * unat sz < 4294967296"
  shows "\<exists>s'. heap_calloc h nmemb sz s = Some (start h + 8, s') \<and> hdr_size (ram s') (start h) = 0 \<and>
      modifies (ram s) (ram s') (unat (start h)) (unat (start h) + 16) \<and>
      (\<forall>n. \<exists>s''. heap_malloc h n s' = Some (0, s''))"
proof -
  have un: "unat (nmemb * sz) = unat nmemb * unat sz" using assms(4) by (simp add: unat_mult_lem [THEN iffD1])
  then have big: "unat (nmemb * sz) > 4294967292" using assms(3) by simp
  obtain s' where s': "heap_malloc h (nmemb * sz) s = Some (start h + 8, s')" "hdr_size (ram s') (start h) = 0"
    "modifies (ram s) (ram s') (unat (start h)) (unat (start h) + 16)"
    "\<forall>n. \<exists>s''. heap_malloc h n s' = Some (0, s'')"
    using heap_malloc_wraps [OF assms(1,2) big] by auto
  have "heap_calloc h nmemb sz s = Some (start h + 8, s')"
    using s'(1) words_wrap [OF big] by (simp add: heap_calloc_def Let_def)
  then show ?thesis using s'(2-4) by auto
qed

subsection \<open>Properties\<close>

text \<open>
  A heap as the kernel finds it after \<^verbatim>\<open>heap_init\<close>: 1024 bytes at address 4096, and the
  machine it lives on.  The witnesses run the operations on it.
\<close>

definition reset_machine :: machine where
  "reset_machine = \<lparr>ram = (\<lambda>_. 0), irq_enabled = True, preempt_count = 0\<rparr>"

definition boot_heap :: heap_ctx where
  "boot_heap = fst (heap_init 4096 1024 reset_machine)"

definition boot_machine :: machine where
  "boot_machine = snd (heap_init 4096 1024 reset_machine)"

lemma boot_heap_sel: "start boot_heap = 4096" "hsize boot_heap = 1024"
  by (simp_all add: boot_heap_def heap_init_def Let_def)

lemma boot_heap_wf: "heap_wf boot_heap (ram boot_machine) [(1008, False)]"
  using heap_init_wf [of 4096 1024 reset_machine]
  by (simp add: boot_heap_def boot_machine_def split: prod.splits)

lemma boot_alloc_wf:
  "\<exists>s'. heap_malloc boot_heap 100 boot_machine = Some (4104, s') \<and>
     heap_wf boot_heap (ram s') [(100, True), (900, False)]"
  using heap_malloc_refines [OF boot_heap_wf, of 100] by (auto simp: align4_def boot_heap_sel)

text \<open>
  C1: \<^verbatim>\<open>heap_malloc\<close> implements first fit over the block list.  On a well-formed heap
  and for every size that can be rounded up to a multiple of four it returns; it returns NULL and
  leaves memory alone exactly when no free block is large enough, and otherwise the pointer to the
  payload of the first one that is, with the heap well formed for the new block list, every byte
  of every live region and every byte outside the heap unchanged and the pre-emption count balanced.
\<close>

theorem heap_malloc_correct:
  assumes "heap_wf h (ram s) bs" "sz \<noteq> 0" "unat sz \<le> 4294967292"
  shows "case a_malloc (align4 (unat sz)) bs of
      None \<Rightarrow> heap_malloc h sz s = Some (0, section_exit s (ram s))
    | Some (off, bs') \<Rightarrow> \<exists>m'. heap_malloc h sz s =
          Some (adr (unat (start h) + off + 8), section_exit s m') \<and> heap_wf h m' bs' \<and>
        preserves (live (unat (start h)) bs) (ram s) m' \<and>
        modifies (ram s) m' (unat (start h)) (unat (start h) + span bs)"
  using heap_malloc_refines [OF assms] unfolding preserves_def .

theorem heap_malloc_correct_witness:
  "\<exists>m'. heap_malloc boot_heap 101 boot_machine = Some (4104, section_exit boot_machine m') \<and>
     heap_wf boot_heap m' [(104, True), (896, False)]"
  using heap_malloc_correct [OF boot_heap_wf, of 101] by (auto simp: align4_def boot_heap_sel)

text \<open>
  C2: \<^verbatim>\<open>heap_free\<close> of a live pointer returns, merges the block with all free blocks that
  follow it, keeps the heap well formed, removes exactly that region from the live ones and
  touches no byte of memory outside the block's own header.
\<close>

theorem heap_free_correct:
  assumes "heap_wf h (ram s) bs" "live (unat (start h)) bs (unat ptr) = Some k"
  shows "\<exists>m' bs'. heap_free h ptr s = Some (section_exit s m') \<and>
      bs' = a_free (unat ptr - unat (start h) - 8) bs \<and> heap_wf h m' bs' \<and>
      live (unat (start h)) bs' = (live (unat (start h)) bs)(unat ptr := None) \<and>
      modifies (ram s) m' (unat ptr - 8) (unat ptr)"
  using heap_free_refines [OF assms] live_a_free(1) [OF assms(2)] by auto

theorem heap_free_correct_witness:
  "\<exists>s' m'. heap_malloc boot_heap 100 boot_machine = Some (4104, s') \<and>
     heap_free boot_heap 4104 s' = Some (section_exit s' m') \<and> heap_wf boot_heap m' [(1008, False)]"
proof -
  obtain s' where s': "heap_malloc boot_heap 100 boot_machine = Some (4104, s')"
    "heap_wf boot_heap (ram s') [(100, True), (900, False)]"
    using boot_alloc_wf by blast
  with heap_free_correct [OF s'(2), of 4104 100] show ?thesis by (auto simp: boot_heap_sel)
qed

text \<open>
  C3: \<^verbatim>\<open>heap_realloc\<close> of a live block either fails and changes nothing, or returns a
  fresh region of at least the requested size that holds the first \<open>min\<close>(new, old) bytes of the
  old one, has released the old one and left every other live region intact.
\<close>

theorem heap_realloc_correct:
  assumes "heap_wf h (ram s) bs" "live (unat (start h)) bs (unat ptr) = Some k"
    "sz \<noteq> 0" "unat sz \<le> 4294967292"
  shows "a_malloc (align4 (unat sz)) bs = None \<and> heap_realloc h ptr sz s = Some (0, section_exit s (ram s)) \<or>
    a_malloc (align4 (unat sz)) bs \<noteq> None \<and> (\<exists>p m' bs' k'. heap_realloc h ptr sz s = Some (p, section_exit s m') \<and> p \<noteq> 0 \<and>
       heap_wf h m' bs' \<and> live (unat (start h)) bs (unat p) = None \<and> unat sz \<le> k' \<and>
       live (unat (start h)) bs' = (live (unat (start h)) bs)(unat p \<mapsto> k', unat ptr := None) \<and>
       preserves ((live (unat (start h)) bs)(unat ptr := None)) (ram s) m' \<and>
       (\<forall>i < min (unat sz) k. m' (adr (unat p + i)) = ram s (adr (unat ptr + i))))"
  using heap_realloc_cases [OF assms] .

theorem heap_realloc_correct_witness:
  "\<exists>s' p m'. heap_malloc boot_heap 100 boot_machine = Some (4104, s') \<and>
     heap_realloc boot_heap 4104 200 s' = Some (p, section_exit s' m') \<and> p \<noteq> 0 \<and>
     m' (adr (unat p + 99)) = ram s' 4203"
proof -
  obtain s' where s': "heap_malloc boot_heap 100 boot_machine = Some (4104, s')"
    "heap_wf boot_heap (ram s') [(100, True), (900, False)]"
    using boot_alloc_wf by blast
  have "live (unat (start boot_heap)) [(100, True), (900, False)] (unat (4104 :: u32)) = Some 100"
    by (simp add: boot_heap_sel)
  from heap_realloc_correct [OF s'(2) this, of 200] obtain p m' where
    "heap_realloc boot_heap 4104 200 s' = Some (p, section_exit s' m')" "p \<noteq> 0"
    "\<forall>i < 100. m' (adr (unat p + i)) = ram s' (adr (4104 + i))"
    by (auto simp: align4_def)
  moreover from spec [OF this(3), of 99] have "m' (adr (unat p + 99)) = ram s' 4203" by simp
  ultimately show ?thesis using s'(1) by blast
qed

text \<open>
  C4: \<^verbatim>\<open>heap_calloc\<close>.  When the product of its arguments, rounded up to a multiple of
  four, fits 32 bits (a product of at most 4294967292), it either fails because no free block is
  large enough, or returns a fresh region of at least that size whose requested bytes are all
  zero, and leaves every other live region unchanged.  For the three larger products that still
  fit 32 bits the rounding wraps to zero: if the first block of the heap is free and has more
  than eleven bytes, the caller gets a pointer to that block although its size word is now zero;
  only the sixteen bytes of two block headers are written, so the region the caller was promised
  is not cleared, and every later allocation fails.
\<close>

theorem heap_calloc_correct:
  assumes "heap_wf h (ram s) bs" "0 < unat nmemb * unat sz" "unat nmemb * unat sz < 4294967296"
  shows "(unat nmemb * unat sz \<le> 4294967292 \<longrightarrow>
    a_malloc (align4 (unat nmemb * unat sz)) bs = None \<and>
      heap_calloc h nmemb sz s = Some (0, section_exit s (ram s)) \<or>
    a_malloc (align4 (unat nmemb * unat sz)) bs \<noteq> None \<and>
    (\<exists>p m' bs' k. heap_calloc h nmemb sz s = Some (p, section_exit s m') \<and> p \<noteq> 0 \<and>
       heap_wf h m' bs' \<and> live (unat (start h)) bs (unat p) = None \<and>
       unat nmemb * unat sz \<le> k \<and>
       live (unat (start h)) bs' = (live (unat (start h)) bs)(unat p \<mapsto> k) \<and>
       preserves (live (unat (start h)) bs) (ram s) m' \<and>
       (\<forall>i < unat nmemb * unat sz. m' (adr (unat p + i)) = 0))) \<and>
    (4294967292 < unat nmemb * unat sz \<longrightarrow> (\<forall>k bs'. bs = (k, False) # bs' \<longrightarrow> 11 < k \<longrightarrow>
      (\<exists>s'. heap_calloc h nmemb sz s = Some (start h + 8, s') \<and> hdr_size (ram s') (start h) = 0 \<and>
        modifies (ram s) (ram s') (unat (start h)) (unat (start h) + 16) \<and>
        (\<forall>n. \<exists>s''. heap_malloc h n s' = Some (0, s'')))))"
  using heap_calloc_cases [OF assms(1,2)] heap_calloc_wraps [of h s _ _ nmemb sz] assms(1,3) by blast

theorem heap_calloc_correct_witness:
  "(\<exists>p m'. heap_calloc boot_heap 10 7 boot_machine = Some (p, section_exit boot_machine m') \<and> p \<noteq> 0 \<and>
     m' (adr (unat p + 69)) = 0) \<and>
   (\<exists>s' s''. heap_calloc boot_heap 0x55555555 3 boot_machine = Some (4104, s') \<and>
     heap_malloc boot_heap 4 s' = Some (0, s''))"
proof
  obtain p m' where "heap_calloc boot_heap 10 7 boot_machine = Some (p, section_exit boot_machine m')"
    "p \<noteq> 0" "\<forall>i < 70. m' (adr (unat p + i)) = 0"
    using heap_calloc_correct [OF boot_heap_wf, of 10 7] by (auto simp: align4_def)
  then show "\<exists>p m'. heap_calloc boot_heap 10 7 boot_machine = Some (p, section_exit boot_machine m') \<and>
      p \<noteq> 0 \<and> m' (adr (unat p + 69)) = 0" by auto
  show "\<exists>s' s''. heap_calloc boot_heap 0x55555555 3 boot_machine = Some (4104, s') \<and>
      heap_malloc boot_heap 4 s' = Some (0, s'')"
    using heap_calloc_correct [OF boot_heap_wf, of "0x55555555" 3] by (auto simp: boot_heap_sel)
qed

text \<open>
  C5: Memory is not lost.  Freeing what \<^verbatim>\<open>heap_malloc\<close> just returned restores the live
  regions with their contents, and the same request is then served again at the same address.
\<close>

theorem heap_malloc_free_reuse:
  assumes "heap_wf h (ram s) bs" "sz \<noteq> 0" "unat sz \<le> 4294967292"
    "heap_malloc h sz s = Some (p, s1)" "p \<noteq> 0"
  shows "\<exists>s2 bs2 s3. heap_free h p s1 = Some s2 \<and> heap_wf h (ram s2) bs2 \<and>
    live (unat (start h)) bs2 = live (unat (start h)) bs \<and>
    preserves (live (unat (start h)) bs) (ram s) (ram s2) \<and> heap_malloc h sz s2 = Some (p, s3)"
proof -
  let ?a = "unat (start h)"
  obtain off bs1 m1 where r: "a_malloc (align4 (unat sz)) bs = Some (off, bs1)"
    and m1: "p = adr (?a + off + 8)" "s1 = section_exit s m1" "heap_wf h m1 bs1"
      "preserves (live ?a bs) (ram s) m1"
    using heap_malloc_refines [OF assms(1-3)] assms(4,5)
    by (cases "a_malloc (align4 (unat sz)) bs") (auto simp: preserves_def)
  obtain k where k: "off + 8 + k \<le> span bs" "live ?a bs (?a + off + 8) = None"
    "live ?a bs1 = (live ?a bs)(?a + off + 8 \<mapsto> k)" "span bs1 = span bs"
    using a_malloc_live [OF r, of ?a] by blast
  have p: "unat p = ?a + off + 8" using m1(1) k(1) heap_wfD(2) [OF assms(1)] by simp
  obtain m2 where m2: "heap_free h p s1 = Some (section_exit s m2)"
    "heap_wf h m2 (a_free off bs1)" "modifies m1 m2 (unat p - 8) (unat p)"
    using heap_free_refines [of h s1 bs1 p k] m1(2,3) k(3) p by auto
  have live2: "live ?a (a_free off bs1) = live ?a bs"
    using live_a_free(1) [of ?a bs1 "unat p" k] k(2,3) p by (auto simp: fun_upd_idem)
  obtain s2' bs2' where "heap_free h p s1 = Some s2'" "preserves (live ?a bs) m1 (ram s2')"
    using heap.free_live [of h s1 bs1 p k] m1(2,3) k(2,3) p by (auto simp: fun_upd_idem)
  with m2(1) m1(4) have pres: "preserves (live ?a bs) (ram s) m2" by (auto intro: preserves_trans)
  obtain bs3 where "a_malloc (align4 (unat sz)) (a_free off bs1) = Some (off, bs3)"
    using a_malloc_reuse [OF r] by blast
  then obtain s3 where "heap_malloc h sz (section_exit s m2) = Some (p, s3)"
    using heap_malloc_refines [of h "section_exit s m2" "a_free off bs1", OF _ assms(2,3)] m2(2) m1(1)
    by auto
  then show ?thesis using m2 live2 pres by auto
qed

theorem heap_malloc_free_reuse_witness:
  "\<exists>s1 s2 s3. heap_malloc boot_heap 100 boot_machine = Some (4104, s1) \<and>
     heap_free boot_heap 4104 s1 = Some s2 \<and> heap_malloc boot_heap 100 s2 = Some (4104, s3)"
proof -
  obtain s' where s': "heap_malloc boot_heap 100 boot_machine = Some (4104, s')"
    using boot_alloc_wf by blast
  with heap_malloc_free_reuse [OF boot_heap_wf _ _ s'] show ?thesis by auto
qed

text \<open>
  \<^verbatim>\<open>heap_freemem\<close> and \<^verbatim>\<open>heap_usedmem\<close> terminate on a well-formed heap, report
  the total payload of the free and of the allocated blocks, and together with one header per
  block and the end marker account for every byte of the heap.
\<close>

theorem heap_statistics_correct:
  assumes "heap_wf h (ram s) bs"
  shows "\<exists>free used. heap_freemem h s = Some (adr free, section_exit s (ram s)) \<and>
     heap_usedmem h s = Some (adr used, section_exit s (ram s)) \<and>
     free = a_sum False bs \<and> used = a_sum True bs \<and>
     free + used + 8 * (length bs + 1) = unat (hsize h)"
  using heap_accounting [OF assms] .

theorem heap_statistics_correct_witness:
  "heap_freemem boot_heap boot_machine = Some (1008, section_exit boot_machine (ram boot_machine))"
  using heap_statistics_correct [OF boot_heap_wf] by auto

text \<open>
  C6: \<^verbatim>\<open>heap_init\<close> establishes the invariant: one free block that spans the region, and no
  byte outside the region written.
\<close>

theorem heap_init_correct:
  assumes "start0 \<noteq> 0" "18 \<le> unat len" "unat start0 + unat len < 4294967296"
  shows "case heap_init start0 len s of (h, s') \<Rightarrow>
    heap_wf h (ram s') [(unat len div 2 * 2 - 16, False)] \<and>
    modifies (ram s) (ram s') (unat start0) (unat start0 + unat len)"
  using heap_init_wf [OF assms] .

theorem heap_init_correct_witness:
  "case heap_init 4096 1025 reset_machine of (h, s') \<Rightarrow> heap_wf h (ram s') [(1008, False)]"
  using heap_init_correct [of 4096 1025 reset_machine] by (auto split: prod.splits)

text \<open>
  A request in the last three values of the size type is not refused: the size wraps to zero
  when it is rounded up, the caller gets a pointer to the first block although nothing is
  reserved, and the block's size word becomes zero, which is the end-of-heap mark, so that every
  later allocation fails.
\<close>

theorem heap_malloc_size_wraps:
  assumes "heap_wf h (ram s) ((k, False) # bs)" "11 < k" "unat sz > 4294967292"
  shows "\<exists>s'. heap_malloc h sz s = Some (start h + 8, s') \<and> (\<forall>n. \<exists>s''. heap_malloc h n s' = Some (0, s''))"
  using heap_malloc_wraps [OF assms] by auto

theorem heap_malloc_size_wraps_witness:
  "\<exists>s' s''. heap_malloc boot_heap 0xFFFFFFFE boot_machine = Some (4104, s') \<and>
     heap_malloc boot_heap 4 s' = Some (0, s'')"
  using heap_malloc_size_wraps [OF boot_heap_wf, of 4294967294] by (auto simp: boot_heap_sel)

text \<open>
  A double free is detected by the magic word: the second \<^verbatim>\<open>heap_free\<close> of a pointer
  changes nothing.
\<close>

theorem heap_double_free_ignored:
  assumes "heap_wf h (ram s) bs" "live (unat (start h)) bs (unat ptr) = Some k"
  shows "\<exists>m'. heap_free h ptr s = Some (section_exit s m') \<and>
     heap_free h ptr (section_exit s m') = Some (section_exit s m')"
  using heap_free_again [OF assms] .

theorem heap_double_free_ignored_witness:
  "\<exists>s1 s2. heap_malloc boot_heap 100 boot_machine = Some (4104, s1) \<and>
     heap_free boot_heap 4104 s1 = Some s2 \<and> heap_free boot_heap 4104 s2 = Some s2"
proof -
  obtain s' where s': "heap_malloc boot_heap 100 boot_machine = Some (4104, s')"
    "heap_wf boot_heap (ram s') [(100, True), (900, False)]"
    using boot_alloc_wf by blast
  with heap_double_free_ignored [OF s'(2), of 4104 100] show ?thesis by (auto simp: boot_heap_sel)
qed

end
