(* ===== verification/Kmalloc.thy ===== *)
theory Kmalloc
  imports Heap
begin

text \<open>
  \<^verbatim>\<open>kernel/memory/kmalloc.c\<close> in its default configuration
  (\<^verbatim>\<open>KMALLOC_HEAP\<close>): the two global heaps, one for the kernel and one for user
  programs, and the functions that dispatch to \<^verbatim>\<open>heap.c\<close>.  The clients of the two
  arenas are a step relation; its invariant gives the memory safety of all outstanding
  allocations.
\<close>

record mem_ctxs =
  g_kheap :: heap_ctx
  g_uheap :: heap_ctx

definition kmeminit :: "u32 \<Rightarrow> u32 \<Rightarrow> mem_ctxs \<times> machine \<Rightarrow> mem_ctxs \<times> machine" where
  "kmeminit st en = (\<lambda>(g, s). case heap_init st (en - st) s of (h, s') \<Rightarrow> (g\<lparr>g_kheap := h\<rparr>, s'))"

definition umeminit :: "u32 \<Rightarrow> u32 \<Rightarrow> mem_ctxs \<times> machine \<Rightarrow> mem_ctxs \<times> machine" where
  "umeminit st en = (\<lambda>(g, s). case heap_init st (en - st) s of (h, s') \<Rightarrow> (g\<lparr>g_uheap := h\<rparr>, s'))"

definition kmalloc :: "mem_ctxs \<Rightarrow> u32 \<Rightarrow> machine \<Rightarrow> (u32 \<times> machine) option" where
  "kmalloc g sz = heap_malloc (g_kheap g) sz"

definition kcalloc :: "mem_ctxs \<Rightarrow> u32 \<Rightarrow> u32 \<Rightarrow> machine \<Rightarrow> (u32 \<times> machine) option" where
  "kcalloc g nmemb sz = heap_calloc (g_kheap g) nmemb sz"

definition krealloc :: "mem_ctxs \<Rightarrow> u32 \<Rightarrow> u32 \<Rightarrow> machine \<Rightarrow> (u32 \<times> machine) option" where
  "krealloc g ptr sz = heap_realloc (g_kheap g) ptr sz"

definition kfree :: "mem_ctxs \<Rightarrow> u32 \<Rightarrow> machine \<Rightarrow> machine option" where
  "kfree g ptr = heap_free (g_kheap g) ptr"

definition kfreemem :: "mem_ctxs \<Rightarrow> machine \<Rightarrow> (u32 \<times> machine) option" where
  "kfreemem g = heap_freemem (g_kheap g)"

definition kusedmem :: "mem_ctxs \<Rightarrow> machine \<Rightarrow> (u32 \<times> machine) option" where
  "kusedmem g = heap_usedmem (g_kheap g)"

definition umalloc :: "mem_ctxs \<Rightarrow> u32 \<Rightarrow> machine \<Rightarrow> (u32 \<times> machine) option" where
  "umalloc g sz = heap_malloc (g_uheap g) sz"

definition ucalloc :: "mem_ctxs \<Rightarrow> u32 \<Rightarrow> u32 \<Rightarrow> machine \<Rightarrow> (u32 \<times> machine) option" where
  "ucalloc g nmemb sz = heap_calloc (g_uheap g) nmemb sz"

definition urealloc :: "mem_ctxs \<Rightarrow> u32 \<Rightarrow> u32 \<Rightarrow> machine \<Rightarrow> (u32 \<times> machine) option" where
  "urealloc g ptr sz = heap_realloc (g_uheap g) ptr sz"

definition ufree :: "mem_ctxs \<Rightarrow> u32 \<Rightarrow> machine \<Rightarrow> machine option" where
  "ufree g ptr = heap_free (g_uheap g) ptr"

definition ufreemem :: "mem_ctxs \<Rightarrow> machine \<Rightarrow> (u32 \<times> machine) option" where
  "ufreemem g = heap_freemem (g_uheap g)"

definition uusedmem :: "mem_ctxs \<Rightarrow> machine \<Rightarrow> (u32 \<times> machine) option" where
  "uusedmem g = heap_usedmem (g_uheap g)"

text \<open>The kernel heap provides the allocator interface, \<^verbatim>\<open>krealloc\<close> included.\<close>

interpretation kheap: reallocator ram "\<lambda>m s. s\<lparr>ram := m\<rparr>" "\<lambda>s bs. heap_wf (g_kheap g) (ram s) bs" "live (unat (start (g_kheap g)))"
  "kmalloc g" "kfree g" 4294967292 "krealloc g" "\<lambda>bs n. a_malloc (align4 (unat n)) bs = None" for g
proof -
  have e: "kmalloc g = heap_malloc (g_kheap g)" "kfree g = heap_free (g_kheap g)"
    by (simp_all add: fun_eq_iff kmalloc_def kfree_def)
  show "reallocator ram (\<lambda>m s. s\<lparr>ram := m\<rparr>) (\<lambda>s bs. heap_wf (g_kheap g) (ram s) bs) (live (unat (start (g_kheap g))))
    (kmalloc g) (kfree g) 4294967292 (krealloc g) (\<lambda>bs n. a_malloc (align4 (unat n)) bs = None)"
    unfolding e
  proof unfold_locales
    fix s :: machine and bs k and n p :: u32
    show "krealloc g 0 n s = heap_malloc (g_kheap g) n s" if "n \<noteq> 0"
      using that by (simp add: krealloc_def heap_realloc_def)
    show "a_malloc (align4 (unat n)) bs = None"
      if "heap_wf (g_kheap g) (ram s) bs" "n \<noteq> 0" "unat n \<le> 4294967292" "heap_malloc (g_kheap g) n s = Some (0, s')" for s'
      using heap_malloc_cases [OF that(1-3)] that(4) by auto
    assume "heap_wf (g_kheap g) (ram s) bs" "live (unat (start (g_kheap g))) bs (unat p) = Some k" "n \<noteq> 0" "unat n \<le> 4294967292"
    from heap_realloc_cases [OF this]
    show "(\<exists>s'. krealloc g p n s = Some (0, s') \<and> ram s' = ram s \<and> heap_wf (g_kheap g) (ram s') bs \<and>
           a_malloc (align4 (unat n)) bs = None) \<or>
        (\<exists>q s' A' j. krealloc g p n s = Some (q, s') \<and> q \<noteq> 0 \<and> heap_wf (g_kheap g) (ram s') A' \<and>
           live (unat (start (g_kheap g))) bs (unat q) = None \<and> unat n \<le> j \<and>
           live (unat (start (g_kheap g))) A' = (live (unat (start (g_kheap g))) bs)(unat q \<mapsto> j, unat p := None) \<and>
           preserves ((live (unat (start (g_kheap g))) bs)(unat p := None)) (ram s) (ram s') \<and>
           (\<forall>i < min (unat n) k. ram s' (adr (unat q + i)) = ram s (adr (unat p + i))))"
      using \<open>heap_wf (g_kheap g) (ram s) bs\<close> unfolding krealloc_def
      apply (elim disjE exE conjE)
       apply (intro disjI1 exI [of _ "section_exit s (ram s)"], simp)
      subgoal for q m' bs' j
        by (intro disjI2 exI [of _ q] exI [of _ "section_exit s m'"] exI [of _ bs'] exI [of _ j]) simp
      done
  qed
qed

subsection \<open>The clients of the two arenas\<close>

datatype arena = Kernel | User

fun arena_heap :: "mem_ctxs \<Rightarrow> arena \<Rightarrow> heap_ctx" where
  "arena_heap g Kernel = g_kheap g"
| "arena_heap g User = g_uheap g"

fun arena_malloc :: "mem_ctxs \<Rightarrow> arena \<Rightarrow> u32 \<Rightarrow> machine \<Rightarrow> (u32 \<times> machine) option" where
  "arena_malloc g Kernel = kmalloc g"
| "arena_malloc g User = umalloc g"

fun arena_free :: "mem_ctxs \<Rightarrow> arena \<Rightarrow> u32 \<Rightarrow> machine \<Rightarrow> machine option" where
  "arena_free g Kernel = kfree g"
| "arena_free g User = ufree g"

lemma arena_ops [simp]:
  "arena_malloc g A = heap_malloc (arena_heap g A)" "arena_free g A = heap_free (arena_heap g A)"
proof -
  show "arena_malloc g A = heap_malloc (arena_heap g A)"
    by (cases A) (simp_all add: fun_eq_iff kmalloc_def umalloc_def)
  show "arena_free g A = heap_free (arena_heap g A)"
    by (cases A) (simp_all add: fun_eq_iff kfree_def ufree_def)
qed

text \<open>
  The state the clients see: the machine, for each arena the pointers they hold with the sizes
  they asked for, and for each address the byte a client last wrote there since the region around
  it was granted.  A client may request memory, release a pointer it holds and write a byte
  inside a region it holds.
\<close>

record system =
  mach :: machine
  owned :: "arena \<Rightarrow> nat \<Rightarrow> nat option"
  wrote :: "nat \<Rightarrow> u8 option"

text \<open>Before the first request no client holds anything.\<close>

abbreviation clients_at :: "machine \<Rightarrow> system" where
  "clients_at s \<equiv> \<lparr>mach = s, owned = (\<lambda>_ _. None), wrote = (\<lambda>_. None)\<rparr>"

inductive client_step :: "mem_ctxs \<Rightarrow> system \<Rightarrow> system \<Rightarrow> bool" for g where
  granted: "0 < unat n \<Longrightarrow> unat n \<le> 4294967292 \<Longrightarrow> arena_malloc g A n (mach \<sigma>) = Some (p, s') \<Longrightarrow>
      p \<noteq> 0 \<Longrightarrow> client_step g \<sigma>
        (\<sigma>\<lparr>mach := s', owned := (owned \<sigma>)(A := (owned \<sigma> A)(unat p \<mapsto> unat n)),
           wrote := (\<lambda>y. if unat p \<le> y \<and> y < unat p + unat n then None else wrote \<sigma> y)\<rparr>)"
| refused: "0 < unat n \<Longrightarrow> unat n \<le> 4294967292 \<Longrightarrow> arena_malloc g A n (mach \<sigma>) = Some (0, s') \<Longrightarrow>
      client_step g \<sigma> (\<sigma>\<lparr>mach := s'\<rparr>)"
| released: "owned \<sigma> A (unat p) = Some n \<Longrightarrow> arena_free g A p (mach \<sigma>) = Some s' \<Longrightarrow>
      client_step g \<sigma>
        (\<sigma>\<lparr>mach := s', owned := (owned \<sigma>)(A := (owned \<sigma> A)(unat p := None))\<rparr>)"
| written: "owned \<sigma> A x = Some n \<Longrightarrow> i < n \<Longrightarrow>
      client_step g \<sigma> (\<sigma>\<lparr>mach := (mach \<sigma>)\<lparr>ram := (ram (mach \<sigma>))(adr (x + i) := v)\<rparr>,
        wrote := (wrote \<sigma>)(x + i \<mapsto> v)\<rparr>)"

inductive_cases client_stepE: "client_step g \<sigma> \<sigma>'"

definition region :: "heap_ctx \<Rightarrow> nat set" where
  "region h = {unat (start h)..<unat (start h) + unat (hsize h)}"

definition covered :: "(nat \<Rightarrow> nat option) \<Rightarrow> (nat \<Rightarrow> nat option) \<Rightarrow> bool" where
  "covered own lv \<longleftrightarrow> (\<forall>x n. own x = Some n \<longrightarrow> (\<exists>k \<ge> n. lv x = Some k))"

definition arena_ok :: "mem_ctxs \<Rightarrow> system \<Rightarrow> arena \<Rightarrow> bool" where
  "arena_ok g \<sigma> A \<longleftrightarrow> (\<exists>bs. heap_wf (arena_heap g A) (ram (mach \<sigma>)) bs \<and>
     covered (owned \<sigma> A) (live (unat (start (arena_heap g A))) bs))"

definition apart :: "mem_ctxs \<Rightarrow> bool" where
  "apart g \<longleftrightarrow> (unat (start (g_kheap g)) + unat (hsize (g_kheap g)) \<le> unat (start (g_uheap g)) \<or>
     unat (start (g_uheap g)) + unat (hsize (g_uheap g)) \<le> unat (start (g_kheap g)))"

definition sys_ok :: "mem_ctxs \<Rightarrow> system \<Rightarrow> bool" where
  "sys_ok g \<sigma> \<longleftrightarrow> apart g \<and> (\<forall>A. arena_ok g \<sigma> A)"

lemma coveredD: "covered own lv \<Longrightarrow> own x = Some n \<Longrightarrow> \<exists>k. lv x = Some k \<and> n \<le> k"
  by (auto simp: covered_def)

lemma covered_upd: "covered own lv \<Longrightarrow> n \<le> k \<Longrightarrow> covered (own(x \<mapsto> n)) (lv(x \<mapsto> k))"
  by (auto simp: covered_def)

lemma covered_upd_fresh:
  "covered own lv \<Longrightarrow> covered (own(x := None)) (lv(x := None))"
  by (auto simp: covered_def)

lemma live_in_heap:
  assumes "heap_wf h m bs" "live (unat (start h)) bs x = Some k"
  shows "unat (start h) + 8 \<le> x" "x + k + 8 \<le> unat (start h) + unat (hsize h)"
  using live_bounds [OF assms(2)] assms(1) by (auto simp: heap_wf_def)

text \<open>A write confined to one arena's region keeps the other arena as it is.\<close>

lemma arena_ok_other:
  assumes "apart g" "arena_ok g \<sigma> B" "A \<noteq> B" "owned \<sigma>' B = owned \<sigma> B"
    "modifies (ram (mach \<sigma>)) (ram (mach \<sigma>')) lo hi"
    "unat (start (arena_heap g A)) \<le> lo"
    "hi \<le> unat (start (arena_heap g A)) + unat (hsize (arena_heap g A))"
  shows "arena_ok g \<sigma>' B"
proof -
  let ?h = "arena_heap g B"
  have "unat (start ?h) + unat (hsize ?h) \<le> lo \<or> hi \<le> unat (start ?h)"
    using assms(1,3,6,7) by (cases A; cases B) (auto simp: apart_def)
  then show ?thesis
    using assms(2,4) heap_wf_frame [OF _ assms(5)] by (auto simp: arena_ok_def)
qed

lemma sys_ok_step:
  assumes "apart g" "\<forall>B. arena_ok g \<sigma> B" "arena_ok g \<sigma>' A" "\<forall>B. B \<noteq> A \<longrightarrow> owned \<sigma>' B = owned \<sigma> B"
    "modifies (ram (mach \<sigma>)) (ram (mach \<sigma>')) lo hi"
    "unat (start (arena_heap g A)) \<le> lo"
    "hi \<le> unat (start (arena_heap g A)) + unat (hsize (arena_heap g A))"
  shows "sys_ok g \<sigma>'"
  unfolding sys_ok_def
proof (intro conjI allI)
  fix B show "arena_ok g \<sigma>' B"
    using assms arena_ok_other [of g \<sigma> B A \<sigma>' lo hi] by (cases "B = A") auto
qed (rule assms(1))

lemma malloc_step:
  assumes wf: "heap_wf h (ram s) bs" and n: "0 < unat n" "unat n \<le> 4294967292"
    and r: "heap_malloc h n s = Some (p, s')"
  shows "modifies (ram s) (ram s') (unat (start h)) (unat (start h) + unat (hsize h))"
    "p = 0 \<Longrightarrow> heap_wf h (ram s') bs"
    "p \<noteq> 0 \<Longrightarrow> \<exists>bs' k. heap_wf h (ram s') bs' \<and> unat n \<le> k \<and>
       live (unat (start h)) bs' = (live (unat (start h)) bs)(unat p \<mapsto> k)"
    "preserves (live (unat (start h)) bs) (ram s) (ram s')"
proof -
  have n0: "n \<noteq> 0" using n(1) by auto
  have sp: "span bs \<le> unat (hsize h)" using wf by (simp add: heap_wf_def)
  show "modifies (ram s) (ram s') (unat (start h)) (unat (start h) + unat (hsize h))"
    using heap_malloc_refines [OF wf n0 n(2)] r sp
    by (cases "a_malloc (align4 (unat n)) bs") (auto elim!: modifies_mono)
  show "heap_wf h (ram s') bs" if "p = 0"
    using heap.malloc_cases [of h s bs n] wf n0 n(2) r that by auto
  show "\<exists>bs' k. heap_wf h (ram s') bs' \<and> unat n \<le> k \<and>
       live (unat (start h)) bs' = (live (unat (start h)) bs)(unat p \<mapsto> k)" if "p \<noteq> 0"
    using heap.malloc_cases [of h s bs n] wf n0 n(2) r that by auto
  show "preserves (live (unat (start h)) bs) (ram s) (ram s')"
    using heap.malloc_cases [of h s bs n] wf n0 n(2) r by auto
qed

lemma free_step:
  assumes wf: "heap_wf h (ram s) bs" and l: "live (unat (start h)) bs (unat p) = Some k"
    and r: "heap_free h p s = Some s'"
  shows "modifies (ram s) (ram s') (unat (start h)) (unat (start h) + unat (hsize h))"
    "\<exists>bs'. heap_wf h (ram s') bs' \<and> live (unat (start h)) bs' = (live (unat (start h)) bs)(unat p := None)"
    "preserves ((live (unat (start h)) bs)(unat p := None)) (ram s) (ram s')"
proof -
  show "modifies (ram s) (ram s') (unat (start h)) (unat (start h) + unat (hsize h))"
    using heap_free_refines [OF wf l] r live_in_heap [OF wf l] by (auto elim!: modifies_mono)
  show "\<exists>bs'. heap_wf h (ram s') bs' \<and> live (unat (start h)) bs' = (live (unat (start h)) bs)(unat p := None)"
    using heap.free_live [of h s bs p k] wf l r by auto
  show "preserves ((live (unat (start h)) bs)(unat p := None)) (ram s) (ram s')"
    using heap.free_live [of h s bs p k] wf l r by auto
qed

lemma sys_ok_arena:
  assumes "sys_ok g \<sigma>"
  obtains bs where "heap_wf (arena_heap g A) (ram (mach \<sigma>)) bs"
    "covered (owned \<sigma> A) (live (unat (start (arena_heap g A))) bs)" "apart g" "\<forall>B. arena_ok g \<sigma> B"
  using assms by (auto simp: sys_ok_def arena_ok_def)

lemma client_step_ok:
  "client_step g \<sigma> \<sigma>' \<Longrightarrow> sys_ok g \<sigma> \<Longrightarrow> sys_ok g \<sigma>'"
proof (induction rule: client_step.induct)
  case (granted n A \<sigma> p s')
  let ?h = "arena_heap g A"
  let ?\<sigma> = "\<sigma>\<lparr>mach := s', owned := (owned \<sigma>)(A := (owned \<sigma> A)(unat p \<mapsto> unat n)),
     wrote := (\<lambda>y. if unat p \<le> y \<and> y < unat p + unat n then None else wrote \<sigma> y)\<rparr>"
  from granted(5) obtain bs where bs: "heap_wf ?h (ram (mach \<sigma>)) bs"
    "covered (owned \<sigma> A) (live (unat (start ?h)) bs)" "apart g" "\<forall>B. arena_ok g \<sigma> B"
    by (rule sys_ok_arena)
  note st = malloc_step [OF bs(1) granted(1,2) granted(3) [simplified]]
  have "arena_ok g ?\<sigma> A"
    using st(3) [OF granted(4)] covered_upd [OF bs(2)] by (fastforce simp: arena_ok_def)
  then show ?case
    using bs st(1) by (intro sys_ok_step [of g \<sigma> ?\<sigma> A]) auto
next
  case (refused n A \<sigma> s')
  let ?h = "arena_heap g A"
  from refused(4) obtain bs where bs: "heap_wf ?h (ram (mach \<sigma>)) bs"
    "covered (owned \<sigma> A) (live (unat (start ?h)) bs)" "apart g" "\<forall>B. arena_ok g \<sigma> B"
    by (rule sys_ok_arena)
  note st = malloc_step [OF bs(1) refused(1,2) refused(3) [simplified]]
  have "arena_ok g (\<sigma>\<lparr>mach := s'\<rparr>) A" using st(2) bs(2) by (auto simp: arena_ok_def)
  then show ?case
    using bs st(1) by (intro sys_ok_step [of g \<sigma> "\<sigma>\<lparr>mach := s'\<rparr>" A]) auto
next
  case (released \<sigma> A p n s')
  let ?h = "arena_heap g A"
  let ?\<sigma> = "\<sigma>\<lparr>mach := s', owned := (owned \<sigma>)(A := (owned \<sigma> A)(unat p := None))\<rparr>"
  from released(3) obtain bs where bs: "heap_wf ?h (ram (mach \<sigma>)) bs"
    "covered (owned \<sigma> A) (live (unat (start ?h)) bs)" "apart g" "\<forall>B. arena_ok g \<sigma> B"
    by (rule sys_ok_arena)
  obtain k where k: "live (unat (start ?h)) bs (unat p) = Some k"
    using bs(2) released(1) by (auto simp: covered_def)
  note st = free_step [OF bs(1) k released(2) [simplified]]
  have "arena_ok g ?\<sigma> A"
    using st(2) covered_upd_fresh [OF bs(2), of "unat p"] by (auto simp: arena_ok_def)
  then show ?case
    using bs st(1) by (intro sys_ok_step [of g \<sigma> ?\<sigma> A]) auto
next
  case (written \<sigma> A x n i v)
  let ?h = "arena_heap g A" and ?m = "(ram (mach \<sigma>))(adr (x + i) := v)"
  let ?\<sigma> = "\<sigma>\<lparr>mach := (mach \<sigma>)\<lparr>ram := ?m\<rparr>, wrote := (wrote \<sigma>)(x + i \<mapsto> v)\<rparr>"
  from written(3) obtain bs where bs: "heap_wf ?h (ram (mach \<sigma>)) bs"
    "covered (owned \<sigma> A) (live (unat (start ?h)) bs)" "apart g" "\<forall>B. arena_ok g \<sigma> B"
    by (rule sys_ok_arena)
  obtain k where k: "live (unat (start ?h)) bs x = Some k" "n \<le> k"
    using bs(2) written(1) by (auto simp: covered_def)
  have "x + i < 4294967296" using live_fits [OF bs(1) k(1)] written(2) k(2) by simp
  then have mod: "modifies (ram (mach \<sigma>)) ?m x (x + k)"
    using written(2) k(2) by (auto intro: modifies_mono [OF modifies_upd])
  then have "arena_ok g ?\<sigma> A"
    using heap_wf_payload [OF bs(1) k(1)] bs(2) by (auto simp: arena_ok_def)
  then show ?case
    using bs mod live_in_heap [OF bs(1) k(1)]
    by (intro sys_ok_step [of g \<sigma> ?\<sigma> A x "x + k"]) auto
qed

lemma client_reachable_ok: "(client_step g)\<^sup>*\<^sup>* \<sigma> \<sigma>' \<Longrightarrow> sys_ok g \<sigma> \<Longrightarrow> sys_ok g \<sigma>'"
  by (induction rule: rtranclp_induct) (auto intro: client_step_ok)

text \<open>What the invariant says about the regions clients hold.\<close>

lemma covered_disjoint:
  assumes wf: "heap_wf h m bs" and own: "covered own (live (unat (start h)) bs)"
    and x: "own x = Some j" and y: "own y = Some k" and ne: "x \<noteq> y"
  shows "x + j \<le> y \<or> y + k \<le> x"
proof -
  obtain j' k' where "live (unat (start h)) bs x = Some j'" "j \<le> j'" "live (unat (start h)) bs y = Some k'" "k \<le> k'"
    using coveredD [OF own x] coveredD [OF own y] by blast
  then show ?thesis
    using live_disjoint [of "unat (start h)" bs x j' y k'] live_disjoint [of "unat (start h)" bs y k' x j'] ne
    by (cases "x < y") auto
qed

lemma covered_region:
  assumes "heap_wf h m bs" "covered own (live (unat (start h)) bs)" "own x = Some j"
  shows "unat (start h) < x" "x + j < unat (start h) + unat (hsize h)"
proof -
  obtain j' where "live (unat (start h)) bs x = Some j'" "j \<le> j'"
    using coveredD [OF assms(2,3)] by blast
  with live_in_heap [OF assms(1), of x j']
  show "unat (start h) < x" "x + j < unat (start h) + unat (hsize h)" by auto
qed

lemma sys_ok_disjoint:
  assumes ok: "sys_ok g \<sigma>" and x: "owned \<sigma> A x = Some j" and y: "owned \<sigma> B y = Some k"
    and ne: "(A, x) \<noteq> (B, y)"
  shows "x + j \<le> y \<or> y + k \<le> x"
proof -
  from ok obtain bs where a: "heap_wf (arena_heap g A) (ram (mach \<sigma>)) bs"
    "covered (owned \<sigma> A) (live (unat (start (arena_heap g A))) bs)" "apart g"
    by (rule sys_ok_arena)
  from ok obtain cs where b: "heap_wf (arena_heap g B) (ram (mach \<sigma>)) cs"
    "covered (owned \<sigma> B) (live (unat (start (arena_heap g B))) cs)"
    by (rule sys_ok_arena)
  show ?thesis
  proof (cases "A = B")
    case True
    then show ?thesis using covered_disjoint [OF a(1,2) x] y ne by simp
  next
    case False
    then show ?thesis
      using covered_region [OF a(1,2) x] covered_region [OF b y] a(3)
      by (cases A; cases B) (auto simp: apart_def)
  qed
qed

lemma sys_ok_bound:
  assumes ok: "sys_ok g \<sigma>" and x: "owned \<sigma> A x = Some n" and i: "i < n"
  shows "x + i < 4294967296"
proof -
  from ok obtain bs where a: "heap_wf (arena_heap g A) (ram (mach \<sigma>)) bs"
    "covered (owned \<sigma> A) (live (unat (start (arena_heap g A))) bs)"
    by (rule sys_ok_arena)
  obtain k where "live (unat (start (arena_heap g A))) bs x = Some k" "n \<le> k"
    using coveredD [OF a(2) x] by blast
  then show ?thesis using live_fits [OF a(1), of x k] i by simp
qed

lemma sys_ok_progress:
  assumes ok: "sys_ok g \<sigma>"
  shows "0 < unat n \<Longrightarrow> unat n \<le> 4294967292 \<Longrightarrow> arena_malloc g A n (mach \<sigma>) \<noteq> None"
    "owned \<sigma> A (unat p) = Some k \<Longrightarrow> arena_free g A p (mach \<sigma>) \<noteq> None"
proof -
  from ok obtain bs where a: "heap_wf (arena_heap g A) (ram (mach \<sigma>)) bs"
    "covered (owned \<sigma> A) (live (unat (start (arena_heap g A))) bs)"
    by (rule sys_ok_arena)
  show "arena_malloc g A n (mach \<sigma>) \<noteq> None" if "0 < unat n" "unat n \<le> 4294967292"
  proof -
    have "n \<noteq> 0" using that(1) by auto
    then show ?thesis
      using heap.malloc_cases [of "arena_heap g A" "mach \<sigma>" bs n] a(1) that(2) by auto
  qed
  show "arena_free g A p (mach \<sigma>) \<noteq> None" if own: "owned \<sigma> A (unat p) = Some k"
  proof -
    obtain j where "live (unat (start (arena_heap g A))) bs (unat p) = Some j"
      using coveredD [OF a(2) own] by blast
    then show ?thesis using heap.free_live [of "arena_heap g A" "mach \<sigma>" bs p j] a(1) by auto
  qed
qed

text \<open>
  Contents: a byte a client wrote inside a region that is still held is the byte in memory.  An
  operation on one arena changes neither the regions of the other arena nor the payload of its
  own other regions.
\<close>

definition contents_ok :: "system \<Rightarrow> bool" where
  "contents_ok \<sigma> \<longleftrightarrow> (\<forall>A x n i v. owned \<sigma> A x = Some n \<longrightarrow> i < n \<longrightarrow> wrote \<sigma> (x + i) = Some v \<longrightarrow>
     ram (mach \<sigma>) (adr (x + i)) = v)"

lemma contents_okD:
  "contents_ok \<sigma> \<Longrightarrow> owned \<sigma> A x = Some n \<Longrightarrow> i < n \<Longrightarrow> wrote \<sigma> (x + i) = Some v \<Longrightarrow>
     ram (mach \<sigma>) (adr (x + i)) = v"
  by (auto simp: contents_ok_def)

lemma region_kept:
  assumes ok: "sys_ok g \<sigma>" and L: "covered own L" "preserves L (ram (mach \<sigma>)) m"
    and mod: "modifies (ram (mach \<sigma>)) m (unat (start (arena_heap g A)))
      (unat (start (arena_heap g A)) + unat (hsize (arena_heap g A)))"
    and x: "B = A \<Longrightarrow> own x = Some n" "B \<noteq> A \<Longrightarrow> owned \<sigma> B x = Some n" and i: "i < n"
  shows "m (adr (x + i)) = ram (mach \<sigma>) (adr (x + i))"
proof (cases "B = A")
  case True
  then obtain k where "L x = Some k" "n \<le> k" using coveredD [OF L(1) x(1)] by auto
  then show ?thesis using preservesD [OF L(2)] i by (auto simp: agree_def)
next
  case False
  from ok obtain bs where b: "heap_wf (arena_heap g B) (ram (mach \<sigma>)) bs"
    "covered (owned \<sigma> B) (live (unat (start (arena_heap g B))) bs)" "apart g"
    by (rule sys_ok_arena)
  note own = x(2) [OF False]
  obtain k where k: "live (unat (start (arena_heap g B))) bs x = Some k" "n \<le> k"
    using coveredD [OF b(2) own] by blast
  have "x + i < 4294967296" using live_fits [OF b(1) k(1)] i k(2) by simp
  moreover have "x + i < unat (start (arena_heap g A)) \<or>
      unat (start (arena_heap g A)) + unat (hsize (arena_heap g A)) \<le> x + i"
    using covered_region [OF b(1,2) own] i b(3) False by (cases A; cases B) (auto simp: apart_def)
  ultimately show ?thesis by (intro modifies_at [OF mod])
qed

lemma contents_okI:
  "(\<And>A x n i v. owned \<sigma> A x = Some n \<Longrightarrow> i < n \<Longrightarrow> wrote \<sigma> (x + i) = Some v \<Longrightarrow>
     ram (mach \<sigma>) (adr (x + i)) = v) \<Longrightarrow> contents_ok \<sigma>"
  by (auto simp: contents_ok_def)

lemma contents_step:
  "client_step g \<sigma> \<sigma>' \<Longrightarrow> sys_ok g \<sigma> \<Longrightarrow> contents_ok \<sigma> \<Longrightarrow> contents_ok \<sigma>'"
proof (induction rule: client_step.induct)
  case (granted n A \<sigma> p s')
  let ?h = "arena_heap g A"
  from granted(5) obtain bs where bs: "heap_wf ?h (ram (mach \<sigma>)) bs"
    "covered (owned \<sigma> A) (live (unat (start ?h)) bs)" by (rule sys_ok_arena)
  note st = malloc_step [OF bs(1) granted(1,2) granted(3) [simplified]]
  note kept = region_kept [OF granted(5) bs(2) st(4) st(1)]
  let ?\<sigma> = "\<sigma>\<lparr>mach := s', owned := (owned \<sigma>)(A := (owned \<sigma> A)(unat p \<mapsto> unat n)),
     wrote := (\<lambda>y. if unat p \<le> y \<and> y < unat p + unat n then None else wrote \<sigma> y)\<rparr>"
  show ?case
  proof (rule contents_okI)
    fix B x k i v
    assume own: "owned ?\<sigma> B x = Some k" and i: "i < k" and w': "wrote ?\<sigma> (x + i) = Some v"
    have w: "wrote \<sigma> (x + i) = Some v" using w' by (auto split: if_splits)
    have "owned \<sigma> B x = Some k" using own i w' by (auto split: if_splits)
    then show "ram (mach ?\<sigma>) (adr (x + i)) = v"
      using kept [of B x k i] contents_okD [OF granted(6) _ i, of B x v] i w by auto
  qed
next
  case (refused n A \<sigma> s')
  let ?h = "arena_heap g A"
  from refused(4) obtain bs where bs: "heap_wf ?h (ram (mach \<sigma>)) bs"
    "covered (owned \<sigma> A) (live (unat (start ?h)) bs)" by (rule sys_ok_arena)
  note st = malloc_step [OF bs(1) refused(1,2) refused(3) [simplified]]
  note kept = region_kept [OF refused(4) bs(2) st(4) st(1)]
  show ?case
  proof (rule contents_okI)
    fix B x k i v
    assume "owned (\<sigma>\<lparr>mach := s'\<rparr>) B x = Some k" "i < k" "wrote (\<sigma>\<lparr>mach := s'\<rparr>) (x + i) = Some v"
    then show "ram (mach (\<sigma>\<lparr>mach := s'\<rparr>)) (adr (x + i)) = v"
      using kept [of B x k i] contents_okD [OF refused(5), of B x k i v] by auto
  qed
next
  case (released \<sigma> A p n s')
  let ?h = "arena_heap g A"
  from released(3) obtain bs where bs: "heap_wf ?h (ram (mach \<sigma>)) bs"
    "covered (owned \<sigma> A) (live (unat (start ?h)) bs)" by (rule sys_ok_arena)
  obtain k where k: "live (unat (start ?h)) bs (unat p) = Some k"
    using bs(2) released(1) by (auto simp: covered_def)
  note st = free_step [OF bs(1) k released(2) [simplified]]
  note kept = region_kept [OF released(3) covered_upd_fresh [OF bs(2), of "unat p"] st(3) st(1)]
  let ?\<sigma> = "\<sigma>\<lparr>mach := s', owned := (owned \<sigma>)(A := (owned \<sigma> A)(unat p := None))\<rparr>"
  show ?case
  proof (rule contents_okI)
    fix B x k i v
    assume own': "owned ?\<sigma> B x = Some k" and i: "i < k" and w': "wrote ?\<sigma> (x + i) = Some v"
    have own: "owned \<sigma> B x = Some k" "B = A \<Longrightarrow> x \<noteq> unat p" using own' by (auto split: if_splits)
    have w: "wrote \<sigma> (x + i) = Some v" using w' by simp
    show "ram (mach ?\<sigma>) (adr (x + i)) = v"
      using kept [of B x k i] contents_okD [OF released(4) own(1) i w] own i by auto
  qed
next
  case (written \<sigma> A x n i v)
  let ?\<sigma> = "\<sigma>\<lparr>mach := (mach \<sigma>)\<lparr>ram := (ram (mach \<sigma>))(adr (x + i) := v)\<rparr>,
     wrote := (wrote \<sigma>)(x + i \<mapsto> v)\<rparr>"
  show ?case
  proof (rule contents_okI)
    fix B y k j u
    assume own': "owned ?\<sigma> B y = Some k" and j: "j < k" and w: "wrote ?\<sigma> (y + j) = Some u"
    have own: "owned \<sigma> B y = Some k" using own' by simp
    have "y + j < 4294967296" "x + i < 4294967296"
      using sys_ok_bound [OF written(3) own j] sys_ok_bound [OF written(3) written(1,2)] by simp_all
    then show "ram (mach ?\<sigma>) (adr (y + j)) = u"
      using w contents_okD [OF written(4) own j] by (auto simp: adr_eq_iff split: if_splits)
  qed
qed

lemma contents_reachable:
  "(client_step g)\<^sup>*\<^sup>* \<sigma> \<sigma>' \<Longrightarrow> sys_ok g \<sigma> \<Longrightarrow> contents_ok \<sigma> \<Longrightarrow> contents_ok \<sigma>'"
  by (induction rule: rtranclp_induct) (auto intro: contents_step client_reachable_ok)

text \<open>The initialisation functions establish it on disjoint memory ranges.\<close>

lemma kmem_boot_ok:
  assumes k: "ks \<noteq> 0" "18 \<le> unat (ke - ks)" "unat ks + unat (ke - ks) < 4294967296"
    and u: "us \<noteq> 0" "18 \<le> unat (ue - us)" "unat us + unat (ue - us) < 4294967296"
    and d: "unat ks + unat (ke - ks) \<le> unat us \<or> unat us + unat (ue - us) \<le> unat ks"
    and r: "umeminit us ue (kmeminit ks ke (g0, s0)) = (g, s)"
  shows "sys_ok g (clients_at s)"
proof -
  obtain h1 s1 where i1: "heap_init ks (ke - ks) s0 = (h1, s1)" by (cases "heap_init ks (ke - ks) s0")
  obtain h2 s2 where i2: "heap_init us (ue - us) s1 = (h2, s2)" by (cases "heap_init us (ue - us) s1")
  have g: "g_kheap g = h1" "g_uheap g = h2" "s = s2"
    using r by (auto simp: kmeminit_def umeminit_def i1 i2)
  have h: "start h1 = ks" "start h2 = us" "hsize h1 = (ke - ks) AND NOT 1" "hsize h2 = (ue - us) AND NOT 1"
    using i1 i2 by (auto simp: heap_init_def Let_def)
  have le: "unat (x AND NOT 1) \<le> unat x" for x :: u32
    using word_and_le2 [of x "NOT 1"] by (simp add: word_le_nat_alt)
  let ?k1 = "[(unat (ke - ks) div 2 * 2 - 16, False)]" and ?k2 = "[(unat (ue - us) div 2 * 2 - 16, False)]"
  have w1: "heap_wf h1 (ram s1) ?k1"
    and w2: "heap_wf h2 (ram s2) ?k2" "modifies (ram s1) (ram s2) (unat us) (unat us + unat (ue - us))"
    using heap_init_wf [OF k, of s0] heap_init_wf [OF u, of s1] i1 i2 by auto
  have "unat (start h1) + unat (hsize h1) \<le> unat us \<or> unat us + unat (ue - us) \<le> unat (start h1)"
    using d h le [of "ke - ks"] by auto
  then have "heap_wf h1 (ram s2) ?k1" by (rule heap_wf_frame [OF w1 w2(2)])
  moreover have "apart g"
    using d h g le [of "ke - ks"] le [of "ue - us"] by (auto simp: apart_def)
  moreover have "arena_heap g A = (if A = Kernel then h1 else h2)" for A
    using g by (cases A) auto
  ultimately show ?thesis
    using w2(1) g(3) by (auto simp: sys_ok_def arena_ok_def covered_def)
qed

subsection \<open>Properties\<close>


definition demo_boot :: "mem_ctxs \<times> machine" where
  "demo_boot = umeminit 8192 9216
     (kmeminit 4096 5120 (\<lparr>g_kheap = boot_heap, g_uheap = boot_heap\<rparr>, reset_machine))"

lemma demo_boot_ok: "sys_ok (fst demo_boot) (clients_at (snd demo_boot))"
  by (rule kmem_boot_ok [of 4096 5120 8192 9216]) (simp_all add: demo_boot_def)


text \<open>A kernel heap of 64 kilobytes for examples.\<close>

definition big_ctxs :: mem_ctxs where
  "big_ctxs = \<lparr>g_kheap = fst (heap_init 4096 65536 reset_machine), g_uheap = boot_heap\<rparr>"

lemma big_ctxs_wf: "heap_wf (g_kheap big_ctxs) (ram (snd (heap_init 4096 65536 reset_machine))) [(65520, False)]"
  using heap_init_wf [of 4096 65536 reset_machine] by (simp add: big_ctxs_def split: prod.splits)

end
