(* ===== verification/CMem.thy ===== *)
theory CMem
  imports Prelude
begin

text \<open>
  The memory block functions of the kernel's C library, \<^verbatim>\<open>klibc/string.c\<close> and
  \<^verbatim>\<open>klibc/strings.c\<close>: \<^verbatim>\<open>memcmp\<close>, \<^verbatim>\<open>memcpy\<close>,
  \<^verbatim>\<open>memset\<close>, \<^verbatim>\<open>bcopy\<close> and \<^verbatim>\<open>bzero\<close>, over the byte memory of the
  prelude.  Pointers are 32-bit words and wrap; byte counts keep the width of the source.
\<close>

subsection \<open>Operations\<close>

text \<open>\<open>k\<close> is the byte count after the decrement in the loop condition.\<close>

fun memcmp_loop :: "mem \<Rightarrow> u32 \<Rightarrow> u32 \<Rightarrow> nat \<Rightarrow> int" where
  "memcmp_loop m p q 0 = uint (m p) - uint (m q)"
| "memcmp_loop m p q (Suc k) =
     (if m p = m q then memcmp_loop m (p + 1) (q + 1) k else uint (m p) - uint (m q))"

definition memcmp :: "mem \<Rightarrow> u32 \<Rightarrow> u32 \<Rightarrow> u32 \<Rightarrow> int" where
  "memcmp m s1 s2 n = (if n = 0 then 0 else memcmp_loop m s1 s2 (unat n - 1))"

text \<open>The byte loop and the word loop of \<^verbatim>\<open>memcpy\<close>; both return the advanced pointers.\<close>

fun copy_bytes :: "nat \<Rightarrow> u32 \<times> u32 \<times> mem \<Rightarrow> u32 \<times> u32 \<times> mem" where
  "copy_bytes 0 (d, s, m) = (d, s, m)"
| "copy_bytes (Suc n) (d, s, m) = copy_bytes n (d + 1, s + 1, m(d := m s))"

fun copy_longs :: "nat \<Rightarrow> u32 \<times> u32 \<times> mem \<Rightarrow> u32 \<times> u32 \<times> mem" where
  "copy_longs 0 (d, s, m) = (d, s, m)"
| "copy_longs (Suc n) (d, s, m) = copy_longs n (d + 4, s + 4, store32 m d (load32 m s))"

lemma and_3_nat: "unat (x AND 3 :: u32) = unat x mod 4"
proof -
  have "x AND 3 = take_bit 2 x" by (simp add: take_bit_eq_mask mask_eq_exp_minus_1)
  then show ?thesis by (simp add: take_bit_eq_mod unat_mod)
qed

lemma unat_Suc_mod_4: "unat (x + 1 :: u32) mod 4 = (unat x + 1) mod 4"
  by (simp add: unat_word_ariths mod_mod_cancel)

lemma mod_4_cases: "(x :: nat) mod 4 = 0 \<or> x mod 4 = 1 \<or> x mod 4 = 2 \<or> x mod 4 = 3"
  by linarith

text \<open>
  \<^verbatim>\<open>while(((u32) src_ & 3) && n--) *dest_++ = *src_++;\<close> Note that the decrement is
  executed even when the count is already zero.
\<close>

function copy_align :: "u32 \<Rightarrow> u32 \<times> u32 \<times> mem \<Rightarrow> u32 \<times> u32 \<times> u32 \<times> mem" where
  "copy_align n (d, s, m) =
     (if s AND 3 \<noteq> 0
      then if n \<noteq> 0 then copy_align (n - 1) (d + 1, s + 1, m(d := m s)) else (n - 1, d, s, m)
      else (n, d, s, m))"
  by pat_completeness auto

termination
proof (relation "measure (\<lambda>(n, d, s, m). (4 - unat (s AND 3)) mod 4)")
  fix n d s :: u32 and m :: mem
  assume "s AND 3 \<noteq> 0"
  then have "unat s mod 4 \<noteq> 0" using and_3_nat [of s] by (metis unat_eq_zero)
  then have "(4 - (unat s + 1) mod 4) mod 4 < (4 - unat s mod 4) mod 4"
    using mod_4_cases [of "unat s"] by (auto simp: mod_Suc)
  then show "((n - 1, d + 1, s + 1, m(d := m s)), (n, d, s, m)) \<in>
      measure (\<lambda>(n, d, s, m). (4 - unat (s AND 3)) mod 4)"
    by (simp add: and_3_nat unat_Suc_mod_4)
qed simp

declare copy_align.simps [simp del]

definition memcpy :: "u32 \<Rightarrow> u32 \<Rightarrow> u32 \<Rightarrow> mem \<Rightarrow> u32 \<times> mem" where
  "memcpy dest src n m =
     (if n = 0 then (dest, m)
      else if src AND 3 = dest AND 3
      then case copy_align n (dest, src, m) of (n', ptrs) \<Rightarrow>
             (case copy_bytes (unat (n' AND 3)) (copy_longs (unat (drop_bit 2 n')) ptrs) of
                (d, s, m') \<Rightarrow> (dest, m'))
      else case copy_bytes (unat n) (dest, src, m) of (d, s, m') \<Rightarrow> (dest, m'))"

fun fill_bytes :: "u8 \<Rightarrow> nat \<Rightarrow> u32 \<times> mem \<Rightarrow> u32 \<times> mem" where
  "fill_bytes c 0 (p, m) = (p, m)"
| "fill_bytes c (Suc n) (p, m) = fill_bytes c n (p + 1, m(p := c))"

text \<open>The count of \<^verbatim>\<open>memset\<close> is signed; a negative one runs through the whole range.\<close>

definition memset :: "u32 \<Rightarrow> int \<Rightarrow> u32 \<Rightarrow> mem \<Rightarrow> u32 \<times> mem" where
  "memset src c n m = (src, snd (fill_bytes (word_of_int c) (unat n) (src, m)))"

text \<open>\<^verbatim>\<open>while(n--) dest_[n] = src_[n];\<close>\<close>

fun copy_down :: "u32 \<Rightarrow> u32 \<Rightarrow> nat \<Rightarrow> mem \<Rightarrow> mem" where
  "copy_down dest src 0 m = m"
| "copy_down dest src (Suc n) m = copy_down dest src n (m(dest + adr n := m (src + adr n)))"

definition bcopy :: "u32 \<Rightarrow> u32 \<Rightarrow> u32 \<Rightarrow> mem \<Rightarrow> mem" where
  "bcopy src dest n m =
     (if src < dest then copy_down dest src (unat n) m
      else if dest < src then snd (snd (copy_bytes (unat n) (dest, src, m)))
      else m)"

text \<open>\<^verbatim>\<open>for(; ((u32) s_ & 3) && n; n--) *s_++ = 0;\<close>\<close>

function zero_align :: "u32 \<Rightarrow> u32 \<times> mem \<Rightarrow> u32 \<times> u32 \<times> mem" where
  "zero_align n (s, m) =
     (if s AND 3 \<noteq> 0 \<and> n \<noteq> 0 then zero_align (n - 1) (s + 1, m(s := 0)) else (n, s, m))"
  by pat_completeness auto

termination
  by (relation "measure (\<lambda>(n, s, m). unat n)") (auto simp: unat_gt_0 unat_minus_one)

declare zero_align.simps [simp del]

fun zero_longs :: "nat \<Rightarrow> u32 \<times> mem \<Rightarrow> u32 \<times> mem" where
  "zero_longs 0 (p, m) = (p, m)"
| "zero_longs (Suc n) (p, m) = zero_longs n (p + 4, store32 m p 0)"

definition bzero :: "u32 \<Rightarrow> u32 \<Rightarrow> mem \<Rightarrow> mem" where
  "bzero s n m =
     (case zero_align n (s, m) of (n', p) \<Rightarrow>
        snd (fill_bytes 0 (unat (n' AND 3)) (zero_longs (unat (drop_bit 2 n')) p)))"

subsection \<open>Copying\<close>

definition copied :: "mem \<Rightarrow> mem \<Rightarrow> nat \<Rightarrow> nat \<Rightarrow> nat \<Rightarrow> bool" where
  "copied m m' d s n \<longleftrightarrow> modifies m m' d (d + n) \<and> (\<forall>i < n. m' (adr (d + i)) = m (adr (s + i)))"

lemma copied_0 [simp]: "copied m m d s 0"
  by (simp add: copied_def)

lemma copied_append:
  assumes "copied m m1 d s a" "copied m1 m2 (d + a) (s + a) b" "d \<le> s \<or> s + a + b \<le> d"
    "d + a + b \<le> 4294967296" "s + a + b \<le> 4294967296"
  shows "copied m m2 d s (a + b)"
  unfolding copied_def
proof (intro conjI allI impI)
  show "modifies m m2 d (d + (a + b))"
    using assms(1,2) unfolding copied_def
    by (elim conjE) (rule modifies_trans [of m m1], auto elim!: modifies_mono)
  fix i assume i: "i < a + b"
  show "m2 (adr (d + i)) = m (adr (s + i))"
  proof (cases "i < a")
    case True
    then have "m2 (adr (d + i)) = m1 (adr (d + i))"
      using assms(2,4) by (auto simp: copied_def intro: modifies_at)
    then show ?thesis using assms(1) True by (simp add: copied_def)
  next
    case False
    then have b: "i - a < b" "d + i = d + a + (i - a)" "s + i = s + a + (i - a)" using i by auto
    then have "m2 (adr (d + i)) = m1 (adr (s + i))"
      using assms(2) unfolding copied_def by metis
    also have "\<dots> = m (adr (s + i))"
      using assms(1,3,5) i False by (auto simp: copied_def intro!: modifies_at)
    finally show ?thesis .
  qed
qed

lemma copied_byte: "d < 4294967296 \<Longrightarrow> copied m (m(adr d := m (adr s))) d s 1"
  using modifies_upd [of d m "m (adr s)"] by (simp add: copied_def)

lemma copied_long:
  assumes "d + 4 \<le> 4294967296"
  shows "copied m (store32 m (adr d) (load32 m (adr s))) d s 4"
  using modifies_store32 [OF assms] by (simp add: copied_def store32_load32_byte)

lemma copy_bytes_spec:
  "d \<le> s \<or> s + n \<le> d \<Longrightarrow> d + n \<le> 4294967296 \<Longrightarrow> s + n \<le> 4294967296 \<Longrightarrow>
     \<exists>m'. copy_bytes n (adr d, adr s, m) = (adr (d + n), adr (s + n), m') \<and> copied m m' d s n"
proof (induction n arbitrary: d s m)
  case (Suc n)
  let ?m = "m(adr d := m (adr s))"
  obtain m' where m': "copy_bytes n (adr (d + 1), adr (s + 1), ?m) = (adr (d + 1 + n), adr (s + 1 + n), m')"
    "copied ?m m' (d + 1) (s + 1) n"
  proof -
    have "d + 1 \<le> s + 1 \<or> s + 1 + n \<le> d + 1" "d + 1 + n \<le> 4294967296" "s + 1 + n \<le> 4294967296"
      using Suc.prems by auto
    from Suc.IH [OF this, of ?m] show thesis using that by blast
  qed
  have "copied m m' d s (1 + n)"
    using Suc.prems by (intro copied_append [OF copied_byte m'(2)]) auto
  then show ?case using m'(1) by auto
qed simp

lemma copy_longs_spec:
  "d = s \<or> d + 4 \<le> s \<or> s + 4 * n \<le> d \<Longrightarrow> d + 4 * n \<le> 4294967296 \<Longrightarrow> s + 4 * n \<le> 4294967296 \<Longrightarrow>
     \<exists>m'. copy_longs n (adr d, adr s, m) = (adr (d + 4 * n), adr (s + 4 * n), m') \<and> copied m m' d s (4 * n)"
proof (induction n arbitrary: d s m)
  case (Suc n)
  let ?m = "store32 m (adr d) (load32 m (adr s))"
  obtain m' where m': "copy_longs n (adr (d + 4), adr (s + 4), ?m) = (adr (d + 4 + 4 * n), adr (s + 4 + 4 * n), m')"
    "copied ?m m' (d + 4) (s + 4) (4 * n)"
  proof -
    have "d + 4 = s + 4 \<or> d + 4 + 4 \<le> s + 4 \<or> s + 4 + 4 * n \<le> d + 4" "d + 4 + 4 * n \<le> 4294967296"
      "s + 4 + 4 * n \<le> 4294967296"
      using Suc.prems by auto
    from Suc.IH [OF this, of ?m] show thesis using that by blast
  qed
  have "copied m m' d s (4 + 4 * n)"
    using Suc.prems by (intro copied_append [OF copied_long m'(2)]) auto
  then show ?case using m'(1) by (auto simp: add.assoc)
qed simp

text \<open>\<open>lead s\<close> is the number of bytes up to the next longword boundary.\<close>

definition lead :: "u32 \<Rightarrow> nat" where
  "lead s = (4 - unat s mod 4) mod 4"

lemma lead_0: "lead s = 0 \<longleftrightarrow> s AND 3 = 0"
proof -
  have "lead s = 0 \<longleftrightarrow> unat s mod 4 = 0"
    using mod_4_cases [of "unat s"] by (auto simp: lead_def)
  then show ?thesis using and_3_nat [of s] by (metis unat_eq_zero)
qed

lemma lead_Suc: "lead s = Suc k \<Longrightarrow> lead (s + 1) = k"
  using mod_4_cases [of "unat s"] by (auto simp: lead_def unat_Suc_mod_4 mod_Suc)

lemma lead_less: "lead s < 4"
  by (simp add: lead_def)

lemma copy_align_run:
  "lead s \<le> unat n \<Longrightarrow> copy_align n (d, s, m) = (n - adr (lead s), copy_bytes (lead s) (d, s, m))"
proof (induction k \<equiv> "lead s" arbitrary: n d s m)
  case 0
  then have "s AND 3 = 0" by (metis lead_0)
  then show ?case using 0 by (subst copy_align.simps) simp
next
  case (Suc k)
  have "s AND 3 \<noteq> 0" using Suc(2) lead_0 [of s] by auto
  moreover have n: "n \<noteq> 0" using Suc(2,3) by auto
  ultimately have "copy_align n (d, s, m) = copy_align (n - 1) (d + 1, s + 1, m(d := m s))"
    by (subst copy_align.simps) simp
  also have "\<dots> = (n - 1 - adr k, copy_bytes k (d + 1, s + 1, m(d := m s)))"
    using Suc(1) [of "s + 1" "n - 1"] lead_Suc [OF Suc(2) [symmetric]] Suc(2,3) n
    by (simp add: unat_minus_one)
  also have "n - 1 - adr k = n - adr (Suc k)" by (simp only: of_nat_Suc diff_diff_eq)
  finally show ?case unfolding Suc(2) [symmetric] by (simp only: copy_bytes.simps)
qed

lemma copy_align_overrun:
  "unat n < lead s \<Longrightarrow> copy_align n (d, s, m) = (- 1, copy_bytes (unat n) (d, s, m))"
proof (induction k \<equiv> "unat n" arbitrary: n d s m)
  case 0
  then have "s AND 3 \<noteq> 0" "n = 0" using lead_0 [of s] by (auto simp: unat_eq_zero)
  then show ?case by (subst copy_align.simps) simp
next
  case (Suc k)
  then obtain j where j: "lead s = Suc j" by (cases "lead s") auto
  have "s AND 3 \<noteq> 0" using j lead_0 [of s] by auto
  moreover have n: "n \<noteq> 0" using Suc(2) by auto
  ultimately have "copy_align n (d, s, m) = copy_align (n - 1) (d + 1, s + 1, m(d := m s))"
    by (subst copy_align.simps) simp
  also have "\<dots> = (- 1, copy_bytes (unat (n - 1)) (d + 1, s + 1, m(d := m s)))"
    using Suc(1) [of "n - 1" "s + 1" "d + 1" "m(d := m s)"] lead_Suc [OF j] j Suc(2,3) n
    by (simp add: unat_minus_one)
  finally show ?case using unat_minus_one [OF n] unfolding Suc(2) [symmetric]
    by (simp only: copy_bytes.simps diff_Suc_1)
qed

lemma drop_bit_2_nat: "unat (drop_bit 2 n :: u32) = unat n div 4"
  using unat_drop_bit_eq [of 2 n] by (simp add: drop_bit_eq_div)

lemma copy_chain:
  assumes ord: "d \<le> s \<or> s + (k + 4 * w + r) \<le> d" and al: "d mod 4 = s mod 4"
    and fit: "d + (k + 4 * w + r) \<le> 4294967296" "s + (k + 4 * w + r) \<le> 4294967296"
  shows "\<exists>d' s' m'. copy_bytes r (copy_longs w (copy_bytes k (adr d, adr s, m))) = (d', s', m') \<and>
    copied m m' d s (k + 4 * w + r)"
proof -
  have "d = s \<or> d + 4 \<le> s" if "d \<le> s"
  proof -
    have "4 dvd s - d" using al that by (simp add: mod_eq_dvd_iff_nat [symmetric])
    then obtain j where "s - d = 4 * j" by (elim dvdE)
    with that show ?thesis by (cases j) auto
  qed
  then have ord4: "d + k = s + k \<or> d + k + 4 \<le> s + k \<or> s + k + 4 * w \<le> d + k"
    using ord by auto
  have o1: "d \<le> s \<or> s + k \<le> d" "d + k \<le> 4294967296" "s + k \<le> 4294967296"
    using ord fit by auto
  have o2: "d + k + 4 * w \<le> 4294967296" "s + k + 4 * w \<le> 4294967296"
    using fit by auto
  have o3: "d + k + 4 * w \<le> s + k + 4 * w \<or> s + k + 4 * w + r \<le> d + k + 4 * w"
      "d + k + 4 * w + r \<le> 4294967296" "s + k + 4 * w + r \<le> 4294967296"
    using ord fit by auto
  have o4: "d \<le> s \<or> s + k + 4 * w \<le> d" "d \<le> s \<or> s + (k + 4 * w) + r \<le> d"
    using ord by auto
  obtain m1 where m1: "copy_bytes k (adr d, adr s, m) = (adr (d + k), adr (s + k), m1)" "copied m m1 d s k"
    using copy_bytes_spec [OF o1] by blast
  obtain m2 where m2: "copy_longs w (adr (d + k), adr (s + k), m1) =
      (adr (d + k + 4 * w), adr (s + k + 4 * w), m2)" "copied m1 m2 (d + k) (s + k) (4 * w)"
    using copy_longs_spec [OF ord4 o2] by blast
  obtain m3 where m3: "copy_bytes r (adr (d + k + 4 * w), adr (s + k + 4 * w), m2) =
      (adr (d + k + 4 * w + r), adr (s + k + 4 * w + r), m3)"
      "copied m2 m3 (d + k + 4 * w) (s + k + 4 * w) r"
    using copy_bytes_spec [OF o3(1-3)] by blast
  have "copied m m2 d s (k + 4 * w)"
    using o4(1) o2 by (rule copied_append [OF m1(2) m2(2)])
  moreover have "copied m2 m3 (d + (k + 4 * w)) (s + (k + 4 * w)) r" using m3(2) by (simp only: add.assoc)
  ultimately have "copied m m3 d s (k + 4 * w + r)"
    using o4(2) by (rule copied_append) (use o3(2,3) in \<open>simp_all only: add.assoc\<close>)
  then show ?thesis using m1(1) m2(1) m3(1) by auto
qed

lemma memcpy_copies:
  assumes "unat d + unat n \<le> 4294967296" "unat s + unat n \<le> 4294967296"
    "d \<le> s \<or> unat s + unat n \<le> unat d"
    "s AND 3 = d AND 3 \<Longrightarrow> n \<noteq> 0 \<Longrightarrow> lead s \<le> unat n"
  shows "\<exists>m'. memcpy d s n m = (d, m') \<and> copied m m' (unat d) (unat s) (unat n)"
proof -
  let ?d = "unat d" and ?s = "unat s" and ?n = "unat n"
  have ord: "?d \<le> ?s \<or> ?s + ?n \<le> ?d" using assms(3) by (auto simp: word_le_nat_alt)
  show ?thesis
  proof (cases "n \<noteq> 0 \<and> s AND 3 = d AND 3")
    case True
    define k w r where "k = lead s" and "w = (?n - k) div 4" and "r = (?n - k) mod 4"
    have k: "k \<le> ?n" using assms(4) True by (simp add: k_def)
    have al: "?d mod 4 = ?s mod 4" using True and_3_nat by metis
    have n': "unat (n - adr k) = ?n - k"
      using k lead_less [of s] unat_sub [of "adr k" n] by (simp add: word_le_nat_alt k_def)
    have tail: "unat ((n - adr k) AND 3) = r" "unat (drop_bit 2 (n - adr k)) = w"
      by (simp_all only: and_3_nat drop_bit_2_nat n' r_def w_def)
    have "4 * w + r = ?n - k" by (simp add: w_def r_def)
    then have fin: "k + 4 * w + r = ?n" using k by linarith
    obtain d' s' m' where c: "copy_bytes r (copy_longs w (copy_bytes k (adr ?d, adr ?s, m))) = (d', s', m')"
      "copied m m' ?d ?s ?n"
      using copy_chain [of ?d ?s k w r m] ord al assms(1,2) unfolding fin by blast
    have "memcpy d s n m = (d, m')"
      unfolding memcpy_def using True copy_align_run [of s n d m] k c(1)
      by (simp add: k_def [symmetric] tail)
    with c(2) show ?thesis by blast
  next
    case False
    obtain m' where "copy_bytes ?n (adr ?d, adr ?s, m) = (adr (?d + ?n), adr (?s + ?n), m')" "copied m m' ?d ?s ?n"
      using copy_bytes_spec [OF ord assms(1,2), of m] by blast
    with False show ?thesis by (cases "n = 0") (auto simp: memcpy_def)
  qed
qed

subsection \<open>The overrun of memcpy\<close>

lemma adr_numeral: "adr (numeral k) = numeral k"
  by simp

lemma offset_ne:
  assumes "0 < j" "j < 4294967296"
  shows "(x :: u32) \<noteq> x + adr j"
  using assms by (simp add: adr_eq_0_iff)

lemma copy_longs_frame:
  assumes "\<forall>i < 4 * n. x \<noteq> d + adr i"
  shows "snd (snd (copy_longs n (d, s, m))) x = m x"
  using assms
proof (induction n arbitrary: d s m)
  case (Suc n)
  have "x \<noteq> d + adr i" if "i < 4" for i using Suc.prems that by simp
  from this [of 0] this [of 1] this [of 2] this [of 3] have "store32 m d (load32 m s) x = m x"
    by (simp add: store32_def)
  moreover have "\<forall>i < 4 * n. x \<noteq> d + 4 + adr i"
  proof (intro allI impI)
    fix i assume "i < 4 * n"
    then have "x \<noteq> d + adr (4 + i)" using Suc.prems by simp
    then show "x \<noteq> d + 4 + adr i" by (simp only: adr_add adr_numeral add.assoc not_False_eq_True)
  qed
  ultimately show ?case using Suc.IH [of "d + 4" "s + 4"] by simp
qed simp

lemma copy_longs_end:
  "fst (copy_longs n (d, s, m)) = d + 4 * adr n \<and> fst (snd (copy_longs n (d, s, m))) = s + 4 * adr n"
proof (induction n arbitrary: d s m)
  case (Suc n)
  have "x + 4 + 4 * adr n = x + 4 * adr (Suc n)" for x
    by (simp only: of_nat_Suc distrib_left mult_1_right add.assoc)
  with Suc.IH [of "d + 4" "s + 4"] show ?case by simp
qed simp

lemma copy_bytes_frame:
  "\<forall>i < n. x \<noteq> d + adr i \<Longrightarrow> snd (snd (copy_bytes n (d, s, m))) x = m x"
proof (induction n arbitrary: d s m)
  case (Suc n)
  have "x \<noteq> d" using Suc.prems [rule_format, of 0] by simp
  moreover have "x \<noteq> d + 1 + adr i" if "i < n" for i
    using Suc.prems [rule_format, of "Suc i"] that by (simp only: of_nat_Suc add.assoc) simp
  ultimately show ?case using Suc.IH [of "d + 1" "s + 1"] by simp
qed simp

lemma copy_bytes_end:
  "fst (copy_bytes n (d, s, m)) = d + adr n \<and> fst (snd (copy_bytes n (d, s, m))) = s + adr n"
proof (induction n arbitrary: d s m)
  case (Suc n)
  have "x + 1 + adr n = x + adr (Suc n)" for x by (simp only: of_nat_Suc add.assoc)
  with Suc.IH [of "d + 1" "s + 1"] show ?case by simp
qed simp

lemma store32_first: "store32 m d (load32 m s) d = m s"
  using store32_load32_byte [of 0 m "unat d" m "unat s"] by simp

text \<open>Below, \<open>1073741823\<close> longwords are \<open>0xFFFFFFFF >> 2\<close>.\<close>

lemma copy_longs_first:
  assumes "0 < n" "n \<le> 1073741823"
  shows "snd (snd (copy_longs n (d, s, m))) d = m s"
proof -
  obtain k where k: "n = Suc k" using assms(1) by (cases n) auto
  have "d \<noteq> d + 4 + adr i" if "i < 4 * k" for i
    using offset_ne [of "4 + i" d] that assms(2) k by (simp add: ac_simps)
  then show ?thesis
    using copy_longs_frame [of k d "d + 4"] store32_first k by simp
qed

lemma memcpy_overrun_run:
  assumes al: "s AND 3 = d AND 3" and n: "n \<noteq> 0" "unat n < lead s"
  shows "snd (memcpy d s n m) =
    snd (snd (copy_bytes 3 (copy_longs 1073741823 (copy_bytes (unat n) (d, s, m)))))"
  using al n copy_align_overrun [OF n(2), of d m]
  by (simp add: memcpy_def drop_bit_2_nat and_3_nat unsigned_minus_1_eq_mask mask_eq_exp_minus_1
      split: prod.splits)

lemma memcpy_overrun_byte:
  assumes al: "s AND 3 = d AND 3" and n: "n \<noteq> 0" "unat n < lead s"
  shows "snd (memcpy d s n m) (d + n) = m (s + n)"
proof -
  obtain d1 s1 m1 where 1: "copy_bytes (unat n) (d, s, m) = (d1, s1, m1)" by (cases "copy_bytes (unat n) (d, s, m)")
  obtain d2 s2 m2 where 2: "copy_longs 1073741823 (d1, s1, m1) = (d2, s2, m2)"
    by (cases "copy_longs 1073741823 (d1, s1, m1)")
  have ds: "d1 = d + n" "s1 = s + n"
    using copy_bytes_end [of "unat n" d s m] 1 by simp_all
  have "d2 = d1 + 4 * adr 1073741823"
    using copy_longs_end [of 1073741823 d1 s1 m1] 2 by simp
  then have d2: "d2 = d1 + adr 4294967292" by simp
  have "d1 \<noteq> d2 + adr i" if "i < 3" for i
    using offset_ne [of "4294967292 + i" d1] that unfolding d2 by (simp only: adr_add add.assoc) simp
  then have "snd (snd (copy_bytes 3 (d2, s2, m2))) d1 = m2 d1" by (intro copy_bytes_frame) blast
  also have "\<dots> = m1 s1" using copy_longs_first [of 1073741823 d1 s1 m1] 2 by simp
  also have "\<dots> = m s1"
  proof -
    have "s1 \<noteq> d + adr i" if i: "i < unat n" for i
    proof
      assume eq: "s1 = d + adr i"
      have i4: "unat n < 4" "i < 4" using n(2) lead_less [of s] i by auto
      have "unat (s + n) mod 4 = (unat s + unat n) mod 4" "unat (d + adr i) mod 4 = (unat d + i) mod 4"
        using i4 by (simp_all add: unat_word_ariths mod_mod_cancel)
      then have "(unat s + unat n) mod 4 = (unat d + i) mod 4" using eq ds by simp
      moreover have "unat s mod 4 = unat d mod 4" using al and_3_nat by metis
      ultimately have "(unat d mod 4 + unat n) mod 4 = (unat d mod 4 + i) mod 4"
        by (metis mod_add_left_eq)
      then have "4 dvd unat n - i" using i by (simp add: mod_eq_dvd_iff_nat)
      then show False using nat_dvd_not_less [of "unat n - i" 4] i i4 by auto
    qed
    then show ?thesis using copy_bytes_frame [of "unat n" s1 d s m] 1 by simp
  qed
  finally show ?thesis
    using memcpy_overrun_run [OF assms] 1 2 ds by simp
qed

subsection \<open>Overlapping copies and clearing\<close>

lemma copy_down_spec:
  "s \<le> d \<Longrightarrow> d + n \<le> 4294967296 \<Longrightarrow> copied m (copy_down (adr d) (adr s) n m) d s n"
proof (induction n arbitrary: m)
  case (Suc n)
  let ?m = "m(adr (d + n) := m (adr (s + n)))"
  have IH: "copied ?m (copy_down (adr d) (adr s) n ?m) d s n"
    using Suc by simp
  have st: "modifies m ?m (d + n) (d + n + 1)"
    using Suc.prems by (intro modifies_upd) simp
  have "copied m (copy_down (adr d) (adr s) n ?m) d s (Suc n)"
    unfolding copied_def
  proof (intro conjI allI impI)
    show "modifies m (copy_down (adr d) (adr s) n ?m) d (d + Suc n)"
      using IH st unfolding copied_def
      by (elim conjE) (rule modifies_trans [of m ?m], auto elim!: modifies_mono)
    fix i assume i: "i < Suc n"
    show "copy_down (adr d) (adr s) n ?m (adr (d + i)) = m (adr (s + i))"
    proof (cases "i = n")
      case True
      have "modifies ?m (copy_down (adr d) (adr s) n ?m) d (d + n)" using IH by (simp add: copied_def)
      from modifies_at [OF this, of "d + i"]
      have "copy_down (adr d) (adr s) n ?m (adr (d + i)) = ?m (adr (d + i))"
        using Suc.prems True by simp
      then show ?thesis using True by simp
    next
      case False
      then have "copy_down (adr d) (adr s) n ?m (adr (d + i)) = ?m (adr (s + i))"
        using IH i by (auto simp: copied_def)
      also have "\<dots> = m (adr (s + i))"
        using st i False Suc.prems by (intro modifies_at [OF st]) auto
      finally show ?thesis .
    qed
  qed
  then show ?case by (simp only: copy_down.simps adr_add)
qed simp

lemma bcopy_copies:
  assumes "unat d + unat n \<le> 4294967296" "unat s + unat n \<le> 4294967296"
  shows "copied m (bcopy s d n m) (unat d) (unat s) (unat n)"
proof -
  consider "s < d" | "d < s" | "s = d" by (metis linorder_neqE)
  then show ?thesis
  proof cases
    case 1
    then show ?thesis
      using copy_down_spec [of "unat s" "unat d" "unat n" m] assms by (simp add: bcopy_def word_less_nat_alt)
  next
    case 2
    then have "unat d \<le> unat s \<or> unat s + unat n \<le> unat d" by (simp add: word_less_nat_alt)
    from copy_bytes_spec [OF this assms, of m] obtain m' where
      "copy_bytes (unat n) (d, s, m) = (adr (unat d + unat n), adr (unat s + unat n), m')"
      "copied m m' (unat d) (unat s) (unat n)" by auto
    moreover have "\<not> s < d" using 2 by simp
    ultimately show ?thesis using 2 by (simp add: bcopy_def)
  next
    case 3
    then show ?thesis by (simp add: bcopy_def copied_def)
  qed
qed

definition filled :: "mem \<Rightarrow> mem \<Rightarrow> nat \<Rightarrow> nat \<Rightarrow> u8 \<Rightarrow> bool" where
  "filled m m' a n c \<longleftrightarrow> modifies m m' a (a + n) \<and> (\<forall>i < n. m' (adr (a + i)) = c)"

lemma filled_append:
  assumes "filled m m1 a j c" "filled m1 m2 (a + j) k c" "a + j + k \<le> 4294967296"
  shows "filled m m2 a (j + k) c"
  unfolding filled_def
proof (intro conjI allI impI)
  show "modifies m m2 a (a + (j + k))"
    using assms(1,2) unfolding filled_def
    by (elim conjE) (rule modifies_trans [of m m1], auto elim!: modifies_mono)
  fix i assume i: "i < j + k"
  show "m2 (adr (a + i)) = c"
  proof (cases "i < j")
    case True
    then have "m2 (adr (a + i)) = m1 (adr (a + i))"
      using assms(2,3) unfolding filled_def by (intro modifies_at) auto
    then show ?thesis using assms(1) True by (simp add: filled_def)
  next
    case False
    then have "i - j < k" "a + i = a + j + (i - j)" using i by auto
    then show ?thesis using assms(2) unfolding filled_def by metis
  qed
qed

lemma filled_byte: "a < 4294967296 \<Longrightarrow> filled m (m(adr a := c)) a 1 c"
  using modifies_upd [of a m c] by (simp add: filled_def)

lemma filled_long: "a + 4 \<le> 4294967296 \<Longrightarrow> filled m (store32 m (adr a) 0) a 4 0"
  using modifies_store32 [of a m 0] by (simp add: filled_def store32_byte)

lemma fill_bytes_spec:
  "a + n \<le> 4294967296 \<Longrightarrow>
     \<exists>m'. fill_bytes c n (adr a, m) = (adr (a + n), m') \<and> filled m m' a n c"
proof (induction n arbitrary: a m)
  case (Suc n)
  let ?m = "m(adr a := c)"
  obtain m' where m': "fill_bytes c n (adr (a + 1), ?m) = (adr (a + 1 + n), m')" "filled ?m m' (a + 1) n c"
  proof -
    have "a + 1 + n \<le> 4294967296" using Suc.prems by simp
    from Suc.IH [OF this, of ?m] show thesis using that by blast
  qed
  have "filled m m' a (1 + n) c"
    using Suc.prems by (intro filled_append [OF filled_byte m'(2)]) auto
  then show ?case using m'(1) by auto
qed (simp add: filled_def)

lemma zero_longs_spec:
  "a + 4 * n \<le> 4294967296 \<Longrightarrow>
     \<exists>m'. zero_longs n (adr a, m) = (adr (a + 4 * n), m') \<and> filled m m' a (4 * n) 0"
proof (induction n arbitrary: a m)
  case (Suc n)
  let ?m = "store32 m (adr a) 0"
  obtain m' where m': "zero_longs n (adr (a + 4), ?m) = (adr (a + 4 + 4 * n), m')" "filled ?m m' (a + 4) (4 * n) 0"
  proof -
    have "a + 4 + 4 * n \<le> 4294967296" using Suc.prems by simp
    from Suc.IH [OF this, of ?m] show thesis using that by blast
  qed
  have "filled m m' a (4 + 4 * n) 0"
    using Suc.prems by (intro filled_append [OF filled_long m'(2)]) auto
  then show ?case using m'(1) by (auto simp: add.assoc)
qed (simp add: filled_def)

lemma zero_align_spec:
  "a + unat n \<le> 4294967296 \<Longrightarrow> \<exists>k m'. k \<le> unat n \<and>
     zero_align n (adr a, m) = (n - adr k, adr (a + k), m') \<and> filled m m' a k 0"
proof (induction k \<equiv> "unat n" arbitrary: n a m)
  case 0
  then have "n = 0" by (simp add: unat_eq_zero)
  then show ?case
    by (intro exI [of _ 0] exI [of _ m]) (simp add: zero_align.simps filled_def)
next
  case (Suc j)
  have n: "n \<noteq> 0" using Suc(2) by auto
  show ?case
  proof (cases "adr a AND 3 = 0")
    case True
    then show ?thesis
      by (intro exI [of _ 0] exI [of _ m]) (simp add: zero_align.simps filled_def)
  next
    case False
    let ?m = "m(adr a := 0)"
    have j: "j = unat (n - 1)" using Suc(2) n by (simp add: unat_minus_one)
    have fit: "a + 1 + unat (n - 1) \<le> 4294967296" using Suc(2,3) j by simp
    obtain k m' where k: "k \<le> unat (n - 1)" "zero_align (n - 1) (adr (a + 1), ?m) =
        (n - 1 - adr k, adr (a + 1 + k), m')" "filled ?m m' (a + 1) k 0"
      using Suc(1) [OF j fit, of ?m] by blast
    have "filled m m' a (1 + k) 0"
      using fit k(1) by (intro filled_append [OF filled_byte k(3)]) auto
    moreover have "zero_align n (adr a, m) = zero_align (n - 1) (adr (a + 1), ?m)"
      using False n by (subst zero_align.simps) simp
    then have "zero_align n (adr a, m) = (n - adr (1 + k), adr (a + (1 + k)), m')"
      unfolding k(2) by (simp only: of_nat_add of_nat_1 diff_diff_eq add.assoc)
    moreover have "1 + k \<le> unat n" using k(1) j Suc(2) by simp
    ultimately show ?thesis by blast
  qed
qed

lemma bzero_fills:
  assumes "unat s + unat n \<le> 4294967296"
  shows "filled m (bzero s n m) (unat s) (unat n) 0"
proof -
  obtain k m1 where k: "k \<le> unat n" "zero_align n (adr (unat s), m) = (n - adr k, adr (unat s + k), m1)"
    "filled m m1 (unat s) k 0"
    using zero_align_spec [OF assms] by blast
  define w r where "w = (unat n - k) div 4" and "r = (unat n - k) mod 4"
  have wr: "k + 4 * w + r = unat n" using k(1) unfolding w_def r_def by (metis add.assoc le_add_diff_inverse mult_div_mod_eq)
  have "unat (adr k) = k" using k(1) unat_bound [of n] by simp
  then have n': "unat (n - adr k) = unat n - k"
    using k(1) by (simp add: unat_sub word_le_nat_alt)
  obtain m2 where m2: "zero_longs w (adr (unat s + k), m1) = (adr (unat s + k + 4 * w), m2)"
    "filled m1 m2 (unat s + k) (4 * w) 0"
    using zero_longs_spec [of "unat s + k" w m1] assms wr by auto
  obtain m3 where m3: "fill_bytes 0 r (adr (unat s + k + 4 * w), m2) = (adr (unat s + k + 4 * w + r), m3)"
    "filled m2 m3 (unat s + k + 4 * w) r 0"
    using fill_bytes_spec [of "unat s + k + 4 * w" r 0 m2] assms wr by auto
  have "filled m m2 (unat s) (k + 4 * w) 0"
    using assms wr by (intro filled_append [OF k(3) m2(2)]) auto
  then have "filled m m3 (unat s) (k + 4 * w + r) 0"
    by (rule filled_append) (use m3(2) assms wr in \<open>auto simp: add.assoc\<close>)
  moreover have "bzero s n m = m3"
    using k(2) m2(1) m3(1) by (simp add: bzero_def and_3_nat drop_bit_2_nat n' w_def [symmetric] r_def [symmetric])
  ultimately show ?thesis using wr by simp
qed

lemma memcmp_loop_spec:
  "(memcmp_loop m p q k = 0 \<longleftrightarrow> (\<forall>i \<le> k. m (p + adr i) = m (q + adr i))) \<and>
   (memcmp_loop m p q k \<noteq> 0 \<longrightarrow> (\<exists>i \<le> k. (\<forall>j < i. m (p + adr j) = m (q + adr j)) \<and>
      memcmp_loop m p q k = uint (m (p + adr i)) - uint (m (q + adr i))))"
proof (induction m p q k rule: memcmp_loop.induct)
  case (2 m p q k)
  have shift: "x + adr (Suc i) = x + 1 + adr i" for x i by (simp only: of_nat_Suc add.assoc)
  show ?case
  proof (cases "m p = m q")
    case True
    have all: "(\<forall>i \<le> Suc k. P i) \<longleftrightarrow> P 0 \<and> (\<forall>i \<le> k. P (Suc i))" for P
      by (metis le0 not0_implies_Suc Suc_le_mono)
    have lt: "(\<forall>j < Suc i. P j) \<longleftrightarrow> P 0 \<and> (\<forall>j < i. P (Suc j))" for P i
      by (metis less_Suc_eq_0_disj)
    have ex: "\<exists>i \<le> Suc k. P i" if "\<exists>i \<le> k. P (Suc i)" for P
      using that by (metis Suc_le_mono)
    show ?thesis
      using "2.IH" [OF True] True
      by (intro conjI impI) (simp_all add: all shift, intro ex, simp add: lt shift)
  next
    case False
    then have "uint (m p) \<noteq> uint (m q)" by (simp add: word_uint_eq_iff)
    with False show ?thesis by (auto intro!: exI [of _ 0])
  qed
qed (auto simp: word_uint_eq_iff)

subsection \<open>Properties\<close>

text \<open>
  \<^verbatim>\<open>memcpy\<close> copies: on ranges that do not wrap and where the destination does not
  lie inside the source range behind its start, the destination afterwards holds the source bytes
  and nothing else has changed.  This needs the count to reach the first longword boundary
  whenever the two pointers are equally misaligned.
\<close>

theorem memcpy_correct:
  assumes "unat d + unat n \<le> 4294967296" "unat s + unat n \<le> 4294967296"
    "d \<le> s \<or> unat s + unat n \<le> unat d"
    "s AND 3 = d AND 3 \<Longrightarrow> n \<noteq> 0 \<Longrightarrow> lead s \<le> unat n"
  shows "\<exists>m'. memcpy d s n m = (d, m') \<and> modifies m m' (unat d) (unat d + unat n) \<and>
    (\<forall>i < unat n. m' (adr (unat d + i)) = m (adr (unat s + i)))"
  using memcpy_copies [OF assms] by (simp add: copied_def)

theorem memcpy_correct_witness:
  "\<exists>m'. memcpy 0x2001 0x1001 11 (\<lambda>a. ucast a) = (0x2001, m') \<and> m' 0x200b = 0x0b"
proof -
  have "lead 0x1001 \<le> unat (11 :: u32)" by (simp add: lead_def)
  then obtain m' where "memcpy 0x2001 0x1001 11 (\<lambda>a. ucast a) = (0x2001, m')"
    and c: "\<forall>i < 11. m' (adr (0x2001 + i)) = ucast (adr (0x1001 + i))"
    using memcpy_correct [of 8193 11 4097 "\<lambda>a. ucast a"] by auto
  then show ?thesis using spec [OF c, of 10] by simp
qed

text \<open>
  The missing case of \<^verbatim>\<open>memcpy\<close> is a defect.  When source and destination are
  equally misaligned and the count ends before the next longword boundary, the alignment loop
  leaves the count at \<open>0xFFFFFFFF\<close> and the copy goes on through the whole address space: the
  byte just past the requested range is overwritten with the byte that follows the source.
\<close>

theorem memcpy_short_overruns:
  assumes "s AND 3 = d AND 3" "n \<noteq> 0" "unat n < lead s"
  shows "snd (memcpy d s n m) (d + n) = m (s + n)"
  using memcpy_overrun_byte [OF assms] .

theorem memcpy_short_overruns_witness:
  "snd (memcpy 0x2001 0x1001 1 ((\<lambda>_. 0)(0x1002 := 77))) 0x2002 = 77"
proof -
  have "unat (1 :: u32) < lead 0x1001" by (simp add: lead_def)
  with memcpy_short_overruns [of 4097 8193 1 "(\<lambda>_. 0)(4098 := 77)"] show ?thesis by simp
qed

text \<open>
  \<^verbatim>\<open>bcopy\<close> is correct for every overlap of its two ranges, because it chooses the
  direction of the copy: afterwards the destination holds the bytes the source held before.
\<close>

theorem bcopy_correct:
  assumes "unat d + unat n \<le> 4294967296" "unat s + unat n \<le> 4294967296"
  shows "modifies m (bcopy s d n m) (unat d) (unat d + unat n) \<and>
    (\<forall>i < unat n. bcopy s d n m (adr (unat d + i)) = m (adr (unat s + i)))"
  using bcopy_copies [OF assms, of m] by (simp add: copied_def)

theorem bcopy_correct_witness:
  "bcopy 0x1000 0x1001 4 (\<lambda>a. ucast a) 0x1004 = 3"
proof -
  have "\<forall>i < 4. bcopy 0x1000 0x1001 4 (\<lambda>a. ucast a) (adr (0x1001 + i)) = ucast (adr (0x1000 + i))"
    using bcopy_correct [of 4097 4 4096 "\<lambda>a. ucast a"] by simp
  from spec [OF this, of 3] show ?thesis by simp
qed

text \<open>
  \<^verbatim>\<open>bzero\<close> clears exactly its range, for every alignment and every length.
\<close>

theorem bzero_correct:
  assumes "unat s + unat n \<le> 4294967296"
  shows "modifies m (bzero s n m) (unat s) (unat s + unat n) \<and>
    (\<forall>i < unat n. bzero s n m (adr (unat s + i)) = 0)"
  using bzero_fills [OF assms, of m] by (simp add: filled_def)

theorem bzero_correct_witness: "bzero 0x1003 2 (\<lambda>_. 7) 0x1004 = 0"
proof -
  have "\<forall>i < 2. bzero 0x1003 2 (\<lambda>_. 7) (adr (0x1003 + i)) = 0"
    using bzero_correct [of 4099 2 "\<lambda>_. 7"] by simp
  from spec [OF this, of 1] show ?thesis by simp
qed

text \<open>
  \<^verbatim>\<open>memcmp\<close> returns zero exactly when the two ranges hold the same bytes, and
  otherwise the difference of the first pair of bytes that differ.
\<close>

theorem memcmp_correct:
  "(memcmp m p q n = 0 \<longleftrightarrow> (\<forall>i < unat n. m (p + adr i) = m (q + adr i))) \<and>
   (memcmp m p q n \<noteq> 0 \<longrightarrow> (\<exists>i < unat n. (\<forall>j < i. m (p + adr j) = m (q + adr j)) \<and>
      memcmp m p q n = uint (m (p + adr i)) - uint (m (q + adr i))))"
proof (cases "n = 0")
  case False
  then have "i \<le> unat n - 1 \<longleftrightarrow> i < unat n" for i
    using unat_gt_0 [of n] by auto
  with memcmp_loop_spec [of m p q "unat n - 1"] False show ?thesis by (simp add: memcmp_def)
qed (simp add: memcmp_def)

theorem memcmp_correct_witness:
  "memcmp (\<lambda>a. if a = 0x1002 then 9 else 0) 0x1000 0x2000 2 = 0 \<and>
   memcmp (\<lambda>a. if a = 0x1002 then 9 else 0) 0x1000 0x2000 4 = 9"
proof -
  let ?m = "(\<lambda>a. if a = 0x1002 then 9 else 0) :: mem"
  have "?m (0x1000 + adr i) = ?m (0x2000 + adr i)" if "i < unat (2 :: u32)" for i
  proof -
    from that have "i = 0 \<or> i = 1" by auto
    then show ?thesis by auto
  qed
  then have "memcmp ?m 0x1000 0x2000 2 = 0" using memcmp_correct [of ?m 4096 8192 2] by blast
  moreover have "memcmp ?m 0x1000 0x2000 4 = 9" by (simp add: memcmp_def numeral_3_eq_3)
  ultimately show ?thesis by blast
qed

end
