(* ===== verification/CString.thy ===== *)
theory CString
  imports CMem Kmalloc
begin

text \<open>
  The string functions of the kernel's C library, \<^verbatim>\<open>klibc/string.c\<close>, over the byte
  memory.  A string is what \<open>cstr m p s\<close> says: the bytes \<open>s\<close>, none of them zero, followed by a
  zero byte at address \<open>p\<close>.  A loop that looks for the terminator may not end, so the functions
  return an option; the theorems show that they return on strings.
\<close>

subsection \<open>Operations\<close>

partial_function (option) strlen_loop :: "mem \<Rightarrow> u32 \<Rightarrow> u32 option" where
  "strlen_loop m s = (if m s \<noteq> 0 then strlen_loop m (s + 1) else Some (s + 1))"

definition strlen :: "mem \<Rightarrow> u32 \<Rightarrow> u32 option" where
  "strlen m s = map_option (\<lambda>e. e - s - 1) (strlen_loop m s)"

text \<open>\<^verbatim>\<open>do { *dest_++ = *src; } while(*src++);\<close>\<close>

partial_function (option) strcpy_loop :: "u32 \<Rightarrow> u32 \<Rightarrow> mem \<Rightarrow> mem option" where
  "strcpy_loop d s m =
     (let m' = m(d := m s) in if m' s \<noteq> 0 then strcpy_loop (d + 1) (s + 1) m' else Some m')"

definition strcpy :: "u32 \<Rightarrow> u32 \<Rightarrow> mem \<Rightarrow> (u32 \<times> mem) option" where
  "strcpy dest src m = map_option (Pair dest) (strcpy_loop dest src m)"

definition strcat :: "u32 \<Rightarrow> u32 \<Rightarrow> mem \<Rightarrow> (u32 \<times> mem) option" where
  "strcat dest src m =
     (case strlen m dest of
        None \<Rightarrow> None
      | Some n \<Rightarrow> map_option (\<lambda>(_, m'). (dest, m')) (strcpy (dest + n) src m))"

text \<open>Characters are signed; \<open>sint\<close> is the promotion of an \<^verbatim>\<open>s8\<close> to \<^verbatim>\<open>int\<close>.\<close>

partial_function (option) strchr :: "mem \<Rightarrow> u32 \<Rightarrow> int \<Rightarrow> u32 option" where
  "strchr m s c = (if sint (m s) \<noteq> c \<and> m s \<noteq> 0 then strchr m (s + 1) c else Some s)"

partial_function (option) strcmp :: "mem \<Rightarrow> u32 \<Rightarrow> u32 \<Rightarrow> int option" where
  "strcmp m p q =
     (if m p = m q then if m p = 0 then Some 0 else strcmp m (p + 1) (q + 1)
      else Some (uint (m p) - uint (m q)))"

fun strncmp_loop :: "mem \<Rightarrow> u32 \<Rightarrow> u32 \<Rightarrow> nat \<Rightarrow> int" where
  "strncmp_loop m p q 0 = 0"
| "strncmp_loop m p q (Suc n) =
     (if m p = m q then if m p = 0 then 0 else strncmp_loop m (p + 1) (q + 1) n
      else sint (m p) - sint (m q))"

definition strncmp :: "mem \<Rightarrow> u32 \<Rightarrow> u32 \<Rightarrow> u32 \<Rightarrow> int" where
  "strncmp m s1 s2 n = (if n = 0 then 0 else strncmp_loop m s1 s2 (unat n))"

text \<open>The two loops of \<^verbatim>\<open>strncpy\<close>; \<open>i\<close> is \<^verbatim>\<open>n_\<close> and \<open>k\<close> what is left of \<^verbatim>\<open>n\<close>.\<close>

fun strncpy_fill :: "u32 \<Rightarrow> u32 \<Rightarrow> nat \<Rightarrow> mem \<Rightarrow> mem" where
  "strncpy_fill d i 0 m = m"
| "strncpy_fill d i (Suc k) m = strncpy_fill d (i + 1) k (m(d + i := 0))"

fun strncpy_loop :: "u32 \<Rightarrow> u32 \<Rightarrow> u32 \<Rightarrow> nat \<Rightarrow> mem \<Rightarrow> mem" where
  "strncpy_loop d s i 0 m = m"
| "strncpy_loop d s i (Suc k) m =
     (if m (s + i) \<noteq> 0 then strncpy_loop d s (i + 1) k (m(d + i := m (s + i)))
      else strncpy_fill d i (Suc k) m)"

definition strncpy :: "u32 \<Rightarrow> u32 \<Rightarrow> u32 \<Rightarrow> mem \<Rightarrow> u32 \<times> mem" where
  "strncpy dest src n m = (dest, strncpy_loop dest src 0 (unat n) m)"

partial_function (option) strrchr_loop :: "mem \<Rightarrow> u32 \<Rightarrow> int \<Rightarrow> u32 \<Rightarrow> u32 option" where
  "strrchr_loop m s c p =
     (if m s \<noteq> 0 then strrchr_loop m (s + 1) c (if sint (m s) = c then s else p) else Some p)"

definition strrchr :: "mem \<Rightarrow> u32 \<Rightarrow> int \<Rightarrow> u32 option" where
  "strrchr m s c = strrchr_loop m s c 0"

partial_function (option) strstr_loop :: "mem \<Rightarrow> u32 \<Rightarrow> u32 \<Rightarrow> u32 \<Rightarrow> u32 option" where
  "strstr_loop m needle h n =
     (if m h \<noteq> 0
      then let n = (if m h \<noteq> m n then needle else n)
           in if m h = m n
              then let n = n + 1
                   in if m n = 0 then map_option (\<lambda>len. h - len + 1) (strlen m needle)
                      else strstr_loop m needle (h + 1) n
              else strstr_loop m needle (h + 1) n
      else Some 0)"

definition strstr :: "mem \<Rightarrow> u32 \<Rightarrow> u32 \<Rightarrow> u32 option" where
  "strstr m haystack needle = strstr_loop m needle haystack needle"

text \<open>\<^verbatim>\<open>strdup\<close> and \<^verbatim>\<open>strdupext\<close> take the allocator as a parameter.\<close>

definition strdupext ::
    "(u32 \<Rightarrow> machine \<Rightarrow> (u32 \<times> machine) option) \<Rightarrow> u32 \<Rightarrow> u32 \<Rightarrow> machine \<Rightarrow> (u32 \<times> machine) option" where
  "strdupext malloc s ext st =
     (case strlen (ram st) s of
        None \<Rightarrow> None
      | Some len \<Rightarrow>
          (case malloc (len + 1 + ext) st of
             None \<Rightarrow> None
           | Some (buf, st') \<Rightarrow>
               if buf = 0 then Some (0, st')
               else map_option (\<lambda>(p, m). (p, st'\<lparr>ram := m\<rparr>)) (strcpy buf s (ram st'))))"

definition strdup ::
    "(u32 \<Rightarrow> machine \<Rightarrow> (u32 \<times> machine) option) \<Rightarrow> u32 \<Rightarrow> machine \<Rightarrow> (u32 \<times> machine) option" where
  "strdup malloc s st = strdupext malloc s 0 st"

text \<open>The messages of \<^verbatim>\<open>strerror\<close>, in the order of its cases.\<close>

definition strerror_table :: "(int \<times> string) list" where
  "strerror_table = [
    (0, ''Success''),
    (1, ''Operation not permitted''),
    (2, ''No such file or directory''),
    (3, ''No such process''),
    (4, ''Interrupted system call''),
    (5, ''Input/output error''),
    (6, ''No such device or address''),
    (7, ''Argument list too long''),
    (8, ''Exec format error''),
    (9, ''Bad file descriptor''),
    (10, ''No child processes''),
    (11, ''Resource temporarily unavailable''),
    (12, ''Cannot allocate memory''),
    (13, ''Permission denied''),
    (14, ''Bad address''),
    (15, ''Block device required''),
    (16, ''Device or resource busy''),
    (17, ''File exists''),
    (18, ''Invalid cross-device link''),
    (19, ''No such device''),
    (20, ''Not a directory''),
    (21, ''Is a directory''),
    (22, ''Invalid argument''),
    (23, ''Too many open files in system''),
    (24, ''Too many open files''),
    (25, ''Inappropriate ioctl for device''),
    (26, ''Text file busy''),
    (27, ''File too large''),
    (28, ''No space left on device''),
    (29, ''Illegal seek''),
    (30, ''Read-only file system''),
    (31, ''Too many links''),
    (32, ''Broken pipe''),
    (33, ''Numerical argument out of domain''),
    (34, ''Numerical result out of range''),
    (35, ''Resource deadlock avoided''),
    (36, ''File name too long''),
    (37, ''No locks available''),
    (38, ''Function not implemented''),
    (39, ''Directory not empty''),
    (40, ''Too many levels of symbolic links''),
    (42, ''No message of desired type''),
    (43, ''Identifier removed''),
    (44, ''Channel number out of range''),
    (45, ''Level 2 not synchronized''),
    (46, ''Level 3 halted''),
    (47, ''Level 3 reset''),
    (48, ''Link number out of range''),
    (49, ''Protocol driver not attached''),
    (50, ''No CSI structure available''),
    (51, ''Level 2 halted''),
    (52, ''Invalid exchange''),
    (53, ''Invalid request descriptor''),
    (54, ''Exchange full''),
    (55, ''No anode''),
    (56, ''Invalid request code''),
    (57, ''Invalid slot''),
    (59, ''Bad font file format''),
    (60, ''Device not a stream''),
    (61, ''No data available''),
    (62, ''Timer expired''),
    (63, ''Out of streams resources''),
    (64, ''Machine is not on the network''),
    (65, ''Package not installed''),
    (66, ''Object is remote''),
    (67, ''Link has been severed''),
    (68, ''Advertise error''),
    (69, ''Srmount error''),
    (70, ''Communication error on send''),
    (71, ''Protocol error''),
    (72, ''Multihop attempted''),
    (73, ''RFS specific error''),
    (74, ''Bad message''),
    (75, ''Value too large for defined data type''),
    (76, ''Name not unique on network''),
    (77, ''File descriptor in bad state''),
    (78, ''Remote address changed''),
    (79, ''Can not access a needed shared library''),
    (80, ''Accessing a corrupted shared library''),
    (81, ''.lib section in a.out corrupted''),
    (82, ''Attempting to link in too many shared libraries''),
    (83, ''Cannot exec a shared library directly''),
    (84, ''Invalid or incomplete multibyte or wide character''),
    (85, ''Interrupted system call should be restarted''),
    (86, ''Streams pipe error''),
    (87, ''Too many users''),
    (88, ''Socket operation on non-socket''),
    (89, ''Destination address required''),
    (90, ''Message too long''),
    (91, ''Protocol wrong type for socket''),
    (92, ''Protocol not available''),
    (93, ''Protocol not supported''),
    (94, ''Socket type not supported''),
    (95, ''Operation not supported''),
    (96, ''Protocol family not supported''),
    (97, ''Address family not supported by protocol''),
    (98, ''Address already in use''),
    (99, ''Cannot assign requested address''),
    (100, ''Network is down''),
    (101, ''Network is unreachable''),
    (102, ''Network dropped connection on reset''),
    (103, ''Software caused connection abort''),
    (104, ''Connection reset by peer''),
    (105, ''No buffer space available''),
    (106, ''Transport endpoint is already connected''),
    (107, ''Transport endpoint is not connected''),
    (108, ''Cannot send after transport endpoint shutdown''),
    (109, ''Too many references: cannot splice''),
    (110, ''Connection timed out''),
    (111, ''Connection refused''),
    (112, ''Host is down''),
    (113, ''No route to host''),
    (114, ''Operation already in progress''),
    (115, ''Operation now in progress''),
    (116, ''Stale NFS file handle''),
    (117, ''Structure needs cleaning''),
    (118, ''Not a XENIX named type file''),
    (119, ''No XENIX semaphores available''),
    (120, ''Is a named type file''),
    (121, ''Remote I/O error''),
    (122, ''Disk quota exceeded''),
    (123, ''No medium found''),
    (124, ''Wrong medium type''),
    (125, ''Operation canceled''),
    (126, ''Required key not available''),
    (127, ''Key has expired''),
    (128, ''Key has been revoked''),
    (129, ''Key was rejected by service''),
    (130, ''Owner died''),
    (131, ''State not recoverable''),
    (132, ''Operation not possible due to RF-kill'')]"

definition strerror :: "int \<Rightarrow> string" where
  "strerror errnum = (case map_of strerror_table errnum of Some s \<Rightarrow> s | None \<Rightarrow> ''Unknown error'')"

text \<open>
  \<^verbatim>\<open>strtoipv4\<close>: the inner loop reads up to three digits (\<open>j\<close> of them so far), the outer
  one up to four parts.  \<open>i\<close> counts the parts as the code does.
\<close>

definition digit :: "u8 \<Rightarrow> bool" where
  "digit c \<longleftrightarrow> 48 \<le> sint c \<and> sint c \<le> 57"

fun ipv4_part :: "nat \<Rightarrow> mem \<Rightarrow> u32 \<Rightarrow> u16 \<Rightarrow> nat \<Rightarrow> u32 \<times> u16 \<times> nat" where
  "ipv4_part 0 m str part j = (str, part, j)"
| "ipv4_part (Suc left) m str part j =
     (if digit (m str)
      then ipv4_part left m (str + 1) (part * 10 + word_of_int (sint (m str) - 48)) (j + 1)
      else (str, part, j))"

fun ipv4_loop :: "nat \<Rightarrow> nat \<Rightarrow> mem \<Rightarrow> u32 \<Rightarrow> u32 \<Rightarrow> (nat \<times> u32) option" where
  "ipv4_loop 0 i m str ip = Some (i, ip)"
| "ipv4_loop (Suc left) i m str ip =
     (case ipv4_part 3 m str 0 0 of (str, part, j) \<Rightarrow>
        let ip = push_bit 8 ip + ucast part
        in if part > 255 \<or> j = 0 then None
           else if m str \<noteq> 46 then Some (i, ip)
           else ipv4_loop left (i + 1) m (str + 1) ip)"

text \<open>The result is \<open>None\<close> for the return value -1; the machine is big-endian, so
  \<^verbatim>\<open>N2BE32\<close> is the identity.\<close>

definition strtoipv4 :: "mem \<Rightarrow> u32 \<Rightarrow> u32 option" where
  "strtoipv4 m str =
     (case ipv4_loop 4 0 m str 0 of
        None \<Rightarrow> None
      | Some (i, ip) \<Rightarrow> if i = 3 then Some ip else None)"

subsection \<open>Strings in memory\<close>

fun cstr :: "mem \<Rightarrow> u32 \<Rightarrow> u8 list \<Rightarrow> bool" where
  "cstr m p [] \<longleftrightarrow> m p = 0"
| "cstr m p (c # cs) \<longleftrightarrow> m p = c \<and> c \<noteq> 0 \<and> cstr m (p + 1) cs"

lemma cstr_unique: "cstr m p s \<Longrightarrow> cstr m p t \<Longrightarrow> s = t"
proof (induction s arbitrary: p t)
  case Nil
  then show ?case by (cases t) auto
next
  case (Cons c s)
  then show ?case by (cases t) auto
qed

lemma cstr_append:
  "cstr m p (s @ t) \<longleftrightarrow> (\<forall>i < length s. m (p + adr i) = s ! i \<and> s ! i \<noteq> 0) \<and> cstr m (p + adr (length s)) t"
proof (induction s arbitrary: p)
  case (Cons c s)
  have all: "(\<forall>i < Suc n. P i) \<longleftrightarrow> P 0 \<and> (\<forall>i < n. P (Suc i))" for P n
    by (metis less_Suc_eq_0_disj)
  show ?case by (simp only: append_Cons cstr.simps Cons.IH length_Cons all nth_Cons_0 nth_Cons_Suc adr_shift) auto
qed simp

lemma cstr_nth: "cstr m p s \<Longrightarrow> i < length s \<Longrightarrow> m (p + adr i) = s ! i \<and> s ! i \<noteq> 0"
  using cstr_append [of m p s "[]"] by simp

lemma cstr_end: "cstr m p s \<Longrightarrow> m (p + adr (length s)) = 0"
  using cstr_append [of m p s "[]"] by simp

lemma cstr_drop: "cstr m p s \<Longrightarrow> n \<le> length s \<Longrightarrow> cstr m (p + adr n) (drop n s)"
  using cstr_append [of m p "take n s" "drop n s"] by (simp add: min_absorb2)

lemma cstrI:
  "\<forall>i < length s. m (p + adr i) = s ! i \<and> s ! i \<noteq> 0 \<Longrightarrow> m (p + adr (length s)) = 0 \<Longrightarrow> cstr m p s"
  using cstr_append [of m p s "[]"] by simp

lemma strlen_loop_cstr: "cstr m p s \<Longrightarrow> strlen_loop m p = Some (p + adr (length s) + 1)"
proof (induction s arbitrary: p)
  case Nil
  then show ?case by (subst strlen_loop.simps) simp
next
  case (Cons c s)
  then have "strlen_loop m p = Some (p + 1 + adr (length s) + 1)"
    by (subst strlen_loop.simps) simp
  then show ?case by (simp only: length_Cons adr_shift)
qed

lemma strlen_cstr: "cstr m p s \<Longrightarrow> strlen m p = Some (adr (length s))"
  by (simp only: strlen_def strlen_loop_cstr option.map offset_pred)

text \<open>\<open>strcmp\<close> compares as unsigned bytes.\<close>

fun compare_bytes :: "u8 list \<Rightarrow> u8 list \<Rightarrow> int" where
  "compare_bytes [] [] = 0"
| "compare_bytes (c # cs) [] = uint c"
| "compare_bytes [] (c # cs) = - uint c"
| "compare_bytes (c # cs) (d # ds) = (if c = d then compare_bytes cs ds else uint c - uint d)"

lemma strcmp_cstr: "cstr m p s \<Longrightarrow> cstr m q t \<Longrightarrow> strcmp m p q = Some (compare_bytes s t)"
proof (induction s t arbitrary: p q rule: compare_bytes.induct)
  case (4 c cs d ds)
  then show ?case by (subst strcmp.simps) auto
qed (subst strcmp.simps, auto)+

lemma compare_bytes_0: "0 \<notin> set s \<Longrightarrow> 0 \<notin> set t \<Longrightarrow> compare_bytes s t = 0 \<longleftrightarrow> s = t"
  by (induction s t rule: compare_bytes.induct) (auto simp: word_uint_eq_iff)

lemma cstr_nonzero: "cstr m p s \<Longrightarrow> 0 \<notin> set s"
  by (induction s arbitrary: p) auto

lemma compare_bytes_less:
  "compare_bytes s t < 0 \<longleftrightarrow> (s, t) \<in> lexord {(c, d). c < d}" if "0 \<notin> set s" "0 \<notin> set t"
  using that
proof (induction s t rule: compare_bytes.induct)
  case (3 c cs)
  then show ?case by (auto simp: word_less_def uint_0_iff order.strict_iff_order)
next
  case (4 c cs d ds)
  then show ?case by (auto simp: word_less_def word_uint_eq_iff)
qed (auto simp: order.strict_iff_order)

subsection \<open>Copying strings\<close>

lemma cstr_frame:
  "cstr m p s \<Longrightarrow> \<forall>i \<le> length s. m' (p + adr i) = m (p + adr i) \<Longrightarrow> cstr m' p s"
proof (induction s arbitrary: p)
  case (Cons c s)
  have "m' (p + 1 + adr i) = m (p + 1 + adr i)" if "i \<le> length s" for i
    using Cons.prems(2) [rule_format, of "Suc i"] that by (simp only: adr_shift length_Cons Suc_le_mono)
  moreover have "m' p = m p" using Cons.prems(2) [rule_format, of 0] by simp
  ultimately show ?case using Cons by simp
qed simp

lemma strcpy_loop_cstr:
  "cstr m s str \<Longrightarrow> length str < 4294967295 \<Longrightarrow>
     \<forall>i \<le> length str. \<forall>j \<le> length str. d + adr i \<noteq> s + adr j \<Longrightarrow>
     \<exists>m'. strcpy_loop d s m = Some m' \<and> cstr m' d str \<and>
       (\<forall>x. (\<forall>i \<le> length str. x \<noteq> d + adr i) \<longrightarrow> m' x = m x)"
proof (induction str arbitrary: m d s)
  case Nil
  have ne: "s \<noteq> d" using Nil(3) by auto
  have "strcpy_loop d s m = Some (m(d := m s))"
    using Nil(1) ne by (subst strcpy_loop.simps) (simp add: Let_def)
  then show ?case using Nil(1) by (intro exI [of _ "m(d := m s)"]) auto
next
  case (Cons c str)
  let ?m = "m(d := m s)"
  have sep: "d + adr i \<noteq> s + adr j" if "i \<le> Suc (length str)" "j \<le> Suc (length str)" for i j
    using Cons.prems(3) that by simp
  have ne: "s \<noteq> d" using sep [of 0 0] by simp
  have "?m (s + 1 + adr j) = m (s + 1 + adr j)" if "j \<le> length str" for j
    using sep [of 0 "Suc j"] that by (simp only: adr_shift) (simp add: eq_commute)
  then have "cstr ?m (s + 1) str"
    by (intro cstr_frame [of m "s + 1" str ?m]) (use Cons.prems(1) in simp, blast)
  moreover have "d + 1 + adr i \<noteq> s + 1 + adr j" if "i \<le> length str" "j \<le> length str" for i j
    using sep [of "Suc i" "Suc j"] that by (simp only: adr_shift) simp
  ultimately obtain m' where m': "strcpy_loop (d + 1) (s + 1) ?m = Some m'" "cstr m' (d + 1) str"
    "\<forall>x. (\<forall>i \<le> length str. x \<noteq> d + 1 + adr i) \<longrightarrow> m' x = ?m x"
  proof -
    assume a: "cstr ?m (s + 1) str" and b: "\<And>i j. i \<le> length str \<Longrightarrow> j \<le> length str \<Longrightarrow>
      d + 1 + adr i \<noteq> s + 1 + adr j"
    have "length str < 4294967295" using Cons.prems(2) by simp
    from Cons.IH [OF a this, of "d + 1"] b show thesis using that by blast
  qed
  have "d \<noteq> d + 1 + adr i" if "i \<le> length str" for i
  proof -
    have "d \<noteq> d + adr (Suc i)" using that Cons.prems(2) by (intro offset_ne) auto
    then show ?thesis unfolding adr_shift .
  qed
  then have "m' d = ?m d" using m'(3) by blast
  then have "m' d = c" using Cons.prems(1) by simp
  moreover have "strcpy_loop d s m = Some m'"
    using m'(1) Cons.prems(1) ne by (subst strcpy_loop.simps) (simp add: Let_def)
  moreover have "m' x = m x" if x: "\<forall>i \<le> length (c # str). x \<noteq> d + adr i" for x
  proof -
    have "x \<noteq> d + 1 + adr i" if "i \<le> length str" for i
      using x [rule_format, of "Suc i"] that by (simp only: adr_shift length_Cons Suc_le_mono not_False_eq_True)
    then have "m' x = ?m x" using m'(3) by blast
    moreover have "x \<noteq> d" using x [rule_format, of 0] by simp
    ultimately show ?thesis by simp
  qed
  ultimately show ?case using m'(2) Cons.prems(1) by auto
qed

lemma strcat_cstr:
  assumes a: "cstr m d a" and b: "cstr m s b" and len: "length a + length b < 4294967295"
    and sep: "\<forall>i \<le> length a + length b. \<forall>j \<le> length b. d + adr i \<noteq> s + adr j"
  shows "\<exists>m'. strcat d s m = Some (d, m') \<and> cstr m' d (a @ b)"
proof -
  let ?e = "d + adr (length a)"
  have "?e + adr i \<noteq> s + adr j" if "i \<le> length b" "j \<le> length b" for i j
    using sep [rule_format, of "length a + i" j] that by (simp add: adr_add add.assoc del: adr_fold)
  then obtain m' where m': "strcpy_loop ?e s m = Some m'" "cstr m' ?e b"
    "\<forall>x. (\<forall>i \<le> length b. x \<noteq> ?e + adr i) \<longrightarrow> m' x = m x"
    using strcpy_loop_cstr [OF b, of ?e] len by auto
  have "m' (d + adr i) = a ! i \<and> a ! i \<noteq> 0" if i: "i < length a" for i
  proof -
    have "d + adr i \<noteq> ?e + adr j" if "j \<le> length b" for j
    proof
      assume "d + adr i = ?e + adr j"
      then have "adr i = adr (length a + j)" by (simp only: add.assoc add_left_cancel adr_add)
      then have "i = length a + j" by (rule adr_inj) (use i that len in linarith)+
      then show False using i by simp
    qed
    then have "m' (d + adr i) = m (d + adr i)" using m'(3) by blast
    then show ?thesis using cstr_nth [OF a i] by metis
  qed
  then have "cstr m' d (a @ b)" using m'(2) by (simp add: cstr_append)
  moreover have "strcat d s m = Some (d, m')"
    using m'(1) by (simp add: strcat_def strlen_cstr [OF a] strcpy_def)
  ultimately show ?thesis by blast
qed

subsection \<open>Searching\<close>

lemma strstr_loop_sound:
  assumes needle: "cstr m nd ns" "ns \<noteq> []"
  shows "cstr m h hs \<Longrightarrow> h = h0 + adr (length pre) \<Longrightarrow> j < length ns \<Longrightarrow> suffix (take j ns) pre \<Longrightarrow>
     strstr_loop m nd h (nd + adr j) = Some 0 \<or>
     (\<exists>p q. pre @ hs = p @ ns @ q \<and> strstr_loop m nd h (nd + adr j) = Some (h0 + adr (length p)))"
proof (induction hs arbitrary: h pre j)
  case Nil
  then show ?case by (subst strstr_loop.simps) simp
next
  case (Cons c hs)
  define k where "k = (if c = ns ! j then j else 0)"
  have h: "m h = c" "c \<noteq> 0" "cstr m (h + 1) hs" using Cons.prems(1) by simp_all
  have nth: "m (nd + adr i) = ns ! i" "ns ! i \<noteq> 0" if "i < length ns" for i
    using cstr_nth [OF needle(1) that] by simp_all
  have j: "k < length ns" using Cons.prems(3) needle(2) by (simp add: k_def)
  have h1: "h + 1 = h0 + adr (length (pre @ [c]))"
    unfolding Cons.prems(2) length_append_singleton adr_shift by (simp only: ac_simps)
  have suf: "suffix (take k ns) pre" using Cons.prems(4) by (simp add: k_def)
  have app: "pre @ c # hs = (pre @ [c]) @ hs" by simp
  have n1: "(if c \<noteq> m (nd + adr j) then nd else nd + adr j) = nd + adr k"
    using nth(1) [OF Cons.prems(3)] h(1) by (simp add: k_def)
  have e: "nd + adr k + 1 = nd + adr (Suc k)" by (simp only: adr_shift add.assoc add.commute [of 1])
  have end0: "m (nd + adr (Suc k)) = 0 \<longleftrightarrow> Suc k = length ns"
  proof (cases "Suc k = length ns")
    case True
    then show ?thesis using cstr_end [OF needle(1)] by simp
  next
    case False
    then have "Suc k < length ns" using j by linarith
    then have "m (nd + adr (Suc k)) \<noteq> 0" using nth by metis
    then show ?thesis using False by blast
  qed
  have step: "strstr_loop m nd h (nd + adr j) =
      (if c = ns ! k then if Suc k = length ns then Some (h - adr (length ns) + 1)
         else strstr_loop m nd (h + 1) (nd + adr (Suc k))
       else strstr_loop m nd (h + 1) (nd + adr k))"
    using h(2)
    by (subst strstr_loop.simps)
      (simp only: h(1) n1 Let_def e end0 nth(1) [OF j] strlen_cstr [OF needle(1)] option.map not_False_eq_True if_True)
  show ?case
  proof (cases "c = ns ! k")
    case False
    then have "k = 0" by (auto simp: k_def split: if_splits)
    then have suf': "suffix (take k ns) (pre @ [c])" by simp
    have r: "strstr_loop m nd h (nd + adr j) = strstr_loop m nd (h + 1) (nd + adr k)"
      using step False by (simp only: if_False)
    show ?thesis using Cons.IH [OF h(3) h1 j suf'] unfolding r app .
  next
    case True
    have suf': "suffix (take (Suc k) ns) (pre @ [c])"
      using suf True j by (auto simp: take_Suc_conv_app_nth suffix_def)
    show ?thesis
    proof (cases "Suc k = length ns")
      case False
      then have j': "Suc k < length ns" using j by linarith
      have r: "strstr_loop m nd h (nd + adr j) = strstr_loop m nd (h + 1) (nd + adr (Suc k))"
        using step True False by (simp only: if_False if_True simp_thms)
      show ?thesis using Cons.IH [OF h(3) h1 j' suf'] unfolding r app .
    next
      case len: True
      then obtain p where p: "pre @ [c] = p @ ns" using suf' by (auto simp: suffix_def)
      have "h - adr (length ns) + 1 = h0 + adr (length p)"
      proof -
        have "h + 1 = h0 + adr (length p) + adr (length ns)"
          unfolding h1 p by (simp only: length_append of_nat_add add.assoc)
        then show ?thesis by (simp add: algebra_simps del: adr_fold)
      qed
      then have "strstr_loop m nd h (nd + adr j) = Some (h0 + adr (length p))"
        using step True len by (simp only: if_True simp_thms)
      moreover have "pre @ c # hs = p @ ns @ hs" using p unfolding app by simp
      ultimately show ?thesis by blast
    qed
  qed
qed

lemma strstr_sound:
  assumes "cstr m h hs" "cstr m nd ns" "ns \<noteq> []"
  shows "strstr m h nd = Some 0 \<or> (\<exists>p q. hs = p @ ns @ q \<and> strstr m h nd = Some (h + adr (length p)))"
  using strstr_loop_sound [OF assms(2,3,1), of h "[]" 0] assms(3) by (simp add: strstr_def)

lemma strstr_misses_aab:
  assumes "cstr m h [97, 97, 97, 98]" "cstr m nd [97, 97, 98]"
  shows "strstr m h nd = Some 0"
  using assms unfolding strstr_def
  by (simp add: strstr_loop.simps [of m nd h] strstr_loop.simps [of m nd "h + 1"]
      strstr_loop.simps [of m nd "2 + h"] strstr_loop.simps [of m nd "3 + h"]
      strstr_loop.simps [of m nd "4 + h"] Let_def)

subsection \<open>Dotted addresses\<close>

definition dval :: "u8 list \<Rightarrow> nat" where
  "dval ds = foldl (\<lambda>v c. v * 10 + nat (sint c - 48)) 0 ds"

definition wval :: "u16 \<Rightarrow> u8 list \<Rightarrow> u16" where
  "wval p ds = foldl (\<lambda>v c. v * 10 + word_of_int (sint c - 48)) p ds"

lemma wval_dval: "\<forall>c \<in> set ds. digit c \<Longrightarrow>
    wval (word_of_nat v) ds = word_of_nat (foldl (\<lambda>v c. v * 10 + nat (sint c - 48)) v ds)"
proof (induction ds arbitrary: v)
  case (Cons c ds)
  have "(word_of_int (sint c - 48) :: u16) = word_of_nat (nat (sint c - 48))"
    using Cons.prems by (simp add: digit_def)
  moreover have "(word_of_nat v :: u16) * 10 = word_of_nat (v * 10)" by simp
  ultimately have "wval (word_of_nat v) (c # ds) = wval (word_of_nat (v * 10 + nat (sint c - 48))) ds"
    by (simp only: wval_def foldl_Cons of_nat_add)
  also have "\<dots> = word_of_nat (foldl (\<lambda>v c. v * 10 + nat (sint c - 48)) (v * 10 + nat (sint c - 48)) ds)"
    by (rule Cons.IH) (use Cons.prems in simp)
  finally show ?case by (simp only: foldl_Cons)
qed (simp add: wval_def)

lemma ipv4_part_run:
  "cstr m str (ds @ t) \<Longrightarrow> \<forall>c \<in> set ds. digit c \<Longrightarrow> length ds \<le> left \<Longrightarrow>
     length ds = left \<or> t = [] \<or> \<not> digit (hd t) \<Longrightarrow>
     ipv4_part left m str p j = (str + adr (length ds), wval p ds, j + length ds)"
proof (induction ds arbitrary: left str p j)
  case Nil
  have "\<not> digit 0" by (simp add: digit_def)
  then have "left = 0 \<or> \<not> digit (m str)" using Nil by (cases t) auto
  then show ?case by (cases left) (auto simp: wval_def)
next
  case (Cons c ds)
  then obtain l where l: "left = Suc l" by (cases left) auto
  have "ipv4_part left m str p j = ipv4_part l m (str + 1) (p * 10 + word_of_int (sint c - 48)) (j + 1)"
    using Cons.prems l by simp
  also have "\<dots> = (str + 1 + adr (length ds), wval (p * 10 + word_of_int (sint c - 48)) ds, j + 1 + length ds)"
    using Cons.prems l by (intro Cons.IH) auto
  finally show ?case by (simp add: wval_def adr_shift del: adr_fold)
qed

definition part_ok :: "u8 list \<Rightarrow> bool" where
  "part_ok ds \<longleftrightarrow> ds \<noteq> [] \<and> length ds \<le> 3 \<and> (\<forall>c \<in> set ds. digit c) \<and> dval ds \<le> 255"

text \<open>One turn of the outer loop.\<close>

lemma ipv4_loop_step:
  assumes c: "cstr m str (ds @ t)" and ok: "part_ok ds" and stop: "t = [] \<or> \<not> digit (hd t)"
  shows "ipv4_loop (Suc left) i m str (word_of_nat v) =
    (if t \<noteq> [] \<and> hd t = 46
     then ipv4_loop left (i + 1) m (str + adr (length ds) + 1) (word_of_nat (v * 256 + dval ds))
     else Some (i, word_of_nat (v * 256 + dval ds)))"
proof -
  have part: "ipv4_part 3 m str 0 0 = (str + adr (length ds), word_of_nat (dval ds), length ds)"
    using ipv4_part_run [OF c, of 3 0 0] ok stop wval_dval [of ds 0] by (auto simp: part_ok_def dval_def)
  have u: "unat (word_of_nat (dval ds) :: u16) = dval ds"
    using ok by (simp add: part_ok_def unsigned_of_nat take_bit_nat_eq_self)
  have uc: "(ucast (word_of_nat (dval ds) :: u16) :: u32) = word_of_nat (dval ds)"
    by (rule word_unat_eq_iff [THEN iffD2])
      (use ok in \<open>simp add: unsigned_ucast_eq u part_ok_def take_bit_nat_eq_self\<close>)
  have ip: "push_bit 8 (word_of_nat v) + word_of_nat (dval ds) = (word_of_nat (v * 256 + dval ds) :: u32)"
    by (simp only: push_bit_eq_mult of_nat_add of_nat_mult) simp
  have at: "m (str + adr (length ds)) = 46 \<longleftrightarrow> t \<noteq> [] \<and> hd t = 46"
    using c cstr_end [of m str ds] by (cases t) (auto simp: cstr_append)
  have "\<not> word_of_nat (dval ds) > (255 :: u16)" "length ds \<noteq> 0"
    using ok u by (auto simp: part_ok_def word_less_nat_alt)
  then show ?thesis by (simp add: part uc ip at Let_def)
qed

lemma ipv4_loop_dot:
  assumes "cstr m str (ds @ [46] @ r)" "part_ok ds"
  shows "ipv4_loop (Suc left) i m str (word_of_nat v) =
      ipv4_loop left (Suc i) m (str + adr (length ds) + 1) (word_of_nat (v * 256 + dval ds))"
    "cstr m (str + adr (length ds) + 1) r"
proof -
  have "[46] @ r = [] \<or> \<not> digit (hd ([46] @ r))" by (simp add: digit_def)
  from ipv4_loop_step [OF assms this, of left i v]
  show "ipv4_loop (Suc left) i m str (word_of_nat v) =
      ipv4_loop left (Suc i) m (str + adr (length ds) + 1) (word_of_nat (v * 256 + dval ds))"
    by (simp only: append_Cons append_Nil list.sel list.distinct simp_thms if_True Suc_eq_plus1)
  show "cstr m (str + adr (length ds) + 1) r" using assms(1) by (simp add: cstr_append)
qed

lemma strtoipv4_dotted:
  assumes c: "cstr m p (a @ [46] @ b @ [46] @ c @ [46] @ d @ t)"
    and ok: "part_ok a" "part_ok b" "part_ok c" "part_ok d" and t: "t = [] \<or> \<not> digit (hd t) \<and> hd t \<noteq> 46"
  shows "strtoipv4 m p = Some (word_of_nat (((dval a * 256 + dval b) * 256 + dval c) * 256 + dval d))"
proof -
  note c1 = ipv4_loop_dot(2) [OF c ok(1)]
  note c2 = ipv4_loop_dot(2) [OF c1 ok(2)]
  note c3 = ipv4_loop_dot(2) [OF c2 ok(3)]
  have t': "t = [] \<or> \<not> digit (hd t)" "\<not> (t \<noteq> [] \<and> hd t = 46)" using t by auto
  have "ipv4_loop (Suc (Suc (Suc (Suc 0)))) 0 m p (word_of_nat 0) =
      Some (Suc (Suc (Suc 0)), word_of_nat (((dval a * 256 + dval b) * 256 + dval c) * 256 + dval d))"
    unfolding ipv4_loop_dot(1) [OF c ok(1)] ipv4_loop_dot(1) [OF c1 ok(2)] ipv4_loop_dot(1) [OF c2 ok(3)]
      ipv4_loop_step [OF c3 ok(4) t'(1)] if_not_P [OF t'(2)] by (simp only: mult_0 add_0)
  moreover have "(4 :: nat) = Suc (Suc (Suc (Suc 0)))" "(3 :: nat) = Suc (Suc (Suc 0))" by simp_all
  moreover have "(0 :: u32) = adr 0" by simp
  ultimately show ?thesis unfolding strtoipv4_def
    by (simp only: option.case prod.case if_True simp_thms)
qed

subsection \<open>Properties\<close>

text \<open>
  \<^verbatim>\<open>strcpy\<close> of a string to a place that does not overlap it terminates, leaves the
  string with its terminator at the destination and changes no other byte.
\<close>

theorem strcpy_correct:
  assumes "cstr m s str" "length str < 4294967295"
    "\<forall>i \<le> length str. \<forall>j \<le> length str. d + adr i \<noteq> s + adr j"
  shows "\<exists>m'. strcpy d s m = Some (d, m') \<and> cstr m' d str \<and>
    (\<forall>x. (\<forall>i \<le> length str. x \<noteq> d + adr i) \<longrightarrow> m' x = m x)"
  using strcpy_loop_cstr [OF assms] by (auto simp: strcpy_def)

text \<open>A memory with one string at 0x1000 and another at 0x2000, for the witnesses.\<close>

definition two_strings :: "string \<Rightarrow> string \<Rightarrow> mem" where
  "two_strings s t a =
     (if 0x1000 \<le> a \<and> unat (a - 0x1000) < length s then of_char (s ! unat (a - 0x1000))
      else if 0x2000 \<le> a \<and> unat (a - 0x2000) < length t then of_char (t ! unat (a - 0x2000))
      else 0)"

lemma witness_apart:
  assumes "i \<le> 100" "j \<le> 100"
  shows "8192 + adr i \<noteq> 4096 + adr j"
proof
  assume eq: "8192 + adr i = 4096 + adr j"
  have "i + 8192 = j + 4096"
    by (rule adr_inj [OF eq [unfolded adr_fold(2)]]) (use assms in linarith)+
  with assms show False by linarith
qed

theorem strcpy_correct_witness:
  "\<exists>m'. strcpy 0x2000 0x1000 (two_strings ''ab'' []) = Some (0x2000, m') \<and> cstr m' 0x2000 [97, 98]"
proof -
  have c: "cstr (two_strings ''ab'' []) 0x1000 [97, 98]" by (simp add: two_strings_def)
  have "\<forall>i \<le> length [97, 98 :: u8]. \<forall>j \<le> length [97, 98 :: u8]. 8192 + adr i \<noteq> 4096 + adr j"
    by (intro allI impI witness_apart) simp_all
  from strcpy_correct [OF c _ this] obtain m' where
    "strcpy 0x2000 0x1000 (two_strings ''ab'' []) = Some (0x2000, m')" "cstr m' 0x2000 [97, 98]"
    by (elim meta_impE exE conjE) simp
  then show ?thesis by blast
qed

text \<open>
  \<^verbatim>\<open>strcat\<close> appends: the destination string is followed by the source string.
\<close>

theorem strcat_correct:
  assumes "cstr m d a" "cstr m s b" "length a + length b < 4294967295"
    "\<forall>i \<le> length a + length b. \<forall>j \<le> length b. d + adr i \<noteq> s + adr j"
  shows "\<exists>m'. strcat d s m = Some (d, m') \<and> cstr m' d (a @ b)"
  using strcat_cstr [OF assms] .

theorem strcat_correct_witness:
  "\<exists>m'. strcat 0x2000 0x1000 (two_strings ''b'' ''a'') = Some (0x2000, m') \<and> cstr m' 0x2000 [97, 98]"
proof -
  have c: "cstr (two_strings ''b'' ''a'') 0x2000 [97]" "cstr (two_strings ''b'' ''a'') 0x1000 [98]"
    by (simp_all add: two_strings_def)
  have "\<forall>i \<le> length [97 :: u8] + length [98 :: u8]. \<forall>j \<le> length [98 :: u8]. 8192 + adr i \<noteq> 4096 + adr j"
    by (intro allI impI witness_apart) simp_all
  from strcat_correct [OF c _ this] show ?thesis by simp
qed

text \<open>
  \<^verbatim>\<open>strcmp\<close> terminates on two strings, returns zero exactly when they are equal and
  a negative number exactly when the first is lexicographically smaller as a list of unsigned
  bytes.
\<close>

theorem strcmp_correct:
  assumes "cstr m p s" "cstr m q t"
  shows "\<exists>r. strcmp m p q = Some r \<and> (r = 0 \<longleftrightarrow> s = t) \<and> (r < 0 \<longleftrightarrow> (s, t) \<in> lexord {(c, d). c < d})"
  using strcmp_cstr [OF assms] compare_bytes_0 compare_bytes_less cstr_nonzero [OF assms(1)]
    cstr_nonzero [OF assms(2)] by simp

theorem strcmp_correct_witness:
  "\<exists>r. strcmp (two_strings ''ab'' ''b'') 0x1000 0x2000 = Some r \<and> r < 0"
proof -
  have "cstr (two_strings ''ab'' ''b'') 0x1000 [97, 98]" "cstr (two_strings ''ab'' ''b'') 0x2000 [98]"
    by (simp_all add: two_strings_def)
  from strcmp_correct [OF this] show ?thesis by auto
qed

text \<open>
  \<^verbatim>\<open>strstr\<close> of a non-empty needle terminates, and a pointer it returns is where the
  needle occurs.
\<close>

theorem strstr_correct:
  assumes "cstr m h hs" "cstr m nd ns" "ns \<noteq> []"
  shows "strstr m h nd = Some 0 \<or> (\<exists>p q. hs = p @ ns @ q \<and> strstr m h nd = Some (h + adr (length p)))"
  using strstr_sound [OF assms] .

theorem strstr_correct_witness:
  "strstr (two_strings ''xab'' ''ab'') 0x1000 0x2000 \<noteq> None"
proof -
  have "cstr (two_strings ''xab'' ''ab'') 0x1000 [120, 97, 98]" "cstr (two_strings ''xab'' ''ab'') 0x2000 [97, 98]"
    by (simp_all add: two_strings_def)
  from strstr_correct [OF this list.distinct(2)] show ?thesis by (metis option.distinct(1))
qed

text \<open>
  \<^verbatim>\<open>strstr\<close> is incomplete: after a partial match it does not go back, so "aab" is
  not found in "aaab", although it occurs there.
\<close>

theorem strstr_incomplete:
  assumes "cstr m h [97, 97, 97, 98]" "cstr m nd [97, 97, 98]"
  shows "strstr m h nd = Some 0"
  using strstr_misses_aab [OF assms] .

theorem strstr_incomplete_witness:
  "strstr (two_strings ''aaab'' ''aab'') 0x1000 0x2000 = Some 0"
proof -
  have "cstr (two_strings ''aaab'' ''aab'') 0x1000 [97, 97, 97, 98]"
    "cstr (two_strings ''aaab'' ''aab'') 0x2000 [97, 97, 98]"
    by (simp_all (no_asm) add: two_strings_def)
  from strstr_incomplete [OF this] show ?thesis .
qed

text \<open>
  \<^verbatim>\<open>strtoipv4\<close> accepts every dotted quad of decimal parts of one to three digits
  and at most 255, and returns the address they spell in network order.  It also accepts one
  that is followed by other text, as long as that begins with neither a digit nor a dot.
\<close>

theorem strtoipv4_correct:
  assumes "cstr m p (a @ [46] @ b @ [46] @ c @ [46] @ d @ t)"
    "part_ok a" "part_ok b" "part_ok c" "part_ok d" "t = [] \<or> \<not> digit (hd t) \<and> hd t \<noteq> 46"
  shows "strtoipv4 m p = Some (word_of_nat (((dval a * 256 + dval b) * 256 + dval c) * 256 + dval d))"
  using strtoipv4_dotted [OF assms] .

theorem strtoipv4_correct_witness:
  "strtoipv4 (two_strings ''10.0.2.15xyz'' []) 0x1000 = Some 0x0a00020f"
proof -
  have "cstr (two_strings ''10.0.2.15xyz'' []) 0x1000
      ([49, 48] @ [46] @ [48] @ [46] @ [50] @ [46] @ [49, 53] @ [120, 121, 122])"
    by (simp add: two_strings_def)
  from strtoipv4_correct [OF this] show ?thesis by (simp add: part_ok_def digit_def dval_def)
qed

end
