(* ===== verification/CStdlib.thy ===== *)
theory CStdlib
  imports CString
begin

text \<open>
  \<^verbatim>\<open>klibc/ctype.c\<close>, \<^verbatim>\<open>klibc/stdlib.c\<close> and the case-insensitive comparison of
  \<^verbatim>\<open>klibc/strings.c\<close>: the character classes, \<^verbatim>\<open>strtoul\<close>, the pseudo-random
  generator and \<^verbatim>\<open>path_canonicalise\<close>, which rewrites a path in place.
\<close>

subsection \<open>Character classes\<close>

text \<open>The lookup table; its first and its last 128 entries are zero.\<close>

definition g_typetable :: "u16 list" where
  "g_typetable = replicate 128 0 @ [
     0x0200, 0x0200, 0x0200, 0x0200, 0x0200, 0x0200, 0x0200, 0x0200,
     0x0200, 0x0320, 0x0220, 0x0220, 0x0220, 0x0220, 0x0200, 0x0200,
     0x0200, 0x0200, 0x0200, 0x0200, 0x0200, 0x0200, 0x0200, 0x0200,
     0x0200, 0x0200, 0x0200, 0x0200, 0x0200, 0x0200, 0x0200, 0x0200,
     0x0160, 0x04c0, 0x04c0, 0x04c0, 0x04c0, 0x04c0, 0x04c0, 0x04c0,
     0x04c0, 0x04c0, 0x04c0, 0x04c0, 0x04c0, 0x04c0, 0x04c0, 0x04c0,
     0x08d8, 0x08d8, 0x08d8, 0x08d8, 0x08d8, 0x08d8, 0x08d8, 0x08d8,
     0x08d8, 0x08d8, 0x04c0, 0x04c0, 0x04c0, 0x04c0, 0x04c0, 0x04c0,
     0x04c0, 0x08d5, 0x08d5, 0x08d5, 0x08d5, 0x08d5, 0x08d5, 0x08c5,
     0x08c5, 0x08c5, 0x08c5, 0x08c5, 0x08c5, 0x08c5, 0x08c5, 0x08c5,
     0x08c5, 0x08c5, 0x08c5, 0x08c5, 0x08c5, 0x08c5, 0x08c5, 0x08c5,
     0x08c5, 0x08c5, 0x08c5, 0x04c0, 0x04c0, 0x04c0, 0x04c0, 0x04c0,
     0x04c0, 0x08d6, 0x08d6, 0x08d6, 0x08d6, 0x08d6, 0x08d6, 0x08c6,
     0x08c6, 0x08c6, 0x08c6, 0x08c6, 0x08c6, 0x08c6, 0x08c6, 0x08c6,
     0x08c6, 0x08c6, 0x08c6, 0x08c6, 0x08c6, 0x08c6, 0x08c6, 0x08c6,
     0x08c6, 0x08c6, 0x08c6, 0x04c0, 0x04c0, 0x04c0, 0x04c0, 0x0200] @ replicate 128 0"

definition ctypeisname :: "int \<Rightarrow> u16 \<Rightarrow> u16" where
  "ctypeisname c type = g_typetable ! (128 + nat (take_bit 8 c)) AND type"

abbreviation (input) "ISUPPER \<equiv> 0x0001 :: u16"
abbreviation (input) "ISLOWER \<equiv> 0x0002 :: u16"
abbreviation (input) "ISALPHA \<equiv> 0x0004 :: u16"
abbreviation (input) "ISDIGIT \<equiv> 0x0008 :: u16"
abbreviation (input) "ISXDIGIT \<equiv> 0x0010 :: u16"
abbreviation (input) "ISSPACE \<equiv> 0x0020 :: u16"
abbreviation (input) "ISPRINT \<equiv> 0x0040 :: u16"
abbreviation (input) "ISGRAPH \<equiv> 0x0080 :: u16"
abbreviation (input) "ISBLANK \<equiv> 0x0100 :: u16"
abbreviation (input) "ISCNTRL \<equiv> 0x0200 :: u16"
abbreviation (input) "ISPUNCT \<equiv> 0x0400 :: u16"
abbreviation (input) "ISALNUM \<equiv> 0x0800 :: u16"

definition tolower :: "int \<Rightarrow> int" where
  "tolower c = (if 65 \<le> c \<and> c \<le> 90 then c + (97 - 65) else c)"

definition toupper :: "int \<Rightarrow> int" where
  "toupper c = (if 97 \<le> c \<and> c \<le> 122 then c - (97 - 65) else c)"

partial_function (option) strcasecmp :: "mem \<Rightarrow> u32 \<Rightarrow> u32 \<Rightarrow> int option" where
  "strcasecmp m p q =
     (if tolower (sint (m p)) = tolower (sint (m q))
      then if m p = 0 then Some 0 else strcasecmp m (p + 1) (q + 1)
      else Some (tolower (sint (m p)) - tolower (sint (m q))))"

subsection \<open>Random numbers\<close>

text \<open>The generator's state is a signed word; the multiplication wraps.\<close>

definition rand :: "u32 \<Rightarrow> int \<times> u32" where
  "rand g = (let g' = g * 1103515245 + 12345 in (sint g', g'))"

definition rand32 :: "u32 \<Rightarrow> int \<times> u32" where
  "rand32 g = (let g' = g * 1103515245 + 12345 in (sint g', g'))"

definition srand :: "int \<Rightarrow> u32" where
  "srand seed = word_of_int seed"

subsection \<open>strtoul\<close>

text \<open>
  The result of \<^verbatim>\<open>strtoul\<close>: the value, what is stored through \<^verbatim>\<open>endptr\<close>
  (nothing, if the function does not reach a store) and the value assigned to
  \<^verbatim>\<open>errno\<close>, if any.
\<close>

record strtoul_result =
  value32 :: u32
  end_ptr :: "u32 option"
  set_errno :: "errno option"

partial_function (option) skip_space :: "mem \<Rightarrow> u32 \<Rightarrow> u32 option" where
  "skip_space m p =
     (if m p = 32 \<or> m p = 9 \<or> m p = 13 \<or> m p = 10 then skip_space m (p + 1) else Some p)"

definition digit_value :: "u8 \<Rightarrow> u8" where
  "digit_value c =
     (let c' = sint c in
      if 48 \<le> c' \<and> c' \<le> 57 then c - 48
      else if 97 \<le> c' \<and> c' \<le> 122 then c - 97 + 10
      else if 65 \<le> c' \<and> c' \<le> 90 then c - 65 + 10
      else 255)"

text \<open>
  The loop over the digits; \<open>orig\<close> is the original pointer, \<open>found\<close>, \<open>ovf\<close> and \<open>neg\<close> are the
  flags.  An invalid digit returns at once, without the overflow test or the negation.
\<close>

partial_function (option) strtoul_loop ::
    "mem \<Rightarrow> u32 \<Rightarrow> int \<Rightarrow> bool \<Rightarrow> u32 \<Rightarrow> u32 \<Rightarrow> bool \<Rightarrow> bool \<Rightarrow> strtoul_result option" where
  "strtoul_loop m orig base neg p n found ovf =
     (if m p \<noteq> 0
      then let digit = digit_value (m p)
           in if uint digit \<ge> base
              then Some \<lparr>value32 = n, end_ptr = Some (if found then p else orig), set_errno = None\<rparr>
              else let n' = (ucast n :: u64) * word_of_int base
                   in strtoul_loop m orig base neg (p + 1) (ucast n' + ucast digit) True
                        (ovf \<or> n' > 0xffffffff)
      else if ovf then Some \<lparr>value32 = 0xffffffff, end_ptr = Some p, set_errno = Some ERANGE\<rparr>
      else Some \<lparr>value32 = (if neg then - n else n), end_ptr = Some p, set_errno = None\<rparr>)"

definition strtoul :: "mem \<Rightarrow> u32 \<Rightarrow> int \<Rightarrow> strtoul_result option" where
  "strtoul m nptr base =
     (case skip_space m nptr of
        None \<Rightarrow> None
      | Some p \<Rightarrow>
          let neg = (m p = 45);
              p = (if m p = 45 then p + 1 else if m p = 43 then p + 1 else p)
          in if base \<noteq> 0 \<and> (base < 2 \<or> base > 36)
             then Some \<lparr>value32 = 0, end_ptr = None, set_errno = Some EINVAL\<rparr>
             else let base = (if base \<noteq> 0 then base
                              else if m p = 48 then if m (p + 1) = 120 \<or> m (p + 1) = 88 then 16 else 8
                              else 10);
                      p = (if base = 16 \<and> m p = 48 \<and> (m (p + 1) = 120 \<or> m (p + 1) = 88)
                           then p + 2 else p)
                  in strtoul_loop m nptr base neg p 0 False False)"

subsection \<open>path_canonicalise\<close>

text \<open>\<^verbatim>\<open>while(*++read_end == DIR_SEPARATOR);\<close>\<close>

partial_function (option) skip_separators :: "mem \<Rightarrow> u32 \<Rightarrow> u32 option" where
  "skip_separators m e = (let e = e + 1 in if m e = 47 then skip_separators m e else Some e)"

partial_function (option) scan_component :: "mem \<Rightarrow> u32 \<Rightarrow> u32 option" where
  "scan_component m e = (if m e \<noteq> 0 \<and> m e \<noteq> 47 then scan_component m (e + 1) else Some e)"

text \<open>\<^verbatim>\<open>while((write > path) && (*--write != DIR_SEPARATOR));\<close>\<close>

partial_function (option) rewind_component :: "mem \<Rightarrow> u32 \<Rightarrow> u32 \<Rightarrow> u32 option" where
  "rewind_component m path w =
     (if w > path
      then let w = w - 1 in if m w \<noteq> 47 then rewind_component m path w else Some w
      else Some w)"

partial_function (option) copy_component :: "u32 \<Rightarrow> u32 \<Rightarrow> u32 \<Rightarrow> mem \<Rightarrow> (u32 \<times> u32 \<times> mem) option" where
  "copy_component rs re w m =
     (if rs < re then copy_component (rs + 1) re (w + 1) (m(w := m rs)) else Some (rs, w, m))"

text \<open>The body of the main loop after the separators: what happens to the component
  between \<open>rs\<close> and \<open>re\<close>; returns the new \<^verbatim>\<open>read_start\<close>, \<^verbatim>\<open>write\<close> and memory.\<close>

definition path_component :: "u32 \<Rightarrow> u32 \<Rightarrow> u32 \<Rightarrow> u32 \<Rightarrow> mem \<Rightarrow> (u32 \<times> u32 \<times> mem) option" where
  "path_component path rs re w m =
     (if rs \<noteq> re
      then if re - rs = 1 \<and> m rs = 46
           then Some (re, if w > path then w - 1 else w, m)
           else if re - rs = 2 \<and> m rs = 46 \<and> m (rs + 1) = 46
           then map_option (\<lambda>w. (re, w, m)) (rewind_component m path (if w - 2 \<ge> path then w - 2 else path))
           else copy_component rs re w m
      else Some (rs, w, m))"

partial_function (option) path_loop ::
    "u32 \<Rightarrow> u32 \<Rightarrow> u32 \<Rightarrow> u32 \<Rightarrow> mem \<Rightarrow> (u32 \<times> mem) option" where
  "path_loop path rs re w m =
     (if m rs \<noteq> 0
      then case (if m re = 47
                 then map_option (\<lambda>e. (e, e, w + 1, m(w := 47))) (skip_separators (m(w := 47)) re)
                 else Some (rs, re, w, m)) of
             None \<Rightarrow> None
           | Some (rs, re, w, m) \<Rightarrow>
               (case scan_component m re of
                  None \<Rightarrow> None
                | Some re \<Rightarrow>
                    (case path_component path rs re w m of
                       None \<Rightarrow> None
                     | Some (rs, w, m) \<Rightarrow> path_loop path rs re w m))
      else Some (w, m))"

definition path_canonicalise :: "u32 \<Rightarrow> mem \<Rightarrow> (u32 \<times> mem) option" where
  "path_canonicalise path m =
     (case path_loop path path path path m of
        None \<Rightarrow> None
      | Some (w, m) \<Rightarrow>
          let w = (if w > path \<and> m (w - 1) = 47 then w - 1 else w)
          in Some (path, m(w := 0)))"

subsection \<open>What a canonical path is\<close>

fun split_sep :: "u8 list \<Rightarrow> u8 list list" where
  "split_sep [] = [[]]"
| "split_sep (c # cs) = (if c = 47 then [] # split_sep cs
     else (case split_sep cs of [] \<Rightarrow> [[c]] | x # xs \<Rightarrow> (c # x) # xs))"

text \<open>Enter a path component: empty and "." stay, ".." goes up (and stays at the root).\<close>

definition push :: "u8 list list \<Rightarrow> u8 list \<Rightarrow> u8 list list" where
  "push st c = (if c = [] \<or> c = [46] then st else if c = [46, 46] then butlast st else st @ [c])"

definition canonical :: "u8 list \<Rightarrow> u8 list list" where
  "canonical s = foldl push [] (split_sep s)"

definition outs :: "u8 list list \<Rightarrow> u8 list" where
  "outs st = concat (map (Cons 47) st)"

lemma outs_simps [simp]: "outs [] = []" "outs (st @ [c]) = outs st @ 47 # c"
  by (simp_all add: outs_def)

lemma push_Nil [simp]: "push st [] = st"
  by (simp add: push_def)

lemma split_sep_slash: "47 \<notin> set c \<Longrightarrow> split_sep (c @ 47 # s) = c # split_sep s"
  by (induction c) auto

lemma split_sep_plain: "47 \<notin> set c \<Longrightarrow> split_sep c = [c]"
  by (induction c) auto

definition pending :: "u8 list list \<Rightarrow> u8 list \<Rightarrow> u8 list list" where
  "pending st t = (if t = [] then st else foldl push st (split_sep (tl t)))"

lemma pending_step:
  assumes "47 \<notin> set c" "t = [] \<or> hd t = 47"
  shows "pending st (47 # replicate k 47 @ c @ t) = pending (push st c) t"
proof -
  have "foldl push st (split_sep (replicate k 47 @ c @ t)) = foldl push st (split_sep (c @ t))"
    by (induction k) simp_all
  also have "\<dots> = pending (push st c) t"
    using assms by (cases t) (auto simp: pending_def split_sep_plain split_sep_slash)
  finally show ?thesis by (simp add: pending_def)
qed

definition comps_ok :: "u8 list list \<Rightarrow> bool" where
  "comps_ok st \<longleftrightarrow> (\<forall>c \<in> set st. c \<noteq> [] \<and> 47 \<notin> set c \<and> 0 \<notin> set c)"

lemma comps_ok_push: "comps_ok st \<Longrightarrow> 47 \<notin> set c \<Longrightarrow> 0 \<notin> set c \<Longrightarrow> comps_ok (push st c)"
  by (auto simp: comps_ok_def push_def dest: in_set_butlastD)

lemma path_split:
  obtains k c t where "s = replicate k 47 @ c @ t" "47 \<notin> set (c :: u8 list)" "t = [] \<or> hd t = 47" "c = [] \<Longrightarrow> t = []"
proof -
  define u where "u = dropWhile (\<lambda>x. x = 47) s"
  define k where "k = length (takeWhile (\<lambda>x. x = 47) s)"
  have "takeWhile (\<lambda>x. x = 47) s = replicate k 47"
    unfolding k_def by (rule replicate_eqI [symmetric, THEN sym]) (auto dest: set_takeWhileD)
  then have s: "s = replicate k 47 @ takeWhile (\<lambda>x. x \<noteq> 47) u @ dropWhile (\<lambda>x. x \<noteq> 47) u"
    unfolding u_def by (metis takeWhile_dropWhile_id)
  have u: "u = [] \<or> hd u \<noteq> 47" unfolding u_def using hd_dropWhile [of "\<lambda>x. x = 47" s] by blast
  show thesis
  proof (rule that [OF s])
    show "47 \<notin> set (takeWhile (\<lambda>x. x \<noteq> 47) u)" by (auto dest: set_takeWhileD)
    show "dropWhile (\<lambda>x. x \<noteq> 47) u = [] \<or> hd (dropWhile (\<lambda>x. x \<noteq> 47) u) = 47"
      using hd_dropWhile [of "\<lambda>x. x \<noteq> 47" u] by blast
    show "dropWhile (\<lambda>x. x \<noteq> 47) u = []" if "takeWhile (\<lambda>x. x \<noteq> 47) u = []"
      using that u by (cases u) auto
  qed
qed

subsection \<open>The inner loops of path_canonicalise\<close>

lemma cstr_upd_before:
  assumes "cstr m (adr e) s" "w < e" "e + length s < 4294967296"
  shows "cstr (m(adr w := v)) (adr e) s"
proof (rule cstr_frame [OF assms(1)], intro allI impI)
  fix i assume "i \<le> length s"
  then have "adr (e + i) \<noteq> adr w" using adr_inj [of "e + i" w] assms(2,3) by auto
  then show "(m(adr w := v)) (adr e + adr i) = m (adr e + adr i)" by simp
qed

lemma skip_separators_run:
  "cstr m (adr e) (47 # replicate k 47 @ t) \<Longrightarrow> t = [] \<or> hd t \<noteq> 47 \<Longrightarrow>
     skip_separators m (adr e) = Some (adr (e + k + 1))"
proof (induction k arbitrary: e)
  case 0
  then have "m (adr (e + 1)) \<noteq> 47" by (cases t) auto
  then show ?case by (subst skip_separators.simps) (simp add: Let_def)
next
  case (Suc k)
  then have "m (adr (e + 1)) = 47" "cstr m (adr (e + 1)) (47 # replicate k 47 @ t)" by auto
  then show ?case using Suc.IH [of "e + 1"] Suc.prems(2) by (subst skip_separators.simps) (simp add: Let_def)
qed

lemma scan_component_run:
  "cstr m (adr r) (c @ t) \<Longrightarrow> 47 \<notin> set c \<Longrightarrow> t = [] \<or> hd t = 47 \<Longrightarrow>
     scan_component m (adr r) = Some (adr (r + length c))"
proof (induction c arbitrary: r)
  case Nil
  then have "m (adr r) = 0 \<or> m (adr r) = 47" by (cases t) auto
  then show ?case by (subst scan_component.simps) auto
next
  case (Cons x c)
  then show ?case using Cons.IH [of "r + 1"] by (subst scan_component.simps) auto
qed

lemma copy_component_run:
  "w \<le> rs \<Longrightarrow> rs + n < 4294967296 \<Longrightarrow> \<exists>m'. copy_component (adr rs) (adr (rs + n)) (adr w) m =
     Some (adr (rs + n), adr (w + n), m') \<and> copied m m' w rs n"
proof (induction n arbitrary: rs w m)
  case 0
  then show ?case by (subst copy_component.simps) simp
next
  case (Suc n)
  let ?m = "m(adr w := m (adr rs))"
  have lt: "adr rs < adr (rs + Suc n)" using Suc.prems(2) by (subst adr_less_iff) auto
  have "w + 1 \<le> rs + 1" "rs + 1 + n < 4294967296" using Suc.prems by auto
  from Suc.IH [OF this, of ?m] obtain m' where
    m': "copy_component (adr (rs + 1)) (adr (rs + 1 + n)) (adr (w + 1)) ?m =
      Some (adr (rs + 1 + n), adr (w + 1 + n), m')" "copied ?m m' (w + 1) (rs + 1) n"
    by blast
  have "copied m m' w rs (1 + n)"
    using Suc.prems by (intro copied_append [OF copied_byte m'(2)]) auto
  moreover have "copy_component (adr rs) (adr (rs + Suc n)) (adr w) m =
      copy_component (adr (rs + 1)) (adr (rs + Suc n)) (adr (w + 1)) ?m"
    using lt by (subst copy_component.simps) simp
  ultimately show ?case using m'(1) by auto
qed

definition holds :: "mem \<Rightarrow> nat \<Rightarrow> u8 list \<Rightarrow> bool" where
  "holds m a s \<longleftrightarrow> (\<forall>i < length s. m (adr (a + i)) = s ! i)"

lemma holds_append: "holds m a (s @ t) \<longleftrightarrow> holds m a s \<and> holds m (a + length s) t"
proof
  assume h: "holds m a (s @ t)"
  have "m (adr (a + length s + i)) = t ! i" if "i < length t" for i
    using h [unfolded holds_def, rule_format, of "length s + i"] that by (simp add: add.assoc nth_append)
  moreover have "m (adr (a + i)) = s ! i" if "i < length s" for i
    using h [unfolded holds_def, rule_format, of i] that by (simp add: nth_append)
  ultimately show "holds m a s \<and> holds m (a + length s) t" by (simp add: holds_def)
next
  assume h: "holds m a s \<and> holds m (a + length s) t"
  show "holds m a (s @ t)"
    unfolding holds_def
  proof (intro allI impI)
    fix i assume "i < length (s @ t)"
    then show "m (adr (a + i)) = (s @ t) ! i"
      using h [unfolded holds_def] by (cases "i < length s") (auto simp: nth_append dest: spec [of _ "i - length s"])
  qed
qed

lemma holds_single: "holds m a [c] \<longleftrightarrow> m (adr a) = c"
  by (simp add: holds_def)

lemma holds_modifies:
  "holds m a s \<Longrightarrow> modifies m m' lo hi \<Longrightarrow> a + length s \<le> lo \<Longrightarrow> a + length s \<le> 4294967296 \<Longrightarrow> holds m' a s"
  unfolding holds_def using modifies_at [of m m' lo hi] by simp

text \<open>Storing a list of bytes, as a device or a loop over a buffer does.\<close>

fun write_bytes :: "u8 list \<Rightarrow> u32 \<Rightarrow> mem \<Rightarrow> mem" where
  "write_bytes [] a m = m"
| "write_bytes (c # cs) a m = write_bytes cs (a + 1) (m(a := c))"

lemma write_bytes_spec:
  "x + length bs \<le> 4294967296 \<Longrightarrow>
     modifies m (write_bytes bs (adr x) m) x (x + length bs) \<and> (\<forall>i < length bs. write_bytes bs (adr x) m (adr (x + i)) = bs ! i)"
proof (induction bs arbitrary: x m)
  case (Cons b bs)
  define m1 where "m1 = m(adr x := b)"
  have "Suc x + length bs \<le> 4294967296"
    using Cons.prems by simp
  note IH = conjunct1 [OF Cons.IH [OF this, of m1]] conjunct2 [OF Cons.IH [OF this, of m1]]
  have "m1 (adr x) = b"
    by (simp add: m1_def)
  then have "write_bytes bs (adr (Suc x)) m1 (adr x) = b"
    using modifies_at [OF IH(1), of x] Cons.prems by simp
  then have "write_bytes bs (adr (Suc x)) m1 (adr (x + i)) = (b # bs) ! i" if "i < Suc (length bs)" for i
    using IH(2) that by (cases i) auto
  moreover have "modifies m m1 x (x + Suc (length bs))"
    unfolding m1_def using Cons.prems by (intro modifies_mono [OF modifies_upd]) auto
  moreover have "modifies m1 (write_bytes bs (adr (Suc x)) m1) x (x + Suc (length bs))"
    by (rule modifies_mono [OF IH(1)]) auto
  ultimately show ?case
    by (auto simp: m1_def [symmetric] intro: modifies_trans)
qed (simp add: modifies_def agree_def)

lemma rewind_component_run:
  "holds m a (pre @ 47 # c) \<Longrightarrow> 47 \<notin> set c \<Longrightarrow> j \<le> length c \<Longrightarrow> a + length pre + 1 + j < 4294967296 \<Longrightarrow>
     rewind_component m (adr a) (adr (a + length pre + 1 + j)) = Some (adr (a + length pre))"
proof (induction j)
  case 0
  have "adr a < adr (a + length pre + 1)" using 0 by (subst adr_less_iff) auto
  moreover have "m (adr (a + length pre)) = 47"
    using 0(1) [unfolded holds_def, rule_format, of "length pre"] by simp
  ultimately show ?case by (subst rewind_component.simps) (simp add: Let_def adr_diff_numeral [where k = num.One, simplified])
next
  case (Suc j)
  let ?w = "a + length pre + 1 + j"
  have "adr a < adr (?w + 1)" using Suc.prems by (subst adr_less_iff) auto
  moreover have "m (adr ?w) = c ! j"
    using Suc.prems(1) [unfolded holds_def, rule_format, of "length pre + 1 + j"] Suc.prems(3)
    by (simp add: nth_append add.assoc)
  moreover have "c ! j \<noteq> 47" using Suc.prems(2,3) by (metis Suc_le_lessD nth_mem)
  moreover have "adr (?w + 1) - 1 = adr ?w" by (simp only: of_nat_add of_nat_1 add_diff_cancel_right')
  ultimately have "rewind_component m (adr a) (adr (?w + 1)) = rewind_component m (adr a) (adr ?w)"
    by (subst rewind_component.simps) (simp only: Let_def if_True not_False_eq_True)
  then show ?case using Suc by simp
qed

subsection \<open>The main loop\<close>

text \<open>
  One turn on a component \<open>c\<close> between \<open>rs\<close> and \<open>re\<close>: before it the output so far and a
  separator have been written, after it the output of the new stack.
\<close>

lemma path_component_run:
  assumes st: "comps_ok st" and h: "holds m a (outs st @ [47])" and a: "0 < a"
    and w: "a + length (outs st) + 1 \<le> rs" and fit: "rs + length c < 4294967296"
    and c: "cstr m (adr rs) (c @ t)" "c \<noteq> []" "47 \<notin> set c"
  shows "\<exists>m'. path_component (adr a) (adr rs) (adr (rs + length c)) (adr (a + length (outs st) + 1)) m =
      Some (adr (rs + length c), adr (a + length (outs (push st c))), m') \<and>
    holds m' a (outs (push st c)) \<and> a + length (outs (push st c)) \<le> rs + length c \<and>
    modifies m m' a (rs + length c)"
proof -
  let ?re = "rs + length c" and ?w = "a + length (outs st) + 1"
  have ne: "adr rs \<noteq> adr ?re" using adr_inj [of rs ?re] fit c(2) by auto
  have len: "adr ?re - adr rs = adr (length c)" by (simp only: of_nat_add add_diff_cancel_left')
  have n1: "adr (length c) = 1 \<longleftrightarrow> length c = 1" and n2: "adr (length c) = 2 \<longleftrightarrow> length c = 2"
    using adr_eq_iff [of "length c" 1] adr_eq_iff [of "length c" 2] fit by auto
  have ho: "holds m a (outs st)" using h by (simp add: holds_append)
  have nth: "m (adr rs + adr i) = c ! i" if "i < length c" for i
    using cstr_append [of m "adr rs" c t] c(1) that by blast
  have wgt: "adr a < adr ?w" using w fit by (subst adr_less_iff) auto
  have wm1: "adr ?w - 1 = adr (a + length (outs st))" by (simp only: of_nat_add of_nat_1 add_diff_cancel_right')
  consider (dot) "c = [46]" | (dots) "c = [46, 46]" | (name) "c \<noteq> [46]" "c \<noteq> [46, 46]" by blast
  then show ?thesis
  proof cases
    case dot
    then have "path_component (adr a) (adr rs) (adr ?re) (adr ?w) m = Some (adr ?re, adr ?w - 1, m)"
      using ne len n1 nth [of 0] wgt unfolding path_component_def by simp
    moreover have "push st c = st" using dot by (simp add: push_def)
    ultimately show ?thesis using wm1 ho w dot by auto
  next
    case name
    have "\<not> (adr (length c) = 1 \<and> m (adr rs) = 46)" "\<not> (adr (length c) = 2 \<and> m (adr rs) = 46 \<and> m (adr rs + 1) = 46)"
      using name c(2) nth [of 0] nth [of 1] unfolding n1 n2
      by (auto simp: length_Suc_conv numeral_2_eq_2)
    then have "path_component (adr a) (adr rs) (adr ?re) (adr ?w) m = copy_component (adr rs) (adr ?re) (adr ?w) m"
      using ne unfolding path_component_def len by (simp only: if_True if_False simp_thms)
    moreover obtain m' where m': "copy_component (adr rs) (adr ?re) (adr ?w) m = Some (adr ?re, adr (?w + length c), m')"
      "copied m m' ?w rs (length c)"
      using copy_component_run [OF w fit, of m] by blast
    moreover have push: "push st c = st @ [c]" using name c(2) by (simp add: push_def)
    moreover have "holds m' a (outs st @ [47])"
      using m'(2) w fit by (intro holds_modifies [OF h, of m' ?w "?w + length c"]) (auto simp: copied_def)
    moreover have "holds m' ?w c"
      using m'(2) nth by (simp add: copied_def holds_def)
    ultimately show ?thesis
      using w m'(2) holds_append [of m' a "outs st @ [47]" c]
      by (auto simp: copied_def add.assoc elim!: modifies_mono)
  next
    case dots
    let ?p = "if adr ?w - 2 \<ge> adr a then adr ?w - 2 else adr a"
    have pc: "path_component (adr a) (adr rs) (adr ?re) (adr ?w) m =
        map_option (\<lambda>w. (adr ?re, w, m)) (rewind_component m (adr a) ?p)"
      using ne len n1 n2 nth [of 0] nth [of 1] dots unfolding path_component_def by simp
    have push: "push st c = butlast st" using dots by (simp add: push_def)
    show ?thesis
    proof (cases st rule: rev_cases)
      case Nil
      have "adr ?w - 2 = adr (a - 1)"
        using a Nil by (cases a) (simp_all add: adr_diff_numeral)
      moreover have "a - 1 < 4294967296" "a < 4294967296" using w fit by auto
      then have "adr (a - 1) < adr a" using a by (subst adr_less_iff) auto
      then have "\<not> adr (a - 1) \<ge> adr a" by simp
      ultimately have "rewind_component m (adr a) ?p = Some (adr a)"
        by (subst rewind_component.simps) simp
      then show ?thesis using pc push Nil w by (auto simp: holds_def)
    next
      case (snoc st' d)
      then have d: "d \<noteq> []" "47 \<notin> set d" using st by (auto simp: comps_ok_def)
      have wd: "?w = a + length (outs st') + 1 + (length d - 1) + 2" using snoc d(1) by (cases d) auto
      then have p: "adr ?w - 2 = adr (a + length (outs st') + 1 + (length d - 1))"
        by (simp only: of_nat_add of_nat_numeral add_diff_cancel_right')
      moreover have "adr a \<le> adr (a + length (outs st') + 1 + (length d - 1))"
        using wd w fit by (simp add: word_le_nat_alt)
      ultimately have "?p = adr (a + length (outs st') + 1 + (length d - 1))" by simp
      moreover have "rewind_component m (adr a) (adr (a + length (outs st') + 1 + (length d - 1))) =
          Some (adr (a + length (outs st')))"
        using ho snoc d wd w fit by (intro rewind_component_run [of m a "outs st'" d]) auto
      moreover have "holds m a (outs st')" using ho snoc by (simp add: holds_append)
      ultimately show ?thesis using pc push snoc w by auto
    qed
  qed
qed

lemma path_loop_end: "m rs = 0 \<Longrightarrow> path_loop p rs re w m = Some (w, m)"
  by (subst path_loop.simps) simp

lemma path_loop_turn:
  assumes "m rs \<noteq> 0" "m re = 47" "skip_separators (m(w := 47)) re = Some e"
    "scan_component (m(w := 47)) e = Some re'"
    "path_component p e re' (w + 1) (m(w := 47)) = Some (rs', w', m')"
  shows "path_loop p rs re w m = path_loop p rs' re' w' m'"
  using assms by (subst path_loop.simps) simp

lemma path_loop_run:
  assumes "comps_ok st" "holds m a (outs st)" "0 < a" "a + length (outs st) \<le> r"
    "r + length rest < 4294967296" "cstr m (adr r) rest" "rest = [] \<or> hd rest = 47"
  shows "\<exists>m' tail. path_loop (adr a) (adr r) (adr r) (adr (a + length (outs st))) m =
      Some (adr (a + length (outs (pending st rest) @ tail)), m') \<and>
    holds m' a (outs (pending st rest) @ tail) \<and> (tail = [] \<or> tail = [47]) \<and>
    comps_ok (pending st rest) \<and>
    a + length (outs (pending st rest) @ tail) \<le> r + length rest \<and> modifies m m' a (r + length rest)"
  using assms
proof (induction "length rest" arbitrary: rest st m r rule: less_induct)
  case less
  note st = less.prems(1) and h = less.prems(2) and a = less.prems(3) and wr = less.prems(4)
    and fit = less.prems(5) and cs = less.prems(6)
  show ?case
  proof (cases rest)
    case Nil
    then have "m (adr r) = 0" using cs by simp
    then show ?thesis
      using st h wr Nil path_loop_end [of m "adr r"]
      by (intro exI [of _ m] exI [of _ "[]"]) (auto simp: pending_def)
  next
    case (Cons x s)
    with less.prems(7) have x: "x = 47" by simp
    obtain k c t where s: "s = replicate k 47 @ c @ t" and c: "47 \<notin> set c" "t = [] \<or> hd t = 47"
      "c = [] \<Longrightarrow> t = []"
      using path_split [of s] by blast
    have rest: "rest = 47 # replicate k 47 @ c @ t" using Cons x s by simp
    let ?w = "a + length (outs st)" and ?e = "r + k + 1"
    let ?m = "m(adr ?w := 47)"
    have pend: "pending st rest = pending (push st c) t" unfolding rest by (rule pending_step [OF c(1,2)])
    have m0: "m (adr r) = 47" using cs rest by simp
    have len: "length rest = k + 1 + length c + length t" using rest by simp
    have cs': "cstr ?m (adr r) rest"
    proof (cases "?w = r")
      case True
      then have "?m = m" using m0 by auto
      then show ?thesis using cs by simp
    next
      case False
      then show ?thesis using cstr_upd_before [OF cs, of ?w 47] wr fit by simp
    qed
    have skip: "skip_separators ?m (adr r) = Some (adr ?e)"
    proof (rule skip_separators_run)
      show "cstr ?m (adr r) (47 # replicate k 47 @ c @ t)" using cs' rest by simp
      show "c @ t = [] \<or> hd (c @ t) \<noteq> 47" using c by (cases c) auto
    qed
    have ct: "cstr ?m (adr ?e) (c @ t)"
    proof -
      have "cstr ?m (adr r) ((47 # replicate k 47) @ c @ t)" using cs' rest by simp
      then show ?thesis unfolding cstr_append [of ?m "adr r"] by (simp add: add.assoc)
    qed
    have scan: "scan_component ?m (adr ?e) = Some (adr (?e + length c))"
      using scan_component_run [OF ct c(1,2)] .
    have mod1: "modifies m ?m ?w (?w + 1)" using wr fit by (intro modifies_upd) simp
    have h1: "holds ?m a (outs st @ [47])"
      using holds_modifies [OF h mod1] wr fit by (simp add: holds_append holds_single)
    have turn: "path_loop (adr a) (adr r) (adr r) (adr ?w) m = path_loop (adr a) rs' (adr (?e + length c)) w' m'"
      if "path_component (adr a) (adr ?e) (adr (?e + length c)) (adr (?w + 1)) ?m = Some (rs', w', m')" for rs' w' m'
      using path_loop_turn [of m "adr r" "adr r", OF _ m0 skip scan] that m0 by simp
    show ?thesis
    proof (cases "c = []")
      case True
      then have t: "t = []" using c(3) by simp
      have "path_component (adr a) (adr ?e) (adr (?e + length c)) (adr (?w + 1)) ?m = Some (adr ?e, adr (?w + 1), ?m)"
        using True by (simp add: path_component_def)
      moreover have "?m (adr ?e) = 0" using ct True t by simp
      ultimately have "path_loop (adr a) (adr r) (adr r) (adr ?w) m = Some (adr (?w + 1), ?m)"
        using turn path_loop_end [of ?m "adr ?e"] by simp
      moreover have "pending st rest = st" unfolding pend using True t by (simp add: pending_def)
      moreover have "modifies m ?m a (r + length rest)" using mod1 wr len by (auto elim!: modifies_mono)
      ultimately show ?thesis
        using st h1 wr len by (intro exI [of _ ?m] exI [of _ "[47]"]) (simp add: add.assoc)
    next
      case False
      have wf: "?w + 1 \<le> ?e" "?e + length c < 4294967296" using wr fit len by simp_all
      obtain m' where m': "path_component (adr a) (adr ?e) (adr (?e + length c)) (adr (?w + 1)) ?m =
          Some (adr (?e + length c), adr (a + length (outs (push st c))), m')"
        "holds m' a (outs (push st c))" "a + length (outs (push st c)) \<le> ?e + length c"
        "modifies ?m m' a (?e + length c)"
        using path_component_run [OF st h1 a wf ct False c(1)] by blast
      have zero: "0 \<notin> set c" using cstr_nonzero [OF ct] by simp
      have "cstr ?m (adr (?e + length c)) t" using ct unfolding cstr_append by simp
      then have ct': "cstr m' (adr (?e + length c)) t"
      proof (rule cstr_frame, intro allI impI)
        fix i assume "i \<le> length t"
        then show "m' (adr (?e + length c) + adr i) = ?m (adr (?e + length c) + adr i)"
          using modifies_at [OF m'(4), of "?e + length c + i"] fit len by simp
      qed
      have shorter: "length t < length rest" and fit': "?e + length c + length t < 4294967296"
        using fit len by simp_all
      from less.hyps [OF shorter comps_ok_push [OF st c(1) zero] m'(2) a m'(3) fit' ct' c(2)]
      obtain m2 tail where r: "path_loop (adr a) (adr (?e + length c)) (adr (?e + length c))
            (adr (a + length (outs (push st c)))) m' =
          Some (adr (a + length (outs (pending (push st c) t) @ tail)), m2)"
        "holds m2 a (outs (pending (push st c) t) @ tail)" "tail = [] \<or> tail = [47]"
        "comps_ok (pending (push st c) t)"
        "a + length (outs (pending (push st c) t) @ tail) \<le> ?e + length c + length t"
        "modifies m' m2 a (?e + length c + length t)"
        by blast
      have total: "?e + length c + length t = r + length rest" using len by simp
      have "modifies m m' a (r + length rest)"
        by (rule modifies_trans [OF modifies_mono [OF mod1] modifies_mono [OF m'(4)]]) (use wr len in simp_all)
      then have "modifies m m2 a (r + length rest)"
        using r(6) unfolding total by (rule modifies_trans)
      moreover have "path_loop (adr a) (adr r) (adr r) (adr ?w) m =
          Some (adr (a + length (outs (pending st rest) @ tail)), m2)"
        using turn [OF m'(1)] r(1) unfolding pend by simp
      ultimately show ?thesis
        using r(2-5) unfolding pend total
        by (intro exI [of _ m2] exI [of _ tail] conjI) assumption+
    qed
  qed
qed

lemma outs_last: "comps_ok st \<Longrightarrow> st \<noteq> [] \<Longrightarrow> last (outs st) \<noteq> 47 \<and> outs st \<noteq> []"
proof (cases st rule: rev_cases)
  case (snoc st' c)
  assume "comps_ok st"
  then have "c \<noteq> []" "47 \<notin> set c" using snoc by (auto simp: comps_ok_def)
  then have "last c \<noteq> 47" using last_in_set by metis
  then show ?thesis using snoc \<open>c \<noteq> []\<close> by simp
qed simp

lemma path_canonicalise_run:
  assumes "0 < a" "a + length s + 1 < 4294967296" "cstr m (adr a) (47 # s)"
  shows "\<exists>m'. path_canonicalise (adr a) m = Some (adr a, m') \<and> cstr m' (adr a) (outs (canonical s)) \<and>
    modifies m m' a (a + length s + 2)"
proof -
  let ?o = "outs (canonical s)"
  have "comps_ok []" "holds m a (outs [])" by (simp_all add: comps_ok_def holds_def)
  then obtain m1 tail where r: "path_loop (adr a) (adr a) (adr a) (adr a) m = Some (adr (a + length (?o @ tail)), m1)"
    "holds m1 a (?o @ tail)" "tail = [] \<or> tail = [47]" "comps_ok (canonical s)"
    "a + length (?o @ tail) \<le> a + length (47 # s)" "modifies m m1 a (a + length (47 # s))"
    using path_loop_run [of "[]" m a a "47 # s"] assms by (auto simp: pending_def canonical_def)
  let ?W = "a + length (?o @ tail)"
  have ho: "holds m1 a ?o" using r(2) by (simp add: holds_append)
  have bound: "a + length ?o < 4294967296" "?W < 4294967296" using r(5) assms(2) by auto
  have final: "(if adr ?W > adr a \<and> m1 (adr ?W - 1) = 47 then adr ?W - 1 else adr ?W) = adr (a + length ?o)"
  proof (cases "tail = []")
    case True
    have "m1 (adr ?W - 1) \<noteq> 47" if "adr ?W > adr a"
    proof -
      have ne: "?o \<noteq> []" using that True by auto
      then have "canonical s \<noteq> []" by auto
      then have "last ?o \<noteq> 47" using outs_last [OF r(4)] by simp
      moreover have "m1 (adr (a + (length ?o - 1))) = last ?o"
        using ho ne by (simp add: holds_def last_conv_nth)
      moreover have "?W = a + (length ?o - 1) + 1" using ne True by (cases ?o) auto
      then have "adr ?W - 1 = adr (a + (length ?o - 1))"
        by (simp only: of_nat_add of_nat_1 add_diff_cancel_right')
      ultimately show ?thesis by simp
    qed
    then show ?thesis using True by auto
  next
    case False
    then have t: "tail = [47]" using r(3) by simp
    then have w1: "adr ?W - 1 = adr (a + length ?o)"
      by (simp only: length_append_singleton add_Suc_right of_nat_Suc add_diff_cancel_left')
    have "m1 (adr (a + length ?o)) = 47" using r(2) t by (simp add: holds_append holds_single)
    moreover have "adr ?W > adr a" using t bound by (subst adr_less_iff) auto
    ultimately show ?thesis using w1 by simp
  qed
  let ?m = "m1(adr (a + length ?o) := 0)"
  have "path_canonicalise (adr a) m = Some (adr a, ?m)"
    unfolding path_canonicalise_def r(1) by (simp only: option.case prod.case Let_def final)
  moreover have mod: "modifies m1 ?m (a + length ?o) (a + length ?o + 1)"
    using bound by (intro modifies_upd) simp
  have "holds ?m a ?o" using holds_modifies [OF ho mod] bound by simp
  moreover have "comps_ok (canonical s)" by (rule r(4))
  then have "0 \<notin> set ?o" by (auto simp: comps_ok_def outs_def)
  ultimately have "cstr ?m (adr a) ?o"
    by (intro cstrI) (auto simp: holds_def in_set_conv_nth)
  moreover have "modifies m ?m a (a + length s + 2)"
    by (rule modifies_trans [OF modifies_mono [OF r(6)] modifies_mono [OF mod]]) (use r(5) in simp_all)
  ultimately show ?thesis using \<open>path_canonicalise (adr a) m = Some (adr a, ?m)\<close> by blast
qed

subsection \<open>Numerals\<close>

text \<open>What the digit loop computes: the accumulated word and the overflow flag.\<close>

fun accumulate :: "int \<Rightarrow> u8 list \<Rightarrow> u32 \<times> bool \<Rightarrow> u32 \<times> bool" where
  "accumulate b [] x = x"
| "accumulate b (c # cs) (n, v) =
     accumulate b cs (let n' = (ucast n :: u64) * word_of_int b
                      in (ucast n' + ucast (digit_value c), v \<or> n' > 0xffffffff))"

definition digits_ok :: "int \<Rightarrow> u8 list \<Rightarrow> bool" where
  "digits_ok b ds \<longleftrightarrow> (\<forall>c \<in> set ds. uint (digit_value c) < b)"

lemma strtoul_loop_run:
  "cstr m p ds \<Longrightarrow> digits_ok b ds \<Longrightarrow> strtoul_loop m orig b neg p n found v =
    (case accumulate b ds (n, v) of (n', v') \<Rightarrow>
       Some (if v' then \<lparr>value32 = 0xffffffff, end_ptr = Some (p + adr (length ds)), set_errno = Some ERANGE\<rparr>
             else \<lparr>value32 = (if neg then - n' else n'), end_ptr = Some (p + adr (length ds)), set_errno = None\<rparr>))"
proof (induction ds arbitrary: p n found v)
  case Nil
  then show ?case by (subst strtoul_loop.simps) simp
next
  case (Cons c ds)
  have "\<not> uint (digit_value c) \<ge> b" using Cons.prems(2) by (simp add: digits_ok_def)
  moreover have "digits_ok b ds" "cstr m (p + 1) ds" using Cons.prems by (simp_all add: digits_ok_def)
  ultimately show ?case
    using Cons.prems(1) Cons.IH
    by (subst strtoul_loop.simps) (simp add: Let_def adr_shift del: adr_fold, simp only: length_Cons adr_shift)
qed

definition numeral_value :: "int \<Rightarrow> u8 list \<Rightarrow> nat" where
  "numeral_value b ds = foldl (\<lambda>v c. v * nat b + unat (digit_value c)) 0 ds"

lemma foldl_digits_ge: "(v :: nat) * nat b ^ length ds \<le> foldl (\<lambda>v c. v * nat b + unat (digit_value c)) v ds"
proof (induction ds arbitrary: v)
  case (Cons c ds)
  have "v * nat b ^ length (c # ds) \<le> (v * nat b + unat (digit_value c)) * nat b ^ length ds"
    by (simp add: algebra_simps)
  also have "\<dots> \<le> foldl (\<lambda>v c. v * nat b + unat (digit_value c)) v (c # ds)"
    using Cons.IH by simp
  finally show ?case .
qed simp

lemma accumulate_value:
  assumes b: "2 \<le> b" "b \<le> 36"
  shows "foldl (\<lambda>v c. v * nat b + unat (digit_value c)) v ds < 4294967296 \<Longrightarrow>
    accumulate b ds (word_of_nat v, False) =
      (word_of_nat (foldl (\<lambda>v c. v * nat b + unat (digit_value c)) v ds), False)"
proof (induction ds arbitrary: v)
  case (Cons c ds)
  let ?v = "v * nat b + unat (digit_value c)"
  have "1 \<le> nat b ^ length ds" using b by simp
  then have "?v * 1 \<le> ?v * nat b ^ length ds" by (rule mult_le_mono2)
  also have "\<dots> \<le> foldl (\<lambda>v c. v * nat b + unat (digit_value c)) ?v ds" by (rule foldl_digits_ge)
  also have "\<dots> < 4294967296" using Cons.prems by simp
  finally have lt: "v * nat b + unat (digit_value c) < 4294967296" by simp
  have "v \<le> v * nat b" using b by (cases "nat b") auto
  then have v: "v < 4294967296" using lt by linarith
  have uv: "(ucast (word_of_nat v :: u32) :: u64) = word_of_nat v"
    by (rule word_unat_eq_iff [THEN iffD2])
      (use v in \<open>simp add: unsigned_ucast_eq unsigned_of_nat take_bit_nat_eq_self\<close>)
  have wb: "(word_of_int b :: u64) = word_of_nat (nat b)" using b by simp
  have prod: "(ucast (word_of_nat v :: u32) :: u64) * word_of_int b = word_of_nat (v * nat b)"
    unfolding uv wb by (simp only: of_nat_mult)
  have un: "unat (word_of_nat (v * nat b) :: u64) = v * nat b"
    using lt by (simp add: unsigned_of_nat take_bit_nat_eq_self del: of_nat_mult)
  then have no: "\<not> (word_of_nat (v * nat b) :: u64) > 0xffffffff"
    using lt by (simp add: word_less_nat_alt)
  have uc: "(ucast (word_of_nat (v * nat b) :: u64) :: u32) = word_of_nat (v * nat b)"
    by (rule word_unat_eq_iff [THEN iffD2])
      (use lt in \<open>simp add: unsigned_ucast_eq un take_bit_nat_eq_self del: of_nat_mult\<close>)
  have ud: "(ucast (digit_value c) :: u32) = word_of_nat (unat (digit_value c))"
  proof (rule word_unat_eq_iff [THEN iffD2])
    have "unat (digit_value c) < 256" using unsigned_less [of "digit_value c"] by simp
    then show "unat (ucast (digit_value c) :: u32) = unat (word_of_nat (unat (digit_value c)) :: u32)"
      by (simp add: unsigned_ucast_eq take_bit_nat_eq_self)
  qed
  have "accumulate b (c # ds) (word_of_nat v, False) = accumulate b ds (word_of_nat ?v, False)"
    using no by (simp only: accumulate.simps Let_def prod uc ud of_nat_add simp_thms)
  then show ?case using Cons.IH Cons.prems by simp
qed simp

lemma skip_space_run:
  "cstr m p (sp @ t) \<Longrightarrow> set sp \<subseteq> {32, 9, 13, 10} \<Longrightarrow> t \<noteq> [] \<Longrightarrow> hd t \<notin> {32, 9, 13, 10} \<Longrightarrow>
     skip_space m p = Some (p + adr (length sp))"
proof (induction sp arbitrary: p)
  case Nil
  then show ?case by (cases t) (auto simp: skip_space.simps)
next
  case (Cons c sp)
  then have "skip_space m p = skip_space m (p + 1)" by (subst skip_space.simps) auto
  then show ?case using Cons by (simp add: adr_shift del: adr_fold)
qed

lemma digit_value_sym: "digit_value 32 = 255" "digit_value 9 = 255" "digit_value 13 = 255" "digit_value 10 = 255"
  "digit_value 45 = 255" "digit_value 43 = 255" "digit_value 120 = 33" "digit_value 88 = 33"
  by code_simp+

lemma digit_not_special:
  assumes "uint (digit_value c) < b" "b \<le> 36"
  shows "c \<notin> {32, 9, 13, 10, 45, 43}" "b = 16 \<Longrightarrow> c \<noteq> 120 \<and> c \<noteq> 88"
  using assms digit_value_sym by auto

lemma strtoul_digits:
  assumes c: "cstr m p (sp @ sg @ ds)" and sp: "set sp \<subseteq> {32, 9, 13, 10}" and sg: "sg \<in> {[], [43], [45]}"
    and b: "2 \<le> b" "b \<le> 36" and ds: "ds \<noteq> []" "digits_ok b ds"
  shows "strtoul m p b = (case accumulate b ds (0, False) of (n, v) \<Rightarrow>
    Some (if v then \<lparr>value32 = 0xffffffff, end_ptr = Some (p + adr (length (sp @ sg @ ds))), set_errno = Some ERANGE\<rparr>
          else \<lparr>value32 = (if sg = [45] then - n else n), end_ptr = Some (p + adr (length (sp @ sg @ ds))), set_errno = None\<rparr>))"
proof -
  obtain d ds' where dd: "ds = d # ds'" using ds(1) by (cases ds) auto
  have okd: "uint (digit_value x) < b" if "x \<in> set ds" for x using ds(2) that by (simp add: digits_ok_def)
  have d: "d \<notin> {32, 9, 13, 10, 45, 43}" using digit_not_special(1) [OF okd b(2)] dd by simp
  let ?q = "p + adr (length sp)"
  have q: "cstr m ?q (sg @ ds)" using c by (simp add: cstr_append)
  have "sg @ ds \<noteq> []" "hd (sg @ ds) \<notin> {32, 9, 13, 10}" using d sg dd by auto
  then have skip: "skip_space m p = Some ?q" using skip_space_run [OF c sp] by simp
  let ?r = "?q + adr (length sg)"
  have r: "cstr m ?r ds" using q by (simp add: cstr_append)
  have mq: "m ?q = hd (sg @ ds)" using q dd by (cases sg) auto
  have sign: "(if m ?q = 45 then ?q + 1 else if m ?q = 43 then ?q + 1 else ?q) = ?r" "(m ?q = 45) = (sg = [45])"
    using mq sg d dd by auto
  have nox: "\<not> (b = 16 \<and> m ?r = 48 \<and> (m (?r + 1) = 120 \<or> m (?r + 1) = 88))"
  proof
    assume a: "b = 16 \<and> m ?r = 48 \<and> (m (?r + 1) = 120 \<or> m (?r + 1) = 88)"
    then obtain e es where "ds' = e # es" "e = m (?r + 1)" using r dd by (cases ds') auto
    then show False using digit_not_special(2) [OF okd b(2), of e] dd a by auto
  qed
  have end1: "?r + adr (length ds) = p + adr (length (sp @ sg @ ds))"
    by (simp only: length_append of_nat_add add.assoc)
  have "strtoul m p b = strtoul_loop m p b (sg = [45]) ?r 0 False False"
  proof -
    have "\<not> (b \<noteq> 0 \<and> (b < 2 \<or> b > 36))" "b \<noteq> 0" using b by auto
    then show ?thesis
      unfolding strtoul_def skip using nox
      by (simp only: option.case Let_def sign(1), simp only: sign(2) if_True if_False simp_thms)
  qed
  then show ?thesis unfolding strtoul_loop_run [OF r ds(2)] end1 .
qed

subsection \<open>The classes of the table\<close>

definition ascii_class :: "nat \<Rightarrow> u16" where
  "ascii_class c =
     (if c = 9 then 0x320 else if 10 \<le> c \<and> c \<le> 13 then 0x220 else if c < 32 \<or> c = 127 then 0x200
      else if c = 32 then 0x160 else if 48 \<le> c \<and> c \<le> 57 then 0x8d8
      else if 65 \<le> c \<and> c \<le> 70 then 0x8d5 else if 71 \<le> c \<and> c \<le> 90 then 0x8c5
      else if 97 \<le> c \<and> c \<le> 102 then 0x8d6 else if 103 \<le> c \<and> c \<le> 122 then 0x8c6 else 0x4c0)"

lemma typetable_ascii: "take 128 (drop 128 g_typetable) = map ascii_class [0..<128]"
  by (simp add: g_typetable_def ascii_class_def upt_conv_Cons)

lemma length_typetable: "length g_typetable = 384"
  by (simp add: g_typetable_def)

lemma ctypeisname_ascii:
  assumes "0 \<le> c" "c \<le> 127"
  shows "ctypeisname c type = ascii_class (nat c) AND type"
proof -
  have "take_bit 8 c = c" using assms by (simp add: take_bit_int_eq_self)
  moreover have "g_typetable ! (128 + nat c) = take 128 (drop 128 g_typetable) ! nat c"
    using assms by (simp add: length_typetable)
  ultimately show ?thesis
    using assms unfolding ctypeisname_def typetable_ascii by simp
qed

subsection \<open>Properties\<close>

text \<open>
  C37: \<^verbatim>\<open>path_canonicalise\<close> of an absolute path terminates, works in place within the
  original buffer, and leaves the canonical path: every component after a single slash, duplicate
  and trailing slashes and "." removed and each ".." resolved against the component before it,
  or dropped at the root.
\<close>

theorem path_canonicalise_correct:
  assumes "0 < a" "a + length s + 1 < 4294967296" "cstr m (adr a) (47 # s)"
  shows "\<exists>m'. path_canonicalise (adr a) m = Some (adr a, m') \<and> cstr m' (adr a) (outs (canonical s)) \<and>
    modifies m m' a (a + length s + 2)"
  using path_canonicalise_run [OF assms] .

theorem path_canonicalise_correct_witness:
  "\<exists>m'. path_canonicalise 0x1000 (two_strings ''/a//b/./../c/'' []) = Some (0x1000, m') \<and>
     cstr m' 0x1000 [47, 97, 47, 99]"
proof -
  have "cstr (two_strings ''/a//b/./../c/'' []) (adr 4096)
      (47 # [97, 47, 47, 98, 47, 46, 47, 46, 46, 47, 99, 47])"
    by (simp add: two_strings_def)
  from path_canonicalise_correct [OF _ _ this] obtain m' where
    "path_canonicalise (adr 4096) (two_strings ''/a//b/./../c/'' []) = Some (adr 4096, m')"
    "cstr m' (adr 4096) (outs (canonical [97, 47, 47, 98, 47, 46, 47, 46, 46, 47, 99, 47]))"
    by auto
  moreover have "outs (canonical [97, 47, 47, 98, 47, 46, 47, 46, 46, 47, 99, 47]) = [47, 97, 47, 99]"
    by (simp add: outs_def canonical_def push_def)
  ultimately show ?thesis by simp
qed

text \<open>
  A path that denotes the root becomes the empty string, not "/": the trailing slash is
  trimmed even when it is the whole path.
\<close>

theorem path_canonicalise_root:
  assumes "0 < a" "a + 1 < 4294967296" "cstr m (adr a) [47]"
  shows "\<exists>m'. path_canonicalise (adr a) m = Some (adr a, m') \<and> cstr m' (adr a) []"
  using path_canonicalise_run [of a "[]" m] assms by (auto simp: canonical_def)

theorem path_canonicalise_root_witness:
  "\<exists>m'. path_canonicalise 0x1000 (two_strings ''/'' []) = Some (0x1000, m') \<and> m' 0x1000 = 0"
proof -
  have "cstr (two_strings ''/'' []) (adr 4096) [47]" by (simp add: two_strings_def)
  from path_canonicalise_root [OF _ _ this] show ?thesis by auto
qed

text \<open>
  \<^verbatim>\<open>strtoul\<close> on white space, an optional sign and a non-empty numeral in a base
  from 2 to 36 whose value fits a 32-bit word: it returns the value, negated modulo 2 ^ 32 after
  a minus sign, sets \<^verbatim>\<open>*endptr\<close> to the terminator and leaves \<^verbatim>\<open>errno\<close> alone.
\<close>

theorem strtoul_correct:
  assumes "cstr m p (sp @ sg @ ds)" "set sp \<subseteq> {32, 9, 13, 10}" "sg \<in> {[], [43], [45]}"
    "2 \<le> b" "b \<le> 36" "ds \<noteq> []" "digits_ok b ds" "numeral_value b ds < 4294967296"
  shows "strtoul m p b = Some \<lparr>value32 = (if sg = [45] then - adr (numeral_value b ds) else adr (numeral_value b ds)),
    end_ptr = Some (p + adr (length (sp @ sg @ ds))), set_errno = None\<rparr>"
  using strtoul_digits [OF assms(1-7)] accumulate_value [OF assms(4,5), of 0 ds] assms(8)
  by (simp add: numeral_value_def)

theorem strtoul_correct_witness:
  "strtoul (two_strings '' -ff'' []) 0x1000 16 =
     Some \<lparr>value32 = 0xffffff01, end_ptr = Some 0x1004, set_errno = None\<rparr>"
proof -
  have "cstr (two_strings '' -ff'' []) 0x1000 ([32] @ [45] @ [102, 102])" by (simp add: two_strings_def)
  moreover have "digit_value 102 = 15" by code_simp
  ultimately show ?thesis
    using strtoul_correct [of "two_strings '' -ff'' []" 4096 "[32]" "[45]" "[102, 102]" 16]
    by (simp add: digits_ok_def numeral_value_def)
qed

text \<open>
  The overflow test of \<^verbatim>\<open>strtoul\<close> looks at the product but not at the sum, so a
  numeral just above the range is not detected: "4294967296" gives 0 and no error.
\<close>

theorem strtoul_overflow_missed:
  assumes "cstr m p [52, 50, 57, 52, 57, 54, 55, 50, 57, 54]"
  shows "strtoul m p 10 = Some \<lparr>value32 = 0, end_ptr = Some (p + 10), set_errno = None\<rparr>"
proof -
  have "accumulate 10 [52, 50, 57, 52, 57, 54, 55, 50, 57, 54] (0, False) = (0, False)" by code_simp
  moreover have "length [52, 50, 57, 52, 57, 54, 55, 50, 57, 54 :: u8] = 10" by simp
  then have "adr (length [52, 50, 57, 52, 57, 54, 55, 50, 57, 54 :: u8]) = 10" by (simp only:) simp
  moreover have "digits_ok 10 [52, 50, 57, 52, 57, 54, 55, 50, 57, 54]" by code_simp
  ultimately show ?thesis 
    using strtoul_digits [of m p "[]" "[]" "[52, 50, 57, 52, 57, 54, 55, 50, 57, 54]" 10] assms by simp
qed

theorem strtoul_overflow_missed_witness:
  "strtoul (two_strings ''4294967296'' []) 0x1000 10 =
     Some \<lparr>value32 = 0, end_ptr = Some 0x100a, set_errno = None\<rparr>"
proof -
  have "cstr (two_strings ''4294967296'' []) 0x1000 [52, 50, 57, 52, 57, 54, 55, 50, 57, 54]"
    by (simp add: two_strings_def)
  from strtoul_overflow_missed [OF this] show ?thesis by simp
qed

text \<open>
  The lookup table classifies the ASCII characters as the C locale does.
\<close>

theorem ctype_ascii_correct:
  assumes "0 \<le> c" "c \<le> 127"
  shows
    "(ctypeisname c ISUPPER \<noteq> 0 \<longleftrightarrow> 65 \<le> c \<and> c \<le> 90) \<and>
     (ctypeisname c ISLOWER \<noteq> 0 \<longleftrightarrow> 97 \<le> c \<and> c \<le> 122) \<and>
     (ctypeisname c ISDIGIT \<noteq> 0 \<longleftrightarrow> 48 \<le> c \<and> c \<le> 57) \<and>
     (ctypeisname c ISALPHA \<noteq> 0 \<longleftrightarrow> ctypeisname c ISUPPER \<noteq> 0 \<or> ctypeisname c ISLOWER \<noteq> 0) \<and>
     (ctypeisname c ISALNUM \<noteq> 0 \<longleftrightarrow> ctypeisname c ISALPHA \<noteq> 0 \<or> ctypeisname c ISDIGIT \<noteq> 0) \<and>
     (ctypeisname c ISSPACE \<noteq> 0 \<longleftrightarrow> c = 32 \<or> 9 \<le> c \<and> c \<le> 13) \<and>
     (ctypeisname c ISCNTRL \<noteq> 0 \<longleftrightarrow> c < 32 \<or> c = 127) \<and>
     (ctypeisname c ISPRINT \<noteq> 0 \<longleftrightarrow> 32 \<le> c \<and> c < 127)"
  using assms unfolding ctypeisname_ascii [OF assms]
  by (auto simp: ascii_class_def nat_eq_iff nat_le_iff le_nat_iff nat_less_iff split: if_splits)

theorem ctype_ascii_correct_witness: "ctypeisname 65 ISUPPER \<noteq> 0 \<and> ctypeisname 65 ISALPHA \<noteq> 0 \<and> ctypeisname 65 ISDIGIT = 0"
  using ctype_ascii_correct [of 65] by auto

end
