(* ===== verification/KList.thy ===== *)
theory KList
  imports Prelude
begin

text \<open>
  \<^verbatim>\<open>kernel/include/list.h\<close>: circular doubly linked lists with a head item, as pointer
  operations on a store of links.  An item is a value of any type; \<^verbatim>\<open>list_delete\<close> takes
  the value of \<^verbatim>\<open>LIST_INVALID_ITEM\<close> as an argument.
\<close>

record 'a links =
  lnext :: "'a \<Rightarrow> 'a"
  lprev :: "'a \<Rightarrow> 'a"

definition list_init :: "'a \<Rightarrow> 'a links \<Rightarrow> 'a links" where
  "list_init l s = (let s = s\<lparr>lnext := (lnext s)(l := l)\<rparr> in s\<lparr>lprev := (lprev s)(l := l)\<rparr>)"

definition do_list_append :: "'a \<Rightarrow> 'a \<Rightarrow> 'a \<Rightarrow> 'a links \<Rightarrow> 'a links" where
  "do_list_append new prev next s =
     (let s = s\<lparr>lprev := (lprev s)(next := new)\<rparr>;
          s = s\<lparr>lnext := (lnext s)(new := next)\<rparr>;
          s = s\<lparr>lprev := (lprev s)(new := prev)\<rparr>
      in s\<lparr>lnext := (lnext s)(prev := new)\<rparr>)"

definition do_list_delete :: "'a \<Rightarrow> 'a \<Rightarrow> 'a links \<Rightarrow> 'a links" where
  "do_list_delete prev next s =
     (let s = s\<lparr>lprev := (lprev s)(next := prev)\<rparr> in s\<lparr>lnext := (lnext s)(prev := next)\<rparr>)"

definition list_append :: "'a \<Rightarrow> 'a \<Rightarrow> 'a links \<Rightarrow> 'a links" where
  "list_append new item s = do_list_append new item (lnext s item) s"

definition list_insert :: "'a \<Rightarrow> 'a \<Rightarrow> 'a links \<Rightarrow> 'a links" where
  "list_insert new item s = do_list_append new (lprev s item) item s"

definition list_delete :: "'a \<Rightarrow> 'a \<Rightarrow> 'a links \<Rightarrow> 'a links" where
  "list_delete invalid item s =
     (let s = do_list_delete (lprev s item) (lnext s item) s;
          s = s\<lparr>lnext := (lnext s)(item := invalid)\<rparr>
      in s\<lparr>lprev := (lprev s)(item := invalid)\<rparr>)"

definition list_replace :: "'a \<Rightarrow> 'a \<Rightarrow> 'a links \<Rightarrow> 'a links" where
  "list_replace old new s =
     (let s = s\<lparr>lnext := (lnext s)(new := lnext s old)\<rparr>;
          s = s\<lparr>lprev := (lprev s)(lnext s new := new)\<rparr>;
          s = s\<lparr>lprev := (lprev s)(new := lprev s old)\<rparr>
      in s\<lparr>lnext := (lnext s)(lprev s new := new)\<rparr>)"

definition list_move_append :: "'a \<Rightarrow> 'a \<Rightarrow> 'a links \<Rightarrow> 'a links" where
  "list_move_append item dest s = list_append item dest (do_list_delete (lprev s item) (lnext s item) s)"

definition list_move_insert :: "'a \<Rightarrow> 'a \<Rightarrow> 'a links \<Rightarrow> 'a links" where
  "list_move_insert item dest s = list_insert item dest (do_list_delete (lprev s item) (lnext s item) s)"

definition list_is_last :: "'a \<Rightarrow> 'a \<Rightarrow> 'a links \<Rightarrow> bool" where
  "list_is_last item first s \<longleftrightarrow> lnext s item = first"

definition list_is_empty :: "'a \<Rightarrow> 'a links \<Rightarrow> bool" where
  "list_is_empty item s \<longleftrightarrow> lnext s item = item"

subsection \<open>The sequence a list holds\<close>

definition linked :: "'a links \<Rightarrow> 'a \<Rightarrow> 'a \<Rightarrow> bool" where
  "linked s a b \<longleftrightarrow> lnext s a = b \<and> lprev s b = a"

definition is_list :: "'a links \<Rightarrow> 'a \<Rightarrow> 'a list \<Rightarrow> bool" where
  "is_list s h xs \<longleftrightarrow> distinct (h # xs) \<and> successively (linked s) (h # xs @ [h])"

lemma successively_transfer:
  assumes "successively P xs" "\<And>ys a b zs. xs = ys @ a # b # zs \<Longrightarrow> P a b \<Longrightarrow> Q a b"
  shows "successively Q xs"
  using assms
proof (induction xs rule: induct_list012)
  case (3 x y zs)
  have "successively Q (y # zs)"
  proof (rule "3.IH"(2))
    show "successively P (y # zs)"
      using "3.prems"(1) by simp
    show "Q a b" if "y # zs = ys @ a # b # ws" "P a b" for ys a b ws
      using "3.prems"(2) [of "x # ys" a b ws] that by simp
  qed
  then show ?case
    using "3.prems"(1) "3.prems"(2) [of "[]" x y zs] by simp
qed simp_all

lemma is_list_distinct: "is_list s h xs \<Longrightarrow> distinct (h # xs)"
  by (simp add: is_list_def)

lemma is_list_split:
  assumes "is_list s h (xs @ x # ys)"
  shows "lnext s x = hd (ys @ [h])" "lprev s x = last (h # xs)"
    "lnext s (last (h # xs)) = x" "lprev s (hd (ys @ [h])) = x"
proof -
  have "successively (linked s) ((h # xs) @ (x # (ys @ [h])))"
    using assms by (simp add: is_list_def)
  then show "lnext s x = hd (ys @ [h])" "lprev s x = last (h # xs)"
    "lnext s (last (h # xs)) = x" "lprev s (hd (ys @ [h])) = x"
    unfolding successively_append_iff by (cases ys; simp add: linked_def)+
qed

lemma is_list_head: "is_list s h xs \<Longrightarrow> lnext s h = hd (xs @ [h]) \<and> lprev s h = last (h # xs)"
proof -
  assume "is_list s h xs"
  then have a: "successively (linked s) ([h] @ (xs @ [h]))" "successively (linked s) ((h # xs) @ [h])"
    by (simp_all add: is_list_def)
  show ?thesis
    using a(1) [unfolded successively_append_iff] a(2) [unfolded successively_append_iff]
    by (simp add: linked_def)
qed

lemma is_list_cong:
  assumes "\<And>a. a \<in> set (h # xs) \<Longrightarrow> lnext s' a = lnext s a \<and> lprev s' a = lprev s a"
  shows "is_list s' h xs = is_list s h xs"
proof -
  have "successively (linked s') (h # xs @ [h]) = successively (linked s) (h # xs @ [h])"
    by (rule successively_cong) (use assms in \<open>auto simp: linked_def\<close>)
  then show ?thesis
    by (simp add: is_list_def)
qed

text \<open>Two neighbours inside a list: neither is the last of it, nor the first.\<close>

lemma inner_pair:
  assumes "xs = us @ a # b # zs" "distinct xs"
  shows "a \<noteq> last xs" "b \<noteq> hd xs" "a \<in> set (butlast xs)" "b \<in> set (tl xs)"
proof -
  show "a \<in> set (butlast xs)" "b \<in> set (tl xs)"
    using assms(1) by (auto simp: butlast_append tl_append split: list.splits)
  have "last xs = last (b # zs)" "a \<notin> set (b # zs)"
    using assms by simp_all
  then show "a \<noteq> last xs"
    using last_in_set [of "b # zs"] by auto
  have "hd xs \<in> set (us @ [a])"
    using assms(1) by (cases us) simp_all
  then show "b \<noteq> hd xs"
    using assms by auto
qed

lemma do_list_append_sel:
  "new \<noteq> n \<Longrightarrow> lnext (do_list_append new p n s) = (lnext s)(new := n, p := new)"
  "new \<noteq> n \<Longrightarrow> lprev (do_list_append new p n s) = (lprev s)(n := new, new := p)"
  by (simp_all add: do_list_append_def Let_def fun_eq_iff)

lemma do_list_append_at:
  assumes "is_list s h (xs @ ys)" "new \<notin> set (h # xs @ ys)"
  shows "is_list (do_list_append new (last (h # xs)) (hd (ys @ [h])) s) h (xs @ new # ys)"
proof -
  let ?p = "last (h # xs)" and ?n = "hd (ys @ [h])"
  define s' where "s' = do_list_append new ?p ?n s"
  have mem: "?p \<in> set (h # xs)" "?n \<in> set (ys @ [h])"
    using last_in_set [of "h # xs"] hd_in_set [of "ys @ [h]"] by blast+
  have new: "new \<noteq> ?n" "new \<noteq> ?p"
    using mem assms(2) by auto
  note sel = do_list_append_sel [OF new(1), of ?p s, folded s'_def]
  have d: "distinct (h # xs)" "distinct (ys @ [h])" "set ys \<inter> set (h # xs) = {}" "set xs \<inter> set (ys @ [h]) = {}"
    using is_list_distinct [OF assms(1)] by auto
  have "successively (linked s) ((h # xs) @ (ys @ [h]))"
    using assms(1) by (simp add: is_list_def)
  then have l: "successively (linked s) (h # xs)" "successively (linked s) (ys @ [h])"
    unfolding successively_append_iff by simp_all
  have keep: "linked s' a b" if "linked s a b" "a \<noteq> ?p" "b \<noteq> ?n" "a \<noteq> new" "b \<noteq> new" for a b
    using that by (simp only: linked_def sel fun_upd_apply if_False)
  have "successively (linked s') (h # xs)"
  proof (rule successively_transfer [OF l(1)])
    fix us a b zs assume e: "h # xs = us @ a # b # zs" and ab: "linked s a b"
    note i = inner_pair [OF e d(1)]
    have "b \<noteq> ?n" "a \<noteq> new" "b \<noteq> new"
      using i(3,4) in_set_butlastD [OF i(3)] mem(2) d(4) assms(2) by auto
    then show "linked s' a b"
      using keep ab i(1) by blast
  qed
  moreover have "successively (linked s') (ys @ [h])"
  proof (rule successively_transfer [OF l(2)])
    fix us a b zs assume e: "ys @ [h] = us @ a # b # zs" and ab: "linked s a b"
    note i = inner_pair [OF e d(2)]
    have "b \<in> set (ys @ [h])"
      unfolding e by simp
    then have "a \<noteq> ?p" "a \<noteq> new" "b \<noteq> new"
      using i(3) mem(1) d(3) assms(2) by auto
    then show "linked s' a b"
      using keep ab i(2) by blast
  qed
  moreover have "linked s' ?p new" "linked s' new ?n"
    using new by (simp_all only: linked_def sel fun_upd_apply if_True) simp_all
  ultimately have "successively (linked s') ((h # xs) @ ([new] @ (ys @ [h])))"
    unfolding successively_append_iff by simp
  then show ?thesis
    using is_list_distinct [OF assms(1)] assms(2) unfolding s'_def [symmetric] is_list_def by auto
qed

lemma do_list_delete_sel [simp]:
  "lnext (do_list_delete p n s) = (lnext s)(p := n)" "lprev (do_list_delete p n s) = (lprev s)(n := p)"
  by (simp_all add: do_list_delete_def Let_def)

lemma do_list_delete_at:
  assumes "is_list s h (xs @ x # ys)"
  shows "is_list (do_list_delete (lprev s x) (lnext s x) s) h (xs @ ys)"
proof -
  let ?p = "last (h # xs)" and ?n = "hd (ys @ [h])"
  define s' where "s' = do_list_delete ?p ?n s"
  have mem: "?p \<in> set (h # xs)" "?n \<in> set (ys @ [h])"
    using last_in_set [of "h # xs"] hd_in_set [of "ys @ [h]"] by blast+
  have d: "distinct (h # xs)" "distinct (ys @ [h])" "set ys \<inter> set (h # xs) = {}" "set xs \<inter> set (ys @ [h]) = {}"
    using is_list_distinct [OF assms] by auto
  have "successively (linked s) ((h # xs) @ ([x] @ (ys @ [h])))"
    using assms by (simp add: is_list_def)
  then have l: "successively (linked s) (h # xs)" "successively (linked s) (ys @ [h])"
    unfolding successively_append_iff by simp_all
  have keep: "linked s' a b" if "linked s a b" "a \<noteq> ?p" "b \<noteq> ?n" for a b
    using that by (simp add: linked_def s'_def)
  have "successively (linked s') (h # xs)"
  proof (rule successively_transfer [OF l(1)])
    fix us a b zs assume e: "h # xs = us @ a # b # zs" and ab: "linked s a b"
    note i = inner_pair [OF e d(1)]
    have "b \<noteq> ?n"
      using i(4) mem(2) d(4) by auto
    then show "linked s' a b"
      using keep ab i(1) by blast
  qed
  moreover have "successively (linked s') (ys @ [h])"
  proof (rule successively_transfer [OF l(2)])
    fix us a b zs assume e: "ys @ [h] = us @ a # b # zs" and ab: "linked s a b"
    note i = inner_pair [OF e d(2)]
    have "a \<noteq> ?p"
      using i(3) mem(1) d(3) by auto
    then show "linked s' a b"
      using keep ab i(2) by blast
  qed
  moreover have "linked s' ?p ?n"
    by (simp add: linked_def s'_def)
  ultimately have "successively (linked s') ((h # xs) @ (ys @ [h]))"
    unfolding successively_append_iff by simp
  then show ?thesis
    using is_list_distinct [OF assms] is_list_split(1,2) [OF assms] unfolding is_list_def s'_def by simp
qed

text \<open>The neighbours of an item of one list are not in another.\<close>

lemma do_list_delete_frame:
  assumes "is_list s h (xs @ x # ys)" "is_list s h' zs" "set (h # xs @ x # ys) \<inter> set (h' # zs) = {}"
  shows "is_list (do_list_delete (lprev s x) (lnext s x) s) h' zs"
proof -
  have "lprev s x \<in> set (h # xs)" "lnext s x \<in> set (ys @ [h])"
    unfolding is_list_split(1,2) [OF assms(1)] using last_in_set [of "h # xs"] hd_in_set [of "ys @ [h]"] by blast+
  then have "lprev s x \<notin> set (h' # zs)" "lnext s x \<notin> set (h' # zs)"
    using assms(3) by auto
  then show ?thesis
    using assms(2) by (subst is_list_cong) auto
qed

lemma do_list_append_frame:
  assumes "is_list s h' zs" "new \<notin> set (h' # zs)" "p \<notin> set (h' # zs)" "n \<notin> set (h' # zs)"
  shows "is_list (do_list_append new p n s) h' zs"
  using assms by (subst is_list_cong) (auto simp: do_list_append_def Let_def)

subsection \<open>The interface of a queue\<close>

text \<open>
  What the process queues rely on: every operation's effect on the list it works on, and that
  it leaves the other lists of the store alone.
\<close>

locale queues =
  fixes rep :: "'s \<Rightarrow> 'a \<Rightarrow> 'a list \<Rightarrow> bool"
    and push_back :: "'a \<Rightarrow> 'a \<Rightarrow> 's \<Rightarrow> 's"
    and push_front :: "'a \<Rightarrow> 'a \<Rightarrow> 's \<Rightarrow> 's"
    and unlink :: "'a \<Rightarrow> 's \<Rightarrow> 's"
    and succ :: "'s \<Rightarrow> 'a \<Rightarrow> 'a"
  assumes rep_distinct: "rep s h xs \<Longrightarrow> distinct (h # xs)"
    and rep_succ: "rep s h (xs @ x # ys) \<Longrightarrow> succ s x = hd (ys @ [h])"
    and rep_first: "rep s h xs \<Longrightarrow> succ s h = hd (xs @ [h])"
    and push_back: "rep s h xs \<Longrightarrow> x \<notin> set (h # xs) \<Longrightarrow> rep (push_back x h s) h (xs @ [x])"
    and push_front: "rep s h xs \<Longrightarrow> x \<notin> set (h # xs) \<Longrightarrow> rep (push_front x h s) h (x # xs)"
    and unlink: "rep s h (xs @ x # ys) \<Longrightarrow> rep (unlink x s) h (xs @ ys)"
    and push_back_frame: "rep s h xs \<Longrightarrow> x \<notin> set (h # xs) \<Longrightarrow> rep s h' zs \<Longrightarrow> x \<notin> set (h' # zs) \<Longrightarrow>
        set (h # xs) \<inter> set (h' # zs) = {} \<Longrightarrow> rep (push_back x h s) h' zs"
    and push_front_frame: "rep s h xs \<Longrightarrow> x \<notin> set (h # xs) \<Longrightarrow> rep s h' zs \<Longrightarrow> x \<notin> set (h' # zs) \<Longrightarrow>
        set (h # xs) \<inter> set (h' # zs) = {} \<Longrightarrow> rep (push_front x h s) h' zs"
    and unlink_frame: "rep s h (xs @ x # ys) \<Longrightarrow> rep s h' zs \<Longrightarrow>
        set (h # xs @ x # ys) \<inter> set (h' # zs) = {} \<Longrightarrow> rep (unlink x s) h' zs"
begin

lemma move_back:
  assumes "rep s h (xs @ x # ys)" "rep s h' zs" "set (h # xs @ x # ys) \<inter> set (h' # zs) = {}"
  shows "rep (push_back x h' (unlink x s)) h (xs @ ys)" "rep (push_back x h' (unlink x s)) h' (zs @ [x])"
proof -
  have u: "rep (unlink x s) h (xs @ ys)" "rep (unlink x s) h' zs"
    using unlink unlink_frame assms by blast+
  have x: "x \<notin> set (h' # zs)" "x \<notin> set (h # xs @ ys)"
    using assms(3) rep_distinct [OF assms(1)] by auto
  show "rep (push_back x h' (unlink x s)) h' (zs @ [x])"
    by (rule push_back [OF u(2) x(1)])
  show "rep (push_back x h' (unlink x s)) h (xs @ ys)"
    by (rule push_back_frame [OF u(2) x(1) u(1) x(2)]) (use assms(3) in auto)
qed

lemma move_front:
  assumes "rep s h (xs @ x # ys)" "rep s h' zs" "set (h # xs @ x # ys) \<inter> set (h' # zs) = {}"
  shows "rep (push_front x h' (unlink x s)) h (xs @ ys)" "rep (push_front x h' (unlink x s)) h' (x # zs)"
proof -
  have u: "rep (unlink x s) h (xs @ ys)" "rep (unlink x s) h' zs"
    using unlink unlink_frame assms by blast+
  have x: "x \<notin> set (h' # zs)" "x \<notin> set (h # xs @ ys)"
    using assms(3) rep_distinct [OF assms(1)] by auto
  show "rep (push_front x h' (unlink x s)) h' (x # zs)"
    by (rule push_front [OF u(2) x(1)])
  show "rep (push_front x h' (unlink x s)) h (xs @ ys)"
    by (rule push_front_frame [OF u(2) x(1) u(1) x(2)]) (use assms(3) in auto)
qed

end

interpretation klist: queues is_list list_insert list_append "\<lambda>x s. do_list_delete (lprev s x) (lnext s x) s" lnext
proof unfold_locales
  fix s :: "'a links" and h h' x :: 'a and xs ys zs
  show "is_list s h xs \<Longrightarrow> distinct (h # xs)"
    by (rule is_list_distinct)
  show "is_list s h (xs @ x # ys) \<Longrightarrow> lnext s x = hd (ys @ [h])"
    by (rule is_list_split)
  show "is_list s h xs \<Longrightarrow> lnext s h = hd (xs @ [h])"
    using is_list_head by fast
  show "is_list s h (xs @ x # ys) \<Longrightarrow> is_list (do_list_delete (lprev s x) (lnext s x) s) h (xs @ ys)"
    by (rule do_list_delete_at)
  show "is_list (do_list_delete (lprev s x) (lnext s x) s) h' zs"
    if "is_list s h (xs @ x # ys)" "is_list s h' zs" "set (h # xs @ x # ys) \<inter> set (h' # zs) = {}"
    by (rule do_list_delete_frame [OF that])
  assume l: "is_list s h xs" "x \<notin> set (h # xs)"
  note e = is_list_head [OF l(1)]
  show "is_list (list_insert x h s) h (xs @ [x])"
    using do_list_append_at [of s h xs "[]" x] l e by (simp add: list_insert_def)
  show "is_list (list_append x h s) h (x # xs)"
    using do_list_append_at [of s h "[]" xs x] l e by (simp add: list_append_def)
  have ends: "last (h # xs) \<in> set (h # xs)" "hd (xs @ [h]) \<in> set (h # xs)"
    using last_in_set [of "h # xs"] hd_in_set [of "xs @ [h]"] by auto
  assume f: "is_list s h' zs" "x \<notin> set (h' # zs)" "set (h # xs) \<inter> set (h' # zs) = {}"
  then have "last (h # xs) \<notin> set (h' # zs)" "hd (xs @ [h]) \<notin> set (h' # zs)" "h \<notin> set (h' # zs)"
    using ends by auto
  then show "is_list (list_insert x h s) h' zs" "is_list (list_append x h s) h' zs"
    unfolding list_insert_def list_append_def e [THEN conjunct1] e [THEN conjunct2]
    using f by (intro do_list_append_frame; simp)+
qed

lemma list_init_empty: "is_list (list_init h s) h []"
  by (simp add: is_list_def list_init_def linked_def Let_def)

lemma list_delete_spec:
  assumes "is_list s h (xs @ x # ys)"
  shows "is_list (list_delete inv x s) h (xs @ ys)"
proof -
  have "is_list (do_list_delete (lprev s x) (lnext s x) s) h (xs @ ys)"
    by (rule klist.unlink [OF assms])
  then show ?thesis
    using is_list_distinct [OF assms] by (subst is_list_cong) (auto simp: list_delete_def Let_def)
qed

lemma list_delete_frame:
  assumes "is_list s h (xs @ x # ys)" "is_list s h' zs" "set (h # xs @ x # ys) \<inter> set (h' # zs) = {}"
  shows "is_list (list_delete inv x s) h' zs"
proof -
  have "is_list (do_list_delete (lprev s x) (lnext s x) s) h' zs"
    by (rule klist.unlink_frame [OF assms])
  then show ?thesis
    using assms(3) by (subst is_list_cong) (auto simp: list_delete_def Let_def)
qed

end
