(* ===== verification/Process.thy ===== *)
theory Process
  imports Kmalloc CStdlib KList "HOL-Library.Monad_Syntax"
begin

text \<open>
  \<^verbatim>\<open>kernel/process.c\<close>, \<^verbatim>\<open>kernel/sched.c\<close> and \<^verbatim>\<open>cpu_proc_init\<close> of
  \<^verbatim>\<open>cpu/m68000/m68000.c\<close>.  The fields of a \<^verbatim>\<open>proc_t\<close> are a record stored under the
  address of the structure; its \<^verbatim>\<open>queue\<close> member is the item \<open>Proc p\<close> of the link store, the
  heads of the three queues are items of their own.  The memory the structure occupies is
  allocated from the kernel heap and the stacks are bytes of the memory.  \<open>None\<close> is an access
  through a null pointer or the queue head taken for a process.
\<close>

datatype qitem = Run_queue | Sleep_queue | Exited_queue | Proc u32 | Invalid_item

datatype proc_state = ps_unborn | ps_runnable | ps_sleeping | ps_exited

record regs =
  r_d :: "u32 list"
  r_a :: "u32 list"
  r_usp :: u32
  r_pc :: u32
  r_sr :: u16

record proc =
  p_regs :: regs
  p_id :: "16 word"
  p_state :: proc_state
  p_exit_code :: u32
  p_name :: string
  p_flags :: u32
  p_quanta :: u32
  p_uid :: u16
  p_gid :: u16
  p_img :: u32
  p_kstack :: u32
  p_ustack :: u32
  p_arg :: u32
  p_cwd :: u32
  p_default_perm :: u16
  p_parent :: u32

record exe_img =
  img_start :: u32
  img_entry :: u32

record kernel =
  k_mach :: machine
  k_procs :: "u32 \<Rightarrow> proc"
  k_images :: "u32 \<Rightarrow> exe_img"
  k_links :: "qitem links"
  g_current_proc :: u32
  g_next_pid :: "16 word"
  g_ncontext_switches :: u32

text \<open>A structure that \<^verbatim>\<open>kcalloc\<close> has just cleared.\<close>

definition zero_proc :: proc where
  "zero_proc = \<lparr>p_regs = \<lparr>r_d = replicate 8 0, r_a = replicate 8 0, r_usp = 0, r_pc = 0, r_sr = 0\<rparr>,
     p_id = 0, p_state = ps_unborn, p_exit_code = 0, p_name = '''', p_flags = 0, p_quanta = 0, p_uid = 0, p_gid = 0,
     p_img = 0, p_kstack = 0, p_ustack = 0, p_arg = 0, p_cwd = 0, p_default_perm = 0, p_parent = 0\<rparr>"

definition PROC_SIZE :: u32 where "PROC_SIZE = 92 + 74"
definition PROC_KSTACK_LEN :: u32 where "PROC_KSTACK_LEN = 2048"
definition PROC_TYPE_KERNEL :: u32 where "PROC_TYPE_KERNEL = 0x8000"
definition PROC_DEFAULT_FILE_PERM :: u16 where "PROC_DEFAULT_FILE_PERM = (0x0800 OR 0x0400) OR 0x0080 OR 0x0008"
definition MC68K_SR_SUPERVISOR :: u16 where "MC68K_SR_SUPERVISOR = 0x2000"
definition S32_MIN :: u32 where "S32_MIN = 0x80000000"

definition proc_of :: "qitem \<Rightarrow> u32 option" where
  "proc_of i = (case i of Proc p \<Rightarrow> Some p | _ \<Rightarrow> None)"

definition update_proc :: "u32 \<Rightarrow> (proc \<Rightarrow> proc) \<Rightarrow> kernel \<Rightarrow> kernel" where
  "update_proc p f s = s\<lparr>k_procs := (k_procs s)(p := f (k_procs s p))\<rparr>"

subsection \<open>The scheduler\<close>

text \<open>Stopping and starting the hardware timer has no effect on this state.\<close>

definition sched :: "kernel \<Rightarrow> kernel option" where
  "sched s =
     (let g_prev_proc = g_current_proc s
      in if g_prev_proc = 0 then None
         else let s = update_proc g_prev_proc (\<lambda>p. p\<lparr>p_quanta := p_quanta p + 1\<rparr>) s
         in do {
           next \<leftarrow> proc_of (if list_is_last (Proc g_prev_proc) Run_queue (k_links s)
                            then lnext (k_links s) Run_queue
                            else lnext (k_links s) (Proc g_prev_proc));
           let s = s\<lparr>g_current_proc := next\<rparr>;
           let s = (if p_state (k_procs s g_prev_proc) = ps_sleeping
                    then s\<lparr>k_links := list_move_insert (Proc g_prev_proc) Sleep_queue (k_links s)\<rparr> else s);
           Some (s\<lparr>g_ncontext_switches := g_ncontext_switches s + 1\<rparr>)
         })"

text \<open>
  \<^verbatim>\<open>cpu_switch_process\<close> and the timer interrupt \<^verbatim>\<open>cpu_preempt\<close> save the registers, call
  \<^verbatim>\<open>sched\<close> and restore the registers of the process it selected.
\<close>

definition proc_sleep :: "kernel \<Rightarrow> kernel option" where
  "proc_sleep s =
     (if g_current_proc s = 0 then None
      else sched (update_proc (g_current_proc s) (\<lambda>p. p\<lparr>p_state := ps_sleeping\<rparr>) s))"

partial_function (option) wake_loop :: "16 word \<Rightarrow> qitem \<Rightarrow> kernel \<Rightarrow> kernel option" where
  "wake_loop pid item s =
     (if item = Sleep_queue then Some s
      else case item of
        Proc p \<Rightarrow>
          if p_id (k_procs s p) = pid
          then let s = update_proc p (\<lambda>p. p\<lparr>p_state := ps_runnable\<rparr>) s
               in Some (s\<lparr>k_links := list_move_append (Proc p) Run_queue (k_links s)\<rparr>)
          else wake_loop pid (lnext (k_links s) (Proc p)) s
      | _ \<Rightarrow> None)"

definition proc_wake_by_id :: "16 word \<Rightarrow> kernel \<Rightarrow> kernel option" where
  "proc_wake_by_id pid s = wake_loop pid (lnext (k_links s) Sleep_queue) s"

text \<open>\<open>irq\<close> is the result of installing the timer interrupt handler.\<close>

definition sched_init :: "mem_ctxs \<Rightarrow> int \<Rightarrow> string \<Rightarrow> kernel \<Rightarrow> (int \<times> kernel) option" where
  "sched_init g irq init_proc_name s = do {
     (p, m) \<leftarrow> kcalloc g 1 PROC_SIZE (k_mach s);
     let s = s\<lparr>k_mach := m\<rparr>;
     if p = 0 then Some (- 12, s)
     else let s = s\<lparr>k_procs := (k_procs s)(p := zero_proc\<lparr>p_id := g_next_pid s, p_exit_code := S32_MIN, p_parent := 0,
               p_state := ps_runnable, p_uid := 0, p_gid := 0, p_ustack := 0, p_kstack := 0,
               p_flags := PROC_TYPE_KERNEL, p_name := init_proc_name\<rparr>),
             g_next_pid := g_next_pid s + 1\<rparr>
       in Some (irq, s\<lparr>k_links := list_insert (Proc p) Run_queue (k_links s), g_current_proc := p\<rparr>)
   }"

subsection \<open>Creating a process\<close>

definition cpu_proc_init :: "regs \<Rightarrow> u32 \<Rightarrow> u32 \<Rightarrow> u32 \<Rightarrow> u32 \<Rightarrow> u32 \<Rightarrow> mem \<Rightarrow> int \<times> regs \<times> mem" where
  "cpu_proc_init r entry_point arg ustack_top kstack_top flags m =
     (if entry_point AND 1 \<noteq> 0 \<or> kstack_top AND 1 \<noteq> 0 \<or> ustack_top AND 1 \<noteq> 0 then (- 22, r, m)
      else let (kstack_top, ustack_top, r, m) =
              (if flags AND PROC_TYPE_KERNEL \<noteq> 0
               then let sp = kstack_top - 4; m = store32 m sp arg; sp = sp - 4; m = store32 m sp 0
                    in (sp, ustack_top, r\<lparr>r_sr := MC68K_SR_SUPERVISOR\<rparr>, m)
               else let sp = ustack_top - 4; m = store32 m sp arg; sp = sp - 4; m = store32 m sp 0
                    in (kstack_top, sp, r\<lparr>r_sr := 0\<rparr>, m));
            r = r\<lparr>r_usp := ustack_top, r_pc := entry_point\<rparr>;
            f = kstack_top - 8;
            m = store16 m (f + 6) 0;
            m = store32 m (f + 2) (r_pc r);
            m = store16 m f (r_sr r)
      in (0, r\<lparr>r_a := (r_a r)[7 := f]\<rparr>, m))"

definition proc_create_ustack ::
    "mem_ctxs \<Rightarrow> u32 \<Rightarrow> u32 \<Rightarrow> u32 \<Rightarrow> machine \<Rightarrow> ((int + u32) \<times> machine) option" where
  "proc_create_ustack g p stack_len flags m =
     (if stack_len \<noteq> 0 then do {
        (u, m) \<leftarrow> umalloc g stack_len m;
        if u = 0 then do { m \<leftarrow> kfree g p m; Some (Inl (- 12), m) } else Some (Inr u, m)
      }
      else if flags AND PROC_TYPE_KERNEL = 0 then do { m \<leftarrow> kfree g p m; Some (Inl (- 22), m) }
      else Some (Inr 0, m))"

text \<open>\<open>dir\<close> is what a process without \<^verbatim>\<open>wd\<close> inherits.\<close>

definition proc_create_cwd :: "mem_ctxs \<Rightarrow> u32 \<Rightarrow> u32 \<Rightarrow> machine \<Rightarrow> (u32 \<times> machine) option" where
  "proc_create_cwd g wd dir m =
     (if wd = 0 then strdup (kmalloc g) dir m
      else do {
        (wd_canon, m) \<leftarrow> strdup (kmalloc g) wd m;
        if wd_canon \<noteq> 0 then do {
          (_, r) \<leftarrow> path_canonicalise wd_canon (ram m);
          (cwd, m) \<leftarrow> strdup (kmalloc g) wd_canon (m\<lparr>ram := r\<rparr>);
          m \<leftarrow> kfree g wd_canon m;
          Some (cwd, m)
        }
        else Some (0, m)
      })"

record proc_args =
  a_uid :: u16
  a_gid :: u16
  a_name :: string
  a_img :: u32
  a_entry :: u32
  a_arg :: u32
  a_stack_len :: u32
  a_flags :: u16
  a_wd :: u32
  a_parent :: u32

text \<open>The last part: registers, state and queue; \<open>p\<close>, the stacks and the directory are allocated.\<close>

definition proc_create_start ::
    "mem_ctxs \<Rightarrow> proc_args \<Rightarrow> u32 \<Rightarrow> u32 \<Rightarrow> u32 \<Rightarrow> u32 \<Rightarrow> kernel \<Rightarrow> (int \<times> 16 word \<times> kernel) option" where
  "proc_create_start g a p ustack kstack cwd s =
     (let pr = zero_proc\<lparr>p_ustack := ustack, p_kstack := kstack, p_cwd := cwd, p_exit_code := S32_MIN,
            p_default_perm := PROC_DEFAULT_FILE_PERM, p_parent := a_parent a, p_uid := a_uid a, p_gid := a_gid a,
            p_img := a_img a, p_arg := a_arg a, p_name := take 31 (a_name a)\<rparr>;
          s = s\<lparr>k_procs := (k_procs s)(p := pr), k_links := list_init (Proc p) (k_links s)\<rparr>
      in if a_entry a = 0 \<and> a_img a = 0 then None
      else let entry = (if a_entry a = 0 then img_entry (k_images s (a_img a)) else a_entry a)
      in case cpu_proc_init (p_regs pr) entry (a_arg a) (ustack + a_stack_len a) (kstack + PROC_KSTACK_LEN)
                (ucast (a_flags a)) (ram (k_mach s)) of
           (ret, r, m) \<Rightarrow>
             let s = s\<lparr>k_procs := (k_procs s)(p := pr\<lparr>p_regs := r\<rparr>), k_mach := (k_mach s)\<lparr>ram := m\<rparr>\<rparr>
             in if ret \<noteq> 0 then do {
                  m \<leftarrow> kfree g cwd (k_mach s);
                  m \<leftarrow> kfree g kstack m;
                  m \<leftarrow> ufree g ustack m;
                  m \<leftarrow> kfree g p m;
                  Some (ret, 0, s\<lparr>k_mach := m\<rparr>)
                }
                else let s = update_proc p (\<lambda>p. p\<lparr>p_state := ps_runnable\<rparr>) s;
                    s = s\<lparr>k_mach := preempt_disable (k_mach s)\<rparr>;
                    s = update_proc p (\<lambda>p. p\<lparr>p_id := g_next_pid s\<rparr>) s;
                    s = s\<lparr>g_next_pid := g_next_pid s + 1\<rparr>;
                    s = s\<lparr>k_links := list_insert (Proc p) Run_queue (k_links s)\<rparr>;
                    s = s\<lparr>k_mach := preempt_enable (k_mach s)\<rparr>
                  in Some (0, p_id (k_procs s p), s))"

definition proc_create :: "mem_ctxs \<Rightarrow> u32 \<Rightarrow> proc_args \<Rightarrow> kernel \<Rightarrow> (int \<times> 16 word \<times> kernel) option" where
  "proc_create g ROOT_DIR a s =
     (if a_wd a \<noteq> 0 \<and> ram (k_mach s) (a_wd a) \<noteq> 47 then Some (- 22, 0, s)
      else do {
        (p, m) \<leftarrow> kcalloc g 1 PROC_SIZE (k_mach s);
        if p = 0 then Some (- 12, 0, s\<lparr>k_mach := m\<rparr>)
        else do {
          (u, m) \<leftarrow> proc_create_ustack g p (a_stack_len a) (ucast (a_flags a)) m;
          case u of
            Inl ret \<Rightarrow> Some (ret, 0, s\<lparr>k_mach := m\<rparr>)
          | Inr ustack \<Rightarrow> do {
              (kstack, m) \<leftarrow> kmalloc g PROC_KSTACK_LEN m;
              if kstack = 0 then do {
                m \<leftarrow> ufree g ustack m;
                m \<leftarrow> kfree g p m;
                Some (- 12, 0, s\<lparr>k_mach := m\<rparr>)
              }
              else do {
                (cwd, m) \<leftarrow> proc_create_cwd g (a_wd a)
                              (if a_parent a = 0 then ROOT_DIR else p_cwd (k_procs s (a_parent a))) m;
                if cwd = 0 then do {
                  m \<leftarrow> ufree g ustack m;
                  m \<leftarrow> kfree g kstack m;
                  m \<leftarrow> kfree g p m;
                  Some (- 12, 0, s\<lparr>k_mach := m\<rparr>)
                }
                else proc_create_start g a p ustack kstack cwd (s\<lparr>k_mach := m\<rparr>)
              }
            }
        }
      })"

subsection \<open>Ending and querying processes\<close>

definition free_unless_null :: "mem_ctxs \<Rightarrow> u32 \<Rightarrow> machine \<Rightarrow> machine option" where
  "free_unless_null g p m = (if p \<noteq> 0 then kfree g p m else Some m)"

definition proc_destroy :: "mem_ctxs \<Rightarrow> u32 \<Rightarrow> kernel \<Rightarrow> kernel option" where
  "proc_destroy g exit_code s =
     (let g_exiting = g_current_proc s
      in if g_exiting = 0 then None
      else do {
        s \<leftarrow> sched (update_proc g_exiting (\<lambda>p. p\<lparr>p_exit_code := exit_code\<rparr>) s);
        let s = s\<lparr>k_links := list_delete Invalid_item (Proc g_exiting) (k_links s)\<rparr>;
        let pr = k_procs s g_exiting;
        m \<leftarrow> free_unless_null g (p_kstack pr) (k_mach s);
        m \<leftarrow> free_unless_null g (p_ustack pr) m;
        m \<leftarrow> (if p_img pr \<noteq> 0
             then do { m \<leftarrow> kfree g (img_start (k_images s (p_img pr))) m; kfree g (p_img pr) m }
             else Some m);
        m \<leftarrow> kfree g g_exiting m;
        Some (s\<lparr>k_mach := m\<rparr>)
      })"

definition proc_get_pid :: "kernel \<Rightarrow> 16 word" where
  "proc_get_pid s = (if g_current_proc s \<noteq> 0 then p_id (k_procs s (g_current_proc s)) else 0)"

definition proc_current :: "kernel \<Rightarrow> u32" where
  "proc_current s = g_current_proc s"

definition current_field :: "(proc \<Rightarrow> 'a) \<Rightarrow> kernel \<Rightarrow> 'a option" where
  "current_field f s = (if g_current_proc s = 0 then None else Some (f (k_procs s (g_current_proc s))))"

definition proc_current_uid :: "kernel \<Rightarrow> u16 option" where
  "proc_current_uid = current_field p_uid"

definition proc_current_gid :: "kernel \<Rightarrow> u16 option" where
  "proc_current_gid = current_field p_gid"

definition proc_current_default_perm :: "kernel \<Rightarrow> u16 option" where
  "proc_current_default_perm = current_field p_default_perm"

definition proc_getcwd :: "u32 \<Rightarrow> kernel \<Rightarrow> u32 option" where
  "proc_getcwd proc s = (if proc = 0 then current_field p_cwd s else Some (p_cwd (k_procs s proc)))"

definition proc_setcwd :: "mem_ctxs \<Rightarrow> u32 \<Rightarrow> u32 \<Rightarrow> u32 \<Rightarrow> kernel \<Rightarrow> (int \<times> kernel) option" where
  "proc_setcwd g ROOT_DIR proc dir s = do {
     (new_cwd, m) \<leftarrow> strdup (kmalloc g) (if dir = 0 then ROOT_DIR else dir) (k_mach s);
     let s = s\<lparr>k_mach := m\<rparr>;
     if new_cwd = 0 then Some (- 12, s)
     else let proc = (if proc = 0 then g_current_proc s else proc)
       in if proc = 0 then None
       else do {
         m \<leftarrow> kfree g (p_cwd (k_procs s proc)) (k_mach s);
         Some (0, update_proc proc (\<lambda>p. p\<lparr>p_cwd := new_cwd\<rparr>) (s\<lparr>k_mach := m\<rparr>))
       }
   }"

text \<open>The loop ends with the first of the clock's readings that is not before \<open>when\<close>.\<close>

fun proc_sleep_until :: "int \<Rightarrow> int list \<Rightarrow> kernel \<Rightarrow> kernel option" where
  "proc_sleep_until when [] s = None"
| "proc_sleep_until when (t # clock) s =
     (if t < when then do { s \<leftarrow> sched s; proc_sleep_until when clock s } else Some s)"

definition proc_sleep_for :: "int \<Rightarrow> int \<Rightarrow> int list \<Rightarrow> kernel \<Rightarrow> kernel option" where
  "proc_sleep_for now secs clock s = proc_sleep_until (signed_take_bit 31 (now + secs)) clock s"

subsection \<open>Semaphores\<close>

text \<open>
  \<^verbatim>\<open>kernel/semaphore.c\<close>.  The instruction \<^verbatim>\<open>tas\<close> sets bit 7 of the byte and tells whether
  the byte was zero.  A waiting loop takes the readings of the byte, one for each attempt.
\<close>

definition cpu_tas :: "u8 \<Rightarrow> bool \<times> u8" where
  "cpu_tas b = (b \<noteq> 0, b OR 0x80)"

definition sem_init :: u8 where "sem_init = 0"

definition sem_try_acquire :: "u8 \<Rightarrow> int \<times> u8" where
  "sem_try_acquire sem = (let (r, sem) = cpu_tas sem in (if r then - 11 else 0, sem))"

fun sem_acquire_busy :: "u8 list \<Rightarrow> u8 option" where
  "sem_acquire_busy [] = None"
| "sem_acquire_busy (sem # later) =
     (let (r, sem) = sem_try_acquire sem in if r = - 11 then sem_acquire_busy later else Some sem)"

fun sem_acquire :: "u8 list \<Rightarrow> kernel \<Rightarrow> (u8 \<times> kernel) option" where
  "sem_acquire [] s = None"
| "sem_acquire (sem # later) s =
     (let (r, sem) = sem_try_acquire sem
      in if r = - 11 then do { s \<leftarrow> sched s; sem_acquire later s } else Some (sem, s))"

definition sem_release :: "u8 \<Rightarrow> u8" where "sem_release sem = 0"

end
