(* ===== verification/Block.thy ===== *)
theory Block
  imports CMem Kmalloc Process
begin

text \<open>
  \<^verbatim>\<open>kernel/device/block.c\<close> and \<^verbatim>\<open>kernel/device/partition.c\<close>: the cache of 512-byte blocks and
  the devices that are a part of another device.  The functions of a driver are fields of the
  device, as in \<^verbatim>\<open>dev_t\<close>; they take the memory and a state of the hardware of any type
  \<open>'h\<close>.  They return their result, the count behind \<^verbatim>\<open>len\<close> and the new state, or
  \<open>None\<close> when they do not return.  The descriptors of the cache are a list, the cached data is
  memory.  A semaphore that is taken makes the caller wait for another process; this is \<open>None\<close>.
\<close>

section \<open>Devices\<close>

definition DEV_TYPE_BLOCK :: u32 where "DEV_TYPE_BLOCK = 1"

definition BLOCK_SIZE :: u32 where "BLOCK_SIZE = 512"

record 'h dev =
  dev_type :: u32
  dev_block_size :: u32
  dev_len :: u32
  dev_read :: "u32 \<Rightarrow> u32 \<Rightarrow> u32 \<Rightarrow> machine \<times> 'h \<Rightarrow> (int \<times> u32 \<times> machine \<times> 'h) option"
  dev_write :: "u32 \<Rightarrow> u32 \<Rightarrow> u32 \<Rightarrow> machine \<times> 'h \<Rightarrow> (int \<times> u32 \<times> machine \<times> 'h) option"

section \<open>block.c\<close>

definition BC_DIRTY :: u16 where "BC_DIRTY = 1"
definition BC_ZERO :: u16 where "BC_ZERO = 4"

record block_descriptor =
  bd_dev :: u32
  bd_block :: u32
  bd_flags :: u16
  bd_sem :: u8

record block_cache_stats =
  bs_reads :: u32
  bs_writes :: u32
  bs_evictions :: u32
  bs_hits :: u32
  bs_misses :: u32

record block_cache =
  bc_descriptors :: u32
  bc_slots :: "block_descriptor list"
  bc_cache :: u32
  bc_nblocks :: u32
  bc_stats :: block_cache_stats

record 'h blk =
  bc :: block_cache
  blk_mach :: machine
  blk_hw :: 'h

definition block_cache_init :: "mem_ctxs \<Rightarrow> u32 \<Rightarrow> 'h blk \<Rightarrow> (int \<times> 'h blk) option" where
  "block_cache_init g sz st = do {
     (p, s) \<leftarrow> umalloc g (sz * 12) (blk_mach st);
     let st = st\<lparr>bc := (bc st)\<lparr>bc_descriptors := p\<rparr>, blk_mach := s\<rparr>;
     if p = 0 then Some (- 12, st)
     else do {
       (q, s) \<leftarrow> umalloc g (sz * BLOCK_SIZE) s;
       let st = st\<lparr>bc := (bc st)\<lparr>bc_cache := q\<rparr>, blk_mach := s\<rparr>;
       if q = 0 then do { s \<leftarrow> ufree g p s; Some (- 12, st\<lparr>blk_mach := s\<rparr>) }
       else Some (0, st\<lparr>bc := (bc st)
         \<lparr>bc_slots := replicate (unat sz) \<lparr>bd_dev = 0, bd_block = 0, bd_flags = 0, bd_sem = sem_init\<rparr>,
          bc_stats := \<lparr>bs_reads = 0, bs_writes = 0, bs_evictions = 0, bs_hits = 0, bs_misses = 0\<rparr>,
          bc_nblocks := sz\<rparr>\<rparr>)
     }
   }"

definition block_cache_get_slot :: "block_cache \<Rightarrow> u32 \<Rightarrow> u32 \<Rightarrow> u32" where
  "block_cache_get_slot c dev block = ((dev XOR block) * 0xfffffffb) mod bc_nblocks c"

definition the_slot :: "nat \<Rightarrow> 'h blk \<Rightarrow> block_descriptor" where
  "the_slot i st = bc_slots (bc st) ! i"

definition update_slot :: "nat \<Rightarrow> (block_descriptor \<Rightarrow> block_descriptor) \<Rightarrow> 'h blk \<Rightarrow> 'h blk" where
  "update_slot i f st = st\<lparr>bc := (bc st)\<lparr>bc_slots := (bc_slots (bc st))[i := f (bc_slots (bc st) ! i)]\<rparr>\<rparr>"

definition update_bc_stats :: "(block_cache_stats \<Rightarrow> block_cache_stats) \<Rightarrow> 'h blk \<Rightarrow> 'h blk" where
  "update_bc_stats f st = st\<lparr>bc := (bc st)\<lparr>bc_stats := f (bc_stats (bc st))\<rparr>\<rparr>"

definition slot_data :: "u32 \<Rightarrow> 'h blk \<Rightarrow> u32" where
  "slot_data slot st = bc_cache (bc st) + slot * BLOCK_SIZE"

definition slot_acquire :: "nat \<Rightarrow> 'h blk \<Rightarrow> 'h blk option" where
  "slot_acquire i st =
     (let (r, sem) = sem_try_acquire (bd_sem (the_slot i st))
      in if r = - 11 then None else Some (update_slot i (\<lambda>d. d\<lparr>bd_sem := sem\<rparr>) st))"

definition slot_release :: "nat \<Rightarrow> 'h blk \<Rightarrow> 'h blk" where
  "slot_release i = update_slot i (\<lambda>d. d\<lparr>bd_sem := sem_release (bd_sem d)\<rparr>)"

definition call_read :: "'h dev \<Rightarrow> u32 \<Rightarrow> u32 \<Rightarrow> u32 \<Rightarrow> 'h blk \<Rightarrow> (int \<times> u32 \<times> 'h blk) option" where
  "call_read d block n buf st = do {
     (ret, n, s, h) \<leftarrow> dev_read d block n buf (blk_mach st, blk_hw st);
     Some (ret, n, st\<lparr>blk_mach := s, blk_hw := h\<rparr>)
   }"

definition call_write :: "'h dev \<Rightarrow> u32 \<Rightarrow> u32 \<Rightarrow> u32 \<Rightarrow> 'h blk \<Rightarrow> (int \<times> u32 \<times> 'h blk) option" where
  "call_write d block n buf st = do {
     (ret, n, s, h) \<leftarrow> dev_write d block n buf (blk_mach st, blk_hw st);
     Some (ret, n, st\<lparr>blk_mach := s, blk_hw := h\<rparr>)
   }"

text \<open>Evicting a dirty block: the result of the driver, or 1 when there is nothing to write.\<close>

definition slot_evict :: "(u32 \<Rightarrow> 'h dev) \<Rightarrow> u32 \<Rightarrow> 'h blk \<Rightarrow> (int \<times> u32 \<times> 'h blk) option" where
  "slot_evict D slot st =
     (let bd = the_slot (unat slot) st
      in if bd_flags bd AND BC_DIRTY \<noteq> 0
         then do {
           (ret, one, st) \<leftarrow> call_write (D (bd_dev bd)) (bd_block bd) 1
             (if bd_flags bd AND BC_ZERO \<noteq> 0 then 0 else slot_data slot st) st;
           Some (ret, one, if ret < 1 then st
             else update_slot (unat slot) (\<lambda>d. d\<lparr>bd_flags := 0\<rparr>)
               (update_bc_stats (\<lambda>c. c\<lparr>bs_evictions := bs_evictions c + 1\<rparr>) st))
         }
         else Some (1, 1, st))"

text \<open>The copy out of the cache that ends \<^verbatim>\<open>block_read\<close>.\<close>

definition slot_deliver :: "u32 \<Rightarrow> u32 \<Rightarrow> 'h blk \<Rightarrow> 'h blk" where
  "slot_deliver slot buf st =
     (let st = update_bc_stats (\<lambda>c. c\<lparr>bs_reads := bs_reads c + 1\<rparr>) st;
          m = ram (blk_mach st);
          m = (if bd_flags (the_slot (unat slot) st) AND BC_ZERO \<noteq> 0 then bzero buf BLOCK_SIZE m
               else snd (memcpy buf (slot_data slot st) BLOCK_SIZE m))
      in slot_release (unat slot) (st\<lparr>blk_mach := (blk_mach st)\<lparr>ram := m\<rparr>\<rparr>))"

definition block_read :: "(u32 \<Rightarrow> 'h dev) \<Rightarrow> u32 \<Rightarrow> u32 \<Rightarrow> u32 \<Rightarrow> 'h blk \<Rightarrow> (int \<times> 'h blk) option" where
  "block_read D dev block buf st =
     (if dev_type (D dev) \<noteq> DEV_TYPE_BLOCK then Some (- 22, st)
      else if bc_nblocks (bc st) = 0
      then do { (ret, one, st) \<leftarrow> call_read (D dev) 0 1 buf st; Some (ret, st) }
      else do {
        let slot = block_cache_get_slot (bc st) dev block;
        st \<leftarrow> slot_acquire (unat slot) st;
        let bd = the_slot (unat slot) st;
        if bd_dev bd \<noteq> dev \<or> bd_block bd \<noteq> block
        then do {
          (ret, one, st) \<leftarrow> slot_evict D slot st;
          if ret < 1 then Some (if ret = 0 then - 509 else ret, slot_release (unat slot) st)
          else do {
            (ret, one, st) \<leftarrow> call_read (D dev) block one (slot_data slot st) st;
            if ret < 0 then Some (if ret = 0 then - 508 else ret, slot_release (unat slot) st)
            else Some (0, slot_deliver slot buf
              (update_bc_stats (\<lambda>c. c\<lparr>bs_misses := bs_misses c + 1\<rparr>)
                (update_slot (unat slot) (\<lambda>d. d\<lparr>bd_dev := dev, bd_block := block\<rparr>) st)))
          }
        }
        else Some (0, slot_deliver slot buf (update_bc_stats (\<lambda>c. c\<lparr>bs_hits := bs_hits c + 1\<rparr>) st))
      })"

text \<open>The end of \<^verbatim>\<open>block_write\<close>: the block goes to the device and into the cache.\<close>

definition slot_store :: "(u32 \<Rightarrow> 'h dev) \<Rightarrow> u32 \<Rightarrow> u32 \<Rightarrow> u32 \<Rightarrow> u32 \<Rightarrow> u32 \<Rightarrow> 'h blk \<Rightarrow> (int \<times> 'h blk) option" where
  "slot_store D slot dev block one buf st = do {
     (ret, one, st) \<leftarrow> call_write (D dev) block one buf st;
     if ret < 1 then Some (if ret = 0 then - 509 else ret, slot_release (unat slot) st)
     else
       let m = ram (blk_mach st);
           m = (if buf \<noteq> 0 then snd (memcpy (slot_data slot st) buf BLOCK_SIZE m) else m);
           st = update_slot (unat slot)
             (\<lambda>d. d\<lparr>bd_dev := dev, bd_block := block, bd_flags := (if buf = 0 then BC_ZERO else 0)\<rparr>)
             (st\<lparr>blk_mach := (blk_mach st)\<lparr>ram := m\<rparr>\<rparr>)
       in Some (0, slot_release (unat slot) (update_bc_stats (\<lambda>c. c\<lparr>bs_writes := bs_writes c + 1\<rparr>) st))
   }"

definition block_write :: "(u32 \<Rightarrow> 'h dev) \<Rightarrow> u32 \<Rightarrow> u32 \<Rightarrow> u32 \<Rightarrow> 'h blk \<Rightarrow> (int \<times> 'h blk) option" where
  "block_write D dev block buf st =
     (if dev_type (D dev) \<noteq> DEV_TYPE_BLOCK then Some (- 22, st)
      else if bc_nblocks (bc st) = 0
      then do {
        (ret, one, st) \<leftarrow> call_write (D dev) 0 1 buf st;
        Some (if ret < 1 then (if ret = 0 then - 509 else ret) else 0, st)
      }
      else do {
        let slot = block_cache_get_slot (bc st) dev block;
        st \<leftarrow> slot_acquire (unat slot) st;
        let bd = the_slot (unat slot) st;
        if bd_dev bd \<noteq> dev \<or> bd_block bd \<noteq> block
        then do {
          (ret, one, st) \<leftarrow> slot_evict D slot st;
          if ret < 1 then Some (if ret < 1 then - 509 else ret, slot_release (unat slot) st)
          else slot_store D slot dev block one buf
            (update_bc_stats (\<lambda>c. c\<lparr>bs_misses := bs_misses c + 1\<rparr>) st)
        }
        else slot_store D slot dev block 1 buf
          (update_bc_stats (\<lambda>c. c\<lparr>bs_hits := bs_hits c + 1\<rparr>) st)
      })"

text \<open>The loops over several blocks; \<open>n\<close> is the number of blocks that remain.\<close>

fun read_blocks :: "(u32 \<Rightarrow> 'h dev) \<Rightarrow> u32 \<Rightarrow> nat \<Rightarrow> u32 \<Rightarrow> u32 \<Rightarrow> 'h blk \<Rightarrow> (int \<times> 'h blk) option" where
  "read_blocks D dev 0 block p st = Some (0, st)"
| "read_blocks D dev (Suc n) block p st = do {
     (ret, st) \<leftarrow> block_read D dev block p st;
     if ret \<noteq> 0 then Some (ret, st) else read_blocks D dev n (block + 1) (p + BLOCK_SIZE) st
   }"

definition block_read_multi :: "(u32 \<Rightarrow> 'h dev) \<Rightarrow> u32 \<Rightarrow> u32 \<Rightarrow> u32 \<Rightarrow> u32 \<Rightarrow> 'h blk \<Rightarrow> (int \<times> 'h blk) option" where
  "block_read_multi D dev block count buf st = do {
     (ret, st) \<leftarrow> read_blocks D dev (unat count) block buf st;
     Some (if ret \<noteq> 0 then ret else sint count, st)
   }"

fun write_blocks :: "(u32 \<Rightarrow> 'h dev) \<Rightarrow> u32 \<Rightarrow> nat \<Rightarrow> u32 \<Rightarrow> u32 \<Rightarrow> u32 \<Rightarrow> 'h blk \<Rightarrow> (int \<times> 'h blk) option" where
  "write_blocks D dev 0 block p inc st = Some (0, st)"
| "write_blocks D dev (Suc n) block p inc st = do {
     (ret, st) \<leftarrow> block_write D dev block p st;
     if ret \<noteq> 0 then Some (ret, st) else write_blocks D dev n (block + 1) (p + inc) inc st
   }"

definition block_write_multi :: "(u32 \<Rightarrow> 'h dev) \<Rightarrow> u32 \<Rightarrow> u32 \<Rightarrow> u32 \<Rightarrow> u32 \<Rightarrow> 'h blk \<Rightarrow> (int \<times> 'h blk) option" where
  "block_write_multi D dev block count buf st = do {
     (ret, st) \<leftarrow> (if buf \<noteq> 0 then write_blocks D dev (unat count) block buf BLOCK_SIZE st
                   else write_blocks D dev (unat count) block 0 0 st);
     Some (if ret \<noteq> 0 then ret else sint count, st)
   }"

text \<open>
  When a write fails, the function returns with the semaphore taken.  \<^verbatim>\<open>one\<close> is set
  once, before the loop, and the drivers may change it.
\<close>

fun sync_loop :: "(u32 \<Rightarrow> 'h dev) \<Rightarrow> nat \<Rightarrow> nat \<Rightarrow> u32 \<Rightarrow> 'h blk \<Rightarrow> (int \<times> 'h blk) option" where
  "sync_loop D 0 i one st = Some (0, st)"
| "sync_loop D (Suc n) i one st = do {
     st \<leftarrow> slot_acquire i st;
     let bd = the_slot i st;
     if bd_flags bd AND BC_DIRTY \<noteq> 0
     then do {
       (ret, one, st) \<leftarrow> call_write (D (bd_dev bd)) (bd_block bd) one (slot_data (word_of_nat i) st) st;
       if ret \<noteq> 0 then Some (ret, st)
       else sync_loop D n (Suc i) one
         (slot_release i (update_slot i (\<lambda>d. d\<lparr>bd_flags := bd_flags d AND NOT BC_DIRTY\<rparr>) st))
     }
     else sync_loop D n (Suc i) one (slot_release i st)
   }"

definition block_cache_sync :: "(u32 \<Rightarrow> 'h dev) \<Rightarrow> 'h blk \<Rightarrow> (int \<times> 'h blk) option" where
  "block_cache_sync D st = sync_loop D (unat (bc_nblocks (bc st))) 0 1 st"

section \<open>partition.c\<close>

record partition_data =
  pd_device :: u32
  pd_block_size :: u32
  pd_offset :: u32
  pd_type :: u8
  pd_status :: u8

definition partition_type_name :: "u8 \<Rightarrow> string" where
  "partition_type_name t =
     (if t = 0x01 \<or> t = 0x04 \<or> t = 0x05 \<or> t = 0x06 then ''MS-DOS''
      else if t = 0x42 \<or> t = 0x82 then ''Linux swap''
      else if t = 0x43 \<or> t = 0x83 then ''Linux''
      else ''unsupported'')"

definition partition_status_desc :: "u8 \<Rightarrow> string" where
  "partition_status_desc status =
     (if status = 0 then ''inactive'' else if status \<ge> 0x80 then ''active, bootable'' else ''invalid'')"

text \<open>
  \<open>plen\<close> is the length of the partition, \<open>D\<close> the devices.  The sum of the offset and the
  count has 32 bits and wraps.
\<close>

definition partition_read :: "(u32 \<Rightarrow> 'h dev) \<Rightarrow> partition_data \<Rightarrow> u32 \<Rightarrow> u32 \<Rightarrow> u32 \<Rightarrow> u32 \<Rightarrow> machine \<times> 'h \<Rightarrow>
    (int \<times> u32 \<times> machine \<times> 'h) option" where
  "partition_read D pd plen offset n buf s =
     (if offset + n > plen then Some (- 22, n, s)
      else dev_read (D (pd_device pd)) (pd_offset pd + offset) n buf s)"

definition partition_write :: "(u32 \<Rightarrow> 'h dev) \<Rightarrow> partition_data \<Rightarrow> u32 \<Rightarrow> u32 \<Rightarrow> u32 \<Rightarrow> u32 \<Rightarrow> machine \<times> 'h \<Rightarrow>
    (int \<times> u32 \<times> machine \<times> 'h) option" where
  "partition_write D pd plen offset n buf s =
     (if offset + n > plen then Some (- 22, n, s)
      else dev_write (D (pd_device pd)) (pd_offset pd + offset) n buf s)"

text \<open>
  What \<^verbatim>\<open>partition_init\<close> makes of an entry of the partition table: the fields of the entry are
  little-endian.  \<open>m\<close> and \<open>p\<close> are the memory and the address of the entry, \<open>bps\<close> is what the
  device answers to \<^verbatim>\<open>dc_get_block_size\<close>, if it succeeds.
\<close>

definition le16 :: "u16 \<Rightarrow> u16" where
  "le16 x = push_bit 8 x OR drop_bit 8 x"

definition le32 :: "u32 \<Rightarrow> u32" where
  "le32 x = push_bit 24 x OR push_bit 8 (x AND 0xff00) OR (drop_bit 8 (x AND 0xff0000)) OR drop_bit 24 x"

definition mbr_partition :: "u32 \<Rightarrow> u32 option \<Rightarrow> mem \<Rightarrow> u32 \<Rightarrow> (partition_data \<times> u32) option" where
  "mbr_partition dev bps m p =
     (if load32 m (p + 12) = 0 then None
      else case bps of
             None \<Rightarrow> None
           | Some bps \<Rightarrow> Some (\<lparr>pd_device = dev, pd_block_size = bps, pd_offset = le32 (load32 m (p + 8)),
               pd_type = m (p + 4), pd_status = m p\<rparr>, le32 (load32 m (p + 12))))"

definition MBR_SIGNATURE :: u16 where "MBR_SIGNATURE = 0xaa55"

text \<open>The partitions of one device, as pairs of their data and their length.\<close>

definition mbr_partitions :: "u32 \<Rightarrow> u32 option \<Rightarrow> mem \<Rightarrow> u32 \<Rightarrow> (partition_data \<times> u32) list" where
  "mbr_partitions dev bps m buf =
     (if le16 (load16 m (buf + 510)) \<noteq> MBR_SIGNATURE then []
      else List.map_filter (\<lambda>i. mbr_partition dev bps m (buf + 446 + 16 * i)) [0, 1, 2, 3])"

definition partition_dev :: "(u32 \<Rightarrow> 'h dev) \<Rightarrow> partition_data \<times> u32 \<Rightarrow> 'h dev" where
  "partition_dev D = (\<lambda>(pd, plen).
     \<lparr>dev_type = DEV_TYPE_BLOCK, dev_block_size = dev_block_size (D (pd_device pd)), dev_len = plen,
      dev_read = partition_read D pd plen, dev_write = partition_write D pd plen\<rparr>)"

end
