(* ===== verification/Block_Cache.thy ===== *)
theory Block_Cache
  imports Block
begin

text \<open>
  The block cache against the disks behind it: the law of a driver, the invariant of the cache,
  and what reading and writing through the cache does.
\<close>

section \<open>Disks\<close>

text \<open>The 512 bytes at an address.\<close>

definition block_at :: "mem \<Rightarrow> u32 \<Rightarrow> u8 list" where
  "block_at m a = map (\<lambda>i. m (adr (unat a + i))) [0..<512]"

lemma length_block_at [simp]: "length (block_at m a) = 512"
  by (simp add: block_at_def)

lemma block_at_agree:
  "agree m m' (unat a) (unat a + 512) \<Longrightarrow> block_at m' a = block_at m a"
  by (auto simp: block_at_def agree_def)

lemma block_at_modifies:
  "modifies m m' lo hi \<Longrightarrow> unat a + 512 \<le> lo \<or> hi \<le> unat a \<Longrightarrow> unat a + 512 \<le> 4294967296 \<Longrightarrow>
     block_at m' a = block_at m a"
  by (rule block_at_agree) (auto intro: modifies_agree)

text \<open>
  The law of a driver that \<^verbatim>\<open>block.c\<close> relies on.  \<open>V\<close> is the set of the blocks, \<open>sec h dev b\<close>
  what block \<open>b\<close> of a device holds in state \<open>h\<close> of the hardware.  A read of one block stores it
  at \<open>buf\<close>; a write returns the number of blocks and replaces the block, by zeros when the
  buffer is NULL.
\<close>

type_synonym 'h sectors = "'h \<Rightarrow> u32 \<Rightarrow> u32 \<Rightarrow> u8 list"

definition reads_disk :: "(u32 \<Rightarrow> 'h dev) \<Rightarrow> (u32 \<times> u32) set \<Rightarrow> 'h sectors \<Rightarrow> bool" where
  "reads_disk D V sec \<longleftrightarrow> (\<forall>(dev, b) \<in> V. dev \<noteq> 0 \<and> dev_type (D dev) = DEV_TYPE_BLOCK \<and>
     (\<forall>buf s h. unat buf + 512 \<le> 4294967296 \<longrightarrow>
        (\<exists>r n m' h'. dev_read (D dev) b 1 buf (s, h) = Some (r, n, s\<lparr>ram := m'\<rparr>, h') \<and> 0 \<le> r \<and>
           modifies (ram s) m' (unat buf) (unat buf + 512) \<and> block_at m' buf = sec h dev b \<and>
           (\<forall>(d, c) \<in> V. sec h' d c = sec h d c))))"

lemma reads_diskD:
  assumes "reads_disk D V sec" "(dev, b) \<in> V" "unat buf + 512 \<le> 4294967296"
  shows "\<exists>r n m' h'. dev_read (D dev) b 1 buf (s, h) = Some (r, n, s\<lparr>ram := m'\<rparr>, h') \<and> 0 \<le> r \<and>
    modifies (ram s) m' (unat buf) (unat buf + 512) \<and> block_at m' buf = sec h dev b \<and>
    (\<forall>(d, c) \<in> V. sec h' d c = sec h d c)"
proof -
  have "case (dev, b) of (dev, b) \<Rightarrow> dev \<noteq> 0 \<and> dev_type (D dev) = DEV_TYPE_BLOCK \<and>
     (\<forall>buf s h. unat buf + 512 \<le> 4294967296 \<longrightarrow>
        (\<exists>r n m' h'. dev_read (D dev) b 1 buf (s, h) = Some (r, n, s\<lparr>ram := m'\<rparr>, h') \<and> 0 \<le> r \<and>
           modifies (ram s) m' (unat buf) (unat buf + 512) \<and> block_at m' buf = sec h dev b \<and>
           (\<forall>(d, c) \<in> V. sec h' d c = sec h d c)))"
    by (rule bspec [OF assms(1) [unfolded reads_disk_def] assms(2)])
  then show ?thesis using assms(3) by blast
qed

definition block_value :: "mem \<Rightarrow> u32 \<Rightarrow> u8 list" where
  "block_value m buf = (if buf = 0 then replicate 512 0 else block_at m buf)"

definition writes_disk :: "(u32 \<Rightarrow> 'h dev) \<Rightarrow> (u32 \<times> u32) set \<Rightarrow> 'h sectors \<Rightarrow> bool" where
  "writes_disk D V sec \<longleftrightarrow> (\<forall>(dev, b) \<in> V. dev \<noteq> 0 \<and> dev_type (D dev) = DEV_TYPE_BLOCK \<and>
     (\<forall>buf s h. \<exists>n h'. dev_write (D dev) b 1 buf (s, h) = Some (1, n, s, h') \<and>
        (\<forall>(d, c) \<in> V. sec h' d c = (if (d, c) = (dev, b) then block_value (ram s) buf else sec h d c))))"

section \<open>The invariant of the cache\<close>

definition cache_lo :: "'h blk \<Rightarrow> nat" where
  "cache_lo st = unat (bc_cache (bc st))"

definition cache_hi :: "'h blk \<Rightarrow> nat" where
  "cache_hi st = cache_lo st + 512 * unat (bc_nblocks (bc st))"

definition holds_block :: "'h blk \<Rightarrow> nat \<Rightarrow> u32 \<Rightarrow> u32 \<Rightarrow> bool" where
  "holds_block st i dev b \<longleftrightarrow> bd_dev (the_slot i st) = dev \<and> bd_block (the_slot i st) = b"

definition slot_value :: "'h blk \<Rightarrow> nat \<Rightarrow> u8 list" where
  "slot_value st i = (if bd_flags (the_slot i st) = BC_ZERO then replicate 512 0
     else block_at (ram (blk_mach st)) (adr (cache_lo st + 512 * i)))"

definition slot_ok :: "(u32 \<times> u32) set \<Rightarrow> 'h sectors \<Rightarrow> 'h blk \<Rightarrow> nat \<Rightarrow> bool" where
  "slot_ok V sec st i \<longleftrightarrow>
     bd_sem (the_slot i st) = 0 \<and> bd_flags (the_slot i st) \<in> {0, BC_ZERO} \<and>
     ((bd_dev (the_slot i st), bd_block (the_slot i st)) \<in> V \<longrightarrow>
        unat (block_cache_get_slot (bc st) (bd_dev (the_slot i st)) (bd_block (the_slot i st))) = i \<and>
        slot_value st i = sec (blk_hw st) (bd_dev (the_slot i st)) (bd_block (the_slot i st)))"

definition coherent :: "(u32 \<times> u32) set \<Rightarrow> 'h sectors \<Rightarrow> 'h blk \<Rightarrow> bool" where
  "coherent V sec st \<longleftrightarrow> bc_nblocks (bc st) \<noteq> 0 \<and> length (bc_slots (bc st)) = unat (bc_nblocks (bc st)) \<and>
     cache_hi st \<le> 4294967296 \<and> (\<forall>i < unat (bc_nblocks (bc st)). slot_ok V sec st i)"

text \<open>A buffer of the caller is a block outside the cache.\<close>

definition outside_cache :: "'h blk \<Rightarrow> u32 \<Rightarrow> bool" where
  "outside_cache st buf \<longleftrightarrow> unat buf + 512 \<le> 4294967296 \<and>
     (unat buf + 512 \<le> cache_lo st \<or> cache_hi st \<le> unat buf)"

lemma get_slot_less: "bc_nblocks c \<noteq> 0 \<Longrightarrow> unat (block_cache_get_slot c dev b) < unat (bc_nblocks c)"
  unfolding block_cache_get_slot_def by (simp add: unat_mod unat_gt_0)

lemma slot_data_adr:
  "slot_data slot st = adr (cache_lo st + 512 * unat slot)"
  by (simp add: slot_data_def cache_lo_def BLOCK_SIZE_def of_nat_add of_nat_mult mult.commute del: adr_fold)

lemma slot_inside:
  assumes "coherent V sec st" "i < unat (bc_nblocks (bc st))"
  shows "cache_lo st \<le> cache_lo st + 512 * i" "cache_lo st + 512 * i + 512 \<le> cache_hi st"
    "cache_hi st \<le> 4294967296" "unat (adr (cache_lo st + 512 * i)) = cache_lo st + 512 * i"
proof -
  show hi: "cache_hi st \<le> 4294967296" using assms(1) by (simp add: coherent_def)
  show lt: "cache_lo st + 512 * i + 512 \<le> cache_hi st"
    using assms(2) unfolding cache_hi_def by simp
  show "unat (adr (cache_lo st + 512 * i)) = cache_lo st + 512 * i"
    by (rule unat_adr) (use hi lt in linarith)
qed simp

subsection \<open>Fields of the state\<close>

lemma the_slot_update [simp]:
  "i < length (bc_slots (bc st)) \<Longrightarrow> the_slot i (update_slot i f st) = f (the_slot i st)"
  "i \<noteq> j \<Longrightarrow> the_slot j (update_slot i f st) = the_slot j st"
  by (simp_all add: the_slot_def update_slot_def)

lemma update_slot_sel [simp]:
  "blk_mach (update_slot i f st) = blk_mach st" "blk_hw (update_slot i f st) = blk_hw st"
  "bc_nblocks (bc (update_slot i f st)) = bc_nblocks (bc st)"
  "bc_cache (bc (update_slot i f st)) = bc_cache (bc st)"
  "length (bc_slots (bc (update_slot i f st))) = length (bc_slots (bc st))"
  by (simp_all add: update_slot_def)

lemma update_stats_sel [simp]:
  "blk_mach (update_bc_stats f st) = blk_mach st" "blk_hw (update_bc_stats f st) = blk_hw st"
  "bc_nblocks (bc (update_bc_stats f st)) = bc_nblocks (bc st)"
  "bc_cache (bc (update_bc_stats f st)) = bc_cache (bc st)"
  "bc_slots (bc (update_bc_stats f st)) = bc_slots (bc st)"
  "the_slot i (update_bc_stats f st) = the_slot i st"
  by (simp_all add: update_bc_stats_def the_slot_def)

lemma the_slot_sel [simp]:
  "the_slot i (st\<lparr>blk_mach := s\<rparr>) = the_slot i st" "the_slot i (st\<lparr>blk_hw := h\<rparr>) = the_slot i st"
  by (simp_all add: the_slot_def)

lemma cache_lo_cong: "bc_cache (bc st') = bc_cache (bc st) \<Longrightarrow> cache_lo st' = cache_lo st"
  by (simp add: cache_lo_def)

lemma get_slot_cong:
  "bc_nblocks c' = bc_nblocks c \<Longrightarrow> block_cache_get_slot c' dev b = block_cache_get_slot c dev b"
  by (simp add: block_cache_get_slot_def)

lemma slot_acquire_free:
  "bd_sem (the_slot i st) = 0 \<Longrightarrow> slot_acquire i st = Some (update_slot i (\<lambda>d. d\<lparr>bd_sem := 0x80\<rparr>) st)"
  by (simp add: slot_acquire_def sem_try_acquire_def cpu_tas_def)

lemma slot_evict_clean:
  "bd_flags (the_slot (unat slot) st) \<in> {0, BC_ZERO} \<Longrightarrow> slot_evict D slot st = Some (1, 1, st)"
  by (auto simp: slot_evict_def BC_ZERO_def BC_DIRTY_def)

text \<open>What an operation keeps besides the descriptors, the memory and the hardware.\<close>

definition same_cache :: "'h blk \<Rightarrow> 'h blk \<Rightarrow> bool" where
  "same_cache st st' \<longleftrightarrow> bc_cache (bc st') = bc_cache (bc st) \<and> bc_nblocks (bc st') = bc_nblocks (bc st) \<and>
     length (bc_slots (bc st')) = length (bc_slots (bc st))"

text \<open>
  The step every operation makes: slot \<open>i\<close> gets a new descriptor and new data, the other slots
  keep theirs, and the hardware changes at most in the block of the slot.
\<close>

lemma coherent_step:
  assumes coh: "coherent V sec st" and same: "same_cache st st'" and i: "i < unat (bc_nblocks (bc st))"
    and ok: "slot_ok V sec st' i"
    and others: "\<And>j. j \<noteq> i \<Longrightarrow> the_slot j st' = the_slot j st"
    and mem: "\<And>j. j < unat (bc_nblocks (bc st)) \<Longrightarrow> j \<noteq> i \<Longrightarrow>
      block_at (ram (blk_mach st')) (adr (cache_lo st + 512 * j)) = block_at (ram (blk_mach st)) (adr (cache_lo st + 512 * j))"
    and hw: "\<And>d b. (d, b) \<in> V \<Longrightarrow> unat (block_cache_get_slot (bc st) d b) \<noteq> i \<Longrightarrow>
      sec (blk_hw st') d b = sec (blk_hw st) d b"
  shows "coherent V sec st'"
proof -
  have lo: "cache_lo st' = cache_lo st" and hi: "cache_hi st' = cache_hi st"
    using same by (simp_all add: same_cache_def cache_lo_def cache_hi_def)
  have gs: "block_cache_get_slot (bc st') d b = block_cache_get_slot (bc st) d b" for d b
    using same by (simp add: same_cache_def block_cache_get_slot_def)
  have "slot_ok V sec st' j" if j: "j < unat (bc_nblocks (bc st))" for j
  proof (cases "j = i")
    case True
    then show ?thesis using ok by simp
  next
    case False
    have old: "slot_ok V sec st j" using coh j by (simp add: coherent_def)
    have v: "slot_value st' j = slot_value st j"
      using others [OF False] mem [OF j False] lo by (simp add: slot_value_def)
    show ?thesis
      using old hw [of "bd_dev (the_slot j st)" "bd_block (the_slot j st)"] False
      unfolding slot_ok_def others [OF False] v gs by auto
  qed
  then show ?thesis
    using coh same hi by (simp add: coherent_def same_cache_def)
qed

section \<open>A sample disk\<close>

text \<open>A disk that holds its sectors in a function, behind a cache with one slot at 0x2000.\<close>

type_synonym sample = "u32 \<Rightarrow> nat \<Rightarrow> u8"

definition sample_dev :: "sample dev" where
  "sample_dev = \<lparr>dev_type = DEV_TYPE_BLOCK, dev_block_size = 512, dev_len = 1000,
     dev_read = (\<lambda>b n buf (s, h). Some (1, n,
       s\<lparr>ram := \<lambda>x. if unat buf \<le> unat x \<and> unat x < unat buf + 512 then h b (unat x - unat buf) else ram s x\<rparr>, h)),
     dev_write = (\<lambda>b n buf (s, h). Some (1, n, s, h(b := (!) (block_value (ram s) buf))))\<rparr>"

definition sample_sec :: "sample sectors" where
  "sample_sec h d b = map (h b) [0..<512]"

definition sample_st :: "sample \<Rightarrow> sample blk" where
  "sample_st h = \<lparr>bc = \<lparr>bc_descriptors = 0x1000, bc_slots = [\<lparr>bd_dev = 0, bd_block = 0, bd_flags = 0, bd_sem = 0\<rparr>],
     bc_cache = 0x2000, bc_nblocks = 1,
     bc_stats = \<lparr>bs_reads = 0, bs_writes = 0, bs_evictions = 0, bs_hits = 0, bs_misses = 0\<rparr>\<rparr>,
     blk_mach = \<lparr>ram = \<lambda>_. 7, irq_enabled = True, preempt_count = 0\<rparr>, blk_hw = h\<rparr>"

abbreviation sample_V :: "(u32 \<times> u32) set" where "sample_V \<equiv> {1} \<times> UNIV"

lemma sample_reads: "reads_disk (\<lambda>_. sample_dev) sample_V sample_sec"
proof -
  have "modifies m (\<lambda>x. if lo \<le> unat x \<and> unat x < lo + 512 then g (unat x - lo) else m x) lo (lo + 512)"
    if "lo + 512 \<le> 4294967296" for m :: mem and lo g
    using that by (auto simp: modifies_def agree_def)
  then show ?thesis
    unfolding reads_disk_def
    by (auto simp: sample_dev_def sample_sec_def block_at_def intro!: exI)
qed

lemma sample_writes: "writes_disk (\<lambda>_. sample_dev) sample_V sample_sec"
proof -
  have "length (block_value m buf) = 512" for m buf by (simp add: block_value_def)
  then have "map ((!) (block_value m buf)) [0..<512] = block_value m buf" for m buf by (metis map_nth)
  then show ?thesis
    unfolding writes_disk_def by (auto simp: sample_dev_def sample_sec_def)
qed

lemma sample_coherent: "coherent sample_V sample_sec (sample_st h)"
  by (simp add: coherent_def slot_ok_def sample_st_def the_slot_def cache_hi_def cache_lo_def)

lemma sample_slot: "block_cache_get_slot (bc (sample_st h)) dev b = 0"
  by (simp add: block_cache_get_slot_def sample_st_def)

lemma sample_outside: "outside_cache (sample_st h) 0x3000"
  by (simp add: outside_cache_def cache_lo_def cache_hi_def sample_st_def)

section \<open>Reading\<close>

text \<open>The slot already describes the block and its data is right: the block is copied out.\<close>

definition only_range :: "mem \<Rightarrow> mem \<Rightarrow> 'h blk \<Rightarrow> u32 \<Rightarrow> bool" where
  "only_range m m' st buf \<longleftrightarrow> (\<forall>x < 4294967296. m' (adr x) \<noteq> m (adr x) \<longrightarrow>
     unat buf \<le> x \<and> x < unat buf + 512 \<or> cache_lo st \<le> x \<and> x < cache_hi st)"

lemma only_range_modifies:
  assumes "modifies m m' lo hi" "lo = unat buf \<and> hi = unat buf + 512 \<or> cache_lo st \<le> lo \<and> hi \<le> cache_hi st"
  shows "only_range m m' st buf"
  unfolding only_range_def
proof (intro allI impI)
  fix x :: nat
  assume "x < 4294967296" "m' (adr x) \<noteq> m (adr x)"
  then have "\<not> (x < lo \<or> hi \<le> x)" using modifies_at [OF assms(1)] by blast
  then show "unat buf \<le> x \<and> x < unat buf + 512 \<or> cache_lo st \<le> x \<and> x < cache_hi st"
    using assms(2) by auto
qed

lemma only_range_trans:
  "only_range m m' st buf \<Longrightarrow> only_range m' m'' st buf \<Longrightarrow> only_range m m'' st buf"
  unfolding only_range_def by metis

lemma block_copied:
  assumes "unat d + 512 \<le> 4294967296" "unat s + 512 \<le> 4294967296"
    "unat d + 512 \<le> unat s \<or> unat s + 512 \<le> unat d"
  shows "modifies m (snd (memcpy d s BLOCK_SIZE m)) (unat d) (unat d + 512) \<and>
    block_at (snd (memcpy d s BLOCK_SIZE m)) d = block_at m s"
proof -
  have "\<exists>m'. memcpy d s BLOCK_SIZE m = (d, m') \<and> copied m m' (unat d) (unat s) 512"
    using memcpy_copies [of d BLOCK_SIZE s m] assms lead_less [of s]
    by (auto simp: BLOCK_SIZE_def word_le_nat_alt)
  then show ?thesis by (auto simp: copied_def block_at_def)
qed

lemma block_zeroed:
  assumes "unat d + 512 \<le> 4294967296"
  shows "modifies m (bzero d BLOCK_SIZE m) (unat d) (unat d + 512) \<and>
    block_at (bzero d BLOCK_SIZE m) d = replicate 512 0"
  using bzero_fills [of d BLOCK_SIZE m] assms
  by (auto simp: filled_def block_at_def BLOCK_SIZE_def intro!: nth_equalityI)

lemma slot_deliver_spec:
  assumes i: "unat slot < unat (bc_nblocks (bc st))" "unat (bc_nblocks (bc st)) = length (bc_slots (bc st))"
    and hi: "cache_hi st \<le> 4294967296" and buf: "outside_cache st buf"
    and f: "bd_flags (the_slot (unat slot) st) \<in> {0, BC_ZERO}"
  shows "\<exists>m'. blk_mach (slot_deliver slot buf st) = (blk_mach st)\<lparr>ram := m'\<rparr> \<and>
    modifies (ram (blk_mach st)) m' (unat buf) (unat buf + 512) \<and>
    block_at m' buf = slot_value st (unat slot) \<and>
    blk_hw (slot_deliver slot buf st) = blk_hw st \<and> same_cache st (slot_deliver slot buf st) \<and>
    (\<forall>j. the_slot j (slot_deliver slot buf st) =
       (if j = unat slot then (the_slot j st)\<lparr>bd_sem := 0\<rparr> else the_slot j st))"
proof -
  let ?a = "cache_lo st + 512 * unat slot"
  have a: "?a + 512 \<le> cache_hi st" using i(1) unfolding cache_hi_def by simp
  then have ua: "unat (adr ?a) = ?a" by (intro unat_adr) (use hi in linarith)
  define m where "m = (if bd_flags (the_slot (unat slot) st) AND BC_ZERO \<noteq> 0 then bzero buf BLOCK_SIZE (ram (blk_mach st))
    else snd (memcpy buf (slot_data slot st) BLOCK_SIZE (ram (blk_mach st))))"
  have dis: "unat buf + 512 \<le> ?a \<or> ?a + 512 \<le> unat buf" "unat buf + 512 \<le> 4294967296"
    using buf a unfolding outside_cache_def by linarith+
  have m: "modifies (ram (blk_mach st)) m (unat buf) (unat buf + 512) \<and> block_at m buf = slot_value st (unat slot)"
  proof (cases "bd_flags (the_slot (unat slot) st) = BC_ZERO")
    case True
    then show ?thesis
      using block_zeroed [OF dis(2)] by (simp add: m_def slot_value_def BC_ZERO_def)
  next
    case False
    then have z: "bd_flags (the_slot (unat slot) st) = 0" using f by simp
    have "unat (adr ?a) + 512 \<le> 4294967296" "unat buf + 512 \<le> unat (adr ?a) \<or> unat (adr ?a) + 512 \<le> unat buf"
      using a hi dis unfolding ua by linarith+
    from block_copied [OF dis(2) this] show ?thesis
      using False z by (simp add: m_def slot_value_def slot_data_adr)
  qed
  have sd: "slot_data slot (update_bc_stats (\<lambda>c. c\<lparr>bs_reads := bs_reads c + 1\<rparr>) st) = slot_data slot st"
    by (simp add: slot_data_def)
  have "slot_deliver slot buf st = slot_release (unat slot) ((update_bc_stats (\<lambda>c. c\<lparr>bs_reads := bs_reads c + 1\<rparr>) st)
      \<lparr>blk_mach := (blk_mach st)\<lparr>ram := m\<rparr>\<rparr>)"
    by (simp add: slot_deliver_def Let_def m_def sd)
  then show ?thesis
    using m i by (intro exI [of _ m]) (auto simp: slot_release_def same_cache_def sem_release_def)
qed

lemma coherent_slot:
  assumes "coherent V sec st" "(dev, b) \<in> V" "holds_block st i dev b" "i < unat (bc_nblocks (bc st))"
  shows "slot_value st i = sec (blk_hw st) dev b"
  using assms by (auto simp: coherent_def slot_ok_def holds_block_def)

text \<open>The state before the copy: the slot describes the block and holds its data.\<close>

definition slot_ready :: "(u32 \<times> u32) set \<Rightarrow> 'h sectors \<Rightarrow> 'h blk \<Rightarrow> nat \<Rightarrow> u32 \<Rightarrow> u32 \<Rightarrow> 'h blk \<Rightarrow> bool" where
  "slot_ready V sec st i dev b st' \<longleftrightarrow> same_cache st st' \<and> holds_block st' i dev b \<and>
     bd_flags (the_slot i st') \<in> {0, BC_ZERO} \<and> slot_value st' i = sec (blk_hw st) dev b \<and>
     (\<forall>j. j \<noteq> i \<longrightarrow> the_slot j st' = the_slot j st) \<and>
     (\<exists>m. blk_mach st' = (blk_mach st)\<lparr>ram := m\<rparr> \<and>
        modifies (ram (blk_mach st)) m (cache_lo st + 512 * i) (cache_lo st + 512 * i + 512)) \<and>
     (\<forall>(d, c) \<in> V. sec (blk_hw st') d c = sec (blk_hw st) d c)"

lemma other_slot_kept:
  assumes "modifies m m' (lo + 512 * i) (lo + 512 * i + 512)" "j \<noteq> i" "lo + 512 * j + 512 \<le> 4294967296"
  shows "block_at m' (adr (lo + 512 * j)) = block_at m (adr (lo + 512 * j))"
proof -
  have u: "unat (adr (lo + 512 * j)) = lo + 512 * j" using assms(3) by (intro unat_adr) linarith
  have "lo + 512 * j + 512 \<le> lo + 512 * i \<or> lo + 512 * i + 512 \<le> lo + 512 * j"
    using assms(2) by (cases "i < j") auto
  then show ?thesis
    by (intro block_at_modifies [OF assms(1)]) (use assms(3) in \<open>simp_all only: u\<close>)
qed

lemma outside_slot_kept:
  assumes "modifies m m' (unat buf) (unat buf + 512)" "outside_cache st buf" "cache_hi st \<le> 4294967296"
    "j < unat (bc_nblocks (bc st))"
  shows "block_at m' (adr (cache_lo st + 512 * j)) = block_at m (adr (cache_lo st + 512 * j))"
proof -
  have h: "cache_lo st + 512 * j + 512 \<le> cache_hi st" using assms(4) unfolding cache_hi_def by simp
  then have u: "unat (adr (cache_lo st + 512 * j)) = cache_lo st + 512 * j"
    using assms(3) by (intro unat_adr) linarith
  have "cache_lo st + 512 * j + 512 \<le> unat buf \<or> unat buf + 512 \<le> cache_lo st + 512 * j"
    using assms(2) h unfolding outside_cache_def by linarith
  then show ?thesis
    by (intro block_at_modifies [OF assms(1)]) (use h assms(3) in \<open>simp_all only: u\<close>)
qed

lemma read_end:
  assumes coh: "coherent V sec st" and i: "unat slot < unat (bc_nblocks (bc st))"
    and gs: "unat (block_cache_get_slot (bc st) dev b) = unat slot"
    and V: "(dev, b) \<in> V" and buf: "outside_cache st buf" and rdy: "slot_ready V sec st (unat slot) dev b s2"
  defines "st' \<equiv> slot_deliver slot buf s2"
  shows "block_at (ram (blk_mach st')) buf = sec (blk_hw st) dev b \<and>
    only_range (ram (blk_mach st)) (ram (blk_mach st')) st buf \<and>
    same_cache st st' \<and> coherent V sec st' \<and> (\<forall>(d, c) \<in> V. sec (blk_hw st') d c = sec (blk_hw st) d c)"
proof -
  let ?i = "unat slot"
  have same: "same_cache st s2" and hb: "holds_block s2 ?i dev b"
    and fl: "bd_flags (the_slot ?i s2) \<in> {0, BC_ZERO}" and val: "slot_value s2 ?i = sec (blk_hw st) dev b"
    and oth: "\<And>j. j \<noteq> ?i \<Longrightarrow> the_slot j s2 = the_slot j st"
    and sec2: "\<And>d c. (d, c) \<in> V \<Longrightarrow> sec (blk_hw s2) d c = sec (blk_hw st) d c"
    using rdy by (auto simp: slot_ready_def)
  obtain m where m: "blk_mach s2 = (blk_mach st)\<lparr>ram := m\<rparr>"
      "modifies (ram (blk_mach st)) m (cache_lo st + 512 * ?i) (cache_lo st + 512 * ?i + 512)"
    using rdy by (auto simp: slot_ready_def)
  have hi: "cache_hi st \<le> 4294967296" and len: "length (bc_slots (bc st)) = unat (bc_nblocks (bc st))"
    using coh by (simp_all add: coherent_def)
  have c2: "cache_lo s2 = cache_lo st" "cache_hi s2 = cache_hi st" "bc_nblocks (bc s2) = bc_nblocks (bc st)"
    "length (bc_slots (bc s2)) = unat (bc_nblocks (bc st))"
    using same len by (simp_all add: same_cache_def cache_lo_def cache_hi_def)
  have buf2: "outside_cache s2 buf" using buf by (simp add: outside_cache_def c2)
  obtain m' where d: "blk_mach st' = (blk_mach s2)\<lparr>ram := m'\<rparr>"
      "modifies (ram (blk_mach s2)) m' (unat buf) (unat buf + 512)" "block_at m' buf = slot_value s2 ?i"
      "blk_hw st' = blk_hw s2" "same_cache s2 st'"
      "\<And>j. the_slot j st' = (if j = ?i then (the_slot j s2)\<lparr>bd_sem := 0\<rparr> else the_slot j s2)"
    using slot_deliver_spec [of slot s2 buf] i c2 hi buf2 fl unfolding st'_def by auto
  have same': "same_cache st st'" using same d(5) by (simp add: same_cache_def)
  have keep: "block_at m' (adr (cache_lo st + 512 * j)) = block_at m (adr (cache_lo st + 512 * j))"
    if "j < unat (bc_nblocks (bc st))" for j
    using outside_slot_kept [OF _ buf hi that, of m m'] d(2) m(1) by simp
  have val': "slot_value st' ?i = sec (blk_hw st) dev b"
    using val keep [OF i] d(1,6) m(1) c2(1) cache_lo_cong [of st' st] same'
    by (simp add: slot_value_def same_cache_def split: if_splits)
  have ok': "slot_ok V sec st' ?i"
    using fl hb val' sec2 [OF V] V gs d(4) get_slot_cong [of "bc st'" "bc st" dev b] same'
    by (auto simp: slot_ok_def d(6) holds_block_def same_cache_def)
  have coh': "coherent V sec st'"
  proof (rule coherent_step [OF coh same' i ok'])
    fix j assume "j \<noteq> ?i"
    then show "the_slot j st' = the_slot j st" by (simp add: d(6) oth)
  next
    fix j assume j: "j < unat (bc_nblocks (bc st))" "j \<noteq> ?i"
    have "cache_lo st + 512 * j + 512 \<le> 4294967296" using slot_inside [OF coh j(1)] by linarith
    from other_slot_kept [OF m(2) j(2) this] keep [OF j(1)]
    show "block_at (ram (blk_mach st')) (adr (cache_lo st + 512 * j)) =
        block_at (ram (blk_mach st)) (adr (cache_lo st + 512 * j))"
      by (simp add: d(1))
  next
    fix d' b' assume "(d', b') \<in> V"
    then show "sec (blk_hw st') d' b' = sec (blk_hw st) d' b'" by (simp add: d(4) sec2)
  qed
  have "only_range (ram (blk_mach st)) m st buf"
    by (rule only_range_modifies [OF m(2)]) (use slot_inside [OF coh i] in auto)
  moreover have "only_range m m' st buf"
    by (rule only_range_modifies) (use d(2) m(1) in auto)
  ultimately have "only_range (ram (blk_mach st)) m' st buf" by (rule only_range_trans)
  then show ?thesis using coh' same' d val sec2 by auto
qed

text \<open>The slot of a block while its semaphore is held.\<close>

definition held :: "'h blk \<Rightarrow> nat \<Rightarrow> 'h blk" where
  "held st i = update_slot i (\<lambda>d. d\<lparr>bd_sem := 0x80\<rparr>) st"

lemma held_slot:
  assumes "coherent V sec st" "i < unat (bc_nblocks (bc st))"
  shows "slot_acquire i st = Some (held st i)" "slot_ok V sec st i"
    "the_slot i (held st i) = (the_slot i st)\<lparr>bd_sem := 0x80\<rparr>" "\<And>j. j \<noteq> i \<Longrightarrow> the_slot j (held st i) = the_slot j st"
    "blk_mach (held st i) = blk_mach st" "blk_hw (held st i) = blk_hw st" "same_cache st (held st i)"
proof -
  show ok: "slot_ok V sec st i" using assms by (simp add: coherent_def)
  show "slot_acquire i st = Some (held st i)"
    using ok by (simp add: held_def slot_acquire_free slot_ok_def)
  show "the_slot i (held st i) = (the_slot i st)\<lparr>bd_sem := 0x80\<rparr>"
    using assms by (simp add: held_def coherent_def)
qed (simp_all add: held_def same_cache_def)

lemma block_read_hit:
  assumes coh: "coherent V sec st" and ty: "dev_type (D dev) = DEV_TYPE_BLOCK" and V: "(dev, b) \<in> V"
    and slot: "slot = block_cache_get_slot (bc st) dev b" and True: "holds_block st (unat slot) dev b"
  shows "\<exists>s2. block_read D dev b buf st = Some (0, slot_deliver slot buf s2) \<and> slot_ready V sec st (unat slot) dev b s2"
proof -
  define s1 where "s1 = held st (unat slot)"
  have i: "unat slot < unat (bc_nblocks (bc st))"
    unfolding slot by (rule get_slot_less) (use coh in \<open>simp add: coherent_def\<close>)
  note acq = held_slot(1) [OF coh i, folded s1_def] and ok = held_slot(2) [OF coh i]
    and s1 = held_slot(3-7) [OF coh i, folded s1_def]
  let ?s2 = "update_bc_stats (\<lambda>c. c\<lparr>bs_hits := bs_hits c + 1\<rparr>) s1"
  have v: "slot_value ?s2 (unat slot) = slot_value st (unat slot)"
    using s1 cache_lo_cong [of ?s2 st] by (simp add: slot_value_def same_cache_def)
  have "block_read D dev b buf st = Some (0, slot_deliver slot buf ?s2)"
    using True coh ty by (simp add: block_read_def Let_def acq s1(1) holds_block_def coherent_def slot [symmetric])
  moreover have "slot_ready V sec st (unat slot) dev b ?s2"
    unfolding slot_ready_def
  proof (intro conjI)
    show "same_cache st ?s2" using s1(5) by (simp add: same_cache_def)
    show "holds_block ?s2 (unat slot) dev b" using True by (simp add: holds_block_def s1(1))
    show "bd_flags (the_slot (unat slot) ?s2) \<in> {0, BC_ZERO}" using ok by (simp add: s1(1) slot_ok_def)
    show "slot_value ?s2 (unat slot) = sec (blk_hw st) dev b" using v coherent_slot [OF coh V True i] by simp
    show "\<forall>j. j \<noteq> unat slot \<longrightarrow> the_slot j ?s2 = the_slot j st" by (simp add: s1(2))
    show "\<exists>m. blk_mach ?s2 = (blk_mach st)\<lparr>ram := m\<rparr> \<and>
        modifies (ram (blk_mach st)) m (cache_lo st + 512 * unat slot) (cache_lo st + 512 * unat slot + 512)"
      by (intro exI [of _ "ram (blk_mach st)"]) (simp add: s1(3))
    show "\<forall>(d, c) \<in> V. sec (blk_hw ?s2) d c = sec (blk_hw st) d c" by (simp add: s1(4))
  qed
  ultimately show ?thesis by blast
qed

lemma block_read_miss:
  assumes coh: "coherent V sec st" and disk: "reads_disk D V sec" and V: "(dev, b) \<in> V"
    and slot: "slot = block_cache_get_slot (bc st) dev b" and False: "\<not> holds_block st (unat slot) dev b"
    and f: "bd_flags (the_slot (unat slot) st) \<in> {0, BC_ZERO}"
  shows "\<exists>s2. block_read D dev b buf st = Some (0, slot_deliver slot buf s2) \<and> 
    same_cache st s2 \<and> bd_flags (the_slot (unat slot) s2) = bd_flags (the_slot (unat slot) st) \<and>
    (bd_flags (the_slot (unat slot) st) = 0 \<longrightarrow> slot_ready V sec st (unat slot) dev b s2)"
proof -
  define s1 where "s1 = held st (unat slot)"
  have i: "unat slot < unat (bc_nblocks (bc st))"
    unfolding slot by (rule get_slot_less) (use coh in \<open>simp add: coherent_def\<close>)
  note acq = held_slot(1) [OF coh i, folded s1_def] and ok = held_slot(2) [OF coh i]
    and s1 = held_slot(3-7) [OF coh i, folded s1_def]
  have ty: "dev_type (D dev) = DEV_TYPE_BLOCK" using disk V by (auto simp: reads_disk_def)
  have f0: "bd_flags (the_slot (unat slot) s1) = bd_flags (the_slot (unat slot) st)" using s1(1) by simp
  have ev: "slot_evict D slot s1 = Some (1, 1, s1)"
    by (rule slot_evict_clean) (use f in \<open>simp add: f0\<close>)
  let ?a = "cache_lo st + 512 * unat slot"
  have ua: "unat (adr ?a) = ?a" "?a + 512 \<le> 4294967296"
    using slot_inside [OF coh i] by linarith+
  have sd: "slot_data slot s1 = adr ?a"
    using s1(5) cache_lo_cong [of s1 st] by (simp add: slot_data_adr same_cache_def)
  obtain r n m' h' where rd: "dev_read (D dev) b 1 (adr ?a) (blk_mach st, blk_hw st) =
      Some (r, n, (blk_mach st)\<lparr>ram := m'\<rparr>, h')" "0 \<le> r"
      "modifies (ram (blk_mach st)) m' ?a (?a + 512)" "block_at m' (adr ?a) = sec (blk_hw st) dev b"
      "\<forall>(d, c) \<in> V. sec h' d c = sec (blk_hw st) d c"
    using reads_diskD [OF disk V, of "adr ?a" "blk_mach st" "blk_hw st"] ua(2) unfolding ua(1) by blast
  let ?s2 = "update_bc_stats (\<lambda>c. c\<lparr>bs_misses := bs_misses c + 1\<rparr>) (update_slot (unat slot)
    (\<lambda>d. d\<lparr>bd_dev := dev, bd_block := b\<rparr>) (s1\<lparr>blk_mach := (blk_mach st)\<lparr>ram := m'\<rparr>, blk_hw := h'\<rparr>))"
  have "block_read D dev b buf st = Some (0, slot_deliver slot buf ?s2)"
    using False coh ty rd(2) f0 s1
    by (auto simp: block_read_def Let_def acq holds_block_def ev call_read_def sd rd(1) coherent_def slot [symmetric])
  moreover have l: "unat slot < length (bc_slots (bc s1))" using i coh s1(5) by (simp add: same_cache_def coherent_def)
  then have ts: "the_slot (unat slot) ?s2 = (the_slot (unat slot) s1)\<lparr>bd_dev := dev, bd_block := b\<rparr>"
    by simp
  have "same_cache st ?s2" using s1(5) by (simp add: same_cache_def)
  moreover have "bd_flags (the_slot (unat slot) ?s2) = bd_flags (the_slot (unat slot) st)"
    unfolding ts using f0 by simp
  moreover have "slot_ready V sec st (unat slot) dev b ?s2" if z: "bd_flags (the_slot (unat slot) st) = 0"
    unfolding slot_ready_def
  proof (intro conjI)
    have lo: "cache_lo ?s2 = cache_lo st" using s1(5) by (simp add: same_cache_def cache_lo_def)
    show "same_cache st ?s2" using s1(5) by (simp add: same_cache_def)
    show "holds_block ?s2 (unat slot) dev b" unfolding holds_block_def ts by simp
    show "bd_flags (the_slot (unat slot) ?s2) \<in> {0, BC_ZERO}" unfolding ts using f0 f by simp
    show "slot_value ?s2 (unat slot) = sec (blk_hw st) dev b"
      unfolding slot_value_def ts lo using f0 z rd(4) by (simp add: BC_ZERO_def)
    show "\<forall>j. j \<noteq> unat slot \<longrightarrow> the_slot j ?s2 = the_slot j st" using s1(2) by simp
    show "\<exists>m. blk_mach ?s2 = (blk_mach st)\<lparr>ram := m\<rparr> \<and>
        modifies (ram (blk_mach st)) m (cache_lo st + 512 * unat slot) (cache_lo st + 512 * unat slot + 512)"
      using rd(3) by (intro exI [of _ m']) simp
    show "\<forall>(d, c) \<in> V. sec (blk_hw ?s2) d c = sec (blk_hw st) d c" using rd(5) by simp
  qed
  ultimately show ?thesis by blast
qed

text \<open>Reading a block through the cache.\<close>

theorem block_read_correct:
  assumes coh: "coherent V sec st" and disk: "reads_disk D V sec" and V: "(dev, b) \<in> V"
    and buf: "outside_cache st buf"
    and nz: "bd_flags (the_slot (unat (block_cache_get_slot (bc st) dev b)) st) = 0 \<or>
      holds_block st (unat (block_cache_get_slot (bc st) dev b)) dev b"
  shows "\<exists>st'. block_read D dev b buf st = Some (0, st') \<and>
    block_at (ram (blk_mach st')) buf = sec (blk_hw st) dev b \<and>
    only_range (ram (blk_mach st)) (ram (blk_mach st')) st buf \<and>
    same_cache st st' \<and> coherent V sec st' \<and> (\<forall>(d, c) \<in> V. sec (blk_hw st') d c = sec (blk_hw st) d c)"
proof -
  let ?slot = "block_cache_get_slot (bc st) dev b"
  have i: "unat ?slot < unat (bc_nblocks (bc st))"
    by (rule get_slot_less) (use coh in \<open>simp add: coherent_def\<close>)
  have ty: "dev_type (D dev) = DEV_TYPE_BLOCK" using disk V by (auto simp: reads_disk_def)
  obtain s2 where s2: "block_read D dev b buf st = Some (0, slot_deliver ?slot buf s2)"
    "slot_ready V sec st (unat ?slot) dev b s2"
    using block_read_hit [where D = D, OF coh ty V refl] block_read_miss [OF coh disk V refl] nz by blast
  show ?thesis
    by (intro exI [of _ "slot_deliver ?slot buf s2"] conjI s2(1) read_end [OF coh i refl V buf s2(2)])
qed

theorem block_read_correct_witness:
  "\<exists>st'. block_read (\<lambda>_. sample_dev) 1 5 0x3000 (sample_st (\<lambda>b i. if i = 3 then 9 else 0)) = Some (0, st') \<and>
     ram (blk_mach st') 0x3003 = 9"
proof -
  let ?st = "sample_st (\<lambda>b i. if i = 3 then 9 else 0)"
  have V: "(1, 5) \<in> sample_V" by simp
  have "bd_flags (the_slot (unat (block_cache_get_slot (bc ?st) 1 5)) ?st) = 0 \<or>
      holds_block ?st (unat (block_cache_get_slot (bc ?st) 1 5)) 1 5"
    unfolding sample_slot by (simp add: sample_st_def the_slot_def)
  from block_read_correct [OF sample_coherent sample_reads V sample_outside this]
  obtain st' where st': "block_read (\<lambda>_. sample_dev) 1 5 0x3000 ?st = Some (0, st')"
    "block_at (ram (blk_mach st')) 0x3000 = sample_sec (blk_hw ?st) 1 5" by blast
  have "block_at (ram (blk_mach st')) 0x3000 ! 3 = ram (blk_mach st') 0x3003" by (simp add: block_at_def)
  then have "ram (blk_mach st') 0x3003 = 9" unfolding st'(2) by (simp add: sample_sec_def sample_st_def)
  with st'(1) show ?thesis by blast
qed

section \<open>Writing\<close>

lemma writes_diskD:
  assumes "writes_disk D V sec" "(dev, b) \<in> V"
  shows "dev_type (D dev) = DEV_TYPE_BLOCK"
    "\<exists>n h'. dev_write (D dev) b 1 buf (s, h) = Some (1, n, s, h') \<and>
       (\<forall>(d, c) \<in> V. sec h' d c = (if (d, c) = (dev, b) then block_value (ram s) buf else sec h d c))"
proof -
  have "case (dev, b) of (dev, b) \<Rightarrow> dev \<noteq> 0 \<and> dev_type (D dev) = DEV_TYPE_BLOCK \<and>
     (\<forall>buf s h. \<exists>n h'. dev_write (D dev) b 1 buf (s, h) = Some (1, n, s, h') \<and>
        (\<forall>(d, c) \<in> V. sec h' d c = (if (d, c) = (dev, b) then block_value (ram s) buf else sec h d c)))"
    by (rule bspec [OF assms(1) [unfolded writes_disk_def] assms(2)])
  then show "dev_type (D dev) = DEV_TYPE_BLOCK"
    "\<exists>n h'. dev_write (D dev) b 1 buf (s, h) = Some (1, n, s, h') \<and>
       (\<forall>(d, c) \<in> V. sec h' d c = (if (d, c) = (dev, b) then block_value (ram s) buf else sec h d c))"
    by blast+
qed

lemma write_end:
  assumes coh: "coherent V sec st" and disk: "writes_disk D V sec" and V: "(dev, b) \<in> V"
    and slot: "slot = block_cache_get_slot (bc st) dev b" and buf: "buf = 0 \<or> outside_cache st buf"
    and s1: "same_cache st s1" "blk_mach s1 = blk_mach st" "blk_hw s1 = blk_hw st"
      "\<And>j. j \<noteq> unat slot \<Longrightarrow> the_slot j s1 = the_slot j st"
  shows "\<exists>st'. slot_store D slot dev b 1 buf s1 = Some (0, st') \<and> coherent V sec st' \<and> same_cache st st' \<and>
    modifies (ram (blk_mach st)) (ram (blk_mach st')) (cache_lo st) (cache_hi st) \<and>
    (\<forall>(d, c) \<in> V. sec (blk_hw st') d c =
       (if (d, c) = (dev, b) then block_value (ram (blk_mach st)) buf else sec (blk_hw st) d c)) \<and>
    holds_block st' (unat slot) dev b \<and> bd_flags (the_slot (unat slot) st') = (if buf = 0 then BC_ZERO else 0)"
proof -
  let ?i = "unat slot" and ?m = "ram (blk_mach st)"
  let ?a = "cache_lo st + 512 * ?i"
  have i: "?i < unat (bc_nblocks (bc st))"
    unfolding slot by (rule get_slot_less) (use coh in \<open>simp add: coherent_def\<close>)
  have ins: "?a + 512 \<le> cache_hi st" "cache_hi st \<le> 4294967296" "unat (adr ?a) = ?a"
    using slot_inside [OF coh i] by simp_all
  obtain n h' where w: "dev_write (D dev) b 1 buf (blk_mach st, blk_hw st) = Some (1, n, blk_mach st, h')"
      "\<forall>(d, c) \<in> V. sec h' d c = (if (d, c) = (dev, b) then block_value ?m buf else sec (blk_hw st) d c)"
    using writes_diskD(2) [OF disk V, of buf "blk_mach st" "blk_hw st"] by blast
  have hw: "sec h' d c = (if (d, c) = (dev, b) then block_value ?m buf else sec (blk_hw st) d c)"
    if "(d, c) \<in> V" for d c
    using w(2) that by blast
  define m where "m = (if buf \<noteq> 0 then snd (memcpy (adr ?a) buf BLOCK_SIZE ?m) else ?m)"
  have lo1: "bc_cache (bc s1) = bc_cache (bc st)" using s1(1) by (simp add: same_cache_def)
  have m: "modifies ?m m ?a (?a + 512)" "buf \<noteq> 0 \<Longrightarrow> block_at m (adr ?a) = block_at ?m buf"
  proof -
    have "modifies ?m m ?a (?a + 512) \<and> block_at m (adr ?a) = block_at ?m buf" if "buf \<noteq> 0"
    proof -
      have "unat (adr ?a) + 512 \<le> 4294967296" "unat buf + 512 \<le> 4294967296"
        "unat (adr ?a) + 512 \<le> unat buf \<or> unat buf + 512 \<le> unat (adr ?a)"
        using buf that ins unfolding outside_cache_def ins(3) by auto
      from block_copied [OF this, of ?m] show ?thesis using that by (simp only: m_def ins(3)) simp
    qed
    then show "modifies ?m m ?a (?a + 512)" "buf \<noteq> 0 \<Longrightarrow> block_at m (adr ?a) = block_at ?m buf"
      by (cases "buf = 0"; simp add: m_def)+
  qed
  define s2 where "s2 = update_slot ?i
    (\<lambda>d. d\<lparr>bd_dev := dev, bd_block := b, bd_flags := (if buf = 0 then BC_ZERO else 0)\<rparr>)
    (s1\<lparr>blk_hw := h', blk_mach := (blk_mach st)\<lparr>ram := m\<rparr>\<rparr>)"
  define st' where "st' = slot_release ?i (update_bc_stats (\<lambda>c. c\<lparr>bs_writes := bs_writes c + 1\<rparr>) s2)"
  have run: "slot_store D slot dev b 1 buf s1 = Some (0, st')"
    by (simp add: slot_store_def call_write_def s1(2,3) w(1) Let_def st'_def s2_def m_def slot_data_adr lo1 cache_lo_def)
  have len: "?i < length (bc_slots (bc s1))" using i coh s1(1) by (simp add: same_cache_def coherent_def)
  have f: "the_slot ?i st' = (the_slot ?i s1)\<lparr>bd_dev := dev, bd_block := b, bd_flags := (if buf = 0 then BC_ZERO else 0), bd_sem := 0\<rparr>"
    "\<And>j. j \<noteq> ?i \<Longrightarrow> the_slot j st' = the_slot j st" "blk_mach st' = (blk_mach st)\<lparr>ram := m\<rparr>" "blk_hw st' = h'" "same_cache st st'"
    using len s1(1,4) by (simp_all add: st'_def s2_def slot_release_def sem_release_def same_cache_def)
  have val: "slot_value st' ?i = block_value ?m buf"
    using m(2) f(5) by (simp add: slot_value_def block_value_def f(1,3) same_cache_def cache_lo_def BC_ZERO_def)
  have ok: "slot_ok V sec st' ?i"
    using val hw [OF V] f(5) get_slot_cong [of "bc st'" "bc st" dev b]
    by (simp add: slot_ok_def f(1,4) slot [symmetric] same_cache_def)
  have "coherent V sec st'"
  proof (rule coherent_step [OF coh f(5) i ok f(2)])
    fix j assume j: "j < unat (bc_nblocks (bc st))" "j \<noteq> ?i"
    have "cache_lo st + 512 * j + 512 \<le> 4294967296" using slot_inside [OF coh j(1)] by linarith
    from other_slot_kept [OF m(1) j(2) this]
    show "block_at (ram (blk_mach st')) (adr (cache_lo st + 512 * j)) = block_at ?m (adr (cache_lo st + 512 * j))"
      by (simp add: f(3))
  next
    fix d c assume "(d, c) \<in> V" "unat (block_cache_get_slot (bc st) d c) \<noteq> ?i"
    then show "sec (blk_hw st') d c = sec (blk_hw st) d c" using hw [of d c] by (auto simp: f(4) slot)
  qed
  moreover have "modifies ?m m (cache_lo st) (cache_hi st)"
    by (rule modifies_mono [OF m(1)]) (use ins in linarith)+
  ultimately show ?thesis
    using run f(1,3-5) w(2) by (auto simp: holds_block_def)
qed

lemma block_write_run:
  assumes coh: "coherent V sec st" and disk: "writes_disk D V sec" and V: "(dev, b) \<in> V"
    and buf: "buf = 0 \<or> outside_cache st buf"
  shows "\<exists>st'. block_write D dev b buf st = Some (0, st') \<and> coherent V sec st' \<and> same_cache st st' \<and>
    modifies (ram (blk_mach st)) (ram (blk_mach st')) (cache_lo st) (cache_hi st) \<and>
    (\<forall>(d, c) \<in> V. sec (blk_hw st') d c =
       (if (d, c) = (dev, b) then block_value (ram (blk_mach st)) buf else sec (blk_hw st) d c)) \<and>
    holds_block st' (unat (block_cache_get_slot (bc st) dev b)) dev b \<and>
    bd_flags (the_slot (unat (block_cache_get_slot (bc st) dev b)) st') = (if buf = 0 then BC_ZERO else 0)"
proof -
  let ?slot = "block_cache_get_slot (bc st) dev b"
  define s1 where "s1 = held st (unat ?slot)"
  have n0: "bc_nblocks (bc st) \<noteq> 0" using coh by (simp add: coherent_def)
  have i: "unat ?slot < unat (bc_nblocks (bc st))" by (rule get_slot_less [OF n0])
  note acq = held_slot(1) [OF coh i, folded s1_def] and ok = held_slot(2) [OF coh i]
    and s1 = held_slot(3-7) [OF coh i, folded s1_def]
  have ty: "dev_type (D dev) = DEV_TYPE_BLOCK" by (rule writes_diskD(1) [OF disk V])
  have ev: "slot_evict D ?slot s1 = Some (1, 1, s1)"
    using ok by (intro slot_evict_clean) (simp add: s1(1) slot_ok_def)
  have "\<exists>f. block_write D dev b buf st = slot_store D ?slot dev b 1 buf (update_bc_stats f s1)"
    using n0 ty by (auto simp: block_write_def Let_def acq ev)
  then obtain f where "block_write D dev b buf st = slot_store D ?slot dev b 1 buf (update_bc_stats f s1)" by blast
  then show ?thesis
    using write_end [OF coh disk V refl buf, of "update_bc_stats f s1"] s1 by (simp add: same_cache_def)
qed

text \<open>Writing a block through the cache.\<close>

theorem block_write_correct:
  assumes "coherent V sec st" and "writes_disk D V sec" and "(dev, b) \<in> V"
    and "buf = 0 \<or> outside_cache st buf"
  shows "\<exists>st'. block_write D dev b buf st = Some (0, st') \<and> coherent V sec st' \<and> same_cache st st' \<and>
    modifies (ram (blk_mach st)) (ram (blk_mach st')) (cache_lo st) (cache_hi st) \<and>
    (\<forall>(d, c) \<in> V. sec (blk_hw st') d c =
       (if (d, c) = (dev, b) then block_value (ram (blk_mach st)) buf else sec (blk_hw st) d c))"
  using block_write_run [OF assms] by blast

theorem block_write_correct_witness:
  "\<exists>st'. block_write (\<lambda>_. sample_dev) 1 5 0x3000 (sample_st (\<lambda>b i. 0)) = Some (0, st') \<and>
     sample_sec (blk_hw st') 1 5 ! 3 = 7 \<and> sample_sec (blk_hw st') 1 6 ! 3 = 0"
proof -
  let ?st = "sample_st (\<lambda>b i. 0)"
  have V: "(1, b) \<in> sample_V" for b by simp
  from block_write_correct [OF sample_coherent [of "\<lambda>b i. 0"] sample_writes V [of 5] disjI2 [OF sample_outside]]
  obtain st' where st': "block_write (\<lambda>_. sample_dev) 1 5 0x3000 ?st = Some (0, st')"
    "\<forall>(d, c) \<in> sample_V. sample_sec (blk_hw st') d c =
       (if (d, c) = (1, 5) then block_value (ram (blk_mach ?st)) 0x3000 else sample_sec (blk_hw ?st) d c)" by blast
  have "sample_sec (blk_hw st') 1 5 ! 3 = 7"
    using bspec [OF st'(2) V [of 5]] by (simp add: block_value_def block_at_def sample_st_def)
  moreover have "sample_sec (blk_hw st') 1 6 ! 3 = 0"
    using bspec [OF st'(2) V [of 6]] by (simp add: sample_sec_def sample_st_def)
  ultimately show ?thesis using st'(1) by blast
qed

section \<open>The mark of a block of zeros\<close>

text \<open>
writing a block of zeros (a NULL buffer) marks the slot instead of filling it.  Reading
  another block into the slot does not remove the mark, so this block reads as zeros too,
  whatever the disk holds.
\<close>

theorem block_read_stale_zero:
  assumes "coherent V sec st" "reads_disk D V sec" "writes_disk D V sec" "(dev, a) \<in> V" "(dev, b) \<in> V" "a \<noteq> b"
    and "block_cache_get_slot (bc st) dev a = block_cache_get_slot (bc st) dev b" "outside_cache st buf"
  shows "\<exists>st1 st2. block_write D dev a 0 st = Some (0, st1) \<and> block_read D dev b buf st1 = Some (0, st2) \<and>
    block_at (ram (blk_mach st2)) buf = replicate 512 0 \<and> sec (blk_hw st1) dev b = sec (blk_hw st) dev b"
proof -
  let ?slot = "block_cache_get_slot (bc st) dev a"
  obtain st1 where w: "block_write D dev a 0 st = Some (0, st1)" "coherent V sec st1" "same_cache st st1"
    "\<forall>(d, c) \<in> V. sec (blk_hw st1) d c = (if (d, c) = (dev, a) then block_value (ram (blk_mach st)) 0 else sec (blk_hw st) d c)"
    "holds_block st1 (unat ?slot) dev a" "bd_flags (the_slot (unat ?slot) st1) = BC_ZERO"
    using block_write_run [where D = D, OF assms(1,3,4), of 0] by auto
  have eq: "?slot = block_cache_get_slot (bc st1) dev b"
    using assms(7) w(3) get_slot_cong [of "bc st1" "bc st"] by (simp add: same_cache_def)
  have i: "unat ?slot < unat (bc_nblocks (bc st1))"
    unfolding eq by (rule get_slot_less) (use w(2) in \<open>simp add: coherent_def\<close>)
  have nh: "\<not> holds_block st1 (unat ?slot) dev b" using w(5) assms(6) by (simp add: holds_block_def)
  obtain s2 where s2: "block_read D dev b buf st1 = Some (0, slot_deliver ?slot buf s2)" "same_cache st1 s2"
      "bd_flags (the_slot (unat ?slot) s2) = BC_ZERO"
    using block_read_miss [where D = D, OF w(2) assms(2,5) eq nh] w(6) by auto
  have c: "bc_nblocks (bc s2) = bc_nblocks (bc st1)" "length (bc_slots (bc s2)) = unat (bc_nblocks (bc st1))"
    "cache_hi s2 = cache_hi st1" "cache_hi st1 \<le> 4294967296" "outside_cache s2 buf"
    using s2(2) w(2,3) assms(8) by (simp_all add: same_cache_def coherent_def cache_hi_def cache_lo_def outside_cache_def)
  have "block_at (ram (blk_mach (slot_deliver ?slot buf s2))) buf = slot_value s2 (unat ?slot)"
    using slot_deliver_spec [of ?slot s2 buf] i c s2(3) by auto
  then have "block_at (ram (blk_mach (slot_deliver ?slot buf s2))) buf = replicate 512 0"
    by (simp add: slot_value_def s2(3))
  moreover have "sec (blk_hw st1) dev b = sec (blk_hw st) dev b"
    using bspec [OF w(4) assms(5)] assms(6) by simp
  ultimately show ?thesis using w(1) s2(1) by blast
qed

theorem block_read_stale_zero_witness:
  "\<exists>st1 st2. block_write (\<lambda>_. sample_dev) 1 5 0 (sample_st (\<lambda>b i. 9)) = Some (0, st1) \<and>
     block_read (\<lambda>_. sample_dev) 1 6 0x3000 st1 = Some (0, st2) \<and>
     block_at (ram (blk_mach st2)) 0x3000 = replicate 512 0 \<and>
     sample_sec (blk_hw st1) 1 6 = sample_sec (\<lambda>b i. 9) 1 6"
proof -
  have V: "(1, b) \<in> sample_V" for b by simp
  have "(5 :: u32) \<noteq> 6" by simp
  from block_read_stale_zero [OF sample_coherent [of "\<lambda>b i. 9"] sample_reads sample_writes V V this _ sample_outside]
  show ?thesis by (simp add: sample_slot) (simp add: sample_st_def)
qed

section \<open>Partitions\<close>

text \<open>
a partition is a disk: its block \<open>b\<close> is block \<open>pd_offset + b\<close> of the device, and the driver
  functions of the partition satisfy the laws of a disk when those of the device do.
\<close>

definition partition_blocks :: "u32 \<Rightarrow> partition_data \<times> u32 \<Rightarrow> (u32 \<times> u32) set \<Rightarrow> (u32 \<times> u32) set" where
  "partition_blocks p = (\<lambda>(pd, plen) V. {(d, b). d = p \<and> b < plen \<and> (pd_device pd, pd_offset pd + b) \<in> V})"

definition partition_sectors :: "partition_data \<Rightarrow> 'h sectors \<Rightarrow> 'h sectors" where
  "partition_sectors pd sec h d b = sec h (pd_device pd) (pd_offset pd + b)"

lemma partition_request:
  "b < plen \<Longrightarrow> partition_read D pd plen b 1 buf s = dev_read (D (pd_device pd)) (pd_offset pd + b) 1 buf s"
  "b < plen \<Longrightarrow> partition_write D pd plen b 1 buf s = dev_write (D (pd_device pd)) (pd_offset pd + b) 1 buf s"
  using inc_le [of b plen] by (simp_all add: partition_read_def partition_write_def not_less [symmetric])

theorem partition_is_disk:
  assumes "p \<noteq> 0" "reads_disk D V sec" "writes_disk D V sec"
  shows "reads_disk (D(p := partition_dev D (pd, plen))) (partition_blocks p (pd, plen) V) (partition_sectors pd sec) \<and>
    writes_disk (D(p := partition_dev D (pd, plen))) (partition_blocks p (pd, plen) V) (partition_sectors pd sec)"
proof (intro conjI)
  show "reads_disk (D(p := partition_dev D (pd, plen))) (partition_blocks p (pd, plen) V) (partition_sectors pd sec)"
    unfolding reads_disk_def
  proof (clarify, intro conjI allI impI)
    fix d b buf :: u32 and s h assume db: "(d, b) \<in> partition_blocks p (pd, plen) V"
    then have b: "d = p" "b < plen" "(pd_device pd, pd_offset pd + b) \<in> V" by (auto simp: partition_blocks_def)
    show "d \<noteq> 0" "dev_type ((D(p := partition_dev D (pd, plen))) d) = DEV_TYPE_BLOCK"
      using b(1) assms(1) by (simp_all add: partition_dev_def)
    assume "unat buf + 512 \<le> 4294967296"
    from reads_diskD [OF assms(2) b(3) this, of s h]
    show "\<exists>r n m' h'. dev_read ((D(p := partition_dev D (pd, plen))) d) b 1 buf (s, h) = Some (r, n, s\<lparr>ram := m'\<rparr>, h') \<and>
        0 \<le> r \<and> modifies (ram s) m' (unat buf) (unat buf + 512) \<and> block_at m' buf = partition_sectors pd sec h d b \<and>
        (\<forall>(d, c) \<in> partition_blocks p (pd, plen) V. partition_sectors pd sec h' d c = partition_sectors pd sec h d c)"
      using b by (fastforce simp: partition_dev_def partition_request partition_sectors_def partition_blocks_def)
  qed
  show "writes_disk (D(p := partition_dev D (pd, plen))) (partition_blocks p (pd, plen) V) (partition_sectors pd sec)"
    unfolding writes_disk_def
  proof (clarify, intro conjI allI impI)
    fix d b buf :: u32 and s h assume db: "(d, b) \<in> partition_blocks p (pd, plen) V"
    then have b: "d = p" "b < plen" "(pd_device pd, pd_offset pd + b) \<in> V" by (auto simp: partition_blocks_def)
    show "d \<noteq> 0" "dev_type ((D(p := partition_dev D (pd, plen))) d) = DEV_TYPE_BLOCK"
      using b(1) assms(1) by (simp_all add: partition_dev_def)
    from writes_diskD(2) [OF assms(3) b(3), of buf s h]
    show "\<exists>n h'. dev_write ((D(p := partition_dev D (pd, plen))) d) b 1 buf (s, h) = Some (1, n, s, h') \<and>
        (\<forall>(d', c) \<in> partition_blocks p (pd, plen) V. partition_sectors pd sec h' d' c =
          (if (d', c) = (d, b) then block_value (ram s) buf else partition_sectors pd sec h d' c))"
      using b by (fastforce simp: partition_dev_def partition_request partition_sectors_def partition_blocks_def)
  qed
qed

theorem partition_is_disk_witness:
  "reads_disk ((\<lambda>_. sample_dev)(2 := partition_dev (\<lambda>_. sample_dev) (\<lparr>pd_device = 1, pd_block_size = 512,
     pd_offset = 63, pd_type = 0x83, pd_status = 0\<rparr>, 100)))
     {(d, b). d = 2 \<and> b < 100} (\<lambda>h d b. map (h (63 + b)) [0..<512])"
proof -
  let ?pd = "\<lparr>pd_device = 1, pd_block_size = 512, pd_offset = 63, pd_type = 0x83, pd_status = 0\<rparr> :: partition_data"
  have "partition_blocks 2 (?pd, 100) sample_V = {(d, b). d = 2 \<and> b < 100}"
    by (auto simp: partition_blocks_def)
  moreover have "partition_sectors ?pd sample_sec = (\<lambda>h d b. map (h (63 + b)) [0..<512])"
    by (simp add: partition_sectors_def sample_sec_def fun_eq_iff)
  ultimately show ?thesis
    using partition_is_disk [of 2 "\<lambda>_. sample_dev" sample_V sample_sec ?pd 100] sample_reads sample_writes by simp
qed

end
