(* ===== verification/Ata.thy ===== *)
theory Ata
  imports Block_Cache
begin

text \<open>
  \<^verbatim>\<open>kernel/device/ata.c\<close>: reading and writing sectors of an ATA drive through its registers,
  for revision 1 of the board.  The bus is a parameter: what reading a register or the data port
  returns and does, and what writing does, for any state \<open>'h\<close> of the hardware.  The transfer
  loops are those of \<^verbatim>\<open>cpu/m68000/primitives.h\<close>.
\<close>

section \<open>The bus\<close>

record 'h ata_bus =
  reg_read :: "u32 \<Rightarrow> 'h \<Rightarrow> u8 \<times> 'h"
  reg_write :: "u32 \<Rightarrow> u8 \<Rightarrow> 'h \<Rightarrow> 'h"
  port_read :: "u32 \<Rightarrow> 'h \<Rightarrow> u16 \<times> 'h"
  port_write :: "u32 \<Rightarrow> u16 \<Rightarrow> 'h \<Rightarrow> 'h"

record blockdev_stats =
  blocks_read :: u32
  blocks_written :: u32

text \<open>The registers: \<^verbatim>\<open>ATA_REG_BASE\<close> and \<^verbatim>\<open>ATA_REG_OFFSET\<close> are 0, \<^verbatim>\<open>ATA_REG_SHIFT\<close> is 1.\<close>

definition ATA_R :: "u32 \<Rightarrow> u32" where "ATA_R reg = push_bit 1 reg"
definition ATA_R_ERROR :: u32 where "ATA_R_ERROR = ATA_R 1"
definition ATA_R_SECTOR_COUNT :: u32 where "ATA_R_SECTOR_COUNT = ATA_R 2"
definition ATA_R_SECTOR_NUMBER :: u32 where "ATA_R_SECTOR_NUMBER = ATA_R 3"
definition ATA_R_CYLINDER_LOW :: u32 where "ATA_R_CYLINDER_LOW = ATA_R 4"
definition ATA_R_CYLINDER_HIGH :: u32 where "ATA_R_CYLINDER_HIGH = ATA_R 5"
definition ATA_R_DEVICE_HEAD :: u32 where "ATA_R_DEVICE_HEAD = ATA_R 6"
definition ATA_R_STATUS :: u32 where "ATA_R_STATUS = ATA_R 7"
definition ATA_R_COMMAND :: u32 where "ATA_R_COMMAND = ATA_R 7"

definition ATA_STATUS_BSY :: u8 where "ATA_STATUS_BSY = 0x80"
definition ATA_STATUS_ERR :: u8 where "ATA_STATUS_ERR = 0x01"
definition ATA_DH_DEV :: u8 where "ATA_DH_DEV = 0x10"
definition ATA_DH_LBA :: u8 where "ATA_DH_LBA = 0x40"
definition ATA_CMD_READ_SECTORS :: u8 where "ATA_CMD_READ_SECTORS = 0x20"
definition ATA_CMD_WRITE_SECTORS :: u8 where "ATA_CMD_WRITE_SECTORS = 0x30"

text \<open>\<^verbatim>\<open>ATA_WAIT_NBSY\<close>: whether BSY was negated before the counter ran out.\<close>

fun wait_nbsy :: "'h ata_bus \<Rightarrow> u32 \<Rightarrow> nat \<Rightarrow> 'h \<Rightarrow> bool \<times> 'h" where
  "wait_nbsy B base 0 h = (False, h)"
| "wait_nbsy B base (Suc t) h =
     (let (s, h) = reg_read B (base + ATA_R_STATUS) h
      in if s AND ATA_STATUS_BSY = 0 then (True, h) else wait_nbsy B base t h)"

definition ATA_TIMEOUT_VAL :: nat where "ATA_TIMEOUT_VAL = 1000000"

section \<open>Transfer of sectors\<close>

text \<open>\<^verbatim>\<open>mem_scatter16v\<close> reads \<open>n\<close> times from the port into successive half-words.\<close>

fun mem_scatter16v :: "'h ata_bus \<Rightarrow> nat \<Rightarrow> u32 \<Rightarrow> u32 \<Rightarrow> mem \<times> 'h \<Rightarrow> mem \<times> 'h" where
  "mem_scatter16v B 0 src dest (m, h) = (m, h)"
| "mem_scatter16v B (Suc n) src dest (m, h) =
     (let (v, h) = port_read B src h in mem_scatter16v B n src (dest + 2) (store16 m dest v, h))"

text \<open>
  The assembly code of \<^verbatim>\<open>mem_gather16v\<close> is \<^verbatim>\<open>movew %0@, %1@+\<close> with the source as operand 0:
  it advances the destination and not the source.  \<^verbatim>\<open>mem_gather16v_zf\<close> advances the
  destination as well.
\<close>

fun mem_gather16v :: "'h ata_bus \<Rightarrow> nat \<Rightarrow> u32 \<Rightarrow> u32 \<Rightarrow> mem \<Rightarrow> 'h \<Rightarrow> 'h" where
  "mem_gather16v B 0 dest src m h = h"
| "mem_gather16v B (Suc n) dest src m h = mem_gather16v B n (dest + 2) src m (port_write B dest (load16 m src) h)"

fun mem_gather16v_zf :: "'h ata_bus \<Rightarrow> nat \<Rightarrow> u32 \<Rightarrow> 'h \<Rightarrow> 'h" where
  "mem_gather16v_zf B 0 dest h = h"
| "mem_gather16v_zf B (Suc n) dest h = mem_gather16v_zf B n (dest + 2) (port_write B dest 0 h)"

definition ata_read_data :: "'h ata_bus \<Rightarrow> u32 \<Rightarrow> u32 \<Rightarrow> mem \<times> 'h \<Rightarrow> mem \<times> 'h" where
  "ata_read_data B port buf = mem_scatter16v B 256 port buf"

definition ata_write_data :: "'h ata_bus \<Rightarrow> u32 \<Rightarrow> u32 \<Rightarrow> mem \<Rightarrow> 'h \<Rightarrow> 'h" where
  "ata_write_data B port buf m h =
     (if buf \<noteq> 0 then mem_gather16v B 256 port buf m h else mem_gather16v_zf B 256 port h)"

fun ata_read_sectors :: "'h ata_bus \<Rightarrow> nat \<Rightarrow> u32 \<Rightarrow> u32 \<Rightarrow> mem \<times> 'h \<Rightarrow> mem \<times> 'h" where
  "ata_read_sectors B 0 port buf s = s"
| "ata_read_sectors B (Suc n) port buf s = ata_read_sectors B n port (buf + 512) (ata_read_data B port buf s)"

text \<open>\<open>inc\<close> is the advance of the buffer: 0 when the sectors are to be filled with zeros.\<close>

fun ata_write_sectors :: "'h ata_bus \<Rightarrow> nat \<Rightarrow> u32 \<Rightarrow> u32 \<Rightarrow> u32 \<Rightarrow> mem \<Rightarrow> 'h \<Rightarrow> 'h" where
  "ata_write_sectors B 0 port buf inc m h = h"
| "ata_write_sectors B (Suc n) port buf inc m h =
     ata_write_sectors B n port (buf + inc) inc m (ata_write_data B port buf m h)"

section \<open>Commands\<close>

text \<open>The address of the sectors and the command.\<close>

definition ata_issue :: "'h ata_bus \<Rightarrow> u32 \<Rightarrow> u32 \<Rightarrow> u32 \<Rightarrow> u8 \<Rightarrow> 'h \<Rightarrow> 'h" where
  "ata_issue B base offset n cmd h =
     (let h = reg_write B (base + ATA_R_SECTOR_COUNT) (ucast n) h;
          h = reg_write B (base + ATA_R_SECTOR_NUMBER) (ucast (offset AND 0xff)) h;
          h = reg_write B (base + ATA_R_CYLINDER_LOW) (ucast (drop_bit 8 offset AND 0xff)) h;
          h = reg_write B (base + ATA_R_CYLINDER_HIGH) (ucast (drop_bit 16 offset AND 0xff)) h;
          (dh, h) = reg_read B (base + ATA_R_DEVICE_HEAD) h;
          h = reg_write B (base + ATA_R_DEVICE_HEAD) (dh OR (ATA_DH_LBA OR ucast (drop_bit 24 offset AND 0xf))) h
      in reg_write B (base + ATA_R_COMMAND) cmd h)"

text \<open>The error register as a result, after a read and after a write.\<close>

definition ata_read_error :: "u8 \<Rightarrow> int" where
  "ata_read_error err =
     (if err AND 0x04 \<noteq> 0 \<or> err AND 0x10 \<noteq> 0 then - 22
      else if err AND 0x40 \<noteq> 0 then - 503
      else if err AND 0x20 \<noteq> 0 \<or> err AND 0x08 \<noteq> 0 then - 502
      else if err AND 0x02 \<noteq> 0 then - 123
      else - 500)"

definition ata_write_error :: "u8 \<Rightarrow> int" where
  "ata_write_error err =
     (if err AND 0x04 \<noteq> 0 \<or> err AND 0x10 \<noteq> 0 then - 22
      else if err AND 0x40 \<noteq> 0 then - 30
      else if err AND 0x20 \<noteq> 0 \<or> err AND 0x08 \<noteq> 0 then - 502
      else if err AND 0x02 \<noteq> 0 then - 123
      else - 500)"

text \<open>What the drive reports once BSY is negated: 0 or the error, through \<open>f\<close>.\<close>

definition ata_status :: "'h ata_bus \<Rightarrow> u32 \<Rightarrow> (u8 \<Rightarrow> int) \<Rightarrow> 'h \<Rightarrow> int \<times> 'h" where
  "ata_status B base f h =
     (let (ok, h) = wait_nbsy B base ATA_TIMEOUT_VAL h
      in if \<not> ok then (- 62, h)
         else
           let (status, h) = reg_read B (base + ATA_R_STATUS) h
           in if status AND ATA_STATUS_ERR \<noteq> 0
              then let (err, h) = reg_read B (base + ATA_R_ERROR) h in (f err, h)
              else (0, h))"

text \<open>
  \<open>drive\<close> is 0 for the master and 1 for the slave.  The counter of the transfer loop ends at
  \<open>0xffffffff\<close>, which is subtracted from the count of the caller.
\<close>

definition ata_read :: "'h ata_bus \<Rightarrow> u32 \<Rightarrow> nat \<Rightarrow> u32 \<Rightarrow> u32 \<Rightarrow> u32 \<Rightarrow> u32 \<Rightarrow>
    machine \<times> 'h \<times> blockdev_stats \<Rightarrow> (int \<times> u32 \<times> machine \<times> 'h \<times> blockdev_stats) option" where
  "ata_read B base drive dlen offset n buf = (\<lambda>(s, h, g).
     if drive \<noteq> 0 \<and> drive \<noteq> 1 then Some (- 19, n, s, h, g)
     else
       let h = reg_write B (base + ATA_R_DEVICE_HEAD) (if drive = 0 then 0 else ATA_DH_DEV) h;
           (ok, h) = wait_nbsy B base ATA_TIMEOUT_VAL h
       in if \<not> ok then Some (- 62, n, s, h, g)
          else if offset + n < offset \<or> offset + n > dlen then Some (- 22, n, s, h, g)
          else
            let h = ata_issue B base offset n ATA_CMD_READ_SECTORS h;
                (ret, h) = ata_status B base ata_read_error h
            in if ret \<noteq> 0 then Some (ret, n, s, h, g)
               else
                 let (m, h) = ata_read_sectors B (unat n) base buf (ram s, h)
                 in Some (0, n - 0xffffffff, s\<lparr>ram := m\<rparr>, h, g\<lparr>blocks_read := blocks_read g + n\<rparr>))"

definition ata_write :: "'h ata_bus \<Rightarrow> u32 \<Rightarrow> nat \<Rightarrow> u32 \<Rightarrow> u32 \<Rightarrow> u32 \<Rightarrow> u32 \<Rightarrow>
    machine \<times> 'h \<times> blockdev_stats \<Rightarrow> (int \<times> u32 \<times> machine \<times> 'h \<times> blockdev_stats) option" where
  "ata_write B base drive dlen offset n buf = (\<lambda>(s, h, g).
     if drive \<noteq> 0 \<and> drive \<noteq> 1 then Some (- 19, n, s, h, g)
     else
       let (dh, h) = reg_read B (base + ATA_R_DEVICE_HEAD) h;
           h = reg_write B (base + ATA_R_DEVICE_HEAD) (if drive = 0 then dh AND NOT ATA_DH_DEV else dh OR ATA_DH_DEV) h;
           (ok, h) = wait_nbsy B base ATA_TIMEOUT_VAL h
       in if \<not> ok then Some (- 62, n, s, h, g)
          else if offset + n < offset \<or> offset + n > dlen then Some (- 22, n, s, h, g)
          else
            let h = ata_issue B base offset n ATA_CMD_WRITE_SECTORS h;
                h = ata_write_sectors B (unat n) base buf (if buf \<noteq> 0 then 512 else 0) (ram s) h;
                (ret, h) = ata_status B base ata_write_error h
            in if ret \<noteq> 0 then Some (ret, n, s, h, g)
               else Some (0, n - 0xffffffff, s, h, g\<lparr>blocks_written := blocks_written g + n\<rparr>))"

definition ata_send_command :: "'h ata_bus \<Rightarrow> u32 \<Rightarrow> nat \<Rightarrow> u8 \<Rightarrow> 'h \<Rightarrow> int \<times> 'h" where
  "ata_send_command B base drive cmd h =
     (if drive \<noteq> 0 \<and> drive \<noteq> 1 then (- 19, h)
      else
        let (dh, h) = reg_read B (base + ATA_R_DEVICE_HEAD) h;
            h = reg_write B (base + ATA_R_DEVICE_HEAD) (if drive = 0 then dh AND NOT ATA_DH_DEV else dh OR ATA_DH_DEV) h;
            (ok, h) = wait_nbsy B base ATA_TIMEOUT_VAL h
        in if \<not> ok then (- 62, h)
           else
             let h = reg_write B (base + ATA_R_COMMAND) cmd h;
                 (ok, h) = wait_nbsy B base ATA_TIMEOUT_VAL h
             in if \<not> ok then (- 62, h)
                else
                  let (status, h) = reg_read B (base + ATA_R_STATUS) h
                  in (if status AND ATA_STATUS_ERR \<noteq> 0 then - 507 else 0, h))"

text \<open>The device structure of a drive.\<close>

definition ata_dev :: "'h ata_bus \<Rightarrow> u32 \<Rightarrow> nat \<Rightarrow> u32 \<Rightarrow> ('h \<times> blockdev_stats) dev" where
  "ata_dev B base drive dlen = \<lparr>dev_type = DEV_TYPE_BLOCK, dev_block_size = 512, dev_len = dlen,
     dev_read = ata_read B base drive dlen, dev_write = ata_write B base drive dlen\<rparr>"

section \<open>What the drive is sent\<close>

lemma gather_trace:
  "mem_gather16v B n dest src m h =
     fold (\<lambda>i. port_write B (dest + 2 * adr i) (load16 m src)) [0..<n] h"
proof (induction n arbitrary: dest h)
  case (Suc n)
  have "[0..<Suc n] = 0 # map Suc [0..<n]" by (simp add: upt_conv_Cons map_Suc_upt del: upt_Suc)
  then have "fold (\<lambda>i. port_write B (dest + 2 * adr i) (load16 m src)) [0..<Suc n] h =
      fold (\<lambda>i. port_write B (dest + 2 * adr (Suc i)) (load16 m src)) [0..<n] (port_write B dest (load16 m src) h)"
    by (simp add: fold_map o_def del: upt_Suc)
  then show ?case
    using Suc [of "dest + 2" "port_write B dest (load16 m src) h"]
    by (simp add: adr_distrib algebra_simps del: upt_Suc adr_fold)
qed simp

text \<open>A bus that records the half-words written and to which address.\<close>

definition trace_bus :: "(u32 \<times> u16) list ata_bus" where
  "trace_bus = \<lparr>reg_read = (\<lambda>a h. (0, h)), reg_write = (\<lambda>a v h. h),
     port_read = (\<lambda>a h. (0, h)), port_write = (\<lambda>a v h. h @ [(a, v)])\<rparr>"

text \<open>
sending a sector to the drive writes its first half-word 256 times, to successive
  addresses from the data port on: the registers of the drive.  No other byte of the sector is
  sent, and only the first write reaches the data port.
\<close>

lemma ata_write_data_sends:
  "buf \<noteq> 0 \<Longrightarrow> ata_write_data trace_bus port buf m [] = map (\<lambda>i. (port + 2 * adr i, load16 m buf)) [0..<256]"
proof -
  have "fold (\<lambda>i. port_write trace_bus (port + 2 * adr i) (load16 m buf)) xs h =
      h @ map (\<lambda>i. (port + 2 * adr i, load16 m buf)) xs" for xs h
    by (induction xs arbitrary: h) (simp_all add: trace_bus_def)
  then show "buf \<noteq> 0 \<Longrightarrow> ata_write_data trace_bus port buf m [] = map (\<lambda>i. (port + 2 * adr i, load16 m buf)) [0..<256]"
    by (simp add: ata_write_data_def gather_trace)
qed

section \<open>Writing through the cache\<close>

text \<open>A driver that never returns a positive number and does not change the memory.\<close>

definition never_counts :: "'h dev \<Rightarrow> bool" where
  "never_counts d \<longleftrightarrow> (\<forall>b n buf s h ret n' s' h'.
     dev_write d b n buf (s, h) = Some (ret, n', s', h') \<longrightarrow> ret \<le> 0 \<and> s' = s)"

lemma ata_status_result: "fst (ata_status B base ata_write_error h) \<le> 0"
  by (simp add: ata_status_def ata_write_error_def case_prod_beta)

lemma ata_write_result:
  assumes "ata_write B base drive dlen offset n buf (s, h, g) = Some (ret, n', s', h', g')"
  shows "ret \<le> 0 \<and> s' = s"
  using assms ata_status_result [of B base] unfolding ata_write_def
  by (simp add: Let_def case_prod_beta split: if_splits) blast+

lemma ata_never_counts: "never_counts (ata_dev B base drive dlen)"
  unfolding never_counts_def ata_dev_def
  using ata_write_result by fastforce

lemma partition_never_counts: "never_counts (D (pd_device pd)) \<Longrightarrow> never_counts (partition_dev D (pd, plen))"
  unfolding never_counts_def partition_dev_def
  by (auto simp: partition_write_def split: if_splits)

lemma call_write_never:
  "never_counts d \<Longrightarrow> call_write d b n buf st = Some (ret, n', st') \<Longrightarrow>
     ret \<le> 0 \<and> blk_mach st' = blk_mach st \<and> bc st' = bc st"
  unfolding never_counts_def by (cases "dev_write d b n buf (blk_mach st, blk_hw st)") (fastforce simp: call_write_def)+

lemma slot_store_never:
  assumes "never_counts (D dev)" "slot_store D slot dev b n buf st = Some (ret, st')"
  shows "ret < 0 \<and> blk_mach st' = blk_mach st \<and> bc st' = bc (slot_release (unat slot) st)"
proof -
  obtain r n' s where c: "call_write (D dev) b n buf st = Some (r, n', s)"
    using assms(2) by (cases "call_write (D dev) b n buf st") (auto simp: slot_store_def)
  from call_write_never [OF assms(1) c] c assms(2) show ?thesis
    by (auto simp: slot_store_def slot_release_def update_slot_def split: if_splits)
qed

lemma block_write_never:
  assumes "never_counts (D dev)" "block_write D dev b buf st = Some (ret, st')"
  shows "ret < 0"
proof -
  have "\<not> 1 \<le> r" if "call_write (D dev) blk n buf s = Some (r, n', s')" for blk n s r n' s'
    using call_write_never [OF assms(1) that] by simp
  then show ?thesis
    using assms(2) slot_store_never [where D = D, OF assms(1)]
    by (auto simp: block_write_def Let_def split: if_splits Option.bind_splits dest!: call_write_never [OF assms(1)])
qed

lemma block_write_never_hit:
  assumes nc: "never_counts (D dev)" and ty: "dev_type (D dev) = DEV_TYPE_BLOCK" and coh: "coherent V sec st"
    and i: "i = unat (block_cache_get_slot (bc st) dev b)" and hb: "holds_block st i dev b"
    and w: "block_write D dev b buf st = Some (ret, st')"
  shows "blk_mach st' = blk_mach st \<and> same_cache st st' \<and>
    (\<forall>j. the_slot j st' = (if j = i then (the_slot i st)\<lparr>bd_sem := 0\<rparr> else the_slot j st))"
proof -
  let ?f = "\<lambda>c. c\<lparr>bs_hits := bs_hits c + 1\<rparr>"
  have n0: "bc_nblocks (bc st) \<noteq> 0" and len: "length (bc_slots (bc st)) = unat (bc_nblocks (bc st))"
    using coh by (simp_all add: coherent_def)
  have il: "i < unat (bc_nblocks (bc st))" unfolding i by (rule get_slot_less [OF n0])
  note acq = held_slot(1) [OF coh il] and s1 = held_slot(3-7) [OF coh il]
  have "slot_store D (block_cache_get_slot (bc st) dev b) dev b 1 buf (update_bc_stats ?f (held st i)) = Some (ret, st')"
    using w n0 ty hb acq s1(1) by (simp add: block_write_def Let_def i [symmetric] holds_block_def)
  from slot_store_never [where D = D, OF nc this]
  have st': "blk_mach st' = blk_mach st" "bc st' = bc (slot_release i (update_bc_stats ?f (held st i)))"
    using s1(3) by (simp_all add: i [symmetric])
  have slots: "bc_slots (bc st') = bc_slots (bc (slot_release i (held st i)))"
    unfolding st'(2) by (simp add: slot_release_def update_slot_def update_bc_stats_def)
  have "the_slot j st' = (if j = i then (the_slot i st)\<lparr>bd_sem := 0\<rparr> else the_slot j st)" for j
    using slots il len s1(1,2,5) the_slot_update(1) [of i "held st i" "\<lambda>d. d\<lparr>bd_sem := sem_release (bd_sem d)\<rparr>"]
    by (simp add: the_slot_def slot_release_def update_slot_def held_def sem_release_def)
  moreover have "same_cache st st'"
    unfolding same_cache_def st'(2) by (simp add: slot_release_def held_def)
  ultimately show ?thesis using st'(1) by blast
qed

text \<open>
no write to an ATA drive, or to a partition of one, succeeds through the cache: the driver
  reports success as 0 and \<^verbatim>\<open>block_write\<close> takes this for a failure, whatever the hardware does.
  The cached copy of the block stays as it was, and the next read delivers it.
\<close>

theorem ata_block_write_fails:
  assumes dev: "D dev = ata_dev B base drive dlen \<or>
      (\<exists>pd plen. D dev = partition_dev D (pd, plen) \<and> D (pd_device pd) = ata_dev B base drive dlen)"
    and coh: "coherent V sec st" and V: "(dev, b) \<in> V"
    and hb: "holds_block st (unat (block_cache_get_slot (bc st) dev b)) dev b" and out: "outside_cache st out"
    and w: "block_write D dev b buf st = Some (ret, st')"
  shows "ret < 0 \<and> (\<exists>st2. block_read D dev b out st' = Some (0, st2) \<and>
    block_at (ram (blk_mach st2)) out = sec (blk_hw st) dev b)"
proof -
  define i where "i = unat (block_cache_get_slot (bc st) dev b)"
  have nc: "never_counts (D dev)"
    using dev ata_never_counts partition_never_counts by metis
  have ty: "dev_type (D dev) = DEV_TYPE_BLOCK"
    using dev by (auto simp: ata_dev_def partition_dev_def)
  have il: "i < unat (bc_nblocks (bc st))"
    unfolding i_def by (rule get_slot_less) (use coh in \<open>simp add: coherent_def\<close>)
  note hb = hb [folded i_def]
  note st' = block_write_never_hit [where D = D, OF nc ty coh i_def hb w]
  define old where "old = (\<lambda>(h :: 'a \<times> blockdev_stats) (d :: u32) (c :: u32). sec (blk_hw st) dev b)"
  have sv: "slot_value st' j = slot_value st j" for j
    using st' by (simp add: slot_value_def same_cache_def cache_lo_def)
  have gs: "block_cache_get_slot (bc st') d c = block_cache_get_slot (bc st) d c" for d c
    using st' by (simp add: same_cache_def block_cache_get_slot_def)
  have coh': "coherent {(dev, b)} old st'"
    using coh st' V unfolding coherent_def
    by (auto simp: same_cache_def cache_hi_def cache_lo_def slot_ok_def sv gs old_def)
  have hb': "holds_block st' i dev b" using hb st' by (simp add: holds_block_def)
  have slot': "i = unat (block_cache_get_slot (bc st') dev b)" by (simp add: gs i_def)
  have out': "outside_cache st' out"
    using out st' by (simp add: outside_cache_def same_cache_def cache_hi_def cache_lo_def)
  obtain s2 where s2: "block_read D dev b out st' = Some (0, slot_deliver (block_cache_get_slot (bc st') dev b) out s2)"
    "slot_ready {(dev, b)} old st' i dev b s2"
    using block_read_hit [where D = D and buf = out, OF coh' ty _ refl] hb' slot' by auto
  have "block_at (ram (blk_mach (slot_deliver (block_cache_get_slot (bc st') dev b) out s2))) out = old (blk_hw st') dev b"
    using read_end [OF coh' _ refl _ out' s2(2) [unfolded slot']] il st' by (simp add: slot' [symmetric] same_cache_def)
  then show ?thesis
    using s2(1) block_write_never [where D = D, OF nc w] by (auto simp: old_def)
qed

text \<open>A drive that is always ready, and a cache whose only slot holds a block.\<close>

definition quiet_bus :: "unit ata_bus" where
  "quiet_bus = \<lparr>reg_read = (\<lambda>a h. (0, h)), reg_write = (\<lambda>a v h. h),
     port_read = (\<lambda>a h. (0, h)), port_write = (\<lambda>a v h. h)\<rparr>"

definition quiet_st :: "(unit \<times> blockdev_stats) blk" where
  "quiet_st = \<lparr>bc = \<lparr>bc_descriptors = 0x1000, bc_slots = [\<lparr>bd_dev = 1, bd_block = 5, bd_flags = 0, bd_sem = 0\<rparr>],
     bc_cache = 0x2000, bc_nblocks = 1,
     bc_stats = \<lparr>bs_reads = 0, bs_writes = 0, bs_evictions = 0, bs_hits = 0, bs_misses = 0\<rparr>\<rparr>,
     blk_mach = \<lparr>ram = \<lambda>_. 3, irq_enabled = True, preempt_count = 0\<rparr>,
     blk_hw = ((), \<lparr>blocks_read = 0, blocks_written = 0\<rparr>)\<rparr>"

lemma quiet_wait: "wait_nbsy quiet_bus base ATA_TIMEOUT_VAL h = (True, h)"
proof -
  have "wait_nbsy quiet_bus base (Suc n) h = (True, h)" for n
    by (simp add: quiet_bus_def ATA_STATUS_BSY_def)
  moreover have "ATA_TIMEOUT_VAL = Suc 999999" by (simp add: ATA_TIMEOUT_VAL_def)
  ultimately show ?thesis by metis
qed

theorem ata_block_write_fails_witness:
  "\<exists>st' st2. block_write (\<lambda>_. ata_dev quiet_bus 0x100000 0 1000) 1 5 0x3000 quiet_st = Some (- 509, st') \<and>
     block_read (\<lambda>_. ata_dev quiet_bus 0x100000 0 1000) 1 5 0x4000 st' = Some (0, st2) \<and>
     block_at (ram (blk_mach st2)) 0x4000 = replicate 512 3"
proof -
  let ?D = "\<lambda>_ :: u32. ata_dev quiet_bus 0x100000 0 1000" and ?sec = "\<lambda>_ _ _. replicate 512 3"
  have slot: "block_cache_get_slot (bc quiet_st) d c = 0" for d c
    by (simp add: block_cache_get_slot_def quiet_st_def)
  have coh: "coherent {(1, 5)} ?sec quiet_st"
    by (simp add: coherent_def slot_ok_def slot slot_value_def cache_hi_def cache_lo_def the_slot_def block_at_def
        map_replicate_const quiet_st_def BC_ZERO_def block_cache_get_slot_def cong: conj_cong)
  have hb: "holds_block quiet_st (unat (block_cache_get_slot (bc quiet_st) 1 5)) 1 5"
    unfolding slot by (simp add: quiet_st_def holds_block_def the_slot_def)
  have out: "outside_cache quiet_st 0x4000"
    by (simp add: outside_cache_def cache_lo_def cache_hi_def quiet_st_def)
  have dw: "dev_write (?D 1) 5 1 0x3000 (s, h, g) = Some (0, 1 - 0xffffffff, s, (), g\<lparr>blocks_written := blocks_written g + 1\<rparr>)" for s h g
    by (simp add: ata_dev_def ata_write_def ata_status_def quiet_wait Let_def case_prod_beta ATA_STATUS_ERR_def)
      (simp add: quiet_bus_def)
  have "\<exists>st'. block_write ?D 1 5 0x3000 quiet_st = Some (- 509, st')"
    using dw slot by (simp add: block_write_def Let_def slot_store_def call_write_def slot_acquire_def sem_try_acquire_def
      cpu_tas_def the_slot_def update_slot_def update_bc_stats_def quiet_st_def ata_dev_def)
  then obtain st' where w: "block_write ?D 1 5 0x3000 quiet_st = Some (- 509, st')" by blast
  from ata_block_write_fails [OF disjI1 [OF refl] coh _ hb out w]
  show ?thesis using w by auto
qed

end
