(* ===== verification/Printf.thy ===== *)
theory Printf
  imports Prelude
begin

text \<open>
  \<^verbatim>\<open>klibc/printf.c\<close>: the formatted output functions.  The format is a character list
  whose end is the terminating NUL; the arguments of the variable argument list are values of
  \<open>arg\<close>.  The destination is the memory seen from \<^verbatim>\<open>str\<close>: a function from offsets to
  characters.  \<open>None\<close> stands for undefined behaviour of the C code: an argument of the wrong
  kind, a read past the end of the format or of a table, an overflow of a signed field width.
\<close>

subsection \<open>Constants and tables\<close>

datatype arg = A32 u32 | A64 u64 | AStr "string option"

type_synonym out = "u32 \<times> (u32 \<Rightarrow> char)"

abbreviation (input) "PF_HALF \<equiv> 0x01 :: u32"
abbreviation (input) "PF_HALF_HALF \<equiv> 0x02 :: u32"
abbreviation (input) "PF_LONG \<equiv> 0x04 :: u32"
abbreviation (input) "PF_LONG_LONG \<equiv> 0x08 :: u32"
abbreviation (input) "PF_LEADING_ZERO \<equiv> 0x10 :: u32"
abbreviation (input) "PF_HAVE_FIELD_WIDTH \<equiv> 0x20 :: u32"
abbreviation (input) "PF_FIELD_DOT_SEEN \<equiv> 0x40 :: u32"
abbreviation (input) "PF_NUM_OUTPUT_STARTED \<equiv> 0x80 :: u32"
abbreviation (input) "PF_NEG_FIELD_WIDTH \<equiv> 0x100 :: u32"

definition powers_of_ten :: "u32 list" where
  "powers_of_ten = [1, 10, 100, 1000, 10000, 100000, 1000000, 10000000, 100000000, 1000000000]"

definition powers_of_ten_ll :: "u64 list" where
  "powers_of_ten_ll = [
     1,
     10,
     100,
     1000,
     10000,
     100000,
     1000000,
     10000000,
     100000000,
     1000000000,
     10000000000,
     100000000000,
     1000000000000,
     10000000000000,
     100000000000000,
     1000000000000000,
     10000000000000000,
     100000000000000000,
     1000000000000000000,
     10000000000000000000]"

text \<open>A character constant and a decimal digit.\<close>

definition decimal_char :: "nat \<Rightarrow> char" where
  "decimal_char d = char_of (48 + d)"

subsection \<open>Emitting characters\<close>

text \<open>\<^verbatim>\<open>if(n < size_) str[n] = c; ++n;\<close>\<close>

definition put :: "u32 \<Rightarrow> char \<Rightarrow> out \<Rightarrow> out" where
  "put lim c = (\<lambda>(n, b). (n + 1, if n < lim then b(n := c) else b))"

text \<open>\<^verbatim>\<open>if(n < size_) str[n++] = c;\<close>\<close>

definition put_lim :: "u32 \<Rightarrow> char \<Rightarrow> out \<Rightarrow> out" where
  "put_lim lim c = (\<lambda>(n, b). if n < lim then (n + 1, b(n := c)) else (n, b))"

fun put_pad :: "u32 \<Rightarrow> char \<Rightarrow> nat \<Rightarrow> out \<Rightarrow> out" where
  "put_pad lim c 0 o1 = o1"
| "put_pad lim c (Suc k) o1 = put_pad lim c k (put lim c o1)"

fun put_lim_pad :: "u32 \<Rightarrow> nat \<Rightarrow> out \<Rightarrow> out" where
  "put_lim_pad lim 0 o1 = o1"
| "put_lim_pad lim (Suc k) o1 = put_lim_pad lim k (put_lim lim CHR '' '' o1)"

text \<open>The two copy loops of \<^verbatim>\<open>%s\<close>, without and with a precision.\<close>

fun put_string :: "u32 \<Rightarrow> string \<Rightarrow> out \<Rightarrow> out" where
  "put_string lim [] o1 = o1"
| "put_string lim (c # cs) o1 = put_string lim cs (put_lim lim c o1)"

fun put_prefix :: "u32 \<Rightarrow> nat \<Rightarrow> string \<Rightarrow> out \<Rightarrow> out" where
  "put_prefix lim p [] o1 = o1"
| "put_prefix lim 0 (c # cs) o1 = o1"
| "put_prefix lim (Suc p) (c # cs) o1 = put_prefix lim p cs (put_lim lim c o1)"

definition put_s :: "u32 \<Rightarrow> u32 \<Rightarrow> int \<Rightarrow> int \<Rightarrow> string option \<Rightarrow> out \<Rightarrow> out" where
  "put_s lim flags field_width precision arg o1 =
     (let pc = (case arg of None \<Rightarrow> ''(null)'' | Some s \<Rightarrow> s);
          pad_len = (if field_width \<noteq> 0 then nat (field_width - int (length pc)) else 0);
          o1 = (if field_width \<noteq> 0 \<and> flags AND PF_NEG_FIELD_WIDTH \<noteq> 0 then put_lim_pad lim pad_len o1 else o1);
          pad_len = (if field_width \<noteq> 0 \<and> flags AND PF_NEG_FIELD_WIDTH \<noteq> 0 then 0 else pad_len);
          o1 = (if precision \<noteq> 0 then put_prefix lim (nat precision) pc o1 else put_string lim pc o1)
      in if field_width \<noteq> 0 \<and> flags AND PF_NEG_FIELD_WIDTH = 0 then put_lim_pad lim pad_len o1 else o1)"

subsection \<open>Decimal numbers\<close>

text \<open>\<^verbatim>\<open>while(u >= p) { ++numeral; u -= q; }\<close>; no power is zero.\<close>

function count_off :: "'w::len word \<Rightarrow> 'w word \<Rightarrow> nat \<Rightarrow> nat \<times> 'w word" where
  "count_off p u k = (if 0 < p \<and> p \<le> u then count_off p (u - p) (k + 1) else (k, u))"
  by pat_completeness auto

termination
proof (relation "measure (\<lambda>(p, u, k). unat u)")
  fix p u :: "'w::len word" and k :: nat
  assume "0 < p \<and> p \<le> u"
  then have "unat (u - p) = unat u - unat p" "0 < unat p" "unat p \<le> unat u"
    by (simp_all add: unat_sub word_le_nat_alt word_less_nat_alt)
  then show "((p, u - p, k + 1), p, u, k) \<in> measure (\<lambda>(p, u, k). unat u)" by simp
qed simp

declare count_off.simps [simp del]

text \<open>The digit loop; \<open>k\<close> is the field width before the decrement.\<close>

fun put_digits :: "u32 \<Rightarrow> nat \<Rightarrow> u32 \<Rightarrow> out \<Rightarrow> out" where
  "put_digits lim 0 u o1 = o1"
| "put_digits lim (Suc k) u o1 =
     (case count_off (powers_of_ten ! k) u 0 of
        (dig, u) \<Rightarrow> put_digits lim k u (put lim (decimal_char dig) o1))"

text \<open>
  The 64-bit digit loop compares with \<^verbatim>\<open>powers_of_ten_ll\<close> but subtracts an entry of the
  32-bit table \<^verbatim>\<open>powers_of_ten\<close>, which has ten entries.
\<close>

fun put_digits_ll :: "u32 \<Rightarrow> nat \<Rightarrow> u64 \<Rightarrow> out \<Rightarrow> out option" where
  "put_digits_ll lim 0 u o1 = Some o1"
| "put_digits_ll lim (Suc k) u o1 =
     (if powers_of_ten_ll ! k \<le> u \<and> length powers_of_ten \<le> k then None
      else case (if powers_of_ten_ll ! k \<le> u then count_off (ucast (powers_of_ten ! k)) u 0 else (0, u)) of
             (dig, u) \<Rightarrow> put_digits_ll lim k u (put lim (decimal_char dig) o1))"

definition req_digits :: "'w::len word list \<Rightarrow> 'w word \<Rightarrow> nat" where
  "req_digits powers u = (let r = length (takeWhile (\<lambda>p. p \<le> u) powers) in if r = 0 then 1 else r)"

definition put_d :: "u32 \<Rightarrow> char \<Rightarrow> u32 \<Rightarrow> int \<Rightarrow> u32 \<Rightarrow> out \<Rightarrow> out" where
  "put_d lim ch flags field_width u o1 =
     (if flags AND PF_HAVE_FIELD_WIDTH \<noteq> 0 \<and> field_width = 0 \<and> u = 0 then o1
      else let neg = (ch \<noteq> CHR ''u'' \<and> u AND 0x80000000 \<noteq> 0);
               u = (if neg then NOT u + 1 else u);
               o1 = (if neg then put lim CHR ''-'' o1 else o1);
               req = req_digits powers_of_ten u;
               width = max (nat field_width) req;
               pad = (if flags AND PF_LEADING_ZERO \<noteq> 0 then CHR ''0'' else CHR '' '')
           in put_digits lim req u (put_pad lim pad (width - req) o1))"

definition put_lld :: "u32 \<Rightarrow> char \<Rightarrow> u32 \<Rightarrow> int \<Rightarrow> u64 \<Rightarrow> out \<Rightarrow> out option" where
  "put_lld lim ch flags field_width u o1 =
     (if flags AND PF_HAVE_FIELD_WIDTH \<noteq> 0 \<and> field_width = 0 \<and> u = 0 then Some o1
      else let neg = (ch \<noteq> CHR ''u'' \<and> u AND 0x8000000000000000 \<noteq> 0);
               u = (if neg then NOT u + 1 else u);
               o1 = (if neg then put lim CHR ''-'' o1 else o1);
               req = req_digits powers_of_ten_ll u;
               width = max (nat field_width) req;
               pad = (if flags AND PF_LEADING_ZERO \<noteq> 0 then CHR ''0'' else CHR '' '')
           in put_digits_ll lim req u (put_pad lim pad (width - req) o1))"

subsection \<open>Hexadecimal numbers\<close>

definition hex_digits :: "char \<Rightarrow> string" where
  "hex_digits ch = (if ch = CHR ''X'' then ''0123456789ABCDEF'' else ''0123456789abcdef'')"

text \<open>
  The loop over the nybbles, 4 bits each, from the highest; \<open>k\<close> nybbles remain, \<open>started\<close> is the
  flag \<^verbatim>\<open>PF_NUM_OUTPUT_STARTED\<close> and \<open>width4\<close> the field width in bits.
\<close>

fun put_nybbles :: "u32 \<Rightarrow> string \<Rightarrow> int \<Rightarrow> nat \<Rightarrow> 'w::len word \<Rightarrow> char \<Rightarrow> bool \<Rightarrow> out \<Rightarrow> out" where
  "put_nybbles lim hex width4 0 u pad started o1 = o1"
| "put_nybbles lim hex width4 (Suc k) u pad started o1 =
     (let nybble = 4 * k;
          val = drop_bit nybble u AND 0xf;
          started = (started \<or> int nybble < width4)
      in if val \<noteq> 0 \<or> nybble = 0
         then put_nybbles lim hex width4 k u CHR ''0'' True (put lim (hex ! unat val) o1)
         else if started then put_nybbles lim hex width4 k u pad started (put lim pad o1)
         else put_nybbles lim hex width4 k u pad started o1)"

text \<open>The \<^verbatim>\<open>0x\<close> prefix of \<^verbatim>\<open>%p\<close>: the new field width, padding and output.\<close>

definition put_p_prefix :: "u32 \<Rightarrow> char \<Rightarrow> u32 \<Rightarrow> int \<Rightarrow> out \<Rightarrow> int \<times> char \<times> out" where
  "put_p_prefix lim ch flags field_width = (\<lambda>(n, b).
     if ch = CHR ''p''
     then if n + 1 < lim
          then (if field_width = 0 then 8 else field_width, CHR ''0'',
                (n + 2, b(n := CHR ''0'', n + 1 := CHR ''x'')))
          else (field_width, CHR ''0'', (n, b))
     else (field_width, if flags AND PF_LEADING_ZERO \<noteq> 0 then CHR ''0'' else CHR '' '', (n, b)))"

definition put_x :: "u32 \<Rightarrow> char \<Rightarrow> u32 \<Rightarrow> int \<Rightarrow> nat \<Rightarrow> 'w::len word \<Rightarrow> out \<Rightarrow> out" where
  "put_x lim ch flags field_width nybbles u o1 =
     (case put_p_prefix lim ch flags field_width o1 of (width, pad, o1) \<Rightarrow>
        let o1 = put_pad lim pad (nat (width - int nybbles)) o1;
            width = (if width > int nybbles then int nybbles else width)
        in put_nybbles lim (hex_digits ch) (width * 4) nybbles u pad False o1)"

subsection \<open>The format\<close>

definition is_digit :: "char \<Rightarrow> bool" where
  "is_digit c \<longleftrightarrow> 48 \<le> (of_char c :: nat) \<and> of_char c \<le> (57 :: nat)"

definition digit_of :: "char \<Rightarrow> int" where
  "digit_of c = of_char c - 48"

text \<open>
  The loop over the field width and precision.  A width or precision that exceeds the range of
  \<^verbatim>\<open>s32\<close> overflows a signed integer.
\<close>

fun parse_width :: "string \<Rightarrow> u32 \<Rightarrow> int \<Rightarrow> int \<Rightarrow> (string \<times> u32 \<times> int \<times> int) option" where
  "parse_width [] flags field_width precision = Some ([], flags, field_width, precision)"
| "parse_width (ch # fmt) flags field_width precision =
     (if ch = CHR ''.'' then parse_width fmt (flags OR PF_FIELD_DOT_SEEN) field_width precision
      else if is_digit ch
      then let flags = (if ch = CHR ''0'' \<and> flags AND PF_HAVE_FIELD_WIDTH = 0
                        then flags OR PF_LEADING_ZERO else flags) OR PF_HAVE_FIELD_WIDTH
           in if flags AND PF_FIELD_DOT_SEEN \<noteq> 0
              then (let precision = precision * 10 + digit_of ch
                    in if precision > 2147483647 then None
                       else parse_width fmt flags field_width precision)
              else (let field_width = field_width * 10 + digit_of ch
                    in if field_width > 2147483647 then None
                       else parse_width fmt flags field_width precision)
      else Some (ch # fmt, flags, field_width, precision))"

fun parse_length :: "string \<Rightarrow> u32 \<Rightarrow> string \<times> u32" where
  "parse_length [] flags = ([], flags)"
| "parse_length (ch # fmt) flags =
     (if ch = CHR ''l''
      then parse_length fmt (if flags AND PF_LONG \<noteq> 0 then flags OR PF_LONG_LONG else flags OR PF_LONG)
      else if ch = CHR ''h''
      then parse_length fmt (if flags AND PF_HALF \<noteq> 0 then flags OR PF_HALF_HALF else flags OR PF_HALF)
      else (ch # fmt, flags))"

text \<open>One conversion \<open>ch\<close>: the remaining arguments and the output.\<close>

definition convert :: "u32 \<Rightarrow> char \<Rightarrow> u32 \<Rightarrow> int \<Rightarrow> int \<Rightarrow> arg list \<Rightarrow> out \<Rightarrow> (arg list \<times> out) option" where
  "convert lim ch flags field_width precision args o1 =
     (if ch = CHR ''s''
      then (case args of AStr s # args \<Rightarrow> Some (args, put_s lim flags field_width precision s o1) | _ \<Rightarrow> None)
      else if ch = CHR ''c''
      then if fst o1 < lim
           then (case args of A32 v # args \<Rightarrow> Some (args, put lim (char_of (unat v)) o1) | _ \<Rightarrow> None)
           else Some (args, put lim CHR 0x00 o1)
      else if ch = CHR ''d'' \<or> ch = CHR ''i'' \<or> ch = CHR ''u''
      then if flags AND PF_LONG_LONG = 0
           then (case args of A32 v # args \<Rightarrow> Some (args, put_d lim ch flags field_width v o1) | _ \<Rightarrow> None)
           else (case args of
                   A64 v # args \<Rightarrow> map_option (Pair args) (put_lld lim ch flags field_width v o1)
                 | _ \<Rightarrow> None)
      else if ch = CHR ''x'' \<or> ch = CHR ''X'' \<or> ch = CHR ''p''
      then if flags AND PF_LONG_LONG = 0
           then (case args of A32 v # args \<Rightarrow> Some (args, put_x lim ch flags field_width 8 v o1) | _ \<Rightarrow> None)
           else (case args of A64 v # args \<Rightarrow> Some (args, put_x lim ch flags field_width 16 v o1) | _ \<Rightarrow> None)
      else Some (args, o1))"

text \<open>
  The escapes after a backslash: the character behind it is skipped and the one after that is
  translated.
\<close>

definition escape_char :: "char \<Rightarrow> char" where
  "escape_char ch =
     (if ch = CHR ''n'' then CHR 0x0A else if ch = CHR ''r'' then CHR 0x0D
      else if ch = CHR ''t'' then CHR 0x09 else if ch = CHR ''0'' then CHR 0x00 else ch)"

lemma parse_width_length:
  "parse_width fmt flags w p = Some (fmt', flags', w', p') \<Longrightarrow> length fmt' \<le> length fmt"
proof (induction fmt flags w p rule: parse_width.induct)
  case (2 ch fmt flags w p)
  then show ?case by (fastforce simp: Let_def split: if_splits)
qed simp

lemma parse_length_length: "parse_length fmt flags = (fmt', flags') \<Longrightarrow> length fmt' \<le> length fmt"
  by (induction fmt flags rule: parse_length.induct) (fastforce split: if_splits)+

text \<open>
  The main loop of \<^verbatim>\<open>vsnprintf\<close>.  The flag for a minus sign after \<^verbatim>\<open>%\<close> is
  overwritten before it is used.  Every turn ends with \<^verbatim>\<open>++format\<close>, which leaves the string
  when the format ends inside a directive.
\<close>

function format_loop :: "u32 \<Rightarrow> string \<Rightarrow> arg list \<Rightarrow> out \<Rightarrow> out option" where
  "format_loop lim [] args o1 = Some o1"
| "format_loop lim (ch # fmt) args o1 =
     (if ch = CHR ''%''
      then if fmt = [] then Some o1
           else if hd fmt = CHR ''%'' then Some (put lim CHR ''%'' o1)
           else (case parse_width (if hd fmt = CHR ''-'' then tl fmt else fmt) 0 0 0 of
                   None \<Rightarrow> None
                 | Some (fmt, flags, field_width, precision) \<Rightarrow>
                     (case parse_length fmt flags of
                        ([], flags) \<Rightarrow> None
                      | (ch # fmt, flags) \<Rightarrow>
                          (case convert lim ch flags field_width precision args o1 of
                             None \<Rightarrow> None
                           | Some (args, o1) \<Rightarrow> format_loop lim fmt args o1)))
      else if ch = CHR 0x5C
      then (case fmt of
              [] \<Rightarrow> None
            | _ # fmt \<Rightarrow>
                if fst o1 < lim
                then (case fmt of [] \<Rightarrow> None | ch # fmt \<Rightarrow> format_loop lim fmt args (put lim (escape_char ch) o1))
                else format_loop lim fmt args (put lim CHR 0x00 o1))
      else format_loop lim fmt args (put lim ch o1))"
  by pat_completeness auto

termination
proof (relation "measure (\<lambda>(lim, fmt, args, o1). length fmt)", goal_cases)
  case (2 lim ch fmt args o1 x fmt1 y flags z w p fmt2 flags2 ch2 fmt3 aa args2 o2)
  then show ?case
    by (auto dest!: parse_width_length parse_length_length [OF sym] split: if_splits)
qed auto

definition vsnprintf :: "u32 \<Rightarrow> string \<Rightarrow> arg list \<Rightarrow> (u32 \<Rightarrow> char) \<Rightarrow> (u32 \<times> (u32 \<Rightarrow> char)) option" where
  "vsnprintf sz fmt args str =
     (let lim = sz - 1
      in map_option (\<lambda>(n, b). (n, b((if n \<le> lim then n else lim) := CHR 0x00)))
           (format_loop lim fmt args (0, str)))"

definition snprintf :: "u32 \<Rightarrow> string \<Rightarrow> arg list \<Rightarrow> (u32 \<Rightarrow> char) \<Rightarrow> (u32 \<times> (u32 \<Rightarrow> char)) option" where
  "snprintf sz fmt args str = vsnprintf sz fmt args str"

definition vsprintf :: "string \<Rightarrow> arg list \<Rightarrow> (u32 \<Rightarrow> char) \<Rightarrow> (u32 \<times> (u32 \<Rightarrow> char)) option" where
  "vsprintf fmt args str = vsnprintf 0x7fffffff fmt args str"

definition sprintf :: "string \<Rightarrow> arg list \<Rightarrow> (u32 \<Rightarrow> char) \<Rightarrow> (u32 \<times> (u32 \<Rightarrow> char)) option" where
  "sprintf fmt args str = vsnprintf 0x7fffffff fmt args str"

subsection \<open>Output as text\<close>

fun app :: "out \<Rightarrow> string \<Rightarrow> out" where
  "app o1 [] = o1"
| "app (n, b) (c # cs) = app (n + 1, b(n := c)) cs"

definition out_text :: "out \<Rightarrow> string" where
  "out_text o1 = map (\<lambda>i. snd o1 (adr i)) [0..<unat (fst o1)]"

definition room :: "u32 \<Rightarrow> out \<Rightarrow> nat \<Rightarrow> bool" where
  "room lim o1 k \<longleftrightarrow> unat (fst o1) + k \<le> unat lim"

lemma app_append: "app o1 (s @ t) = app (app o1 s) t"
  by (induction o1 s rule: app.induct) simp_all

lemma fst_app: "fst (app o1 s) = fst o1 + adr (length s)"
proof (induction o1 s rule: app.induct)
  case (2 n b c cs)
  then show ?case by (simp only: app.simps fst_conv length_Cons adr_shift)
qed simp

lemma unat_fst_app: "room lim o1 (length s) \<Longrightarrow> unat (fst (app o1 s)) = unat (fst o1) + length s"
proof -
  assume "room lim o1 (length s)"
  then have lt: "unat (fst o1) + length s < 4294967296" using unat_bound [of lim] by (simp add: room_def)
  have "fst (app o1 s) = adr (unat (fst o1) + length s)" by (simp only: fst_app adr_add adr_unat)
  then show ?thesis using lt by simp
qed

lemma room_app: "room lim o1 (length s + k) \<Longrightarrow> room lim (app o1 s) k"
  using unat_fst_app [of lim o1 s] by (simp add: room_def)

lemma out_text_app: "room lim o1 (length s) \<Longrightarrow> out_text (app o1 s) = out_text o1 @ s"
proof (induction o1 s rule: app.induct)
  case (2 n b c cs)
  have n1: "unat (n + 1) = unat n + 1"
    using 2(2) unat_bound [of lim] by (simp add: room_def unat_word_ariths)
  have "out_text (n + 1, b(n := c)) = out_text (n, b) @ [c]"
  proof -
    have "adr i \<noteq> n" if "i < unat n" for i
    proof
      assume "adr i = n"
      moreover have "unat (adr i) = i" using that unat_bound [of n] by (intro unat_adr) simp
      ultimately show False using that by simp
    qed
    then show ?thesis unfolding out_text_def fst_conv n1 by simp
  qed
  moreover have "room lim (n + 1, b(n := c)) (length cs)" using 2(2) n1 by (simp add: room_def)
  ultimately show ?case using 2(1) by simp
qed simp

lemma put_app: "room lim o1 1 \<Longrightarrow> put lim c o1 = app o1 [c]"
  by (cases o1) (simp add: room_def put_def word_less_nat_alt)

lemma put_lim_app: "room lim o1 1 \<Longrightarrow> put_lim lim c o1 = app o1 [c]"
  by (cases o1) (simp add: room_def put_lim_def word_less_nat_alt)

lemma put_pad_app: "room lim o1 k \<Longrightarrow> put_pad lim c k o1 = app o1 (replicate k c)"
proof (induction k arbitrary: o1)
  case (Suc k)
  have "room lim o1 1" using Suc.prems by (simp add: room_def)
  moreover have "room lim (app o1 [c]) k" using Suc.prems by (intro room_app) simp
  ultimately have "put_pad lim c (Suc k) o1 = app (app o1 [c]) (replicate k c)"
    using Suc.IH by (simp add: put_app)
  then show ?case by (simp add: app_append [symmetric])
qed simp

lemma put_string_app: "room lim o1 (length s) \<Longrightarrow> put_string lim s o1 = app o1 s"
proof (induction s arbitrary: o1)
  case (Cons c s)
  have "room lim o1 1" using Cons.prems by (simp add: room_def)
  moreover have "room lim (app o1 [c]) (length s)" using Cons.prems by (intro room_app) simp
  ultimately have "put_string lim (c # s) o1 = app (app o1 [c]) s"
    using Cons.IH by (simp add: put_lim_app)
  then show ?case by (simp add: app_append [symmetric])
qed simp

subsection \<open>Decimal digits\<close>

lemma count_off_div:
  "0 < p \<Longrightarrow> count_off p u k = (k + unat u div unat p, word_of_nat (unat u mod unat p))"
proof (induction p u k rule: count_off.induct)
  case (1 p u k)
  have p: "0 < unat p" using 1(2) by (simp add: word_less_nat_alt)
  show ?case
  proof (cases "p \<le> u")
    case True
    then have le: "unat p \<le> unat u" by (simp add: word_le_nat_alt)
    have sub: "unat (u - p) = unat u - unat p" using True by (simp add: unat_sub)
    have "count_off p u k = count_off p (u - p) (k + 1)"
      using True 1(2) by (subst count_off.simps) simp
    also have "\<dots> = (k + 1 + (unat u - unat p) div unat p, word_of_nat ((unat u - unat p) mod unat p))"
      using 1 True by (simp add: sub)
    finally show ?thesis using le p by (simp add: le_div_geq le_mod_geq)
  next
    case False
    then have "unat u < unat p" by (simp add: word_le_nat_alt)
    then show ?thesis using False by (subst count_off.simps) simp
  qed
qed

fun digs :: "nat \<Rightarrow> nat \<Rightarrow> string" where
  "digs 0 u = []"
| "digs (Suc k) u = decimal_char (u div 10 ^ k) # digs k (u mod 10 ^ k)"

definition decimal_value :: "string \<Rightarrow> nat" where
  "decimal_value s = foldl (\<lambda>v c. v * 10 + (of_char c - 48)) 0 s"

lemma length_digs [simp]: "length (digs k u) = k"
  by (induction k arbitrary: u) auto

lemma of_char_decimal: "d < 10 \<Longrightarrow> of_char (decimal_char d) = (48 + d :: nat)"
  by (simp add: decimal_char_def)

lemma digs_value: "u < 10 ^ k \<Longrightarrow> foldl (\<lambda>v c. v * 10 + (of_char c - 48)) v (digs k u) = v * 10 ^ k + u"
proof (induction k arbitrary: u v)
  case (Suc k)
  have d: "u div 10 ^ k < 10" using Suc.prems by (simp add: less_mult_imp_div_less)
  have "foldl (\<lambda>v c. v * 10 + (of_char c - 48)) v (digs (Suc k) u) = (v * 10 + u div 10 ^ k) * 10 ^ k + u mod 10 ^ k"
    using Suc.IH [of "u mod 10 ^ k" "v * 10 + u div 10 ^ k"] by (simp add: of_char_decimal [OF d])
  also have "\<dots> = v * 10 ^ Suc k + u" by (simp add: algebra_simps)
  finally show ?case .
qed simp

lemma digs_digits: "u < 10 ^ k \<Longrightarrow> c \<in> set (digs k u) \<Longrightarrow> is_digit c"
proof (induction k arbitrary: u)
  case (Suc k)
  have d: "u div 10 ^ k < 10" using Suc.prems by (simp add: less_mult_imp_div_less)
  then show ?case using Suc.IH [of "u mod 10 ^ k"] Suc.prems(2) of_char_decimal [OF d] by (auto simp: is_digit_def)
qed simp

lemma powers_of_ten_nth: "k < 10 \<Longrightarrow> unat (powers_of_ten ! k) = 10 ^ k"
proof -
  assume "k < 10"
  then have "k = 0 \<or> k = 1 \<or> k = 2 \<or> k = 3 \<or> k = 4 \<or> k = 5 \<or> k = 6 \<or> k = 7 \<or> k = 8 \<or> k = 9"
    by (simp add: numeral_eq_Suc less_Suc_eq)
  then show ?thesis by (elim disjE) (simp_all add: powers_of_ten_def)
qed

lemma put_digits_app:
  "k \<le> 10 \<Longrightarrow> unat u < 10 ^ k \<Longrightarrow> room lim o1 k \<Longrightarrow> put_digits lim k u o1 = app o1 (digs k (unat u))"
proof (induction k arbitrary: u o1)
  case (Suc k)
  have p: "unat (powers_of_ten ! k) = 10 ^ k" using Suc.prems(1) by (intro powers_of_ten_nth) simp
  then have "0 < powers_of_ten ! k" by (simp add: word_less_nat_alt)
  then have c: "count_off (powers_of_ten ! k) u 0 = (unat u div 10 ^ k, word_of_nat (unat u mod 10 ^ k))"
    using count_off_div [of "powers_of_ten ! k" u 0] p by simp
  let ?u = "word_of_nat (unat u mod 10 ^ k) :: u32"
  have u: "unat ?u = unat u mod 10 ^ k"
    using unat_bound [of u] mod_less_eq_dividend [of "unat u" "10 ^ k"] by (intro unat_adr) linarith
  have "room lim o1 1" "room lim (app o1 [decimal_char (unat u div 10 ^ k)]) k"
    using Suc.prems(3) by (simp add: room_def, intro room_app, simp)
  then have "put_digits lim (Suc k) u o1 = app (app o1 [decimal_char (unat u div 10 ^ k)]) (digs k (unat u mod 10 ^ k))"
    using Suc.IH [of ?u] Suc.prems(1) by (simp add: c u put_app)
  then show ?case by (simp add: app_append [symmetric])
qed simp

text \<open>The digit count is the length of the decimal representation.\<close>

lemma req_digits_bounds:
  fixes u :: u32
  defines "r \<equiv> req_digits powers_of_ten u"
  shows "1 \<le> r" "r \<le> 10" "unat u < 10 ^ r" "1 < r \<Longrightarrow> 10 ^ (r - 1) \<le> unat u"
proof -
  let ?t = "length (takeWhile (\<lambda>p. p \<le> u) powers_of_ten)"
  have len: "length powers_of_ten = 10" by (simp add: powers_of_ten_def)
  have r: "r = (if ?t = 0 then 1 else ?t)" by (simp add: r_def req_digits_def Let_def)
  have t10: "?t \<le> 10" using length_takeWhile_le [of "\<lambda>p. p \<le> u" powers_of_ten] len by simp
  show "1 \<le> r" "r \<le> 10" using r t10 by (auto simp only: Suc_le_eq neq0_conv One_nat_def split: if_splits)
  have stop: "unat u < 10 ^ ?t" if "?t < 10"
    using nth_length_takeWhile [of "\<lambda>p. p \<le> u" powers_of_ten] that len powers_of_ten_nth [OF that]
    by (simp add: word_le_nat_alt)
  have low: "10 ^ k \<le> unat u" if "k < ?t" for k
  proof -
    have "powers_of_ten ! k \<in> set (takeWhile (\<lambda>p. p \<le> u) powers_of_ten)"
      using that takeWhile_nth [OF that] by (metis nth_mem)
    then have "powers_of_ten ! k \<le> u" by (auto dest: set_takeWhileD)
    then show ?thesis using powers_of_ten_nth [of k] that t10 by (simp add: word_le_nat_alt)
  qed
  show "unat u < 10 ^ r"
  proof (cases "?t < 10")
    case True
    then show ?thesis using stop r by (auto split: if_splits)
  next
    case False
    then have "r = 10" using r t10 by auto
    then show ?thesis using unat_bound [of u] by simp
  qed
  show "10 ^ (r - 1) \<le> unat u" if "1 < r"
    using low [of "r - 1"] that r by (auto split: if_splits)
qed

text \<open>The decimal representation of a number below \<open>2 ^ 32\<close>.\<close>

definition decimal :: "u32 \<Rightarrow> string" where
  "decimal u = digs (req_digits powers_of_ten u) (unat u)"

lemma decimal_spec:
  "decimal_value (decimal u) = unat u" "list_all is_digit (decimal u)" "decimal u \<noteq> []"
  "length (decimal u) \<le> 10" "hd (decimal u) = CHR ''0'' \<Longrightarrow> decimal u = ''0''"
proof -
  let ?r = "req_digits powers_of_ten u"
  note b = req_digits_bounds [of u]
  show "decimal_value (decimal u) = unat u"
    using digs_value [OF b(3), of 0] by (simp add: decimal_value_def decimal_def)
  show "list_all is_digit (decimal u)"
    using digs_digits [OF b(3)] by (simp add: decimal_def list_all_iff)
  show "decimal u \<noteq> []" "length (decimal u) \<le> 10" using b(1,2) by (auto simp: decimal_def dest: arg_cong [of _ _ length])
  show "decimal u = ''0''" if h: "hd (decimal u) = CHR ''0''"
  proof -
    obtain k where k: "?r = Suc k" using b(1) by (cases ?r) auto
    have d: "unat u div 10 ^ k < 10" using b(3) k by (simp add: less_mult_imp_div_less)
    have "decimal_char (unat u div 10 ^ k) = CHR ''0''" using h by (simp add: decimal_def k)
    then have "(48 + unat u div 10 ^ k :: nat) = 48" using of_char_decimal [OF d] by simp
    then have lt: "unat u < 10 ^ k" by (simp add: div_eq_0_iff)
    have "k = 0" using b(4) k lt by (cases k) auto
    moreover have "decimal_char 0 = CHR ''0''" by code_simp
    ultimately show ?thesis using lt by (simp add: decimal_def k)
  qed
qed

definition sign_text :: "char \<Rightarrow> u32 \<Rightarrow> string \<times> u32" where
  "sign_text ch u = (if ch \<noteq> CHR ''u'' \<and> bit u 31 then (''-'', - u) else ([], u))"

lemma and_bit31: "(u :: u32) AND 0x80000000 \<noteq> 0 \<longleftrightarrow> bit u 31"
proof -
  have "(0x80000000 :: u32) = 2 ^ 31" by simp
  then show ?thesis by (simp only: and_exp_eq_0_iff_not_bit not_not)
qed

lemma put_d_app:
  assumes sg: "sign_text ch u = (sg, v)" and w: "\<not> (flags AND PF_HAVE_FIELD_WIDTH \<noteq> 0 \<and> field_width = 0 \<and> u = 0)"
    and r: "room lim o1 (length sg + max (nat field_width) (length (decimal v)))"
  shows "put_d lim ch flags field_width u o1 =
    app o1 (sg @ replicate (nat field_width - length (decimal v))
       (if flags AND PF_LEADING_ZERO \<noteq> 0 then CHR ''0'' else CHR '' '') @ decimal v)"
proof -
  let ?pad = "if flags AND PF_LEADING_ZERO \<noteq> 0 then CHR ''0'' else CHR '' ''"
  let ?q = "req_digits powers_of_ten v"
  let ?p = "max (nat field_width) ?q - ?q"
  have len: "length (decimal v) = ?q" by (simp add: decimal_def)
  let ?neg = "ch \<noteq> CHR ''u'' \<and> u AND 0x80000000 \<noteq> 0"
  have v: "(if ?neg then NOT u + 1 else u) = v" and o2: "(if ?neg then put lim CHR ''-'' o1 else o1) = app o1 sg"
    using sg r put_app [of lim o1 "CHR ''-''"]
    by (auto simp: sign_text_def and_bit31 room_def minus_eq_not_plus_1 split: if_splits)
  have r1: "room lim (app o1 sg) (?p + ?q)"
    by (rule room_app) (use r len in \<open>simp add: room_def\<close>)
  then have pad: "put_pad lim ?pad ?p (app o1 sg) = app (app o1 sg) (replicate ?p ?pad)"
    by (intro put_pad_app) (simp add: room_def)
  have r2: "room lim (app (app o1 sg) (replicate ?p ?pad)) ?q"
    by (rule room_app) (use r1 in simp)
  note b = req_digits_bounds [of v]
  have "put_d lim ch flags field_width u o1 = put_digits lim ?q v (put_pad lim ?pad ?p (app o1 sg))"
    unfolding put_d_def if_not_P [OF w] Let_def v o2 by simp
  also have "\<dots> = app (app (app o1 sg) (replicate ?p ?pad)) (decimal v)"
    unfolding pad using put_digits_app [OF b(2,3) r2] by (simp add: decimal_def)
  finally show ?thesis
    unfolding len by (simp add: app_append max_def)
qed

end
