(* ===== verification/Format.thy ===== *)
theory Format
  imports Printf
begin

text \<open>
  What \<^verbatim>\<open>snprintf\<close> promises: a reference formatter for the directives the kernel uses (literal
  characters, \<^verbatim>\<open>%d %i %u %x %X %s %c\<close> with an optional field width), the refinement of it by
  the model of \<^verbatim>\<open>vsnprintf\<close>, the bounds of what is written, and three defects.
\<close>

subsection \<open>Numerals\<close>

function numeral_text :: "nat \<Rightarrow> string \<Rightarrow> nat \<Rightarrow> string" where
  "numeral_text base digits u =
     (if u < base \<or> base < 2 then [digits ! u]
      else numeral_text base digits (u div base) @ [digits ! (u mod base)])"
  by pat_completeness auto

termination by (relation "measure (\<lambda>(base, digits, u). u)") auto

declare numeral_text.simps [simp del]

definition decimal_text :: "u32 \<Rightarrow> string" where
  "decimal_text u = numeral_text 10 ''0123456789'' (unat u)"

definition hex_text :: "char \<Rightarrow> u32 \<Rightarrow> string" where
  "hex_text ch u = numeral_text 16 (hex_digits ch) (unat u)"

text \<open>The digits of the lowest \<open>k\<close> places.\<close>

definition places :: "nat \<Rightarrow> string \<Rightarrow> nat \<Rightarrow> nat \<Rightarrow> string" where
  "places base digits k u = map (\<lambda>i. digits ! (u div base ^ i mod base)) (rev [0..<k])"

lemma places_Suc: "places base digits (Suc k) u = (digits ! (u div base ^ k mod base)) # places base digits k u"
  by (simp add: places_def)

lemma length_places [simp]: "length (places base digits k u) = k"
  by (simp add: places_def)

lemma places_snoc: "places base digits (Suc k) u = places base digits k (u div base) @ [digits ! (u mod base)]"
  by (induction k) (simp_all add: places_Suc, simp_all add: places_def div_mult2_eq)

lemma places_numeral:
  "1 < base \<Longrightarrow> u < base ^ Suc k \<Longrightarrow> k = 0 \<or> base ^ k \<le> u \<Longrightarrow>
   places base digits (Suc k) u = numeral_text base digits u"
proof (induction k arbitrary: u)
  case 0
  then show ?case by (subst numeral_text.simps) (simp add: places_def)
next
  case (Suc k)
  have "base * 1 \<le> base * base ^ k" using Suc.prems(1) by (intro mult_le_mono2) simp
  also have "base * base ^ k \<le> u" using Suc.prems(3) by simp
  finally have ge: "base \<le> u" by simp
  have "u div base < base ^ Suc k" using Suc.prems by (simp add: less_mult_imp_div_less mult.commute)
  moreover have "base ^ k \<le> u div base"
    using Suc.prems div_le_mono [of "base ^ Suc k" u base] by simp
  ultimately have "places base digits (Suc k) (u div base) = numeral_text base digits (u div base)"
    using Suc.IH Suc.prems(1) by simp
  then have "places base digits (Suc (Suc k)) u = numeral_text base digits (u div base) @ [digits ! (u mod base)]"
    by (simp only: places_snoc)
  also have "\<dots> = numeral_text base digits u"
    using ge Suc.prems(1) by (subst (2) numeral_text.simps) simp
  finally show ?case .
qed

lemma decimal_char_nth: "d < 10 \<Longrightarrow> decimal_char d = ''0123456789'' ! d"
proof -
  assume "d < 10"
  then have "d = 0 \<or> d = 1 \<or> d = 2 \<or> d = 3 \<or> d = 4 \<or> d = 5 \<or> d = 6 \<or> d = 7 \<or> d = 8 \<or> d = 9"
    by (simp add: numeral_eq_Suc less_Suc_eq)
  then show ?thesis by (elim disjE) (hypsubst, code_simp)+
qed

lemma digs_places: "u < 10 ^ k \<Longrightarrow> digs k u = places 10 ''0123456789'' k u"
proof -
  have m: "places 10 ''0123456789'' k (u mod 10 ^ k) = places 10 ''0123456789'' k u" for k u
  proof -
    have "u mod 10 ^ k div 10 ^ i mod 10 = u div 10 ^ i mod (10 :: nat)" if "i < k" for i
    proof -
      have "(10 :: nat) ^ k = 10 ^ i * (10 * 10 ^ (k - Suc i))"
        using that by (simp add: power_add [symmetric] flip: power_Suc)
      then have "u mod 10 ^ k div 10 ^ i = u div 10 ^ i mod (10 * 10 ^ (k - Suc i))"
        by (simp add: mod_mult2_eq)
      then show ?thesis by (simp add: mod_mult2_eq)
    qed
    then show ?thesis by (simp add: places_def)
  qed
  show "u < 10 ^ k \<Longrightarrow> digs k u = places 10 ''0123456789'' k u"
  proof (induction k arbitrary: u)
    case (Suc k)
    have "u div 10 ^ k < 10" using Suc.prems by (simp add: less_mult_imp_div_less)
    then show ?case
      using Suc.IH [of "u mod 10 ^ k"] by (simp add: places_Suc m decimal_char_nth)
  qed (simp add: places_def)
qed

lemma decimal_is_text: "decimal u = decimal_text u"
proof -
  note b = req_digits_bounds [of u]
  obtain k where k: "req_digits powers_of_ten u = Suc k" using b(1) by (cases "req_digits powers_of_ten u") auto
  have "k = 0 \<or> 10 ^ k \<le> unat u" using b(4) k by (cases k) auto
  then show ?thesis
    using b(3) places_numeral [of 10 "unat u" k "''0123456789''"]
    by (simp add: decimal_def decimal_text_def digs_places k del: power_Suc digs.simps)
qed

subsection \<open>Hexadecimal output\<close>

lemma nybble_div: "unat (drop_bit (4 * k) u AND 0xf) = unat (u :: u32) div 16 ^ k mod 16"
proof -
  have "drop_bit (4 * k) u AND 0xf = take_bit 4 (drop_bit (4 * k) u)"
    by (simp add: take_bit_eq_mask mask_eq_exp_minus_1)
  then have "unat (drop_bit (4 * k) u AND 0xf) = take_bit 4 (drop_bit (4 * k) (unat u))"
    using unat_bound [of u] by (simp add: unsigned_take_bit_eq unsigned_drop_bit_eq take_bit_nat_eq_self)
  also have "\<dots> = unat u div 16 ^ k mod 16"
    by (simp add: take_bit_eq_mod drop_bit_eq_div power_mult)
  finally show ?thesis .
qed

lemma hex0 [simp]: "hex_digits ch ! 0 = CHR ''0''"
  by (simp add: hex_digits_def)

lemma put_nybbles_started:
  fixes u :: u32
  assumes "hex ! 0 = CHR ''0''"
  shows "room lim o1 k \<Longrightarrow> put_nybbles lim hex w k u CHR ''0'' True o1 = app o1 (places 16 hex k (unat u))"
proof (induction k arbitrary: o1)
  case (Suc k)
  have r1: "room lim o1 1" using Suc.prems by (simp add: room_def)
  have r2: "room lim (app o1 [c]) k" for c by (rule room_app) (use Suc.prems in simp)
  have v: "unat (drop_bit (4 * k) u AND 0xf) = unat u div 16 ^ k mod 16" by (rule nybble_div)
  then have z: "drop_bit (4 * k) u AND 0xf = 0 \<longleftrightarrow> unat u div 16 ^ k mod 16 = 0" by (metis unat_eq_0)
  have "put_nybbles lim hex w (Suc k) u CHR ''0'' True o1 =
        put_nybbles lim hex w k u CHR ''0'' True (put lim (hex ! (unat u div 16 ^ k mod 16)) o1)"
    using z v by (simp add: Let_def assms)
  also have "\<dots> = app (app o1 [hex ! (unat u div 16 ^ k mod 16)]) (places 16 hex k (unat u))"
    using Suc.IH [OF r2] by (simp add: put_app [OF r1])
  finally show ?case by (simp add: places_Suc flip: app_append)
qed (simp add: places_def)

text \<open>The number of significant digits among \<open>k\<close> places, at least one.\<close>

fun sig_places :: "nat \<Rightarrow> nat \<Rightarrow> nat" where
  "sig_places 0 u = 0"
| "sig_places (Suc k) u = (if u div 16 ^ k mod 16 \<noteq> 0 \<or> k = 0 then Suc k else sig_places k u)"

lemma sig_places_bounds: "sig_places k u \<le> k" "0 < k \<Longrightarrow> 0 < sig_places k u"
  by (induction k) auto

lemma put_nybbles_app:
  fixes u :: u32
  assumes h: "hex ! 0 = CHR ''0''"
  shows "room lim o1 (max (min w k) (sig_places k (unat u))) \<Longrightarrow>
    put_nybbles lim hex (int w * 4) k u pad (k < w) o1 =
    app o1 (replicate (min w k - sig_places k (unat u)) pad @ places 16 hex (sig_places k (unat u)) (unat u))"
proof (induction k arbitrary: o1)
  case (Suc k)
  have v: "unat (drop_bit (4 * k) u AND 0xf) = unat u div 16 ^ k mod 16" by (rule nybble_div)
  then have z: "drop_bit (4 * k) u AND 0xf = 0 \<longleftrightarrow> unat u div 16 ^ k mod 16 = 0" by (metis unat_eq_0)
  have st: "(Suc k < w \<or> int (4 * k) < int w * 4) = (k < w)" by auto
  have r1: "room lim o1 1" using Suc.prems sig_places_bounds(2) [of "Suc k" "unat u"] by (auto simp: room_def)
  show ?case
  proof (cases "unat u div 16 ^ k mod 16 \<noteq> 0 \<or> k = 0")
    case True
    have r2: "room lim (app o1 [c]) k" for c
      by (rule room_app) (use True Suc.prems in \<open>simp add: room_def\<close>)
    have "put_nybbles lim hex (int w * 4) (Suc k) u pad (Suc k < w) o1 =
      put_nybbles lim hex (int w * 4) k u CHR ''0'' True (put lim (hex ! (unat u div 16 ^ k mod 16)) o1)"
      using True z v by (auto simp: Let_def)
    also have "\<dots> = app (app o1 [hex ! (unat u div 16 ^ k mod 16)]) (places 16 hex k (unat u))"
      using put_nybbles_started [OF h r2] by (simp add: put_app [OF r1])
    finally show ?thesis using True by (auto simp: places_Suc simp flip: app_append)
  next
    case False
    then have s: "sig_places (Suc k) (unat u) = sig_places k (unat u)" by simp
    have le: "sig_places k (unat u) \<le> k" by (rule sig_places_bounds)
    have step: "put_nybbles lim hex (int w * 4) (Suc k) u pad (Suc k < w) o1 =
      (if k < w then put_nybbles lim hex (int w * 4) k u pad True (put lim pad o1)
       else put_nybbles lim hex (int w * 4) k u pad False o1)"
      using False z unfolding put_nybbles.simps Let_def st by simp
    show ?thesis
    proof (cases "k < w")
      case True
      have "room lim (app o1 [pad]) (max (min w k) (sig_places k (unat u)))"
        by (rule room_app) (use True le Suc.prems in \<open>simp add: s room_def del: sig_places.simps\<close>)
      then have "put_nybbles lim hex (int w * 4) (Suc k) u pad (Suc k < w) o1 = app (app o1 [pad])
        (replicate (min w k - sig_places k (unat u)) pad @ places 16 hex (sig_places k (unat u)) (unat u))"
        using Suc.IH [of "app o1 [pad]"] True by (simp only: step put_app [OF r1] if_True)
      moreover have "min w (Suc k) - sig_places k (unat u) = Suc (min w k - sig_places k (unat u))"
        using True le by simp
      ultimately show ?thesis by (simp only: s app_append [symmetric] replicate_Suc append_Cons append_Nil)
    next
      case f: False
      have "room lim o1 (max (min w k) (sig_places k (unat u)))"
        using Suc.prems f by (simp add: s room_def del: sig_places.simps)
      then show ?thesis unfolding step s using Suc.IH [of o1] f by simp
    qed
  qed
qed (simp add: places_def)

lemma sig_places_text:
  assumes "u < 16 ^ k" "0 < k"
  shows "places 16 hex (sig_places k u) u = numeral_text 16 hex u"
  using assms
proof (induction k)
  case (Suc k)
  show ?case
  proof (cases "u div 16 ^ k mod 16 \<noteq> 0 \<or> k = 0")
    case True
    then have "k = 0 \<or> 16 ^ k \<le> u"
      by (metis bot_nat_0.not_eq_extremum div_less linorder_not_less mod_0)
    then show ?thesis using True Suc.prems places_numeral [of 16 u k hex] by (simp del: power_Suc)
  next
    case False
    have "u div 16 ^ k < 16" using Suc.prems by (simp add: less_mult_imp_div_less)
    then have "u < 16 ^ k" using False by (simp add: div_eq_0_iff)
    then show ?thesis using False Suc.IH by simp
  qed
qed simp

lemma put_x_app:
  fixes u :: u32
  assumes ch: "ch = CHR ''x'' \<or> ch = CHR ''X''"
    and r: "room lim o1 (max w (length (hex_text ch u)))"
  shows "put_x lim ch flags (int w) 8 u o1 =
    app o1 (replicate (w - length (hex_text ch u))
       (if flags AND PF_LEADING_ZERO \<noteq> 0 then CHR ''0'' else CHR '' '') @ hex_text ch u)"
proof -
  let ?pad = "if flags AND PF_LEADING_ZERO \<noteq> 0 then CHR ''0'' else CHR '' ''"
  let ?s = "sig_places 8 (unat u)" let ?hex = "hex_digits ch" let ?m = "min w 8"
  have t: "places 16 ?hex ?s (unat u) = hex_text ch u"
    using unat_bound [of u] unfolding hex_text_def by (intro sig_places_text) simp_all
  then have len: "length (hex_text ch u) = ?s" by (metis length_places)
  have s8: "?s \<le> 8" by (rule sig_places_bounds)
  have r0: "room lim o1 (w - 8)" using r by (auto simp: room_def)
  have r1: "room lim (app o1 (replicate (w - 8) ?pad)) (max (min ?m 8) ?s)"
    by (rule room_app) (use r s8 in \<open>auto simp: room_def len\<close>)
  have pre: "put_p_prefix lim ch flags (int w) o1 = (int w, ?pad, o1)"
    using ch by (auto simp: put_p_prefix_def split: prod.splits)
  have m: "(if int w > int 8 then int 8 else int w) * 4 = int ?m * 4" by auto
  have pd: "nat (int w - int 8) = w - 8" by simp
  have "put_x lim ch flags (int w) 8 u o1 = put_nybbles lim ?hex (int ?m * 4) 8 u ?pad (8 < ?m) (put_pad lim ?pad (w - 8) o1)"
    unfolding put_x_def pre prod.case Let_def m pd by simp
  also have "\<dots> = app (app o1 (replicate (w - 8) ?pad)) (replicate (?m - ?s) ?pad @ hex_text ch u)"
    using put_nybbles_app [OF hex0 r1, where pad = ?pad] by (simp only: put_pad_app [OF r0] t min.idem min.assoc)
  also have "\<dots> = app o1 ((replicate (w - 8) ?pad @ replicate (?m - ?s) ?pad) @ hex_text ch u)"
    by (simp only: app_append append_assoc)
  also have "replicate (w - 8) ?pad @ replicate (?m - ?s) ?pad = replicate (w - ?s) ?pad"
    using s8 by (simp only: replicate_add [symmetric]) (rule arg_cong [where f = "\<lambda>k. replicate k ?pad"], simp)
  finally show ?thesis by (simp only: len)
qed

subsection \<open>The reference formatter\<close>

text \<open>Directives; the string of the numeric and string directives is the field width as written.\<close>

datatype directive = Lit char | Dec char string | Hex char string | Str string | Chr

definition width_ok :: "string \<Rightarrow> bool" where
  "width_ok ws \<longleftrightarrow> list_all is_digit ws \<and> decimal_value ws \<le> 2147483647"

fun directive_ok :: "directive \<Rightarrow> bool" where
  "directive_ok (Lit c) \<longleftrightarrow> c \<noteq> CHR ''%'' \<and> c \<noteq> CHR 0x5C"
| "directive_ok (Dec ch ws) \<longleftrightarrow> ch \<in> {CHR ''d'', CHR ''i'', CHR ''u''} \<and> width_ok ws"
| "directive_ok (Hex ch ws) \<longleftrightarrow> ch \<in> {CHR ''x'', CHR ''X''} \<and> width_ok ws"
| "directive_ok (Str ws) \<longleftrightarrow> width_ok ws"
| "directive_ok Chr \<longleftrightarrow> True"

fun directive_fmt :: "directive \<Rightarrow> string" where
  "directive_fmt (Lit c) = [c]"
| "directive_fmt (Dec ch ws) = CHR ''%'' # ws @ [ch]"
| "directive_fmt (Hex ch ws) = CHR ''%'' # ws @ [ch]"
| "directive_fmt (Str ws) = CHR ''%'' # ws @ ''s''"
| "directive_fmt Chr = ''%c''"

definition field_pad :: "string \<Rightarrow> char" where
  "field_pad ws = (if ws \<noteq> [] \<and> hd ws = CHR ''0'' then CHR ''0'' else CHR '' '')"

text \<open>
  The field width does not count the sign, the padding follows the sign, a zero in a field of
  width zero is not printed, and strings are padded on the right.
\<close>

definition dec_field :: "char \<Rightarrow> string \<Rightarrow> u32 \<Rightarrow> string" where
  "dec_field ch ws u =
     (if ws \<noteq> [] \<and> decimal_value ws = 0 \<and> u = 0 then []
      else case sign_text ch u of
        (sg, v) \<Rightarrow> sg @ replicate (decimal_value ws - length (decimal_text v)) (field_pad ws) @ decimal_text v)"

fun directive_text :: "directive \<Rightarrow> arg list \<Rightarrow> (string \<times> arg list) option" where
  "directive_text (Lit c) args = Some ([c], args)"
| "directive_text (Dec ch ws) (A32 u # args) = Some (dec_field ch ws u, args)"
| "directive_text (Hex ch ws) (A32 u # args) =
     Some (replicate (decimal_value ws - length (hex_text ch u)) (field_pad ws) @ hex_text ch u, args)"
| "directive_text (Str ws) (AStr so # args) =
     (let s = (case so of None \<Rightarrow> ''(null)'' | Some s \<Rightarrow> s)
      in Some (s @ replicate (decimal_value ws - length s) CHR '' '', args))"
| "directive_text Chr (A32 u # args) = Some ([char_of (unat u)], args)"
| "directive_text _ _ = None"

fun_cases directive_text_DecE: "directive_text (Dec ch ws) args = Some (t, args')"
fun_cases directive_text_HexE: "directive_text (Hex ch ws) args = Some (t, args')"
fun_cases directive_text_StrE: "directive_text (Str ws) args = Some (t, args')"
fun_cases directive_text_ChrE: "directive_text Chr args = Some (t, args')"

fun render :: "directive list \<Rightarrow> arg list \<Rightarrow> string option" where
  "render [] args = Some []"
| "render (d # ds) args =
     (case directive_text d args of
        None \<Rightarrow> None
      | Some (t, args) \<Rightarrow> map_option ((@) t) (render ds args))"

definition fmt_string :: "directive list \<Rightarrow> string" where
  "fmt_string ds = concat (map directive_fmt ds)"

subsection \<open>Parsing a field width\<close>

lemma digit_of_nat: "is_digit c \<Longrightarrow> digit_of c = int (of_char c - 48)"
  using of_nat_of_char [of c, where 'a = int, symmetric]
  by (simp add: is_digit_def digit_of_def of_nat_diff del: of_nat_of_char)

lemma digit_char_plain:
  "is_digit c \<Longrightarrow> c \<noteq> CHR ''.'' \<and> c \<noteq> CHR ''%'' \<and> c \<noteq> CHR ''-'' \<and> c \<noteq> CHR ''l'' \<and> c \<noteq> CHR ''h''"
  by (auto simp: is_digit_def)

lemma foldl_digits_mono: "(v :: nat) \<le> foldl (\<lambda>v c. v * 10 + (of_char c - 48)) v ws"
proof (induction ws arbitrary: v)
  case (Cons c ws)
  have "v \<le> v * 10 + (of_char c - 48)" by simp
  then show ?case using Cons [of "v * 10 + (of_char c - 48)"] by simp
qed simp

definition width_flags :: "string \<Rightarrow> u32" where
  "width_flags ws = (if ws = [] then 0 else if hd ws = CHR ''0'' then 0x30 else 0x20)"

lemma parse_width_more:
  assumes f: "f = 0x20 \<or> f = 0x30" and ch: "\<not> is_digit ch" "ch \<noteq> CHR ''.''"
  shows "list_all is_digit ws \<Longrightarrow> foldl (\<lambda>v c. v * 10 + (of_char c - 48)) v ws \<le> 2147483647 \<Longrightarrow>
    parse_width (ws @ ch # rest) f (int v) p =
    Some (ch # rest, f, int (foldl (\<lambda>v c. v * 10 + (of_char c - 48)) v ws), p)"
proof (induction ws arbitrary: v)
  case (Cons c ws)
  let ?v = "v * 10 + (of_char c - 48)"
  have c: "is_digit c" "c \<noteq> CHR ''.''" using Cons.prems(1) digit_char_plain by auto
  have "?v \<le> 2147483647" using foldl_digits_mono [of ?v ws] Cons.prems(2) by simp
  then have "\<not> int v * 10 + digit_of c > 2147483647" "int v * 10 + digit_of c = int ?v"
    unfolding digit_of_nat [OF c(1)] by linarith+
  then have "parse_width ((c # ws) @ ch # rest) f (int v) p = parse_width (ws @ ch # rest) f (int ?v) p"
    using c f by (auto simp: Let_def)
  then show ?case using Cons.IH [of ?v] Cons.prems by simp
qed (use ch in simp)

lemma parse_width_digits:
  assumes ws: "width_ok ws" and ch: "\<not> is_digit ch" "ch \<noteq> CHR ''.''"
  shows "parse_width (ws @ ch # rest) 0 0 0 = Some (ch # rest, width_flags ws, int (decimal_value ws), 0)"
proof (cases ws)
  case Nil
  then show ?thesis using ch by (simp add: width_flags_def decimal_value_def)
next
  case (Cons c vs)
  let ?v = "of_char c - 48 :: nat" and ?f = "width_flags ws"
  have c: "is_digit c" "c \<noteq> CHR ''.''" and vs: "list_all is_digit vs"
    using ws digit_char_plain by (auto simp: width_ok_def Cons)
  have val: "decimal_value ws = foldl (\<lambda>v c. v * 10 + (of_char c - 48)) ?v vs" by (simp add: decimal_value_def Cons)
  have le: "foldl (\<lambda>v c. v * 10 + (of_char c - 48)) ?v vs \<le> 2147483647" using ws by (simp add: width_ok_def val)
  then have "?v \<le> 2147483647" using foldl_digits_mono [of ?v vs] by linarith
  then have "parse_width (ws @ ch # rest) 0 0 0 = parse_width (vs @ ch # rest) ?f (int ?v) 0"
    using c digit_of_nat [OF c(1)] by (auto simp: Let_def Cons width_flags_def)
  also have "\<dots> = Some (ch # rest, ?f, int (decimal_value ws), 0)"
    unfolding val by (rule parse_width_more [OF _ ch vs le]) (simp add: width_flags_def Cons)
  finally show ?thesis .
qed

lemma format_loop_directive:
  assumes ws: "width_ok ws" and ch: "ch \<in> {CHR ''d'', CHR ''i'', CHR ''u'', CHR ''x'', CHR ''X'', CHR ''s'', CHR ''c''}"
  shows "format_loop lim (CHR ''%'' # ws @ ch # rest) args o1 =
    (case convert lim ch (width_flags ws) (int (decimal_value ws)) 0 args o1 of
       None \<Rightarrow> None | Some (args, o1) \<Rightarrow> format_loop lim rest args o1)"
proof -
  have nd: "\<not> is_digit ch" "ch \<noteq> CHR ''.''" "ch \<noteq> CHR ''%''" "ch \<noteq> CHR ''-''" "ch \<noteq> CHR ''l''" "ch \<noteq> CHR ''h''"
    using ch by (auto simp: is_digit_def)
  have h: "hd (ws @ ch # rest) \<noteq> CHR ''%'' \<and> hd (ws @ ch # rest) \<noteq> CHR ''-''"
    using ws nd digit_char_plain by (cases ws) (auto simp: width_ok_def)
  have "parse_length (ch # rest) f = (ch # rest, f)" for f using nd by simp
  then show ?thesis using h parse_width_digits [OF ws nd(1,2)] by simp
qed

lemma width_flags_simps:
  "width_flags ws AND PF_LONG_LONG = 0" "width_flags ws AND PF_NEG_FIELD_WIDTH = 0"
  "width_flags ws AND PF_HAVE_FIELD_WIDTH \<noteq> 0 \<longleftrightarrow> ws \<noteq> []"
  "width_flags ws AND PF_LEADING_ZERO \<noteq> 0 \<longleftrightarrow> ws \<noteq> [] \<and> hd ws = CHR ''0''"
  by (simp_all add: width_flags_def)

subsection \<open>The formatter prints the reference text\<close>

lemma put_lim_pad_app: "room lim o1 k \<Longrightarrow> put_lim_pad lim k o1 = app o1 (replicate k CHR '' '')"
proof (induction k arbitrary: o1)
  case (Suc k)
  have r1: "room lim o1 1" using Suc.prems by (simp add: room_def)
  have "room lim (app o1 '' '') k" by (rule room_app) (use Suc.prems in simp)
  then have "put_lim_pad lim (Suc k) o1 = app (app o1 '' '') (replicate k CHR '' '')"
    using Suc.IH by (simp add: put_lim_app [OF r1])
  then show ?case by (simp flip: app_append)
qed simp

lemma put_s_app:
  assumes s: "s = (case so of None \<Rightarrow> ''(null)'' | Some s \<Rightarrow> s)"
    and neg: "flags AND PF_NEG_FIELD_WIDTH = 0"
    and r: "room lim o1 (max w (length s))"
  shows "put_s lim flags (int w) 0 so o1 = app o1 (s @ replicate (w - length s) CHR '' '')"
proof -
  have rs: "room lim o1 (length s)" using r by (simp add: room_def)
  have rp: "room lim (app o1 s) (w - length s)" by (rule room_app) (use r in \<open>simp add: room_def\<close>)
  have nd: "nat (int w - int (length s)) = w - length s" by simp
  have "put_s lim flags (int w) 0 so o1 = (if w \<noteq> 0 then put_lim_pad lim (w - length s) (put_string lim s o1) else put_string lim s o1)"
    using neg nd unfolding put_s_def s [symmetric] by (simp add: Let_def)
  then show ?thesis
    using put_lim_pad_app [OF rp] by (simp add: put_string_app [OF rs] app_append)
qed

lemma convert_app:
  assumes ok: "directive_ok d" and t: "directive_text d args = Some (t, args')" and r: "room lim o1 (length t)"
  shows "format_loop lim (directive_fmt d @ rest) args o1 = format_loop lim rest args' (app o1 t)"
proof (cases d)
  case (Lit c)
  then show ?thesis using assms by (auto simp: put_app)
next
  case (Dec ch ws)
  obtain u where a: "args = A32 u # args'" and u: "t = dec_field ch ws u"
    using t unfolding Dec by (elim directive_text_DecE) auto
  have ch: "ch \<in> {CHR ''d'', CHR ''i'', CHR ''u''}" and ws: "width_ok ws" using ok Dec by auto
  have "put_d lim ch (width_flags ws) (int (decimal_value ws)) u o1 = app o1 t"
  proof (cases "ws \<noteq> [] \<and> decimal_value ws = 0 \<and> u = 0")
    case True
    then show ?thesis by (simp add: u dec_field_def put_d_def width_flags_simps)
  next
    case False
    obtain sg v where sv: "sign_text ch u = (sg, v)" by (cases "sign_text ch u")
    have "put_d lim ch (width_flags ws) (int (decimal_value ws)) u o1 =
      app o1 (sg @ replicate (nat (int (decimal_value ws)) - length (decimal v))
       (if width_flags ws AND PF_LEADING_ZERO \<noteq> 0 then CHR ''0'' else CHR '' '') @ decimal v)"
      using False r sv
      by (intro put_d_app [OF sv])
         (auto simp: width_flags_simps u dec_field_def room_def decimal_is_text max_def split: if_splits)
    then show ?thesis
      using False sv by (auto simp: u dec_field_def width_flags_simps field_pad_def decimal_is_text)
  qed
  then show ?thesis
    using ch format_loop_directive [OF ws, of ch lim rest args o1]
    by (auto simp: Dec a convert_def width_flags_simps)
next
  case (Hex ch ws)
  obtain u where a: "args = A32 u # args'"
    and u: "t = replicate (decimal_value ws - length (hex_text ch u)) (field_pad ws) @ hex_text ch u"
    using t unfolding Hex by (elim directive_text_HexE) auto
  have ch: "ch = CHR ''x'' \<or> ch = CHR ''X''" and ws: "width_ok ws" using ok Hex by auto
  have "room lim o1 (max (decimal_value ws) (length (hex_text ch u)))" using r by (auto simp: u room_def max_def split: if_splits)
  note put_x_app [OF ch this, where flags = "width_flags ws"]
  then have "put_x lim ch (width_flags ws) (int (decimal_value ws)) 8 u o1 = app o1 t"
    by (simp add: u width_flags_simps field_pad_def)
  then show ?thesis
    using ch format_loop_directive [OF ws, of ch lim rest args o1]
    by (auto simp: Hex a convert_def width_flags_simps)
next
  case (Str ws)
  obtain so where a: "args = AStr so # args'"
    using t unfolding Str by (elim directive_text_StrE) (auto simp: Let_def)
  define s where "s = (case so of None \<Rightarrow> ''(null)'' | Some s \<Rightarrow> s)"
  have u: "t = s @ replicate (decimal_value ws - length s) CHR '' ''" using t Str a by (simp add: s_def Let_def)
  have ws: "width_ok ws" using ok Str by auto
  have "room lim o1 (max (decimal_value ws) (length s))" using r by (auto simp: u room_def max_def split: if_splits)
  note put_s_app [OF s_def width_flags_simps(2) this, where ws1 = ws]
  then show ?thesis
    using format_loop_directive [OF ws, of "CHR ''s''" lim rest args o1]
    by (simp add: Str a u convert_def)
next
  case Chr
  obtain u where a: "args = A32 u # args'" and u: "t = [char_of (unat u)]"
    using t unfolding Chr by (elim directive_text_ChrE) auto
  have r1: "room lim o1 1" using r by (simp add: u)
  then have "fst o1 < lim" by (simp add: room_def word_less_nat_alt)
  then show ?thesis
    using format_loop_directive [of "[]" "CHR ''c''" lim rest args o1]
    by (simp add: Chr a u convert_def put_app [OF r1] width_ok_def decimal_value_def)
qed

lemma format_loop_render:
  "list_all directive_ok ds \<Longrightarrow> render ds args = Some t \<Longrightarrow> room lim o1 (length t) \<Longrightarrow>
   format_loop lim (fmt_string ds) args o1 = Some (app o1 t)"
proof (induction ds arbitrary: args t o1)
  case Nil
  then show ?case by (simp add: fmt_string_def)
next
  case (Cons d ds)
  obtain t1 args1 t2 where t1: "directive_text d args = Some (t1, args1)"
    and t2: "render ds args1 = Some t2" and t: "t = t1 @ t2"
    using Cons.prems(2) by (auto split: option.splits prod.splits)
  have r1: "room lim o1 (length t1)" and r2: "room lim (app o1 t1) (length t2)"
    using Cons.prems(3) by (simp add: t room_def, intro room_app, simp add: t)
  have "fmt_string (d # ds) = directive_fmt d @ fmt_string ds" by (simp add: fmt_string_def)
  then have "format_loop lim (fmt_string (d # ds)) args o1 = format_loop lim (fmt_string ds) args1 (app o1 t1)"
    using Cons.prems(1) convert_app [OF _ t1 r1] by simp
  then show ?case using Cons.IH [OF _ t2 r2] Cons.prems(1) by (simp add: t app_append)
qed

lemma snd_app_outside: "room lim o1 (length s) \<Longrightarrow> i < fst o1 \<or> fst (app o1 s) \<le> i \<Longrightarrow> snd (app o1 s) i = snd o1 i"
proof (induction o1 s rule: app.induct)
  case (2 n b c cs)
  have n1: "unat (n + 1) = unat n + 1"
    using 2(2) unat_bound [of lim] by (simp add: room_def unat_word_ariths)
  have r: "room lim (n + 1, b(n := c)) (length cs)" using 2(2) n1 by (simp add: room_def)
  have ne: "i \<noteq> n"
    using 2(3) unat_fst_app [OF r] n1 by (auto simp: word_le_nat_alt)
  have "i < n + 1 \<or> fst (app (n + 1, b(n := c)) cs) \<le> i"
    using 2(3) n1 by (auto simp: word_less_nat_alt)
  then show ?case using 2(1) [OF r] ne by simp
qed simp

lemma snprintf_render:
  assumes "list_all directive_ok ds" and "render ds args = Some t" and "length t < unat sz"
  shows "\<exists>b. snprintf sz (fmt_string ds) args str = Some (adr (length t), b) \<and>
    map (\<lambda>i. b (adr i)) [0..<length t] = t \<and> b (adr (length t)) = CHR 0x00 \<and>
    (\<forall>i > adr (length t). b i = str i)"
proof -
  let ?o = "app (0, str) t" and ?n = "adr (length t)"
  have lim: "unat (sz - 1) = unat sz - 1" using assms(3) by (intro unat_minus_one) auto
  then have r: "room (sz - 1) (0, str) (length t)" using assms(3) by (simp add: room_def)
  have un: "unat ?n = length t" using assms(3) unat_bound [of sz] by (intro unat_adr) simp
  have fn: "fst ?o = ?n" by (simp add: fst_app)
  have le: "?n \<le> sz - 1" using assms(3) by (simp add: word_le_nat_alt un lim)
  define b where "b = (snd ?o)(?n := CHR 0x00)"
  have "snprintf sz (fmt_string ds) args str = Some (?n, b)"
    using format_loop_render [OF assms(1,2) r] le fn
    by (cases ?o) (simp add: snprintf_def vsnprintf_def b_def)
  moreover have "map (\<lambda>i. b (adr i)) [0..<length t] = t"
  proof -
    have "adr i \<noteq> ?n" if "i < length t" for i
    proof
      assume "adr i = ?n"
      moreover have "unat (adr i) = i" using that un unat_bound [of ?n] by (intro unat_adr) simp
      ultimately show False using that un by simp
    qed
    then have "map (\<lambda>i. b (adr i)) [0..<length t] = out_text ?o" by (simp add: out_text_def b_def fn un)
    also have "\<dots> = t" using out_text_app [OF r] by (simp add: out_text_def)
    finally show ?thesis .
  qed
  moreover have "\<forall>i > ?n. b i = str i"
  proof (intro allI impI)
    fix i :: u32 assume i: "?n < i"
    then have "fst ?o \<le> i" unfolding fn by simp
    then have "snd ?o i = str i" using snd_app_outside [OF r] by simp
    then show "b i = str i" using i by (auto simp: b_def)
  qed
  ultimately show ?thesis by (auto simp: b_def)
qed

text \<open>
  C21: For a format made of literal characters and the directives \<^verbatim>\<open>%d %i %u %x %X %s %c\<close>
  with field widths, if the reference text fits the buffer then \<^verbatim>\<open>snprintf\<close> returns its
  length, writes exactly the reference text and a NUL behind it, and nothing else.
\<close>

theorem snprintf_prints_reference:
  assumes "list_all directive_ok ds" and "render ds args = Some t" and "length t < unat sz"
  shows "\<exists>b. snprintf sz (fmt_string ds) args str = Some (adr (length t), b) \<and>
    map (\<lambda>i. b (adr i)) [0..<length t] = t \<and> b (adr (length t)) = CHR 0x00 \<and>
    (\<forall>i > adr (length t). b i = str i)"
  using assms by (rule snprintf_render)

lemma snprintf_prints_reference_witness:
  "\<exists>b. snprintf 32 ''%5d|%08X|%3s|%c'' [A32 4294967254, A32 0xbeef, AStr (Some ''a''), A32 33] (\<lambda>_. CHR ''?'')
       = Some (21, b) \<and>
     map (\<lambda>i. b (adr i)) [0..<21] = ''-   42|0000BEEF|a  |!'' \<and> b 21 = CHR 0x00 \<and> (\<forall>i > 21. b i = CHR ''?'')"
proof -
  let ?ds = "[Dec CHR ''d'' ''5'', Lit CHR ''|'', Hex CHR ''X'' ''08'', Lit CHR ''|'', Str ''3'', Lit CHR ''|'', Chr]"
  have "list_all directive_ok ?ds" by (simp add: width_ok_def is_digit_def decimal_value_def)
  moreover have "render ?ds [A32 4294967254, A32 0xbeef, AStr (Some ''a''), A32 33] = Some ''-   42|0000BEEF|a  |!''"
  proof -
    have "sign_text CHR ''d'' 4294967254 = (''-'', 42)" by (simp add: sign_text_def bit_simps)
    moreover have "decimal_text 42 = ''42''" by (simp add: decimal_text_def numeral_text.simps)
    moreover have "hex_text CHR ''X'' 0xbeef = ''BEEF''" by (simp add: hex_text_def numeral_text.simps hex_digits_def)
    moreover have "char_of (33 :: nat) = CHR ''!''" by code_simp
    moreover have "replicate 2 c = [c, c]" "replicate 3 c = [c, c, c]" "replicate 4 c = [c, c, c, c]" for c :: char
      by (simp_all add: numeral_eq_Suc)
    ultimately show ?thesis by (simp add: dec_field_def decimal_value_def field_pad_def)
  qed
  moreover have "length ''-   42|0000BEEF|a  |!'' < unat (32 :: u32)" by simp
  ultimately have "\<exists>b. snprintf 32 (fmt_string ?ds) [A32 4294967254, A32 0xbeef, AStr (Some ''a''), A32 33] (\<lambda>_. CHR ''?'')
       = Some (adr (length ''-   42|0000BEEF|a  |!''), b) \<and>
     map (\<lambda>i. b (adr i)) [0..<length ''-   42|0000BEEF|a  |!''] = ''-   42|0000BEEF|a  |!'' \<and>
     b (adr (length ''-   42|0000BEEF|a  |!'')) = CHR 0x00 \<and> (\<forall>i > adr (length ''-   42|0000BEEF|a  |!''). b i = CHR ''?'')"
    by (rule snprintf_prints_reference)
  moreover have "fmt_string ?ds = ''%5d|%08X|%3s|%c''" by (simp add: fmt_string_def)
  moreover have "length ''-   42|0000BEEF|a  |!'' = 21" "adr 21 = 21" by simp_all
  ultimately show ?thesis by (simp only:)
qed

subsection \<open>What is written\<close>

text \<open>
  No character behind the buffer changes.  The flag \<open>q\<close> tells that a \<^verbatim>\<open>%p\<close> may have
  been printed: its test \<^verbatim>\<open>(n + 1) < size_\<close> passes when the count is \<open>2 ^ 32 - 1\<close>, and
  then the character at this offset, the one before the buffer, is written.
\<close>

definition stays :: "bool \<Rightarrow> u32 \<Rightarrow> out \<Rightarrow> out \<Rightarrow> bool" where
  "stays q lim o1 o2 \<longleftrightarrow> (\<forall>i \<ge> lim. snd o2 i = snd o1 i \<or> q \<and> i = 0xffffffff)"

lemma stays_refl [simp]: "stays q lim o1 o1"
  by (simp add: stays_def)

lemma stays_trans: "stays q lim o2 o3 \<Longrightarrow> stays q lim o1 o2 \<Longrightarrow> stays q lim o1 o3"
  unfolding stays_def by metis

lemma snd_put [simp]: "lim \<le> i \<Longrightarrow> snd (put lim c o1) i = snd o1 i"
  by (cases o1) (auto simp: put_def)

lemma snd_put_lim [simp]: "lim \<le> i \<Longrightarrow> snd (put_lim lim c o1) i = snd o1 i"
  by (cases o1) (auto simp: put_lim_def)

lemma snd_put_pad [simp]: "lim \<le> i \<Longrightarrow> snd (put_pad lim c k o1) i = snd o1 i"
  by (induction k arbitrary: o1) simp_all

lemma snd_put_lim_pad [simp]: "lim \<le> i \<Longrightarrow> snd (put_lim_pad lim k o1) i = snd o1 i"
  by (induction k arbitrary: o1) simp_all

lemma snd_put_string [simp]: "lim \<le> i \<Longrightarrow> snd (put_string lim s o1) i = snd o1 i"
  by (induction s arbitrary: o1) simp_all

lemma snd_put_prefix [simp]: "lim \<le> i \<Longrightarrow> snd (put_prefix lim p s o1) i = snd o1 i"
  by (induction lim p s o1 rule: put_prefix.induct) simp_all

lemma snd_put_s [simp]: "lim \<le> i \<Longrightarrow> snd (put_s lim flags w p so o1) i = snd o1 i"
  by (simp add: put_s_def Let_def)

lemma snd_put_digits [simp]: "lim \<le> i \<Longrightarrow> snd (put_digits lim k u o1) i = snd o1 i"
  by (induction k arbitrary: u o1) (simp_all split: prod.split)

lemma snd_put_digits_ll: "put_digits_ll lim k u o1 = Some o2 \<Longrightarrow> lim \<le> i \<Longrightarrow> snd o2 i = snd o1 i"
  by (induction k arbitrary: u o1) (simp_all split: prod.splits if_splits)

lemma snd_put_d [simp]: "lim \<le> i \<Longrightarrow> snd (put_d lim ch flags w u o1) i = snd o1 i"
  by (simp add: put_d_def Let_def)

lemma snd_put_lld: "put_lld lim ch flags w u o1 = Some o2 \<Longrightarrow> lim \<le> i \<Longrightarrow> snd o2 i = snd o1 i"
  unfolding put_lld_def Let_def
  by (simp split: if_splits) (drule (1) snd_put_digits_ll, simp)+

lemma snd_put_nybbles [simp]: "lim \<le> i \<Longrightarrow> snd (put_nybbles lim hex w k u pad st o1) i = snd o1 i"
  by (induction k arbitrary: pad st o1) (simp_all add: Let_def)

lemma snd_put_x: "ch \<noteq> CHR ''p'' \<Longrightarrow> lim \<le> i \<Longrightarrow> snd (put_x lim ch flags w k u o1) i = snd o1 i"
  by (cases o1) (simp add: put_x_def put_p_prefix_def Let_def)

lemma stays_put_x: "stays (ch = CHR ''p'') lim o1 (put_x lim ch flags w k u o1)"
proof (cases "ch = CHR ''p''")
  case True
  obtain n b where o1: "o1 = (n, b)" by (cases o1)
  have "n + 1 < lim \<Longrightarrow> lim \<le> i \<Longrightarrow> i \<noteq> 0xffffffff \<Longrightarrow> i \<noteq> n \<and> i \<noteq> n + 1" for i
  proof -
    assume a: "n + 1 < lim" "lim \<le> i" "i \<noteq> 0xffffffff"
    have "n < n + 1" if "i = n"
    proof -
      have "unat n \<noteq> 4294967295" using a(3) that by (auto simp: word_unat_eq_iff)
      then have "unat n + 1 < 4294967296" using unat_bound [of n] by simp
      then show ?thesis by (simp add: word_less_nat_alt unat_word_ariths)
    qed
    then show ?thesis using a(1,2) by auto
  qed
  then show ?thesis
    unfolding o1 stays_def by (auto simp: put_x_def put_p_prefix_def Let_def True)
next
  case False
  then show ?thesis by (simp add: stays_def snd_put_x)
qed

lemma stays_put: "stays q lim o1 (put lim c o1)"
  by (simp add: stays_def)

lemma stays_convert:
  assumes q: "ch = CHR ''p'' \<Longrightarrow> q" and c: "convert lim ch flags w p args o1 = Some (args', o2)"
  shows "stays q lim o1 o2"
proof -
  consider "ch = CHR ''s''" | "ch = CHR ''c''" | "ch \<in> {CHR ''d'', CHR ''i'', CHR ''u''}" | "ch \<in> {CHR ''x'', CHR ''X'', CHR ''p''}"
    | "ch \<notin> {CHR ''s'', CHR ''c'', CHR ''d'', CHR ''i'', CHR ''u'', CHR ''x'', CHR ''X'', CHR ''p''}" by blast
  then show ?thesis
  proof cases
    case 1
    then show ?thesis using c by (auto simp: convert_def stays_def split: list.splits arg.splits)
  next
    case 2
    then show ?thesis using c by (auto simp: convert_def stays_def split: list.splits arg.splits if_splits)
  next
    case 3
    then have "ch \<noteq> CHR ''s''" "ch \<noteq> CHR ''c''" "ch = CHR ''d'' \<or> ch = CHR ''i'' \<or> ch = CHR ''u''" by auto
    then have "(if flags AND PF_LONG_LONG = 0
       then (case args of A32 v # args \<Rightarrow> Some (args, put_d lim ch flags w v o1) | _ \<Rightarrow> None)
       else (case args of A64 v # args \<Rightarrow> map_option (Pair args) (put_lld lim ch flags w v o1) | _ \<Rightarrow> None))
      = Some (args', o2)" using c unfolding convert_def by (simp only: if_True if_False)
    note eq = this
    show ?thesis
    proof (cases "flags AND PF_LONG_LONG = 0")
      case True
      then show ?thesis using eq by (auto simp: stays_def split: list.splits arg.splits)
    next
      case False
      then obtain v where "put_lld lim ch flags w v o1 = Some o2"
        using eq by (auto split: list.splits arg.splits)
      then show ?thesis by (simp add: stays_def snd_put_lld)
    qed
  next
    case 4
    then have x: "ch = CHR ''x'' \<or> ch = CHR ''X'' \<or> ch = CHR ''p''" "ch \<noteq> CHR ''s''" "ch \<noteq> CHR ''c''"
      "\<not> (ch = CHR ''d'' \<or> ch = CHR ''i'' \<or> ch = CHR ''u'')" by auto
    have eq: "(if flags AND PF_LONG_LONG = 0
       then (case args of A32 v # args \<Rightarrow> Some (args, put_x lim ch flags w 8 v o1) | _ \<Rightarrow> None)
       else (case args of A64 v # args \<Rightarrow> Some (args, put_x lim ch flags w 16 v o1) | _ \<Rightarrow> None))
      = Some (args', o2)" using c x unfolding convert_def by (simp only: if_True if_False)
    have "(\<exists>v :: u32. o2 = put_x lim ch flags w 8 v o1) \<or> (\<exists>v :: u64. o2 = put_x lim ch flags w 16 v o1)"
      using eq by (cases "flags AND PF_LONG_LONG = 0") (auto split: list.splits arg.splits)
    then show ?thesis
      using q stays_put_x [of ch lim o1 flags w 8] stays_put_x [of ch lim o1 flags w 16] by (auto simp: stays_def)
  next
    case 5
    then show ?thesis using c by (simp add: convert_def)
  qed
qed

lemma parse_width_suffix: "parse_width fmt flags w p = Some (fmt', flags', w', p') \<Longrightarrow> set fmt' \<subseteq> set fmt"
proof (induction fmt flags w p rule: parse_width.induct)
  case (2 ch fmt flags w p)
  then show ?case by (fastforce simp: Let_def split: if_splits)
qed simp

lemma parse_length_suffix: "parse_length fmt flags = (fmt', flags') \<Longrightarrow> set fmt' \<subseteq> set fmt"
  by (induction fmt flags rule: parse_length.induct) (fastforce split: if_splits)+

lemma format_loop_directive_eq:
  "fmt \<noteq> [] \<Longrightarrow> hd fmt \<noteq> CHR ''%'' \<Longrightarrow> g = (if hd fmt = CHR ''-'' then tl fmt else fmt) \<Longrightarrow>
   format_loop lim (CHR ''%'' # fmt) args o1 =
     (case parse_width g 0 0 0 of
        None \<Rightarrow> None
      | Some (fmt, flags, field_width, precision) \<Rightarrow>
          (case parse_length fmt flags of
             ([], flags) \<Rightarrow> None
           | (ch # fmt, flags) \<Rightarrow>
               (case convert lim ch flags field_width precision args o1 of
                  None \<Rightarrow> None
                | Some (args, o1) \<Rightarrow> format_loop lim fmt args o1)))"
  by simp

lemma stays_format_loop:
  "(CHR ''p'' \<in> set fmt \<longrightarrow> q) \<Longrightarrow> format_loop lim fmt args o1 = Some o2 \<Longrightarrow> stays q lim o1 o2"
proof (induction fmt arbitrary: args o1 rule: length_induct)
  case (1 fmt0)
  have IH: "stays q lim o3 o2"
    if "length f < length fmt0" "CHR ''p'' \<in> set f \<longrightarrow> q" "format_loop lim f a o3 = Some o2" for f a o3
    using 1(1) that by blast
  have put: "stays q lim o1 o2"
    if "length f < length fmt0" "CHR ''p'' \<in> set f \<longrightarrow> q" "format_loop lim f a (put lim c o1) = Some o2" for f a c
    using IH [OF that] stays_put by (rule stays_trans)
  show ?case
  proof (cases fmt0)
    case Nil
    then show ?thesis using 1(3) by simp
  next
    case (Cons ch fmt)
    have p0: "CHR ''p'' \<in> set fmt \<longrightarrow> q" and len: "length fmt < length fmt0" using 1(2) Cons by auto
    consider (pc) "ch = CHR ''%''" | (bs) "ch = CHR 0x5C" | (lit) "ch \<noteq> CHR ''%''" "ch \<noteq> CHR 0x5C" by blast
    then show ?thesis
    proof cases
      case pc
      define g where "g = (if hd fmt = CHR ''-'' then tl fmt else fmt)"
      have "g = fmt \<or> g = tl fmt" by (simp add: g_def)
      moreover have "set (tl fmt) \<subseteq> set fmt" by (cases fmt) auto
      ultimately have g: "set g \<subseteq> set fmt" "length g \<le> length fmt" by auto
      consider "fmt = []" | "fmt \<noteq> []" "hd fmt = CHR ''%''" | (dir) "fmt \<noteq> []" "hd fmt \<noteq> CHR ''%''" by blast
      then show ?thesis
      proof cases
        case dir
        note eq = 1(3) [unfolded Cons pc format_loop_directive_eq [OF dir g_def]]
        obtain f1 fl1 w1 p1 where pw: "parse_width g 0 0 0 = Some (f1, fl1, w1, p1)"
          using eq by (cases "parse_width g 0 0 0") auto
        obtain ch2 f2 fl2 where pl: "parse_length f1 fl1 = (ch2 # f2, fl2)"
          using eq by (cases "parse_length f1 fl1"; cases "fst (parse_length f1 fl1)") (simp_all add: pw)
        obtain args2 o3 where cv: "convert lim ch2 fl2 w1 p1 args o1 = Some (args2, o3)"
          and fl: "format_loop lim f2 args2 o3 = Some o2"
          using eq by (cases "convert lim ch2 fl2 w1 p1 args o1") (auto simp: pw pl)
        have "CHR ''p'' \<in> set f2 \<longrightarrow> q" "ch2 = CHR ''p'' \<Longrightarrow> q" "length f2 < length fmt0"
          using p0 g len parse_width_suffix [OF pw] parse_length_suffix [OF pl] parse_width_length [OF pw]
            parse_length_length [OF pl] by auto
        then show ?thesis using IH [OF _ _ fl] stays_convert [OF _ cv] stays_trans by blast
      qed (use 1(3) pc in \<open>simp_all add: Cons stays_def, auto\<close>)
    next
      case bs
      show ?thesis
      proof (cases "fst o1 < lim")
        case True
        then obtain c1 c2 f where "fmt = c1 # c2 # f"
          using 1(3) bs unfolding Cons by (cases fmt rule: list.exhaust [case_product list.exhaust]) (auto split: list.splits)
        then show ?thesis using 1(3) bs True p0 len put [of f args "escape_char c2"] by (simp add: Cons)
      next
        case False
        then obtain c1 f where "fmt = c1 # f" using 1(3) bs unfolding Cons by (cases fmt) auto
        then show ?thesis using 1(3) bs False p0 len put [of f args "CHR 0x00"] by (simp add: Cons)
      qed
    next
      case lit
      then show ?thesis using 1(3) put [OF len p0] by (simp add: Cons)
    qed
  qed
qed

text \<open>
  C22: Every call of \<^verbatim>\<open>snprintf\<close> with a buffer of \<open>sz > 0\<close> characters that has a defined
  result leaves a NUL-terminated string in the buffer and writes no character behind it, whatever
  the directives, widths, escapes and arguments are and however much longer the full text would
  be.  One offset is excepted, and only for formats with a \<^verbatim>\<open>p\<close>: \<open>2 ^ 32 - 1\<close>, the
  character before the buffer, which a \<^verbatim>\<open>%p\<close> reaches behind exactly that many
  characters of output, when its test \<^verbatim>\<open>(n + 1) < size_\<close> wraps.  The result is not
  defined, and nothing is claimed, where the code reads behind the end of the format (a directive
  without conversion, a backslash with fewer than two characters behind it), takes an argument of
  another kind than it was given, overflows a signed width, or reads \<^verbatim>\<open>powers_of_ten\<close>
  behind its end (\<^verbatim>\<open>%llu\<close> of a number of more than ten digits).
\<close>

theorem snprintf_in_bounds:
  assumes "0 < sz" and "snprintf sz fmt args str = Some (n, b)"
  shows "(\<forall>i \<ge> sz. b i = str i \<or> CHR ''p'' \<in> set fmt \<and> i = 0xffffffff) \<and> (\<exists>k < sz. b k = CHR 0x00)"
proof -
  have s: "sz \<noteq> 0" using assms(1) by auto
  obtain n1 b1 where f: "format_loop (sz - 1) fmt args (0, str) = Some (n1, b1)"
    and b: "b = b1((if n1 \<le> sz - 1 then n1 else sz - 1) := CHR 0x00)"
    using assms(2) by (auto simp: snprintf_def vsnprintf_def Let_def)
  let ?k = "if n1 \<le> sz - 1 then n1 else sz - 1"
  have lt: "sz - 1 < sz" using unat_minus_one [OF s] s by (simp add: word_less_nat_alt unat_gt_0)
  then have k: "?k < sz" by auto
  have "stays (CHR ''p'' \<in> set fmt) (sz - 1) (0, str) (n1, b1)" by (rule stays_format_loop [OF _ f]) simp
  then have st: "b1 i = str i \<or> CHR ''p'' \<in> set fmt \<and> i = 0xffffffff" if "sz - 1 \<le> i" for i
    using that unfolding stays_def snd_conv by blast
  have "b i = str i \<or> CHR ''p'' \<in> set fmt \<and> i = 0xffffffff" if "sz \<le> i" for i
  proof -
    have "sz - 1 \<le> i" "i \<noteq> ?k" using lt k that by auto
    then show ?thesis using st [of i] by (simp add: b)
  qed
  moreover have "b ?k = CHR 0x00" by (simp add: b)
  ultimately show ?thesis using k by blast
qed

text \<open>
  \<^verbatim>\<open>%%\<close> ends the output: the rest of the format and the arguments behind it are ignored.
\<close>

theorem snprintf_percent_ends:
  "snprintf sz (''%%'' @ fmt) args str = snprintf sz ''%%'' [] str"
  by (simp add: snprintf_def vsnprintf_def)

text \<open>
  \<^verbatim>\<open>%llu\<close> of a number of more than ten digits reads \<^verbatim>\<open>powers_of_ten\<close> behind its
  end, so the result is undefined.
\<close>

theorem snprintf_llu_undefined:
  assumes "10000000000 \<le> v"
  shows "snprintf sz ''%llu'' [A64 v] str = None"
proof -
  let ?P = "\<lambda>p. p \<le> v" let ?r = "req_digits powers_of_ten_ll v" let ?t = "takeWhile ?P powers_of_ten_ll"
  have "\<forall>p \<in> set (take 11 powers_of_ten_ll). p \<le> 10000000000" by (simp add: powers_of_ten_ll_def)
  then have "?P p" if "p \<in> set (take 11 powers_of_ten_ll)" for p using that assms by (meson order_trans)
  then have "?t = take 11 powers_of_ten_ll @ takeWhile ?P (drop 11 powers_of_ten_ll)"
    using takeWhile_append2 [of "take 11 powers_of_ten_ll" ?P "drop 11 powers_of_ten_ll"]
    by (simp only: append_take_drop_id)
  then have "length ?t \<ge> length (take 11 powers_of_ten_ll)" by (metis le_add1 length_append)
  then have len: "11 \<le> length ?t" by (simp add: powers_of_ten_ll_def)
  then obtain k where k: "length ?t = Suc k" "10 \<le> k" by (cases "length ?t") auto
  have r: "?r = Suc k" using k by (simp add: req_digits_def)
  have "powers_of_ten_ll ! k \<in> set ?t" using k takeWhile_nth [of k ?P powers_of_ten_ll] by (metis lessI nth_mem)
  then have "powers_of_ten_ll ! k \<le> v" by (auto dest: set_takeWhileD)
  moreover have "length powers_of_ten \<le> k" using k by (simp add: powers_of_ten_def)
  ultimately have "put_digits_ll lim ?r v o1 = None" for lim o1 by (simp add: r)
  then have "put_lld lim CHR ''u'' 0x0C 0 v o1 = None" for lim o1 by (simp add: put_lld_def)
  then show ?thesis by (simp add: snprintf_def vsnprintf_def convert_def is_digit_def)
qed

lemma snprintf_llu_undefined_witness: "snprintf 32 ''%llu'' [A64 12345678901] (\<lambda>_. CHR ''?'') = None"
  by (rule snprintf_llu_undefined) simp

lemma snprintf_in_bounds_witness:
  "\<exists>b. snprintf 4 ''%s'' [AStr (Some ''abcdef'')] (\<lambda>_. CHR ''?'') = Some (3, b) \<and>
     (\<forall>i \<ge> 4. b i = CHR ''?'') \<and> (\<exists>k < 4. b k = CHR 0x00)"
proof -
  have "fst (the (snprintf 4 ''%s'' [AStr (Some ''abcdef'')] (\<lambda>_. CHR ''?''))) = 3 \<and>
    snprintf 4 ''%s'' [AStr (Some ''abcdef'')] (\<lambda>_. CHR ''?'') \<noteq> None"
    by (simp add: snprintf_def vsnprintf_def convert_def is_digit_def put_s_def put_lim_def)
  then obtain b where b: "snprintf 4 ''%s'' [AStr (Some ''abcdef'')] (\<lambda>_. CHR ''?'') = Some (3, b)" by auto
  moreover have "(\<forall>i \<ge> 4. b i = CHR ''?'') \<and> (\<exists>k < 4. b k = CHR 0x00)"
    using snprintf_in_bounds [OF _ b] by simp
  ultimately show ?thesis by blast
qed

end
