(* ===== verification/Disasm.thy ===== *)
theory Disasm
  imports Format
begin

text \<open>
  \<^verbatim>\<open>monitor/disasm.c\<close>: the disassembler of the monitor for the MC68000 family.  The code is
  read from the byte memory in 16-bit words.  The operand strings are arrays of 32 characters
  and every store into them is checked: \<open>None\<close> stands for a write or a read outside an array.
  The strings are written by the model of \<^verbatim>\<open>sprintf\<close>.  The fields \<^verbatim>\<open>src_mode\<close> and
  \<^verbatim>\<open>src_reg\<close> of the context and the locals \<^verbatim>\<open>dest_mode\<close>, \<^verbatim>\<open>dest_reg\<close> and
  \<^verbatim>\<open>bit7_6\<close> depend on the instruction word only and are functions of it here.
\<close>

subsection \<open>Tables\<close>

definition branches :: "string list" where
  "branches = [
     ''bra'', ''bsr'', ''bhi'', ''bls'', ''bcc'', ''bcs'', ''bne'', ''beq'',
     ''bvc'', ''bvs'', ''bpl'', ''bmi'', ''bge'', ''blt'', ''bgt'', ''ble'']"

definition dbranches :: "string list" where
  "dbranches = [
     ''dbt'', ''dbf'', ''dbhi'', ''dbls'', ''dbcc'', ''dbcs'', ''dbne'', ''dbeq'',
     ''dbvc'', ''dbvs'', ''dbpl'', ''dbmi'', ''dbge'', ''dblt'', ''dbgt'', ''dble'']"

definition sets :: "string list" where
  "sets = [
     ''st'', ''sf'', ''shi'', ''sls'', ''scc'', ''scs'', ''sne'', ''seq'',
     ''svc'', ''svs'', ''spl'', ''smi'', ''sge'', ''slt'', ''sgt'', ''sle'']"

definition bits :: "string list" where
  "bits = [''btst'', ''bchg'', ''bclr'', ''bset'']"

definition lshifts :: "string list" where
  "lshifts = [''asl'', ''lsl'', ''roxl'', ''rol'']"

definition rshifts :: "string list" where
  "rshifts = [''asr'', ''lsr'', ''roxr'', ''ror'']"

definition misc1 :: "string list" where
  "misc1 = [''reset'', ''nop'', ''stop'', ''rte'', ''rtd'', ''rts'', ''trapv'', ''rtr'']"

definition misc2 :: "string list" where
  "misc2 = [''ori'', ''andi'', ''subi'', ''addi'', ''???'', ''eori'', ''cmpi'', ''moves'']"

definition mmu_branches :: "string list" where
  "mmu_branches = [
     ''pbbs'', ''pbbc'', ''pbls'', ''pblc'', ''pbss'', ''pbsc'', ''pbas'', ''pbac'',
     ''pbws'', ''pbwc'', ''pbis'', ''pbic'', ''pbgs'', ''pbgc'', ''pbcs'', ''pbcc'']"

definition mmu_dbranches :: "string list" where
  "mmu_dbranches = [
     ''pdbbs'', ''pdbbc'', ''pdbls'', ''pdblc'', ''pdbss'', ''pdbsc'', ''pdbas'', ''pdbac'',
     ''pdbws'', ''pdbwc'', ''pdbis'', ''pdbic'', ''pdbgs'', ''pdbgc'', ''pdbcs'', ''pdbcc'']"

definition mmu_sets :: "string list" where
  "mmu_sets = [
     ''psbs'', ''psbc'', ''psls'', ''pslc'', ''psss'', ''pssc'', ''psas'', ''psac'',
     ''psws'', ''pswc'', ''psis'', ''psic'', ''psgs'', ''psgc'', ''pscs'', ''pscc'']"

definition mmu_traps :: "string list" where
  "mmu_traps = [
     ''ptrapbs'', ''ptrapbc'', ''ptrapls'', ''ptraplc'', ''ptrapss'', ''ptrapsc'', ''ptrapas'', ''ptrapac'',
     ''ptrapws'', ''ptrapwc'', ''ptrapis'', ''ptrapic'', ''ptrapgs'', ''ptrapgc'', ''ptrapcs'', ''ptrapcc'']"

subsection \<open>The context\<close>

datatype dis_machtype =
    mt68000 | mt68010 | mt68020 | mt68020_68851 | mt68030 | mt68ec030 | mt68040 | mt68ec040 | mt68lc040

datatype ea_size = ea_unsized | ea_byte | ea_word | ea_long | ea_sr

text \<open>The numerical value of a size is the letter printed for it.\<close>

fun ea_size_code :: "ea_size \<Rightarrow> u32" where
  "ea_size_code ea_unsized = 0"
| "ea_size_code ea_byte = 98"
| "ea_size_code ea_word = 119"
| "ea_size_code ea_long = 108"
| "ea_size_code ea_sr = 115"

definition disasm_sizemap :: "ea_size list" where
  "disasm_sizemap = [ea_byte, ea_word, ea_long, ea_unsized]"

definition move_sizemap :: "ea_size list" where
  "move_sizemap = [ea_unsized, ea_byte, ea_long, ea_word]"

record dis_context =
  ctx_machtype :: dis_machtype
  ctx_p :: u32
  ctx_a1 :: string
  ctx_a2 :: string
  ctx_pf :: "string option"
  ctx_instr :: u16
  ctx_size :: ea_size

definition src_mode :: "dis_context \<Rightarrow> u16" where
  "src_mode ctx = drop_bit 3 (ctx_instr ctx) AND 7"

definition src_reg :: "dis_context \<Rightarrow> u16" where
  "src_reg ctx = ctx_instr ctx AND 7"

definition bit7_6 :: "dis_context \<Rightarrow> u16" where
  "bit7_6 ctx = drop_bit 6 (ctx_instr ctx) AND 3"

definition dest_mode :: "dis_context \<Rightarrow> u16" where
  "dest_mode ctx = drop_bit 6 (ctx_instr ctx) AND 7"

definition dest_reg :: "dis_context \<Rightarrow> u16" where
  "dest_reg ctx = drop_bit 9 (ctx_instr ctx) AND 7"

text \<open>\<^verbatim>\<open>'0' + reg\<close> for a register field.\<close>

definition reg_char :: "u16 \<Rightarrow> char" where
  "reg_char r = decimal_char (unat r)"

subsection \<open>Reading code and writing operands\<close>

text \<open>\<^verbatim>\<open>*(*p)++\<close>\<close>

definition next_word :: "mem \<Rightarrow> dis_context \<Rightarrow> u16 \<times> dis_context" where
  "next_word m ctx = (load16 m (ctx_p ctx), ctx\<lparr>ctx_p := ctx_p ctx + 2\<rparr>)"

text \<open>Assignments to consecutive elements from the start, and to one element.\<close>

definition store_text :: "string \<Rightarrow> string \<Rightarrow> string option" where
  "store_text s b = (if length s \<le> length b then Some (s @ drop (length s) b) else None)"

definition store_at :: "nat \<Rightarrow> char \<Rightarrow> string \<Rightarrow> string option" where
  "store_at i c b = (if i < length b then Some (b[i := c]) else None)"

text \<open>The string printed by \<^verbatim>\<open>sprintf\<close>, and printing it with its NUL into an array.\<close>

definition sprintf_text :: "string \<Rightarrow> arg list \<Rightarrow> string option" where
  "sprintf_text fmt args =
     map_option (\<lambda>(n, b). map (\<lambda>i. b (adr i)) [0..<unat n]) (sprintf fmt args (\<lambda>_. CHR 0x00))"

definition print_buf :: "string \<Rightarrow> arg list \<Rightarrow> string \<Rightarrow> string option" where
  "print_buf fmt args b =
     (case sprintf_text fmt args of
        None \<Rightarrow> None
      | Some t \<Rightarrow> store_text (t @ [CHR 0x00]) b)"

text \<open>The string in an array, which must be terminated.\<close>

definition buf_string :: "string \<Rightarrow> string option" where
  "buf_string b = (if CHR 0x00 \<in> set b then Some (takeWhile (\<lambda>c. c \<noteq> CHR 0x00) b) else None)"

definition strcat_buf :: "string \<Rightarrow> string \<Rightarrow> string option" where
  "strcat_buf s b = buf_string b \<bind> (\<lambda>t. store_text (t @ s @ [CHR 0x00]) b)"

definition text_a1 :: "string \<Rightarrow> dis_context \<Rightarrow> dis_context option" where
  "text_a1 s ctx = map_option (\<lambda>b. ctx\<lparr>ctx_a1 := b\<rparr>) (store_text s (ctx_a1 ctx))"

definition text_a2 :: "string \<Rightarrow> dis_context \<Rightarrow> dis_context option" where
  "text_a2 s ctx = map_option (\<lambda>b. ctx\<lparr>ctx_a2 := b\<rparr>) (store_text s (ctx_a2 ctx))"

definition print_a1 :: "string \<Rightarrow> arg list \<Rightarrow> dis_context \<Rightarrow> dis_context option" where
  "print_a1 fmt args ctx = map_option (\<lambda>b. ctx\<lparr>ctx_a1 := b\<rparr>) (print_buf fmt args (ctx_a1 ctx))"

definition print_a2 :: "string \<Rightarrow> arg list \<Rightarrow> dis_context \<Rightarrow> dis_context option" where
  "print_a2 fmt args ctx = map_option (\<lambda>b. ctx\<lparr>ctx_a2 := b\<rparr>) (print_buf fmt args (ctx_a2 ctx))"

text \<open>A word read as a signed short, and its lower byte as a signed char, widened to \<^verbatim>\<open>int\<close>.\<close>

definition short_arg :: "u16 \<Rightarrow> arg" where
  "short_arg w = A32 (scast w)"

definition char_arg :: "u16 \<Rightarrow> arg" where
  "char_arg w = A32 (scast (ucast w :: u8))"

definition word_arg :: "u16 \<Rightarrow> arg" where
  "word_arg w = A32 (ucast w)"

definition BEW_REGISTER :: "u16 \<Rightarrow> u16" where
  "BEW_REGISTER x = drop_bit 12 (x AND 0x7000)"

definition BEW_DA :: "u16 \<Rightarrow> char" where
  "BEW_DA x = (if x AND 0x8000 \<noteq> 0 then CHR ''a'' else CHR ''d'')"

subsection \<open>Effective addresses\<close>

definition ea_imm :: "mem \<Rightarrow> ea_size \<Rightarrow> u32 \<Rightarrow> string \<Rightarrow> (u32 \<times> string) option" where
  "ea_imm m sz p str =
     (case sz of
        ea_byte \<Rightarrow> map_option (Pair (p + 2)) (print_buf ''#%d'' [char_arg (load16 m p)] str)
      | ea_word \<Rightarrow> map_option (Pair (p + 2)) (print_buf ''#%d'' [short_arg (load16 m p)] str)
      | ea_long \<Rightarrow> map_option (Pair (p + 4)) (print_buf ''#%d'' [A32 (load32 m p)] str)
      | ea_sr \<Rightarrow> map_option (Pair p) (store_text ''sr'' str)
      | ea_unsized \<Rightarrow> map_option (Pair p) (strcat_buf ''???'' str))"

definition ea :: "mem \<Rightarrow> u16 \<Rightarrow> u16 \<Rightarrow> ea_size \<Rightarrow> u32 \<Rightarrow> string \<Rightarrow> (u32 \<times> string) option" where
  "ea m mode reg sz p str =
     (let mode = mode AND 7; reg = reg AND 7; w = load16 m p
      in if mode = 0 then map_option (Pair p) (store_text [CHR ''d'', reg_char reg] str)
      else if mode = 1 then map_option (Pair p) (store_text [CHR ''a'', reg_char reg] str)
      else if mode = 3 then map_option (Pair p)
        (do { str \<leftarrow> store_at 4 CHR ''+'' str; store_text [CHR ''('', CHR ''a'', reg_char reg, CHR '')''] str })
      else if mode = 2 then map_option (Pair p) (store_text [CHR ''('', CHR ''a'', reg_char reg, CHR '')''] str)
      else if mode = 4 then map_option (Pair p)
        (store_text [CHR ''-'', CHR ''('', CHR ''a'', reg_char reg, CHR '')''] str)
      else if mode = 5 then map_option (Pair (p + 2)) (print_buf ''%d(a%d)'' [short_arg w, word_arg reg] str)
      else if mode = 6 then map_option (Pair (p + 2))
        (print_buf ''%d(a%d, %c%d)'' [char_arg w, word_arg reg, A32 (of_char (BEW_DA w)), word_arg (BEW_REGISTER w)] str)
      else if reg = 0 then map_option (Pair (p + 2)) (print_buf ''%x'' [word_arg w] str)
      else if reg = 1 then map_option (Pair (p + 4)) (print_buf ''%x'' [A32 (load32 m p)] str)
      else if reg = 2 then map_option (Pair (p + 2)) (print_buf ''%d(pc)'' [short_arg w] str)
      else if reg = 3 then map_option (Pair (p + 2))
        (print_buf ''%d(pc, %c%d)'' [char_arg w, A32 (of_char (BEW_DA w)), word_arg (BEW_REGISTER w)] str)
      else ea_imm m sz p str)"

definition ea_a1 :: "mem \<Rightarrow> u16 \<Rightarrow> u16 \<Rightarrow> ea_size \<Rightarrow> dis_context \<Rightarrow> dis_context option" where
  "ea_a1 m mode reg sz ctx =
     map_option (\<lambda>(p, b). ctx\<lparr>ctx_p := p, ctx_a1 := b\<rparr>) (ea m mode reg sz (ctx_p ctx) (ctx_a1 ctx))"

definition ea_a2 :: "mem \<Rightarrow> u16 \<Rightarrow> u16 \<Rightarrow> ea_size \<Rightarrow> dis_context \<Rightarrow> dis_context option" where
  "ea_a2 m mode reg sz ctx =
     map_option (\<lambda>(p, b). ctx\<lparr>ctx_p := p, ctx_a2 := b\<rparr>) (ea m mode reg sz (ctx_p ctx) (ctx_a2 ctx))"

subsection \<open>Register lists\<close>

text \<open>The loop that reverses the mask for the predecrement mode.\<close>

fun reverse_mask :: "nat \<Rightarrow> u16 \<Rightarrow> u16 \<Rightarrow> u16" where
  "reverse_mask 0 regs r2 = r2"
| "reverse_mask (Suc c) regs r2 = reverse_mask c (drop_bit 1 regs) (push_bit 1 r2 OR (regs AND 1))"

text \<open>
  The loop over the eight registers of one kind; \<open>k\<close> registers remain.  The flags are
  \<^verbatim>\<open>prev_bit\<close>, \<^verbatim>\<open>any\<close> and \<^verbatim>\<open>hyphen\<close>; the text written so far is in front.
\<close>

fun movem_bits :: "char \<Rightarrow> nat \<Rightarrow> string \<times> u16 \<times> bool \<times> bool \<times> bool \<Rightarrow> string \<times> u16 \<times> bool \<times> bool \<times> bool" where
  "movem_bits type 0 st = st"
| "movem_bits type (Suc k) (str, regs, prev_bit, any, hyphen) =
     (let c = 7 - k; current_bit = bit regs 0
      in movem_bits type k
        (if current_bit \<and> \<not> prev_bit
         then (str @ (if any then '','' else []) @ [type, decimal_char c], drop_bit 1 regs, current_bit, True, hyphen)
         else if \<not> current_bit \<and> prev_bit
         then (if hyphen then str @ [type, decimal_char (c - 1)] else str, drop_bit 1 regs, current_bit, True, hyphen)
         else if current_bit \<and> prev_bit
         then (if hyphen then str else str @ ''-'', drop_bit 1 regs, current_bit, any, True)
         else (str, drop_bit 1 regs, current_bit, any, hyphen)))"

definition movem_type :: "char \<Rightarrow> string \<times> u16 \<times> bool \<Rightarrow> string \<times> u16 \<times> bool" where
  "movem_type type = (\<lambda>(str, regs, any).
     if regs AND 0xff \<noteq> 0
     then (case movem_bits type 8 (if any then str @ ''/'' else str, regs, False, False, False) of
             (str, regs, current_bit, any, hyphen) \<Rightarrow>
               (if current_bit \<and> hyphen then str @ [type, CHR ''7''] else str, regs, any))
     else (str, drop_bit 8 regs, any))"

definition movem_regs :: "u16 \<Rightarrow> bool \<Rightarrow> string" where
  "movem_regs regs mode =
     (let regs = (if mode then reverse_mask 16 regs 0 else regs)
      in fst (movem_type CHR ''a'' (movem_type CHR ''d'' ([], regs, False))))"

subsection \<open>Coprocessor instructions\<close>

definition mmu_pbcc :: "mem \<Rightarrow> dis_context \<Rightarrow> dis_context option" where
  "mmu_pbcc m ctx =
     (if ctx_instr ctx AND 0x30 \<noteq> 0 then Some ctx
      else let ctx = ctx\<lparr>ctx_pf := Some (mmu_branches ! unat (ctx_instr ctx AND 0xf))\<rparr>
           in if ctx_instr ctx AND 0x40 \<noteq> 0
              then (case next_word m (ctx\<lparr>ctx_size := ea_long\<rparr>) of (w, ctx) \<Rightarrow> do {
                      ctx \<leftarrow> print_a1 ''#%d'' [word_arg w] ctx;
                      Some (ctx\<lparr>ctx_p := ctx_p ctx + 2\<rparr>) })
              else (case next_word m (ctx\<lparr>ctx_size := ea_word\<rparr>) of (w, ctx) \<Rightarrow>
                      print_a1 ''#%d'' [short_arg w] ctx))"

definition mmu_conditional :: "mem \<Rightarrow> dis_context \<Rightarrow> dis_context option" where
  "mmu_conditional m ctx =
     (case next_word m ctx of (word2, ctx) \<Rightarrow>
        if word2 AND 0xfff0 \<noteq> 0 then Some ctx
        else if src_mode ctx = 1
        then do {
          ctx \<leftarrow> text_a1 [CHR ''d'', reg_char (src_reg ctx)] (ctx\<lparr>ctx_size := ea_word\<rparr>);
          let (w, ctx) = next_word m ctx;
          ctx \<leftarrow> print_a2 ''#%d'' [short_arg w] ctx;
          Some (ctx\<lparr>ctx_pf := Some (mmu_dbranches ! unat word2)\<rparr>) }
        else if src_mode ctx = 7 \<and> 1 < src_reg ctx
        then (if src_reg ctx = 2
              then do {
                let (w, ctx) = next_word m (ctx\<lparr>ctx_size := ea_word\<rparr>);
                ctx \<leftarrow> print_a1 ''#%d'' [short_arg w] ctx;
                Some (ctx\<lparr>ctx_pf := Some (mmu_traps ! unat word2)\<rparr>) }
              else if src_reg ctx = 3
              then do {
                let (w, ctx) = next_word m (ctx\<lparr>ctx_size := ea_long\<rparr>);
                ctx \<leftarrow> print_a1 ''#%d'' [word_arg w] ctx;
                Some (ctx\<lparr>ctx_p := ctx_p ctx + 2, ctx_pf := Some (mmu_traps ! unat word2)\<rparr>) }
              else if src_reg ctx = 4
              then Some (ctx\<lparr>ctx_size := ea_unsized, ctx_pf := Some (mmu_traps ! unat word2)\<rparr>)
              else Some ctx)
        else Some (ctx\<lparr>ctx_pf := Some (mmu_sets ! unat word2)\<rparr>))"

text \<open>Of the group with second word only \<^verbatim>\<open>pflushr\<close> is decoded.\<close>

definition mmu_general :: "mem \<Rightarrow> dis_context \<Rightarrow> dis_context option" where
  "mmu_general m ctx =
     (case next_word m ctx of (word2, ctx) \<Rightarrow>
        if 4 < drop_bit 13 word2 \<and> word2 = 0xa000
        then if src_mode ctx < 2 then Some ctx
             else ea_a1 m (src_mode ctx) (src_reg ctx) ea_unsized (ctx\<lparr>ctx_pf := Some ''pflushr''\<rparr>)
        else Some ctx)"

definition mmu_saverestore :: "mem \<Rightarrow> dis_context \<Rightarrow> dis_context option" where
  "mmu_saverestore m ctx =
     (if bit7_6 ctx = 0
      then if src_mode ctx < 2 \<or> src_mode ctx = 3 \<or> src_mode ctx = 7 \<and> 1 < src_reg ctx then Some ctx
           else ea_a1 m (src_mode ctx) (src_reg ctx) ea_unsized (ctx\<lparr>ctx_pf := Some ''psave''\<rparr>)
      else if bit7_6 ctx = 1
      then if src_mode ctx < 2 \<or> src_mode ctx = 4 \<or> src_mode ctx = 7 \<and> 4 \<le> src_reg ctx then Some ctx
           else ea_a1 m (src_mode ctx) (src_reg ctx) ea_unsized (ctx\<lparr>ctx_pf := Some ''prestore''\<rparr>)
      else Some ctx)"

definition mmu_flush :: "dis_context \<Rightarrow> dis_context option" where
  "mmu_flush ctx =
     (let bit4_3 = drop_bit 3 (ctx_instr ctx) AND 3;
          operand = [CHR ''('', CHR ''a'', reg_char (src_reg ctx), CHR '')'']
      in if bit7_6 ctx = 0
         then if ctx_instr ctx AND 0x20 \<noteq> 0 then Some ctx
              else if bit4_3 = 0 then text_a1 operand (ctx\<lparr>ctx_pf := Some ''pflushn''\<rparr>)
              else if bit4_3 = 1 then text_a1 operand (ctx\<lparr>ctx_pf := Some ''pflush''\<rparr>)
              else if bit4_3 = 2 then Some (ctx\<lparr>ctx_pf := Some ''pflushan''\<rparr>)
              else Some (ctx\<lparr>ctx_pf := Some ''pflusha''\<rparr>)
         else if bit7_6 ctx = 1
         then if ctx_instr ctx AND 0x18 \<noteq> 0x08 then Some ctx
              else text_a1 operand
                (ctx\<lparr>ctx_pf := Some (if ctx_instr ctx AND 0x20 \<noteq> 0 then ''ptestr'' else ''ptestw'')\<rparr>)
         else Some ctx)"

definition mmu_instr :: "mem \<Rightarrow> dis_context \<Rightarrow> dis_context option" where
  "mmu_instr m ctx =
     (let bit11_8 = drop_bit 8 (ctx_instr ctx) AND 0xf
      in if bit11_8 = 0
         then if bit7_6 ctx = 0 then mmu_general m ctx
              else if bit7_6 ctx = 1 then mmu_conditional m ctx
              else mmu_pbcc m ctx
         else if bit11_8 = 1 then mmu_saverestore m ctx
         else if bit11_8 = 5 then mmu_flush ctx
         else Some ctx)"

definition fp_names :: "(u16 \<times> string) list" where
  "fp_names = [
     (0x01, ''fint''), (0x02, ''fsinh''), (0x03, ''fintrz''), (0x06, ''flognp1''), (0x08, ''fetoxm1''),
     (0x09, ''ftanh''), (0x0a, ''fatan''), (0x0c, ''fasin''), (0x0d, ''fatanh''), (0x0e, ''fsin''),
     (0x0f, ''ftan''), (0x10, ''fetox''), (0x11, ''ftwotox''), (0x12, ''ftentox''), (0x14, ''flogn''),
     (0x15, ''flog10''), (0x16, ''flog2''), (0x19, ''fcosh''), (0x1c, ''facos''), (0x1d, ''fcos''),
     (0x1e, ''fgetexp''), (0x1f, ''fgetman''), (0x21, ''fmod''), (0x24, ''fsgldiv''), (0x25, ''frem''),
     (0x26, ''fscale''), (0x27, ''fsglmul''), (0x38, ''fcmp''), (0x3a, ''ftst'')]"

definition fp_instr :: "mem \<Rightarrow> dis_context \<Rightarrow> dis_context option" where
  "fp_instr m ctx =
     (case next_word m ctx of (ext, ctx) \<Rightarrow>
        let type = drop_bit 6 (ctx_instr ctx) AND 7;
            src_spec = drop_bit 10 ext AND 7;
            dest_reg = drop_bit 7 ext AND 7;
            opmode = ext AND 0x7f
        in if type = 0 \<and> \<not> bit ext 15 \<and> \<not> bit ext 13
           then if src_mode ctx = 0 \<and> src_reg ctx = 0 \<and> bit ext 14 \<and> src_spec = 7
                then do {
                  ctx \<leftarrow> print_a1 ''cr[%02x]'' [word_arg opmode] (ctx\<lparr>ctx_pf := Some ''fmove''\<rparr>);
                  text_a2 [CHR ''f'', CHR ''p'', reg_char dest_reg] ctx }
                else (case map_of fp_names opmode of
                        None \<Rightarrow> Some ctx
                      | Some pf \<Rightarrow> Some (ctx\<lparr>ctx_pf := Some pf\<rparr>))
           else Some ctx)"

subsection \<open>The instruction groups\<close>

definition set_op :: "string \<Rightarrow> ea_size \<Rightarrow> dis_context \<Rightarrow> dis_context" where
  "set_op pf sz ctx = ctx\<lparr>ctx_pf := Some pf, ctx_size := sz\<rparr>"

text \<open>\<^verbatim>\<open>case 0x0\<close>\<close>

definition dis_movep :: "mem \<Rightarrow> dis_context \<Rightarrow> dis_context option" where
  "dis_movep m ctx =
     (let ctx = set_op ''movep'' (if bit (ctx_instr ctx) 6 then ea_long else ea_word) ctx
      in if bit (ctx_instr ctx) 7
         then do {
           ctx \<leftarrow> text_a1 [CHR ''d'', reg_char (dest_reg ctx)] ctx;
           let (w, ctx) = next_word m ctx;
           print_a2 ''%d(a%c)'' [short_arg w, A32 (of_char (reg_char (src_reg ctx)))] ctx }
         else do {
           let (w, ctx) = next_word m ctx;
           ctx \<leftarrow> print_a1 ''%d(a%c)'' [short_arg w, A32 (of_char (reg_char (src_reg ctx)))] ctx;
           text_a2 [CHR ''d'', reg_char (dest_reg ctx)] ctx })"

definition dis_bit :: "mem \<Rightarrow> dis_context \<Rightarrow> dis_context option" where
  "dis_bit m ctx =
     (let ctx = ctx\<lparr>ctx_pf := Some (bits ! unat (bit7_6 ctx))\<rparr>
      in if bit (ctx_instr ctx) 8
         then do {
           ctx \<leftarrow> text_a1 [CHR ''d'', reg_char (dest_reg ctx)]
             (ctx\<lparr>ctx_size := if src_mode ctx \<noteq> 0 then ea_byte else ea_long\<rparr>);
           ea_a2 m (src_mode ctx) (src_reg ctx) (ctx_size ctx) ctx }
         else do {
           let (w, ctx) = next_word m ctx;
           ctx \<leftarrow> print_a1 ''#%d'' [word_arg (w AND 0xff)] ctx;
           ea_a2 m (src_mode ctx) (src_reg ctx) (ctx_size ctx) ctx })"

definition dis_immediate :: "mem \<Rightarrow> dis_context \<Rightarrow> dis_context option" where
  "dis_immediate m ctx =
     (let ctx = ctx\<lparr>ctx_pf := Some (misc2 ! unat (dest_reg ctx))\<rparr>
      in if src_mode ctx = 7 \<and> src_reg ctx = 4
         then if bit (ctx_instr ctx) 6
              then do {
                ctx \<leftarrow> text_a2 ''sr'' (ctx\<lparr>ctx_size := ea_word\<rparr>);
                ea_a1 m 7 4 ea_word ctx }
              else do {
                ctx \<leftarrow> text_a2 ''ccr'' (ctx\<lparr>ctx_size := ea_byte\<rparr>);
                ea_a1 m 7 4 ea_byte ctx }
         else let ctx = ctx\<lparr>ctx_size := disasm_sizemap ! unat (bit7_6 ctx)\<rparr>
              in if ctx_size ctx \<noteq> ea_unsized
                 then do {
                   ctx \<leftarrow> ea_a1 m 7 4 (ctx_size ctx) ctx;
                   ea_a2 m (src_mode ctx) (src_reg ctx) (ctx_size ctx) ctx }
                 else Some (ctx\<lparr>ctx_pf := None\<rparr>))"

definition dis_0 :: "mem \<Rightarrow> dis_context \<Rightarrow> dis_context option" where
  "dis_0 m ctx =
     (if bit (ctx_instr ctx) 8 \<or> drop_bit 8 (ctx_instr ctx) AND 0xf = 8
      then if src_mode ctx = 1 then dis_movep m ctx else dis_bit m ctx
      else dis_immediate m ctx)"

text \<open>\<^verbatim>\<open>case 0x1 .. 0x3\<close>\<close>

definition dis_move :: "mem \<Rightarrow> dis_context \<Rightarrow> dis_context option" where
  "dis_move m ctx =
     (let ctx = ctx\<lparr>ctx_size := move_sizemap ! unat (drop_bit 12 (ctx_instr ctx))\<rparr>
      in if dest_mode ctx = 1 \<and> ctx_size ctx = ea_byte then Some ctx
         else do {
           ctx \<leftarrow> ea_a1 m (src_mode ctx) (src_reg ctx) (ctx_size ctx)
             (ctx\<lparr>ctx_pf := Some (if dest_mode ctx = 1 then ''movea'' else ''move'')\<rparr>);
           ea_a2 m (dest_mode ctx) (dest_reg ctx) (ctx_size ctx) ctx })"

text \<open>\<^verbatim>\<open>case 0x4\<close>\<close>

definition dis_chk_lea :: "mem \<Rightarrow> dis_context \<Rightarrow> dis_context option" where
  "dis_chk_lea m ctx = do {
     ctx \<leftarrow> (if bit7_6 ctx = 2 then text_a2 ''d'' (set_op ''chk'' ea_word ctx)
             else text_a2 ''a'' (set_op ''lea'' ea_long ctx));
     ctx \<leftarrow> ea_a1 m (src_mode ctx) (src_reg ctx) (ctx_size ctx) ctx;
     map_option (\<lambda>b. ctx\<lparr>ctx_a2 := b\<rparr>) (store_at 1 (reg_char (dest_reg ctx)) (ctx_a2 ctx)) }"

definition dis_movem :: "mem \<Rightarrow> dis_context \<Rightarrow> dis_context option" where
  "dis_movem m ctx =
     (let ctx = set_op ''movem'' (if bit (ctx_instr ctx) 6 then ea_long else ea_word) ctx
      in case next_word m ctx of (w, ctx) \<Rightarrow>
           if dest_reg ctx = 4
           then do {
             ctx \<leftarrow> text_a1 (movem_regs w (src_mode ctx = 4)) ctx;
             ea_a2 m (src_mode ctx) (src_reg ctx) ea_long ctx }
           else do {
             ctx \<leftarrow> text_a2 (movem_regs w (src_mode ctx = 4)) ctx;
             ea_a1 m (src_mode ctx) (src_reg ctx) ea_long ctx })"

definition dis_4_special :: "mem \<Rightarrow> dis_context \<Rightarrow> dis_context option" where
  "dis_4_special m ctx =
     (let r = dest_reg ctx
      in if r = 0
         then do {
           ctx \<leftarrow> text_a1 ''sr'' (set_op ''move'' ea_word ctx);
           ea_a2 m (src_mode ctx) (src_reg ctx) ea_long ctx }
         else if r = 1
         then do {
           ctx \<leftarrow> text_a1 ''ccr'' (set_op ''move'' ea_word ctx);
           ea_a2 m (src_mode ctx) (src_reg ctx) ea_long ctx }
         else if r = 2
         then do {
           ctx \<leftarrow> ea_a1 m (src_mode ctx) (src_reg ctx) ea_long (set_op ''move'' ea_word ctx);
           text_a2 ''ccr'' ctx }
         else if r = 3
         then do {
           ctx \<leftarrow> ea_a1 m (src_mode ctx) (src_reg ctx) ea_long (set_op ''move'' ea_word ctx);
           text_a2 ''sr'' ctx }
         else if r = 4 then text_a1 [CHR ''d'', reg_char (src_reg ctx)] (set_op ''ext'' ea_long ctx)
         else if r = 5
         then if src_mode ctx = 7 \<and> src_reg ctx = 4 then Some (ctx\<lparr>ctx_pf := Some ''illegal''\<rparr>)
              else ea_a1 m (src_mode ctx) (src_reg ctx) ea_long (set_op ''tas'' ea_byte ctx)
         else if r = 7
         then ea_a1 m (src_mode ctx) (src_reg ctx) ea_long (ctx\<lparr>ctx_pf := Some ''jmp''\<rparr>)
         else Some ctx)"

text \<open>The name of a control register, by the lower twelve bits of the second word.\<close>

definition control_reg :: "u16 \<Rightarrow> string option" where
  "control_reg w =
     (let n = w AND 0xfff
      in if n = 0x000 then Some ''sfc'' else if n = 0x001 then Some ''dfc''
         else if n = 0x800 then Some ''usp'' else if n = 0x801 then Some ''vbr'' else None)"

definition dis_movec :: "mem \<Rightarrow> dis_context \<Rightarrow> dis_context option" where
  "dis_movec m ctx =
     (let ctx = set_op ''movec'' ea_long ctx;
          w = load16 m (ctx_p ctx);
          general = [if bit w 15 then CHR ''a'' else CHR ''d'', reg_char (drop_bit 12 w AND 7)]
      in if bit (ctx_instr ctx) 0
         then do {
           ctx \<leftarrow> text_a1 general ctx;
           ctx \<leftarrow> (case control_reg w of
                    Some s \<Rightarrow> text_a2 s ctx
                  | None \<Rightarrow> Some (ctx\<lparr>ctx_pf := None\<rparr>));
           Some (ctx\<lparr>ctx_p := ctx_p ctx + 2\<rparr>) }
         else do {
           ctx \<leftarrow> (case control_reg w of
                    Some s \<Rightarrow> text_a1 s ctx
                  | None \<Rightarrow> Some (ctx\<lparr>ctx_pf := None\<rparr>));
           ctx \<leftarrow> text_a2 general ctx;
           Some (ctx\<lparr>ctx_p := ctx_p ctx + 2\<rparr>) })"

definition dis_4e :: "mem \<Rightarrow> dis_context \<Rightarrow> dis_context option" where
  "dis_4e m ctx =
     (let mode = src_mode ctx; areg = [CHR ''a'', reg_char (src_reg ctx)]
      in if mode = 0 \<or> mode = 1
         then print_a1 ''#%d'' [word_arg (ctx_instr ctx AND 0xf)] (set_op ''trap'' ea_unsized ctx)
         else if mode = 2
         then do {
           ctx \<leftarrow> text_a1 areg (set_op ''link'' ea_unsized ctx);
           let (w, ctx) = next_word m ctx;
           print_a2 ''#%d'' [short_arg w] ctx }
         else if mode = 3 then text_a1 areg (set_op ''unlk'' ea_unsized ctx)
         else if mode = 4
         then do { ctx \<leftarrow> text_a1 areg (set_op ''move'' ea_long ctx); text_a2 ''usp'' ctx }
         else if mode = 5
         then do { ctx \<leftarrow> text_a1 ''usp'' (set_op ''move'' ea_long ctx); text_a2 areg ctx }
         else if mode = 6
         then do {
           ctx \<leftarrow> (if src_reg ctx = 2
                   then (case next_word m ctx of (w, ctx) \<Rightarrow> print_a1 ''#%d'' [short_arg w] ctx)
                   else Some ctx);
           Some (set_op (misc1 ! unat (src_reg ctx)) ea_unsized ctx) }
         else dis_movec m ctx)"

definition dis_4_sized :: "mem \<Rightarrow> dis_context \<Rightarrow> dis_context option" where
  "dis_4_sized m ctx =
     (let ctx = ctx\<lparr>ctx_size := disasm_sizemap ! unat (bit7_6 ctx)\<rparr>;
          r = dest_reg ctx;
          unary = (\<lambda>pf. ea_a1 m (src_mode ctx) (src_reg ctx) ea_long (ctx\<lparr>ctx_pf := Some pf\<rparr>));
          dreg = [CHR ''d'', reg_char (src_reg ctx)]
      in if r = 0 then unary ''negx''
         else if r = 1 then unary ''clr''
         else if r = 2 then unary ''neg''
         else if r = 3 then unary ''not''
         else if r = 4
         then if ctx_size ctx = ea_byte then Some (ctx\<lparr>ctx_pf := Some ''nbcd''\<rparr>)
              else if src_mode ctx = 0
              then if ctx_size ctx = ea_word then text_a1 dreg (ctx\<lparr>ctx_pf := Some ''swap''\<rparr>)
                   else text_a1 dreg (set_op ''ext'' ea_word ctx)
              else if bit7_6 ctx = 1
              then ea_a1 m (src_mode ctx) (src_reg ctx) ea_long (set_op ''pea'' ea_long ctx)
              else Some ctx
         else if r = 5 then unary ''tst''
         else if r = 7
         then if bit7_6 ctx = 1 then dis_4e m ctx
              else if bit7_6 ctx = 2
              then ea_a1 m (src_mode ctx) (src_reg ctx) ea_long (set_op ''jsr'' ea_unsized ctx)
              else Some ctx
         else Some ctx)"

definition dis_4 :: "mem \<Rightarrow> dis_context \<Rightarrow> dis_context option" where
  "dis_4 m ctx =
     (if bit (ctx_instr ctx) 8 then dis_chk_lea m ctx
      else if src_mode ctx \<noteq> 0 \<and> bit7_6 ctx AND 2 \<noteq> 0 \<and> dest_reg ctx AND 5 = 4 then dis_movem m ctx
      else if bit7_6 ctx = 3 then dis_4_special m ctx
      else dis_4_sized m ctx)"

text \<open>\<^verbatim>\<open>case 0x5 .. 0x7\<close>\<close>

definition dis_5 :: "mem \<Rightarrow> dis_context \<Rightarrow> dis_context option" where
  "dis_5 m ctx =
     (let cond = unat (drop_bit 8 (ctx_instr ctx) AND 0xf)
      in if bit7_6 ctx = 3
         then if src_mode ctx = 1
              then do {
                ctx \<leftarrow> text_a1 [CHR ''d'', reg_char (src_reg ctx)] (set_op (dbranches ! cond) ea_word ctx);
                let (w, ctx) = next_word m ctx;
                print_a2 ''%d'' [short_arg w] ctx }
              else ea_a1 m (src_mode ctx) (src_reg ctx) ea_long (set_op (sets ! cond) ea_byte ctx)
         else do {
           ctx \<leftarrow> text_a1 [CHR ''#'', if dest_reg ctx = 0 then CHR ''8'' else reg_char (dest_reg ctx)]
             (set_op (if bit (ctx_instr ctx) 8 then ''subq'' else ''addq'') (disasm_sizemap ! unat (bit7_6 ctx)) ctx);
           ea_a2 m (src_mode ctx) (src_reg ctx) ea_long ctx })"

definition dis_6 :: "mem \<Rightarrow> dis_context \<Rightarrow> dis_context option" where
  "dis_6 m ctx =
     (let pf = branches ! unat (drop_bit 8 (ctx_instr ctx) AND 0xf)
      in if ctx_instr ctx AND 0xff = 0
         then (case next_word m (set_op pf ea_word ctx) of (w, ctx) \<Rightarrow> print_a1 ''#%d'' [short_arg w] ctx)
         else print_a1 ''#%d'' [char_arg (ctx_instr ctx AND 0xff)] (set_op pf ea_byte ctx))"

definition dis_7 :: "mem \<Rightarrow> dis_context \<Rightarrow> dis_context option" where
  "dis_7 m ctx =
     (if bit (ctx_instr ctx) 8 then Some ctx
      else do {
        ctx \<leftarrow> print_a1 ''#%d'' [word_arg (ctx_instr ctx AND 0xff)] (set_op ''moveq'' ea_long ctx);
        text_a2 [CHR ''d'', reg_char (dest_reg ctx)] ctx })"

text \<open>\<^verbatim>\<open>case 0xc\<close>\<close>

definition dis_c :: "mem \<Rightarrow> dis_context \<Rightarrow> dis_context option" where
  "dis_c m ctx =
     (let exg = (\<lambda>t1 t2. do {
            ctx \<leftarrow> text_a1 [t1, reg_char (dest_reg ctx)] (set_op ''exg'' ea_long ctx);
            text_a2 [t2, reg_char (src_reg ctx)] ctx })
      in if dest_mode ctx = 5
         then if src_mode ctx = 0 then exg CHR ''d'' CHR ''d''
              else if src_mode ctx = 1 then exg CHR ''a'' CHR ''a''
              else Some ctx
         else if dest_mode ctx = 6 \<and> src_mode ctx = 1 then exg CHR ''d'' CHR ''a''
         else Some ctx)"

text \<open>The operands \<^verbatim>\<open>-(ay), -(ax)\<close> or \<^verbatim>\<open>dy, dx\<close> of the extended arithmetic.\<close>

definition extended_operands :: "bool \<Rightarrow> dis_context \<Rightarrow> dis_context option" where
  "extended_operands predec ctx =
     (if predec
      then do {
        ctx \<leftarrow> text_a1 [CHR ''-'', CHR ''('', CHR ''a'', reg_char (src_reg ctx), CHR '')''] ctx;
        text_a2 [CHR ''-'', CHR ''('', CHR ''a'', reg_char (dest_reg ctx), CHR '')''] ctx }
      else do {
        ctx \<leftarrow> text_a1 [CHR ''d'', reg_char (src_reg ctx)] ctx;
        text_a2 [CHR ''d'', reg_char (dest_reg ctx)] ctx })"

text \<open>\<^verbatim>\<open><ea>, <t>n\<close> and \<^verbatim>\<open>dn, <ea>\<close>\<close>

definition ea_to_reg :: "mem \<Rightarrow> ea_size \<Rightarrow> char \<Rightarrow> dis_context \<Rightarrow> dis_context option" where
  "ea_to_reg m sz t ctx = do {
     ctx \<leftarrow> ea_a1 m (src_mode ctx) (src_reg ctx) sz ctx;
     text_a2 [t, reg_char (dest_reg ctx)] ctx }"

definition reg_to_ea :: "mem \<Rightarrow> dis_context \<Rightarrow> dis_context option" where
  "reg_to_ea m ctx = do {
     ctx \<leftarrow> text_a1 [CHR ''d'', reg_char (dest_reg ctx)] ctx;
     ea_a2 m (src_mode ctx) (src_reg ctx) (ctx_size ctx) ctx }"

text \<open>\<^verbatim>\<open>case 0x8\<close>; the tests for the group are those of the source, which also names the group 0xc.\<close>

definition dis_8 :: "mem \<Rightarrow> dis_context \<Rightarrow> dis_context option" where
  "dis_8 m ctx =
     (let is8 = (drop_bit 12 (ctx_instr ctx) = 8)
      in if dest_mode ctx = 3 \<or> dest_mode ctx = 7
         then ea_to_reg m ea_word CHR ''d''
           (set_op (if is8 then (if dest_mode ctx = 3 then ''divu'' else ''divs'')
                    else (if dest_mode ctx = 3 then ''mulu'' else ''muls'')) ea_word ctx)
         else if dest_mode ctx = 4 \<and> src_mode ctx AND 6 = 0
         then extended_operands (bit (ctx_instr ctx) 3) (set_op (if is8 then ''sbcd'' else ''abcd'') ea_byte ctx)
         else let ctx = set_op (if is8 then ''or'' else ''and'') (disasm_sizemap ! unat (bit7_6 ctx)) ctx
              in if bit (ctx_instr ctx) 8 then ea_to_reg m (ctx_size ctx) CHR ''d'' ctx
                 else reg_to_ea m ctx)"

text \<open>\<^verbatim>\<open>case 0x9, 0xd\<close>\<close>

definition dis_9d :: "mem \<Rightarrow> dis_context \<Rightarrow> dis_context option" where
  "dis_9d m ctx =
     (let is9 = (drop_bit 12 (ctx_instr ctx) = 9)
      in if ctx_instr ctx AND 0x00c0 = 0x00c0
         then let sz = (if bit (ctx_instr ctx) 8 then ea_long else ea_word)
              in ea_to_reg m sz CHR ''a'' (set_op (if is9 then ''suba'' else ''adda'') sz ctx)
         else let sz = disasm_sizemap ! unat (bit7_6 ctx)
              in if ctx_instr ctx AND 0x0130 = 0x0100
                 then extended_operands (src_mode ctx AND 1 \<noteq> 0) (set_op (if is9 then ''subx'' else ''addx'') sz ctx)
                 else if bit (ctx_instr ctx) 8
                 then reg_to_ea m (set_op (if is9 then ''sub'' else ''add'') sz ctx)
                 else ea_to_reg m sz CHR ''d'' (set_op (if is9 then ''sub'' else ''add'') sz ctx))"

text \<open>\<^verbatim>\<open>case 0xb\<close>\<close>

definition dis_b :: "mem \<Rightarrow> dis_context \<Rightarrow> dis_context option" where
  "dis_b m ctx =
     (if ctx_instr ctx AND 0x00c0 = 0x00c0
      then let sz = (if bit (ctx_instr ctx) 8 then ea_long else ea_word)
           in ea_to_reg m sz CHR ''a'' (set_op ''cmpa'' sz ctx)
      else let sz = disasm_sizemap ! unat (bit7_6 ctx)
           in if bit (ctx_instr ctx) 8
              then if src_mode ctx = 1
                   then do {
                     ctx \<leftarrow> text_a1 [CHR ''('', CHR ''a'', reg_char (src_reg ctx), CHR '')'', CHR ''+'']
                       (set_op ''cmpm'' sz ctx);
                     text_a2 [CHR ''('', CHR ''a'', reg_char (dest_reg ctx), CHR '')'', CHR ''+''] ctx }
                   else reg_to_ea m (set_op ''eor'' sz ctx)
              else ea_to_reg m sz CHR ''d'' (set_op ''cmp'' sz ctx))"

text \<open>\<^verbatim>\<open>case 0xe\<close>\<close>

definition dis_e :: "mem \<Rightarrow> dis_context \<Rightarrow> dis_context option" where
  "dis_e m ctx =
     (let kind = unat (src_mode ctx AND 3);
          pf = (if bit (ctx_instr ctx) 8 then lshifts ! kind else rshifts ! kind)
      in if bit7_6 ctx = 3
         then ea_a1 m (src_mode ctx) (src_reg ctx) ea_long (set_op pf ea_word ctx)
         else do {
           ctx \<leftarrow> text_a1 [if src_mode ctx AND 4 \<noteq> 0 then CHR ''d'' else CHR ''#'', reg_char (dest_reg ctx)]
             (set_op pf (disasm_sizemap ! unat (bit7_6 ctx)) ctx);
           text_a2 [CHR ''d'', reg_char (src_reg ctx)] ctx })"

text \<open>\<^verbatim>\<open>case 0xf\<close>\<close>

definition dis_f :: "mem \<Rightarrow> dis_context \<Rightarrow> dis_context option" where
  "dis_f m ctx =
     (if dest_reg ctx = 0 then mmu_instr m ctx
      else if dest_reg ctx = 1 then fp_instr m ctx
      else Some ctx)"

definition dis_decode :: "mem \<Rightarrow> dis_context \<Rightarrow> dis_context option" where
  "dis_decode m ctx =
     (let group = drop_bit 12 (ctx_instr ctx)
      in if group = 0x0 then dis_0 m ctx
         else if group = 0x1 \<or> group = 0x2 \<or> group = 0x3 then dis_move m ctx
         else if group = 0x4 then dis_4 m ctx
         else if group = 0x5 then dis_5 m ctx
         else if group = 0x6 then dis_6 m ctx
         else if group = 0x7 then dis_7 m ctx
         else if group = 0xc then dis_c m ctx
         else if group = 0x8 then dis_8 m ctx
         else if group = 0x9 \<or> group = 0xd then dis_9d m ctx
         else if group = 0xb then dis_b m ctx
         else if group = 0xe then dis_e m ctx
         else if group = 0xf then dis_f m ctx
         else Some ctx)"

subsection \<open>The instruction string\<close>

definition dis_output :: "dis_context \<Rightarrow> (int \<times> string) option" where
  "dis_output ctx =
     (case ctx_pf ctx of
        None \<Rightarrow> Some (1, ''???'')
      | Some pf \<Rightarrow> do {
          str \<leftarrow> (if ctx_size ctx \<noteq> ea_unsized
                  then sprintf_text ''%s.%c'' [AStr (Some pf), A32 (ea_size_code (ctx_size ctx))] else Some pf);
          if hd (ctx_a1 ctx) \<noteq> CHR 0x00
          then do {
            a1 \<leftarrow> buf_string (ctx_a1 ctx);
            let str = str @ '' '' @ a1;
            if hd (ctx_a2 ctx) \<noteq> CHR 0x00
            then do { a2 \<leftarrow> buf_string (ctx_a2 ctx); Some (0, str @ '', '' @ a2) }
            else Some (0, str) }
          else Some (0, str) })"

text \<open>The return value, the string and the new value of \<^verbatim>\<open>*p\<close>.\<close>

definition dis_start :: "dis_machtype \<Rightarrow> mem \<Rightarrow> u32 \<Rightarrow> dis_context" where
  "dis_start machtype m p =
     \<lparr>ctx_machtype = machtype, ctx_p = p + 2, ctx_a1 = replicate 32 CHR 0x00, ctx_a2 = replicate 32 CHR 0x00,
      ctx_pf = None, ctx_instr = load16 m p, ctx_size = ea_unsized\<rparr>"

definition disassemble :: "dis_machtype \<Rightarrow> mem \<Rightarrow> u32 \<Rightarrow> (int \<times> string \<times> u32) option" where
  "disassemble machtype m p = do {
     ctx \<leftarrow> dis_decode m (dis_start machtype m p);
     (r, str) \<leftarrow> dis_output ctx;
     Some (r, str, ctx_p ctx) }"

end
