(* ===== verification/Disasm_Bounds.thy ===== *)
theory Disasm_Bounds
  imports Disasm
begin

text \<open>
  The disassembler stays inside its buffers: what \<^verbatim>\<open>sprintf\<close> prints for each operand format,
  a small calculus for the decoding steps (\<open>good\<close> describes a context, \<open>post\<close> a step that
  succeeds), the bounds of the result, and the two defects of the register lists.
\<close>

subsection \<open>The operand formats\<close>

lemma sprintf_textI:
  assumes "fmt = fmt_string ds" "list_all directive_ok ds" "render ds args = Some t" "length t < 2147483647"
  shows "sprintf_text fmt args = Some t"
proof -
  obtain b where b: "snprintf 0x7fffffff (fmt_string ds) args (\<lambda>_. CHR 0x00) = Some (adr (length t), b)"
      "map (\<lambda>i. b (adr i)) [0..<length t] = t"
    using snprintf_render [OF assms(2,3), of "0x7fffffff"] assms(4) by auto
  then show ?thesis using assms(4) by (simp add: sprintf_text_def sprintf_def snprintf_def assms(1))
qed

definition dec_text :: "u32 \<Rightarrow> string" where
  "dec_text u = (case sign_text CHR ''d'' u of (sg, v) \<Rightarrow> sg @ decimal_text v)"

lemma dec_field_plain: "dec_field CHR ''d'' [] u = dec_text u"
  by (simp add: dec_field_def dec_text_def decimal_value_def)

lemma width_ok_Nil: "width_ok []"
  by (simp add: width_ok_def decimal_value_def)

lemma width_ok_02: "width_ok ''02''"
  by (simp add: width_ok_def decimal_value_def is_digit_def)

lemma char_arg_char: "char_of (unat (of_char c :: u32)) = c"
proof -
  have "unat (of_char c :: u32) = unat (adr (of_char c))" by (simp add: of_nat_of_char)
  also have "\<dots> = of_char c"
  proof (rule unat_adr)
    have "of_char c < (256 :: nat)" by (metis of_char_mod_256 mod_less_divisor zero_less_numeral)
    then show "of_char c < (4294967296 :: nat)" by linarith
  qed
  finally show ?thesis by simp
qed

lemma length_numeral_text: "1 < base \<Longrightarrow> u < base ^ Suc k \<Longrightarrow> length (numeral_text base ds u) \<le> Suc k"
proof (induction k arbitrary: u)
  case 0
  then show ?case by (subst numeral_text.simps) simp
next
  case (Suc k)
  have "u div base < base ^ Suc k" using Suc.prems by (simp add: less_mult_imp_div_less mult.commute)
  then show ?case using Suc.IH [of "u div base"] Suc.prems(1) by (subst numeral_text.simps) simp
qed

lemma length_decimal_text: "length (decimal_text u) \<le> 10"
  using length_numeral_text [of 10 "unat u" 9] unat_bound [of u] by (simp add: decimal_text_def)

lemma length_dec_text: "length (dec_text u) \<le> 11"
  using length_decimal_text [of u] length_decimal_text [of "- u"] by (simp add: dec_text_def sign_text_def)

lemma length_hex_text: "length (hex_text ch u) \<le> 8"
  using length_numeral_text [of 16 "unat u" 7] unat_bound [of u] by (simp add: hex_text_def)

lemma length_dec_reg: "length (dec_text (ucast (r AND 7 :: u16))) \<le> 1"
proof -
  have "r AND 7 = take_bit 3 r" by (simp add: take_bit_eq_mask mask_eq_exp_minus_1)
  then have lt: "unat (ucast (r AND 7) :: u32) < 8"
    using take_bit_nat_less_exp [of 3 "unat r"] by (simp add: unsigned_ucast_eq unsigned_take_bit_eq take_bit_nat_eq_self)
  have "\<not> bit (ucast (r AND 7) :: u32) 31" by (simp add: bit_simps)
  then show ?thesis
    using lt length_numeral_text [of 10 "unat (ucast (r AND 7) :: u32)" 0 "''0123456789''"]
    by (simp add: dec_text_def sign_text_def decimal_text_def)
qed

lemmas format_simps = fmt_string_def width_ok_Nil width_ok_02 dec_field_plain char_arg_char

lemma sprintf_imm: "sprintf_text ''#%d'' [A32 u] = Some (''#'' @ dec_text u)"
  using length_dec_text [of u]
  by (intro sprintf_textI [of _ "[Lit CHR ''#'', Dec CHR ''d'' []]"]) (simp_all add: format_simps)

lemma sprintf_num: "sprintf_text ''%d'' [A32 u] = Some (dec_text u)"
  using length_dec_text [of u]
  by (intro sprintf_textI [of _ "[Dec CHR ''d'' []]"]) (simp_all add: format_simps)

lemma sprintf_movep: "sprintf_text ''%d(a%c)'' [A32 u, A32 (of_char c)] = Some (dec_text u @ ''(a'' @ [c] @ '')'')"
  using length_dec_text [of u]
  by (intro sprintf_textI [of _ "[Dec CHR ''d'' [], Lit CHR ''('', Lit CHR ''a'', Chr, Lit CHR '')'']"])
     (simp_all add: format_simps)

lemma sprintf_disp:
  "sprintf_text ''%d(a%d)'' [A32 u, A32 r] = Some (dec_text u @ ''(a'' @ dec_text r @ '')'')"
  using length_dec_text [of u] length_dec_text [of r]
  by (intro sprintf_textI [of _ "[Dec CHR ''d'' [], Lit CHR ''('', Lit CHR ''a'', Dec CHR ''d'' [], Lit CHR '')'']"])
     (simp_all add: format_simps)

lemma sprintf_index:
  "sprintf_text ''%d(a%d, %c%d)'' [A32 u, A32 r, A32 (of_char c), A32 x] =
   Some (dec_text u @ ''(a'' @ dec_text r @ '', '' @ [c] @ dec_text x @ '')'')"
  using length_dec_text [of u] length_dec_text [of r] length_dec_text [of x]
  by (intro sprintf_textI [of _ "[Dec CHR ''d'' [], Lit CHR ''('', Lit CHR ''a'', Dec CHR ''d'' [], Lit CHR '','',
        Lit CHR '' '', Chr, Dec CHR ''d'' [], Lit CHR '')'']"])
     (simp_all add: format_simps)

lemma sprintf_abs: "sprintf_text ''%x'' [A32 u] = Some (hex_text CHR ''x'' u)"
  using length_hex_text [of "CHR ''x''" u]
  by (intro sprintf_textI [of _ "[Hex CHR ''x'' []]"]) (simp_all add: format_simps decimal_value_def)

lemma sprintf_pc: "sprintf_text ''%d(pc)'' [A32 u] = Some (dec_text u @ ''(pc)'')"
  using length_dec_text [of u]
  by (intro sprintf_textI [of _ "[Dec CHR ''d'' [], Lit CHR ''('', Lit CHR ''p'', Lit CHR ''c'', Lit CHR '')'']"])
     (simp_all add: format_simps)

lemma sprintf_pc_index:
  "sprintf_text ''%d(pc, %c%d)'' [A32 u, A32 (of_char c), A32 x] =
   Some (dec_text u @ ''(pc, '' @ [c] @ dec_text x @ '')'')"
  using length_dec_text [of u] length_dec_text [of x]
  by (intro sprintf_textI [of _ "[Dec CHR ''d'' [], Lit CHR ''('', Lit CHR ''p'', Lit CHR ''c'', Lit CHR '','',
        Lit CHR '' '', Chr, Dec CHR ''d'' [], Lit CHR '')'']"])
     (simp_all add: format_simps)

lemma sprintf_cr:
  "sprintf_text ''cr[%02x]'' [A32 u] =
   Some (''cr['' @ replicate (2 - length (hex_text CHR ''x'' u)) CHR ''0'' @ hex_text CHR ''x'' u @ '']'')"
  using length_hex_text [of "CHR ''x''" u]
  by (intro sprintf_textI [of _ "[Lit CHR ''c'', Lit CHR ''r'', Lit CHR ''['', Hex CHR ''x'' ''02'', Lit CHR '']'']"])
     (simp_all add: format_simps decimal_value_def field_pad_def)

lemma sprintf_op:
  "length pf < 2147483640 \<Longrightarrow> sprintf_text ''%s.%c'' [AStr (Some pf), A32 (of_char c)] = Some (pf @ ''.'' @ [c])"
  by (intro sprintf_textI [of _ "[Str [], Lit CHR ''.'', Chr]"]) (simp_all add: format_simps decimal_value_def)

lemmas sprintf_forms =
  sprintf_imm sprintf_num sprintf_movep sprintf_disp sprintf_index sprintf_abs sprintf_pc sprintf_pc_index sprintf_cr

subsection \<open>The calculus\<close>

text \<open>A buffer that has room for an operand and \<^verbatim>\<open>???\<close>, and one that holds a string.\<close>

definition fresh :: "string \<Rightarrow> bool" where
  "fresh b \<longleftrightarrow> length b = 32 \<and> b ! 28 = CHR 0x00 \<and> b ! 31 = CHR 0x00"

definition filled_buf :: "string \<Rightarrow> bool" where
  "filled_buf b \<longleftrightarrow> length b = 32 \<and> CHR 0x00 \<in> set b"

lemma fresh_filled: "fresh b \<Longrightarrow> filled_buf b"
  using nth_mem [of 31 b] by (auto simp: fresh_def filled_buf_def)

lemma store_text_fresh: "fresh b \<Longrightarrow> length s \<le> 28 \<Longrightarrow> \<exists>b'. store_text s b = Some b' \<and> fresh b'"
  by (auto simp: fresh_def store_text_def nth_append)

lemma store_at_fresh: "fresh b \<Longrightarrow> i < 28 \<Longrightarrow> \<exists>b'. store_at i c b = Some b' \<and> fresh b'"
  by (auto simp: fresh_def store_at_def)

lemma store_text_filled:
  assumes b: "fresh b" "length s \<le> 31"
  shows "\<exists>b'. store_text s b = Some b' \<and> filled_buf b'"
proof -
  let ?b = "s @ drop (length s) b"
  have "length ?b = 32" using b by (simp add: fresh_def)
  moreover have "?b ! 31 = CHR 0x00" using b by (auto simp: fresh_def nth_append)
  ultimately have "CHR 0x00 \<in> set ?b" using nth_mem [of 31 ?b] by simp
  then show ?thesis using b by (simp add: store_text_def filled_buf_def fresh_def)
qed

lemma print_buf_fresh:
  "fresh b \<Longrightarrow> sprintf_text fmt args = Some t \<Longrightarrow> length t \<le> 28 \<Longrightarrow> \<exists>b'. print_buf fmt args b = Some b' \<and> fresh b'"
  by (auto simp: fresh_def store_text_def print_buf_def nth_append nth_Cons')

lemma string_length: "b ! i = CHR 0x00 \<Longrightarrow> length (takeWhile (\<lambda>c. c \<noteq> CHR 0x00) b) \<le> i"
proof (rule ccontr)
  let ?t = "takeWhile (\<lambda>c. c \<noteq> CHR 0x00) b"
  assume z: "b ! i = CHR 0x00" and "\<not> length ?t \<le> i"
  then have "i < length ?t" by simp
  then have "?t ! i \<in> set ?t" "?t ! i = b ! i" by (rule nth_mem, rule takeWhile_nth)
  then show False using z by (auto dest: set_takeWhileD)
qed

lemma strcat_buf_filled: "fresh b \<Longrightarrow> \<exists>b'. strcat_buf ''???'' b = Some b' \<and> filled_buf b'"
proof -
  assume b: "fresh b"
  then have "length (takeWhile (\<lambda>c. c \<noteq> CHR 0x00) b) \<le> 28" by (intro string_length) (simp add: fresh_def)
  moreover have "CHR 0x00 \<in> set b" "length b = 32" using fresh_filled [OF b] by (auto simp: filled_buf_def)
  ultimately show ?thesis by (auto simp: strcat_buf_def buf_string_def store_text_def filled_buf_def)
qed

text \<open>The texts of all operand formats are short.\<close>

lemma print_buf_forms:
  assumes b: "fresh b"
  shows "\<exists>b'. print_buf ''#%d'' [A32 u] b = Some b' \<and> fresh b'"
    "\<exists>b'. print_buf ''%d'' [A32 u] b = Some b' \<and> fresh b'"
    "\<exists>b'. print_buf ''%d(a%c)'' [A32 u, A32 (of_char c)] b = Some b' \<and> fresh b'"
    "\<exists>b'. print_buf ''%d(a%d)'' [A32 u, A32 (ucast (r AND 7 :: u16))] b = Some b' \<and> fresh b'"
    "\<exists>b'. print_buf ''%d(a%d, %c%d)'' [A32 u, A32 (ucast (r AND 7 :: u16)), A32 (of_char c), A32 (ucast (BEW_REGISTER x))] b = Some b' \<and> fresh b'"
    "\<exists>b'. print_buf ''%x'' [A32 u] b = Some b' \<and> fresh b'"
    "\<exists>b'. print_buf ''%d(pc)'' [A32 u] b = Some b' \<and> fresh b'"
    "\<exists>b'. print_buf ''%d(pc, %c%d)'' [A32 u, A32 (of_char c), A32 (ucast (BEW_REGISTER x))] b = Some b' \<and> fresh b'"
    "\<exists>b'. print_buf ''cr[%02x]'' [A32 u] b = Some b' \<and> fresh b'"
proof -
  note u = length_dec_text [of u]
  note h = length_hex_text [of "CHR ''x''" u]
  note r = length_dec_reg [of r]
  have "BEW_REGISTER x = drop_bit 12 x AND 7"
    by (rule bit_word_eqI) (auto simp: BEW_REGISTER_def bit_simps)
  then have x: "length (dec_text (ucast (BEW_REGISTER x))) \<le> 1" using length_dec_reg by simp
  show "\<exists>b'. print_buf ''#%d'' [A32 u] b = Some b' \<and> fresh b'"
    by (rule print_buf_fresh [OF b sprintf_imm]) (use u in simp)
  show "\<exists>b'. print_buf ''%d'' [A32 u] b = Some b' \<and> fresh b'"
    by (rule print_buf_fresh [OF b sprintf_num]) (use u in simp)
  show "\<exists>b'. print_buf ''%d(a%c)'' [A32 u, A32 (of_char c)] b = Some b' \<and> fresh b'"
    by (rule print_buf_fresh [OF b sprintf_movep]) (use u in simp)
  show "\<exists>b'. print_buf ''%d(a%d)'' [A32 u, A32 (ucast (r AND 7 :: u16))] b = Some b' \<and> fresh b'"
    by (rule print_buf_fresh [OF b sprintf_disp]) (use u r in simp)
  show "\<exists>b'. print_buf ''%d(a%d, %c%d)'' [A32 u, A32 (ucast (r AND 7 :: u16)), A32 (of_char c), A32 (ucast (BEW_REGISTER x))] b = Some b' \<and> fresh b'"
    by (rule print_buf_fresh [OF b sprintf_index]) (use u r x in simp)
  show "\<exists>b'. print_buf ''%x'' [A32 u] b = Some b' \<and> fresh b'"
    by (rule print_buf_fresh [OF b sprintf_abs]) (use h in simp)
  show "\<exists>b'. print_buf ''%d(pc)'' [A32 u] b = Some b' \<and> fresh b'"
    by (rule print_buf_fresh [OF b sprintf_pc]) (use u in simp)
  show "\<exists>b'. print_buf ''%d(pc, %c%d)'' [A32 u, A32 (of_char c), A32 (ucast (BEW_REGISTER x))] b = Some b' \<and> fresh b'"
    by (rule print_buf_fresh [OF b sprintf_pc_index]) (use u x in simp)
  show "\<exists>b'. print_buf ''cr[%02x]'' [A32 u] b = Some b' \<and> fresh b'"
    by (rule print_buf_fresh [OF b sprintf_cr]) (use h in simp)
qed

text \<open>The size of \<open>k\<close> instruction words.\<close>

definition words :: "nat \<Rightarrow> u32" where
  "words k = adr (2 * k)"

lemma words_add: "words (a + b) = words a + words b"
  by (simp add: words_def of_nat_add distrib_left)

lemma words_small: "words 0 = 0" "words 1 = 2" "words (Suc 0) = 2" "words 2 = 4"
  by (simp_all add: words_def)

text \<open>An operation on the position and one buffer: at most \<open>2\<close> words are read.\<close>

definition ea_post :: "u32 \<Rightarrow> (u32 \<times> string) option \<Rightarrow> bool" where
  "ea_post p r \<longleftrightarrow> (\<exists>k b. r = Some (p + words k, b) \<and> k \<le> 2 \<and> filled_buf b)"

lemma ea_post_pair:
  assumes "\<exists>b. r = Some b \<and> fresh b"
  shows "ea_post p (map_option (Pair p) r)" "ea_post p (map_option (Pair (p + 2)) r)"
    "ea_post p (map_option (Pair (p + 4)) r)"
proof -
  obtain b where "r = Some b" "filled_buf b" using assms fresh_filled by blast
  moreover have "p + 2 = p + words 1" "p + 4 = p + words 2" "p = p + words 0" by (simp_all add: words_small)
  ultimately show "ea_post p (map_option (Pair p) r)" "ea_post p (map_option (Pair (p + 2)) r)"
    "ea_post p (map_option (Pair (p + 4)) r)"
    unfolding ea_post_def by fastforce+
qed

lemma ea_post_if: "ea_post p x \<Longrightarrow> ea_post p y \<Longrightarrow> ea_post p (if c then x else y)"
  by simp

lemma ea_imm_bounds:
  assumes b: "fresh b"
  shows "ea_post p (ea_imm m sz p b)"
proof (cases sz)
  case ea_unsized
  have "\<exists>b'. strcat_buf ''???'' b = Some b' \<and> filled_buf b'" by (rule strcat_buf_filled [OF b])
  then show ?thesis by (auto simp: ea_imm_def ea_unsized ea_post_def words_small intro!: exI [of _ "0 :: nat"])
qed (use b in \<open>auto simp: ea_imm_def char_arg_def short_arg_def
      intro!: ea_post_pair print_buf_forms store_text_fresh\<close>)

lemma ea_bounds:
  assumes b: "fresh b"
  shows "ea_post p (ea m mode reg sz p b)"
proof -
  have "\<exists>b'. (store_at 4 CHR ''+'' b \<bind> store_text [CHR ''('', CHR ''a'', c, CHR '')'']) = Some b' \<and> fresh b'" for c
    using store_at_fresh [OF b, of 4 "CHR ''+''"] store_text_fresh [of _ "[CHR ''('', CHR ''a'', c, CHR '')'']"] by fastforce
  note plus = this
  show ?thesis
    unfolding ea_def Let_def char_arg_def short_arg_def word_arg_def
    by (intro ea_post_if ea_post_pair print_buf_forms [OF b] store_text_fresh [OF b] ea_imm_bounds [OF b] plus) simp_all
qed

text \<open>
  A context \<open>k\<close> words behind the start \<open>p0\<close> of the instruction, whose buffers satisfy \<open>f1\<close> and
  \<open>f2\<close>, and a step that leads to such a context.
\<close>

definition good :: "u32 \<Rightarrow> nat \<Rightarrow> (string \<Rightarrow> bool) \<Rightarrow> (string \<Rightarrow> bool) \<Rightarrow> dis_context \<Rightarrow> bool" where
  "good p0 k f1 f2 ctx \<longleftrightarrow>
     (\<exists>j. 1 \<le> j \<and> j \<le> k \<and> ctx_p ctx = p0 + words j) \<and> f1 (ctx_a1 ctx) \<and> f2 (ctx_a2 ctx) \<and>
     (\<forall>pf. ctx_pf ctx = Some pf \<longrightarrow> length pf \<le> 8)"

definition post :: "u32 \<Rightarrow> nat \<Rightarrow> (string \<Rightarrow> bool) \<Rightarrow> (string \<Rightarrow> bool) \<Rightarrow> dis_context option \<Rightarrow> bool" where
  "post p0 k f1 f2 r \<longleftrightarrow> (\<exists>ctx. r = Some ctx \<and> good p0 k f1 f2 ctx)"

lemma good_update [simp]:
  "good p0 k f1 f2 (ctx\<lparr>ctx_size := sz\<rparr>) \<longleftrightarrow> good p0 k f1 f2 ctx"
  "good p0 k f1 f2 ctx \<Longrightarrow> good p0 k f1 f2 (ctx\<lparr>ctx_pf := None\<rparr>)"
  "good p0 k f1 f2 ctx \<Longrightarrow> length pf \<le> 8 \<Longrightarrow> good p0 k f1 f2 (ctx\<lparr>ctx_pf := Some pf\<rparr>)"
  "good p0 k f1 f2 ctx \<Longrightarrow> length pf \<le> 8 \<Longrightarrow> good p0 k f1 f2 (set_op pf sz ctx)"
  by (auto simp: good_def set_op_def)

lemma good_next: "good p0 k f1 f2 ctx \<Longrightarrow> good p0 (Suc k) f1 f2 (ctx\<lparr>ctx_p := ctx_p ctx + 2\<rparr>)"
proof -
  assume g: "good p0 k f1 f2 ctx"
  then obtain j where j: "1 \<le> j" "j \<le> k" "ctx_p ctx = p0 + words j" by (auto simp: good_def)
  have "ctx_p ctx + 2 = p0 + words (j + 1)" by (simp only: j words_add words_small add.assoc)
  then show ?thesis using g j unfolding good_def by (intro conjI exI [of _ "j + 1"]) auto
qed

lemma good_weaken:
  "good p0 k f1 f2 ctx \<Longrightarrow> k \<le> n \<Longrightarrow> (\<And>b. f1 b \<Longrightarrow> g1 b) \<Longrightarrow> (\<And>b. f2 b \<Longrightarrow> g2 b) \<Longrightarrow> good p0 n g1 g2 ctx"
  unfolding good_def by (meson order_trans)

lemma post_Some: "good p0 k f1 f2 ctx \<Longrightarrow> post p0 k f1 f2 (Some ctx)"
  by (simp add: post_def)

lemma post_bind:
  "post p0 k f1 f2 r \<Longrightarrow> (\<And>ctx. good p0 k f1 f2 ctx \<Longrightarrow> post p0 n g1 g2 (f ctx)) \<Longrightarrow> post p0 n g1 g2 (r \<bind> f)"
  by (auto simp: post_def)

lemma post_weaken:
  "post p0 k f1 f2 r \<Longrightarrow> k \<le> n \<Longrightarrow> (\<And>b. f1 b \<Longrightarrow> g1 b) \<Longrightarrow> (\<And>b. f2 b \<Longrightarrow> g2 b) \<Longrightarrow> post p0 n g1 g2 r"
  unfolding post_def using good_weaken by blast

lemma post_a1: "good p0 k f1 f2 ctx \<Longrightarrow> \<exists>b. r = Some b \<and> g1 b \<Longrightarrow> post p0 k g1 f2 (map_option (\<lambda>b. ctx\<lparr>ctx_a1 := b\<rparr>) r)"
  by (auto simp: post_def good_def)

lemma post_a2: "good p0 k f1 f2 ctx \<Longrightarrow> \<exists>b. r = Some b \<and> g2 b \<Longrightarrow> post p0 k f1 g2 (map_option (\<lambda>b. ctx\<lparr>ctx_a2 := b\<rparr>) r)"
  by (auto simp: post_def good_def)

lemma good_fresh: "good p0 k fresh f2 ctx \<Longrightarrow> fresh (ctx_a1 ctx)" "good p0 k f1 fresh ctx \<Longrightarrow> fresh (ctx_a2 ctx)"
  by (simp_all add: good_def)

lemma post_text_a1: "good p0 k fresh f2 ctx \<Longrightarrow> length s \<le> 28 \<Longrightarrow> post p0 k fresh f2 (text_a1 s ctx)"
  unfolding text_a1_def by (rule post_a1) (auto intro: store_text_fresh good_fresh)

lemma post_text_a2: "good p0 k f1 fresh ctx \<Longrightarrow> length s \<le> 28 \<Longrightarrow> post p0 k f1 fresh (text_a2 s ctx)"
  unfolding text_a2_def by (rule post_a2) (auto intro: store_text_fresh good_fresh)

lemma post_store_a2:
  "good p0 k f1 fresh ctx \<Longrightarrow> i < 28 \<Longrightarrow> post p0 k f1 fresh (map_option (\<lambda>b. ctx\<lparr>ctx_a2 := b\<rparr>) (store_at i c (ctx_a2 ctx)))"
  by (rule post_a2) (auto intro: store_at_fresh good_fresh)

lemma post_print_a1:
  "good p0 k fresh f2 ctx \<Longrightarrow> \<exists>b. print_buf fmt args (ctx_a1 ctx) = Some b \<and> fresh b \<Longrightarrow> post p0 k fresh f2 (print_a1 fmt args ctx)"
  unfolding print_a1_def by (rule post_a1)

lemma post_print_a2:
  "good p0 k f1 fresh ctx \<Longrightarrow> \<exists>b. print_buf fmt args (ctx_a2 ctx) = Some b \<and> fresh b \<Longrightarrow> post p0 k f1 fresh (print_a2 fmt args ctx)"
  unfolding print_a2_def by (rule post_a2)

lemma good_ea: "good p0 k f1 f2 ctx \<Longrightarrow> j \<le> 2 \<Longrightarrow> good p0 (k + 2) f1 f2 (ctx\<lparr>ctx_p := ctx_p ctx + words j\<rparr>)"
proof -
  assume g: "good p0 k f1 f2 ctx" and j2: "j \<le> 2"
  then obtain i where i: "1 \<le> i" "i \<le> k" "ctx_p ctx = p0 + words i" by (auto simp: good_def)
  have "ctx_p ctx + words j = p0 + words (i + j)" by (simp only: i words_add add.assoc)
  then show ?thesis using g i j2 unfolding good_def by (intro conjI exI [of _ "i + j"]) auto
qed

lemma post_ea_a1: "good p0 k fresh f2 ctx \<Longrightarrow> post p0 (k + 2) filled_buf f2 (ea_a1 m mode reg sz ctx)"
proof -
  assume g: "good p0 k fresh f2 ctx"
  obtain j b where e: "ea m mode reg sz (ctx_p ctx) (ctx_a1 ctx) = Some (ctx_p ctx + words j, b)" "j \<le> 2" "filled_buf b"
    using ea_bounds [OF good_fresh(1) [OF g], of "ctx_p ctx" m mode reg sz] unfolding ea_post_def by blast
  have "good p0 (k + 2) filled_buf f2 (ctx\<lparr>ctx_p := ctx_p ctx + words j, ctx_a1 := b\<rparr>)"
    using good_ea [OF g e(2)] e(3) by (simp add: good_def)
  then show ?thesis by (simp add: ea_a1_def e(1) post_def)
qed

lemma post_ea_a2: "good p0 k f1 fresh ctx \<Longrightarrow> post p0 (k + 2) f1 filled_buf (ea_a2 m mode reg sz ctx)"
proof -
  assume g: "good p0 k f1 fresh ctx"
  obtain j b where e: "ea m mode reg sz (ctx_p ctx) (ctx_a2 ctx) = Some (ctx_p ctx + words j, b)" "j \<le> 2" "filled_buf b"
    using ea_bounds [OF good_fresh(2) [OF g], of "ctx_p ctx" m mode reg sz] unfolding ea_post_def by blast
  have "good p0 (k + 2) f1 filled_buf (ctx\<lparr>ctx_p := ctx_p ctx + words j, ctx_a2 := b\<rparr>)"
    using good_ea [OF g e(2)] e(3) by (simp add: good_def)
  then show ?thesis by (simp add: ea_a2_def e(1) post_def)
qed

lemma post_if: "(c \<Longrightarrow> post p0 n g1 g2 x) \<Longrightarrow> (\<not> c \<Longrightarrow> post p0 n g1 g2 y) \<Longrightarrow> post p0 n g1 g2 (if c then x else y)"
  by simp

lemma post_case:
  "(x = None \<Longrightarrow> post p0 n g1 g2 a) \<Longrightarrow> (\<And>y. x = Some y \<Longrightarrow> post p0 n g1 g2 (b y)) \<Longrightarrow>
   post p0 n g1 g2 (case x of None \<Rightarrow> a | Some y \<Rightarrow> b y)"
  by (cases x) auto

lemma post_next:
  "good p0 k f1 f2 ctx \<Longrightarrow> (\<And>w ctx. good p0 (Suc k) f1 f2 ctx \<Longrightarrow> post p0 n g1 g2 (f w ctx)) \<Longrightarrow>
   post p0 n g1 g2 (case next_word m ctx of (w, ctx) \<Rightarrow> f w ctx)"
  by (simp add: next_word_def good_next)

definition weaker :: "(string \<Rightarrow> bool) \<Rightarrow> bool" where
  "weaker f \<longleftrightarrow> (\<forall>b. f b \<longrightarrow> filled_buf b)"

lemma weaker_simps [simp]: "weaker fresh" "weaker filled_buf"
  by (simp_all add: weaker_def fresh_filled)

text \<open>The end of a step: at most five words.\<close>

lemma post_end: "post p0 k f1 f2 r \<Longrightarrow> k \<le> 5 \<Longrightarrow> weaker f1 \<Longrightarrow> weaker f2 \<Longrightarrow> post p0 5 filled_buf filled_buf r"
  unfolding weaker_def by (blast intro: post_weaken)

lemma good_steps:
  "good p0 k f1 f2 ctx \<Longrightarrow> good p0 k f1 f2 (ctx\<lparr>ctx_size := sz\<rparr>)"
  "good p0 k f1 f2 ctx \<Longrightarrow> good p0 k f1 f2 (ctx\<lparr>ctx_pf := None\<rparr>)"
  "good p0 k f1 f2 ctx \<Longrightarrow> length pf \<le> 8 \<Longrightarrow> good p0 k f1 f2 (ctx\<lparr>ctx_pf := Some pf\<rparr>)"
  "good p0 k f1 f2 ctx \<Longrightarrow> length pf \<le> 8 \<Longrightarrow> good p0 k f1 f2 (ctx\<lparr>ctx_size := sz, ctx_pf := Some pf\<rparr>)"
  "good p0 k f1 f2 ctx \<Longrightarrow> length pf \<le> 8 \<Longrightarrow> good p0 k f1 f2 (set_op pf sz ctx)"
  "good p0 k f1 f2 ctx \<Longrightarrow> good p0 (Suc k) f1 f2 (ctx\<lparr>ctx_p := ctx_p ctx + 2\<rparr>)"
  "good p0 k f1 f2 ctx \<Longrightarrow> length pf \<le> 8 \<Longrightarrow> good p0 (Suc k) f1 f2 (ctx\<lparr>ctx_p := ctx_p ctx + 2, ctx_pf := Some pf\<rparr>)"
  using good_next [of p0 k f1 f2 ctx] by (auto simp: good_def set_op_def)

lemma table_entry: "list_all (\<lambda>s. length s \<le> 8) t \<Longrightarrow> i < length t \<Longrightarrow> length (t ! i) \<le> 8"
  by (simp add: list_all_length)

lemma field_bound: "unat (w AND 7 :: u16) < 8" "unat (w AND 3 :: u16) < 4" "unat (w AND 15 :: u16) < 16"
proof -
  have "w AND 7 = take_bit 3 w" "w AND 3 = take_bit 2 w" "w AND 15 = take_bit 4 w"
    by (simp_all add: take_bit_eq_mask mask_eq_exp_minus_1)
  then show "unat (w AND 7) < 8" "unat (w AND 3) < 4" "unat (w AND 15) < 16"
    using take_bit_nat_less_exp [of 3 "unat w"] take_bit_nat_less_exp [of 2 "unat w"] take_bit_nat_less_exp [of 4 "unat w"]
    by (simp_all add: unsigned_take_bit_eq)
qed

lemma low_nybble: "(w :: u16) AND 0xfff0 = 0 \<Longrightarrow> unat w < 16"
proof -
  assume z: "w AND 0xfff0 = 0"
  have "bit w n \<Longrightarrow> n < 4" for n
  proof -
    assume b: "bit w n"
    have "(0xfff0 :: u16) = mask 16 AND NOT (mask 4)" by (simp add: mask_eq_exp_minus_1)
    then have "\<not> bit (w AND (mask 16 AND NOT (mask 4))) n" using z by simp
    then show "n < 4" using b bit_imp_le_length [OF b] by (simp add: bit_simps)
  qed
  then have "take_bit 4 w = w" by (intro bit_word_eqI) (auto simp: bit_simps)
  then have "w AND 15 = w" by (simp add: take_bit_eq_mask mask_eq_exp_minus_1)
  then show ?thesis using field_bound(3) [of w] by simp
qed

lemma table_bounds [simp]:
  "i < 16 \<Longrightarrow> length (branches ! i) \<le> 8" "i < 16 \<Longrightarrow> length (dbranches ! i) \<le> 8" "i < 16 \<Longrightarrow> length (sets ! i) \<le> 8"
  "i < 4 \<Longrightarrow> length (bits ! i) \<le> 8" "i < 4 \<Longrightarrow> length (lshifts ! i) \<le> 8" "i < 4 \<Longrightarrow> length (rshifts ! i) \<le> 8"
  "i < 8 \<Longrightarrow> length (misc1 ! i) \<le> 8" "i < 8 \<Longrightarrow> length (misc2 ! i) \<le> 8"
  "i < 16 \<Longrightarrow> length (mmu_branches ! i) \<le> 8" "i < 16 \<Longrightarrow> length (mmu_dbranches ! i) \<le> 8"
  "i < 16 \<Longrightarrow> length (mmu_sets ! i) \<le> 8" "i < 16 \<Longrightarrow> length (mmu_traps ! i) \<le> 8"
  by (rule table_entry; simp add: branches_def dbranches_def sets_def bits_def lshifts_def rshifts_def misc1_def misc2_def
      mmu_branches_def mmu_dbranches_def mmu_sets_def mmu_traps_def)+

lemma control_reg_length: "control_reg w = Some s \<Longrightarrow> length s \<le> 8"
  by (auto simp: control_reg_def Let_def split: if_splits)

lemma fp_names_length: "map_of fp_names w = Some s \<Longrightarrow> length s \<le> 8"
proof -
  assume "map_of fp_names w = Some s"
  then have "(w, s) \<in> set fp_names" by (rule map_of_SomeD)
  moreover have "\<forall>x \<in> set fp_names. length (snd x) \<le> 8" by (simp add: fp_names_def)
  ultimately show ?thesis by fastforce
qed

lemmas field_defs = src_reg_def dest_reg_def bit7_6_def field_bound low_nybble
  control_reg_length control_reg_length [THEN order_trans] fp_names_length

lemmas dis_rules = post_if post_case post_text_a1 post_text_a2 post_store_a2 post_print_a1 post_print_a2 post_ea_a1 post_ea_a2 post_bind post_next
  good_steps print_buf_forms good_fresh post_Some post_end

subsection \<open>The instruction groups\<close>

lemma dis_movep_bounds: "good p0 1 fresh fresh ctx \<Longrightarrow> post p0 5 filled_buf filled_buf (dis_movep m ctx)"
  unfolding dis_movep_def Let_def short_arg_def
  by (rule dis_rules | assumption | simp add: field_defs)+

lemma dis_bit_bounds: "good p0 1 fresh fresh ctx \<Longrightarrow> post p0 5 filled_buf filled_buf (dis_bit m ctx)"
  unfolding dis_bit_def Let_def short_arg_def word_arg_def
  by (rule dis_rules | assumption | simp add: field_defs)+

lemma dis_immediate_bounds: "good p0 1 fresh fresh ctx \<Longrightarrow> post p0 5 filled_buf filled_buf (dis_immediate m ctx)"
  unfolding dis_immediate_def Let_def
  by (rule dis_rules | assumption | simp add: field_defs)+

lemma dis_move_bounds: "good p0 1 fresh fresh ctx \<Longrightarrow> post p0 5 filled_buf filled_buf (dis_move m ctx)"
  unfolding dis_move_def Let_def
  by (rule dis_rules | assumption | simp add: field_defs)+

lemma dis_4_special_bounds: "good p0 1 fresh fresh ctx \<Longrightarrow> post p0 5 filled_buf filled_buf (dis_4_special m ctx)"
  unfolding dis_4_special_def Let_def
  by (rule dis_rules | assumption | simp add: field_defs)+

lemma dis_movec_bounds: "good p0 1 fresh fresh ctx \<Longrightarrow> post p0 5 filled_buf filled_buf (dis_movec m ctx)"
  unfolding dis_movec_def Let_def
  by (rule dis_rules | assumption | simp add: field_defs)+

lemma dis_5_bounds: "good p0 1 fresh fresh ctx \<Longrightarrow> post p0 5 filled_buf filled_buf (dis_5 m ctx)"
  unfolding dis_5_def Let_def short_arg_def
  by (rule dis_rules | assumption | simp add: field_defs)+

lemma dis_6_bounds: "good p0 1 fresh fresh ctx \<Longrightarrow> post p0 5 filled_buf filled_buf (dis_6 m ctx)"
  unfolding dis_6_def Let_def short_arg_def char_arg_def
  by (rule dis_rules | assumption | simp add: field_defs)+

lemma dis_7_bounds: "good p0 1 fresh fresh ctx \<Longrightarrow> post p0 5 filled_buf filled_buf (dis_7 m ctx)"
  unfolding dis_7_def Let_def word_arg_def
  by (rule dis_rules | assumption | simp add: field_defs)+

lemma dis_c_bounds: "good p0 1 fresh fresh ctx \<Longrightarrow> post p0 5 filled_buf filled_buf (dis_c m ctx)"
  unfolding dis_c_def Let_def
  by (rule dis_rules | assumption | simp add: field_defs)+

lemma mmu_pbcc_bounds: "good p0 1 fresh fresh ctx \<Longrightarrow> post p0 5 filled_buf filled_buf (mmu_pbcc m ctx)"
  unfolding mmu_pbcc_def Let_def word_arg_def short_arg_def
  by (rule dis_rules | assumption | simp add: field_defs)+

lemma mmu_conditional_bounds: "good p0 1 fresh fresh ctx \<Longrightarrow> post p0 5 filled_buf filled_buf (mmu_conditional m ctx)"
  unfolding mmu_conditional_def Let_def word_arg_def short_arg_def
  by (rule dis_rules | assumption | simp add: field_defs)+

lemma mmu_general_bounds: "good p0 1 fresh fresh ctx \<Longrightarrow> post p0 5 filled_buf filled_buf (mmu_general m ctx)"
  unfolding mmu_general_def Let_def
  by (rule dis_rules | assumption | simp add: field_defs)+

lemma mmu_saverestore_bounds: "good p0 1 fresh fresh ctx \<Longrightarrow> post p0 5 filled_buf filled_buf (mmu_saverestore m ctx)"
  unfolding mmu_saverestore_def Let_def
  by (rule dis_rules | assumption | simp add: field_defs)+

lemma fp_instr_bounds: "good p0 1 fresh fresh ctx \<Longrightarrow> post p0 5 filled_buf filled_buf (fp_instr m ctx)"
  unfolding fp_instr_def Let_def word_arg_def
  by (rule dis_rules | assumption | simp add: field_defs)+

lemma mmu_flush_bounds: "good p0 1 fresh fresh ctx \<Longrightarrow> post p0 5 filled_buf filled_buf (mmu_flush ctx)"
  unfolding mmu_flush_def Let_def
  by (rule dis_rules | assumption | simp add: field_defs)+

lemma extended_operands_bounds: "good p0 1 fresh fresh ctx \<Longrightarrow> post p0 5 filled_buf filled_buf (extended_operands predec ctx)"
  unfolding extended_operands_def Let_def
  by (rule dis_rules | assumption | simp add: field_defs)+

lemma ea_to_reg_bounds: "good p0 1 fresh fresh ctx \<Longrightarrow> post p0 5 filled_buf filled_buf (ea_to_reg m sz t ctx)"
  unfolding ea_to_reg_def Let_def
  by (rule dis_rules | assumption | simp add: field_defs)+

lemma reg_to_ea_bounds: "good p0 1 fresh fresh ctx \<Longrightarrow> post p0 5 filled_buf filled_buf (reg_to_ea m ctx)"
  unfolding reg_to_ea_def Let_def
  by (rule dis_rules | assumption | simp add: field_defs)+

lemma dis_8_bounds: "good p0 1 fresh fresh ctx \<Longrightarrow> post p0 5 filled_buf filled_buf (dis_8 m ctx)"
  unfolding dis_8_def Let_def
  by (rule extended_operands_bounds ea_to_reg_bounds reg_to_ea_bounds dis_rules | assumption | simp add: field_defs)+

lemma dis_9d_bounds: "good p0 1 fresh fresh ctx \<Longrightarrow> post p0 5 filled_buf filled_buf (dis_9d m ctx)"
  unfolding dis_9d_def Let_def
  by (rule extended_operands_bounds ea_to_reg_bounds reg_to_ea_bounds dis_rules | assumption | simp add: field_defs)+

lemma dis_b_bounds: "good p0 1 fresh fresh ctx \<Longrightarrow> post p0 5 filled_buf filled_buf (dis_b m ctx)"
  unfolding dis_b_def Let_def
  by (rule extended_operands_bounds ea_to_reg_bounds reg_to_ea_bounds dis_rules | assumption | simp add: field_defs)+

lemma dis_e_bounds: "good p0 1 fresh fresh ctx \<Longrightarrow> post p0 5 filled_buf filled_buf (dis_e m ctx)"
  unfolding dis_e_def Let_def
  by (rule dis_rules | assumption | simp add: field_defs)+

lemma dis_chk_lea_bounds: "good p0 1 fresh fresh ctx \<Longrightarrow> post p0 5 filled_buf filled_buf (dis_chk_lea m ctx)"
  unfolding dis_chk_lea_def Let_def
  by (rule dis_rules | assumption | simp add: field_defs)+

lemma dis_4e_bounds: "good p0 1 fresh fresh ctx \<Longrightarrow> post p0 5 filled_buf filled_buf (dis_4e m ctx)"
  unfolding dis_4e_def Let_def word_arg_def short_arg_def
  by (rule dis_movec_bounds dis_rules | assumption | simp add: field_defs)+

lemmas dis_group_bounds = dis_movep_bounds dis_bit_bounds dis_immediate_bounds dis_move_bounds dis_4_special_bounds
  dis_5_bounds dis_6_bounds dis_7_bounds dis_c_bounds mmu_pbcc_bounds mmu_conditional_bounds mmu_general_bounds
  mmu_saverestore_bounds mmu_flush_bounds fp_instr_bounds dis_8_bounds dis_9d_bounds dis_b_bounds dis_e_bounds
  dis_chk_lea_bounds dis_4e_bounds

lemma dis_4_sized_bounds: "good p0 1 fresh fresh ctx \<Longrightarrow> post p0 5 filled_buf filled_buf (dis_4_sized m ctx)"
  unfolding dis_4_sized_def Let_def
  by (rule dis_4e_bounds dis_rules | assumption | simp add: field_defs)+

text \<open>The register list is the only text that may be too long.\<close>

lemma dis_movem_bounds:
  assumes g: "good p0 1 fresh fresh ctx"
    and l: "length (movem_regs (load16 m (ctx_p ctx)) (src_mode ctx = 4)) \<le> 31"
  shows "post p0 5 filled_buf filled_buf (dis_movem m ctx)"
proof -
  let ?ctx = "set_op ''movem'' (if bit (ctx_instr ctx) 6 then ea_long else ea_word) ctx"
  let ?c2 = "?ctx\<lparr>ctx_p := ctx_p ?ctx + 2\<rparr>"
  have "good p0 1 fresh fresh ?ctx" using g by simp
  note g2 = good_next [OF this]
  have w: "load16 m (ctx_p ?ctx) = load16 m (ctx_p ctx)" and mode: "src_mode ?c2 = src_mode ctx"
    by (simp_all add: set_op_def src_mode_def)
  have t1: "post p0 2 filled_buf fresh (text_a1 (movem_regs (load16 m (ctx_p ?ctx)) (src_mode ?c2 = 4)) ?c2)"
    and t2: "post p0 2 fresh filled_buf (text_a2 (movem_regs (load16 m (ctx_p ?ctx)) (src_mode ?c2 = 4)) ?c2)"
    unfolding text_a1_def text_a2_def w mode using g2 l good_fresh [OF g2]
    by (auto intro!: post_a1 post_a2 store_text_filled simp: numeral_2_eq_2)
  show ?thesis
    unfolding dis_movem_def Let_def next_word_def prod.case
    by (rule post_if post_bind [OF t1] post_bind [OF t2] dis_rules | assumption | simp)+
qed

text \<open>The instruction words that the decoder takes for \<^verbatim>\<open>movem\<close>.\<close>

definition is_movem :: "dis_context \<Rightarrow> bool" where
  "is_movem ctx \<longleftrightarrow> drop_bit 12 (ctx_instr ctx) = 4 \<and> \<not> bit (ctx_instr ctx) 8 \<and> src_mode ctx \<noteq> 0 \<and>
     bit7_6 ctx AND 2 \<noteq> 0 \<and> dest_reg ctx AND 5 = 4"

lemma dis_decode_bounds:
  assumes g: "good p0 1 fresh fresh ctx"
    and l: "is_movem ctx \<Longrightarrow> length (movem_regs (load16 m (ctx_p ctx)) (src_mode ctx = 4)) \<le> 31"
  shows "post p0 5 filled_buf filled_buf (dis_decode m ctx)"
proof -
  have d4: "post p0 5 filled_buf filled_buf (dis_4 m ctx)" if "drop_bit 12 (ctx_instr ctx) = 4"
    unfolding dis_4_def
    using g that l by (intro post_if dis_chk_lea_bounds dis_movem_bounds dis_4_special_bounds dis_4_sized_bounds)
      (auto simp: is_movem_def)
  have "post p0 5 filled_buf filled_buf (Some ctx)" using g by (rule post_end [OF post_Some]) simp_all
  then have "post p0 5 filled_buf filled_buf (dis_f m ctx)" "post p0 5 filled_buf filled_buf (dis_0 m ctx)"
    unfolding dis_f_def mmu_instr_def dis_0_def Let_def
    using g by (auto intro!: post_if dis_group_bounds)
  then show ?thesis
    unfolding dis_decode_def Let_def
    using g \<open>post p0 5 filled_buf filled_buf (Some ctx)\<close> by (intro post_if dis_group_bounds d4) simp_all
qed

lemma start_good: "good p 1 fresh fresh (dis_start machtype m p)"
  by (auto simp: good_def dis_start_def fresh_def words_small intro!: exI [of _ "1 :: nat"])

lemma buf_string_filled: "filled_buf b \<Longrightarrow> \<exists>t. buf_string b = Some t \<and> length t \<le> 31"
proof -
  assume b: "filled_buf b"
  then obtain i where i: "i < 32" "b ! i = CHR 0x00" by (auto simp: filled_buf_def in_set_conv_nth)
  then have "length (takeWhile (\<lambda>c. c \<noteq> CHR 0x00) b) \<le> 31" using string_length [of b i] by simp
  then show ?thesis using b by (auto simp: buf_string_def filled_buf_def)
qed

lemma dis_output_bounds:
  assumes g: "good p0 k filled_buf filled_buf ctx"
  shows "\<exists>r s. dis_output ctx = Some (r, s) \<and> length s \<le> 75"
proof (cases "ctx_pf ctx")
  case None
  then show ?thesis by (simp add: dis_output_def)
next
  case (Some pf)
  obtain t1 t2 where t: "buf_string (ctx_a1 ctx) = Some t1" "length t1 \<le> 31"
      "buf_string (ctx_a2 ctx) = Some t2" "length t2 \<le> 31"
    using g buf_string_filled unfolding good_def by blast
  have pf: "length pf \<le> 8" using g Some by (simp add: good_def)
  have "\<exists>c. ea_size_code sz = of_char c" for sz
    by (cases sz) (auto intro: exI [of _ "CHR 0x00"] exI [of _ "CHR ''b''"] exI [of _ "CHR ''w''"] exI [of _ "CHR ''l''"] exI [of _ "CHR ''s''"])
  then obtain c where c: "ea_size_code (ctx_size ctx) = of_char c" by blast
  have "sprintf_text ''%s.%c'' [AStr (Some pf), A32 (ea_size_code (ctx_size ctx))] = Some (pf @ ''.'' @ [c])"
    unfolding c by (rule sprintf_op) (use pf in simp)
  then show ?thesis using t pf by (simp add: dis_output_def Some Let_def)
qed

lemma disassemble_bounds:
  assumes "is_movem (dis_start machtype m p) \<Longrightarrow>
      length (movem_regs (load16 m (p + 2)) (src_mode (dis_start machtype m p) = 4)) \<le> 31"
  shows "\<exists>r s j. disassemble machtype m p = Some (r, s, p + adr (2 * j)) \<and> length s < 80 \<and> 1 \<le> j \<and> j \<le> 5"
proof -
  obtain ctx where d: "dis_decode m (dis_start machtype m p) = Some ctx" and g: "good p 5 filled_buf filled_buf ctx"
    using dis_decode_bounds [OF start_good, of machtype m p m] assms by (auto simp: post_def dis_start_def)
  obtain r s where o: "dis_output ctx = Some (r, s)" "length s \<le> 75" using dis_output_bounds [OF g] by blast
  obtain j where "1 \<le> j" "j \<le> 5" "ctx_p ctx = p + adr (2 * j)" using g by (auto simp: good_def words_def)
  then show ?thesis using o by (auto simp: disassemble_def d)
qed

lemma movem_overflows:
  assumes "is_movem (dis_start machtype m p)"
    and "32 < length (movem_regs (load16 m (p + 2)) (src_mode (dis_start machtype m p) = 4))"
  shows "disassemble machtype m p = None"
proof -
  let ?ctx = "dis_start machtype m p"
  have i: "drop_bit 12 (ctx_instr ?ctx) = 4" "\<not> bit (ctx_instr ?ctx) 8" "src_mode ?ctx \<noteq> 0"
    "bit7_6 ?ctx AND 2 \<noteq> 0" "dest_reg ?ctx AND 5 = 4" using assms(1) by (simp_all add: is_movem_def)
  have "dis_movem m ?ctx = None"
    using assms(2) by (auto simp: dis_movem_def Let_def next_word_def text_a1_def text_a2_def store_text_def set_op_def
      src_mode_def dis_start_def)
  then have "dis_decode m ?ctx = None"
    using i by (simp add: dis_decode_def dis_4_def)
  then show ?thesis by (simp add: disassemble_def)
qed

text \<open>The words of \<^verbatim>\<open>movem\<close> in the instruction set: 0100 1d00 1smm mrrr, not for mode 0.\<close>

lemma u16_eqI: "list_all (\<lambda>n. bit x n = bit y n) [0..<16] \<Longrightarrow> x = y" for x y :: u16
  by (rule bit_word_eqI) (simp add: list_all_iff)

lemma mode_field: "drop_bit 3 w AND 7 = k \<longleftrightarrow> w AND 0x38 = push_bit 3 k" if "k AND 7 = k" for w k :: u16
proof -
  have "push_bit 3 (drop_bit 3 w AND 7) = w AND 0x38"
    by (rule u16_eqI) (simp add: upt_conv_Cons bit_simps, simp add: eval_nat_numeral)
  moreover have "drop_bit 3 (push_bit 3 (x AND 7)) = x AND 7" for x :: u16
    by (rule u16_eqI) (simp add: upt_conv_Cons bit_simps)
  ultimately show ?thesis using that by metis
qed

lemma movem_word:
  assumes "load16 m p AND 0xfb80 = 0x4880" "load16 m p AND 0x38 \<noteq> 0"
  shows "is_movem (dis_start machtype m p)"
proof -
  let ?w = "load16 m p"
  have b: "bit (?w AND 0xfb80) n = bit (0x4880 :: u16) n" for n by (simp only: assms(1))
  have hi: "\<not> bit ?w n" if "16 \<le> n" for n using bit_imp_le_length [of ?w n] that by auto
  have bits: "\<not> bit ?w 15" "bit ?w 14" "\<not> bit ?w 13" "\<not> bit ?w 12" "bit ?w 11" "\<not> bit ?w 9" "\<not> bit ?w 8" "bit ?w 7"
    using b [of 15] b [of 14] b [of 13] b [of 12] b [of 11] b [of 9] b [of 8] b [of 7] by (simp_all add: bit_simps)
  have "drop_bit 12 ?w = 4" by (rule u16_eqI) (simp add: upt_conv_Cons bit_simps bits hi)
  moreover have "(drop_bit 9 ?w AND 7) AND 5 = 4" by (rule u16_eqI) (simp add: upt_conv_Cons bit_simps bits hi)
  moreover have "bit ((drop_bit 6 ?w AND 3) AND 2) 1" by (simp add: bit_simps bits)
  then have "(drop_bit 6 ?w AND 3) AND 2 \<noteq> 0" by (metis bit_0_eq bot_apply bot_bool_def)
  moreover have "drop_bit 3 ?w AND 7 \<noteq> 0" using mode_field [where w = ?w and k = 0] assms(2) by simp
  ultimately show ?thesis
    unfolding is_movem_def dis_start_def src_mode_def bit7_6_def dest_reg_def dis_context.select_convs
    using bits(7) by blast
qed

subsection \<open>Claims\<close>

text \<open>
  C24: Disassembling any code at any address returns, stays inside the operand buffers, gives a
  string that fits the 80 characters of the caller with its NUL, and advances the code pointer
  by one to five words; the only exception are \<^verbatim>\<open>movem\<close> instructions whose register list
  takes more than 31 characters.
\<close>

theorem disassemble_in_bounds:
  assumes "is_movem (dis_start machtype m p) \<Longrightarrow>
      length (movem_regs (load16 m (p + 2)) (src_mode (dis_start machtype m p) = 4)) \<le> 31"
  shows "\<exists>r s j. disassemble machtype m p = Some (r, s, p + adr (2 * j)) \<and> length s < 80 \<and> 1 \<le> j \<and> j \<le> 5"
  using assms by (rule disassemble_bounds)

definition code_bytes :: "u32 \<Rightarrow> u8 list \<Rightarrow> mem" where
  "code_bytes p bs = (\<lambda>a. if unat (a - p) < length bs then bs ! unat (a - p) else 0)"

lemma disassemble_in_bounds_witness:
  "\<exists>r s j. disassemble mt68010 (code_bytes 0x2000 [0x48, 0xe7, 0xff, 0xfe]) 0x2000 = Some (r, s, 0x2000 + adr (2 * j)) \<and>
     length s < 80 \<and> 1 \<le> j \<and> j \<le> 5"
proof (rule disassemble_in_bounds)
  let ?m = "code_bytes 0x2000 [0x48, 0xe7, 0xff, 0xfe]"
  have "load16 ?m 0x2002 = 0xfffe" by (simp add: load16_def code_bytes_def)
  moreover have "length (movem_regs 0xfffe True) \<le> 31" "length (movem_regs 0xfffe False) \<le> 31" by code_simp+
  ultimately show "length (movem_regs (load16 ?m (0x2000 + 2)) (src_mode (dis_start mt68010 ?m 0x2000) = 4)) \<le> 31"
    by (cases "src_mode (dis_start mt68010 ?m 0x2000) = 4") simp_all
qed

text \<open>
  C40: The register list of \<^verbatim>\<open>movem\<close> overflows the operand buffer.  Whatever the size, the
  direction and the addressing mode are, the list of the ten registers d0, d1, d3, d5, d7, a0, a1,
  a3, a5 and a7 (mask 0xabab, in predecrement mode the reversed 0xd5d5) is spelled with 41
  characters, because the range flag is not reset behind the ranges d0-d1 and a0-a1 and every later
  register is printed twice; the operand array has 32.
\<close>

theorem disassemble_movem_overflow:
  assumes "load16 m p AND 0xfb80 = 0x4880" "load16 m p AND 0x38 \<noteq> 0"
    and "load16 m (p + 2) = (if load16 m p AND 0x38 = 0x20 then 0xd5d5 else 0xabab)"
  shows "movem_regs (load16 m (p + 2)) (load16 m p AND 0x38 = 0x20) = ''d0-d1,d3d3,d5d5,d7d7/a0-a1,a3a3,a5a5,a7a7'' \<and>
    disassemble machtype m p = None"
proof -
  have "movem_regs 0xabab False = ''d0-d1,d3d3,d5d5,d7d7/a0-a1,a3a3,a5a5,a7a7''"
    "movem_regs 0xd5d5 True = ''d0-d1,d3d3,d5d5,d7d7/a0-a1,a3a3,a5a5,a7a7''" by code_simp+
  then have t: "movem_regs (load16 m (p + 2)) (load16 m p AND 0x38 = 0x20) = ''d0-d1,d3d3,d5d5,d7d7/a0-a1,a3a3,a5a5,a7a7''"
    using assms(3) by simp
  have "src_mode (dis_start machtype m p) = 4 \<longleftrightarrow> load16 m p AND 0x38 = 0x20"
    using mode_field [where w = "load16 m p" and k = 4] by (simp add: src_mode_def dis_start_def)
  then show ?thesis
    using movem_overflows [OF movem_word [OF assms(1,2)], of machtype] t by simp
qed

lemma disassemble_movem_overflow_witness:
  "disassemble mt68010 (code_bytes 0x2000 [0x4c, 0xdf, 0xab, 0xab]) 0x2000 = None \<and>
   disassemble mt68000 (code_bytes 0x2000 [0x48, 0xe7, 0xd5, 0xd5]) 0x2000 = None"
proof
  have w: "load16 (code_bytes 0x2000 [0x4c, 0xdf, 0xab, 0xab]) 0x2000 = 0x4cdf"
    "load16 (code_bytes 0x2000 [0x4c, 0xdf, 0xab, 0xab]) 0x2002 = 0xabab"
    "load16 (code_bytes 0x2000 [0x48, 0xe7, 0xd5, 0xd5]) 0x2000 = 0x48e7"
    "load16 (code_bytes 0x2000 [0x48, 0xe7, 0xd5, 0xd5]) 0x2002 = 0xd5d5"
    by (simp_all add: load16_def code_bytes_def)
  show "disassemble mt68010 (code_bytes 0x2000 [0x4c, 0xdf, 0xab, 0xab]) 0x2000 = None"
    using disassemble_movem_overflow [of "code_bytes 0x2000 [0x4c, 0xdf, 0xab, 0xab]" "0x2000"] w by simp
  show "disassemble mt68000 (code_bytes 0x2000 [0x48, 0xe7, 0xd5, 0xd5]) 0x2000 = None"
    using disassemble_movem_overflow [of "code_bytes 0x2000 [0x48, 0xe7, 0xd5, 0xd5]" "0x2000"] w by simp
qed

end
