(* ===== verification/Disasm_Move.thy ===== *)
theory Disasm_Move
  imports Disasm_Bounds
begin

text \<open>
  The disassembler against an assembler: operands with their encoding (mode, register and
  extension words, MC68000 programmer's manual) and their text, the encoding of the
  \<^verbatim>\<open>move\<close> and \<^verbatim>\<open>movea\<close> instructions, and the round trip from the encoding to the text.
\<close>

subsection \<open>Operands\<close>

datatype operand =
    DReg nat | AReg nat | Ind nat | PostInc nat | PreDec nat | Disp u16 nat | Index u8 nat bool nat bool
  | AbsW u16 | AbsL u32 | PcDisp u16 | PcIndex u8 bool nat bool | Imm u32

text \<open>
  The brief extension word: the type of the index register (address or data), its number, its
  size (the flag is set for a long index) and the displacement.  Bits 8 to 10 are zero on the
  MC68000 and the MC68010.
\<close>

definition brief_ext :: "u8 \<Rightarrow> bool \<Rightarrow> nat \<Rightarrow> bool \<Rightarrow> u16" where
  "brief_ext d a x l =
     word_of_nat ((if a then 0x8000 else 0) + x * 0x1000 + (if l then 0x800 else 0) + unat d)"

fun operand_ok :: "operand \<Rightarrow> bool" where
  "operand_ok (DReg n) \<longleftrightarrow> n < 8"
| "operand_ok (AReg n) \<longleftrightarrow> n < 8"
| "operand_ok (Ind n) \<longleftrightarrow> n < 8"
| "operand_ok (PostInc n) \<longleftrightarrow> n < 8"
| "operand_ok (PreDec n) \<longleftrightarrow> n < 8"
| "operand_ok (Disp d n) \<longleftrightarrow> n < 8"
| "operand_ok (Index d n a x l) \<longleftrightarrow> n < 8 \<and> x < 8"
| "operand_ok (PcIndex d a x l) \<longleftrightarrow> x < 8"
| "operand_ok _ \<longleftrightarrow> True"

fun operand_mode :: "operand \<Rightarrow> nat" where
  "operand_mode (DReg _) = 0"
| "operand_mode (AReg _) = 1"
| "operand_mode (Ind _) = 2"
| "operand_mode (PostInc _) = 3"
| "operand_mode (PreDec _) = 4"
| "operand_mode (Disp _ _) = 5"
| "operand_mode (Index _ _ _ _ _) = 6"
| "operand_mode _ = 7"

fun operand_reg :: "operand \<Rightarrow> nat" where
  "operand_reg (DReg n) = n"
| "operand_reg (AReg n) = n"
| "operand_reg (Ind n) = n"
| "operand_reg (PostInc n) = n"
| "operand_reg (PreDec n) = n"
| "operand_reg (Disp _ n) = n"
| "operand_reg (Index _ n _ _ _) = n"
| "operand_reg (AbsW _) = 0"
| "operand_reg (AbsL _) = 1"
| "operand_reg (PcDisp _) = 2"
| "operand_reg (PcIndex _ _ _ _) = 3"
| "operand_reg (Imm _) = 4"

fun operand_ext :: "ea_size \<Rightarrow> operand \<Rightarrow> u16 list" where
  "operand_ext sz (Disp d _) = [d]"
| "operand_ext sz (Index d _ a x l) = [brief_ext d a x l]"
| "operand_ext sz (AbsW w) = [w]"
| "operand_ext sz (AbsL v) = [ucast (drop_bit 16 v), ucast v]"
| "operand_ext sz (PcDisp d) = [d]"
| "operand_ext sz (PcIndex d a x l) = [brief_ext d a x l]"
| "operand_ext sz (Imm v) = (if sz = ea_long then [ucast (drop_bit 16 v), ucast v] else [ucast v])"
| "operand_ext sz _ = []"

definition index_text :: "bool \<Rightarrow> nat \<Rightarrow> string" where
  "index_text a x = [if a then CHR ''a'' else CHR ''d'', decimal_char x]"

fun operand_text :: "ea_size \<Rightarrow> operand \<Rightarrow> string" where
  "operand_text sz (DReg n) = [CHR ''d'', decimal_char n]"
| "operand_text sz (AReg n) = [CHR ''a'', decimal_char n]"
| "operand_text sz (Ind n) = ''(a'' @ [decimal_char n] @ '')''"
| "operand_text sz (PostInc n) = ''(a'' @ [decimal_char n] @ '')+''"
| "operand_text sz (PreDec n) = ''-(a'' @ [decimal_char n] @ '')''"
| "operand_text sz (Disp d n) = dec_text (scast d) @ ''(a'' @ [decimal_char n] @ '')''"
| "operand_text sz (Index d n a x l) =
     dec_text (scast d) @ ''(a'' @ [decimal_char n] @ '', '' @ index_text a x @ '')''"
| "operand_text sz (AbsW w) = hex_text CHR ''x'' (ucast w)"
| "operand_text sz (AbsL v) = hex_text CHR ''x'' v"
| "operand_text sz (PcDisp d) = dec_text (scast d) @ ''(pc)''"
| "operand_text sz (PcIndex d a x l) = dec_text (scast d) @ ''(pc, '' @ index_text a x @ '')''"
| "operand_text sz (Imm v) =
     ''#'' @ dec_text (if sz = ea_byte then scast (ucast v :: u8) else if sz = ea_word then scast (ucast v :: u16) else v)"

text \<open>The code at an address begins with the words.\<close>

fun code_at :: "mem \<Rightarrow> u32 \<Rightarrow> u16 list \<Rightarrow> bool" where
  "code_at m p [] \<longleftrightarrow> True"
| "code_at m p (w # ws) \<longleftrightarrow> load16 m p = w \<and> code_at m (p + 2) ws"

subsection \<open>Decoding operands\<close>

text \<open>A buffer of zeros, and a buffer that holds a string.\<close>

abbreviation (input) zeros :: string where
  "zeros \<equiv> replicate 32 (CHR 0x00)"

definition shows_text :: "string \<Rightarrow> string \<Rightarrow> bool" where
  "shows_text b t \<longleftrightarrow> buf_string b = Some t \<and> (t \<noteq> [] \<longrightarrow> hd b \<noteq> CHR 0x00)"

lemma shows_textI:
  assumes "CHR 0x00 \<notin> set t" "length t < 32"
  shows "shows_text (t @ drop (length t) zeros) t" "shows_text (t @ CHR 0x00 # drop (Suc (length t)) zeros) t"
proof -
  have "takeWhile (\<lambda>c. c \<noteq> CHR 0x00) (t @ CHR 0x00 # r) = t" for r
    using assms(1) by (subst takeWhile_append2) auto
  moreover have "drop (length t) zeros = CHR 0x00 # drop (Suc (length t)) zeros"
  proof -
    have "32 - length t = Suc (31 - length t)" using assms(2) by simp
    then show ?thesis by simp
  qed
  moreover have "t \<noteq> [] \<Longrightarrow> hd (t @ r) \<noteq> CHR 0x00" for r using assms(1) by (cases t) auto
  ultimately show "shows_text (t @ drop (length t) zeros) t" "shows_text (t @ CHR 0x00 # drop (Suc (length t)) zeros) t"
    by (auto simp: shows_text_def buf_string_def)
qed

lemma store_text_shows:
  "CHR 0x00 \<notin> set t \<Longrightarrow> length t < 32 \<Longrightarrow> \<exists>b. store_text t zeros = Some b \<and> shows_text b t"
  using shows_textI(1) [of t] by (auto simp: store_text_def)

lemma print_buf_shows:
  "sprintf_text fmt args = Some t \<Longrightarrow> CHR 0x00 \<notin> set t \<Longrightarrow> length t < 32 \<Longrightarrow> \<exists>b. print_buf fmt args zeros = Some b \<and> shows_text b t"
  using shows_textI(2) [of t] by (auto simp: store_text_def print_buf_def)

lemma numeral_text_plain: "1 < base \<Longrightarrow> base \<le> length ds \<Longrightarrow> set (numeral_text base ds u) \<subseteq> set ds"
proof (induction base ds u rule: numeral_text.induct)
  case (1 base ds u)
  show ?case
  proof (cases "u < base")
    case True
    then show ?thesis using 1 by (subst numeral_text.simps) auto
  next
    case False
    have "u mod base < length ds" using 1 by (meson mod_less_divisor order_less_le_trans order_less_trans zero_less_one)
    then show ?thesis using 1 False by (subst numeral_text.simps) auto
  qed
qed

lemma dec_text_plain: "CHR 0x00 \<notin> set (dec_text u)"
  using numeral_text_plain [of 10 "''0123456789''" "unat u"] numeral_text_plain [of 10 "''0123456789''" "unat (- u)"]
  by (auto simp: dec_text_def sign_text_def decimal_text_def)

lemma hex_text_plain: "CHR 0x00 \<notin> set (hex_text ch u)"
  using numeral_text_plain [of 16 "hex_digits ch" "unat u"] by (auto simp: hex_text_def hex_digits_def split: if_splits)

lemma small_cases: "n < 8 \<Longrightarrow> n = 0 \<or> n = 1 \<or> n = 2 \<or> n = 3 \<or> n = 4 \<or> n = 5 \<or> n = 6 \<or> n = (7 :: nat)"
  by arith

lemma dec_text_digit: "n < 8 \<Longrightarrow> dec_text (word_of_nat n) = [decimal_char n]"
proof -
  assume n: "n < 8"
  then have u: "unat (word_of_nat n :: u32) = n" by simp
  have "\<not> bit (word_of_nat n :: u32) 31" using small_cases [OF n] by auto
  moreover have "decimal_char n = ''0123456789'' ! n" using n by (intro decimal_char_nth) simp
  ultimately show ?thesis
    using n by (simp add: dec_text_def sign_text_def decimal_text_def u numeral_text.simps del: nth_Cons_numeral)
qed

lemma decimal_char_plain: "n < 8 \<Longrightarrow> decimal_char n \<noteq> CHR 0x00"
proof
  assume "n < 8" "decimal_char n = CHR 0x00"
  then have "(of_char (decimal_char n) :: nat) = 0" by simp
  then show False using of_char_decimal [of n] \<open>n < 8\<close> by simp
qed

text \<open>A bit field of an instruction word built from its fields.\<close>

lemma word16_field:
  assumes "n < 65536"
  shows "unat (take_bit j (drop_bit k (word_of_nat n :: u16))) = n div 2 ^ k mod 2 ^ j"
proof -
  have u: "unat (word_of_nat n :: u16) = n" using assms by (simp add: unsigned_of_nat take_bit_nat_eq_self)
  show ?thesis
    using assms by (simp only: unsigned_take_bit_eq unsigned_drop_bit_eq u) (simp add: take_bit_nat_eq_self take_bit_eq_mod drop_bit_eq_div)
qed

lemma word16_fields:
  assumes "n < 65536"
  shows "drop_bit k (word_of_nat n :: u16) AND 7 = word_of_nat (n div 2 ^ k mod 8)"
    "(word_of_nat n :: u16) AND 7 = word_of_nat (n mod 8)"
    "unat (drop_bit 12 (word_of_nat n :: u16)) = n div 4096"
    "bit (word_of_nat n :: u16) 15 \<longleftrightarrow> 32768 \<le> n"
proof -
  have m: "w AND 7 = take_bit 3 w" for w :: u16 by (simp add: take_bit_eq_mask mask_eq_exp_minus_1)
  have f: "drop_bit k (word_of_nat n :: u16) AND 7 = word_of_nat (n div 2 ^ k mod 8)" for k
  proof -
    have "unat (word_of_nat (n div 2 ^ k mod 8) :: u16) = n div 2 ^ k mod 8"
      using mod_less_divisor [of 8 "n div 2 ^ k"] by (simp add: unsigned_of_nat take_bit_nat_eq_self)
    then show ?thesis using word16_field [OF assms, of 3 k] by (simp add: m word_unat_eq_iff)
  qed
  show "drop_bit k (word_of_nat n :: u16) AND 7 = word_of_nat (n div 2 ^ k mod 8)" by (rule f)
  show "(word_of_nat n :: u16) AND 7 = word_of_nat (n mod 8)" using f [of 0] by simp
  show "unat (drop_bit 12 (word_of_nat n :: u16)) = n div 4096"
  proof -
    have u: "unat (word_of_nat n :: u16) = n" using assms by (simp add: unsigned_of_nat take_bit_nat_eq_self)
    show ?thesis
      using assms by (simp only: unsigned_drop_bit_eq u) (simp add: take_bit_nat_eq_self drop_bit_eq_div)
  qed
  show "bit (word_of_nat n :: u16) 15 \<longleftrightarrow> 32768 \<le> n"
  proof -
    have u: "unat (word_of_nat n :: u16) = n" using assms by (simp add: unsigned_of_nat take_bit_nat_eq_self)
    have "bit (word_of_nat n :: u16) 15 \<longleftrightarrow> bit (unat (word_of_nat n :: u16)) 15" by (simp add: bit_unsigned_iff)
    also have "\<dots> \<longleftrightarrow> odd (n div 32768)" by (simp only: u bit_iff_odd) simp
    also have "\<dots> \<longleftrightarrow> 32768 \<le> n"
    proof (cases "32768 \<le> n")
      case True
      then have "n div 32768 = 1" using assms by (intro div_nat_eqI) simp_all
      then show ?thesis using True by simp
    qed simp
    finally show ?thesis .
  qed
qed

lemma brief_ext_fields:
  assumes "x < 8"
  shows "ucast (brief_ext d a x l) = d" "BEW_DA (brief_ext d a x l) = (if a then CHR ''a'' else CHR ''d'')"
    "BEW_REGISTER (brief_ext d a x l) = word_of_nat x"
proof -
  have d: "unat d < 256" using unsigned_less [of d] by simp
  let ?n = "(if a then 0x8000 else 0) + x * 0x1000 + (if l then 0x800 else 0) + unat d"
  have n: "?n < 65536" using assms d by simp
  have "unat (ucast (brief_ext d a x l) :: u8) = ?n mod 256"
    using n by (simp add: brief_ext_def unsigned_ucast_eq unsigned_of_nat take_bit_nat_eq_self take_bit_eq_mod)
  also have "?n = unat d + ((if a then 128 else 0) + x * 16 + (if l then 8 else 0)) * 256" by simp
  also have "\<dots> mod 256 = unat d" using d by (simp only: mod_mult_self1) simp
  finally show "ucast (brief_ext d a x l) = d" by (simp only: word_unat_eq_iff)
  have "brief_ext d a x l AND 0x8000 \<noteq> 0 \<longleftrightarrow> bit (brief_ext d a x l) 15"
    using and_exp_eq_0_iff_not_bit [of "brief_ext d a x l" 15] by simp
  then show "BEW_DA (brief_ext d a x l) = (if a then CHR ''a'' else CHR ''d'')"
    using word16_fields(4) [OF n] assms d by (auto simp: BEW_DA_def brief_ext_def)
  have "BEW_REGISTER w = drop_bit 12 w AND 7" for w
    by (rule bit_word_eqI) (auto simp: BEW_REGISTER_def bit_simps)
  moreover have "?n div 2 ^ 12 mod 8 = x"
  proof -
    have "?n div 2 ^ 12 = (if a then 8 else 0) + x" using assms d by (intro div_nat_eqI) auto
    then show ?thesis using assms by auto
  qed
  ultimately show "BEW_REGISTER (brief_ext d a x l) = word_of_nat x"
    using word16_fields(1) [OF n, of 12] by (simp add: brief_ext_def)
qed

lemma code_at_append: "code_at m p (ws @ vs) \<longleftrightarrow> code_at m p ws \<and> code_at m (p + words (length ws)) vs"
proof (induction ws arbitrary: p)
  case (Cons w ws)
  have "words (length (w # ws)) = 2 + words (length ws)" using words_add [of 1 "length ws"] by (simp add: words_small)
  then show ?case using Cons [of "p + 2"] by (simp add: add.assoc)
qed (simp add: words_small)

lemma bytes_words:
  fixes b0 b1 b2 b3 :: u8
  shows "push_bit 24 (ucast b0) OR push_bit 16 (ucast b1) OR push_bit 8 (ucast b2) OR ucast b3 =
    (push_bit 16 (ucast (push_bit 8 (ucast b0) OR ucast b1 :: u16)) OR ucast (push_bit 8 (ucast b2) OR ucast b3 :: u16) :: u32)"
    (is "?l = ?r")
proof (rule bit_word_eqI)
  fix n assume "n < LENGTH(32)"
  then have "n < 32" by simp
  then consider "n < 8" | "8 \<le> n \<and> n < 16" | "16 \<le> n \<and> n < 24" | "24 \<le> n \<and> n < 32" by linarith
  then show "bit ?l n = bit ?r n" by cases (auto simp: bit_simps dest: bit_imp_le_length)
qed

lemma load32_words: "load32 m p = push_bit 16 (ucast (load16 m p)) OR ucast (load16 m (p + 2))"
proof -
  have "p + 2 + 1 = p + (3 :: u32)" by simp
  then show ?thesis by (simp only: load32_def load16_def bytes_words)
qed

lemma load32_code: "load16 m p = ucast (drop_bit 16 v) \<Longrightarrow> load16 m (p + 2) = ucast v \<Longrightarrow> load32 m p = v"
  unfolding load32_words by (rule bit_word_eqI) (auto simp: bit_simps)

lemma reg_bits: "n < 8 \<Longrightarrow> (word_of_nat n :: u16) AND 7 = word_of_nat n" "n < 8 \<Longrightarrow> unat (word_of_nat n :: u16) = n"
proof -
  assume n: "n < 8"
  then show "unat (word_of_nat n :: u16) = n" by (simp add: unsigned_of_nat take_bit_nat_eq_self)
  show "(word_of_nat n :: u16) AND 7 = word_of_nat n" using word16_fields(2) [of n] n by simp
qed

lemma reg_char_nat: "n < 8 \<Longrightarrow> reg_char (word_of_nat n) = decimal_char n"
  by (simp add: reg_char_def reg_bits)

lemma reg_text: "n < 8 \<Longrightarrow> dec_text (ucast (word_of_nat n :: u16)) = [decimal_char n]"
proof -
  assume n: "n < 8"
  have "ucast (word_of_nat n :: u16) = (word_of_nat n :: u32)"
    using n reg_bits(2) [OF n] by (simp add: word_unat_eq_iff unsigned_ucast_eq take_bit_nat_eq_self)
  then show ?thesis using dec_text_digit [OF n] by simp
qed

text \<open>
  What \<^verbatim>\<open>ea\<close> does with an encoded operand: it consumes the extension words and prints the
  operand into an empty buffer.
\<close>

definition prints :: "u32 \<Rightarrow> (u32 \<times> string) option \<Rightarrow> nat \<Rightarrow> string \<Rightarrow> bool" where
  "prints p r k t \<longleftrightarrow> (\<exists>b. r = Some (p + words k, b) \<and> shows_text b t)"

lemma prints_store:
  "CHR 0x00 \<notin> set t \<Longrightarrow> length t < 32 \<Longrightarrow> prints p (map_option (Pair p) (store_text t zeros)) 0 t"
  using store_text_shows [of t] by (auto simp: prints_def words_small)

lemma prints_print:
  assumes "sprintf_text fmt args = Some t" "CHR 0x00 \<notin> set t" "length t < 32"
  shows "prints p (map_option (Pair (p + 2)) (print_buf fmt args zeros)) (Suc 0) t"
    "prints p (map_option (Pair (p + 4)) (print_buf fmt args zeros)) (Suc (Suc 0)) t"
  using print_buf_shows [OF assms] words_small(3,4) by (auto simp: prints_def numeral_2_eq_2)

lemma prints_postinc:
  assumes "c \<noteq> CHR 0x00"
  shows "prints p (map_option (Pair p) (store_at 4 CHR ''+'' zeros \<bind> store_text [CHR ''('', CHR ''a'', c, CHR '')'']))
     0 [CHR ''('', CHR ''a'', c, CHR '')'', CHR ''+'']"
proof -
  have "(store_at 4 CHR ''+'' zeros \<bind> store_text [CHR ''('', CHR ''a'', c, CHR '')'']) =
    store_text [CHR ''('', CHR ''a'', c, CHR '')'', CHR ''+''] zeros"
    by (simp add: store_at_def store_text_def numeral_eq_Suc)
  then show ?thesis using prints_store [of "[CHR ''('', CHR ''a'', c, CHR '')'', CHR ''+'']" p] assms by simp
qed

lemma word_of_Suc_0 [simp]: "word_of_nat (Suc 0) = (1 :: u16)"
  by (simp add: of_nat_Suc)

lemma ea_prints:
  assumes c: "code_at m p (operand_ext sz opd)" and ok: "operand_ok opd" and sz: "sz \<in> {ea_byte, ea_word, ea_long}"
  shows "prints p (ea m (word_of_nat (operand_mode opd)) (word_of_nat (operand_reg opd)) sz p zeros)
    (length (operand_ext sz opd)) (operand_text sz opd)"
proof (cases opd)
  case (DReg n)
  then show ?thesis using ok decimal_char_plain [of n]
    by (auto simp: ea_def Let_def reg_bits reg_char_nat intro!: prints_store)
next
  case (AReg n)
  then show ?thesis using ok decimal_char_plain [of n]
    by (auto simp: ea_def Let_def reg_bits reg_char_nat intro!: prints_store)
next
  case (Ind n)
  then show ?thesis using ok decimal_char_plain [of n]
    by (auto simp: ea_def Let_def reg_bits reg_char_nat intro!: prints_store)
next
  case (PostInc n)
  then show ?thesis using ok decimal_char_plain [of n]
    by (auto simp: ea_def Let_def reg_bits reg_char_nat intro!: prints_postinc)
next
  case (PreDec n)
  then show ?thesis using ok decimal_char_plain [of n]
    by (auto simp: ea_def Let_def reg_bits reg_char_nat intro!: prints_store)
next
  case (Disp d n)
  then have n: "n < 8" and l: "load16 m p = d" using ok c by auto
  have "sprintf_text ''%d(a%d)'' [short_arg d, word_arg (word_of_nat n)] = Some (dec_text (scast d) @ ''(a'' @ [decimal_char n] @ '')'')"
    using sprintf_disp [of "scast d" "ucast (word_of_nat n :: u16)"] by (simp add: short_arg_def word_arg_def reg_text [OF n])
  note t = prints_print(1) [OF this]
  show ?thesis
    using n dec_text_plain [of "scast d"] length_dec_text [of "scast d"] decimal_char_plain [OF n]
    by (auto simp: Disp ea_def Let_def reg_bits l intro!: t [simplified])
next
  case (Index d n a x l)
  then have n: "n < 8" and x: "x < 8" and w: "load16 m p = brief_ext d a x l" using ok c by auto
  show ?thesis
    using prints_print(1) [OF sprintf_index [of "scast d" "ucast (word_of_nat n :: u16)" "if a then CHR ''a'' else CHR ''d''"
          "ucast (word_of_nat x :: u16)"]]
      n dec_text_plain [of "scast d"] length_dec_text [of "scast d"] decimal_char_plain [OF n] decimal_char_plain [OF x]
    by (simp add: Index ea_def Let_def reg_bits w brief_ext_fields [OF x] char_arg_def word_arg_def reg_text [OF n] reg_text [OF x]
        index_text_def)
next
  case (AbsW w)
  then have l: "load16 m p = w" using c by auto
  show ?thesis
    using prints_print(1) [OF sprintf_abs [of "ucast w"] hex_text_plain] length_hex_text [of "CHR ''x''" "ucast w"]
    by (simp add: AbsW ea_def Let_def l word_arg_def)
next
  case (AbsL v)
  then have l: "load32 m p = v" using c load32_code by auto
  show ?thesis
    using prints_print(2) [OF sprintf_abs [of v] hex_text_plain] length_hex_text [of "CHR ''x''" v]
    by (simp add: AbsL ea_def Let_def l)
next
  case (PcDisp d)
  then have l: "load16 m p = d" using c by auto
  show ?thesis
    using prints_print(1) [OF sprintf_pc [of "scast d"]] dec_text_plain [of "scast d"] length_dec_text [of "scast d"]
    by (simp add: PcDisp ea_def Let_def l short_arg_def)
next
  case (PcIndex d a x l)
  then have x: "x < 8" and w: "load16 m p = brief_ext d a x l" using ok c by auto
  show ?thesis
    using prints_print(1) [OF sprintf_pc_index [of "scast d" "if a then CHR ''a'' else CHR ''d''" "ucast (word_of_nat x :: u16)"]]
      dec_text_plain [of "scast d"] length_dec_text [of "scast d"] decimal_char_plain [OF x]
    by (simp add: PcIndex ea_def Let_def w brief_ext_fields [OF x] char_arg_def word_arg_def reg_text [OF x] index_text_def)
next
  case (Imm v)
  show ?thesis
  proof (cases "sz = ea_long")
    case True
    then have l: "load32 m p = v" using c Imm load32_code by auto
    show ?thesis
      using prints_print(2) [OF sprintf_imm [of v]] dec_text_plain [of v] length_dec_text [of v] True
      by (simp add: Imm ea_def Let_def ea_imm_def l)
  next
    case False
    then have l: "load16 m p = ucast v" using c Imm by auto
    have b: "ucast (ucast v :: u16) = (ucast v :: u8)" by (rule bit_word_eqI) (auto simp: bit_simps)
    show ?thesis
      using prints_print(1) [OF sprintf_imm [of "scast (ucast v :: u8)"]] prints_print(1) [OF sprintf_imm [of "scast (ucast v :: u16)"]]
        dec_text_plain length_dec_text [of "scast (ucast v :: u8)"] length_dec_text [of "scast (ucast v :: u16)"] False sz
      by (auto simp: Imm ea_def Let_def ea_imm_def l char_arg_def short_arg_def b)
  qed
qed

subsection \<open>The move instructions\<close>

fun move_size :: "ea_size \<Rightarrow> nat" where
  "move_size ea_byte = 1"
| "move_size ea_long = 2"
| "move_size ea_word = 3"
| "move_size _ = 0"

definition move_number :: "ea_size \<Rightarrow> operand \<Rightarrow> operand \<Rightarrow> nat" where
  "move_number sz src dst =
     operand_reg src + 8 * (operand_mode src + 8 * (operand_mode dst + 8 * (operand_reg dst + 8 * move_size sz)))"

definition encode_move :: "ea_size \<Rightarrow> operand \<Rightarrow> operand \<Rightarrow> u16 list" where
  "encode_move sz src dst = word_of_nat (move_number sz src dst) # operand_ext sz src @ operand_ext sz dst"

definition move_text :: "ea_size \<Rightarrow> operand \<Rightarrow> operand \<Rightarrow> string" where
  "move_text sz src dst =
     (if operand_mode dst = 1 then ''movea'' else ''move'') @ ''.'' @ [char_of (unat (ea_size_code sz))] @ '' '' @
     operand_text sz src @ '', '' @ operand_text sz dst"

lemma operand_small: "operand_ok opd \<Longrightarrow> operand_mode opd < 8 \<and> operand_reg opd < 8"
  by (cases opd) auto

lemma numeral_text_nonempty: "numeral_text base ds u \<noteq> []"
  by (subst numeral_text.simps) auto

lemma operand_text_nonempty: "operand_text sz opd \<noteq> []"
  by (cases opd) (auto simp: hex_text_def numeral_text_nonempty)

lemma octal: "r < 8 \<Longrightarrow> (r + 8 * k) div 8 = (k :: nat)" "r < 8 \<Longrightarrow> (r + 8 * k) mod 8 = r"
  by simp_all

lemma move_fields:
  assumes "operand_ok src" "operand_ok dst" "ctx_instr ctx = word_of_nat (move_number sz src dst)"
  shows "src_mode ctx = word_of_nat (operand_mode src)" "src_reg ctx = word_of_nat (operand_reg src)"
    "dest_mode ctx = word_of_nat (operand_mode dst)" "dest_reg ctx = word_of_nat (operand_reg dst)"
    "drop_bit 12 (ctx_instr ctx) = word_of_nat (move_size sz)"
proof -
  let ?n = "move_number sz src dst"
  have b: "operand_mode src < 8" "operand_reg src < 8" "operand_mode dst < 8" "operand_reg dst < 8"
    using operand_small assms(1,2) by auto
  have s: "move_size sz < 4" by (cases sz) simp_all
  have n: "?n < 65536" using b s by (simp add: move_number_def)
  note o = octal [OF b(1)] octal [OF b(2)] octal [OF b(3)] octal [OF b(4)]
  have e: "?n div 2 ^ 3 = ?n div 8" "?n div 2 ^ 6 = ?n div 8 div 8" "?n div 2 ^ 9 = ?n div 8 div 8 div 8"
    "?n div 4096 = ?n div 8 div 8 div 8 div 8"
    by (simp_all only: div_mult2_eq [symmetric], simp_all)
  have "?n div 2 ^ 3 mod 8 = operand_mode src" "?n mod 8 = operand_reg src"
    unfolding e unfolding move_number_def by (simp_all only: o)
  then show "src_mode ctx = word_of_nat (operand_mode src)" "src_reg ctx = word_of_nat (operand_reg src)"
    using word16_fields(1) [OF n, of 3] word16_fields(2) [OF n] by (simp_all add: src_mode_def src_reg_def assms(3))
  have f: "?n div 2 ^ 6 mod 8 = operand_mode dst" "?n div 2 ^ 9 mod 8 = operand_reg dst" "?n div 4096 = move_size sz"
    unfolding e unfolding move_number_def by (simp_all only: o)
  show "drop_bit 12 (ctx_instr ctx) = word_of_nat (move_size sz)"
    using word16_fields(3) [OF n] s unfolding assms(3) f
    by (simp add: word_unat_eq_iff unsigned_of_nat take_bit_nat_eq_self)
  from f show "dest_mode ctx = word_of_nat (operand_mode dst)" "dest_reg ctx = word_of_nat (operand_reg dst)"
    using word16_fields(1) [OF n, of 6] word16_fields(1) [OF n, of 9]
    by (simp_all add: dest_mode_def dest_reg_def assms(3))
qed

lemma field_updates [simp]:
  "src_mode (ctx\<lparr>ctx_size := sz\<rparr>) = src_mode ctx" "src_mode (ctx\<lparr>ctx_p := q\<rparr>) = src_mode ctx"
  "src_mode (ctx\<lparr>ctx_pf := pf\<rparr>) = src_mode ctx" "src_mode (ctx\<lparr>ctx_a1 := b\<rparr>) = src_mode ctx"
  "src_reg (ctx\<lparr>ctx_size := sz\<rparr>) = src_reg ctx" "src_reg (ctx\<lparr>ctx_p := q\<rparr>) = src_reg ctx"
  "src_reg (ctx\<lparr>ctx_pf := pf\<rparr>) = src_reg ctx" "src_reg (ctx\<lparr>ctx_a1 := b\<rparr>) = src_reg ctx"
  "dest_mode (ctx\<lparr>ctx_size := sz\<rparr>) = dest_mode ctx" "dest_mode (ctx\<lparr>ctx_p := q\<rparr>) = dest_mode ctx"
  "dest_mode (ctx\<lparr>ctx_pf := pf\<rparr>) = dest_mode ctx" "dest_mode (ctx\<lparr>ctx_a1 := b\<rparr>) = dest_mode ctx"
  "dest_reg (ctx\<lparr>ctx_size := sz\<rparr>) = dest_reg ctx" "dest_reg (ctx\<lparr>ctx_p := q\<rparr>) = dest_reg ctx"
  "dest_reg (ctx\<lparr>ctx_pf := pf\<rparr>) = dest_reg ctx" "dest_reg (ctx\<lparr>ctx_a1 := b\<rparr>) = dest_reg ctx"
  by (simp_all add: src_mode_def src_reg_def dest_mode_def dest_reg_def)

text \<open>The two operands of a move, from an empty context.\<close>

lemma dis_move_prints:
  assumes sz: "sz \<in> {ea_byte, ea_word, ea_long}" and ok: "operand_ok src" "operand_ok dst"
    and byte: "operand_mode dst = 1 \<longrightarrow> sz \<noteq> ea_byte"
    and instr: "ctx_instr ctx = word_of_nat (move_number sz src dst)"
    and empty: "ctx_a1 ctx = zeros" "ctx_a2 ctx = zeros"
    and c: "code_at m (ctx_p ctx) (operand_ext sz src @ operand_ext sz dst)"
  shows "\<exists>b1 b2. dis_decode m ctx = Some (ctx\<lparr>ctx_size := sz,
      ctx_pf := Some (if operand_mode dst = 1 then ''movea'' else ''move''),
      ctx_p := ctx_p ctx + words (length (operand_ext sz src @ operand_ext sz dst)), ctx_a1 := b1, ctx_a2 := b2\<rparr>) \<and>
    shows_text b1 (operand_text sz src) \<and> shows_text b2 (operand_text sz dst)"
proof -
  let ?l1 = "length (operand_ext sz src)" let ?l2 = "length (operand_ext sz dst)"
  note i = move_fields [OF ok instr]
  have size: "move_sizemap ! unat (drop_bit 12 (ctx_instr ctx)) = sz"
    using i(5) sz by (auto simp: move_sizemap_def)
  have mode: "dest_mode ctx = 1 \<longleftrightarrow> operand_mode dst = 1"
    using i(3) operand_small [OF ok(2)] by (simp add: word_unat_eq_iff reg_bits(2))
  obtain b1 where e1: "ea m (src_mode ctx) (src_reg ctx) sz (ctx_p ctx) zeros = Some (ctx_p ctx + words ?l1, b1)"
    and t1: "shows_text b1 (operand_text sz src)"
    using ea_prints [of m "ctx_p ctx" sz src] c ok(1) sz i by (auto simp: prints_def code_at_append)
  obtain b2 where e2: "ea m (dest_mode ctx) (dest_reg ctx) sz (ctx_p ctx + words ?l1) zeros =
      Some (ctx_p ctx + words ?l1 + words ?l2, b2)" and t2: "shows_text b2 (operand_text sz dst)"
    using ea_prints [of m "ctx_p ctx + words ?l1" sz dst] c ok(2) sz i by (auto simp: prints_def code_at_append)
  have "dis_move m ctx = Some (ctx\<lparr>ctx_size := sz, ctx_pf := Some (if operand_mode dst = 1 then ''movea'' else ''move''),
      ctx_p := ctx_p ctx + words ?l1 + words ?l2, ctx_a1 := b1, ctx_a2 := b2\<rparr>)"
    using mode byte e1 e2 empty by (auto simp: dis_move_def Let_def size ea_a1_def ea_a2_def)
  moreover have "drop_bit 12 (ctx_instr ctx) = 1 \<or> drop_bit 12 (ctx_instr ctx) = 2 \<or> drop_bit 12 (ctx_instr ctx) = 3"
    using i(5) sz by auto
  then have "dis_decode m ctx = dis_move m ctx" by (auto simp: dis_decode_def Let_def)
  ultimately show ?thesis using t1 t2 by (auto simp: words_add add.assoc)
qed

lemma encoded_move:
  assumes sz: "sz \<in> {ea_byte, ea_word, ea_long}" and ok: "operand_ok src" "operand_ok dst"
    and byte: "operand_mode dst = 1 \<longrightarrow> sz \<noteq> ea_byte"
    and c: "code_at m p (encode_move sz src dst)"
  shows "disassemble machtype m p =
    Some (0, move_text sz src dst, p + adr (2 * length (encode_move sz src dst)))"
proof -
  let ?ctx = "dis_start machtype m p" let ?l = "length (operand_ext sz src @ operand_ext sz dst)"
  define op where "op = (if operand_mode dst = 1 then ''movea'' else ''move'')"
  have s: "ctx_instr ?ctx = word_of_nat (move_number sz src dst)" "ctx_a1 ?ctx = zeros" "ctx_a2 ?ctx = zeros"
    "code_at m (ctx_p ?ctx) (operand_ext sz src @ operand_ext sz dst)" "ctx_p ?ctx = p + 2"
    using c by (simp_all add: dis_start_def encode_move_def)
  obtain b1 b2 where d: "dis_decode m ?ctx = Some (?ctx\<lparr>ctx_size := sz, ctx_pf := Some op,
      ctx_p := p + 2 + words ?l, ctx_a1 := b1, ctx_a2 := b2\<rparr>)"
    and t: "shows_text b1 (operand_text sz src)" "shows_text b2 (operand_text sz dst)"
    using dis_move_prints [OF sz ok byte s(1-4)] unfolding op_def s(5) by blast
  have "char_of (98 :: nat) = CHR ''b''" "char_of (119 :: nat) = CHR ''w''" "char_of (108 :: nat) = CHR ''l''"
    by code_simp+
  then have ch: "ea_size_code sz = of_char (char_of (unat (ea_size_code sz)))" using sz by auto
  have "sprintf_text ''%s.%c'' [AStr (Some op), A32 (ea_size_code sz)] = Some (op @ ''.'' @ [char_of (unat (ea_size_code sz))])"
    by (subst ch, rule sprintf_op) (simp add: op_def)
  moreover have "sz \<noteq> ea_unsized" using sz by auto
  ultimately have "dis_output (?ctx\<lparr>ctx_size := sz, ctx_pf := Some op, ctx_p := p + 2 + words ?l, ctx_a1 := b1, ctx_a2 := b2\<rparr>) =
      Some (0, move_text sz src dst)"
    using t operand_text_nonempty by (simp add: dis_output_def Let_def shows_text_def move_text_def op_def)
  moreover have "p + 2 + words ?l = p + words (length (encode_move sz src dst))"
    using words_add [of 1 ?l] by (simp add: encode_move_def words_small add.assoc)
  ultimately show ?thesis by (simp add: disassemble_def d words_def)
qed

subsection \<open>Claims\<close>

text \<open>
  C23: Disassembling an assembled \<^verbatim>\<open>move\<close> or \<^verbatim>\<open>movea\<close> instruction, with any size and
  any of the twelve addressing modes of the MC68000 for its operands, prints it and advances the
  code pointer to the next instruction.  What is printed for an indexed operand does not tell the
  size of the index register: the code ignores that bit of the extension word, so
  \<^verbatim>\<open>4(a0,d1.w)\<close> and \<^verbatim>\<open>4(a0,d1.l)\<close> are both shown as \<^verbatim>\<open>4(a0, d1)\<close>.
\<close>

theorem disassemble_move_roundtrip:
  assumes "sz \<in> {ea_byte, ea_word, ea_long}" and "operand_ok src" and "operand_ok dst"
    and "operand_mode dst = 1 \<longrightarrow> sz \<noteq> ea_byte" and "code_at m p (encode_move sz src dst)"
  shows "disassemble machtype m p = Some (0, move_text sz src dst, p + adr (2 * length (encode_move sz src dst)))"
  using assms by (rule encoded_move)

lemma disassemble_move_roundtrip_witness:
  "disassemble mt68010 (code_bytes 0x2000 [0x2d, 0x7c, 0x12, 0x34, 0x56, 0x78, 0xff, 0xfe]) 0x2000 =
    Some (0, ''move.l #305419896, -2(a6)'', 0x2008) \<and>
   disassemble mt68010 (code_bytes 0x2000 [0x30, 0x30, 0x18, 0x04]) 0x2000 =
    Some (0, ''move.w 4(a0, d1), d0'', 0x2004)"
proof
  let ?m = "code_bytes 0x2000 [0x2d, 0x7c, 0x12, 0x34, 0x56, 0x78, 0xff, 0xfe]"
  let ?src = "Imm 0x12345678" and ?dst = "Disp 0xfffe 6"
  have e: "encode_move ea_long ?src ?dst = [0x2d7c, 0x1234, 0x5678, 0xfffe]"
    by (simp add: encode_move_def move_number_def)
  have "code_at ?m 0x2000 (encode_move ea_long ?src ?dst)"
    unfolding e by (simp add: load16_def code_bytes_def)
  then have "disassemble mt68010 ?m 0x2000 =
      Some (0, move_text ea_long ?src ?dst, 0x2000 + adr (2 * length (encode_move ea_long ?src ?dst)))"
    by (intro disassemble_move_roundtrip) simp_all
  moreover have "dec_text 0x12345678 = ''305419896''" "dec_text (scast (0xfffe :: u16)) = ''-2''"
    by (simp_all add: dec_text_def sign_text_def decimal_text_def numeral_text.simps bit_simps)
  moreover have "decimal_char 6 = CHR ''6''" "char_of (108 :: nat) = CHR ''l''" by code_simp+
  ultimately show "disassemble mt68010 ?m 0x2000 = Some (0, ''move.l #305419896, -2(a6)'', 0x2008)"
    by (simp add: e move_text_def)
next
  let ?m = "code_bytes 0x2000 [0x30, 0x30, 0x18, 0x04]"
  let ?src = "Index 4 0 False 1 True" and ?dst = "DReg 0"
  have e: "encode_move ea_word ?src ?dst = [0x3030, 0x1804]"
    by (simp add: encode_move_def move_number_def brief_ext_def)
  have "code_at ?m 0x2000 (encode_move ea_word ?src ?dst)"
    unfolding e by (simp add: load16_def code_bytes_def)
  then have "disassemble mt68010 ?m 0x2000 =
      Some (0, move_text ea_word ?src ?dst, 0x2000 + adr (2 * length (encode_move ea_word ?src ?dst)))"
    by (intro disassemble_move_roundtrip) simp_all
  moreover have "dec_text (scast (4 :: u8)) = ''4''"
    by (simp add: dec_text_def sign_text_def decimal_text_def numeral_text.simps bit_simps)
  moreover have "decimal_char 0 = CHR ''0''" "decimal_char 1 = CHR ''1''" "char_of (119 :: nat) = CHR ''w''" by code_simp+
  ultimately show "disassemble mt68010 ?m 0x2000 = Some (0, ''move.w 4(a0, d1), d0'', 0x2004)"
    unfolding e by (simp add: move_text_def index_text_def)
qed

end
