(* ===== verification/KTime.thy ===== *)
theory KTime
  imports Format
begin

text \<open>
  \<^verbatim>\<open>kernel/util/ktime.c\<close>: calendar dates, weekdays and Unix timestamps.  The fields of
  \<^verbatim>\<open>rtc_time_t\<close> are words of their width; timestamps are integers in the range of
  \<^verbatim>\<open>s32\<close>.  \<open>None\<close> stands for undefined behaviour: a read outside a table or a signed
  overflow.  Error numbers are values of \<open>errno\<close> on the left of a sum.
\<close>

subsection \<open>Dates and tables\<close>

record rtc_time =
  tm_year :: u16
  tm_month :: u8
  tm_day :: u8
  tm_hour :: u8
  tm_minute :: u8
  tm_second :: u8
  tm_day_of_week :: u8
  tm_dst :: u8

definition VALID_RTC_DATE :: "rtc_time \<Rightarrow> bool" where
  "VALID_RTC_DATE d \<longleftrightarrow>
     tm_year d < 2200 \<and> 1900 \<le> tm_year d
     \<and> 0 < tm_month d \<and> tm_month d < 13
     \<and> 0 < tm_day d \<and> tm_day d < 32
     \<and> tm_hour d < 24
     \<and> tm_minute d < 60
     \<and> tm_second d < 60
     \<and> 0 < tm_day_of_week d \<and> tm_day_of_week d < 8"

definition g_day_names_long :: "string list" where
  "g_day_names_long =
     [''Sunday'', ''Monday'', ''Tuesday'', ''Wednesday'', ''Thursday'', ''Friday'', ''Saturday'']"

definition g_day_names_short :: "string list" where
  "g_day_names_short = [''Sun'', ''Mon'', ''Tue'', ''Wed'', ''Thu'', ''Fri'', ''Sat'']"

definition g_month_names_long :: "string list" where
  "g_month_names_long = [
     ''January'', ''February'', ''March'', ''April'', ''May'', ''June'',
     ''July'', ''August'', ''September'', ''October'', ''November'', ''December'']"

definition g_month_names_short :: "string list" where
  "g_month_names_short =
     [''Jan'', ''Feb'', ''Mar'', ''Apr'', ''May'', ''Jun'', ''Jul'', ''Aug'', ''Sep'', ''Oct'', ''Nov'', ''Dec'']"

definition DATETIME_TS_MAX :: int where
  "DATETIME_TS_MAX = 2147483647"

definition g_ts_month_offset_common :: "int list" where
  "g_ts_month_offset_common = [
     2678400, 5097600, 7776000, 10368000, 13046400, 15638400,
     18316800, 20995200, 23587200, 26265600, 28857600, DATETIME_TS_MAX]"

definition g_ts_month_offset_leap :: "int list" where
  "g_ts_month_offset_leap = [
     2678400, 5184000, 7862400, 10454400, 13132800, 15724800,
     18403200, 21081600, 23673600, 26352000, 28944000, DATETIME_TS_MAX]"

definition g_ts_year_offset :: "int list" where
  "g_ts_year_offset = [
     - 2147483648, - 2145916800, - 2114380800, - 2082844800, - 2051222400, - 2019686400,
     - 1988150400, - 1956614400, - 1924992000, - 1893456000, - 1861920000, - 1830384000,
     - 1798761600, - 1767225600, - 1735689600, - 1704153600, - 1672531200, - 1640995200,
     - 1609459200, - 1577923200, - 1546300800, - 1514764800, - 1483228800, - 1451692800,
     - 1420070400, - 1388534400, - 1356998400, - 1325462400, - 1293840000, - 1262304000,
     - 1230768000, - 1199232000, - 1167609600, - 1136073600, - 1104537600, - 1073001600,
     - 1041379200, - 1009843200, - 978307200, - 946771200, - 915148800, - 883612800,
     - 852076800, - 820540800, - 788918400, - 757382400, - 725846400, - 694310400,
     - 662688000, - 631152000, - 599616000, - 568080000, - 536457600, - 504921600,
     - 473385600, - 441849600, - 410227200, - 378691200, - 347155200, - 315619200,
     - 283996800, - 252460800, - 220924800, - 189388800, - 157766400, - 126230400,
     - 94694400, - 63158400, - 31536000, 0, 31536000, 63072000,
     94694400, 126230400, 157766400, 189302400, 220924800, 252460800,
     283996800, 315532800, 347155200, 378691200, 410227200, 441763200,
     473385600, 504921600, 536457600, 567993600, 599616000, 631152000,
     662688000, 694224000, 725846400, 757382400, 788918400, 820454400,
     852076800, 883612800, 915148800, 946684800, 978307200, 1009843200,
     1041379200, 1072915200, 1104537600, 1136073600, 1167609600, 1199145600,
     1230768000, 1262304000, 1293840000, 1325376000, 1356998400, 1388534400,
     1420070400, 1451606400, 1483228800, 1514764800, 1546300800, 1577836800,
     1609459200, 1640995200, 1672531200, 1704067200, 1735689600, 1767225600,
     1798761600, 1830297600, 1861920000, 1893456000, 1924992000, 1956528000,
     1988150400, 2019686400, 2051222400, 2082758400, 2114380800, 2145916800]"

definition g_dow_common_year_table :: "int list" where
  "g_dow_common_year_table = [
     0, 1, 2, 3, 5, 6, 0,
     1, 3, 4, 5, 6, 1, 2,
     3, 4, 6, 0, 1, 2, 4,
     5, 6, 0, 2, 3, 4, 5]"

definition g_dow_leap_year_table :: "int list" where
  "g_dow_leap_year_table = [6, 4, 2, 0, 5, 3, 1]"

definition g_dow_month_table :: "int list" where
  "g_dow_month_table = [0, 3, 3, 6, 1, 4, 6, 2, 5, 0, 3, 5]"

definition g_days_in_month_leap :: "int list" where
  "g_days_in_month_leap = [31, 29, 31, 30, 31, 30, 31, 31, 30, 31, 30, 31]"

text \<open>A read of a table at an index.\<close>

definition lookup :: "'a list \<Rightarrow> int \<Rightarrow> 'a option" where
  "lookup xs i = (if 0 \<le> i \<and> i < int (length xs) then Some (xs ! nat i) else None)"

subsection \<open>Weekdays\<close>

definition is_leap_year :: "int \<Rightarrow> bool" where
  "is_leap_year year \<longleftrightarrow> \<not> (year AND 3 \<noteq> 0 \<or> \<not> year mod 100 \<noteq> 0 \<and> year mod 400 \<noteq> 0)"

definition day_of_week_unchecked :: "int \<Rightarrow> int \<Rightarrow> int \<Rightarrow> int option" where
  "day_of_week_unchecked year month day =
     (let a = (if 2000 \<le> year then 6 else 0);
          b = (if 2000 \<le> year then year - 2000 else year - 1900);
          b = (if 56 \<le> b then b - 56 else b);
          b = (if 28 \<le> b then b - 28 else b)
      in do {
        y \<leftarrow> (if year \<noteq> 1900 \<and> year AND 3 = 0 \<and> month < 3 then lookup g_dow_leap_year_table (drop_bit 2 b)
              else lookup g_dow_common_year_table b);
        mo \<leftarrow> lookup g_dow_month_table (month - 1);
        let a = a + y + (mo + day);
        let a = (if 28 \<le> a then a - 28 else a);
        let a = (if 14 \<le> a then a - 14 else a);
        let a = (if 7 \<le> a then a - 7 else a);
        Some (a + 1) })"

definition day_of_week :: "int \<Rightarrow> int \<Rightarrow> int \<Rightarrow> int option" where
  "day_of_week year month day =
     (if year < 1900 \<or> 2099 < year \<or> month < 1 \<or> 12 < month \<or> day < 1 \<or>
         g_days_in_month_leap ! nat (month - 1) < day \<or>
         month = 2 \<and> day = 29 \<and> \<not> is_leap_year year
      then Some (- 1)
      else day_of_week_unchecked year month day)"

subsection \<open>Timestamps to dates\<close>

text \<open>The binary search for the year, the two linear loops behind it.\<close>

fun year_search :: "int \<Rightarrow> int list \<Rightarrow> int \<Rightarrow> int option" where
  "year_search timestamp [] year_index = Some year_index"
| "year_search timestamp (step # steps) year_index = do {
     o1 \<leftarrow> lookup g_ts_year_offset year_index;
     if timestamp < o1 then year_search timestamp steps (year_index - step)
     else do {
       o2 \<leftarrow> lookup g_ts_year_offset (year_index + 1);
       if o2 \<le> timestamp then year_search timestamp steps (year_index + step)
       else Some year_index } }"

function year_down :: "int \<Rightarrow> int \<Rightarrow> int option" where
  "year_down timestamp year_index = do {
     o1 \<leftarrow> lookup g_ts_year_offset year_index;
     if timestamp < o1 \<and> year_index \<noteq> 0 then year_down timestamp (year_index - 1) else Some year_index }"
  by pat_completeness auto

termination by (relation "measure (\<lambda>(t, i). nat i)") (auto simp: lookup_def split: if_splits)

function year_up :: "int \<Rightarrow> int \<Rightarrow> int option" where
  "year_up timestamp year_index = do {
     o1 \<leftarrow> lookup g_ts_year_offset (year_index + 1);
     if o1 \<le> timestamp \<and> year_index < int (length g_ts_year_offset) - 1
     then year_up timestamp (year_index + 1) else Some year_index }"
  by pat_completeness auto

termination by (relation "measure (\<lambda>(t, i). nat (int (length g_ts_year_offset) - i))") auto

declare year_down.simps [simp del] year_up.simps [simp del]

text \<open>\<^verbatim>\<open>for(step = k - 1; step >= 0; --step) if(t_ >= (unit << step)) { t_ -= unit << step; n += 1 << step; }\<close>\<close>

fun count_units :: "int \<Rightarrow> nat \<Rightarrow> int \<times> int \<Rightarrow> int \<times> int" where
  "count_units unit 0 st = st"
| "count_units unit (Suc step) (t, n) =
     count_units unit step
       (if push_bit step unit \<le> t then (t - push_bit step unit, n + push_bit step 1) else (t, n))"

text \<open>The month loop; the index is left at the first month that starts later.\<close>

definition month_search :: "int list \<Rightarrow> int \<Rightarrow> int option" where
  "month_search month_offset t =
     (let k = length (takeWhile (\<lambda>off. off \<le> t) month_offset)
      in if k < length month_offset then Some (int k) else None)"

definition timestamp_to_rtc_time :: "int \<Rightarrow> rtc_time \<Rightarrow> rtc_time option" where
  "timestamp_to_rtc_time timestamp dt = do {
     year_index \<leftarrow> year_search timestamp [32, 16, 8, 4, 2, 1] 69;
     year_index \<leftarrow> year_down timestamp year_index;
     year_index \<leftarrow> year_up timestamp year_index;
     let year = year_index + 1901;
     o1 \<leftarrow> lookup g_ts_year_offset year_index;
     let t = timestamp - o1;
     let t = (if year_index = 0 then t + 29969152 else t);
     let month_offset = (if (year_index + 1) AND 3 \<noteq> 0 then g_ts_month_offset_common else g_ts_month_offset_leap);
     month \<leftarrow> month_search month_offset t;
     t \<leftarrow> (if month \<noteq> 0 then map_option (\<lambda>off. t - off) (lookup month_offset (month - 1)) else Some t);
     let (t, day) = count_units 86400 5 (t, 1);
     dow \<leftarrow> day_of_week_unchecked year (month + 1) day;
     let (t, hour) = count_units 3600 5 (t, 0);
     let (t, minute) = count_units 60 6 (t, 0);
     Some (dt\<lparr>tm_year := word_of_int year, tm_month := word_of_int month, tm_day := word_of_int day,
       tm_day_of_week := word_of_int dow, tm_hour := word_of_int hour, tm_minute := word_of_int minute,
       tm_second := word_of_int t\<rparr>) }"

subsection \<open>Dates to timestamps\<close>

definition s32_range :: "int \<Rightarrow> int option" where
  "s32_range i = (if - 2147483648 \<le> i \<and> i \<le> 2147483647 then Some i else None)"

definition rtc_time_to_timestamp :: "rtc_time \<Rightarrow> (errno + int) option" where
  "rtc_time_to_timestamp dt =
     (if tm_year dt \<le> 1901 \<and> tm_month dt \<le> 12 \<and> tm_day dt \<le> 13 \<and>
         tm_hour dt \<le> 20 \<and> tm_minute dt \<le> 45 \<and> tm_second dt \<le> 52
      then Some (Inl EINVAL)
      else if 2038 \<le> tm_year dt \<and> 1 \<le> tm_month dt \<and> 19 \<le> tm_day dt \<and>
         3 \<le> tm_hour dt \<and> 14 \<le> tm_minute dt \<and> 7 \<le> tm_second dt
      then Some (Inl EINVAL)
      else do {
        ts \<leftarrow> lookup g_ts_year_offset (uint (tm_year dt) - 1901);
        ts \<leftarrow> (if 1 < tm_month dt
               then do {
                 off \<leftarrow> lookup (if is_leap_year (uint (tm_year dt)) then g_ts_month_offset_leap
                                else g_ts_month_offset_common) (uint (tm_month dt) - 2);
                 s32_range (ts + off) }
               else Some ts);
        ts \<leftarrow> s32_range (ts + (86400 * (uint (tm_day dt) - 1) + 3600 * uint (tm_hour dt)
                             + 60 * uint (tm_minute dt) + uint (tm_second dt)));
        Some (Inr ts) })"

subsection \<open>Dates as text\<close>

definition day_number_suffix :: "u8 \<Rightarrow> string" where
  "day_number_suffix daynum =
     (if daynum < 1 \<or> 31 < daynum then []
      else if daynum = 1 \<or> daynum = 21 \<or> daynum = 31 then ''st''
      else if daynum = 2 \<or> daynum = 22 then ''nd''
      else if daynum = 3 \<or> daynum = 23 then ''rd''
      else ''th'')"

text \<open>An argument of type \<^verbatim>\<open>u8\<close> or \<^verbatim>\<open>u16\<close>, and a table entry as string argument.\<close>

definition uint_arg :: "'w::len word \<Rightarrow> arg" where
  "uint_arg w = A32 (ucast w)"

definition name_arg :: "string list \<Rightarrow> u8 \<Rightarrow> arg" where
  "name_arg names i = AStr (Some (names ! (unat i - 1)))"

definition date_iso8601 ::
    "rtc_time \<Rightarrow> u32 \<Rightarrow> (u32 \<Rightarrow> char) \<Rightarrow> (u32 result \<times> (u32 \<Rightarrow> char)) option" where
  "date_iso8601 tm len buffer =
     (if \<not> VALID_RTC_DATE tm then Some (Inl EINVAL, buffer)
      else map_option (\<lambda>(n, b). (Inr n, b))
        (snprintf len ''%04u-%02u-%02u %02u:%02u:%02u''
          [uint_arg (tm_year tm), uint_arg (tm_month tm), uint_arg (tm_day tm),
           uint_arg (tm_hour tm), uint_arg (tm_minute tm), uint_arg (tm_second tm)] buffer))"

definition date_short ::
    "rtc_time \<Rightarrow> u32 \<Rightarrow> (u32 \<Rightarrow> char) \<Rightarrow> (u32 result \<times> (u32 \<Rightarrow> char)) option" where
  "date_short tm len buffer =
     (if \<not> VALID_RTC_DATE tm then Some (Inl EINVAL, buffer)
      else map_option (\<lambda>(n, b). (Inr n, b))
        (snprintf len ''%s %u %s %u''
          [name_arg g_day_names_short (tm_day_of_week tm), uint_arg (tm_day tm),
           name_arg g_month_names_short (tm_month tm), uint_arg (tm_year tm)] buffer))"

definition date_long ::
    "rtc_time \<Rightarrow> u32 \<Rightarrow> (u32 \<Rightarrow> char) \<Rightarrow> (unit result \<times> (u32 \<Rightarrow> char)) option" where
  "date_long tm len buffer =
     (if \<not> VALID_RTC_DATE tm then Some (Inl EINVAL, buffer)
      else map_option (\<lambda>(n, b). (Inr (), b))
        (snprintf len ''%s %u%s %s %u''
          [name_arg g_day_names_long (tm_day_of_week tm), uint_arg (tm_day tm),
           AStr (Some (day_number_suffix (tm_day tm))),
           name_arg g_month_names_long (tm_month tm), uint_arg (tm_year tm)] buffer))"

definition time_iso8601 ::
    "rtc_time \<Rightarrow> u32 \<Rightarrow> (u32 \<Rightarrow> char) \<Rightarrow> (unit result \<times> (u32 \<Rightarrow> char)) option" where
  "time_iso8601 tm len buffer =
     (if \<not> VALID_RTC_DATE tm then Some (Inl EINVAL, buffer)
      else map_option (\<lambda>(n, b). (Inr (), b))
        (snprintf len ''%02u:%02u:%02u''
          [uint_arg (tm_hour tm), uint_arg (tm_minute tm), uint_arg (tm_second tm)] buffer))"

text \<open>
  The string ends where the list ends.  The fields are assigned even when the date turns out to
  be invalid; the weekday \<^verbatim>\<open>-1\<close> becomes 255.
\<close>

definition rtc_time_from_str :: "string \<Rightarrow> rtc_time \<Rightarrow> (unit result \<times> rtc_time) option" where
  "rtc_time_from_str str tm =
     (if length str \<noteq> 14 \<or> \<not> list_all is_digit str then Some (Inl EINVAL, tm)
      else let s = map digit_of str;
               year = s ! 0 * 1000 + s ! 1 * 100 + s ! 2 * 10 + s ! 3;
               month = s ! 4 * 10 + s ! 5;
               day = s ! 6 * 10 + s ! 7
           in do {
             dow \<leftarrow> day_of_week year month day;
             let tm = tm\<lparr>tm_year := word_of_int year, tm_month := word_of_int month, tm_day := word_of_int day,
               tm_hour := word_of_int (s ! 8 * 10 + s ! 9), tm_minute := word_of_int (s ! 10 * 10 + s ! 11),
               tm_second := word_of_int (s ! 12 * 10 + s ! 13), tm_day_of_week := word_of_int dow\<rparr>;
             Some (if VALID_RTC_DATE tm then Inr () else Inl EINVAL, tm) })"

text \<open>The clock is read from the first real-time clock device; device lookup and read are parameters.\<close>

definition get_time :: "(string \<Rightarrow> 'dev option) \<Rightarrow> ('dev \<Rightarrow> rtc_time result) \<Rightarrow> rtc_time result" where
  "get_time dev_find dev_read =
     (case dev_find ''rtc0'' of None \<Rightarrow> Inl ENOSYS | Some rtc \<Rightarrow> dev_read rtc)"

end
