(* ===== verification/Calendar.thy ===== *)
theory Calendar
  imports KTime
begin

text \<open>
  The calendar of \<^verbatim>\<open>kernel/util/ktime.c\<close> against the Gregorian rules: the tables of the
  code are checked once, entry by entry, against a reference calendar (days since 1970 computed
  from the leap-year rule), and the theorems about timestamps, weekdays and ISO 8601 text follow
  from those checks.
\<close>

subsection \<open>The reference calendar\<close>

definition gregorian_leap :: "int \<Rightarrow> bool" where
  "gregorian_leap y \<longleftrightarrow> y mod 4 = 0 \<and> (y mod 100 \<noteq> 0 \<or> y mod 400 = 0)"

definition month_days :: "bool \<Rightarrow> int \<Rightarrow> int" where
  "month_days leap m = (if m = 2 then if leap then 29 else 28 else if m \<in> {4, 6, 9, 11} then 30 else 31)"

text \<open>Days between 1 January 1970 and 1 January of a year; days of a year before a month.\<close>

definition days_before_year :: "int \<Rightarrow> int" where
  "days_before_year y = 365 * (y - 1) + (y - 1) div 4 - (y - 1) div 100 + (y - 1) div 400 - 719162"

fun days_before_month :: "bool \<Rightarrow> nat \<Rightarrow> int" where
  "days_before_month leap 0 = 0"
| "days_before_month leap (Suc m) = days_before_month leap m + month_days leap (int m + 1)"

definition civil_days :: "int \<Rightarrow> int \<Rightarrow> int \<Rightarrow> int" where
  "civil_days y m d = days_before_year y + days_before_month (gregorian_leap y) (nat (m - 1)) + (d - 1)"

definition civil_seconds :: "int \<Rightarrow> int \<Rightarrow> int \<Rightarrow> int \<Rightarrow> int \<Rightarrow> int \<Rightarrow> int" where
  "civil_seconds y m d h mi s = 86400 * civil_days y m d + 3600 * h + 60 * mi + s"

text \<open>1 January 1970 was a Thursday; 1 is Sunday.\<close>

definition civil_weekday :: "int \<Rightarrow> int" where
  "civil_weekday n = (n + 4) mod 7 + 1"

subsection \<open>The tables\<close>

lemma list_all_upto: "list_all P [a..b] \<Longrightarrow> a \<le> i \<Longrightarrow> i \<le> b \<Longrightarrow> P i" for i :: int
  by (simp add: list_all_iff)

lemma list_all_upt: "list_all P [a..<b] \<Longrightarrow> a \<le> i \<Longrightarrow> i < b \<Longrightarrow> P i"
  by (simp add: list_all_iff)

lemma year_table_check:
  "list_all (\<lambda>i. g_ts_year_offset ! nat i = 86400 * days_before_year (i + 1901)) [1..137]"
  by code_simp

lemma year_table:
  "1 \<le> i \<Longrightarrow> i \<le> 137 \<Longrightarrow> g_ts_year_offset ! nat i = 86400 * days_before_year (i + 1901)"
  by (rule list_all_upto [OF year_table_check])

lemma length_year_table [simp]: "length g_ts_year_offset = 138"
  by (simp add: g_ts_year_offset_def)

definition month_offsets :: "bool \<Rightarrow> int list" where
  "month_offsets leap = (if leap then g_ts_month_offset_leap else g_ts_month_offset_common)"

lemma month_table_check:
  "list_all (\<lambda>m. g_ts_month_offset_common ! m = 86400 * days_before_month False (Suc m) \<and>
     g_ts_month_offset_leap ! m = 86400 * days_before_month True (Suc m)) [0..<11]"
  by code_simp

lemma month_table:
  "m < 11 \<Longrightarrow> month_offsets leap ! m = 86400 * days_before_month leap (Suc m)"
  using list_all_upt [OF month_table_check, of m] by (cases leap) (simp_all only: month_offsets_def if_True if_False le0)

lemma month_table_end [simp]:
  "length (month_offsets leap) = 12" "month_offsets leap ! 11 = 2147483647"
  by (simp_all add: month_offsets_def g_ts_month_offset_leap_def g_ts_month_offset_common_def DATETIME_TS_MAX_def)

lemma and_3: "y AND 3 = y mod 4" for y :: int
  using take_bit_eq_mask [of 2 y] by (simp add: take_bit_eq_mod mask_eq_exp_minus_1)

lemma is_leap_year_gregorian [simp]: "is_leap_year y = gregorian_leap y"
proof -
  have "y mod 100 = 0 \<Longrightarrow> y mod 4 = 0"
    using mod_mod_cancel [of 4 100 y] by simp
  moreover have "y mod 400 = 0 \<Longrightarrow> y mod 100 = 0"
    using mod_mod_cancel [of 100 400 y] by simp
  ultimately show ?thesis
    by (auto simp: is_leap_year_def gregorian_leap_def and_3)
qed

lemma year_check:
  "list_all (\<lambda>y. gregorian_leap y = (y AND 3 = 0) \<and>
     days_before_year (y + 1) = days_before_year y + (if gregorian_leap y then 366 else 365)
     \<and> - 24837 \<le> days_before_year y \<and> days_before_year (y + 1) \<le> 24837) [1902..2037]"
  by code_simp

lemma year_step:
  assumes "1902 \<le> y" "y \<le> 2037"
  shows "gregorian_leap y \<longleftrightarrow> y AND 3 = 0"
    "days_before_year (y + 1) = days_before_year y + (if gregorian_leap y then 366 else 365)"
    "- 24837 \<le> days_before_year y" "days_before_year (y + 1) \<le> 24837"
  using list_all_upto [OF year_check assms] by blast+

lemma days_before_month_year: "days_before_month leap 12 = (if leap then 366 else 365)"
  by (simp add: numeral_eq_Suc month_days_def)

lemma month_days_bounds: "28 \<le> month_days leap m" "month_days leap m \<le> 31"
  by (auto simp: month_days_def)

lemma days_before_month_nonneg [simp]: "0 \<le> days_before_month leap m"
  by (induction m) (use month_days_bounds in \<open>auto simp: add_increasing2 intro!: add_nonneg_nonneg order.trans [OF _ month_days_bounds(1)]\<close>)

lemma lookup_Some: "0 \<le> i \<Longrightarrow> i < int (length xs) \<Longrightarrow> lookup xs i = Some (xs ! nat i)"
  by (simp add: lookup_def)

subsection \<open>Weekdays\<close>

definition dow_year :: "int \<Rightarrow> bool \<Rightarrow> int option" where
  "dow_year year early =
     (let a = (if 2000 \<le> year then 6 else 0);
          b = (if 2000 \<le> year then year - 2000 else year - 1900);
          b = (if 56 \<le> b then b - 56 else b);
          b = (if 28 \<le> b then b - 28 else b)
      in map_option (\<lambda>y. a + y)
           (if year \<noteq> 1900 \<and> year AND 3 = 0 \<and> early then lookup g_dow_leap_year_table (drop_bit 2 b)
            else lookup g_dow_common_year_table b))"

lemma dow_year_check:
  "list_all (\<lambda>y. case (dow_year y True, dow_year y False) of
      (Some a, Some b) \<Rightarrow> (a - days_before_year y - 3) mod 7 = 0
        \<and> (b - days_before_year y - (if gregorian_leap y then 1 else 0) - 3) mod 7 = 0
        \<and> 0 \<le> a \<and> a \<le> 12 \<and> 0 \<le> b \<and> b \<le> 12
     | _ \<Rightarrow> False) [1900..2099]"
  by code_simp

lemma dow_month_check:
  "list_all (\<lambda>m. (g_dow_month_table ! m - days_before_month False m) mod 7 = 0
     \<and> 0 \<le> g_dow_month_table ! m \<and> g_dow_month_table ! m \<le> 6
     \<and> days_before_month True m = days_before_month False m + (if m < 2 then 0 else 1)) [0..<12]"
  by code_simp

lemma dow_year_value:
  assumes "1900 \<le> y" "y \<le> 2099"
  obtains a where "dow_year y early = Some a" "0 \<le> a" "a \<le> 12"
    "(a - days_before_year y - (if gregorian_leap y \<and> \<not> early then 1 else 0) - 3) mod 7 = 0"
proof -
  have "case (dow_year y True, dow_year y False) of
      (Some a, Some b) \<Rightarrow> (a - days_before_year y - 3) mod 7 = 0
        \<and> (b - days_before_year y - (if gregorian_leap y then 1 else 0) - 3) mod 7 = 0
        \<and> 0 \<le> a \<and> a \<le> 12 \<and> 0 \<le> b \<and> b \<le> 12
     | _ \<Rightarrow> False"
    by (rule list_all_upto [OF dow_year_check assms])
  then show thesis
    using that by (cases early) (auto split: option.splits)
qed

lemma mod7_reduce:
  fixes a :: int
  assumes "0 \<le> a" "a < 56"
  shows "(let a = (if 28 \<le> a then a - 28 else a); a = (if 14 \<le> a then a - 14 else a);
              a = (if 7 \<le> a then a - 7 else a) in a) = a mod 7"
  unfolding Let_def using assms by presburger

lemma bind_map: "Option.bind (map_option f x) g = Option.bind x (\<lambda>z. g (f z))"
  by (cases x) simp_all

lemma day_of_week_unchecked_split:
  "day_of_week_unchecked year month day =
     Option.bind (dow_year year (month < 3)) (\<lambda>y. Option.bind (lookup g_dow_month_table (month - 1))
       (\<lambda>mo. Some ((let a = y + (mo + day); a = (if 28 \<le> a then a - 28 else a);
          a = (if 14 \<le> a then a - 14 else a); a = (if 7 \<le> a then a - 7 else a) in a) + 1)))"
  unfolding day_of_week_unchecked_def dow_year_def Let_def bind_map by (rule refl)

lemma day_of_week_unchecked_civil:
  assumes "1900 \<le> y" "y \<le> 2099" "1 \<le> m" "m \<le> 12" "1 \<le> d" "d \<le> 31"
  shows "day_of_week_unchecked y m d = Some (civil_weekday (civil_days y m d))"
proof -
  obtain a where a: "dow_year y (m < 3) = Some a" "0 \<le> a" "a \<le> 12"
    "(a - days_before_year y - (if gregorian_leap y \<and> \<not> m < 3 then 1 else 0) - 3) mod 7 = 0"
    using dow_year_value [OF assms(1,2), of "m < 3"] by blast
  define k where "k = nat (m - 1)"
  have k: "k < 12" "k < 2 \<longleftrightarrow> m < 3"
    using assms by (auto simp: k_def)
  have t: "(g_dow_month_table ! k - days_before_month False k) mod 7 = 0"
    "0 \<le> g_dow_month_table ! k" "g_dow_month_table ! k \<le> 6"
    "days_before_month True k = days_before_month False k + (if k < 2 then 0 else 1)"
    using list_all_upt [OF dow_month_check, of k] k(1) by (simp_all only: le0)
  have l: "lookup g_dow_month_table (m - 1) = Some (g_dow_month_table ! k)"
    using assms by (simp add: lookup_def g_dow_month_table_def k_def)
  have dm: "days_before_month (gregorian_leap y) k
      = days_before_month False k + (if gregorian_leap y \<and> \<not> m < 3 then 1 else 0)"
    using t(4) k by (cases "gregorian_leap y") auto
  have "(a + (g_dow_month_table ! k + d)) mod 7 = (civil_days y m d + 4) mod 7"
    using dvd_add [OF a(4) [folded dvd_eq_mod_eq_0] t(1) [folded dvd_eq_mod_eq_0]]
    unfolding civil_days_def k_def [symmetric] dm mod_eq_dvd_iff by (simp add: algebra_simps)
  then show ?thesis
    using mod7_reduce [of "a + (g_dow_month_table ! k + d)"] a t assms
    by (simp add: day_of_week_unchecked_split l civil_weekday_def)
qed

lemma day_of_week_spec:
  "day_of_week y m d =
     Some (if 1900 \<le> y \<and> y \<le> 2099 \<and> 1 \<le> m \<and> m \<le> 12 \<and> 1 \<le> d \<and> d \<le> month_days (gregorian_leap y) m
           then civil_weekday (civil_days y m d) else - 1)"
proof (cases "1900 \<le> y \<and> y \<le> 2099 \<and> 1 \<le> m \<and> m \<le> 12 \<and> 1 \<le> d")
  case True
  then have "m \<in> {1..12}"
    by simp
  then have "m \<in> {1, 2, 3, 4, 5, 6, 7, 8, 9, 10, 11, 12}"
    by (simp add: atLeastAtMost_iff) presburger
  then have v: "\<not> (g_days_in_month_leap ! nat (m - 1) < d \<or> m = 2 \<and> d = 29 \<and> \<not> gregorian_leap y)
      \<longleftrightarrow> d \<le> month_days (gregorian_leap y) m"
    by (auto simp: g_days_in_month_leap_def month_days_def)
  show ?thesis
  proof (cases "d \<le> month_days (gregorian_leap y) m")
    case d: True
    then have "d \<le> 31"
      using month_days_bounds(2) [of "gregorian_leap y" m] by linarith
    then show ?thesis
      using True d v day_of_week_unchecked_civil [of y m d] unfolding day_of_week_def by auto
  next
    case False
    then show ?thesis
      using True v unfolding day_of_week_def by auto
  qed
next
  case False
  then show ?thesis
    unfolding day_of_week_def by auto
qed

lemma day_of_week_civil:
  assumes "1900 \<le> y" "y \<le> 2099" "1 \<le> m" "m \<le> 12" "1 \<le> d" "d \<le> month_days (gregorian_leap y) m"
  shows "day_of_week y m d = Some (civil_weekday (civil_days y m d))"
  using assms by (simp add: day_of_week_spec)

lemma civil_weekday_bounds: "1 \<le> civil_weekday n" "civil_weekday n \<le> 7"
  unfolding civil_weekday_def using pos_mod_bound [of 7 "n + 4"] pos_mod_sign [of 7 "n + 4"] by simp_all

text \<open>
  C38: \<^verbatim>\<open>day_of_week()\<close> is the Gregorian weekday of every valid date of 1900 to 2099, numbered
  from 1 for Sunday, and \<^verbatim>\<open>-1\<close> for everything else: the two tables and the reductions by
  subtraction compute the remainder mod 7 of the days since 1970.  No table is read out of range.
\<close>

theorem day_of_week_gregorian:
  "day_of_week y m d =
     Some (if 1900 \<le> y \<and> y \<le> 2099 \<and> 1 \<le> m \<and> m \<le> 12 \<and> 1 \<le> d \<and> d \<le> month_days (gregorian_leap y) m
           then civil_weekday (civil_days y m d) else - 1)"
  by (rule day_of_week_spec)

subsection \<open>The searches\<close>

lemma year_search_bounds:
  assumes "sum_list steps \<le> i" "i + sum_list steps < 137" "list_all (\<lambda>s. 0 \<le> s) steps"
  shows "\<exists>j. year_search ts steps i = Some j \<and> i - sum_list steps \<le> j \<and> j \<le> i + sum_list steps"
  using assms
proof (induction steps arbitrary: i)
  case (Cons s steps)
  have nn: "0 \<le> sum_list steps"
    using Cons.prems(3) by (auto intro: sum_list_nonneg simp: list_all_iff)
  have l: "lookup g_ts_year_offset i = Some (g_ts_year_offset ! nat i)"
    "lookup g_ts_year_offset (i + 1) = Some (g_ts_year_offset ! nat (i + 1))"
    using Cons.prems nn by (auto simp: lookup_def)
  show ?case
    using Cons.IH [of "i - s"] Cons.IH [of "i + s"] Cons.prems nn by (auto simp: l)
qed simp

lemma year_down_spec:
  assumes "0 \<le> i" "i < 138" "g_ts_year_offset ! 0 \<le> ts"
  shows "\<exists>j. year_down ts i = Some j \<and> 0 \<le> j \<and> j \<le> i \<and> g_ts_year_offset ! nat j \<le> ts"
  using assms
proof (induction ts i rule: year_down.induct)
  case (1 ts i)
  have l: "lookup g_ts_year_offset i = Some (g_ts_year_offset ! nat i)"
    using "1.prems" by (simp add: lookup_def)
  show ?case
  proof (cases "ts < g_ts_year_offset ! nat i \<and> i \<noteq> 0")
    case True
    then show ?thesis
      using "1.IH" [OF l True] "1.prems" by (subst year_down.simps) (auto simp: l)
  next
    case False
    then show ?thesis
      using "1.prems" by (subst year_down.simps) (auto simp: l not_less)
  qed
qed

lemma year_up_spec:
  assumes "0 \<le> i" "i < 137" "g_ts_year_offset ! nat i \<le> ts" "ts < g_ts_year_offset ! 137"
  shows "\<exists>j. year_up ts i = Some j \<and> 0 \<le> j \<and> j < 137 \<and>
    g_ts_year_offset ! nat j \<le> ts \<and> ts < g_ts_year_offset ! nat (j + 1)"
  using assms
proof (induction ts i rule: year_up.induct)
  case (1 ts i)
  have l: "lookup g_ts_year_offset (i + 1) = Some (g_ts_year_offset ! nat (i + 1))"
    using "1.prems" by (simp add: lookup_def)
  show ?case
  proof (cases "g_ts_year_offset ! nat (i + 1) \<le> ts")
    case True
    with "1.prems" have "i + 1 < 137"
      by (cases "i = 136") auto
    then show ?thesis
      using "1.IH" [OF l] True "1.prems" by (subst year_up.simps) (auto simp: l)
  next
    case False
    then show ?thesis
      using "1.prems" by (subst year_up.simps) (auto simp: l)
  qed
qed

lemma count_units_divmod:
  assumes "0 < unit" "0 \<le> t" "t < unit * 2 ^ k"
  shows "count_units unit k (t, n) = (t mod unit, n + t div unit)"
  using assms
proof (induction k arbitrary: t n)
  case (Suc k)
  have u: "push_bit k unit = unit * 2 ^ k" "push_bit k 1 = (2 ^ k :: int)"
    by (simp_all add: push_bit_eq_mult)
  show ?case
  proof (cases "unit * 2 ^ k \<le> t")
    case True
    have "count_units unit (Suc k) (t, n)
        = ((t - unit * 2 ^ k) mod unit, n + 2 ^ k + (t - unit * 2 ^ k) div unit)"
      using True Suc.prems by (simp add: u Suc.IH)
    moreover have "(t - unit * 2 ^ k) mod unit = t mod unit"
      using mod_mult_self2 [of t unit "- (2 ^ k)"] by simp
    moreover have "(t - unit * 2 ^ k) div unit = t div unit - 2 ^ k"
      using div_mult_self2 [of unit t "- (2 ^ k)"] Suc.prems(1) by simp
    ultimately show ?thesis
      by simp
  next
    case False
    then show ?thesis
      using Suc by (simp add: u)
  qed
qed simp

lemma month_search_spec:
  assumes "0 \<le> t" "t < 86400 * days_before_month leap 12"
  shows "\<exists>m. month_search (month_offsets leap) t = Some (int m) \<and> m < 12 \<and>
    86400 * days_before_month leap m \<le> t \<and> t < 86400 * days_before_month leap (Suc m)"
proof -
  let ?off = "month_offsets leap"
  define m where "m = length (takeWhile (\<lambda>off. off \<le> t) ?off)"
  have "t < 2147483647"
    using assms(2) by (simp add: days_before_month_year split: if_splits)
  then have "\<not> (\<forall>x \<in> set ?off. x \<le> t)"
    using nth_mem [of 11 ?off] by fastforce
  then have "takeWhile (\<lambda>off. off \<le> t) ?off \<noteq> ?off"
    by (simp add: takeWhile_eq_all_conv)
  then have m: "m < 12"
    using length_takeWhile_le [of "\<lambda>off. off \<le> t" ?off] takeWhile_eq_take [of "\<lambda>off. off \<le> t" ?off]
    by (cases "m = 12") (auto simp: m_def)
  have up: "t < ?off ! m"
    using nth_length_takeWhile [of "\<lambda>off. off \<le> t" ?off] m by (auto simp: m_def)
  have low: "?off ! k \<le> t" if "k < m" for k
    using that set_takeWhileD [of "?off ! k" "\<lambda>off. off \<le> t" ?off] nth_mem [of k "takeWhile (\<lambda>off. off \<le> t) ?off"]
    by (simp add: m_def takeWhile_nth)
  have "86400 * days_before_month leap m \<le> t"
  proof (cases m)
    case (Suc k)
    then show ?thesis
      using low [of k] month_table [of k leap] m by simp
  qed (use assms in simp)
  moreover have "t < 86400 * days_before_month leap (Suc m)"
  proof (cases "m = 11")
    case False
    then show ?thesis
      using up month_table [of m leap] m by simp
  next
    case True
    then show ?thesis
      using assms(2) by (simp add: numeral_eq_Suc)
  qed
  ultimately show ?thesis
    using m by (auto simp: month_search_def m_def [symmetric])
qed


subsection \<open>Civil dates\<close>

definition valid_civil :: "int \<Rightarrow> int \<Rightarrow> int \<Rightarrow> int \<Rightarrow> int \<Rightarrow> int \<Rightarrow> bool" where
  "valid_civil y m d h mi s \<longleftrightarrow>
     1902 \<le> y \<and> y \<le> 2037 \<and> 1 \<le> m \<and> m \<le> 12 \<and> 1 \<le> d \<and> d \<le> month_days (gregorian_leap y) m \<and>
     0 \<le> h \<and> h < 24 \<and> 0 \<le> mi \<and> mi < 60 \<and> 0 \<le> s \<and> s < 60"

definition set_civil :: "rtc_time \<Rightarrow> int \<Rightarrow> int \<Rightarrow> int \<Rightarrow> int \<Rightarrow> int \<Rightarrow> int \<Rightarrow> rtc_time" where
  "set_civil dt y m d h mi s =
     dt\<lparr>tm_year := word_of_int y, tm_month := word_of_int m, tm_day := word_of_int d,
        tm_day_of_week := word_of_int (civil_weekday (civil_days y m d)),
        tm_hour := word_of_int h, tm_minute := word_of_int mi, tm_second := word_of_int s\<rparr>"

lemma days_before_month_mono: "m \<le> n \<Longrightarrow> days_before_month leap m \<le> days_before_month leap n"
proof (induction n)
  case (Suc n)
  then show ?case
    using month_days_bounds(1) [of leap "int n + 1"] by (cases "m = Suc n") auto
qed simp

lemma days_in_year:
  assumes "m \<le> 12" "1 \<le> m" "1 \<le> d" "d \<le> month_days leap m"
  shows "0 \<le> days_before_month leap (nat (m - 1)) + (d - 1)"
    "days_before_month leap (nat (m - 1)) + (d - 1) < days_before_month leap (nat m)"
    "days_before_month leap (nat m) \<le> days_before_month leap 12"
proof -
  have "nat m = Suc (nat (m - 1))"
    using assms by simp
  then show "days_before_month leap (nat (m - 1)) + (d - 1) < days_before_month leap (nat m)"
    using assms by simp
  show "days_before_month leap (nat m) \<le> days_before_month leap 12"
    using assms by (intro days_before_month_mono) simp
qed (use assms in simp)

lemma civil_days_bounds:
  assumes "valid_civil y m d h mi s"
  shows "days_before_year y \<le> civil_days y m d" "civil_days y m d < days_before_year (y + 1)"
  using assms days_in_year [of m d "gregorian_leap y"] year_step(2) [of y]
  by (auto simp: valid_civil_def civil_days_def days_before_month_year)

lemma days_before_year_less:
  assumes "y < z" "1902 \<le> y" "z \<le> 2038"
  shows "days_before_year (y + 1) \<le> days_before_year z"
  using assms
proof (induction "nat (z - y)" arbitrary: z)
  case (Suc n)
  show ?case
  proof (cases "z = y + 1")
    case False
    then have "days_before_year (y + 1) \<le> days_before_year (z - 1)"
      using Suc.hyps(1) [of "z - 1"] Suc.hyps(2) Suc.prems by auto
    then show ?thesis
      using year_step(2) [of "z - 1"] Suc.prems by (auto split: if_splits)
  qed simp
qed simp

lemma civil_days_inj:
  assumes v: "valid_civil y m d h mi s" "valid_civil y' m' d' h' mi' s'"
    and eq: "civil_days y m d = civil_days y' m' d'"
  shows "y = y' \<and> m = m' \<and> d = d'"
proof -
  have y: "y = y'"
  proof (rule ccontr)
    assume "y \<noteq> y'"
    then show False
      using civil_days_bounds [OF v(1)] civil_days_bounds [OF v(2)] eq
        days_before_year_less [of y y'] days_before_year_less [of y' y] v
      by (cases "y < y'") (auto simp: valid_civil_def)
  qed
  have lt: "days_before_month leap (nat (a - 1)) + (b - 1) < days_before_month leap (nat (c - 1)) + (e - 1)"
    if "a < c" "1 \<le> a" "c \<le> 12" "1 \<le> b" "b \<le> month_days leap a" "1 \<le> e" for leap a b c e
  proof -
    have "nat a \<le> nat (c - 1)"
      using that by (intro nat_mono) simp
    then show ?thesis
      using that days_in_year(2) [of a b leap] days_before_month_mono [of "nat a" "nat (c - 1)" leap] by simp
  qed
  have "m = m'"
    using lt [of m m' d "gregorian_leap y" d'] lt [of m' m d' "gregorian_leap y" d] eq v y
    by (cases m m' rule: linorder_cases) (auto simp: valid_civil_def civil_days_def)
  then show ?thesis
    using eq y by (simp add: civil_days_def)
qed

lemma civil_seconds_inj:
  assumes v: "valid_civil y m d h mi s" "valid_civil y' m' d' h' mi' s'"
    and eq: "civil_seconds y m d h mi s = civil_seconds y' m' d' h' mi' s'"
  shows "y = y' \<and> m = m' \<and> d = d' \<and> h = h' \<and> mi = mi' \<and> s = s'"
proof -
  have b: "0 \<le> s" "s < 60" "0 \<le> mi" "mi < 60" "0 \<le> h" "h < 24"
    "0 \<le> s'" "s' < 60" "0 \<le> mi'" "mi' < 60" "0 \<le> h'" "h' < 24"
    using v by (auto simp: valid_civil_def)
  have split: "D = D' \<and> r = r'"
    if "k * D + r = k * D' + r'" "0 \<le> r" "r < k" "0 \<le> r'" "r' < k" for k D r D' r' :: int
    using that int_div_pos_eq [of "k * D + r" k D r] int_div_pos_eq [of "k * D' + r'" k D' r'] by simp
  have "civil_days y m d = civil_days y' m' d' \<and> 3600 * h + (60 * mi + s) = 3600 * h' + (60 * mi' + s')"
    using eq b unfolding civil_seconds_def by (intro split [of 86400]) simp_all
  moreover from this have "h = h' \<and> 60 * mi + s = 60 * mi' + s'"
    using b by (intro split [of 3600]) simp_all
  moreover from this have "mi = mi' \<and> s = s'"
    using b by (intro split [of 60]) simp_all
  ultimately have "civil_days y m d = civil_days y' m' d' \<and> h = h' \<and> mi = mi' \<and> s = s'"
    by simp
  then show ?thesis
    using civil_days_inj [OF v] by blast
qed

subsection \<open>Timestamps\<close>

declare year_search.simps [simp del]

lemma year_of_timestamp:
  assumes "- 2145916800 \<le> ts" "ts < 2145916800"
  obtains j where "1 \<le> j" "j \<le> 136"
    "Option.bind (year_search ts [32, 16, 8, 4, 2, 1] 69)
       (\<lambda>i. Option.bind (year_down ts i) (year_up ts)) = Some j"
    "86400 * days_before_year (j + 1901) \<le> ts" "ts < 86400 * days_before_year (j + 1902)"
proof -
  have e: "g_ts_year_offset ! 0 = - 2147483648" "g_ts_year_offset ! 1 = - 2145916800"
    "g_ts_year_offset ! 137 = 2145916800"
    by (simp_all add: g_ts_year_offset_def)
  obtain i where i: "year_search ts [32, 16, 8, 4, 2, 1] 69 = Some i" "6 \<le> i" "i \<le> 132"
    using year_search_bounds [of "[32, 16, 8, 4, 2, 1]" 69 ts] by auto
  obtain k where k: "year_down ts i = Some k" "0 \<le> k" "k \<le> i" "g_ts_year_offset ! nat k \<le> ts"
    using year_down_spec [of i ts] i assms by (auto simp: e)
  obtain j where j: "year_up ts k = Some j" "0 \<le> j" "j < 137" "g_ts_year_offset ! nat j \<le> ts"
    "ts < g_ts_year_offset ! nat (j + 1)"
    using year_up_spec [of k ts] k i assms by (auto simp: e)
  have "j \<noteq> 0"
    using j(5) assms(1) e(2) by (cases "j = 0") auto
  then have "1 \<le> j" "j \<le> 136"
    using j by simp_all
  moreover have "Option.bind (year_search ts [32, 16, 8, 4, 2, 1] 69)
       (\<lambda>i. Option.bind (year_down ts i) (year_up ts)) = Some j"
    by (simp add: i(1) k(1) j(1))
  moreover have "86400 * days_before_year (j + 1901) \<le> ts" "ts < 86400 * days_before_year (j + 1902)"
    using calculation j(4,5) year_table [of j] year_table [of "j + 1"] by (simp_all add: add.assoc)
  ultimately show thesis
    by (rule that)
qed

lemma timestamp_to_rtc_time_exists:
  assumes "- 2145916800 \<le> ts" "ts < 2145916800"
  shows "\<exists>y m d h mi s. valid_civil y m d h mi s \<and> ts = civil_seconds y m d h mi s \<and>
    timestamp_to_rtc_time ts dt = Some ((set_civil dt y m d h mi s)\<lparr>tm_month := word_of_int (m - 1)\<rparr>)"
proof -
  obtain j where j: "1 \<le> j" "j \<le> 136"
    and search: "Option.bind (year_search ts [32, 16, 8, 4, 2, 1] 69)
       (\<lambda>i. Option.bind (year_down ts i) (year_up ts)) = Some j"
    and lo: "86400 * days_before_year (j + 1901) \<le> ts" and hi: "ts < 86400 * days_before_year (j + 1902)"
    by (rule year_of_timestamp [OF assms])
  define y where "y = j + 1901"
  define leap where "leap = gregorian_leap y"
  define t where "t = ts - 86400 * days_before_year y"
  have y: "1902 \<le> y" "y \<le> 2037"
    using j by (auto simp: y_def)
  have leap: "(j + 1) AND 3 = 0 \<longleftrightarrow> leap"
    unfolding leap_def year_step(1) [OF y] unfolding and_3 y_def by presburger
  have t: "0 \<le> t" "t < 86400 * days_before_month leap 12"
    using lo hi year_step(2) [OF y]
    by (simp_all add: t_def y_def leap_def days_before_month_year add.assoc add.commute split: if_splits)
  obtain m where m: "month_search (month_offsets leap) t = Some (int m)" "m < 12"
    "86400 * days_before_month leap m \<le> t" "t < 86400 * days_before_month leap (Suc m)"
    using month_search_spec [OF t] by blast
  define r where "r = t - 86400 * days_before_month leap m"
  have r: "0 \<le> r" "r < 86400 * month_days leap (int m + 1)"
    using m by (auto simp: r_def)
  have month: "(if int m \<noteq> 0 then map_option (\<lambda>off. t - off) (lookup (month_offsets leap) (int m - 1)) else Some t)
      = Some r"
  proof (cases m)
    case (Suc k)
    then show ?thesis
      using m(2) month_table [of k leap] by (simp add: lookup_def r_def of_nat_Suc)
  qed (simp add: r_def)
  define d where "d = 1 + r div 86400"
  define h where "h = (r mod 86400) div 3600"
  define mi where "mi = (r mod 86400 mod 3600) div 60"
  define s where "s = r mod 86400 mod 3600 mod 60"
  have dv: "1 \<le> d" "d \<le> month_days leap (int m + 1)"
    using r mult_div_mod_eq [of 86400 r] pos_mod_sign [of 86400 r]
    unfolding d_def by (simp_all add: pos_imp_zdiv_nonneg_iff del: mult_div_mod_eq)
  have c1: "count_units 86400 5 (r, 1) = (r mod 86400, d)"
    using r month_days_bounds(2) [of leap "int m + 1"] by (simp add: count_units_divmod d_def)
  have c2: "count_units 3600 5 (r mod 86400, 0) = (r mod 86400 mod 3600, h)"
    using pos_mod_bound [of 86400 r] by (simp add: count_units_divmod h_def)
  have c3: "count_units 60 6 (r mod 86400 mod 3600, 0) = (s, mi)"
    using pos_mod_bound [of 3600 "r mod 86400"] by (simp add: count_units_divmod mi_def s_def)
  have hv: "0 \<le> h" "h < 24" "0 \<le> mi" "mi < 60" "0 \<le> s" "s < 60"
    using pos_mod_bound [of 86400 r] pos_mod_bound [of 3600 "r mod 86400"]
    by (auto simp: h_def mi_def s_def pos_imp_zdiv_nonneg_iff)
  have v: "valid_civil y (int m + 1) d h mi s"
    using y m(2) dv hv by (simp add: valid_civil_def leap_def)
  have "r = 86400 * (d - 1) + 3600 * h + 60 * mi + s"
    unfolding d_def h_def mi_def s_def by simp
  then have ts: "ts = civil_seconds y (int m + 1) d h mi s"
    unfolding civil_seconds_def civil_days_def r_def t_def by (simp add: leap_def)
  have dow: "day_of_week_unchecked y (int m + 1) d = Some (civil_weekday (civil_days y (int m + 1) d))"
    using v month_days_bounds(2) [of leap "int m + 1"]
    by (intro day_of_week_unchecked_civil) (auto simp: valid_civil_def leap_def)
  have off: "lookup g_ts_year_offset j = Some (86400 * days_before_year y)"
    using j year_table [of j] by (simp add: lookup_def y_def)
  have mo: "(if (j + 1) AND 3 \<noteq> 0 then g_ts_month_offset_common else g_ts_month_offset_leap) = month_offsets leap"
    using leap by (simp add: month_offsets_def)
  obtain i k where ik: "year_search ts [32, 16, 8, 4, 2, 1] 69 = Some i" "year_down ts i = Some k" "year_up ts k = Some j"
    using search by (auto simp: bind_eq_Some_conv)
  have j0: "(j = 0) = False"
    using j by simp
  have "timestamp_to_rtc_time ts dt =
      Some ((set_civil dt y (int m + 1) d h mi s)\<lparr>tm_month := word_of_int (int m)\<rparr>)"
    unfolding set_civil_def
    by (simp only: timestamp_to_rtc_time_def ik bind.bind_lunit Let_def off j0 if_False mo prod.case
        y_def [symmetric] t_def [symmetric] m(1) month c1 c2 c3 dow) simp
  then show ?thesis
    using v ts by (intro exI [of _ y] exI [of _ "int m + 1"] exI [of _ d] exI [of _ h] exI [of _ mi] exI [of _ s]) simp
qed

lemma timestamp_of_valid_range:
  assumes "valid_civil y m d h mi s"
  shows "- 2145916800 \<le> civil_seconds y m d h mi s" "civil_seconds y m d h mi s < 2145916800"
  using civil_days_bounds [OF assms] year_step(3,4) [of y] assms
  by (auto simp: civil_seconds_def valid_civil_def)

lemma timestamp_to_rtc_time_of_civil:
  assumes "valid_civil y m d h mi s"
  shows "timestamp_to_rtc_time (civil_seconds y m d h mi s) dt =
    Some ((set_civil dt y m d h mi s)\<lparr>tm_month := word_of_int (m - 1)\<rparr>)"
proof -
  obtain y' m' d' h' mi' s' where c: "valid_civil y' m' d' h' mi' s'"
    "civil_seconds y m d h mi s = civil_seconds y' m' d' h' mi' s'"
    "timestamp_to_rtc_time (civil_seconds y m d h mi s) dt =
      Some ((set_civil dt y' m' d' h' mi' s')\<lparr>tm_month := word_of_int (m' - 1)\<rparr>)"
    using timestamp_to_rtc_time_exists [OF timestamp_of_valid_range [OF assms]] by blast
  then show ?thesis
    using civil_seconds_inj [OF assms c(1,2)] by simp
qed

text \<open>
  C25: \<^verbatim>\<open>timestamp_to_rtc_time()\<close> inverts the reference calendar: for every civil date and time
  of the years 1902 to 2037 the timestamp of that moment is converted to exactly those fields and the
  right weekday (the binary search and the two loops behind it end on the right year and read no entry
  outside the table), except that the month field counts from zero.
\<close>

theorem timestamp_to_rtc_time_civil:
  assumes "valid_civil y m d h mi s"
  shows "timestamp_to_rtc_time (civil_seconds y m d h mi s) dt =
    Some ((set_civil dt y m d h mi s)\<lparr>tm_month := word_of_int (m - 1)\<rparr>)"
  using assms by (rule timestamp_to_rtc_time_of_civil)

lemma timestamp_to_rtc_time_civil_witness:
  "timestamp_to_rtc_time 1709210096
     \<lparr>tm_year = 0, tm_month = 0, tm_day = 0, tm_hour = 0, tm_minute = 0, tm_second = 0, tm_day_of_week = 0, tm_dst = 1\<rparr>
   = Some \<lparr>tm_year = 2024, tm_month = 1, tm_day = 29, tm_hour = 12, tm_minute = 34, tm_second = 56,
       tm_day_of_week = 5, tm_dst = 1\<rparr>"
proof -
  have "days_before_month True (nat 1) = 31"
    by (simp add: month_days_def)
  then show ?thesis
    using timestamp_to_rtc_time_civil [of 2024 2 29 12 34 56
      "\<lparr>tm_year = 0, tm_month = 0, tm_day = 0, tm_hour = 0, tm_minute = 0, tm_second = 0, tm_day_of_week = 0, tm_dst = 1\<rparr>"]
    by (simp add: valid_civil_def civil_seconds_def civil_days_def days_before_year_def month_days_def
        gregorian_leap_def set_civil_def civil_weekday_def)
qed

lemma uint_of_int_eq: "0 \<le> i \<Longrightarrow> i < 2 ^ LENGTH('a) \<Longrightarrow> uint (word_of_int i :: 'a::len word) = i"
  by (simp add: unsigned_of_int take_bit_int_eq_self)

lemma month_days_before:
  assumes "1 \<le> m" "m \<le> 12"
  shows "days_before_month leap (nat (m - 1)) \<le> 335"
proof -
  have "days_before_month leap (nat (m - 1)) \<le> days_before_month leap 11"
    using assms by (intro days_before_month_mono) simp
  also have "\<dots> \<le> 335"
    by (cases leap) (simp_all add: numeral_eq_Suc month_days_def)
  finally show ?thesis .
qed

lemma rtc_time_to_timestamp_seconds:
  assumes v: "valid_civil (uint (tm_year dt)) (uint (tm_month dt)) (uint (tm_day dt))
    (uint (tm_hour dt)) (uint (tm_minute dt)) (uint (tm_second dt))"
  shows "rtc_time_to_timestamp dt = Some (Inr (civil_seconds (uint (tm_year dt)) (uint (tm_month dt))
    (uint (tm_day dt)) (uint (tm_hour dt)) (uint (tm_minute dt)) (uint (tm_second dt))))"
proof -
  let ?y = "uint (tm_year dt)" and ?m = "uint (tm_month dt)" and ?d = "uint (tm_day dt)"
  let ?leap = "gregorian_leap ?y"
  define D where "D = days_before_month ?leap (nat (?m - 1))"
  have y: "1902 \<le> ?y" "?y \<le> 2037" and m: "1 \<le> ?m" "?m \<le> 12"
    using v by (auto simp: valid_civil_def)
  have g: "\<not> tm_year dt \<le> 1901" "\<not> 2038 \<le> tm_year dt"
    using y by (simp_all add: word_le_def)
  have off: "lookup g_ts_year_offset (?y - 1901) = Some (86400 * days_before_year ?y)"
    using y year_table [of "?y - 1901"] by (simp add: lookup_def)
  have D: "0 \<le> D" "D \<le> 335"
    using month_days_before [OF m] by (simp_all add: D_def)
  have range: "s32_range i = Some i" if "- 2147483648 \<le> i" "i \<le> 2147483647" for i
    using that by (simp add: s32_range_def)
  have ym: "s32_range (86400 * days_before_year ?y + 86400 * D) = Some (86400 * days_before_year ?y + 86400 * D)"
    using year_step(2,3,4) [OF y] D by (intro range) (auto split: if_splits)
  have month: "(if 1 < tm_month dt
      then Option.bind (lookup (if is_leap_year ?y then g_ts_month_offset_leap else g_ts_month_offset_common) (?m - 2))
        (\<lambda>off. s32_range (86400 * days_before_year ?y + off))
      else Some (86400 * days_before_year ?y)) = Some (86400 * days_before_year ?y + 86400 * D)"
  proof (cases "?m = 1")
    case True
    then have "tm_month dt = 1"
      by (simp add: word_uint_eq_iff)
    then show ?thesis
      by (simp add: D_def)
  next
    case False
    with m have m2: "2 \<le> ?m"
      by simp
    then have "1 < tm_month dt"
      by (simp add: word_less_def)
    moreover have "nat (?m - 1) = Suc (nat (?m - 2))"
      using m2 by simp
    moreover have "(if is_leap_year ?y then g_ts_month_offset_leap else g_ts_month_offset_common) = month_offsets ?leap"
      by (simp add: month_offsets_def)
    moreover have "lookup (month_offsets ?leap) (?m - 2) = Some (86400 * days_before_month ?leap (Suc (nat (?m - 2))))"
      using m m2 month_table [of "nat (?m - 2)" ?leap] by (simp add: lookup_def)
    ultimately show ?thesis
      using ym by (simp add: D_def)
  qed
  have "civil_seconds ?y ?m ?d (uint (tm_hour dt)) (uint (tm_minute dt)) (uint (tm_second dt))
      = 86400 * days_before_year ?y + 86400 * D + (86400 * (?d - 1) + 3600 * uint (tm_hour dt)
          + 60 * uint (tm_minute dt) + uint (tm_second dt))"
    by (simp add: civil_seconds_def civil_days_def D_def)
  with timestamp_of_valid_range [OF v] show ?thesis
    using g month by (simp add: rtc_time_to_timestamp_def off range)
qed

lemma set_civil_fields:
  assumes "valid_civil y m d h mi s"
  shows "uint (tm_year (set_civil dt y m d h mi s)) = y" "uint (tm_month (set_civil dt y m d h mi s)) = m"
    "uint (tm_day (set_civil dt y m d h mi s)) = d" "uint (tm_hour (set_civil dt y m d h mi s)) = h"
    "uint (tm_minute (set_civil dt y m d h mi s)) = mi" "uint (tm_second (set_civil dt y m d h mi s)) = s"
  using assms month_days_bounds(2) [of "gregorian_leap y" m]
  by (auto simp: set_civil_def valid_civil_def uint_of_int_eq)


lemma set_civil_valid:
  assumes "valid_civil y m d h mi s"
  shows "VALID_RTC_DATE (set_civil dt y m d h mi s)"
proof -
  note w = civil_weekday_bounds
  have "uint (tm_day_of_week (set_civil dt y m d h mi s)) = civil_weekday (civil_days y m d)"
    using w [of "civil_days y m d"] by (simp add: set_civil_def uint_of_int_eq)
  then show ?thesis
    using w [of "civil_days y m d"] set_civil_fields [OF assms, of dt] assms
      month_days_bounds(2) [of "gregorian_leap y" m]
    by (simp add: VALID_RTC_DATE_def word_less_def word_le_def valid_civil_def)
qed

text \<open>
  Seconds since 1970 of a date: for every valid date and time of the years 1902 to 2037
  \<^verbatim>\<open>rtc_time_to_timestamp()\<close> succeeds, without reading outside the tables or overflowing
  \<^verbatim>\<open>s32\<close>, and returns the number of seconds the Gregorian calendar gives.
\<close>

theorem rtc_time_to_timestamp_civil:
  assumes "valid_civil (uint (tm_year dt)) (uint (tm_month dt)) (uint (tm_day dt))
    (uint (tm_hour dt)) (uint (tm_minute dt)) (uint (tm_second dt))"
  shows "rtc_time_to_timestamp dt = Some (Inr (civil_seconds (uint (tm_year dt)) (uint (tm_month dt))
    (uint (tm_day dt)) (uint (tm_hour dt)) (uint (tm_minute dt)) (uint (tm_second dt))))"
  using assms by (rule rtc_time_to_timestamp_seconds)

lemma rtc_time_to_timestamp_civil_witness:
  "rtc_time_to_timestamp \<lparr>tm_year = 2024, tm_month = 2, tm_day = 29, tm_hour = 12, tm_minute = 34, tm_second = 56,
     tm_day_of_week = 5, tm_dst = 0\<rparr> = Some (Inr 1709210096)"
  by (subst rtc_time_to_timestamp_civil)
    (simp_all add: valid_civil_def civil_seconds_def civil_days_def days_before_year_def month_days_def
      gregorian_leap_def)

text \<open>
  C26: Round trip of timestamps: for every second of the years 1902 to 2037 the date computed
  from the timestamp, once its month is counted from one, is valid and converts back to the same
  timestamp.
\<close>

theorem timestamp_roundtrip:
  assumes "- 2145916800 \<le> ts" and "ts < 2145916800"
  shows "\<exists>r. timestamp_to_rtc_time ts dt = Some r \<and> VALID_RTC_DATE (r\<lparr>tm_month := tm_month r + 1\<rparr>) \<and>
    rtc_time_to_timestamp (r\<lparr>tm_month := tm_month r + 1\<rparr>) = Some (Inr ts)"
proof -
  obtain y m d h mi s where c: "valid_civil y m d h mi s" "ts = civil_seconds y m d h mi s"
    "timestamp_to_rtc_time ts dt = Some ((set_civil dt y m d h mi s)\<lparr>tm_month := word_of_int (m - 1)\<rparr>)"
    using timestamp_to_rtc_time_exists [OF assms] by blast
  define r where "r = (set_civil dt y m d h mi s)\<lparr>tm_month := word_of_int (m - 1)\<rparr>"
  have r: "r\<lparr>tm_month := tm_month r + 1\<rparr> = set_civil dt y m d h mi s"
    by (simp add: r_def set_civil_def)
  have "rtc_time_to_timestamp (set_civil dt y m d h mi s) = Some (Inr ts)"
    using rtc_time_to_timestamp_seconds [of "set_civil dt y m d h mi s"] c(1,2)
    by (simp add: set_civil_fields [OF c(1)])
  then show ?thesis
    using c(3) set_civil_valid [OF c(1), of dt] by (intro exI [of _ r]) (simp add: r, simp add: r_def)
qed

lemma timestamp_roundtrip_witness:
  "\<exists>r. timestamp_to_rtc_time 1709210096 \<lparr>tm_year = 0, tm_month = 0, tm_day = 0, tm_hour = 0, tm_minute = 0, tm_second = 0, tm_day_of_week = 0, tm_dst = 1\<rparr> = Some r \<and> VALID_RTC_DATE (r\<lparr>tm_month := tm_month r + 1\<rparr>) \<and>
    rtc_time_to_timestamp (r\<lparr>tm_month := tm_month r + 1\<rparr>) = Some (Inr 1709210096)"
  by (rule timestamp_roundtrip) simp_all

text \<open>
  The month field that \<^verbatim>\<open>timestamp_to_rtc_time()\<close> leaves behind counts from zero although
  the type counts from one: a timestamp in January gives an invalid date, and one in any other month
  gives a date that converts back to a time one month earlier.
\<close>

theorem timestamp_month_counts_from_zero:
  assumes "valid_civil y m d h mi s"
  shows "\<exists>r. timestamp_to_rtc_time (civil_seconds y m d h mi s) dt = Some r \<and>
    (m = 1 \<longrightarrow> \<not> VALID_RTC_DATE r) \<and>
    (2 \<le> m \<and> d \<le> month_days (gregorian_leap y) (m - 1) \<longrightarrow>
       rtc_time_to_timestamp r = Some (Inr (civil_seconds y (m - 1) d h mi s)))"
proof -
  define r where "r = (set_civil dt y m d h mi s)\<lparr>tm_month := word_of_int (m - 1)\<rparr>"
  have "timestamp_to_rtc_time (civil_seconds y m d h mi s) dt = Some r"
    unfolding r_def by (rule timestamp_to_rtc_time_of_civil [OF assms])
  moreover have "m = 1 \<longrightarrow> \<not> VALID_RTC_DATE r"
    by (simp add: r_def VALID_RTC_DATE_def)
  moreover have "rtc_time_to_timestamp r = Some (Inr (civil_seconds y (m - 1) d h mi s))"
    if "2 \<le> m" "d \<le> month_days (gregorian_leap y) (m - 1)"
  proof -
    have "valid_civil y (m - 1) d h mi s"
      using assms that by (simp add: valid_civil_def)
    then show ?thesis
      using rtc_time_to_timestamp_seconds [of r] set_civil_fields [OF assms, of dt]
        uint_of_int_eq [of "m - 1", where 'a = 8] assms
      by (simp add: r_def valid_civil_def)
  qed
  ultimately show ?thesis
    by blast
qed

lemma timestamp_month_counts_from_zero_witness:
  "\<exists>r. timestamp_to_rtc_time (civil_seconds 2024 3 1 0 0 0) \<lparr>tm_year = 0, tm_month = 0, tm_day = 0, tm_hour = 0, tm_minute = 0, tm_second = 0, tm_day_of_week = 0, tm_dst = 1\<rparr> = Some r \<and>
    rtc_time_to_timestamp r = Some (Inr (civil_seconds 2024 2 1 0 0 0))"
  using timestamp_month_counts_from_zero [of 2024 3 1 0 0 0 "\<lparr>tm_year = 0, tm_month = 0, tm_day = 0, tm_hour = 0, tm_minute = 0, tm_second = 0, tm_day_of_week = 0, tm_dst = 1\<rparr>"]
  by (simp add: valid_civil_def month_days_def gregorian_leap_def)

end
