(* ===== verification/Timetext.thy ===== *)
theory Timetext
  imports Calendar
begin

text \<open>
  Dates as text: what \<^verbatim>\<open>date_iso8601()\<close> prints, through the reference formatter of
  \<^verbatim>\<open>Format\<close>, and that \<^verbatim>\<open>rtc_time_from_str()\<close> reads the digits of it back.
\<close>

subsection \<open>Digits\<close>

text \<open>Zero padding of a decimal numeral gives the lowest digits of the number.\<close>

lemma digs_zero_pad: "u < 10 ^ j \<Longrightarrow> j \<le> k \<Longrightarrow> digs k u = replicate (k - j) CHR ''0'' @ digs j u"
proof (induction k)
  case (Suc k)
  show ?case
  proof (cases "j = Suc k")
    case False
    then have jk: "j \<le> k"
      using Suc.prems by simp
    have "u < 10 ^ k"
      by (rule order.strict_trans2 [OF Suc.prems(1) power_increasing [OF jk]]) simp
    moreover have "decimal_char 0 = CHR ''0''"
      by code_simp
    ultimately show ?thesis
      using Suc jk by (simp add: Suc_diff_le)
  qed simp
qed simp

lemma decimal_digits:
  "unat u < 10 ^ k \<Longrightarrow> 0 < k \<Longrightarrow> replicate (k - length (decimal_text u)) CHR ''0'' @ decimal_text u = digs k (unat u)"
proof -
  assume u: "unat u < 10 ^ k" and k: "0 < k"
  let ?r = "req_digits powers_of_ten u"
  note b = req_digits_bounds [of u]
  have "?r \<le> k"
  proof (rule ccontr)
    assume "\<not> ?r \<le> k"
    then have "1 < ?r" "k \<le> ?r - 1"
      using k by simp_all
    then have "10 ^ k \<le> unat u"
      by (intro order.trans [OF power_increasing b(4)]) simp_all
    then show False
      using u by simp
  qed
  then show ?thesis
    using digs_zero_pad [OF b(3), of k] by (simp add: decimal_is_text [symmetric] decimal_def)
qed

definition iso_directives :: "directive list" where
  "iso_directives = [Dec CHR ''u'' ''04'', Lit CHR ''-'', Dec CHR ''u'' ''02'', Lit CHR ''-'', Dec CHR ''u'' ''02'',
     Lit CHR '' '', Dec CHR ''u'' ''02'', Lit CHR '':'', Dec CHR ''u'' ''02'', Lit CHR '':'', Dec CHR ''u'' ''02'']"

definition iso_text :: "rtc_time \<Rightarrow> string" where
  "iso_text tm = digs 4 (unat (tm_year tm)) @ ''-'' @ digs 2 (unat (tm_month tm)) @ ''-'' @ digs 2 (unat (tm_day tm))
     @ '' '' @ digs 2 (unat (tm_hour tm)) @ '':'' @ digs 2 (unat (tm_minute tm)) @ '':'' @ digs 2 (unat (tm_second tm))"

lemma dec_field_u:
  assumes "ws \<in> {''02'', ''04''}" "unat u < 10 ^ decimal_value ws"
  shows "dec_field CHR ''u'' ws u = digs (decimal_value ws) (unat u)"
  using assms decimal_digits [of u "decimal_value ws"]
  by (auto simp: dec_field_def sign_text_def decimal_value_def field_pad_def)

lemma small_ucast: "unat (ucast (w :: u8) :: u32) = unat w" "unat (ucast (v :: u16) :: u32) = unat v"
  using unsigned_less [of w, where 'a = nat] unsigned_less [of v, where 'a = nat]
  by (simp_all add: unsigned_ucast_eq take_bit_nat_eq_self)

lemma valid_rtc_bounds:
  assumes "VALID_RTC_DATE tm"
  shows "unat (tm_year tm) < 2200" "1900 \<le> unat (tm_year tm)" "unat (tm_month tm) < 13" "0 < unat (tm_month tm)"
    "unat (tm_day tm) < 32" "0 < unat (tm_day tm)" "unat (tm_hour tm) < 24" "unat (tm_minute tm) < 60"
    "unat (tm_second tm) < 60"
  using assms by (simp_all add: VALID_RTC_DATE_def word_less_nat_alt word_le_nat_alt)

lemma render_iso:
  assumes "VALID_RTC_DATE tm"
  shows "render iso_directives [uint_arg (tm_year tm), uint_arg (tm_month tm), uint_arg (tm_day tm),
           uint_arg (tm_hour tm), uint_arg (tm_minute tm), uint_arg (tm_second tm)] = Some (iso_text tm)"
proof -
  have v: "decimal_value ''02'' = 2" "decimal_value ''04'' = 4"
    by (simp_all add: decimal_value_def)
  show ?thesis
    using valid_rtc_bounds [OF assms]
    by (simp add: iso_directives_def iso_text_def uint_arg_def dec_field_u v small_ucast)
qed

lemma length_iso_text [simp]: "length (iso_text tm) = 19"
  by (simp add: iso_text_def)

lemma date_iso8601_prints:
  assumes "VALID_RTC_DATE tm" "19 < unat len"
  shows "\<exists>b. date_iso8601 tm len buffer = Some (Inr 19, b) \<and> map (\<lambda>i. b (adr i)) [0..<19] = iso_text tm \<and>
    b 19 = CHR 0x00 \<and> (\<forall>i > 19. b i = buffer i)"
proof -
  have f: "fmt_string iso_directives = ''%04u-%02u-%02u %02u:%02u:%02u''"
    by (simp add: fmt_string_def iso_directives_def)
  have ok: "list_all directive_ok iso_directives"
    by (simp add: iso_directives_def width_ok_def is_digit_def decimal_value_def)
  show ?thesis
    using snprintf_render [OF ok render_iso [OF assms(1)], of len buffer] assms
    by (auto simp: f date_iso8601_def)
qed


lemma digit_decimal: "d < 10 \<Longrightarrow> digit_of (decimal_char d) = int d" "d < 10 \<Longrightarrow> is_digit (decimal_char d)"
proof -
  assume d: "d < 10"
  then show i: "is_digit (decimal_char d)"
    by (simp add: is_digit_def of_char_decimal)
  show "digit_of (decimal_char d) = int d"
    using d by (simp add: digit_of_nat [OF i] of_char_decimal)
qed

lemma digs_2: "digs 2 u = [decimal_char (u div 10), decimal_char (u mod 10)]"
  by (simp add: numeral_2_eq_2)

lemma digs_4: "digs 4 u = [decimal_char (u div 1000), decimal_char (u mod 1000 div 100),
    decimal_char (u mod 100 div 10), decimal_char (u mod 10)]"
proof -
  have "u mod 1000 mod 100 = u mod 100" "u mod 100 mod 10 = u mod 10"
    by (simp_all add: mod_mod_cancel)
  moreover have "(4 :: nat) = Suc (Suc (Suc (Suc 0)))"
    by simp
  ultimately show ?thesis
    by (simp only: digs.simps) simp
qed

lemma two_digits: "u < 100 \<Longrightarrow> digit_of (decimal_char (u div 10)) * 10 + digit_of (decimal_char (u mod 10)) = int u"
  using arg_cong [OF div_mult_mod_eq [of u 10], of int]
  by (simp only: of_nat_add of_nat_mult of_nat_numeral) (simp add: digit_decimal less_mult_imp_div_less)

lemma four_digits:
  assumes "u < 10000"
  shows "digit_of (decimal_char (u div 1000)) * 1000 + digit_of (decimal_char (u mod 1000 div 100)) * 100
    + digit_of (decimal_char (u mod 100 div 10)) * 10 + digit_of (decimal_char (u mod 10)) = int u"
proof -
  have "u div 1000 < 10" "u mod 1000 div 100 < 10" "u mod 100 div 10 < 10" "u mod 10 < 10"
    using assms by (simp_all add: less_mult_imp_div_less)
  moreover have "u mod 1000 mod 100 = u mod 100" "u mod 100 mod 10 = u mod 10"
    by (simp_all add: mod_mod_cancel)
  then have "u div 1000 * 1000 + u mod 1000 div 100 * 100 + u mod 100 div 10 * 10 + u mod 10 = u"
    using div_mult_mod_eq [of u 1000] div_mult_mod_eq [of "u mod 1000" 100] div_mult_mod_eq [of "u mod 100" 10]
    by linarith
  then have "int (u div 1000 * 1000 + u mod 1000 div 100 * 100 + u mod 100 div 10 * 10 + u mod 10) = int u"
    by (rule arg_cong)
  then have "int (u div 1000) * 1000 + int (u mod 1000 div 100) * 100 + int (u mod 100 div 10) * 10 + int (u mod 10) = int u"
    by (simp only: of_nat_add of_nat_mult of_nat_numeral)
  ultimately show ?thesis
    by (simp only: digit_decimal)
qed

lemma digs_all: "u < 10 ^ k \<Longrightarrow> list_all is_digit (digs k u)"
  using digs_digits by (auto simp: list_all_iff)

lemma filter_digs: "u < 10 ^ k \<Longrightarrow> filter is_digit (digs k u) = digs k u"
  using digs_digits by (auto simp: filter_id_conv)

definition iso_digits :: "rtc_time \<Rightarrow> string" where
  "iso_digits tm = digs 4 (unat (tm_year tm)) @ digs 2 (unat (tm_month tm)) @ digs 2 (unat (tm_day tm))
     @ digs 2 (unat (tm_hour tm)) @ digs 2 (unat (tm_minute tm)) @ digs 2 (unat (tm_second tm))"

lemma not_digit: "\<not> is_digit CHR ''-''" "\<not> is_digit CHR '' ''" "\<not> is_digit CHR '':''"
  by (simp_all add: is_digit_def)

lemma filter_iso_text:
  assumes "VALID_RTC_DATE tm"
  shows "filter is_digit (iso_text tm) = iso_digits tm"
  using valid_rtc_bounds [OF assms]
  by (simp add: iso_text_def iso_digits_def filter_digs not_digit)

lemma nth_14:
  "[a, b, c, d, e, f, g, h, i, j, k, l, m, n] ! 0 = a" "[a, b, c, d, e, f, g, h, i, j, k, l, m, n] ! 1 = b"
  "[a, b, c, d, e, f, g, h, i, j, k, l, m, n] ! 2 = c" "[a, b, c, d, e, f, g, h, i, j, k, l, m, n] ! 3 = d"
  "[a, b, c, d, e, f, g, h, i, j, k, l, m, n] ! 4 = e" "[a, b, c, d, e, f, g, h, i, j, k, l, m, n] ! 5 = f"
  "[a, b, c, d, e, f, g, h, i, j, k, l, m, n] ! 6 = g" "[a, b, c, d, e, f, g, h, i, j, k, l, m, n] ! 7 = h"
  "[a, b, c, d, e, f, g, h, i, j, k, l, m, n] ! 8 = i" "[a, b, c, d, e, f, g, h, i, j, k, l, m, n] ! 9 = j"
  "[a, b, c, d, e, f, g, h, i, j, k, l, m, n] ! 10 = k" "[a, b, c, d, e, f, g, h, i, j, k, l, m, n] ! 11 = l"
  "[a, b, c, d, e, f, g, h, i, j, k, l, m, n] ! 12 = m" "[a, b, c, d, e, f, g, h, i, j, k, l, m, n] ! 13 = n"
  by simp_all

lemma rtc_time_from_iso_digits:
  assumes "VALID_RTC_DATE tm" "uint (tm_year tm) \<le> 2099"
    "uint (tm_day tm) \<le> month_days (gregorian_leap (uint (tm_year tm))) (uint (tm_month tm))"
  shows "rtc_time_from_str (iso_digits tm) tm0 = Some (Inr (), tm
    \<lparr>tm_day_of_week := word_of_int (civil_weekday (civil_days (uint (tm_year tm)) (uint (tm_month tm)) (uint (tm_day tm)))),
     tm_dst := tm_dst tm0\<rparr>)"
proof -
  note b = valid_rtc_bounds [OF assms(1)]
  have len: "length (iso_digits tm) = 14"
    by (simp add: iso_digits_def)
  have dig: "list_all is_digit (iso_digits tm)"
    using b by (simp add: iso_digits_def digs_all)
  let ?s = "map digit_of (iso_digits tm)"
  have h: "unat (tm_year tm) < 10000" "unat (tm_month tm) < 100" "unat (tm_day tm) < 100"
    "unat (tm_hour tm) < 100" "unat (tm_minute tm) < 100" "unat (tm_second tm) < 100"
    using b by simp_all
  note s = iso_digits_def digs_2 digs_4 append_Cons append_Nil list.map
  have y: "?s ! 0 * 1000 + ?s ! 1 * 100 + ?s ! 2 * 10 + ?s ! 3 = int (unat (tm_year tm))"
    by (simp only: s nth_14) (rule four_digits [OF h(1)])
  have t: "?s ! 4 * 10 + ?s ! 5 = int (unat (tm_month tm))" "?s ! 6 * 10 + ?s ! 7 = int (unat (tm_day tm))"
    "?s ! 8 * 10 + ?s ! 9 = int (unat (tm_hour tm))" "?s ! 10 * 10 + ?s ! 11 = int (unat (tm_minute tm))"
    "?s ! 12 * 10 + ?s ! 13 = int (unat (tm_second tm))"
    by (simp_all only: s nth_14 two_digits h)
  note f = y [folded uint_nat] t [folded uint_nat]
  let ?w = "civil_weekday (civil_days (uint (tm_year tm)) (uint (tm_month tm)) (uint (tm_day tm)))"
  have dow: "day_of_week (uint (tm_year tm)) (uint (tm_month tm)) (uint (tm_day tm)) = Some ?w"
    using assms by (intro day_of_week_civil) (simp_all add: VALID_RTC_DATE_def word_le_def word_less_def)
  have w: "1 \<le> ?w" "?w \<le> 7"
    by (rule civil_weekday_bounds)+
  let ?r = "tm\<lparr>tm_day_of_week := word_of_int ?w, tm_dst := tm_dst tm0\<rparr>"
  have uw: "uint (word_of_int ?w :: u8) = ?w"
    using w by (intro uint_of_int_eq) simp_all
  have r: "tm0\<lparr>tm_year := tm_year tm, tm_month := tm_month tm, tm_day := tm_day tm, tm_hour := tm_hour tm,
      tm_minute := tm_minute tm, tm_second := tm_second tm, tm_day_of_week := word_of_int ?w\<rparr> = ?r"
    by (cases tm, cases tm0) simp
  have "0 < (word_of_int ?w :: u8)" "(word_of_int ?w :: u8) < 8"
    using w by (simp_all add: word_less_def uw)
  then have v: "VALID_RTC_DATE ?r"
    using assms(1) by (simp only: VALID_RTC_DATE_def rtc_time.simps) simp
  show ?thesis
    by (simp only: rtc_time_from_str_def Let_def len dig f dow bind.bind_lunit word_of_int_uint r v
        simp_thms if_True if_False)
qed

text \<open>
  C39: ISO 8601 text: for every valid date up to 2099 \<^verbatim>\<open>date_iso8601()\<close> prints 19 characters and
  a NUL into a buffer of at least 20 characters and nothing behind them, and the digits of that text,
  given to \<^verbatim>\<open>rtc_time_from_str()\<close>, restore every field, with the weekday of the calendar.
\<close>

theorem iso8601_roundtrip:
  assumes "VALID_RTC_DATE tm" and "uint (tm_year tm) \<le> 2099"
    and "uint (tm_day tm) \<le> month_days (gregorian_leap (uint (tm_year tm))) (uint (tm_month tm))"
    and "20 \<le> len"
  shows "\<exists>b. date_iso8601 tm len buffer = Some (Inr 19, b) \<and> b 19 = CHR 0x00 \<and> (\<forall>i > 19. b i = buffer i) \<and>
    rtc_time_from_str (filter is_digit (map (\<lambda>i. b (adr i)) [0..<19])) tm0 = Some (Inr (), tm
      \<lparr>tm_day_of_week := word_of_int (civil_weekday (civil_days (uint (tm_year tm)) (uint (tm_month tm)) (uint (tm_day tm)))),
       tm_dst := tm_dst tm0\<rparr>)"
  using date_iso8601_prints [OF assms(1), of len buffer] assms(4)
    rtc_time_from_iso_digits [OF assms(1-3), of tm0] filter_iso_text [OF assms(1)]
  by (auto simp: word_le_nat_alt)

lemma iso8601_roundtrip_witness:
  "\<exists>b. date_iso8601 \<lparr>tm_year = 2024, tm_month = 2, tm_day = 29, tm_hour = 12, tm_minute = 34, tm_second = 56,
       tm_day_of_week = 5, tm_dst = 1\<rparr> 32 (\<lambda>_. CHR ''?'') = Some (Inr 19, b) \<and>
     rtc_time_from_str (filter is_digit (map (\<lambda>i. b (adr i)) [0..<19]))
       \<lparr>tm_year = 0, tm_month = 0, tm_day = 0, tm_hour = 0, tm_minute = 0, tm_second = 0, tm_day_of_week = 0, tm_dst = 1\<rparr>
     = Some (Inr (), \<lparr>tm_year = 2024, tm_month = 2, tm_day = 29, tm_hour = 12, tm_minute = 34, tm_second = 56,
       tm_day_of_week = 5, tm_dst = 1\<rparr>)"
proof -
  let ?tm = "\<lparr>tm_year = 2024, tm_month = 2, tm_day = 29, tm_hour = 12, tm_minute = 34, tm_second = 56,
       tm_day_of_week = 5, tm_dst = 1\<rparr> :: rtc_time"
  have "VALID_RTC_DATE ?tm" "uint (tm_year ?tm) \<le> 2099" "(20 :: u32) \<le> 32"
    "uint (tm_day ?tm) \<le> month_days (gregorian_leap (uint (tm_year ?tm))) (uint (tm_month ?tm))"
    by (simp_all add: VALID_RTC_DATE_def month_days_def gregorian_leap_def)
  then obtain b where b: "date_iso8601 ?tm 32 (\<lambda>_. CHR ''?'') = Some (Inr 19, b)"
    "rtc_time_from_str (filter is_digit (map (\<lambda>i. b (adr i)) [0..<19]))
       \<lparr>tm_year = 0, tm_month = 0, tm_day = 0, tm_hour = 0, tm_minute = 0, tm_second = 0, tm_day_of_week = 0, tm_dst = 1\<rparr>
     = Some (Inr (), ?tm \<lparr>tm_day_of_week := word_of_int (civil_weekday (civil_days (uint (tm_year ?tm))
         (uint (tm_month ?tm)) (uint (tm_day ?tm)))), tm_dst := 1\<rparr>)"
    using iso8601_roundtrip [of ?tm 32 "\<lambda>_. CHR ''?''"
      "\<lparr>tm_year = 0, tm_month = 0, tm_day = 0, tm_hour = 0, tm_minute = 0, tm_second = 0, tm_day_of_week = 0, tm_dst = 1\<rparr>"]
    by auto
  then show ?thesis
    by (intro exI [of _ b]) (simp add: civil_days_def days_before_year_def month_days_def gregorian_leap_def civil_weekday_def)
qed

end
