(* ===== verification/Readline.thy ===== *)
theory Readline
  imports Prelude
begin

text \<open>
  \<^verbatim>\<open>monitor/readline.c\<close>: the line editor of the monitor.  The state is the caller's buffer, the
  cursor position, the length of the line and what has been sent to the console; the input is
  the list of characters the console delivers.  \<open>None\<close> stands for waiting for more input.
\<close>

subsection \<open>The editor\<close>

record line_edit =
  le_buffer :: "nat \<Rightarrow> char"
  le_pos :: nat
  le_length :: nat
  le_out :: string

definition READLINE_PUTC :: "char \<Rightarrow> bool \<Rightarrow> line_edit \<Rightarrow> line_edit" where
  "READLINE_PUTC x echo st = (if echo then st\<lparr>le_out := le_out st @ [x]\<rparr> else st)"

text \<open>\<^verbatim>\<open>for(x = k; x--;) READLINE_PUTC(c, echo);\<close> and the loops that count up to the same number.\<close>

fun put_times :: "nat \<Rightarrow> char \<Rightarrow> bool \<Rightarrow> line_edit \<Rightarrow> line_edit" where
  "put_times 0 c echo st = st"
| "put_times (Suc k) c echo st = put_times k c echo (READLINE_PUTC c echo st)"

text \<open>\<^verbatim>\<open>for(; pos; --pos) READLINE_PUTC(0x08, echo);\<close>\<close>

definition to_start :: "bool \<Rightarrow> line_edit \<Rightarrow> line_edit" where
  "to_start echo st = (put_times (le_pos st) CHR 0x08 echo st)\<lparr>le_pos := 0\<rparr>"

text \<open>\<^verbatim>\<open>for(x = x; k--; ++x) READLINE_PUTC(buffer[x], echo);\<close>\<close>

fun put_buffer :: "nat \<Rightarrow> nat \<Rightarrow> bool \<Rightarrow> line_edit \<Rightarrow> line_edit" where
  "put_buffer x 0 echo st = st"
| "put_buffer x (Suc k) echo st = put_buffer (Suc x) k echo (READLINE_PUTC (le_buffer st x) echo st)"

definition to_end :: "bool \<Rightarrow> line_edit \<Rightarrow> line_edit" where
  "to_end echo st =
     (if le_pos st < le_length st
      then (put_buffer (le_pos st) (le_length st - le_pos st) echo st)\<lparr>le_pos := le_length st\<rparr>
      else st)"

definition cursor_left :: "bool \<Rightarrow> line_edit \<Rightarrow> line_edit" where
  "cursor_left echo st =
     (if le_pos st \<noteq> 0 then (READLINE_PUTC CHR 0x08 echo st)\<lparr>le_pos := le_pos st - 1\<rparr> else st)"

definition cursor_right :: "bool \<Rightarrow> line_edit \<Rightarrow> line_edit" where
  "cursor_right echo st =
     (if le_pos st < le_length st
      then (READLINE_PUTC (le_buffer st (le_pos st)) echo st)\<lparr>le_pos := le_pos st + 1\<rparr> else st)"

definition kill_to_end :: "bool \<Rightarrow> line_edit \<Rightarrow> line_edit" where
  "kill_to_end echo st =
     (if le_pos st < le_length st
      then let k = le_length st - le_pos st;
               st = st\<lparr>le_buffer := (le_buffer st)(le_pos st := CHR 0x00)\<rparr>;
               st = put_times k CHR '' '' echo st;
               st = put_times k CHR 0x08 echo st
           in st\<lparr>le_length := le_pos st\<rparr>
      else st)"

text \<open>\<^verbatim>\<open>for(x = pos; x < line_length; ++x) { buffer[x - pos] = buffer[x]; READLINE_PUTC(buffer[x - pos], echo); }\<close>\<close>

fun move_to_front :: "nat \<Rightarrow> nat \<Rightarrow> nat \<Rightarrow> bool \<Rightarrow> line_edit \<Rightarrow> line_edit" where
  "move_to_front p x 0 echo st = st"
| "move_to_front p x (Suc k) echo st =
     (let st = st\<lparr>le_buffer := (le_buffer st)(x - p := le_buffer st x)\<rparr>
      in move_to_front p (Suc x) k echo (READLINE_PUTC (le_buffer st (x - p)) echo st))"

definition kill_to_start :: "bool \<Rightarrow> line_edit \<Rightarrow> line_edit" where
  "kill_to_start echo st =
     (if le_pos st \<noteq> 0
      then let p = le_pos st;
               st = put_times p CHR 0x08 echo st;
               st = move_to_front p p (le_length st - p) echo st;
               x = max p (le_length st);
               st = st\<lparr>le_buffer := (le_buffer st)(x := CHR 0x00)\<rparr>;
               st = put_times p CHR '' '' echo st;
               st = put_times (le_length st) CHR 0x08 echo st
           in st\<lparr>le_length := le_length st - p, le_pos := 0\<rparr>
      else st)"

text \<open>\<^verbatim>\<open>for(x = pos; x < line_length; ++x) { buffer[x] = buffer[x + 1]; READLINE_PUTC(buffer[x], echo); }\<close>\<close>

fun move_left :: "nat \<Rightarrow> nat \<Rightarrow> bool \<Rightarrow> line_edit \<Rightarrow> line_edit" where
  "move_left x 0 echo st = st"
| "move_left x (Suc k) echo st =
     (let st = st\<lparr>le_buffer := (le_buffer st)(x := le_buffer st (x + 1))\<rparr>
      in move_left (Suc x) k echo (READLINE_PUTC (le_buffer st x) echo st))"

text \<open>The common part of the two delete keys.\<close>

definition delete_here :: "bool \<Rightarrow> line_edit \<Rightarrow> line_edit" where
  "delete_here echo st =
     (let st = move_left (le_pos st) (le_length st - le_pos st) echo st;
          st = READLINE_PUTC CHR 0x08 echo (READLINE_PUTC CHR '' '' echo st);
          st = st\<lparr>le_length := le_length st - 1\<rparr>
      in put_times (le_length st - le_pos st) CHR 0x08 echo st)"

definition delete_forwards :: "bool \<Rightarrow> line_edit \<Rightarrow> line_edit" where
  "delete_forwards echo st =
     (if le_length st \<noteq> 0 \<and> le_pos st < le_length st then delete_here echo st else st)"

definition delete_backwards :: "bool \<Rightarrow> line_edit \<Rightarrow> line_edit" where
  "delete_backwards echo st =
     (if le_length st \<noteq> 0 \<and> le_pos st \<noteq> 0
      then delete_here echo ((READLINE_PUTC CHR 0x08 echo st)\<lparr>le_pos := le_pos st - 1\<rparr>)
      else st)"

text \<open>\<^verbatim>\<open>for(x = line_length; x >= pos; --x) buffer[x + 1] = buffer[x];\<close> over \<open>k\<close> characters from \<open>pos\<close>.\<close>

fun move_right :: "nat \<Rightarrow> nat \<Rightarrow> (nat \<Rightarrow> char) \<Rightarrow> (nat \<Rightarrow> char)" where
  "move_right pos 0 b = b"
| "move_right pos (Suc k) b = move_right pos k (b(pos + k + 1 := b (pos + k)))"

definition insert_char :: "int \<Rightarrow> char \<Rightarrow> bool \<Rightarrow> line_edit \<Rightarrow> line_edit" where
  "insert_char buffer_len c echo st =
     (if int (le_pos st) < buffer_len - 1
      then let st = st\<lparr>le_buffer := move_right (le_pos st) (le_length st + 1 - le_pos st) (le_buffer st)\<rparr>;
               st = READLINE_PUTC c echo st;
               st = st\<lparr>le_buffer := (le_buffer st)(le_pos st := c), le_pos := le_pos st + 1, le_length := le_length st + 1\<rparr>;
               k = le_length st - le_pos st;
               st = put_buffer (le_pos st) k echo st
           in put_times k CHR 0x08 echo st
      else st)"

text \<open>\<^verbatim>\<open>for(; line_length && (buffer[line_length] == '\x0d'); --line_length) buffer[line_length] = '\0';\<close>\<close>

function swallow_cr :: "line_edit \<Rightarrow> line_edit" where
  "swallow_cr st =
     (if le_length st \<noteq> 0 \<and> le_buffer st (le_length st) = CHR 0x0D
      then swallow_cr (st\<lparr>le_buffer := (le_buffer st)(le_length st := CHR 0x00), le_length := le_length st - 1\<rparr>)
      else st)"
  by pat_completeness auto

termination by (relation "measure le_length") auto

declare swallow_cr.simps [simp del]

definition end_line :: "bool \<Rightarrow> line_edit \<Rightarrow> line_edit" where
  "end_line echo st =
     (let st = READLINE_PUTC CHR 0x0A echo st
      in st\<lparr>le_buffer := (le_buffer st)(le_length st := CHR 0x00)\<rparr>)"

definition cancel_line :: "bool \<Rightarrow> line_edit \<Rightarrow> line_edit" where
  "cancel_line echo st =
     (let st = READLINE_PUTC CHR 0x0A echo (READLINE_PUTC CHR ''C'' echo (READLINE_PUTC CHR ''^'' echo st))
      in st\<lparr>le_buffer := (le_buffer st)(0 := CHR 0x00)\<rparr>)"

text \<open>The characters behind an escape character: the rest of the input and the new state.\<close>

fun escape_key :: "bool \<Rightarrow> char list \<Rightarrow> line_edit \<Rightarrow> (char list \<times> line_edit) option" where
  "escape_key echo [] st = None"
| "escape_key echo (c1 # cs) st =
     (if c1 \<noteq> CHR 0x5B then Some (cs, st)
      else case cs of
        [] \<Rightarrow> None
      | c2 # cs \<Rightarrow>
          if c2 = CHR 0x31
          then (case cs of [] \<Rightarrow> None | c3 # cs \<Rightarrow> Some (cs, if c3 = CHR 0x7E then to_start echo st else st))
          else if c2 = CHR 0x34
          then (case cs of [] \<Rightarrow> None | c3 # cs \<Rightarrow> Some (cs, if c3 = CHR 0x7E then to_end echo st else st))
          else if c2 = CHR 0x43 then Some (cs, cursor_right echo st)
          else if c2 = CHR 0x44 then Some (cs, cursor_left echo st)
          else Some (cs, st))"

text \<open>The keys that neither end the line nor start an escape sequence.\<close>

definition edit_key :: "int \<Rightarrow> bool \<Rightarrow> char \<Rightarrow> line_edit \<Rightarrow> line_edit" where
  "edit_key buffer_len echo c st =
     (if c = CHR 0x01 then to_start echo st
      else if c = CHR 0x02 then cursor_left echo st
      else if c = CHR 0x05 then to_end echo st
      else if c = CHR 0x06 then cursor_right echo st
      else if c = CHR 0x07 then READLINE_PUTC c echo st
      else if c = CHR 0x0B then kill_to_end echo st
      else if c = CHR 0x15 then kill_to_start echo st
      else if c = CHR 0x7E then delete_forwards echo st
      else if c = CHR 0x08 \<or> c = CHR 0x7F then delete_backwards echo st
      else insert_char buffer_len c echo st)"

lemma escape_key_shorter: "escape_key echo cs st = Some (cs', st') \<Longrightarrow> length cs' < length cs"
  by (cases "(echo, cs, st)" rule: escape_key.cases) (auto split: if_splits list.splits)

function readline_loop :: "int \<Rightarrow> bool \<Rightarrow> char list \<Rightarrow> line_edit \<Rightarrow> (char list \<times> line_edit) option" where
  "readline_loop buffer_len echo [] st = None"
| "readline_loop buffer_len echo (c # cs) st =
     (if c = CHR 0x03 then Some (cs, cancel_line echo st)
      else if c = CHR 0x0A then Some (cs, end_line echo (swallow_cr st))
      else if c = CHR 0x0D then Some (cs, end_line echo st)
      else if c = CHR 0x1B
      then (case escape_key echo cs st of None \<Rightarrow> None
            | Some (cs', st') \<Rightarrow> readline_loop buffer_len echo cs' st')
      else readline_loop buffer_len echo cs (edit_key buffer_len echo c st))"
  by pat_completeness auto

termination by (relation "measure (\<lambda>(n, e, cs, st). length cs)") (auto dest: escape_key_shorter)

text \<open>\<open>readline buffer n echo input\<close>: the buffer, the input left over and the characters echoed.\<close>

definition readline ::
    "(nat \<Rightarrow> char) \<Rightarrow> int \<Rightarrow> bool \<Rightarrow> char list \<Rightarrow> ((nat \<Rightarrow> char) \<times> char list \<times> string) option" where
  "readline buffer buffer_len echo input =
     map_option (\<lambda>(cs, st). (le_buffer st, cs, le_out st))
       (readline_loop buffer_len echo input
          \<lparr>le_buffer = buffer(0 := CHR 0x00), le_pos = 0, le_length = 0, le_out = []\<rparr>)"

subsection \<open>What the loops do to the buffer\<close>

lemma READLINE_PUTC_simps [simp]:
  "le_buffer (READLINE_PUTC c echo st) = le_buffer st" "le_pos (READLINE_PUTC c echo st) = le_pos st"
  "le_length (READLINE_PUTC c echo st) = le_length st"
  by (simp_all add: READLINE_PUTC_def)

lemma put_times_simps [simp]:
  "le_buffer (put_times k c echo st) = le_buffer st" "le_pos (put_times k c echo st) = le_pos st"
  "le_length (put_times k c echo st) = le_length st"
  by (induction k arbitrary: st) simp_all

lemma put_buffer_simps [simp]:
  "le_buffer (put_buffer x k echo st) = le_buffer st" "le_pos (put_buffer x k echo st) = le_pos st"
  "le_length (put_buffer x k echo st) = le_length st"
  by (induction k arbitrary: x st) simp_all

lemma move_left_simps [simp]:
  "le_pos (move_left x k echo st) = le_pos st" "le_length (move_left x k echo st) = le_length st"
  "le_buffer (move_left x k echo st) =
     (\<lambda>i. if x \<le> i \<and> i < x + k then le_buffer st (i + 1) else le_buffer st i)"
  by (induction k arbitrary: x st) (auto simp: Let_def fun_eq_iff)

lemma move_to_front_simps [simp]:
  "le_pos (move_to_front p x k echo st) = le_pos st" "le_length (move_to_front p x k echo st) = le_length st"
  by (induction k arbitrary: x st) (auto simp: Let_def)

lemma move_to_front_buffer:
  "0 < p \<Longrightarrow> p \<le> x \<Longrightarrow> le_buffer (move_to_front p x k echo st) =
     (\<lambda>i. if x - p \<le> i \<and> i < x - p + k then le_buffer st (i + p) else le_buffer st i)"
proof (induction k arbitrary: x st)
  case (Suc k)
  show ?case
    using Suc.prems by (auto simp: Let_def fun_eq_iff Suc.IH)
qed (auto simp: fun_eq_iff)

lemma move_right_eq:
  "move_right pos k b = (\<lambda>i. if pos < i \<and> i \<le> pos + k then b (i - 1) else b i)"
  by (induction k arbitrary: b) (auto simp: fun_eq_iff)

subsection \<open>The editor as a pair of strings\<close>

text \<open>
  What a line editor does to the text left and right of the cursor.  \<open>None\<close> marks the insertions
  the code accepts although the line already fills the buffer.
\<close>

definition zip_edit :: "nat \<Rightarrow> char \<Rightarrow> string \<times> string \<Rightarrow> (string \<times> string) option" where
  "zip_edit n c = (\<lambda>(l, r).
     if c = CHR 0x01 then Some ([], l @ r)
     else if c = CHR 0x02 then Some (if l = [] then (l, r) else (butlast l, last l # r))
     else if c = CHR 0x05 then Some (l @ r, [])
     else if c = CHR 0x06 then Some (if r = [] then (l, r) else (l @ [hd r], tl r))
     else if c = CHR 0x07 then Some (l, r)
     else if c = CHR 0x0B then Some (l, [])
     else if c = CHR 0x15 then Some ([], r)
     else if c = CHR 0x7E then Some (l, tl r)
     else if c = CHR 0x08 \<or> c = CHR 0x7F then Some (butlast l, if l = [] then r else r)
     else if n \<le> length l + 1 then Some (l, r)
     else if n \<le> length l + length r + 1 then None
     else Some (l @ [c], r))"

text \<open>An escape sequence as the control character it stands for.\<close>

fun zip_escape :: "char list \<Rightarrow> (char list \<times> char) option" where
  "zip_escape [] = None"
| "zip_escape (c1 # cs) =
     (if c1 \<noteq> CHR 0x5B then Some (cs, CHR 0x07)
      else case cs of
        [] \<Rightarrow> None
      | c2 # cs \<Rightarrow>
          if c2 = CHR 0x31
          then (case cs of [] \<Rightarrow> None | c3 # cs \<Rightarrow> Some (cs, if c3 = CHR 0x7E then CHR 0x01 else CHR 0x07))
          else if c2 = CHR 0x34
          then (case cs of [] \<Rightarrow> None | c3 # cs \<Rightarrow> Some (cs, if c3 = CHR 0x7E then CHR 0x05 else CHR 0x07))
          else Some (cs, if c2 = CHR 0x43 then CHR 0x06 else if c2 = CHR 0x44 then CHR 0x02 else CHR 0x07))"

lemma zip_escape_shorter: "zip_escape cs = Some (cs', c) \<Longrightarrow> length cs' < length cs"
  by (cases cs rule: zip_escape.cases) (auto split: if_splits list.splits)

function zip_loop :: "nat \<Rightarrow> char list \<Rightarrow> string \<times> string \<Rightarrow> (string \<times> char list) option" where
  "zip_loop n [] z = None"
| "zip_loop n (c # cs) z =
     (if c = CHR 0x03 then Some ([], cs)
      else if c = CHR 0x0A \<or> c = CHR 0x0D then Some (fst z @ snd z, cs)
      else if c = CHR 0x1B
      then (case zip_escape cs of None \<Rightarrow> None
            | Some (cs', k) \<Rightarrow> (case zip_edit n k z of None \<Rightarrow> None | Some z' \<Rightarrow> zip_loop n cs' z'))
      else (case zip_edit n c z of None \<Rightarrow> None | Some z' \<Rightarrow> zip_loop n cs z'))"
  by pat_completeness auto

termination by (relation "measure (\<lambda>(n, cs, z). length cs)") (auto dest: zip_escape_shorter)

text \<open>The editor's state represents a pair of strings; neither they nor the character behind them
  is a carriage return, and nothing behind the buffer has changed.\<close>

definition represents :: "nat \<Rightarrow> (nat \<Rightarrow> char) \<Rightarrow> line_edit \<Rightarrow> string \<times> string \<Rightarrow> bool" where
  "represents n b0 st = (\<lambda>(l, r). le_pos st = length l \<and> le_length st = length l + length r \<and>
     length l + length r < n \<and> (\<forall>i < length l + length r. le_buffer st i = (l @ r) ! i) \<and>
     CHR 0x0D \<notin> set (l @ r) \<and> le_buffer st (length l + length r) \<noteq> CHR 0x0D \<and>
     (\<forall>i \<ge> n. le_buffer st i = b0 i))"

lemma represents_delete:
  assumes "represents n b0 st (l, x # r)"
  shows "represents n b0 (delete_here echo st) (l, r)"
proof -
  have st: "le_pos st = length l" "le_length st = Suc (length l + length r)" "Suc (length l + length r) < n"
    "\<And>i. i < Suc (length l + length r) \<Longrightarrow> le_buffer st i = (l @ x # r) ! i" "\<forall>i \<ge> n. le_buffer st i = b0 i"
    "CHR 0x0D \<notin> set (l @ r)" "le_buffer st (Suc (length l + length r)) \<noteq> CHR 0x0D"
    using assms by (simp_all add: represents_def)
  have hi: "length l \<le> i \<Longrightarrow> i < length l + length r \<Longrightarrow> le_buffer st (Suc i) = (l @ r) ! i" for i
    using st(4) [of "i + 1"] by (auto simp: nth_append nth_Cons')
  have lo: "i < length l \<Longrightarrow> le_buffer st i = (l @ r) ! i" for i
    using st(4) [of i] by (auto simp: nth_append)
  show ?thesis
    using st(1,2,3,5-7) by (auto simp: represents_def delete_here_def Let_def lo hi Suc_le_eq)
qed

lemma represents_insert:
  assumes "represents n b0 st (l, r)" "length l + length r + 1 < n" "c \<noteq> CHR 0x0D"
    "int (length l) < m - 1"
  shows "represents n b0 (insert_char m c echo st) (l @ [c], r)"
  using assms unfolding represents_def insert_char_def Let_def prod.case
  by (auto simp: move_right_eq nth_append nth_Cons' split: if_splits)

lemma represents_kill_to_start:
  assumes "represents n b0 st (l, r)"
  shows "represents n b0 (kill_to_start echo st) ([], r)"
proof (cases "l = []")
  case False
  have st: "le_pos st = length l" "le_length st = length l + length r" "length l + length r < n"
    "\<And>i. i < length l + length r \<Longrightarrow> le_buffer st i = (l @ r) ! i" "\<forall>i \<ge> n. le_buffer st i = b0 i"
    "CHR 0x0D \<notin> set (l @ r)"
    using assms by (simp_all add: represents_def)
  let ?st = "kill_to_start echo st"
  have b: "le_buffer ?st = (\<lambda>i. if i < length r then le_buffer st (i + length l) else le_buffer st i)
      (length l + length r := CHR 0x00)"
    using False by (auto simp: kill_to_start_def Let_def st move_to_front_buffer fun_eq_iff)
  have "le_buffer st (length r) \<in> set (l @ r)"
    using st(4) [of "length r"] False by (metis add.commute add_less_cancel_left length_append length_greater_0_conv nth_mem add.right_neutral)
  moreover have "le_buffer ?st i = r ! i" if "i < length r" for i
    using that st(4) [of "i + length l"] False by (simp add: b nth_append)
  ultimately show ?thesis
    using st False by (auto simp: represents_def b) (auto simp: kill_to_start_def Let_def)
qed (use assms in \<open>simp add: kill_to_start_def represents_def\<close>)

lemma butlast_last: "l \<noteq> [] \<Longrightarrow> butlast l @ last l # r = l @ r"
  by (metis append.assoc append_Cons append_Nil append_butlast_last_id)

lemma length_pred:
  "l \<noteq> [] \<Longrightarrow> Suc (length l - Suc 0 + k) = length l + k" "r \<noteq> [] \<Longrightarrow> Suc (k + (length r - Suc 0)) = k + length r"
  by (cases l; simp) (cases r; simp)

lemma represents_move:
  assumes "represents n b0 st (l, r)"
  shows "represents n b0 (to_start echo st) ([], l @ r)" "represents n b0 (to_end echo st) (l @ r, [])"
    "l \<noteq> [] \<Longrightarrow> represents n b0 (cursor_left echo st) (butlast l, last l # r)"
    "r \<noteq> [] \<Longrightarrow> represents n b0 (cursor_right echo st) (l @ [hd r], tl r)"
    "l = [] \<Longrightarrow> represents n b0 (cursor_left echo st) (l, r)"
    "r = [] \<Longrightarrow> represents n b0 (cursor_right echo st) (l, r)"
    "represents n b0 (READLINE_PUTC c echo st) (l, r)"
  using assms
  by (auto simp: represents_def to_start_def to_end_def cursor_left_def cursor_right_def butlast_last length_pred
      dest: in_set_butlastD list.set_sel(2))

lemma represents_kill_to_end:
  assumes "represents n b0 st (l, r)"
  shows "represents n b0 (kill_to_end echo st) (l, [])"
  using assms by (auto simp: represents_def kill_to_end_def Let_def nth_append)

lemma represents_delete_keys:
  assumes "represents n b0 st (l, r)"
  shows "represents n b0 (delete_forwards echo st) (l, tl r)"
    "represents n b0 (delete_backwards echo st) (butlast l, r)"
proof -
  have pos: "le_pos st = length l" "le_length st = length l + length r"
    using assms by (simp_all add: represents_def)
  show "represents n b0 (delete_forwards echo st) (l, tl r)"
    using assms represents_delete [of n b0 st l _ "tl r" echo]
    by (cases r) (simp_all add: delete_forwards_def pos)
  show "represents n b0 (delete_backwards echo st) (butlast l, r)"
  proof (cases "l = []")
    case False
    then have "represents n b0 ((READLINE_PUTC CHR 0x08 echo st)\<lparr>le_pos := le_pos st - 1\<rparr>) (butlast l, last l # r)"
      using represents_move(3) [OF assms, of echo] by (simp add: cursor_left_def pos)
    then show ?thesis
      using False by (simp add: delete_backwards_def pos represents_delete)
  qed (use assms in \<open>simp add: delete_backwards_def pos\<close>)
qed

lemma represents_edit_key:
  assumes "represents n b0 st z" "zip_edit n c z = Some z'" "c \<noteq> CHR 0x0D"
  shows "represents n b0 (edit_key (int n) echo c st) z'"
proof -
  obtain l r where z: "z = (l, r)"
    by (cases z)
  have full: "insert_char (int n) c echo st = st" if "n \<le> length l + 1"
    using assms(1) that by (simp add: z represents_def insert_char_def)
  show ?thesis
    using assms(2,3) represents_move [OF assms(1) [unfolded z]] represents_delete_keys [OF assms(1) [unfolded z]]
      represents_kill_to_start [OF assms(1) [unfolded z]]
      represents_kill_to_end [OF assms(1) [unfolded z]] represents_insert [OF assms(1) [unfolded z]] assms(1) full
    by (auto simp: z zip_edit_def edit_key_def not_le split: if_splits)
qed

lemma edit_key_cursor:
  "edit_key n echo CHR 0x01 st = to_start echo st" "edit_key n echo CHR 0x02 st = cursor_left echo st"
  "edit_key n echo CHR 0x05 st = to_end echo st" "edit_key n echo CHR 0x06 st = cursor_right echo st"
  by (simp_all add: edit_key_def)

lemma escape_key_zip:
  assumes "zip_escape cs = Some (cs', k)"
  shows "escape_key echo cs st = Some (cs', if k = CHR 0x07 then st else edit_key n echo k st)"
  using assms by (cases cs rule: zip_escape.cases) (auto simp: edit_key_cursor split: if_splits list.splits)

lemma swallow_cr_none: "le_buffer st (le_length st) \<noteq> CHR 0x0D \<Longrightarrow> swallow_cr st = st"
  by (subst swallow_cr.simps) simp


definition line_in :: "(nat \<Rightarrow> char) \<Rightarrow> string \<Rightarrow> bool" where
  "line_in b t \<longleftrightarrow> (\<forall>i < length t. b i = t ! i) \<and> b (length t) = CHR 0x00"

lemma represents_end_line:
  assumes "represents n b0 st (l, r)"
  shows "line_in (le_buffer (end_line echo st)) (l @ r)" "length (l @ r) < n"
    "\<forall>i \<ge> n. le_buffer (end_line echo st) i = b0 i" "swallow_cr st = st"
  using assms by (auto simp: represents_def line_in_def end_line_def Let_def swallow_cr_none)

lemma represents_cancel_line:
  assumes "represents n b0 st z"
  shows "line_in (le_buffer (cancel_line echo st)) []" "0 < n"
    "\<forall>i \<ge> n. le_buffer (cancel_line echo st) i = b0 i"
  using assms by (auto simp: represents_def line_in_def cancel_line_def Let_def)

lemma zip_edit_bell [simp]: "zip_edit n CHR 0x07 z = Some z"
  by (cases z) (simp add: zip_edit_def)

lemma zip_escape_key: "zip_escape cs = Some (cs', k) \<Longrightarrow> k \<noteq> CHR 0x0D"
  by (cases cs rule: zip_escape.cases) (auto split: if_splits list.splits)

lemma represents_readline_loop:
  assumes "represents n b0 st z" "zip_loop n cs z = Some (t, cs')"
  shows "\<exists>st'. readline_loop (int n) echo cs st = Some (cs', st') \<and> line_in (le_buffer st') t \<and>
    length t < n \<and> (\<forall>i \<ge> n. le_buffer st' i = b0 i)"
  using assms
proof (induction n cs z arbitrary: st rule: zip_loop.induct)
  case (2 n c cs z)
  show ?case
  proof (cases "c = CHR 0x03 \<or> c = CHR 0x0A \<or> c = CHR 0x0D")
    case True
    then show ?thesis
      using "2.prems" represents_end_line(1,3) [of n b0 st "fst z" "snd z" echo]
        represents_end_line(2,4) [of n b0 st "fst z" "snd z"] represents_cancel_line(1,3) [OF "2.prems"(1), of echo]
        represents_cancel_line(2) [OF "2.prems"(1)]
      by auto
  next
    case key: False
    show ?thesis
    proof (cases "c = CHR 0x1B")
      case True
      then obtain cs1 k z' where k: "zip_escape cs = Some (cs1, k)" "zip_edit n k z = Some z'" "zip_loop n cs1 z' = Some (t, cs')"
        using key "2.prems"(2) by (auto split: option.splits)
      have "represents n b0 (if k = CHR 0x07 then st else edit_key (int n) echo k st) z'"
        using represents_edit_key [OF "2.prems"(1) k(2) zip_escape_key [OF k(1)]] k(2) "2.prems"(1) by auto
      then show ?thesis
        using True key k(1,3) "2.IH"(1) [OF _ _ True k(1) refl k(2)] escape_key_zip [OF k(1), of echo st "int n"] by auto
    next
      case False
      then obtain z' where z: "zip_edit n c z = Some z'" "zip_loop n cs z' = Some (t, cs')"
        using key "2.prems"(2) by (auto split: option.splits)
      have "represents n b0 (edit_key (int n) echo c st) z'"
        using represents_edit_key [OF "2.prems"(1) z(1)] key by auto
      then show ?thesis
        using False key z(2) "2.IH"(2) [OF _ _ False z(1)] by auto
    qed
  qed
qed simp

text \<open>
  C27: The line editor refines a pair of strings: whatever keys arrive, if no character is inserted
  into a line that already fills the buffer, \<^verbatim>\<open>readline()\<close> returns when the editor over the text
  left and right of the cursor does, leaves its text with a NUL in the buffer, and writes nothing
  behind the buffer.
\<close>

theorem readline_edits_line:
  assumes "zip_loop n input ([], []) = Some (t, rest)" and "0 < n"
  shows "\<exists>b out. readline buffer (int n) echo input = Some (b, rest, out) \<and> line_in b t \<and> length t < n \<and>
    (\<forall>i \<ge> n. b i = buffer i)"
proof -
  have "represents n buffer \<lparr>le_buffer = buffer(0 := CHR 0x00), le_pos = 0, le_length = 0, le_out = []\<rparr> ([], [])"
    using assms(2) by (simp add: represents_def)
  from represents_readline_loop [OF this assms(1), of echo] show ?thesis
    by (auto simp: readline_def)
qed

text \<open>
  Typing a word, going back, deleting, inserting, and an escape sequence for the end of the line.
\<close>

lemma readline_edits_line_witness:
  "\<exists>b out. readline (\<lambda>_. CHR ''?'') 8 True
      (''hxllo'' @ [CHR 0x01, CHR 0x06, CHR ''~'', CHR ''e'', CHR 0x1B, CHR 0x5B, CHR 0x34, CHR ''~'', CHR ''!'', CHR 0x0D, CHR ''z''])
    = Some (b, ''z'', out) \<and> line_in b ''hello!'' \<and> (\<forall>i \<ge> 8. b i = CHR ''?'')"
proof -
  have "zip_loop 8 (''hxllo'' @ [CHR 0x01, CHR 0x06, CHR ''~'', CHR ''e'', CHR 0x1B, CHR 0x5B, CHR 0x34, CHR ''~'',
      CHR ''!'', CHR 0x0D, CHR ''z'']) ([], []) = Some (''hello!'', ''z'')"
    by (simp add: zip_edit_def)
  from readline_edits_line [OF this, of "\<lambda>_. CHR ''?''" True] show ?thesis
    by auto
qed

end
