(* ===== verification/Readline_Echo.thy ===== *)
theory Readline_Echo
  imports Readline
begin

text \<open>
  What the line editor of \<^verbatim>\<open>monitor/readline.c\<close> shows: a model of the terminal, the theorem that the
  echoed characters keep the line on the terminal equal to the line in the buffer, and two defects: the
  missing length test of an insertion and the characters left behind by the kill key.
\<close>

subsection \<open>Insertion into a full line\<close>

definition plain_char :: "char \<Rightarrow> bool" where
  "plain_char c \<longleftrightarrow> (32 :: nat) \<le> of_char c \<and> of_char c < (126 :: nat)"

lemma plain_char_not:
  "plain_char c \<Longrightarrow> c \<noteq> CHR 0x00 \<and> c \<noteq> CHR 0x01 \<and> c \<noteq> CHR 0x02 \<and> c \<noteq> CHR 0x03 \<and> c \<noteq> CHR 0x05 \<and>
     c \<noteq> CHR 0x06 \<and> c \<noteq> CHR 0x07 \<and> c \<noteq> CHR 0x08 \<and> c \<noteq> CHR 0x0A \<and> c \<noteq> CHR 0x0B \<and> c \<noteq> CHR 0x0D \<and>
     c \<noteq> CHR 0x15 \<and> c \<noteq> CHR 0x1B \<and> c \<noteq> CHR ''~'' \<and> c \<noteq> CHR 0x7F"
  by (auto simp: plain_char_def)

lemma plain_char_key:
  "plain_char c \<Longrightarrow> readline_loop m echo (c # cs) st = readline_loop m echo cs (insert_char m c echo st)"
  by (simp add: plain_char_not edit_key_def)

lemma readline_loop_keys:
  "readline_loop m echo (CHR 0x01 # cs) st = readline_loop m echo cs (to_start echo st)"
  "readline_loop m echo (CHR 0x0D # cs) st = Some (cs, end_line echo st)"
  by (simp_all add: edit_key_def)

declare readline_loop.simps(2) [simp del]

lemma typed_text:
  assumes "list_all plain_char t" "represents N b0 st (l, [])" "length l + length t < N" "length l + length t < n"
  shows "\<exists>st'. readline_loop (int n) echo (t @ cs) st = readline_loop (int n) echo cs st' \<and> represents N b0 st' (l @ t, [])"
  using assms
proof (induction t arbitrary: st l)
  case (Cons c t)
  have "represents N b0 (insert_char (int n) c echo st) (l @ [c], [])"
    using Cons.prems plain_char_not [of c] by (intro represents_insert) auto
  then show ?case
    using Cons.IH [of "insert_char (int n) c echo st" "l @ [c]"] Cons.prems by (auto simp: plain_char_key)
qed auto

lemma typed_at_start:
  assumes "plain_char c" "represents N b0 st z" "length (fst z @ snd z) + k < N" "2 \<le> n"
  shows "\<exists>st' z'. readline_loop (int n) echo (concat (replicate k [CHR 0x01, c]) @ cs) st = readline_loop (int n) echo cs st' \<and>
    represents N b0 st' z' \<and> fst z' @ snd z' = replicate k c @ fst z @ snd z"
  using assms
proof (induction k arbitrary: st z)
  case (Suc k)
  have "represents N b0 (to_start echo st) ([], fst z @ snd z)"
    using represents_move(1) [of N b0 st "fst z" "snd z" echo] Suc.prems(2) by simp
  then have "represents N b0 (insert_char (int n) c echo (to_start echo st)) ([c], fst z @ snd z)"
    using represents_insert [of N b0 "to_start echo st" "[]" "fst z @ snd z" c "int n" echo] Suc.prems plain_char_not [of c]
    by simp
  then show ?case
    using Suc.IH [of "insert_char (int n) c echo (to_start echo st)" "([c], fst z @ snd z)"] Suc.prems
    by (auto simp: plain_char_key readline_loop_keys replicate_app_Cons_same)
next
  case 0
  then show ?case
    by (intro exI [of _ st] exI [of _ z]) simp
qed

text \<open>
  The guard of an insertion tests the cursor, not the length of the line: once the line
  fills the buffer, every further character typed at the start of the line moves the line and its
  NUL one place behind the end of the buffer, without limit.
\<close>

theorem readline_overflows:
  assumes "list_all plain_char t" and "length t + 1 = n" and "2 \<le> n" and "plain_char c"
  shows "\<exists>b out. readline buffer (int n) echo (t @ concat (replicate k [CHR 0x01, c]) @ [CHR 0x0D]) = Some (b, [], out) \<and>
    line_in b (replicate k c @ t) \<and> length (replicate k c @ t) = n - 1 + k"
proof -
  let ?st = "\<lparr>le_buffer = buffer(0 := CHR 0x00), le_pos = 0, le_length = 0, le_out = []\<rparr>"
  have "represents (n + k) buffer ?st ([], [])"
    using assms by (simp add: represents_def)
  then obtain st1 where st1: "represents (n + k) buffer st1 (t, [])"
    "readline_loop (int n) echo (t @ concat (replicate k [CHR 0x01, c]) @ [CHR 0x0D]) ?st
      = readline_loop (int n) echo (concat (replicate k [CHR 0x01, c]) @ [CHR 0x0D]) st1"
    using typed_text [of t "n + k" buffer ?st "[]" n echo "concat (replicate k [CHR 0x01, c]) @ [CHR 0x0D]"] assms by auto
  obtain st2 z where st2: "represents (n + k) buffer st2 z" "fst z @ snd z = replicate k c @ t"
    "readline_loop (int n) echo (concat (replicate k [CHR 0x01, c]) @ [CHR 0x0D]) st1
      = readline_loop (int n) echo [CHR 0x0D] st2"
    using typed_at_start [OF assms(4) st1(1), of k n echo "[CHR 0x0D]"] assms by auto
  have "line_in (le_buffer (end_line echo st2)) (replicate k c @ t)"
    using represents_end_line(1) [of "n + k" buffer st2 "fst z" "snd z" echo] st2(1,2) by simp
  then show ?thesis
    using st1(2) st2(3) assms(2) by (auto simp: readline_def readline_loop_keys)
qed

lemma readline_overflows_witness:
  "\<exists>b out. readline (\<lambda>_. CHR ''?'') 4 True (''abc'' @ concat (replicate 10 [CHR 0x01, CHR ''x'']) @ [CHR 0x0D]) = Some (b, [], out) \<and>
    line_in b (replicate 10 CHR ''x'' @ ''abc'')"
  using readline_overflows [of "''abc''" 4 "CHR ''x''" "\<lambda>_. CHR ''?''" True 10] by (auto simp: plain_char_def)

subsection \<open>What the user sees\<close>

text \<open>A terminal line: the cursor's column and the characters.\<close>

fun feed :: "nat \<times> (nat \<Rightarrow> char) \<Rightarrow> char \<Rightarrow> nat \<times> (nat \<Rightarrow> char)" where
  "feed (col, scr) c =
     (if c = CHR 0x08 then (col - 1, scr)
      else if c = CHR 0x00 \<or> c = CHR 0x07 then (col, scr)
      else (col + 1, scr(col := c)))"

definition line_on :: "nat \<Rightarrow> (nat \<Rightarrow> char) \<Rightarrow> string \<Rightarrow> nat \<Rightarrow> char" where
  "line_on c0 s0 t = (\<lambda>i. if i < c0 then s0 i else if i - c0 < length t then t ! (i - c0) else CHR '' '')"

lemma line_on_blanks [simp]: "line_on c0 s0 (t @ replicate k CHR '' '') = line_on c0 s0 t"
  by (auto simp: line_on_def fun_eq_iff nth_append)

lemma feed_back [simp]: "foldl feed (col, scr) (replicate k CHR 0x08) = (col - k, scr)"
  by (induction k arbitrary: col) auto

lemma feed_text:
  "list_all plain_char w \<Longrightarrow> foldl feed (c0 + length l, line_on c0 s0 (l @ r)) w
     = (c0 + length l + length w, line_on c0 s0 (l @ w @ drop (length w) r))"
proof (induction w arbitrary: l r)
  case (Cons c w)
  have "(line_on c0 s0 (l @ r))(c0 + length l := c) = line_on c0 s0 ((l @ [c]) @ drop 1 r)"
    by (auto simp: line_on_def fun_eq_iff nth_append nth_Cons' Suc_diff_Suc less_diff_conv2)
  then show ?case
    using Cons.IH [of "l @ [c]" "drop 1 r"] Cons.prems plain_char_not [of c] by simp
qed simp


lemma upt_Suc_left: "[x..<x + Suc k] = x # [Suc x..<Suc x + k]"
  by (simp add: upt_conv_Cons del: upt_Suc)

lemma out_simps [simp]:
  "le_out (READLINE_PUTC c True st) = le_out st @ [c]"
  "le_out (put_times k c True st) = le_out st @ replicate k c"
  "le_out (put_buffer x k True st) = le_out st @ map (le_buffer st) [x..<x + k]"
proof -
  show p: "le_out (READLINE_PUTC c True st) = le_out st @ [c]" for c st
    by (simp add: READLINE_PUTC_def)
  show "le_out (put_times k c True st) = le_out st @ replicate k c"
    by (induction k arbitrary: st) (simp_all add: p replicate_app_Cons_same)
  show "le_out (put_buffer x k True st) = le_out st @ map (le_buffer st) [x..<x + k]"
    by (induction k arbitrary: x st) (simp_all add: p upt_Suc_left del: upt_Suc add_Suc_right)
qed

lemma out_move_left [simp]: "le_out (move_left x k True st) = le_out st @ map (\<lambda>i. le_buffer st (i + 1)) [x..<x + k]"
proof (induction k arbitrary: x st)
  case (Suc k)
  show ?case
    by (simp add: Let_def Suc.IH upt_Suc_left del: upt_Suc add_Suc_right)
qed simp

definition displays ::
    "nat \<Rightarrow> (nat \<Rightarrow> char) \<Rightarrow> nat \<Rightarrow> (nat \<Rightarrow> char) \<Rightarrow> line_edit \<Rightarrow> string \<times> string \<Rightarrow> bool" where
  "displays n b0 c0 s0 st = (\<lambda>(l, r). represents n b0 st (l, r) \<and> list_all plain_char (l @ r) \<and>
     le_buffer st (length l + length r) = CHR 0x00 \<and>
     foldl feed (c0, line_on c0 s0 []) (le_out st) = (c0 + length l, line_on c0 s0 (l @ r)))"

lemma represented_text:
  assumes "represents n b0 st (l, r)"
  shows "map (le_buffer st) [length l..<length l + length r] = r"
  using assms by (auto simp: represents_def nth_append intro!: nth_equalityI)

lemma feed_right: "list_all plain_char r \<Longrightarrow>
    foldl feed (c0 + length l, line_on c0 s0 (l @ r)) r = (c0 + length l + length r, line_on c0 s0 (l @ r))"
  using feed_text [of r c0 l s0 r] by simp

lemma plain_blank [simp]: "plain_char CHR '' ''"
  by (simp add: plain_char_def)

lemma feed_erase:
  "foldl feed (c0 + length t, line_on c0 s0 (t @ [y])) [CHR 0x00, CHR '' '', CHR 0x08] = (c0 + length t, line_on c0 s0 t)"
proof -
  have "(line_on c0 s0 (t @ [y]))(c0 + length t := CHR '' '') = line_on c0 s0 t"
    by (auto simp: line_on_def fun_eq_iff nth_append less_diff_conv2)
  then show ?thesis
    by simp
qed

lemma displays_delete:
  assumes d: "represents n b0 st (l, x # r)" "list_all plain_char (l @ x # r)"
    "le_buffer st (length l + length (x # r)) = CHR 0x00"
    "foldl feed (c0, line_on c0 s0 []) (le_out st) = (c0 + length l, line_on c0 s0 (l @ x # r))"
  shows "displays n b0 c0 s0 (delete_here True st) (l, r)"
proof -
  have pos: "le_pos st = length l" "le_length st = Suc (length l + length r)"
    using d(1) by (simp_all add: represents_def)
  have "le_buffer st (Suc (length l + i)) = r ! i" if "i < length r" for i
    using d(1) that by (auto simp: represents_def nth_append dest: spec [of _ "Suc (length l + i)"])
  then have "map (\<lambda>i. le_buffer st (i + 1)) [length l..<length l + Suc (length r)] = r @ [CHR 0x00]"
    using d(3) by (intro nth_equalityI) (auto simp: nth_append less_Suc_eq simp del: upt_Suc)
  then have out: "le_out (delete_here True st) = le_out st @ r @ [CHR 0x00, CHR '' '', CHR 0x08] @ replicate (length r) CHR 0x08"
    by (simp add: delete_here_def Let_def pos del: upt_Suc move_left.simps)
  have "foldl feed (c0 + length l, line_on c0 s0 (l @ x # r)) r
      = (c0 + length (l @ r), line_on c0 s0 ((l @ r) @ [last (x # r)]))"
    using feed_text [of r c0 l s0 "x # r"] d(2) by (cases r rule: rev_cases) (auto simp: add.assoc)
  then have "foldl feed (c0, line_on c0 s0 []) (le_out (delete_here True st)) =
      foldl feed (c0 + length (l @ r), line_on c0 s0 (l @ r)) (replicate (length r) CHR 0x08)"
    unfolding out foldl_append d(4) by (simp only: feed_erase)
  then have "foldl feed (c0, line_on c0 s0 []) (le_out (delete_here True st)) = (c0 + length l, line_on c0 s0 (l @ r))"
    by simp
  moreover have "le_buffer (delete_here True st) (length l + length r) = CHR 0x00"
    using d(3) by (simp add: delete_here_def Let_def pos del: move_left.simps)
  ultimately show ?thesis
    using represents_delete [OF d(1), of True] d(2) by (simp add: displays_def)
qed


lemma displays_insert:
  assumes d: "displays n b0 c0 s0 st (l, r)" and c: "plain_char c" "length l + length r + 1 < n"
  shows "displays n b0 c0 s0 (insert_char (int n) c True st) (l @ [c], r)"
proof -
  have rep: "represents n b0 st (l, r)" and pl: "list_all plain_char l" "list_all plain_char r"
    and nul: "le_buffer st (length l + length r) = CHR 0x00"
    and scr: "foldl feed (c0, line_on c0 s0 []) (le_out st) = (c0 + length l, line_on c0 s0 (l @ r))"
    using d by (simp_all add: displays_def)
  have pos: "le_pos st = length l" "le_length st = length l + length r"
    using rep by (simp_all add: represents_def)
  let ?st = "insert_char (int n) c True st"
  have rep': "represents n b0 ?st (l @ [c], r)"
    using rep c plain_char_not [OF c(1)] by (intro represents_insert) auto
  have "le_buffer ?st (length l + length r + 1) = CHR 0x00"
    using nul c(2) by (simp add: insert_char_def Let_def pos move_right_eq)
  moreover have "le_out ?st = le_out st @ [c] @ r @ replicate (length r) CHR 0x08"
    using represented_text [OF rep'] c(2) by (simp add: insert_char_def Let_def pos)
  moreover have "foldl feed (c0 + length l, line_on c0 s0 (l @ r)) [c] = (c0 + length (l @ [c]), line_on c0 s0 ((l @ [c]) @ drop 1 r))"
    using feed_text [of "[c]" c0 l s0 r] c(1) by simp
  moreover have "foldl feed (c0 + length (l @ [c]), line_on c0 s0 ((l @ [c]) @ drop 1 r)) r
      = (c0 + length (l @ [c]) + length r, line_on c0 s0 ((l @ [c]) @ r))"
    using feed_text [OF pl(2), of c0 "l @ [c]" s0 "drop 1 r"] by simp
  ultimately show ?thesis
    using rep' pl c(1) scr by (simp add: displays_def del: feed.simps)
qed

lemma displays_move:
  assumes d: "displays n b0 c0 s0 st (l, r)"
  shows "displays n b0 c0 s0 (to_start True st) ([], l @ r)" "displays n b0 c0 s0 (to_end True st) (l @ r, [])"
    "l \<noteq> [] \<Longrightarrow> displays n b0 c0 s0 (cursor_left True st) (butlast l, last l # r)"
    "r \<noteq> [] \<Longrightarrow> displays n b0 c0 s0 (cursor_right True st) (l @ [hd r], tl r)"
    "displays n b0 c0 s0 (kill_to_end True st) (l, [])"
    "displays n b0 c0 s0 (READLINE_PUTC CHR 0x07 True st) (l, r)"
proof -
  have rep: "represents n b0 st (l, r)" and pl: "list_all plain_char l" "list_all plain_char r"
    and nul: "le_buffer st (length l + length r) = CHR 0x00"
    and scr: "foldl feed (c0, line_on c0 s0 []) (le_out st) = (c0 + length l, line_on c0 s0 (l @ r))"
    using d by (simp_all add: displays_def)
  have pos: "le_pos st = length l" "le_length st = length l + length r"
    using rep by (simp_all add: represents_def)
  note mv = represents_move [OF rep, where echo = True]
  show "displays n b0 c0 s0 (to_start True st) ([], l @ r)"
    using mv(1) pl nul scr by (simp add: displays_def to_start_def pos)
  show "displays n b0 c0 s0 (to_end True st) (l @ r, [])"
    using mv(2) pl nul scr represented_text [OF rep] feed_right [OF pl(2), of c0 l s0]
    by (cases "r = []") (auto simp: displays_def to_end_def pos add.assoc)
  show "displays n b0 c0 s0 (cursor_left True st) (butlast l, last l # r)" if nl: "l \<noteq> []"
  proof -
    obtain l' x where l: "l = l' @ [x]"
      using nl by (cases l rule: rev_cases) auto
    show ?thesis
      using mv(3) [OF nl] nul scr pl by (simp add: displays_def cursor_left_def pos l)
  qed
  show "displays n b0 c0 s0 (cursor_right True st) (l @ [hd r], tl r)" if nr: "r \<noteq> []"
  proof -
    obtain x r' where r: "r = x # r'"
      using nr by (cases r) auto
    have "le_buffer st (length l) = x"
      using rep r by (auto simp: represents_def nth_append dest: spec [of _ "length l"])
    then show ?thesis
      using mv(4) [OF nr] pl nul scr feed_text [of "[x]" c0 l s0 r]
      by (simp add: displays_def cursor_right_def pos r)
  qed
  show "displays n b0 c0 s0 (kill_to_end True st) (l, [])"
  proof (cases "r = []")
    case False
    have "foldl feed (c0 + length l, line_on c0 s0 (l @ r)) (replicate (length r) CHR '' '')
        = (c0 + length l + length r, line_on c0 s0 l)"
      using feed_text [of "replicate (length r) CHR '' ''" c0 l s0 r] by (simp add: list_all_iff)
    then show ?thesis
      using represents_kill_to_end [OF rep, of True] pl scr False
      by (simp add: displays_def kill_to_end_def pos Let_def)
  qed (use d in \<open>simp add: kill_to_end_def pos\<close>)
  show "displays n b0 c0 s0 (READLINE_PUTC CHR 0x07 True st) (l, r)"
    using d mv(7) by (simp add: displays_def)
qed


text \<open>The keys whose echo is right: all but the one that kills the start of the line.\<close>

definition shown_key :: "char \<Rightarrow> bool" where
  "shown_key c \<longleftrightarrow> plain_char c \<or>
     c \<in> {CHR 0x01, CHR 0x02, CHR 0x05, CHR 0x06, CHR 0x07, CHR 0x08, CHR 0x0B, CHR 0x7E, CHR 0x7F}"

lemma displays_delete_keys:
  assumes d: "displays n b0 c0 s0 st (l, r)"
  shows "displays n b0 c0 s0 (delete_forwards True st) (l, tl r)"
    "displays n b0 c0 s0 (delete_backwards True st) (butlast l, r)"
proof -
  have rep: "represents n b0 st (l, r)"
    using d by (simp add: displays_def)
  have pos: "le_pos st = length l" "le_length st = length l + length r"
    using rep by (simp_all add: represents_def)
  have del: "displays n b0 c0 s0 (delete_here True st) (l, r)" if "displays n b0 c0 s0 st (l, x # r)" for st l x r
    using that unfolding displays_def prod.case by (intro displays_delete [unfolded displays_def prod.case]) auto
  show "displays n b0 c0 s0 (delete_forwards True st) (l, tl r)"
    using d del [of st l _ "tl r"] by (cases r) (simp_all add: delete_forwards_def pos)
  show "displays n b0 c0 s0 (delete_backwards True st) (butlast l, r)"
  proof (cases "l = []")
    case False
    then show ?thesis
      using del [OF displays_move(3) [OF d False]] by (simp add: delete_backwards_def cursor_left_def pos)
  qed (use d in \<open>simp add: delete_backwards_def pos\<close>)
qed

lemma displays_key:
  assumes d: "displays n b0 c0 s0 st z" "zip_edit n c z = Some z'" "shown_key c"
  shows "displays n b0 c0 s0 (edit_key (int n) True c st) z'"
proof -
  obtain l r where z: "z = (l, r)"
    by (cases z)
  have pos: "le_pos st = length l" "le_length st = length l + length r"
    using d(1) by (simp_all add: displays_def represents_def z)
  have full: "insert_char (int n) c True st = st" if "n \<le> length l + 1"
    using that by (simp add: insert_char_def pos)
  have same: "cursor_left True st = st" if "l = []"
    using that by (simp add: cursor_left_def pos)
  have same': "cursor_right True st = st" if "r = []"
    using that by (simp add: cursor_right_def pos)
  note d1 = d(1) [unfolded z]
  show ?thesis
  proof (cases "plain_char c")
    case True
    then show ?thesis
      using d(2) d1 full displays_insert [OF d1 True] plain_char_not [OF True]
      by (auto simp: z zip_edit_def edit_key_def split: if_splits)
  next
    case False
    then show ?thesis
      using d(2,3) d1 displays_move [OF d1] displays_delete_keys [OF d1] same same'
      by (auto simp: z zip_edit_def edit_key_def shown_key_def split: if_splits)
  qed
qed


fun zip_keys :: "nat \<Rightarrow> char list \<Rightarrow> string \<times> string \<Rightarrow> (string \<times> string) option" where
  "zip_keys n [] z = Some z"
| "zip_keys n (c # cs) z = (case zip_edit n c z of None \<Rightarrow> None | Some z' \<Rightarrow> zip_keys n cs z')"

lemma shown_key_loop:
  "shown_key c \<Longrightarrow> readline_loop m echo (c # cs) st = readline_loop m echo cs (edit_key m echo c st)"
proof -
  assume "shown_key c"
  then have "c \<noteq> CHR 0x03 \<and> c \<noteq> CHR 0x0A \<and> c \<noteq> CHR 0x0D \<and> c \<noteq> CHR 0x1B"
    by (intro conjI notI) (simp_all add: shown_key_def plain_char_def)
  then show ?thesis
    by (simp add: readline_loop.simps(2))
qed

lemma displays_keys:
  assumes "displays n b0 c0 s0 st z" "zip_keys n keys z = Some z'" "list_all shown_key keys"
  shows "\<exists>st'. readline_loop (int n) True (keys @ cs) st = readline_loop (int n) True cs st' \<and> displays n b0 c0 s0 st' z'"
  using assms
proof (induction keys arbitrary: st z)
  case (Cons c keys)
  obtain z1 where z1: "zip_edit n c z = Some z1" "zip_keys n keys z1 = Some z'"
    using Cons.prems(2) by (auto split: option.splits)
  have "displays n b0 c0 s0 (edit_key (int n) True c st) z1"
    using Cons.prems z1 by (intro displays_key) auto
  from Cons.IH [OF this z1(2)] Cons.prems(3) show ?case
    by (simp add: shown_key_loop)
qed auto

text \<open>
  C28: What the user sees is what the line holds: for every sequence of printable characters,
  cursor movements, deletions and kills to the end of the line, the characters echoed, on a terminal
  line that is blank from the cursor on, show exactly the text of the line with the cursor at the
  editor's position and leave the rest of the terminal line as it was.
\<close>

theorem readline_echo_shows_line:
  assumes "list_all shown_key keys" and "zip_keys n keys ([], []) = Some (l, r)" and "0 < n"
  shows "\<exists>b out. readline buffer (int n) True (keys @ [CHR 0x0D]) = Some (b, [], out @ [CHR 0x0A]) \<and>
    line_in b (l @ r) \<and> foldl feed (c0, line_on c0 s0 []) out = (c0 + length l, line_on c0 s0 (l @ r))"
proof -
  have "displays n buffer c0 s0 \<lparr>le_buffer = buffer(0 := CHR 0x00), le_pos = 0, le_length = 0, le_out = []\<rparr> ([], [])"
    using assms(3) by (simp add: displays_def represents_def)
  from displays_keys [OF this assms(2,1), of "[CHR 0x0D]"] obtain st where
    st: "readline_loop (int n) True (keys @ [CHR 0x0D])
        \<lparr>le_buffer = buffer(0 := CHR 0x00), le_pos = 0, le_length = 0, le_out = []\<rparr> = Some ([], end_line True st)"
    "displays n buffer c0 s0 st (l, r)"
    by (auto simp: readline_loop_keys)
  have "line_in (le_buffer (end_line True st)) (l @ r)"
    using st(2) represents_end_line(1) [of n buffer st l r True] by (simp add: displays_def)
  then show ?thesis
    using st by (auto simp: readline_def displays_def end_line_def Let_def)
qed

lemma readline_echo_shows_line_witness:
  "\<exists>b out. readline (\<lambda>_. CHR ''?'') 80 True ((''helo'' @ [CHR 0x02, CHR ''l'', CHR 0x01, CHR 0x7E, CHR ''H'']) @ [CHR 0x0D])
      = Some (b, [], out @ [CHR 0x0A]) \<and> line_in b ''Hello'' \<and>
    foldl feed (7, line_on 7 (\<lambda>_. CHR ''#'') []) out = (8, line_on 7 (\<lambda>_. CHR ''#'') ''Hello'')"
proof -
  have "zip_keys 80 (''helo'' @ [CHR 0x02, CHR ''l'', CHR 0x01, CHR 0x7E, CHR ''H'']) ([], []) = Some (''H'', ''ello'')"
    by (simp add: zip_edit_def)
  moreover have "list_all shown_key (''helo'' @ [CHR 0x02, CHR ''l'', CHR 0x01, CHR 0x7E, CHR ''H''])"
    by (simp add: shown_key_def plain_char_def)
  ultimately show ?thesis
    using readline_echo_shows_line [of "''helo'' @ [CHR 0x02, CHR ''l'', CHR 0x01, CHR 0x7E, CHR ''H'']" 80 "''H''" "''ello''"
        "\<lambda>_. CHR ''?''" 7 "\<lambda>_. CHR ''#''"] by simp
qed


text \<open>
  Killing the start of the line leaves the old characters behind the new end of the line, and
  the next deletion echoes one of them: after a word, the kill key, one character and a backspace the
  line is empty, but the terminal shows the first character of the word and the cursor behind it.
\<close>

theorem readline_kill_shows_ghost:
  assumes "list_all plain_char (x # t)" and "plain_char c" and "length t + 2 < n"
  shows "\<exists>b out. readline buffer (int n) True ((x # t) @ [CHR 0x15, c, CHR 0x7F] @ [CHR 0x0D]) = Some (b, [], out @ [CHR 0x0A]) \<and>
    line_in b [] \<and> foldl feed (c0, line_on c0 s0 []) out = (c0 + 1, line_on c0 s0 [x])"
proof -
  let ?st = "\<lparr>le_buffer = buffer(0 := CHR 0x00), le_pos = 0, le_length = 0, le_out = []\<rparr>"
  have d: "displays n buffer c0 s0 ?st ([], [])"
    using assms(3) by (simp add: displays_def represents_def)
  have z: "zip_keys n w (l, []) = Some (l @ w, [])" if "list_all plain_char w" "length l + length w < n" for l w
    using that by (induction w arbitrary: l) (auto simp: zip_edit_def plain_char_not)
  have k: "list_all shown_key (x # t)"
    using assms(1) by (auto simp: list_all_iff shown_key_def)
  obtain st1 where st1: "readline_loop (int n) True ((x # t) @ [CHR 0x15, c, CHR 0x7F] @ [CHR 0x0D]) ?st
      = readline_loop (int n) True ([CHR 0x15, c, CHR 0x7F] @ [CHR 0x0D]) st1"
    "displays n buffer c0 s0 st1 (x # t, [])"
    using displays_keys [OF d z [of "x # t" "[]"] k, of "[CHR 0x15, c, CHR 0x7F] @ [CHR 0x0D]"] assms by auto
  have pos: "le_pos st1 = Suc (length t)" "le_length st1 = Suc (length t)" "le_buffer st1 0 = x"
    and scr: "foldl feed (c0, line_on c0 s0 []) (le_out st1) = (c0 + Suc (length t), line_on c0 s0 (x # t))"
    using st1(2) by (auto simp: displays_def represents_def)
  let ?st2 = "kill_to_start True st1"
  have st2: "le_pos ?st2 = 0" "le_length ?st2 = 0" "le_buffer ?st2 0 = x"
    "le_out ?st2 = le_out st1 @ replicate (Suc (length t)) CHR 0x08 @ replicate (Suc (length t)) CHR '' ''
       @ replicate (Suc (length t)) CHR 0x08"
    by (simp_all add: kill_to_start_def Let_def pos del: replicate.simps put_times.simps)
  let ?st3 = "insert_char (int n) c True ?st2"
  have st3: "le_pos ?st3 = 1" "le_length ?st3 = 1" "le_buffer ?st3 1 = x" "le_out ?st3 = le_out ?st2 @ [c]"
    using assms(3) by (simp_all add: insert_char_def Let_def st2(1-3) move_right_eq)
  let ?st4 = "delete_backwards True ?st3"
  have st4: "le_length ?st4 = 0" "le_out ?st4 = le_out ?st3 @ [CHR 0x08, x, CHR '' '', CHR 0x08]"
    by (simp_all add: delete_backwards_def delete_here_def Let_def st3(1-3) st3(3) [unfolded One_nat_def])
  have b: "foldl feed (c0, line_on c0 s0 (x # t)) (replicate (Suc (length t)) CHR '' '') = (c0 + Suc (length t), line_on c0 s0 [])"
    using feed_text [of "replicate (Suc (length t)) CHR '' ''" c0 "[]" s0 "x # t"] line_on_blanks [of c0 s0 "[]" "Suc (length t)"]
    by (simp add: list_all_iff)
  have w: "(line_on c0 s0 [])(c0 := x, Suc c0 := CHR '' '') = line_on c0 s0 [x]"
    by (auto simp: line_on_def fun_eq_iff)
  have "foldl feed (c0, line_on c0 s0 []) (le_out ?st4) = (c0 + 1, line_on c0 s0 [x])"
    using plain_char_not [of c] plain_char_not [of x] assms(1,2)
    unfolding st4(2) st3(4) st2(4) by (simp add: scr b w del: replicate.simps)
  moreover have "readline_loop (int n) True ([CHR 0x15, c, CHR 0x7F] @ [CHR 0x0D]) st1 = Some ([], end_line True ?st4)"
    using plain_char_not [OF assms(2)] by (simp add: readline_loop.simps(2) edit_key_def)
  ultimately show ?thesis
    using st1(1) st4(1) by (auto simp: readline_def line_in_def end_line_def Let_def)
qed

lemma readline_kill_shows_ghost_witness:
  "\<exists>b out. readline (\<lambda>_. CHR ''?'') 80 True (''ls'' @ [CHR 0x15, CHR ''x'', CHR 0x7F] @ [CHR 0x0D]) = Some (b, [], out @ [CHR 0x0A]) \<and>
    line_in b [] \<and> foldl feed (2, line_on 2 (\<lambda>_. CHR ''>'') []) out = (3, line_on 2 (\<lambda>_. CHR ''>'') ''l'')"
  using readline_kill_shows_ghost [of "CHR ''l''" "''s''" "CHR ''x''" 80 "\<lambda>_. CHR ''?''" 2 "\<lambda>_. CHR ''>''"]
  by (auto simp: plain_char_def)

end
