(* ===== verification/Srec.thy ===== *)
theory Srec
  imports Kmalloc CMem CStdlib Readline
begin

text \<open>
  \<^verbatim>\<open>monitor/srec.c\<close>: the loader for Motorola S-records.  Lines come from
  \<^verbatim>\<open>readline()\<close>, the image grows in a block of the kernel heap.  \<open>None\<close> stands for
  waiting for more input and for undefined behaviour (an access outside the line buffer).
\<close>

datatype srec_error =
    se_ok | se_illegal_character | se_bad_line_length | se_bad_checksum | se_bad_record_type
  | se_records_out_of_order | se_out_of_memory | se_bad_record_count | se_missing_eob_record
  | se_bad_start_address

record srec_data =
  sd_start_address :: u32
  sd_offset :: u32
  sd_data_records :: u32
  sd_data :: u32
  sd_data_len :: u32
  sd_line :: u32
  sd_error :: srec_error

definition SREC_MAX_LINE_LENGTH :: nat where
  "SREC_MAX_LINE_LENGTH = 256"

subsection \<open>Hexadecimal fields\<close>

definition hex_accum :: "u32 \<Rightarrow> char \<Rightarrow> u32" where
  "hex_accum accum c =
     (let accum = push_bit 4 accum; v = (of_char c :: nat)
      in if 48 \<le> v \<and> v \<le> 57 then accum + word_of_nat (v - 48)
         else if 97 \<le> v \<and> v \<le> 102 then accum + word_of_nat (10 + v - 97)
         else if 65 \<le> v \<and> v \<le> 70 then accum + word_of_nat (10 + v - 65)
         else accum)"

text \<open>\<^verbatim>\<open>readhex(line + p, num)\<close>.\<close>

definition readhex :: "(nat \<Rightarrow> char) \<Rightarrow> nat \<Rightarrow> nat \<Rightarrow> u32" where
  "readhex line p num = foldl hex_accum 0 (map line [p..<p + num])"

definition srec_strerror :: "srec_error \<Rightarrow> string" where
  "srec_strerror e = (case e of
     se_ok \<Rightarrow> ''No error''
   | se_illegal_character \<Rightarrow> ''Illegal character''
   | se_bad_line_length \<Rightarrow> ''Bad line length''
   | se_bad_checksum \<Rightarrow> ''Bad checksum''
   | se_bad_record_type \<Rightarrow> ''Bad record type''
   | se_records_out_of_order \<Rightarrow> ''Records out of order''
   | se_out_of_memory \<Rightarrow> ''Out of memory''
   | se_bad_record_count \<Rightarrow> ''Bad record count''
   | se_missing_eob_record \<Rightarrow> ''Missing end-of-block record''
   | se_bad_start_address \<Rightarrow> ''Bad start address'')"

subsection \<open>Records\<close>

text \<open>A record either ends the load, with the function's result, or goes on to the next line.\<close>

datatype srec_outcome =
    Srec_return int srec_data machine
  | Srec_next srec_data u32 machine

definition srec_err :: "mem_ctxs \<Rightarrow> srec_data \<Rightarrow> srec_error \<Rightarrow> machine \<Rightarrow> srec_outcome option" where
  "srec_err g sd e m =
     (let sd = sd\<lparr>sd_error := e\<rparr>
      in if sd_data sd \<noteq> 0
         then map_option (\<lambda>m. Srec_return 1 (sd\<lparr>sd_data := 0\<rparr>) m) (kfree g (sd_data sd) m)
         else Some (Srec_return 1 sd m))"

text \<open>\<^verbatim>\<open>for(i = byte_count; i--; line_ += 2) s->data[address++] = readhex(line_, 2);\<close>\<close>

fun store_bytes :: "nat \<Rightarrow> u32 \<Rightarrow> (nat \<Rightarrow> char) \<Rightarrow> nat \<Rightarrow> mem \<Rightarrow> mem option" where
  "store_bytes 0 a line p m = Some m"
| "store_bytes (Suc n) a line p m =
     (if p + 1 < SREC_MAX_LINE_LENGTH
      then store_bytes n (a + 1) line (p + 2) (m(a := ucast (readhex line p 2)))
      else None)"

definition srec_data_record ::
    "mem_ctxs \<Rightarrow> (nat \<Rightarrow> char) \<Rightarrow> nat \<Rightarrow> u32 \<Rightarrow> srec_data \<Rightarrow> u32 \<Rightarrow> machine \<Rightarrow> srec_outcome option" where
  "srec_data_record g line record_type byte_count sd buf_len m =
     (let address = readhex line 4 (2 + 2 * record_type);
          byte_count = byte_count - (1 + (word_of_nat record_type + 1));
          p = 4 + 2 + 2 * record_type
      in if sd_data_records sd \<noteq> 0 \<and> address < sd_offset sd
         then srec_err g sd se_records_out_of_order m
         else let sd = (if sd_data_records sd = 0 then sd\<lparr>sd_offset := address\<rparr> else sd);
                  address = address - sd_offset sd
              in case (if address + byte_count > buf_len
                       then map_option (\<lambda>(q, m). (sd\<lparr>sd_data := q\<rparr>, m, buf_len + 16384))
                              (krealloc g (sd_data sd) (buf_len + 16384) m)
                       else Some (sd, m, buf_len)) of
                   None \<Rightarrow> None
                 | Some (sd, m, buf_len') \<Rightarrow>
                     if address + byte_count > buf_len \<and> sd_data sd = 0 then srec_err g sd se_out_of_memory m
                     else let sd = (if address + byte_count > sd_data_len sd
                                    then sd\<lparr>sd_data_len := address + byte_count\<rparr> else sd)
                          in map_option (\<lambda>r. Srec_next (sd\<lparr>sd_data_records := sd_data_records sd + 1\<rparr>) buf_len' (m\<lparr>ram := r\<rparr>))
                               (store_bytes (unat byte_count) (sd_data sd + address) line p (ram m)))"

definition srec_count_record ::
    "mem_ctxs \<Rightarrow> (nat \<Rightarrow> char) \<Rightarrow> srec_data \<Rightarrow> u32 \<Rightarrow> machine \<Rightarrow> srec_outcome option" where
  "srec_count_record g line sd buf_len m =
     (if readhex line 4 4 \<noteq> sd_data_records sd then srec_err g sd se_bad_record_count m
      else Some (Srec_next sd buf_len m))"

definition srec_end_record ::
    "mem_ctxs \<Rightarrow> (nat \<Rightarrow> char) \<Rightarrow> nat \<Rightarrow> srec_data \<Rightarrow> u32 \<Rightarrow> machine \<Rightarrow> srec_outcome option" where
  "srec_end_record g line record_type sd buf_len m =
     (let sd = sd\<lparr>sd_start_address := readhex line 4 (2 * (11 - record_type)) - sd_offset sd\<rparr>
      in if sd_start_address sd \<ge> sd_data_len sd then srec_err g sd se_bad_start_address m
         else Some (Srec_return 0 sd
                (m\<lparr>ram := bzero (sd_data sd + sd_data_len sd) (buf_len - sd_data_len sd) (ram m)\<rparr>)))"

subsection \<open>Lines\<close>

text \<open>\<^verbatim>\<open>strlen(line)\<close>; undefined when the buffer holds no NUL.\<close>

definition line_strlen :: "(nat \<Rightarrow> char) \<Rightarrow> nat option" where
  "line_strlen line =
     (let k = length (takeWhile (\<lambda>i. line i \<noteq> CHR 0x00) [0..<SREC_MAX_LINE_LENGTH])
      in if k < SREC_MAX_LINE_LENGTH then Some k else None)"

fun trim_line :: "nat \<Rightarrow> (nat \<Rightarrow> char) \<Rightarrow> nat \<times> (nat \<Rightarrow> char)" where
  "trim_line 0 line = (0, line)"
| "trim_line (Suc k) line =
     (if line (Suc k) \<in> {CHR 0x0D, CHR 0x0A, CHR '' '', CHR 0x09}
      then trim_line k (line(Suc k := CHR 0x00)) else (Suc k, line))"

definition isxdigit :: "char \<Rightarrow> bool" where
  "isxdigit c \<longleftrightarrow> ctypeisname (of_char c) ISXDIGIT \<noteq> 0"

text \<open>\<^verbatim>\<open>for(sum = 0, i = 2; i < (len - 2); i += 2) sum += readhex(line + i, 2);\<close> over \<open>k\<close> bytes.\<close>

fun sum_bytes :: "(nat \<Rightarrow> char) \<Rightarrow> nat \<Rightarrow> nat \<Rightarrow> u32" where
  "sum_bytes line i 0 = 0"
| "sum_bytes line i (Suc k) = readhex line i 2 + sum_bytes line (i + 2) k"

definition srec_line ::
    "mem_ctxs \<Rightarrow> (nat \<Rightarrow> char) \<Rightarrow> nat \<Rightarrow> srec_data \<Rightarrow> u32 \<Rightarrow> machine \<Rightarrow> srec_outcome option" where
  "srec_line g line len sd buf_len m =
     (if len < 8 \<or> odd len then srec_err g sd se_bad_line_length m
      else let t = (of_char (line 1) :: nat)
      in if t < 48 \<or> 57 < t \<or> t = 54 then srec_err g sd se_bad_record_type m
      else if line 0 \<noteq> CHR ''S'' then srec_err g sd se_illegal_character m
      else if \<not> list_all (\<lambda>i. isxdigit (line i)) [2..<len] then srec_err g sd se_illegal_character m
      else let record_type = t - 48;
               byte_count = readhex line 2 2;
               checksum = readhex line (len - 2) 2
      in if byte_count \<noteq> word_of_nat ((len - 4) div 2) then srec_err g sd se_bad_line_length m
      else if NOT (sum_bytes line 2 ((len - 4) div 2)) AND 0xff \<noteq> checksum then srec_err g sd se_bad_checksum m
      else if record_type = 0 then Some (Srec_next sd buf_len m)
      else if record_type \<le> 3 then srec_data_record g line record_type byte_count sd buf_len m
      else if record_type = 5 then srec_count_record g line sd buf_len m
      else if 7 \<le> record_type then srec_end_record g line record_type sd buf_len m
      else Some (Srec_next sd buf_len m))"

lemma readline_loop_shorter: "readline_loop n echo cs st = Some (cs', st') \<Longrightarrow> length cs' < length cs"
proof (induction n echo cs st rule: readline_loop.induct)
  case (2 n echo c cs st)
  show ?case
  proof (cases "c = CHR 0x1B")
    case True
    then obtain cs1 st1 where e: "escape_key echo cs st = Some (cs1, st1)" "readline_loop n echo cs1 st1 = Some (cs', st')"
      using "2.prems" by (auto split: option.splits)
    then have "length cs' < length cs1"
      using "2.IH"(1) True by auto
    then show ?thesis
      using escape_key_shorter [OF e(1)] by simp
  next
    case False
    then show ?thesis
      using "2.prems" "2.IH"(2) by (auto split: if_splits)
  qed
qed simp

lemma readline_shorter: "readline line n echo cs = Some (line', cs', out) \<Longrightarrow> length cs' < length cs"
  by (auto simp: readline_def dest: readline_loop_shorter)

function srec_loop ::
    "mem_ctxs \<Rightarrow> (nat \<Rightarrow> char) \<Rightarrow> srec_data \<Rightarrow> u32 \<Rightarrow> char list \<Rightarrow> machine \<Rightarrow> (int \<times> srec_data \<times> char list \<times> machine) option" where
  "srec_loop g line sd buf_len input m =
     (case readline line (int SREC_MAX_LINE_LENGTH - 1) False input of
        None \<Rightarrow> None
      | Some (line, input, _) \<Rightarrow>
          let sd = sd\<lparr>sd_line := sd_line sd + 1\<rparr>
          in case line_strlen line of
               None \<Rightarrow> None
             | Some 0 \<Rightarrow> srec_loop g line sd buf_len input m
             | Some (Suc k) \<Rightarrow>
                 (case trim_line k line of
                    (k, line) \<Rightarrow>
                      (case srec_line g line (Suc k) sd buf_len m of
                         None \<Rightarrow> None
                       | Some (Srec_return r sd m) \<Rightarrow> Some (r, sd, input, m)
                       | Some (Srec_next sd buf_len m) \<Rightarrow> srec_loop g line sd buf_len input m)))"
  by pat_completeness auto

termination
  by (relation "measure (\<lambda>(g, line, sd, b, input, m). length input)") (auto dest: readline_shorter)

declare srec_loop.simps [simp del]

definition srec :: "mem_ctxs \<Rightarrow> (nat \<Rightarrow> char) \<Rightarrow> char list \<Rightarrow> machine \<Rightarrow> (int \<times> srec_data \<times> char list \<times> machine) option" where
  "srec g line input m =
     srec_loop g line
       \<lparr>sd_start_address = 0, sd_offset = 0, sd_data_records = 0, sd_data = 0, sd_data_len = 0, sd_line = 0, sd_error = se_ok\<rparr>
       0 input m"

end
