(* ===== verification/Srec_Lines.thy ===== *)
theory Srec_Lines
  imports Srec Readline_Echo
begin

text \<open>
  The S-record text format: an encoder for records and files, the bytes that
  \<^verbatim>\<open>readhex()\<close> and the checksum loop find in an encoded line, and one turn of
  \<^verbatim>\<open>srec()\<close>'s loop on such a line.
\<close>

subsection \<open>Encoding\<close>

definition nibble :: "nat \<Rightarrow> char" where
  "nibble n = ''0123456789ABCDEF'' ! n"

definition hex_byte :: "u8 \<Rightarrow> string" where
  "hex_byte b = [nibble (unat b div 16), nibble (unat b mod 16)]"

definition hex_bytes :: "u8 list \<Rightarrow> string" where
  "hex_bytes bs = concat (map hex_byte bs)"

text \<open>The \<open>k\<close> low bytes of a number, most significant first.\<close>

fun be_bytes :: "nat \<Rightarrow> nat \<Rightarrow> u8 list" where
  "be_bytes 0 v = []"
| "be_bytes (Suc k) v = word_of_nat (v div 256 ^ k) # be_bytes k v"

text \<open>A record: its type, then the count, the payload and the complement of the sum of both.\<close>

definition encode_record :: "nat \<Rightarrow> u8 list \<Rightarrow> string" where
  "encode_record ty payload =
     (let body = word_of_nat (length payload + 1) # payload
      in [CHR ''S'', char_of (48 + ty)] @ hex_bytes (body @ [NOT (sum_list body)]))"

fun data_lines :: "nat \<Rightarrow> nat \<Rightarrow> u8 list list \<Rightarrow> string" where
  "data_lines ty a [] = []"
| "data_lines ty a (c # cs) =
     encode_record ty (be_bytes (ty + 1) a @ c) @ [CHR 0x0D] @ data_lines ty (a + length c) cs"

definition srec_file :: "nat \<Rightarrow> nat \<Rightarrow> u8 list list \<Rightarrow> nat \<Rightarrow> string" where
  "srec_file ty base chunks entry =
     data_lines ty base chunks @ encode_record (10 - ty) (be_bytes (ty + 1) entry) @ [CHR 0x0D]"

subsection \<open>Reading hexadecimal fields\<close>

lemma nibble_check: "list_all (\<lambda>n. plain_char (nibble n) \<and> isxdigit (nibble n) \<and>
    (\<lambda>v :: nat. 48 \<le> v \<and> v \<le> 57 \<and> v - 48 = n \<or> 65 \<le> v \<and> v \<le> 70 \<and> 10 + v - 65 = n) (of_char (nibble n))) [0..<16]"
  by code_simp

lemma nibble_props: "n < 16 \<Longrightarrow> plain_char (nibble n)" "n < 16 \<Longrightarrow> isxdigit (nibble n)"
  using nibble_check by (simp_all only: list_all_iff set_upt atLeast0LessThan lessThan_iff)

lemma hex_accum_nibble: "n < 16 \<Longrightarrow> hex_accum a (nibble n) = 16 * a + word_of_nat n"
proof -
  assume n: "n < 16"
  let ?v = "of_char (nibble n) :: nat"
  have "48 \<le> ?v \<and> ?v \<le> 57 \<and> ?v - 48 = n \<or> 65 \<le> ?v \<and> ?v \<le> 70 \<and> 10 + ?v - 65 = n"
    using nibble_check n by (simp only: list_all_iff set_upt atLeast0LessThan lessThan_iff)
  moreover have "push_bit 4 a = 16 * a"
    by (simp add: push_bit_eq_mult)
  ultimately show ?thesis
    by (elim disjE conjE) (simp_all add: hex_accum_def Let_def)
qed

lemma length_hex_bytes [simp]: "length (hex_bytes bs) = 2 * length bs"
  by (induction bs) (simp_all add: hex_bytes_def hex_byte_def)

lemma hex_bytes_simps [simp]: "hex_bytes [] = []" "hex_bytes (b # bs) = hex_byte b @ hex_bytes bs"
  "hex_bytes (xs @ ys) = hex_bytes xs @ hex_bytes ys"
  by (simp_all add: hex_bytes_def)

lemma hex_byte_bounds: "unat (b :: u8) div 16 < 16" "unat b mod 16 < 16"
  using unsigned_less [of b, where 'a = nat] by (simp_all add: less_mult_imp_div_less)

lemma hex_bytes_plain: "list_all plain_char (hex_bytes bs)" "list_all isxdigit (hex_bytes bs)"
  by (induction bs) (simp_all add: hex_byte_def nibble_props hex_byte_bounds)

lemma hex_byte_value: "foldl hex_accum a (hex_byte b) = 256 * a + ucast b"
proof -
  have "word_of_nat (16 * (unat b div 16) + unat b mod 16) = (ucast b :: u32)"
    by (simp add: of_nat_unat)
  then have "16 * word_of_nat (unat b div 16) + word_of_nat (unat b mod 16) = (ucast b :: u32)"
    by (simp only: of_nat_add of_nat_mult of_nat_numeral)
  then show ?thesis
    by (simp add: hex_byte_def hex_accum_nibble hex_byte_bounds algebra_simps)
qed

definition be_value :: "u8 list \<Rightarrow> u32" where
  "be_value bs = foldl (\<lambda>a b. 256 * a + ucast b) 0 bs"

lemma hex_bytes_value: "foldl hex_accum a (hex_bytes bs) = foldl (\<lambda>a b. 256 * a + ucast b) a bs"
  by (induction bs arbitrary: a) (simp_all add: hex_byte_value)

text \<open>The line holds the hexadecimal digits of some bytes from a position on.\<close>

definition coded :: "(nat \<Rightarrow> char) \<Rightarrow> nat \<Rightarrow> u8 list \<Rightarrow> bool" where
  "coded line p bs \<longleftrightarrow> map line [p..<p + 2 * length bs] = hex_bytes bs"

lemma coded_append: "coded line p (xs @ ys) \<longleftrightarrow> coded line p xs \<and> coded line (p + 2 * length xs) ys"
proof -
  have "[p..<p + 2 * length (xs @ ys)] = [p..<p + 2 * length xs] @ [p + 2 * length xs..<p + 2 * length xs + 2 * length ys]"
    using upt_add_eq_append [of p "p + 2 * length xs" "2 * length ys"]
    by (simp only: length_append add_mult_distrib2 add.assoc le_add1)
  then show ?thesis
    by (simp only: coded_def map_append hex_bytes_simps, subst append_eq_append_conv) simp_all
qed

lemma readhex_holds: "coded line p bs \<Longrightarrow> k = 2 * length bs \<Longrightarrow> readhex line p k = be_value bs"
  by (simp add: readhex_def coded_def hex_bytes_value be_value_def)

lemma sum_bytes_holds: "coded line p bs \<Longrightarrow> sum_bytes line p (length bs) = sum_list (map ucast bs)"
proof (induction bs arbitrary: p)
  case (Cons b bs)
  have "coded line p ([b] @ bs)"
    using Cons.prems by simp
  then have h: "coded line p [b]" "coded line (p + 2) bs"
    unfolding coded_append by simp_all
  show ?case
    using Cons.IH [OF h(2)] readhex_holds [OF h(1), of 2] by (simp add: be_value_def)
qed simp

lemma ucast_down_up: "ucast (ucast (b :: u8) :: u32) = b"
  by (rule bit_word_eqI) (auto simp: bit_simps)

lemma store_bytes_holds:
  "coded line p bs \<Longrightarrow> p + 2 * length bs \<le> 256 \<Longrightarrow> store_bytes (length bs) a line p m = Some (write_bytes bs a m)"
proof (induction bs arbitrary: p a m)
  case (Cons b bs)
  have "coded line p ([b] @ bs)"
    using Cons.prems by simp
  then have h: "coded line p [b]" "coded line (p + 2) bs"
    unfolding coded_append by simp_all
  have "(ucast (readhex line p 2) :: u8) = b"
    using readhex_holds [OF h(1), of 2] by (simp add: be_value_def ucast_down_up)
  then show ?case
    using Cons.IH [OF h(2)] Cons.prems(2) by (simp add: SREC_MAX_LINE_LENGTH_def)
qed simp

subsection \<open>A record in the line buffer\<close>

lemma ucast_add_8: "ucast (a + b) = (ucast a + ucast b :: u8)" for a b :: u32
proof -
  have m: "take_bit 8 (x mod 4294967296) = take_bit 8 x" for x :: int
    using mod_mod_cancel [of 256 4294967296 x] by (simp add: take_bit_eq_mod)
  have "ucast (a + b) = (word_of_int ((uint a + uint b) mod 4294967296) :: u8)"
    unfolding ucast_eq uint_word_ariths(1) by simp
  also have "\<dots> = word_of_int (uint a + uint b)"
    by (simp only: word_of_int_eq_iff) (simp add: m)
  also have "\<dots> = ucast a + ucast b"
    by (simp only: of_int_add ucast_eq)
  finally show ?thesis .
qed

lemma ucast_sum_8: "ucast (sum_list (map ucast bs) :: u32) = sum_list (bs :: u8 list)"
  by (induction bs) (simp_all add: ucast_add_8 ucast_down_up)

lemma checksum_byte: "NOT (sum_list (map ucast bs) :: u32) AND 0xff = ucast (NOT (sum_list (bs :: u8 list)))"
proof -
  have "NOT x AND 0xff = ucast (NOT (ucast x :: u8))" for x :: u32
  proof -
    have "NOT x AND 0xff = take_bit 8 (NOT x)"
      by (simp add: take_bit_eq_mask mask_eq_exp_minus_1)
    also have "\<dots> = ucast (NOT (ucast x :: u8))"
      by (rule bit_word_eqI) (auto simp: bit_simps)
    finally show ?thesis .
  qed
  then show ?thesis
    by (simp only: ucast_sum_8)
qed

lemma be_value_be_bytes_step:
  "foldl (\<lambda>a b. 256 * a + ucast b) a (be_bytes k v) = (256 ^ k * a + word_of_nat (v mod 256 ^ k) :: u32)"
proof (induction k arbitrary: a)
  case (Suc k)
  have u: "ucast (word_of_nat (v div 256 ^ k) :: u8) = (word_of_nat (v div 256 ^ k mod 256) :: u32)"
    by (rule word_unat_eq_iff [THEN iffD2]) (simp add: unsigned_ucast_eq unsigned_of_nat take_bit_eq_mod)
  have "v mod 256 ^ Suc k = 256 ^ k * (v div 256 ^ k mod 256) + v mod 256 ^ k"
    by (simp only: power_Suc2 mod_mult2_eq)
  then have "(word_of_nat (v mod 256 ^ Suc k) :: u32)
      = 256 ^ k * word_of_nat (v div 256 ^ k mod 256) + word_of_nat (v mod 256 ^ k)"
    by (simp only: of_nat_add of_nat_mult of_nat_power of_nat_numeral)
  moreover have "256 ^ k * (256 * a + x) + y = 256 ^ Suc k * a + (256 ^ k * x + y)" for x y :: u32
    by (simp only: power_Suc2 distrib_left mult.assoc add.assoc)
  ultimately show ?case
    by (simp only: be_bytes.simps foldl.simps Suc.IH u)
qed simp

lemma be_value_be_bytes: "v < 256 ^ k \<Longrightarrow> be_value (be_bytes k v) = word_of_nat v"
  unfolding be_value_def be_value_be_bytes_step by simp

lemma length_be_bytes [simp]: "length (be_bytes k v) = k"
  by (induction k) simp_all

lemma length_encode_record [simp]: "length (encode_record ty payload) = 2 * length payload + 6"
  by (simp add: encode_record_def Let_def hex_byte_def)

lemma nth_behind_two: "([a, b] @ ys) ! (2 + i) = ys ! i"
  by simp

lemma line_in_hex:
  assumes "line_in line ([a, b] @ hex_bytes bs)"
  shows "line 0 = a" "line 1 = b" "coded line 2 bs"
proof -
  have l: "line i = ([a, b] @ hex_bytes bs) ! i" if "i < 2 + 2 * length bs" for i
    using assms that unfolding line_in_def by simp
  show "line 0 = a" "line 1 = b"
    using l [of 0] l [of 1] by simp_all
  show "coded line 2 bs"
    unfolding coded_def
  proof (rule nth_equalityI)
    fix i assume "i < length (map line [2..<2 + 2 * length bs])"
    then have i: "i < 2 * length bs"
      by (simp only: length_map length_upt)
    then have "map line [2..<2 + 2 * length bs] ! i = line (2 + i)"
      by (simp del: upt_Suc)
    also have "\<dots> = ([a, b] @ hex_bytes bs) ! (2 + i)"
      by (rule l) (use i in \<open>simp\<close>)
    also have "\<dots> = hex_bytes bs ! i"
      by (rule nth_behind_two)
    finally show "map line [2..<2 + 2 * length bs] ! i = hex_bytes bs ! i" .
  qed (simp only: length_map length_upt length_hex_bytes diff_add_inverse)
qed

lemma line_in_record:
  assumes "line_in line (encode_record ty payload)"
  shows "line 0 = CHR ''S''" "line 1 = char_of (48 + ty)"
    "coded line 2 ([word_of_nat (length payload + 1)] @ payload @ [NOT (sum_list (word_of_nat (length payload + 1) # payload))])"
  using line_in_hex [OF assms [unfolded encode_record_def Let_def]] by simp_all

lemma srec_line_record:
  assumes "line_in line (encode_record ty payload)" "ty \<le> 9" "ty \<noteq> 6" "payload \<noteq> []" "length payload \<le> 124"
  shows "srec_line g line (2 * length payload + 6) sd buf_len m =
     (if ty = 0 then Some (Srec_next sd buf_len m)
      else if ty \<le> 3 then srec_data_record g line ty (word_of_nat (length payload + 1)) sd buf_len m
      else if ty = 5 then srec_count_record g line sd buf_len m
      else if 7 \<le> ty then srec_end_record g line ty sd buf_len m
      else Some (Srec_next sd buf_len m))"
proof -
  let ?cnt = "word_of_nat (length payload + 1) :: u8"
  let ?chk = "NOT (sum_list (?cnt # payload))"
  note l = line_in_record [OF assms(1)]
  have t: "(of_char (line 1) :: nat) = 48 + ty"
    unfolding l(2) using assms(2) by simp
  have h: "coded line 2 ([?cnt] @ payload)" "coded line (2 + 2 * (length payload + 1)) [?chk]"
    using l(3) unfolding append.assoc [symmetric] coded_append by simp_all
  have h1: "coded line 2 [?cnt]"
    using h(1) unfolding coded_append by simp
  have cnt: "readhex line 2 2 = word_of_nat (length payload + 1)"
    using readhex_holds [OF h1, of 2] assms(5)
    by (simp add: be_value_def) (rule word_unat_eq_iff [THEN iffD2], simp add: unsigned_ucast_eq unsigned_of_nat take_bit_nat_eq_self)
  have e: "2 + 2 * (length payload + 1) = 2 * length payload + 6 - 2"
    by simp
  have chk: "readhex line (2 * length payload + 6 - 2) 2 = ucast ?chk"
    using readhex_holds [OF h(2), of 2] unfolding e by (simp add: be_value_def del: add_diff_cancel_right' Nat.diff_add_assoc2)
  have sum: "sum_bytes line 2 (length payload + 1) = sum_list (map ucast (?cnt # payload))"
    using sum_bytes_holds [OF h(1)] by simp
  have "map line [2..<2 + 2 * (length payload + 2)] = hex_bytes ([?cnt] @ payload @ [?chk])"
    using l(3) unfolding coded_def by simp
  then have "list_all isxdigit (map line [2..<2 + 2 * (length payload + 2)])"
    by (simp only: hex_bytes_plain)
  moreover have e2: "2 + 2 * (length payload + 2) = 2 * length payload + 6"
    by simp
  ultimately have xd: "list_all (\<lambda>i. isxdigit (line i)) [2..<2 * length payload + 6]"
    unfolding e2 by (simp only: list.pred_map o_def)
  have half: "(2 * length payload + 6 - 4) div 2 = length payload + 1"
    by simp
  have "NOT (sum_list (map ucast (?cnt # payload)) :: u32) AND 0xff = ucast ?chk"
    by (rule checksum_byte)
  then show ?thesis
    using assms(2-4) unfolding srec_line_def t half cnt chk sum
    by (simp add: l(1) xd Let_def)
qed

subsection \<open>Lines from the console\<close>

lemma readline_text:
  assumes "list_all plain_char t" "length t < n"
  shows "\<exists>b. readline buffer (int n) echo (t @ CHR 0x0D # rest) = Some (b, rest, snd (snd (the (readline buffer (int n) echo (t @ CHR 0x0D # rest))))) \<and> line_in b t"
proof -
  have "represents n buffer \<lparr>le_buffer = buffer(0 := CHR 0x00), le_pos = 0, le_length = 0, le_out = []\<rparr> ([], [])"
    using assms(2) by (simp add: represents_def)
  from typed_text [OF assms(1) this, of n echo "CHR 0x0D # rest"] assms(2) obtain st where
    st: "readline_loop (int n) echo (t @ CHR 0x0D # rest)
        \<lparr>le_buffer = buffer(0 := CHR 0x00), le_pos = 0, le_length = 0, le_out = []\<rparr> = Some (rest, end_line echo st)"
    "represents n buffer st (t, [])"
    by (auto simp: readline_loop_keys)
  then show ?thesis
    using represents_end_line(1) [OF st(2), of echo] by (simp add: readline_def)
qed

lemma encode_record_plain:
  assumes "ty \<le> 9"
  shows "list_all plain_char (encode_record ty payload)"
proof -
  have "plain_char (char_of (48 + ty))"
    using assms by (simp add: plain_char_def)
  then show ?thesis
    by (simp add: encode_record_def Let_def hex_bytes_plain del: hex_bytes_simps) (simp add: plain_char_def)
qed

lemma line_strlen_in:
  assumes "line_in line t" "CHR 0x00 \<notin> set t" "length t < 256"
  shows "line_strlen line = Some (length t)"
proof -
  have "takeWhile (\<lambda>i. line i \<noteq> CHR 0x00) [0..<256] = [0..<length t]"
  proof -
    have "[0..<256] = [0..<length t] @ length t # [Suc (length t)..<256]"
      using upt_add_eq_append [of 0 "length t" "256 - length t"] upt_conv_Cons [of "length t" 256] assms(3)
      by (simp del: upt_Suc upt_rec_numeral)
    then show ?thesis
      using assms(1,2) by (simp only:) (subst takeWhile_append2, auto simp: line_in_def dest: nth_mem)
  qed
  then show ?thesis
    using assms(3) by (simp add: line_strlen_def SREC_MAX_LINE_LENGTH_def del: upt_Suc upt_rec_numeral)
qed

lemma not_xdigit: "\<not> isxdigit CHR 0x0D" "\<not> isxdigit CHR 0x0A" "\<not> isxdigit CHR '' ''" "\<not> isxdigit CHR 0x09"
  by code_simp+

text \<open>One turn of the loop on an encoded record.\<close>

lemma srec_loop_record:
  assumes "ty \<le> 9" "payload \<noteq> []" "length payload \<le> 124"
  shows "\<exists>b. line_in b (encode_record ty payload) \<and>
    srec_loop g line sd buf_len (encode_record ty payload @ CHR 0x0D # rest) m =
      (case srec_line g b (2 * length payload + 6) (sd\<lparr>sd_line := sd_line sd + 1\<rparr>) buf_len m of
         None \<Rightarrow> None
       | Some (Srec_return r sd m) \<Rightarrow> Some (r, sd, rest, m)
       | Some (Srec_next sd buf_len m) \<Rightarrow> srec_loop g b sd buf_len rest m)"
proof -
  let ?t = "encode_record ty payload"
  obtain b out where b: "readline line (int SREC_MAX_LINE_LENGTH - 1) False (?t @ CHR 0x0D # rest) = Some (b, rest, out)"
    "line_in b ?t"
    using readline_text [OF encode_record_plain [OF assms(1), of payload], of 255 line False rest] assms(3)
    by (auto simp: SREC_MAX_LINE_LENGTH_def)
  have "CHR 0x00 \<notin> set ?t"
    using encode_record_plain [OF assms(1), of payload] by (auto simp: list_all_iff dest: plain_char_not)
  then have len: "line_strlen b = Some (Suc (2 * length payload + 5))"
    using line_strlen_in [OF b(2)] assms(3) by simp
  let ?h = "hex_bytes ((word_of_nat (length payload + 1) # payload) @ [NOT (sum_list (word_of_nat (length payload + 1) # payload))])"
  have t: "?t = [CHR ''S'', char_of (48 + ty)] @ ?h"
    by (simp only: encode_record_def Let_def)
  have e: "2 + (2 * length payload + 3) = 2 * length payload + 5" "2 * length payload + 5 = Suc (2 * length payload + 4)"
    by simp_all
  have "b (2 + (2 * length payload + 3)) = ?t ! (2 + (2 * length payload + 3))"
    using b(2) unfolding line_in_def length_encode_record by simp
  then have "b (2 * length payload + 5) = ?h ! (2 * length payload + 3)"
    unfolding t unfolding nth_behind_two unfolding e(1) .
  then have "isxdigit (b (2 * length payload + 5))"
    using hex_bytes_plain(2) [of "(word_of_nat (length payload + 1) # payload) @ [NOT (sum_list (word_of_nat (length payload + 1) # payload))]"]
    by (simp only: list_all_length length_hex_bytes) simp
  moreover have "\<not> isxdigit c" if "c \<in> {CHR 0x0D, CHR 0x0A, CHR '' '', CHR 0x09}" for c
    using that not_xdigit by auto
  ultimately have "b (2 * length payload + 5) \<notin> {CHR 0x0D, CHR 0x0A, CHR '' '', CHR 0x09}"
    by blast
  then have trim: "trim_line (2 * length payload + 5) b = (2 * length payload + 5, b)"
    unfolding e(2) trim_line.simps by (simp only: if_False)
  define k where "k = 2 * length payload + 5"
  have l: "2 * length payload + 6 = Suc k"
    by (simp add: k_def)
  show ?thesis
    using b unfolding l by (intro exI [of _ b]) (subst srec_loop.simps, simp add: len [folded k_def] trim [folded k_def] Let_def)
qed

end
