(* ===== verification/Srec_Image.thy ===== *)
theory Srec_Image
  imports Srec_Lines
begin

text \<open>
  The image the loader builds: every data record extends the block in the kernel heap by the
  bytes it carries.  The proofs use the \<open>reallocator\<close> interface of the kernel heap.
\<close>

text \<open>
  \<open>image_ok g L img sd buf_len m\<close>: the block holds the bytes \<open>img\<close>, \<open>L\<close> are the other live
  regions of the kernel heap.
\<close>

definition image_ok ::
    "mem_ctxs \<Rightarrow> (nat \<Rightarrow> nat option) \<Rightarrow> u8 list \<Rightarrow> srec_data \<Rightarrow> u32 \<Rightarrow> machine \<Rightarrow> bool" where
  "image_ok g L img sd buf_len m \<longleftrightarrow>
     sd_data_len sd = adr (length img) \<and> length img \<le> unat buf_len \<and>
     (\<exists>bs. heap_wf (g_kheap g) (ram m) bs \<and>
       (sd_data sd = 0 \<and> buf_len = 0 \<and> L = live (unat (start (g_kheap g))) bs \<or>
        (\<exists>k. live (unat (start (g_kheap g))) bs (unat (sd_data sd)) = Some k \<and> unat buf_len \<le> k \<and>
             L = (live (unat (start (g_kheap g))) bs)(unat (sd_data sd) := None) \<and>
             (\<forall>i < length img. ram m (adr (unat (sd_data sd) + i)) = img ! i))))"

definition heap_full :: "mem_ctxs \<Rightarrow> nat \<Rightarrow> mem \<Rightarrow> bool" where
  "heap_full g n m \<longleftrightarrow> (\<exists>bs. heap_wf (g_kheap g) m bs \<and> a_malloc (align4 n) bs = None)"

text \<open>The buffer after the test for its length: refused, or large enough for the record.\<close>

lemma image_room:
  assumes "image_ok g L img sd buf_len m" "unat buf_len \<le> length img + 16384" "length img + 32772 \<le> 4294967296" "0 < j" "j \<le> 16384"
  defines "full \<equiv> adr (length img) + adr j > buf_len"
  shows "full \<and> (\<exists>m'. krealloc g (sd_data sd) (buf_len + 16384) m = Some (0, m') \<and> ram m' = ram m \<and>
        heap_full g (unat (buf_len + 16384)) (ram m)) \<or>
     (\<exists>q m' buf'. (if full then map_option (\<lambda>(q, m). (sd\<lparr>sd_data := q\<rparr>, m, buf_len + 16384))
                                  (krealloc g (sd_data sd) (buf_len + 16384) m)
                   else Some (sd, m, buf_len)) = Some (sd\<lparr>sd_data := q\<rparr>, m', buf') \<and>
        q \<noteq> 0 \<and> length img + j \<le> unat buf' \<and> unat buf' \<le> length img + j + 16384 \<and> image_ok g L img (sd\<lparr>sd_data := q\<rparr>) buf' m' \<and>
        preserves L (ram m) (ram m'))"
proof -
  let ?lv = "live (unat (start (g_kheap g)))"
  have ok: "sd_data_len sd = adr (length img)" "length img \<le> unat buf_len" "unat buf_len \<le> length img + 16384"
    using assms(1,2) by (simp_all add: image_ok_def)
  obtain bs where wf: "heap_wf (g_kheap g) (ram m) bs"
    and b: "sd_data sd = 0 \<and> buf_len = 0 \<and> L = ?lv bs \<or>
      (\<exists>k. ?lv bs (unat (sd_data sd)) = Some k \<and> unat buf_len \<le> k \<and> L = (?lv bs)(unat (sd_data sd) := None) \<and>
        (\<forall>i < length img. ram m (adr (unat (sd_data sd) + i)) = img ! i))"
    using assms(1) unfolding image_ok_def by blast
  have sum: "unat (adr (length img) + adr j) = length img + j"
    using assms(3,5) by (simp add: unat_word_ariths unat_of_nat)
  have n: "unat (buf_len + 16384) = unat buf_len + 16384"
    using ok(3) assms(3) by (simp add: unat_word_ariths)
  show ?thesis
  proof (cases full)
    case False
    have le: "length img + j \<le> unat buf_len"
      using False sum unfolding full_def by (simp add: word_less_nat_alt)
    with b assms(4) obtain k where "?lv bs (unat (sd_data sd)) = Some k"
      by auto
    then have nz: "sd_data sd \<noteq> 0"
      using kheap.live_word_range [OF wf] by blast
    show ?thesis
      by (intro disjI2, rule exI [of _ "sd_data sd"], rule exI [of _ m], rule exI [of _ buf_len])
        (use nz False le assms(1,2) ok(2) in simp)
  next
    case True
    let ?n = "buf_len + 16384"
    have nz: "?n \<noteq> 0" "unat ?n \<le> 4294967292"
      using n ok(3) assms(3) by (auto simp: unat_eq_0 [symmetric])
    obtain k where g: "sd_data sd = 0 \<and> length img = 0 \<and> L = ?lv bs \<or>
        ?lv bs (unat (sd_data sd)) = Some k \<and> length img \<le> k \<and> length img \<le> unat ?n \<and>
        L = (?lv bs)(unat (sd_data sd) := None)"
      and c: "length img = 0 \<or> (\<forall>i < length img. ram m (adr (unat (sd_data sd) + i)) = img ! i)"
      using b ok(2) n by fastforce
    from kheap.grow [OF wf nz g]
    show ?thesis
    proof (elim disjE exE conjE)
      fix m' assume "krealloc g (sd_data sd) ?n m = Some (0, m')" "ram m' = ram m" "a_malloc (align4 (unat ?n)) bs = None"
      then show ?thesis
        using True wf by (auto simp: heap_full_def)
    next
      fix q m' bs' k'
      assume q: "krealloc g (sd_data sd) ?n m = Some (q, m')" "heap_wf (g_kheap g) (ram m') bs'"
        "?lv bs' (unat q) = Some k'" "unat ?n \<le> k'" "L = (?lv bs')(unat q := None)" "preserves L (ram m) (ram m')"
        "\<forall>i < length img. ram m' (adr (unat q + i)) = ram m (adr (unat (sd_data sd) + i))"
      have "\<forall>i < length img. ram m' (adr (unat q + i)) = img ! i"
        using q(7) c g by auto
      moreover have room: "length img + j \<le> unat ?n" "unat ?n \<le> length img + j + 16384"
        using n ok(2) assms(5) True sum unfolding full_def by (simp_all add: word_less_nat_alt)
      moreover from this have "length img \<le> unat ?n"
        by simp
      ultimately have img: "image_ok g L img (sd\<lparr>sd_data := q\<rparr>) ?n m'"
        using q ok(1) unfolding image_ok_def by auto
      have q0: "q \<noteq> 0"
        using kheap.live_word_range [OF q(2,3)] .
      show ?thesis
        by (intro disjI2, rule exI [of _ q], rule exI [of _ m'], rule exI [of _ ?n])
          (use True q q0 img room in simp)
    qed
  qed
qed

lemma image_write:
  assumes "image_ok g L img sd buf_len m" "sd_data sd \<noteq> 0" "length img + length c \<le> unat buf_len"
    and "sd_data sd' = sd_data sd" "sd_data_len sd' = adr (length (img @ c))"
    and m': "m' = m\<lparr>ram := write_bytes c (sd_data sd + adr (length img)) (ram m)\<rparr>"
  shows "image_ok g L (img @ c) sd' buf_len m'" "preserves L (ram m) (ram m')"
proof -
  let ?lv = "live (unat (start (g_kheap g)))" and ?x = "unat (sd_data sd) + length img"
  obtain bs k where wf: "heap_wf (g_kheap g) (ram m) bs" and k: "?lv bs (unat (sd_data sd)) = Some k" "unat buf_len \<le> k"
    "L = (?lv bs)(unat (sd_data sd) := None)" "\<forall>i < length img. ram m (adr (unat (sd_data sd) + i)) = img ! i"
    using assms(1,2) unfolding image_ok_def by blast
  have fit: "unat (sd_data sd) + k < 4294967296"
    using kheap.live_range [OF wf k(1)] by simp
  have "sd_data sd + adr (length img) = adr ?x"
    unfolding of_nat_add by simp
  then have ram: "ram m' = write_bytes c (adr ?x) (ram m)"
    unfolding m' by simp
  have w: "modifies (ram m) (ram m') ?x (?x + length c)" "\<forall>i < length c. ram m' (adr (?x + i)) = c ! i"
    using write_bytes_spec [of ?x c "ram m"] fit k(2) assms(3) unfolding ram by auto
  have mod: "modifies (ram m) (ram m') (unat (sd_data sd)) (unat (sd_data sd) + k)"
    by (rule modifies_mono [OF w(1)]) (use k(2) assms(3) in auto)
  have eq: "m\<lparr>ram := ram m'\<rparr> = m'"
    unfolding m' by simp
  have wf': "heap_wf (g_kheap g) (ram m') bs"
    using kheap.write_live [OF wf k(1) mod] by simp
  have old: "ram m' (adr (unat (sd_data sd) + i)) = img ! i" if "i < length img" for i
    using modifies_at [OF w(1), of "unat (sd_data sd) + i"] that fit k(2,4) assms(3) by simp
  have new: "ram m' (adr (unat (sd_data sd) + i)) = c ! (i - length img)" if "length img \<le> i" "i < length img + length c" for i
    using w(2) [rule_format, of "i - length img"] that by (simp add: add.assoc)
  have "\<forall>i < length (img @ c). ram m' (adr (unat (sd_data sd) + i)) = (img @ c) ! i"
    using old new by (simp add: nth_append)
  then show "image_ok g L (img @ c) sd' buf_len m'"
    unfolding image_ok_def using wf' k assms(3-5) by auto
  show "preserves L (ram m) (ram m')"
    unfolding k(3) by (rule kheap.write_preserves [OF wf k(1) mod])
qed

text \<open>A data record of an encoded line, with its fields read.\<close>

lemma srec_data_record_run:
  fixes buf_len :: u32
  assumes line: "line_in line (encode_record ty (be_bytes (ty + 1) a @ c))"
    and c: "ty \<le> 3" "c \<noteq> []" "length c + ty \<le> 123" and a: "base \<le> a" "a + length c \<le> 256 ^ (ty + 1)"
    and off: "sd_data_records sd = 0 \<and> a = base \<or> sd_data_records sd \<noteq> 0 \<and> sd_offset sd = adr base"
  defines "sd1 \<equiv> (if sd_data_records sd = 0 then sd\<lparr>sd_offset := adr a\<rparr> else sd)"
    and "full \<equiv> adr (a - base) + adr (length c) > buf_len"
  shows "srec_data_record g line ty (word_of_nat (length c + ty + 2)) sd buf_len m =
     (case (if full then map_option (\<lambda>(q, m). (sd1\<lparr>sd_data := q\<rparr>, m, buf_len + 16384))
                (krealloc g (sd_data sd1) (buf_len + 16384) m) else Some (sd1, m, buf_len)) of
        None \<Rightarrow> None
      | Some (sd, m, buf_len') \<Rightarrow>
          if full \<and> sd_data sd = 0 then srec_err g sd se_out_of_memory m
          else let sd = (if adr (a - base) + adr (length c) > sd_data_len sd
                         then sd\<lparr>sd_data_len := adr (a - base) + adr (length c)\<rparr> else sd)
               in Some (Srec_next (sd\<lparr>sd_data_records := sd_data_records sd + 1\<rparr>) buf_len'
                    (m\<lparr>ram := write_bytes c (sd_data sd + adr (a - base)) (ram m)\<rparr>)))"
proof -
  let ?a = "be_bytes (ty + 1) a" and ?cnt = "word_of_nat (length c + ty + 2) :: u32"
  have pos: "(4::nat) = 2 + 2 * length [word_of_nat (length (?a @ c) + 1) :: u8]"
    "4 + 2 + 2 * ty = 4 + 2 * length ?a" "2 + 2 * ty = 2 * length ?a"
    by simp_all
  have h: "coded line 4 ?a" "coded line (4 + 2 + 2 * ty) c"
    using line_in_record(3) [OF line] unfolding coded_append pos by simp_all
  have lt: "a < 256 ^ (ty + 1)"
    using a(2) c(2) by (cases c) simp_all
  have "(256 :: nat) ^ (ty + 1) \<le> 256 ^ 4"
    by (rule power_increasing) (use c(1) in simp_all)
  then have top: "a < 4294967296"
    using lt by simp
  have address: "readhex line 4 (2 + 2 * ty) = adr a"
    using readhex_holds [OF h(1) pos(3)] be_value_be_bytes [OF lt] by simp
  have count: "?cnt - (1 + (word_of_nat ty + 1)) = adr (length c)"
    by (simp only: of_nat_add of_nat_numeral one_add_one [symmetric]) (simp only: algebra_simps add_diff_cancel of_nat_1)
  have "unat (adr a) = a" "unat (adr base) = base"
    using top a(1) by (simp_all add: unat_of_nat)
  then have order: "\<not> (sd_data_records sd \<noteq> 0 \<and> adr a < sd_offset sd)"
    using off a(1) by (auto simp: word_less_nat_alt)
  have "sd_offset sd1 = adr base"
    using off by (auto simp: sd1_def)
  then have addr: "adr a - sd_offset sd1 = adr (a - base)"
    using a(1) by (simp only: of_nat_diff)
  have stored: "store_bytes (unat (adr (length c))) x line (4 + 2 + 2 * ty) r = Some (write_bytes c x r)" for x r
    using store_bytes_holds [OF h(2)] c(1,3) by (simp add: unat_of_nat)
  show ?thesis
    unfolding srec_data_record_def Let_def address count if_not_P [OF order] sd1_def [symmetric] addr full_def stored option.map ..
qed

text \<open>
  A data record that continues the image: the bytes are appended to it, or the heap had no
  room for a larger block.
\<close>

lemma srec_data_record_step:
  assumes ok: "image_ok g L img sd buf_len m" "unat buf_len \<le> length img + 16384"
    and line: "line_in line (encode_record ty (be_bytes (ty + 1) (base + length img) @ c))"
    and c: "1 \<le> ty" "ty \<le> 3" "c \<noteq> []" "length c + ty \<le> 123"
    and fit: "base + length img + length c \<le> 256 ^ (ty + 1)" "length img + length c + 32772 \<le> 4294967296"
    and off: "sd_data_records sd = 0 \<and> img = [] \<or> sd_data_records sd \<noteq> 0 \<and> sd_offset sd = adr base"
  shows "(\<exists>sd' m'. srec_data_record g line ty (word_of_nat (length c + ty + 2)) sd buf_len m = Some (Srec_return 1 sd' m') \<and>
        sd_error sd' = se_out_of_memory \<and> sd_data sd' = 0 \<and> ram m' = ram m \<and>
        heap_full g (unat (buf_len + 16384)) (ram m)) \<or>
     (\<exists>sd' buf' m'. srec_data_record g line ty (word_of_nat (length c + ty + 2)) sd buf_len m = Some (Srec_next sd' buf' m') \<and>
        image_ok g L (img @ c) sd' buf' m' \<and> unat buf' \<le> length (img @ c) + 16384 \<and>
        preserves L (ram m) (ram m') \<and> sd_offset sd' = adr base \<and> sd_error sd' = sd_error sd \<and>
        sd_data_records sd' = sd_data_records sd + 1)"
proof -
  let ?cnt = "word_of_nat (length c + ty + 2) :: u32"
  define full where "full \<longleftrightarrow> adr (length img) + adr (length c) > buf_len"
  define sd1 where "sd1 = (if sd_data_records sd = 0 then sd\<lparr>sd_offset := adr (base + length img)\<rparr> else sd)"
  have sd1: "sd_offset sd1 = adr base" "sd_data sd1 = sd_data sd" "sd_data_len sd1 = sd_data_len sd"
    "sd_error sd1 = sd_error sd" "sd_data_records sd1 = sd_data_records sd"
    using off by (auto simp: sd1_def)
  have "sd_data_records sd = 0 \<and> base + length img = base \<or> sd_data_records sd \<noteq> 0 \<and> sd_offset sd = adr base"
    using off by auto
  note run = srec_data_record_run [OF line c(2-4) le_add1 fit(1) this, of g buf_len m, folded sd1_def,
      unfolded diff_add_inverse, folded full_def]
  have ok1: "image_ok g L img sd1 buf_len m"
    using ok(1) sd1 by (simp add: image_ok_def)
  have j: "0 < length c" "length c \<le> 16384" "length img + 32772 \<le> 4294967296"
    using c fit(2) by auto
  from image_room [OF ok1 ok(2) j(3,1,2), folded full_def]
  show ?thesis
  proof (elim disjE exE conjE)
    fix m' assume "full" "krealloc g (sd_data sd1) (buf_len + 16384) m = Some (0, m')" "ram m' = ram m"
      "heap_full g (unat (buf_len + 16384)) (ram m)"
    then show ?thesis
      unfolding run by (intro disjI1) (simp add: srec_err_def Let_def)
  next
    fix q m1 buf'
    let ?sd = "sd1\<lparr>sd_data := q\<rparr>"
    let ?sd' = "?sd\<lparr>sd_data_len := adr (length (img @ c)), sd_data_records := sd_data_records sd1 + 1\<rparr>"
    assume grown: "(if full then map_option (\<lambda>(q, m). (sd1\<lparr>sd_data := q\<rparr>, m, buf_len + 16384))
          (krealloc g (sd_data sd1) (buf_len + 16384) m) else Some (sd1, m, buf_len)) = Some (?sd, m1, buf')"
      and q: "q \<noteq> 0" and room: "length img + length c \<le> unat buf'" "unat buf' \<le> length img + length c + 16384"
      and img: "image_ok g L img ?sd buf' m1" and pres: "preserves L (ram m) (ram m1)"
    define m2 where "m2 = m1\<lparr>ram := write_bytes c (q + adr (length img)) (ram m1)\<rparr>"
    have len: "adr (length img) + adr (length c) = adr (length (img @ c))"
      by (simp only: length_append of_nat_add)
    have longer: "adr (length (img @ c)) > sd_data_len ?sd"
    proof -
      have "sd_data_len ?sd = adr (length img)"
        using img unfolding image_ok_def by (rule conjunct1)
      moreover have "unat (adr (length (img @ c))) = length img + length c" "unat (adr (length img)) = length img"
        using fit(2) by (simp_all add: unat_of_nat)
      ultimately show ?thesis
        using c(3) by (simp only: word_less_nat_alt) simp
    qed
    have "srec_data_record g line ty ?cnt sd buf_len m = Some (Srec_next ?sd' buf' m2)"
      unfolding run grown using q longer by (simp add: len m2_def Let_def)
    moreover note image_write [OF img, of c ?sd' m2]
    ultimately show ?thesis
      using q room pres sd1 by (intro disjI2) (auto simp: m2_def intro: preserves_trans)
  qed
qed

text \<open>The state between two data records.\<close>

definition loading ::
    "mem_ctxs \<Rightarrow> (nat \<Rightarrow> nat option) \<Rightarrow> nat \<Rightarrow> u8 list \<Rightarrow> srec_data \<Rightarrow> u32 \<Rightarrow> machine \<Rightarrow> bool" where
  "loading g L base img sd buf_len m \<longleftrightarrow>
     image_ok g L img sd buf_len m \<and> unat buf_len \<le> length img + 16384 \<and>
     unat (sd_data_records sd) \<le> length img \<and> sd_error sd = se_ok \<and>
     (sd_data_records sd = 0 \<and> img = [] \<or> sd_data_records sd \<noteq> 0 \<and> sd_offset sd = adr base)"

definition out_of_room :: "mem_ctxs \<Rightarrow> (nat \<Rightarrow> nat option) \<Rightarrow> nat \<Rightarrow> mem \<Rightarrow> srec_data \<Rightarrow> machine \<Rightarrow> bool" where
  "out_of_room g L n r sd m \<longleftrightarrow> sd_error sd = se_out_of_memory \<and> sd_data sd = 0 \<and> preserves L r (ram m) \<and>
     (\<exists>j \<le> n + 32768. heap_full g j (ram m))"

lemma loading_line [simp]: "loading g L base img (sd\<lparr>sd_line := n\<rparr>) buf_len m = loading g L base img sd buf_len m"
  by (simp add: loading_def image_ok_def)

lemma out_of_room_mono: "out_of_room g L n r sd m \<Longrightarrow> n \<le> n' \<Longrightarrow> out_of_room g L n' r sd m"
  by (auto simp: out_of_room_def intro: le_trans add_le_mono1)

lemma out_of_room_trans: "preserves L r r' \<Longrightarrow> out_of_room g L n r' sd m \<Longrightarrow> out_of_room g L n r sd m"
  by (auto simp: out_of_room_def intro: preserves_trans)

lemma loading_step:
  assumes "loading g L base img sd buf_len m"
    and line: "line_in line (encode_record ty (be_bytes (ty + 1) (base + length img) @ c))"
    and c: "1 \<le> ty" "ty \<le> 3" "c \<noteq> []" "length c + ty \<le> 123"
    and fit: "base + length img + length c \<le> 256 ^ (ty + 1)" "length img + length c + 32772 \<le> 4294967296"
  shows "(\<exists>sd' m'. srec_data_record g line ty (word_of_nat (length c + ty + 2)) sd buf_len m = Some (Srec_return 1 sd' m') \<and>
        out_of_room g L (length img) (ram m) sd' m') \<or>
     (\<exists>sd' buf' m'. srec_data_record g line ty (word_of_nat (length c + ty + 2)) sd buf_len m = Some (Srec_next sd' buf' m') \<and>
        loading g L base (img @ c) sd' buf' m' \<and> preserves L (ram m) (ram m'))"
proof -
  have l: "image_ok g L img sd buf_len m" "unat buf_len \<le> length img + 16384" "unat (sd_data_records sd) \<le> length img"
    "sd_error sd = se_ok" "sd_data_records sd = 0 \<and> img = [] \<or> sd_data_records sd \<noteq> 0 \<and> sd_offset sd = adr base"
    using assms(1) by (simp_all add: loading_def)
  have r: "unat (sd_data_records sd + 1) = unat (sd_data_records sd) + 1"
    using l(3) fit(2) by (simp add: unat_word_ariths)
  then have r0: "sd_data_records sd + 1 \<noteq> 0"
    by (metis add_is_0 one_neq_zero unsigned_0)
  have n: "unat (buf_len + 16384) \<le> length img + 32768"
    using l(2) fit(2) by (simp add: unat_word_ariths)
  from srec_data_record_step [OF l(1,2) line c fit l(5)]
  show ?thesis
  proof (elim disjE exE conjE)
    fix sd' m' assume "srec_data_record g line ty (word_of_nat (length c + ty + 2)) sd buf_len m = Some (Srec_return 1 sd' m')"
      "sd_error sd' = se_out_of_memory" "sd_data sd' = 0" "ram m' = ram m" "heap_full g (unat (buf_len + 16384)) (ram m)"
    then show ?thesis
      using n unfolding out_of_room_def by (intro disjI1 exI [of _ sd'] exI [of _ m']) auto
  next
    fix sd' buf' m'
    assume "srec_data_record g line ty (word_of_nat (length c + ty + 2)) sd buf_len m = Some (Srec_next sd' buf' m')"
      "image_ok g L (img @ c) sd' buf' m'" "unat buf' \<le> length (img @ c) + 16384" "preserves L (ram m) (ram m')"
      "sd_offset sd' = adr base" "sd_error sd' = sd_error sd" "sd_data_records sd' = sd_data_records sd + 1"
    moreover from this(7) have "unat (sd_data_records sd') \<le> length (img @ c)" "sd_data_records sd' \<noteq> 0"
      using r r0 l(3) c(3) by (cases c; simp)+
    ultimately show ?thesis
      using l(4) unfolding loading_def by (intro disjI2 exI conjI) auto
  qed
qed

lemma data_record_line:
  assumes line: "line_in line (encode_record ty (be_bytes (ty + 1) a @ c))"
    and c: "1 \<le> ty" "ty \<le> 3" "c \<noteq> []" "length c + ty \<le> 123"
  shows "srec_line g line (2 * length (be_bytes (ty + 1) a @ c) + 6) sd buf_len m =
    srec_data_record g line ty (word_of_nat (length c + ty + 2)) sd buf_len m"
proof -
  have "length (be_bytes (ty + 1) a @ c) + 1 = length c + ty + 2"
    by simp
  moreover have "srec_line g line (2 * length (be_bytes (ty + 1) a @ c) + 6) sd buf_len m =
    srec_data_record g line ty (word_of_nat (length (be_bytes (ty + 1) a @ c) + 1)) sd buf_len m"
    by (subst srec_line_record [OF line]) (use c in simp_all)
  ultimately show ?thesis
    by (simp only:)
qed

lemma srec_loop_data:
  assumes "loading g L base img sd buf_len m" "1 \<le> ty" "ty \<le> 3" "\<forall>c \<in> set chunks. c \<noteq> [] \<and> length c + ty \<le> 123"
    and "base + length img + length (concat chunks) \<le> 256 ^ (ty + 1)" "length img + length (concat chunks) + 32772 \<le> 4294967296"
  shows "(\<exists>sd' input' m'. srec_loop g line sd buf_len (data_lines ty (base + length img) chunks @ rest) m = Some (1, sd', input', m') \<and>
        out_of_room g L (length img + length (concat chunks)) (ram m) sd' m') \<or>
     (\<exists>line' sd' buf' m'. srec_loop g line sd buf_len (data_lines ty (base + length img) chunks @ rest) m =
          srec_loop g line' sd' buf' rest m' \<and>
        loading g L base (img @ concat chunks) sd' buf' m' \<and> preserves L (ram m) (ram m'))"
  using assms
proof (induction chunks arbitrary: line img sd buf_len m)
  case Nil
  then show ?case
    by (intro disjI2 exI [of _ line] exI [of _ sd] exI [of _ m] exI [of _ buf_len]) simp
next
  case (Cons c cs)
  let ?rec = "encode_record ty (be_bytes (ty + 1) (base + length img) @ c)" and ?sd = "sd\<lparr>sd_line := sd_line sd + 1\<rparr>"
  let ?in = "data_lines ty (base + length (img @ c)) cs @ rest"
  have c: "c \<noteq> []" "length c + ty \<le> 123"
    using Cons.prems(4) by simp_all
  have input: "data_lines ty (base + length img) (c # cs) @ rest = ?rec @ CHR 0x0D # ?in"
    by (simp add: add.assoc)
  have len: "ty \<le> 9" "be_bytes (ty + 1) (base + length img) @ c \<noteq> []"
    "length (be_bytes (ty + 1) (base + length img) @ c) \<le> 124"
    using Cons.prems(3) c by simp_all
  obtain b where b: "line_in b ?rec" and turn: "srec_loop g line sd buf_len (?rec @ CHR 0x0D # ?in) m =
      (case srec_data_record g b ty (word_of_nat (length c + ty + 2)) ?sd buf_len m of
         None \<Rightarrow> None
       | Some (Srec_return r sd m) \<Rightarrow> Some (r, sd, ?in, m)
       | Some (Srec_next sd buf_len m) \<Rightarrow> srec_loop g b sd buf_len ?in m)"
    using srec_loop_record [OF len, of g line sd buf_len ?in m] data_record_line [OF _ Cons.prems(2,3) c]
    by metis
  have fit: "base + length img + length c \<le> 256 ^ (ty + 1)" "length img + length c + 32772 \<le> 4294967296"
    using Cons.prems(5,6) by simp_all
  have sum: "length img + length (concat (c # cs)) = length (img @ c) + length (concat cs)"
    by simp
  have "loading g L base img ?sd buf_len m"
    using Cons.prems(1) by simp
  from loading_step [OF this b Cons.prems(2,3) c fit]
  show ?case
  proof (elim disjE exE conjE)
    fix sd' m' assume s: "srec_data_record g b ty (word_of_nat (length c + ty + 2)) ?sd buf_len m = Some (Srec_return 1 sd' m')"
      "out_of_room g L (length img) (ram m) sd' m'"
    have "srec_loop g line sd buf_len (data_lines ty (base + length img) (c # cs) @ rest) m = Some (1, sd', ?in, m')"
      unfolding input turn s(1) by simp
    moreover have "out_of_room g L (length img + length (concat (c # cs))) (ram m) sd' m'"
      by (rule out_of_room_mono [OF s(2)]) simp
    ultimately show ?case
      by blast
  next
    fix sd' buf' m'
    assume s: "srec_data_record g b ty (word_of_nat (length c + ty + 2)) ?sd buf_len m = Some (Srec_next sd' buf' m')"
      "loading g L base (img @ c) sd' buf' m'" "preserves L (ram m) (ram m')"
    have run: "srec_loop g line sd buf_len (data_lines ty (base + length img) (c # cs) @ rest) m = srec_loop g b sd' buf' ?in m'"
      unfolding input turn s(1) by simp
    have "\<forall>c \<in> set cs. c \<noteq> [] \<and> length c + ty \<le> 123" "base + length (img @ c) + length (concat cs) \<le> 256 ^ (ty + 1)"
      "length (img @ c) + length (concat cs) + 32772 \<le> 4294967296"
      using Cons.prems(4-6) by simp_all
    from Cons.IH [OF s(2) Cons.prems(2,3) this, of b, folded run sum]
    show ?case
    proof (elim disjE exE conjE)
      fix sd2 input2 m2
      assume "srec_loop g line sd buf_len (data_lines ty (base + length img) (c # cs) @ rest) m = Some (1, sd2, input2, m2)"
        "out_of_room g L (length img + length (concat (c # cs))) (ram m') sd2 m2"
      then show ?case
        using out_of_room_trans [OF s(3)] by blast
    next
      fix line2 sd2 buf2 m2
      assume "srec_loop g line sd buf_len (data_lines ty (base + length img) (c # cs) @ rest) m = srec_loop g line2 sd2 buf2 rest m2"
        "loading g L base ((img @ c) @ concat cs) sd2 buf2 m2" "preserves L (ram m') (ram m2)"
      then show ?case
        using preserves_trans [OF s(3)] unfolding concat.simps append.assoc by blast
    qed
  qed
qed

lemma image_clear_tail:
  assumes ok: "image_ok g L img sd buf_len m" "sd_data sd \<noteq> 0" and lt: "length img < 4294967296"
    and m': "m' = m\<lparr>ram := bzero (sd_data sd + sd_data_len sd) (buf_len - sd_data_len sd) (ram m)\<rparr>"
  shows "image_ok g L img sd buf_len m'" "preserves L (ram m) (ram m')"
proof -
  let ?lv = "live (unat (start (g_kheap g)))" and ?x = "unat (sd_data sd) + length img" and ?n = "buf_len - sd_data_len sd"
  obtain bs k where wf: "heap_wf (g_kheap g) (ram m) bs" and k: "?lv bs (unat (sd_data sd)) = Some k" "unat buf_len \<le> k"
    "L = (?lv bs)(unat (sd_data sd) := None)" "\<forall>i < length img. ram m (adr (unat (sd_data sd) + i)) = img ! i"
    using assms(1,2) unfolding image_ok_def by blast
  have len: "sd_data_len sd = adr (length img)" "length img \<le> unat buf_len" "unat (adr (length img)) = length img"
    using ok(1) lt by (simp_all add: image_ok_def unat_of_nat)
  have fit: "unat (sd_data sd) + k < 4294967296"
    using kheap.live_range [OF wf k(1)] by simp
  have x: "unat (sd_data sd + sd_data_len sd) = ?x"
    using fit k(2) len by (simp add: unat_word_ariths)
  have n: "unat ?n = unat buf_len - length img"
    using len by (simp add: unat_sub word_le_nat_alt)
  have "filled (ram m) (ram m') ?x (unat ?n) 0"
    using bzero_fills [of "sd_data sd + sd_data_len sd" ?n "ram m"] fit k(2) len(2) unfolding m' x n by simp
  then have w: "modifies (ram m) (ram m') ?x (?x + unat ?n)"
    unfolding filled_def by (rule conjunct1)
  have mod: "modifies (ram m) (ram m') (unat (sd_data sd)) (unat (sd_data sd) + k)"
    by (rule modifies_mono [OF w]) (use k(2) len(2) n in auto)
  have wf': "heap_wf (g_kheap g) (ram m') bs"
    using kheap.write_live [OF wf k(1) mod] by simp
  have "ram m' (adr (unat (sd_data sd) + i)) = img ! i" if "i < length img" for i
    using modifies_at [OF w, of "unat (sd_data sd) + i"] that fit k(2,4) len(2) by simp
  then show "image_ok g L img sd buf_len m'"
    unfolding image_ok_def using wf' k len by auto
  show "preserves L (ram m) (ram m')"
    unfolding k(3) by (rule kheap.write_preserves [OF wf k(1) mod])
qed

lemma loading_data: "loading g L base img sd buf_len m \<Longrightarrow> img \<noteq> [] \<Longrightarrow> sd_data sd \<noteq> 0"
  by (auto simp: loading_def image_ok_def dest: kheap.live_word_range)

lemma srec_end_step:
  assumes ok: "loading g L base img sd buf_len m" and img: "img \<noteq> []" "length img < 4294967296"
    and line: "line_in line (encode_record (10 - ty) (be_bytes (ty + 1) entry))" and ty: "1 \<le> ty" "ty \<le> 3"
    and entry: "base \<le> entry" "entry < base + length img" "base + length img \<le> 256 ^ (ty + 1)"
  shows "\<exists>sd' m'. srec_end_record g line (10 - ty) sd buf_len m = Some (Srec_return 0 sd' m') \<and>
    loading g L base img sd' buf_len m' \<and> sd_start_address sd' = adr (entry - base) \<and> preserves L (ram m) (ram m')"
proof -
  have pos: "(4::nat) = 2 + 2 * length [word_of_nat (length (be_bytes (ty + 1) entry) + 1) :: u8]"
    "2 * (11 - (10 - ty)) = 2 * length (be_bytes (ty + 1) entry)"
    using ty by simp_all
  have "coded line 4 (be_bytes (ty + 1) entry)"
    using line_in_record(3) [OF line] unfolding coded_append pos by simp_all
  moreover have "entry < 256 ^ (ty + 1)"
    using entry by linarith
  ultimately have start: "readhex line 4 (2 * (11 - (10 - ty))) = adr entry"
    using readhex_holds pos(2) be_value_be_bytes by metis
  have off: "sd_offset sd = adr base"
    using ok img by (auto simp: loading_def)
  have diff: "adr entry - adr base = adr (entry - base)"
    using entry(1) by (simp only: of_nat_diff)
  have len: "sd_data_len sd = adr (length img)"
    using ok by (simp add: loading_def image_ok_def)
  have lt: "\<not> adr (entry - base) \<ge> sd_data_len sd"
  proof -
    have "unat (adr (entry - base)) = entry - base" "unat (adr (length img)) = length img"
      using img(2) entry by (simp_all add: unat_of_nat)
    then show ?thesis
      using entry(1,2) unfolding len by (simp add: word_le_nat_alt)
  qed
  define sd' where "sd' = sd\<lparr>sd_start_address := adr (entry - base)\<rparr>"
  define m' where "m' = m\<lparr>ram := bzero (sd_data sd' + sd_data_len sd') (buf_len - sd_data_len sd') (ram m)\<rparr>"
  have "srec_end_record g line (10 - ty) sd buf_len m = Some (Srec_return 0 sd' m')"
    using lt unfolding srec_end_record_def Let_def start off diff m'_def sd'_def by simp
  moreover have ok': "loading g L base img sd' buf_len m"
    using ok by (simp add: sd'_def loading_def image_ok_def)
  then have "image_ok g L img sd' buf_len m"
    unfolding loading_def by (rule conjunct1)
  from image_clear_tail [OF this loading_data [OF ok' img(1)] img(2) m'_def]
  have "loading g L base img sd' buf_len m'" "preserves L (ram m) (ram m')"
    using ok' by (simp_all add: loading_def)
  moreover have "sd_start_address sd' = adr (entry - base)"
    by (simp add: sd'_def)
  ultimately show ?thesis
    by blast
qed

lemma loading_start:
  assumes "heap_wf (g_kheap g) (ram m) bs"
  shows "loading g (live (unat (start (g_kheap g))) bs) base []
    \<lparr>sd_start_address = 0, sd_offset = 0, sd_data_records = 0, sd_data = 0, sd_data_len = 0, sd_line = 0, sd_error = se_ok\<rparr> 0 m"
  using assms by (auto simp: loading_def image_ok_def)

lemma end_record_line:
  assumes line: "line_in line (encode_record (10 - ty) (be_bytes (ty + 1) entry))" and ty: "1 \<le> ty" "ty \<le> 3"
  shows "srec_line g line (2 * length (be_bytes (ty + 1) entry) + 6) sd buf_len m = srec_end_record g line (10 - ty) sd buf_len m"
proof -
  have "10 - ty \<noteq> 0" "\<not> 10 - ty \<le> 3" "10 - ty \<noteq> 5" "7 \<le> 10 - ty" "10 - ty \<le> 9" "10 - ty \<noteq> 6"
    "be_bytes (ty + 1) entry \<noteq> []" "length (be_bytes (ty + 1) entry) \<le> 124"
    using ty by (simp_all only: length_be_bytes be_bytes.simps) auto
  note n = this
  show ?thesis
    unfolding srec_line_record [OF line n(5-8)] by (simp only: n if_False if_True)
qed

lemma srec_file_loaded:
  assumes wf: "heap_wf (g_kheap g) (ram m) bs" and ty: "1 \<le> ty" "ty \<le> 3"
    and chunks: "chunks \<noteq> []" "\<forall>c \<in> set chunks. c \<noteq> [] \<and> length c + ty \<le> 123"
    and fit: "base + length (concat chunks) \<le> 256 ^ (ty + 1)" "length (concat chunks) + 32772 \<le> 4294967296"
    and entry: "base \<le> entry" "entry < base + length (concat chunks)"
  defines "L \<equiv> live (unat (start (g_kheap g))) bs" and "n \<equiv> length (concat chunks)"
  shows "(\<exists>sd input' m'. srec g line (srec_file ty base chunks entry @ rest) m = Some (1, sd, input', m') \<and>
       out_of_room g L n (ram m) sd m') \<or>
     (\<exists>sd m' buf_len. srec g line (srec_file ty base chunks entry @ rest) m = Some (0, sd, rest, m') \<and>
       loading g L base (concat chunks) sd buf_len m' \<and> sd_start_address sd = adr (entry - base) \<and> preserves L (ram m) (ram m'))"
proof -
  let ?sd = "\<lparr>sd_start_address = 0, sd_offset = 0, sd_data_records = 0, sd_data = 0, sd_data_len = 0, sd_line = 0, sd_error = se_ok\<rparr>"
  let ?last = "encode_record (10 - ty) (be_bytes (ty + 1) entry)"
  have run: "srec g line (srec_file ty base chunks entry @ rest) m =
      srec_loop g line ?sd 0 (data_lines ty (base + length []) chunks @ (?last @ CHR 0x0D # rest)) m"
    by (simp add: srec_def srec_file_def)
  have "base + length [] + length (concat chunks) \<le> 256 ^ (ty + 1)" "length [] + length (concat chunks) + 32772 \<le> 4294967296"
    using fit by simp_all
  from srec_loop_data [OF loading_start [OF wf, of base] ty chunks(2) this, of line "?last @ CHR 0x0D # rest",
      folded run L_def]
  show ?thesis
  proof (elim disjE exE conjE)
    fix sd input' m'
    assume "srec g line (srec_file ty base chunks entry @ rest) m = Some (1, sd, input', m')"
      "out_of_room g L (length [] + length (concat chunks)) (ram m) sd m'"
    then show ?thesis
      unfolding n_def by auto
  next
    fix line' sd buf_len m'
    assume s: "srec g line (srec_file ty base chunks entry @ rest) m = srec_loop g line' sd buf_len (?last @ CHR 0x0D # rest) m'"
      "loading g L base ([] @ concat chunks) sd buf_len m'" "preserves L (ram m) (ram m')"
    have len: "10 - ty \<le> 9" "be_bytes (ty + 1) entry \<noteq> []" "length (be_bytes (ty + 1) entry) \<le> 124"
      using ty by simp_all
    obtain b where b: "line_in b ?last" and turn: "srec_loop g line' sd buf_len (?last @ CHR 0x0D # rest) m' =
        (case srec_end_record g b (10 - ty) (sd\<lparr>sd_line := sd_line sd + 1\<rparr>) buf_len m' of
           None \<Rightarrow> None
         | Some (Srec_return r sd m) \<Rightarrow> Some (r, sd, rest, m)
         | Some (Srec_next sd buf_len m) \<Rightarrow> srec_loop g b sd buf_len rest m)"
      using srec_loop_record [OF len, of g line' sd buf_len rest m'] end_record_line [OF _ ty] by metis
    have ld: "loading g L base (concat chunks) (sd\<lparr>sd_line := sd_line sd + 1\<rparr>) buf_len m'"
      using s(2) by simp
    have img: "concat chunks \<noteq> []" "length (concat chunks) < 4294967296"
      using chunks fit(2) by (cases chunks; simp)+
    obtain sd2 m2 where "srec_end_record g b (10 - ty) (sd\<lparr>sd_line := sd_line sd + 1\<rparr>) buf_len m' = Some (Srec_return 0 sd2 m2)"
      "loading g L base (concat chunks) sd2 buf_len m2" "sd_start_address sd2 = adr (entry - base)" "preserves L (ram m') (ram m2)"
      using srec_end_step [OF ld img b ty entry fit(1)] by blast
    moreover from this have "srec g line (srec_file ty base chunks entry @ rest) m = Some (0, sd2, rest, m2)"
      unfolding s(1) turn by simp
    ultimately show ?thesis
      using preserves_trans [OF s(3)] by blast
  qed
qed

subsection \<open>Damaged records\<close>

text \<open>Any well-formed line: the count and checksum tests in terms of its bytes.\<close>

lemma srec_line_rejects:
  fixes ty :: nat
  assumes line: "line_in line ([CHR ''S'', char_of (48 + ty)] @ hex_bytes (bs @ [chk]))"
    and ty: "ty \<le> 9" "ty \<noteq> 6" and bs: "2 \<le> length bs"
    and bad: "sum_list (bs @ [chk]) \<noteq> 0xFF"
  shows "srec_line g line (2 * length bs + 4) sd buf_len m = srec_err g sd se_bad_line_length m \<or>
    srec_line g line (2 * length bs + 4) sd buf_len m = srec_err g sd se_bad_checksum m"
proof -
  note l = line_in_hex [OF line]
  have t: "(of_char (line 1) :: nat) = 48 + ty"
    unfolding l(2) using ty by simp
  have h: "coded line 2 bs" "coded line (2 + 2 * length bs) [chk]"
    using l(3) unfolding coded_append by simp_all
  have e: "2 + 2 * length bs = 2 * length bs + 4 - 2" "(2 * length bs + 4 - 4) div 2 = length bs"
    "2 + 2 * length (bs @ [chk]) = 2 * length bs + 4"
    by simp_all
  have chk: "readhex line (2 * length bs + 4 - 2) 2 = ucast chk"
    using readhex_holds [OF h(2) [unfolded e(1)], of 2] by (simp add: be_value_def)
  have sum: "sum_bytes line 2 (length bs) = sum_list (map ucast bs)"
    using sum_bytes_holds [OF h(1)] .
  have "map line [2..<2 + 2 * length (bs @ [chk])] = hex_bytes (bs @ [chk])"
    using l(3) unfolding coded_def .
  then have "list_all isxdigit (map line [2..<2 * length bs + 4])"
    unfolding e(3) by (simp only: hex_bytes_plain)
  then have xd: "list_all (\<lambda>i. isxdigit (line i)) [2..<2 * length bs + 4]"
    by (simp only: list.pred_map o_def)
  have "(ucast (NOT (sum_list bs)) :: u32) \<noteq> ucast chk"
  proof
    assume "(ucast (NOT (sum_list bs)) :: u32) = ucast chk"
    then have "NOT (sum_list bs) = chk"
      by (metis ucast_down_up)
    then have "sum_list (bs @ [chk]) = sum_list bs + NOT (sum_list bs)"
      by simp
    also have "\<dots> = 0xFF"
      by (simp add: not_eq_complement)
    finally show False
      using bad by blast
  qed
  then have "NOT (sum_list (map ucast bs) :: u32) AND 0xff \<noteq> ucast chk"
    unfolding checksum_byte .
  then show ?thesis
    using ty bs unfolding srec_line_def t e(2) chk sum
    by (simp add: l(1) xd Let_def)
qed

lemma sum_list_upd: "i < length bs \<Longrightarrow> sum_list (bs[i := x]) = sum_list bs - bs ! i + (x :: u8)"
  by (induction bs arbitrary: i) (auto split: nat.splits)

lemma sum_list_record: "sum_list ((b # bs) @ [NOT (sum_list (b # bs))]) = (0xFF :: u8)"
proof -
  have "sum_list ((b # bs) @ [NOT (sum_list (b # bs))]) = sum_list (b # bs) + NOT (sum_list (b # bs))"
    by (simp only: sum_list.append sum_list.Cons sum_list.Nil add_0_right)
  then show ?thesis
    by (simp add: not_eq_complement)
qed

definition record_bytes :: "u8 list \<Rightarrow> u8 list" where
  "record_bytes payload =
     (word_of_nat (length payload + 1) # payload) @ [NOT (sum_list (word_of_nat (length payload + 1) # payload))]"

lemma encode_record_bytes: "encode_record ty payload = [CHR ''S'', char_of (48 + ty)] @ hex_bytes (record_bytes payload)"
  by (simp only: encode_record_def record_bytes_def Let_def)

lemma damaged_record_rejected:
  fixes ty :: nat
  assumes line: "line_in line ([CHR ''S'', char_of (48 + ty)] @ hex_bytes ((record_bytes payload)[i := x]))"
    and ty: "ty \<le> 9" "ty \<noteq> 6" and payload: "payload \<noteq> []"
    and x: "i < length (record_bytes payload)" "x \<noteq> record_bytes payload ! i"
  shows "srec_line g line (2 * length payload + 6) sd buf_len m = srec_err g sd se_bad_line_length m \<or>
    srec_line g line (2 * length payload + 6) sd buf_len m = srec_err g sd se_bad_checksum m"
proof -
  let ?bs = "(record_bytes payload)[i := x]"
  have len: "length ?bs = length payload + 2"
    unfolding length_list_update by (simp add: record_bytes_def)
  then have b: "?bs = butlast ?bs @ [last ?bs]"
    by (metis append_butlast_last_id list.size(3) add_is_0 zero_neq_numeral)
  have n: "length (butlast ?bs) = length payload + 1" "2 * length (butlast ?bs) + 4 = 2 * length payload + 6"
    using len by simp_all
  have "sum_list ?bs = sum_list (record_bytes payload) - record_bytes payload ! i + x"
    by (rule sum_list_upd [OF x(1)])
  also have "\<dots> = 0xFF - record_bytes payload ! i + x"
    unfolding record_bytes_def sum_list_record ..
  also have "\<dots> \<noteq> 0xFF"
    using x(2) by (metis add.commute add_diff_eq add_right_cancel diff_add_cancel)
  finally have bad: "sum_list (butlast ?bs @ [last ?bs]) \<noteq> 0xFF"
    using b by simp
  have "2 \<le> length (butlast ?bs)"
    unfolding n(1) using payload by (cases payload) simp_all
  have "line_in line ([CHR ''S'', char_of (48 + ty)] @ hex_bytes (butlast ?bs @ [last ?bs]))"
    using line by (simp only: b [symmetric])
  from srec_line_rejects [OF this ty \<open>2 \<le> length (butlast ?bs)\<close> bad]
  show ?thesis
    unfolding n(2) .
qed

subsection \<open>Properties\<close>

text \<open>
  C29: \<^verbatim>\<open>srec()\<close> loads what an S-record writer emits.  For a file of data records of type
  S1, S2 or S3 that carry consecutive chunks of an image, closed by the matching end record, it
  consumes the whole file and returns 0 with the block of the kernel heap holding exactly the
  image, the length and the start offset set and every other live region of the heap unchanged;
  or it returns 1 with \<^verbatim>\<open>SREC_OUT_OF_MEMORY\<close>, and then the heap indeed had no free block for the
  buffer it asked for.
\<close>

theorem srec_loads_file:
  assumes "heap_wf (g_kheap g) (ram m) bs" "1 \<le> ty" "ty \<le> 3"
    and "chunks \<noteq> []" "\<forall>c \<in> set chunks. c \<noteq> [] \<and> length c + ty \<le> 123"
    and "base + length (concat chunks) \<le> 256 ^ (ty + 1)" "length (concat chunks) + 32772 \<le> 4294967296"
    and "base \<le> entry" "entry < base + length (concat chunks)"
  shows "(\<exists>sd m' bs' k. srec g line (srec_file ty base chunks entry @ rest) m = Some (0, sd, rest, m') \<and>
       sd_error sd = se_ok \<and> sd_data_len sd = adr (length (concat chunks)) \<and> sd_start_address sd = adr (entry - base) \<and>
       heap_wf (g_kheap g) (ram m') bs' \<and>
       live (unat (start (g_kheap g))) bs' = (live (unat (start (g_kheap g))) bs)(unat (sd_data sd) \<mapsto> k) \<and>
       length (concat chunks) \<le> k \<and>
       (\<forall>i < length (concat chunks). ram m' (adr (unat (sd_data sd) + i)) = concat chunks ! i) \<and>
       preserves (live (unat (start (g_kheap g))) bs) (ram m) (ram m')) \<or>
     (\<exists>sd input' m' bs' n. srec g line (srec_file ty base chunks entry @ rest) m = Some (1, sd, input', m') \<and>
       sd_error sd = se_out_of_memory \<and> sd_data sd = 0 \<and>
       heap_wf (g_kheap g) (ram m') bs' \<and> n \<le> length (concat chunks) + 32768 \<and> a_malloc (align4 n) bs' = None \<and>
       preserves (live (unat (start (g_kheap g))) bs) (ram m) (ram m'))"
  using srec_file_loaded [OF assms, of line rest]
proof (elim disjE exE conjE)
  fix sd input' m'
  assume "srec g line (srec_file ty base chunks entry @ rest) m = Some (1, sd, input', m')"
    "out_of_room g (live (unat (start (g_kheap g))) bs) (length (concat chunks)) (ram m) sd m'"
  then show ?thesis
    unfolding out_of_room_def heap_full_def by blast
next
  fix sd m' buf_len
  assume s: "srec g line (srec_file ty base chunks entry @ rest) m = Some (0, sd, rest, m')"
    "loading g (live (unat (start (g_kheap g))) bs) base (concat chunks) sd buf_len m'"
    "sd_start_address sd = adr (entry - base)" "preserves (live (unat (start (g_kheap g))) bs) (ram m) (ram m')"
  have "concat chunks \<noteq> []"
    using assms(4,5) by (cases chunks) simp_all
  note nz = loading_data [OF s(2) this]
  have i: "sd_error sd = se_ok" "sd_data_len sd = adr (length (concat chunks))" "length (concat chunks) \<le> unat buf_len"
    using s(2) by (simp_all add: loading_def image_ok_def)
  obtain bs' k where b: "heap_wf (g_kheap g) (ram m') bs'" "live (unat (start (g_kheap g))) bs' (unat (sd_data sd)) = Some k"
    "unat buf_len \<le> k"
    "live (unat (start (g_kheap g))) bs = (live (unat (start (g_kheap g))) bs')(unat (sd_data sd) := None)"
    "\<forall>i < length (concat chunks). ram m' (adr (unat (sd_data sd) + i)) = concat chunks ! i"
    using s(2) nz unfolding loading_def image_ok_def by blast
  have "live (unat (start (g_kheap g))) bs' = (live (unat (start (g_kheap g))) bs)(unat (sd_data sd) \<mapsto> k)"
    unfolding b(4) using b(2) by auto
  then show ?thesis
    using s(1,3,4) i(1,2) b(1,5) order.trans [OF i(3) b(3)] by (intro disjI1 exI conjI)
qed

text \<open>
  C30: The checksum of a record detects every error confined to one byte: a line that differs
  from a record a writer emits in the value of one byte, be it the count, the address, the data or
  the checksum itself, ends the load with a bad line length or a bad checksum, and no byte of it
  reaches the image.
\<close>

theorem srec_detects_byte_error:
  fixes ty :: nat
  assumes "line_in line ([CHR ''S'', char_of (48 + ty)] @ hex_bytes ((record_bytes payload)[i := x]))"
    and "ty \<le> 9" "ty \<noteq> 6" "payload \<noteq> []" "i < length (record_bytes payload)" "x \<noteq> record_bytes payload ! i"
  shows "srec_line g line (2 * length payload + 6) sd buf_len m = srec_err g sd se_bad_line_length m \<or>
    srec_line g line (2 * length payload + 6) sd buf_len m = srec_err g sd se_bad_checksum m"
  by (rule damaged_record_rejected [OF assms])

text \<open>
  The buffer grows by one step of 16384 bytes only.  A data record whose address is further
  ahead is accepted: the loader asks for \<^verbatim>\<open>buf_len + 16384\<close> bytes and stores the record at its
  offset, which is at or behind the end of the block it asked for.
\<close>

theorem srec_gap_overflows:
  assumes "line_in line (encode_record ty (be_bytes (ty + 1) a @ c))" "ty \<le> 3" "c \<noteq> []" "length c + ty \<le> 123"
    and "base \<le> a" "a + length c \<le> 256 ^ (ty + 1)" "sd_data_records sd \<noteq> 0" "sd_offset sd = adr base"
    and "unat buf_len + 16384 \<le> a - base" "krealloc g (sd_data sd) (buf_len + 16384) m = Some (q, m1)" "q \<noteq> 0"
    and "a + length c < 4294967296"
  shows "\<exists>sd' m'. srec_data_record g line ty (word_of_nat (length c + ty + 2)) sd buf_len m =
       Some (Srec_next sd' (buf_len + 16384) m') \<and> sd_data sd' = q \<and>
     ram m' = write_bytes c (q + adr (a - base)) (ram m1) \<and> unat (buf_len + 16384) \<le> a - base"
proof -
  have n: "unat (buf_len + 16384) = unat buf_len + 16384"
    using assms(9,12) by (simp add: unat_word_ariths)
  have "unat (adr (a - base) + adr (length c)) = a - base + length c"
    using assms(12) by (simp add: unat_word_ariths unat_of_nat)
  then have "adr (a - base) + adr (length c) > buf_len"
    using assms(9) by (simp add: word_less_nat_alt)
  then show ?thesis
    using srec_data_record_run [OF assms(1-6), of sd g buf_len m] assms(7-11) n
    by (auto simp: Let_def)
qed

theorem srec_loads_file_witness:
  "\<exists>r sd input m'. srec big_ctxs (\<lambda>_. CHR 0x00) (srec_file 1 0x1000 [[0x4E, 0x71], [0x60]] 0x1002)
       (snd (heap_init 4096 65536 reset_machine)) = Some (r, sd, input, m') \<and>
     (r = 0 \<and> sd_data_len sd = 3 \<and> sd_start_address sd = 2 \<and> ram m' (adr (unat (sd_data sd) + 1)) = 0x71 \<or>
      r = 1 \<and> sd_error sd = se_out_of_memory)"
proof -
  let ?cs = "[[0x4E, 0x71], [0x60]] :: u8 list list"
  have p: "(1 :: nat) \<le> 1" "(1 :: nat) \<le> 3" "?cs \<noteq> []" "\<forall>c \<in> set ?cs. c \<noteq> [] \<and> length c + 1 \<le> 123"
    "4096 + length (concat ?cs) \<le> 256 ^ (1 + 1)" "length (concat ?cs) + 32772 \<le> 4294967296"
    "4096 \<le> (4098 :: nat)" "4098 < 4096 + length (concat ?cs)"
    by simp_all
  have l: "concat ?cs ! 1 = 0x71" "1 < length (concat ?cs)" "adr (length (concat ?cs)) = 3" "adr (4098 - 4096) = 2"
    by (simp_all add: of_nat_Suc)
  from srec_loads_file [OF big_ctxs_wf p, of "\<lambda>_. CHR 0x00" "[]"]
  show ?thesis
  proof (elim disjE exE conjE)
    fix sd m' bs' k
    assume a: "srec big_ctxs (\<lambda>_. CHR 0x00) (srec_file 1 4096 ?cs 4098 @ []) (snd (heap_init 4096 65536 reset_machine)) = Some (0, sd, [], m')"
      "sd_data_len sd = adr (length (concat ?cs))" "sd_start_address sd = adr (4098 - 4096)"
      "\<forall>i < length (concat ?cs). ram m' (adr (unat (sd_data sd) + i)) = concat ?cs ! i"
    show ?thesis
      using a(1) [unfolded append_Nil2] a(2,3) a(4) [rule_format, OF l(2)] unfolding l by (intro exI conjI disjI1) simp_all
  next
    fix sd input' m'
    assume a: "srec big_ctxs (\<lambda>_. CHR 0x00) (srec_file 1 4096 ?cs 4098 @ []) (snd (heap_init 4096 65536 reset_machine)) = Some (1, sd, input', m')"
      "sd_error sd = se_out_of_memory"
    show ?thesis
      using a(1) [unfolded append_Nil2] a(2) by (intro exI conjI disjI2) simp_all
  qed
qed

definition damaged_line :: "nat \<Rightarrow> char" where
  "damaged_line i = (if i < 10 then ''S9030008FC'' ! i else CHR 0x00)"

theorem srec_detects_byte_error_witness:
  "\<forall>sd m. srec_line big_ctxs damaged_line 10 sd 0 m = srec_err big_ctxs sd se_bad_line_length m \<or>
   srec_line big_ctxs damaged_line 10 sd 0 m = srec_err big_ctxs sd se_bad_checksum m"
proof -
  have rb: "record_bytes [0, 0] = [3, 0, 0, 0xFC]"
    by (simp add: record_bytes_def of_nat_Suc)
  have "line_in damaged_line ([CHR ''S'', char_of (48 + 9 :: nat)] @ hex_bytes ((record_bytes [0, 0])[2 := 8]))"
  proof -
    have "[CHR ''S'', char_of (48 + 9 :: nat)] @ hex_bytes ((record_bytes [0, 0])[2 := 8]) = ''S9030008FC''"
      unfolding rb by (simp add: hex_byte_def nibble_def list_update_code char_of_def bit_0)
    then show ?thesis
      by (simp only:) (simp add: line_in_def damaged_line_def)
  qed
  then show ?thesis
    using srec_detects_byte_error [of damaged_line 9 "[0, 0]" 2 8 big_ctxs _ 0] unfolding rb by simp
qed

definition line_of :: "string \<Rightarrow> nat \<Rightarrow> char" where
  "line_of t i = (if i < length t then t ! i else CHR 0x00)"

lemma line_in_line_of: "line_in (line_of t) t"
  by (simp add: line_in_def line_of_def)

lemma big_ctxs_realloc: "\<exists>m1. krealloc big_ctxs 0 16384 (snd (heap_init 4096 65536 reset_machine)) = Some (4104, m1)"
proof -
  have "start (g_kheap big_ctxs) = 4096"
    by (simp add: big_ctxs_def heap_init_def Let_def)
  then show ?thesis
    using heap_malloc_refines [OF big_ctxs_wf, of 16384]
    by (auto simp: align4_def krealloc_def heap_realloc_def)
qed

theorem srec_gap_overflows_witness:
  "\<exists>sd' m'. srec_data_record big_ctxs (line_of (encode_record 1 (be_bytes (1 + 1) 36864 @ [7]))) 1
       (word_of_nat (length [7 :: u8] + 1 + 2))
       \<lparr>sd_start_address = 0, sd_offset = adr 4096, sd_data_records = 1, sd_data = 0, sd_data_len = 0, sd_line = 1, sd_error = se_ok\<rparr>
       0 (snd (heap_init 4096 65536 reset_machine)) = Some (Srec_next sd' 16384 m') \<and>
     sd_data sd' = 4104 \<and> ram m' 36872 = 7"
proof -
  let ?sd = "\<lparr>sd_start_address = 0, sd_offset = adr 4096, sd_data_records = 1, sd_data = 0, sd_data_len = 0, sd_line = 1, sd_error = se_ok\<rparr>"
  let ?m = "snd (heap_init 4096 65536 reset_machine)"
  obtain m1 where m1: "krealloc big_ctxs (sd_data ?sd) (0 + 16384) ?m = Some (4104, m1)"
    using big_ctxs_realloc by auto
  have p: "(1 :: nat) \<le> 3" "[7 :: u8] \<noteq> []" "length [7 :: u8] + 1 \<le> 123" "(4096 :: nat) \<le> 36864"
    "36864 + length [7 :: u8] \<le> 256 ^ (1 + 1)" "sd_data_records ?sd \<noteq> 0" "sd_offset ?sd = adr 4096"
    "unat (0 :: u32) + 16384 \<le> 36864 - 4096" "(4104 :: u32) \<noteq> 0" "36864 + length [7 :: u8] < 4294967296"
    by simp_all
  have w: "write_bytes [7] (4104 + adr (36864 - 4096)) r = r(36872 := 7)" for r
    by simp
  from srec_gap_overflows [OF line_in_line_of p(1-8) m1 p(9,10)] show ?thesis
    unfolding w by auto
qed

end
