(* ===== verification/Slab.thy ===== *)
theory Slab
  imports Allocator CMem "HOL-Library.Monad_Syntax"
begin

text \<open>
  The slab allocator, \<^verbatim>\<open>kernel/memory/slab.c\<close>: slabs of 1024 bytes with a header, an allocation
  bitmap and objects of one size, \<open>2 ^ radix\<close> bytes.  The state is the three region pointers and
  the list heads \<^verbatim>\<open>g_slabs\<close> with the machine; headers and bitmaps are bytes of the memory.
  Local counters that cannot overflow for the six radices are natural numbers.  \<open>None\<close> is a
  search that does not end.
\<close>

record slab_ctx =
  g_slab_start :: u32
  g_slab_next :: u32
  g_slab_end :: u32
  g_slabs :: "u32 list"

type_synonym slabs = "slab_ctx \<times> machine"

definition SLAB_MIN_RADIX :: nat where "SLAB_MIN_RADIX = 1"
definition SLAB_MAX_RADIX :: nat where "SLAB_MAX_RADIX = 6"
definition SLAB_SIZE_LOG2 :: nat where "SLAB_SIZE_LOG2 = 10"
definition SLAB_SIZE :: u32 where "SLAB_SIZE = push_bit SLAB_SIZE_LOG2 1"
definition SLAB_MAX_SIZE :: u32 where "SLAB_MAX_SIZE = push_bit SLAB_MAX_RADIX 1"

text \<open>The members of a slab header at \<open>p\<close>; the structure has eight bytes.\<close>

definition hdr_next :: "mem \<Rightarrow> u32 \<Rightarrow> u32" where "hdr_next m p = load32 m p"
definition hdr_free :: "mem \<Rightarrow> u32 \<Rightarrow> u16" where "hdr_free m p = load16 m (p + 4)"
definition hdr_radix :: "mem \<Rightarrow> u32 \<Rightarrow> u8" where "hdr_radix m p = m (p + 6)"
definition slab_header_size :: nat where "slab_header_size = 8"

definition ROUND_UP_PWR2 :: "u32 \<Rightarrow> u8" where
  "ROUND_UP_PWR2 x =
     (let x = ucast x - 1 :: u8;
          x = x OR drop_bit 1 x;
          x = x OR drop_bit 2 x;
          x = x OR drop_bit 4 x
      in x + 1)"

definition slab_init :: "u32 \<Rightarrow> u32 \<Rightarrow> slab_ctx" where
  "slab_init start len = \<lparr>g_slab_start = start, g_slab_next = start, g_slab_end = start + len,
     g_slabs = replicate (SLAB_MAX_RADIX - SLAB_MIN_RADIX + 1) 0\<rparr>"

text \<open>The two loops over the bitmap bytes of reserved objects.\<close>

fun mark_first :: "nat \<Rightarrow> u32 \<Rightarrow> mem \<Rightarrow> nat \<times> u32 \<times> mem" where
  "mark_first reserved bitmap m =
     (if reserved > 8 then mark_first (reserved - 8) (bitmap + 1) (m(bitmap := 0xff)) else (reserved, bitmap, m))"

fun mark_last :: "nat \<Rightarrow> u32 \<Rightarrow> mem \<Rightarrow> nat \<times> u32 \<times> mem" where
  "mark_last reserved bitmap m =
     (if reserved > 8 then mark_last (reserved - 8) (bitmap - 1) (m(bitmap := 0xff)) else (reserved, bitmap, m))"

declare mark_first.simps [simp del] mark_last.simps [simp del]

definition slab_nobjs :: "nat \<Rightarrow> nat" where
  "slab_nobjs radix = push_bit (SLAB_SIZE_LOG2 - radix) 1"

definition bitmap_len_bytes :: "nat \<Rightarrow> nat" where
  "bitmap_len_bytes radix = drop_bit 3 (slab_nobjs radix + 7)"

definition reserved_objs :: "nat \<Rightarrow> nat" where
  "reserved_objs radix = drop_bit radix ((slab_header_size + bitmap_len_bytes radix) + (push_bit radix 1 - 1))"

definition end_reserved_objs :: "nat \<Rightarrow> nat" where
  "end_reserved_objs radix = bitmap_len_bytes radix * 8 - slab_nobjs radix"

text \<open>
  The result is the return value and the new header; the caller of the C function gets the
  header through the last argument.
\<close>

definition slab_create :: "nat \<Rightarrow> u32 \<Rightarrow> slabs \<Rightarrow> int \<times> u32 \<times> slabs" where
  "slab_create radix prev cs = (case cs of (c, s) \<Rightarrow>
     (if radix < SLAB_MIN_RADIX \<or> radix > SLAB_MAX_RADIX then (- 22, 0, cs)
      else if g_slab_next c \<ge> g_slab_end c then (- 12, 0, cs)
      else let hdr = g_slab_next c;
          c = c\<lparr>g_slab_next := g_slab_next c + SLAB_SIZE\<rparr>;
          bitmap = hdr + adr slab_header_size;
          free = slab_nobjs radix - reserved_objs radix;
          (reserved, bitmap, m) = mark_first (reserved_objs radix) bitmap (ram s);
          m = m(bitmap := push_bit reserved 1 - 1);
          free = free - end_reserved_objs radix;
          bitmap = hdr + adr slab_header_size + (adr (bitmap_len_bytes radix) - 1);
          (reserved, bitmap, m) = mark_last (end_reserved_objs radix) bitmap m;
          m = m(bitmap := NOT (drop_bit reserved 0xff));
          m = store32 m hdr 0;
          m = store16 m (hdr + 4) (word_of_nat free);
          m = m(hdr + 6 := word_of_nat radix);
          m = (if prev \<noteq> 0 then store32 m prev hdr else m)
        in (0, hdr, (c, s\<lparr>ram := m\<rparr>))))"

function log_loop :: "u32 \<Rightarrow> nat \<Rightarrow> nat" where
  "log_loop sz radix = (if sz = 0 then radix else log_loop (drop_bit 1 sz) (radix + 1))"
  by auto
termination
proof (relation "measure (\<lambda>(sz, radix). unat sz)")
  fix sz :: u32 and radix :: nat assume "sz \<noteq> 0"
  then have "0 < unat sz"
    by (simp add: unat_gt_0)
  then have "unat sz div 2 < unat sz"
    by simp
  then show "((drop_bit 1 sz, radix + 1), (sz, radix)) \<in> measure (\<lambda>(sz, radix). unat sz)"
    by (simp add: drop_bit_eq_div unat_div)
qed simp

declare log_loop.simps [simp del]

definition slab_radix :: "u32 \<Rightarrow> nat" where
  "slab_radix sz =
     (let sz = (if sz < push_bit SLAB_MIN_RADIX 1 then push_bit SLAB_MIN_RADIX 1 else ucast (ROUND_UP_PWR2 sz))
      in log_loop (drop_bit 1 sz) 0)"

text \<open>The slab found is 0 when a new one was needed and could not be made.\<close>

partial_function (option) slab_walk :: "nat \<Rightarrow> u32 \<Rightarrow> slabs \<Rightarrow> (u32 \<times> slabs) option" where
  "slab_walk radix slab cs =
     (if hdr_free (ram (snd cs)) slab \<noteq> 0 then Some (slab, cs)
      else if hdr_next (ram (snd cs)) slab = 0
      then (case slab_create radix slab cs of (ret, hdr, cs) \<Rightarrow>
              if ret \<noteq> 0 then Some (0, cs) else slab_walk radix (hdr_next (ram (snd cs)) slab) cs)
      else slab_walk radix (hdr_next (ram (snd cs)) slab) cs)"

partial_function (option) find_byte :: "u16 \<Rightarrow> u32 \<Rightarrow> mem \<Rightarrow> (u16 \<times> u32) option" where
  "find_byte obj bitmap m =
     (if m bitmap = 0xff then find_byte (obj + 8) (bitmap + 1) m else Some (obj, bitmap))"

partial_function (option) find_bit :: "u16 \<Rightarrow> u8 \<Rightarrow> u8 \<Rightarrow> (u16 \<times> u8) option" where
  "find_bit obj flag byte =
     (if byte AND flag \<noteq> 0 then find_bit (obj + 1) (push_bit 1 flag) byte else Some (obj, flag))"

text \<open>Taking an object of a slab that is not full.\<close>

definition slab_take :: "nat \<Rightarrow> u32 \<Rightarrow> mem \<Rightarrow> (u32 \<times> mem) option" where
  "slab_take radix slab m = do {
     (obj, bitmap) \<leftarrow> find_byte 0 (slab + adr slab_header_size) m;
     (obj, flag) \<leftarrow> find_bit obj 1 (m bitmap);
     let m = m(bitmap := m bitmap OR flag);
     let m = store16 m (slab + 4) (hdr_free m slab - 1);
     Some (slab + push_bit radix (ucast obj), m)
   }"

definition slab_alloc :: "u32 \<Rightarrow> slabs \<Rightarrow> (u32 \<times> slabs) option" where
  "slab_alloc sz cs =
     (if sz = 0 then Some (0, cs)
      else if sz > push_bit SLAB_MAX_RADIX 1 then Some (0, cs)
      else let radix = slab_radix sz;
          (c, s) = cs;
          slab = g_slabs c ! (radix - SLAB_MIN_RADIX);
          s = preempt_disable s
        in do {
          (slab, c, s) \<leftarrow>
            (if slab = 0
             then (case slab_create radix 0 (c, s) of (ret, hdr, c, s) \<Rightarrow>
                     if ret \<noteq> 0 then Some (0, c, s)
                     else let c = c\<lparr>g_slabs := (g_slabs c)[radix - SLAB_MIN_RADIX := hdr]\<rparr>
                       in Some (g_slabs c ! (radix - SLAB_MIN_RADIX), c, s))
             else slab_walk radix slab (c, s));
          if slab = 0 then Some (0, c, preempt_enable s)
          else do {
            (p, m) \<leftarrow> slab_take radix slab (ram s);
            Some (p, c, preempt_enable (s\<lparr>ram := m\<rparr>))
          }
        })"

definition slab_calloc :: "u32 \<Rightarrow> slabs \<Rightarrow> (u32 \<times> slabs) option" where
  "slab_calloc sz cs = do {
     (p, c, s) \<leftarrow> slab_alloc sz cs;
     if p = 0 then Some (0, c, s) else Some (p, c, s\<lparr>ram := bzero p sz (ram s)\<rparr>)
   }"

definition slab_free :: "u32 \<Rightarrow> slabs \<Rightarrow> slabs option" where
  "slab_free obj cs = (case cs of (c, s) \<Rightarrow>
     (if obj = 0 then Some cs
      else let slab = obj AND NOT (SLAB_SIZE - 1);
          offset = ucast (drop_bit (unat (hdr_radix (ram s) slab)) (obj AND (SLAB_SIZE - 1))) :: u16;
          bitmap = slab + adr slab_header_size + ucast (drop_bit 3 offset);
          flag = push_bit (unat (offset AND 7)) 1 :: u8;
          m = ram s
        in if m bitmap AND flag \<noteq> 0
           then let m = m(bitmap := m bitmap AND NOT flag)
             in Some (c, s\<lparr>ram := store16 m (slab + 4) (hdr_free m slab + 1)\<rparr>)
           else Some cs))"

partial_function (option) stats_loop :: "nat \<Rightarrow> u32 \<Rightarrow> u32 \<Rightarrow> u32 \<Rightarrow> mem \<Rightarrow> (u32 \<times> u32) option" where
  "stats_loop radix slab tot free m =
     (if slab = 0 then Some (tot, free)
      else stats_loop radix (hdr_next m slab)
             (tot + adr (slab_nobjs radix - (reserved_objs radix + end_reserved_objs radix))) (free + ucast (hdr_free m slab)) m)"

definition slab_get_stats :: "nat \<Rightarrow> slabs \<Rightarrow> (int \<times> u32 \<times> u32) option" where
  "slab_get_stats radix cs =
     (if radix < SLAB_MIN_RADIX \<or> radix > SLAB_MAX_RADIX then Some (- 22, 0, 0)
      else do {
        (tot, free) \<leftarrow> stats_loop radix (g_slabs (fst cs) ! (radix - SLAB_MIN_RADIX)) 0 0 (ram (snd cs));
        Some (0, tot, free)
      })"

subsection \<open>Well-formed slabs\<close>

text \<open>
  \<open>R\<close> maps the address of each slab to its radix, \<open>S r\<close> is the list of the slabs of radix
  \<open>r\<close> in the order of their links.  The memory that no slab has used yet is zero: \<open>slab_create\<close>
  relies on it, because it writes the first and the last bytes of the bitmap only.
\<close>

definition slab_used :: "mem \<Rightarrow> nat \<Rightarrow> nat \<Rightarrow> bool" where
  "slab_used m a i \<longleftrightarrow> bit (m (adr (a + 8 + i div 8))) (i mod 8)"

definition slab_unused :: "mem \<Rightarrow> nat \<Rightarrow> nat \<Rightarrow> nat set" where
  "slab_unused m a r = {i. i < 2 ^ (10 - r) \<and> \<not> slab_used m a i}"

definition slab_ok :: "mem \<Rightarrow> nat \<Rightarrow> nat \<Rightarrow> bool" where
  "slab_ok m a r \<longleftrightarrow> hdr_radix m (adr a) = word_of_nat r \<and> hdr_free m (adr a) = word_of_nat (card (slab_unused m a r)) \<and>
     (\<forall>i < reserved_objs r. slab_used m a i)"

fun slab_chain :: "mem \<Rightarrow> u32 \<Rightarrow> nat list \<Rightarrow> bool" where
  "slab_chain m p [] \<longleftrightarrow> p = 0"
| "slab_chain m p (a # as) \<longleftrightarrow> p = adr a \<and> slab_chain m (hdr_next m (adr a)) as"

definition slab_wf :: "slab_ctx \<Rightarrow> mem \<Rightarrow> (nat \<Rightarrow> nat option) \<Rightarrow> (nat \<Rightarrow> nat list) \<Rightarrow> bool" where
  "slab_wf c m R S \<longleftrightarrow>
     length (g_slabs c) = 6 \<and> 0 < unat (g_slab_start c) \<and> unat (g_slab_start c) \<le> unat (g_slab_next c) \<and>
     1024 dvd unat (g_slab_start c) \<and> 1024 dvd unat (g_slab_next c) \<and> 1024 dvd unat (g_slab_end c) \<and>
     (\<forall>r. r \<in> {1..6} \<longrightarrow> slab_chain m (g_slabs c ! (r - 1)) (S r) \<and> distinct (S r) \<and> set (S r) = {a. R a = Some r}) \<and>
     (\<forall>a r. R a = Some r \<longrightarrow> r \<in> {1..6} \<and> 1024 dvd a \<and> unat (g_slab_start c) \<le> a \<and> a + 1024 \<le> unat (g_slab_next c) \<and> slab_ok m a r) \<and>
     (\<forall>x. unat (g_slab_next c) \<le> x \<and> x < unat (g_slab_end c) \<longrightarrow> m (adr x) = 0) \<and> unat (g_slab_next c) \<le> unat (g_slab_end c)"

definition slab_object :: "mem \<Rightarrow> nat \<Rightarrow> nat \<Rightarrow> nat \<Rightarrow> bool" where
  "slab_object m a r i \<longleftrightarrow> reserved_objs r \<le> i \<and> i < 2 ^ (10 - r) \<and> slab_used m a i"

text \<open>The objects in use: the address determines the slab and the number of the object.\<close>

definition slab_live :: "mem \<Rightarrow> (nat \<Rightarrow> nat option) \<Rightarrow> nat \<Rightarrow> nat option" where
  "slab_live m R x = (let a = x div 1024 * 1024 in case R a of
       None \<Rightarrow> None
     | Some r \<Rightarrow> if 2 ^ r dvd x \<and> slab_object m a r ((x - a) div 2 ^ r) then Some (2 ^ r) else None)"

lemma radix_cases: "r \<in> {1..6::nat} \<Longrightarrow> r = 1 \<or> r = 2 \<or> r = 3 \<or> r = 4 \<or> r = 5 \<or> r = 6"
  by auto

lemma slab_geometry:
  assumes "r \<in> {1..6::nat}"
  shows "slab_nobjs r = 2 ^ (10 - r)" "8 * bitmap_len_bytes r = 2 ^ (10 - r)" "end_reserved_objs r = 0"
    "8 + bitmap_len_bytes r \<le> reserved_objs r * 2 ^ r" "0 < reserved_objs r" "reserved_objs r < 2 ^ (10 - r)"
    "(reserved_objs r - 1) div 8 + 1 < bitmap_len_bytes r" "2 ^ (10 - r) * 2 ^ r = (1024 :: nat)" "reserved_objs r \<le> 36"
    "bitmap_len_bytes r \<le> 64" "reserved_objs r + 8 < 2 ^ (10 - r)"
  using radix_cases [OF assms]
  by (elim disjE; simp add: slab_nobjs_def SLAB_SIZE_LOG2_def bitmap_len_bytes_def end_reserved_objs_def reserved_objs_def
      slab_header_size_def push_bit_eq_mult drop_bit_eq_div)+

subsection \<open>Frames\<close>

lemma bit_ff [simp]: "bit (255 :: int) n \<longleftrightarrow> n < 8" "bit (- 256 :: int) n \<longleftrightarrow> \<not> n < 8"
proof -
  have "(255 :: int) = mask 8" "(- 256 :: int) = NOT (mask 8)"
    by (simp_all add: mask_numeral)
  then show "bit (255 :: int) n \<longleftrightarrow> n < 8" "bit (- 256 :: int) n \<longleftrightarrow> \<not> n < 8"
    by (simp_all only: bit_mask_iff bit_not_iff) simp_all
qed

lemma adr_plus: "adr (a + b) = adr a + adr b"
  by (simp only: of_nat_add)

lemma agree_byte: "agree m m' lo hi \<Longrightarrow> lo \<le> x \<Longrightarrow> x < hi \<Longrightarrow> m' (adr x) = m (adr x)"
  by (simp add: agree_def)

lemma hdr_fields:
  "hdr_next m (adr a) = load32 m (adr a)" "hdr_free m (adr a) = load16 m (adr (a + 4))" "hdr_radix m (adr a) = m (adr (a + 6))"
  by (simp_all add: hdr_next_def hdr_free_def hdr_radix_def)

lemma slab_used_agree:
  assumes "agree m m' (a + 8) (a + 8 + bitmap_len_bytes r)" "r \<in> {1..6}" "i < 2 ^ (10 - r)"
  shows "slab_used m' a i = slab_used m a i"
proof -
  have "i div 8 < bitmap_len_bytes r"
    using slab_geometry(2) [OF assms(2)] assms(3) by linarith
  then show ?thesis
    using agree_byte [OF assms(1), of "a + 8 + i div 8"] by (simp add: slab_used_def)
qed

lemma slab_ok_agree:
  assumes "agree m m' (a + 4) (a + 8 + bitmap_len_bytes r)" "r \<in> {1..6}"
  shows "slab_ok m' a r = slab_ok m a r" "slab_object m' a r i = slab_object m a r i"
proof -
  have u: "slab_used m' a i = slab_used m a i" if "i < 2 ^ (10 - r)" for i
    by (rule slab_used_agree [OF _ assms(2) that]) (use agree_mono [OF assms(1)] in simp)
  then have "slab_unused m' a r = slab_unused m a r"
    by (auto simp: slab_unused_def)
  moreover have "hdr_radix m' (adr a) = hdr_radix m (adr a)" "hdr_free m' (adr a) = hdr_free m (adr a)"
    using agree_byte [OF assms(1), of "a + 6"] agree_load16 [OF assms(1), of "a + 4"] by (simp_all add: hdr_fields)
  ultimately show "slab_ok m' a r = slab_ok m a r"
    using u slab_geometry(6) [OF assms(2)] by (auto simp: slab_ok_def)
  show "slab_object m' a r i = slab_object m a r i"
    using u by (auto simp: slab_object_def)
qed

lemma slab_chain_agree:
  "(\<And>a. a \<in> set as \<Longrightarrow> agree m m' a (a + 4)) \<Longrightarrow> slab_chain m' p as = slab_chain m p as"
proof (induction as arbitrary: p)
  case (Cons a as)
  have "hdr_next m' (adr a) = hdr_next m (adr a)"
    using agree_load32 [of m m' a "a + 4" a] Cons.prems [of a] by (simp add: hdr_fields)
  then show ?case
    using Cons.IH [of "hdr_next m (adr a)"] Cons.prems by auto
qed simp

subsection \<open>Creating a slab\<close>

lemma mark_first_run:
  assumes "0 < R" "b + R \<le> 4294967296"
  shows "\<exists>m1. mark_first R (adr b) m = (R - 8 * ((R - 1) div 8), adr (b + (R - 1) div 8), m1) \<and>
    (\<forall>x. b \<le> x \<and> x < b + (R - 1) div 8 \<longrightarrow> m1 (adr x) = 0xff) \<and> modifies m m1 b (b + (R - 1) div 8)"
  using assms
proof (induction R arbitrary: b m rule: less_induct)
  case (less R)
  show ?case
  proof (cases "R > 8")
    case False
    then have "(R - 1) div 8 = 0"
      by simp
    then show ?thesis
      using False mark_first.simps [of R "adr b" m] by auto
  next
    case True
    let ?k = "(R - 8 - 1) div 8" and ?m = "m(adr b := 0xff)"
    have k: "(R - 1) div 8 = Suc ?k"
      using True by linarith
    obtain m1 where m1: "mark_first (R - 8) (adr (b + 1)) ?m = (R - 8 - 8 * ?k, adr (b + 1 + ?k), m1)"
      "\<forall>x. b + 1 \<le> x \<and> x < b + 1 + ?k \<longrightarrow> m1 (adr x) = 0xff" "modifies ?m m1 (b + 1) (b + 1 + ?k)"
    proof -
      have "R - 8 < R" "0 < R - 8" "b + 1 + (R - 8) \<le> 4294967296"
        using True less.prems by simp_all
      from less.IH [OF this, of ?m] show thesis
        using that by blast
    qed
    have bound: "b + 1 + ?k \<le> 4294967296"
      using less.prems(2) True by linarith
    have "m1 (adr b) = 0xff"
      using modifies_at [OF m1(3), of b] bound by simp
    then have "\<forall>x. b \<le> x \<and> x < b + Suc ?k \<longrightarrow> m1 (adr x) = 0xff"
      using m1(2) by (metis Suc_eq_plus1 add_Suc_shift le_neq_implies_less Suc_leI)
    moreover have "modifies m m1 b (b + Suc ?k)"
      by (rule modifies_trans [OF modifies_mono [OF modifies_upd] modifies_mono [OF m1(3)]]) (use bound in simp_all)
    moreover have "mark_first R (adr b) m = (R - 8 * Suc ?k, adr (b + Suc ?k), m1)"
      using True m1(1) mark_first.simps [of R "adr b" m] by simp
    ultimately show ?thesis
      unfolding k by blast
  qed
qed

lemma low_bits: "R \<le> 8 \<Longrightarrow> bit (push_bit R 1 - 1 :: u8) j \<longleftrightarrow> j < R"
  by (simp add: push_bit_eq_mult bit_mask_iff flip: mask_eq_exp_minus_1) auto

text \<open>The bitmap and the header of a new slab at \<open>n\<close>, in memory that is zero.\<close>

definition fresh_slab :: "nat \<Rightarrow> nat \<Rightarrow> mem \<Rightarrow> mem" where
  "fresh_slab r n m =
     (case mark_first (reserved_objs r) (adr (n + 8)) m of (reserved, bitmap, m) \<Rightarrow>
        let m = m(bitmap := push_bit reserved 1 - 1);
            m = m(adr (n + 8 + (bitmap_len_bytes r - 1)) := 0);
            m = store32 m (adr n) 0;
            m = store16 m (adr (n + 4)) (word_of_nat (2 ^ (10 - r) - reserved_objs r))
        in m(adr (n + 6) := word_of_nat r))"

lemma fresh_slab_spec:
  assumes r: "r \<in> {1..6}" and n: "n + 1024 \<le> 4294967296" and z: "\<forall>x. n \<le> x \<and> x < n + 1024 \<longrightarrow> m (adr x) = 0"
  shows "modifies m (fresh_slab r n m) n (n + 1024)" "hdr_next (fresh_slab r n m) (adr n) = 0"
    "slab_ok (fresh_slab r n m) n r" "\<And>i. i < 2 ^ (10 - r) \<Longrightarrow> slab_used (fresh_slab r n m) n i \<longleftrightarrow> i < reserved_objs r"
proof -
  note g = slab_geometry [OF r]
  define R k where "R = reserved_objs r" and "k = (R - 1) div 8"
  have R: "0 < R" "k + 1 < bitmap_len_bytes r" "bitmap_len_bytes r \<le> 64" "R \<le> 36" "R - 8 * k \<le> 8" "0 < R - 8 * k"
    using g(5,7,9,10) unfolding R_def k_def by auto
  obtain m1 where m1: "mark_first R (adr (n + 8)) m = (R - 8 * k, adr (n + 8 + k), m1)"
    "\<forall>x. n + 8 \<le> x \<and> x < n + 8 + k \<longrightarrow> m1 (adr x) = 0xff" "modifies m m1 (n + 8) (n + 8 + k)"
    using mark_first_run [OF R(1), of "n + 8" m] n R(4) unfolding k_def by auto
  let ?m2 = "m1(adr (n + 8 + k) := push_bit (R - 8 * k) 1 - 1)"
  let ?m3 = "?m2(adr (n + 8 + (bitmap_len_bytes r - 1)) := 0)"
  let ?m4 = "store32 ?m3 (adr n) 0"
  let ?m5 = "store16 ?m4 (adr (n + 4)) (word_of_nat (2 ^ (10 - r) - R))"
  let ?m6 = "?m5(adr (n + 6) := word_of_nat r)"
  have e: "fresh_slab r n m = ?m6"
    using m1(1) by (simp add: fresh_slab_def R_def [symmetric])
  have md: "modifies m m1 (n + 8) (n + 72)" "modifies m1 ?m2 (n + 8) (n + 72)" "modifies ?m2 ?m3 (n + 8) (n + 72)"
    "modifies ?m3 ?m4 n (n + 4)" "modifies ?m4 ?m5 (n + 4) (n + 6)" "modifies ?m5 ?m6 (n + 6) (n + 7)"
    by (rule modifies_mono [OF m1(3)] modifies_mono [OF modifies_upd] modifies_mono [OF modifies_store32] modifies_mono [OF modifies_store16];
        use R n in simp)+
  have md3: "modifies m ?m3 (n + 8) (n + 72)"
    using md(1-3) modifies_trans by blast
  have h36: "modifies ?m3 ?m6 n (n + 7)"
    by (rule modifies_trans [OF modifies_trans [OF modifies_mono [OF md(4)] modifies_mono [OF md(5)]] modifies_mono [OF md(6)]]) simp_all
  show "modifies m (fresh_slab r n m) n (n + 1024)"
    unfolding e by (rule modifies_trans [OF modifies_mono [OF md3] modifies_mono [OF h36]]) simp_all
  have "load32 ?m6 (adr n) = load32 ?m4 (adr n)"
    using modifies_load32 [OF md(5), of n] modifies_load32 [OF md(6), of n] n by simp
  then show "hdr_next (fresh_slab r n m) (adr n) = 0"
    unfolding e hdr_fields by simp
  have byte: "?m6 (adr (n + 8 + j)) = (if j < k then 0xff else if j = k then push_bit (R - 8 * k) 1 - 1 else 0)"
    if j: "j < bitmap_len_bytes r" for j
  proof -
    have a: "n + 8 + j < 4294967296" "n + 8 + k < 4294967296" "n + 8 + (bitmap_len_bytes r - 1) < 4294967296"
      using j R n by simp_all
    have "?m6 (adr (n + 8 + j)) = ?m3 (adr (n + 8 + j))"
      using modifies_at [OF h36, of "n + 8 + j"] a by simp
    also have "\<dots> = (if j = bitmap_len_bytes r - 1 then 0 else if j = k then push_bit (R - 8 * k) 1 - 1 else m1 (adr (n + 8 + j)))"
      using a R(2) adr_eq_iff [of "n + 8 + j" "n + 8 + (bitmap_len_bytes r - 1)"] adr_eq_iff [of "n + 8 + j" "n + 8 + k"] by auto
    also have "m1 (adr (n + 8 + j)) = (if j < k then 0xff else 0)" if "j \<noteq> k"
    proof (cases "j < k")
      case True
      then show ?thesis using m1(2) by simp
    next
      case False
      then have "m1 (adr (n + 8 + j)) = m (adr (n + 8 + j))"
        using modifies_at [OF m1(3), of "n + 8 + j"] a \<open>j \<noteq> k\<close> by simp
      moreover have "n + 8 + j < n + 1024"
        using j R(3) by simp
      ultimately show ?thesis
        using z False by simp
    qed
    ultimately show ?thesis
      using R(2) by auto
  qed
  have used: "slab_used ?m6 n i \<longleftrightarrow> i < R" if i: "i < 2 ^ (10 - r)" for i
  proof -
    have j: "i div 8 < bitmap_len_bytes r"
      using i g(2) by linarith
    obtain q t where qt: "i div 8 = q" "i mod 8 = t" "i = 8 * q + t" "t < 8"
      by (metis mod_less_divisor mult_div_mod_eq zero_less_numeral)
    have e: "slab_used ?m6 n i \<longleftrightarrow> q < k \<or> q = k \<and> t < R - 8 * k"
      unfolding slab_used_def qt(1,2) byte [OF j, unfolded qt(1)] using low_bits [OF R(5), of t] qt(4) by simp
    show ?thesis
      unfolding e using qt(3,4) R(5,6) by linarith
  qed
  then show "\<And>i. i < 2 ^ (10 - r) \<Longrightarrow> slab_used (fresh_slab r n m) n i \<longleftrightarrow> i < reserved_objs r"
    unfolding e R_def by blast
  have "slab_unused ?m6 n r = {R..<2 ^ (10 - r)}"
    using used by (auto simp: slab_unused_def)
  moreover have "load16 ?m6 (adr (n + 4)) = load16 ?m5 (adr (n + 4))"
    using modifies_load16 [OF md(6), of "n + 4"] n by simp
  ultimately show "slab_ok (fresh_slab r n m) n r"
    unfolding e slab_ok_def hdr_fields using used g(6) by (simp add: R_def)
qed

lemma slab_create_run:
  assumes r: "r \<in> {1..6}" and n: "unat (g_slab_next c) + 1024 \<le> 4294967296" "g_slab_next c < g_slab_end c"
  shows "slab_create r prev (c, s) = (0, g_slab_next c, c\<lparr>g_slab_next := g_slab_next c + 1024\<rparr>,
    s\<lparr>ram := (let m = fresh_slab r (unat (g_slab_next c)) (ram s) in if prev \<noteq> 0 then store32 m prev (g_slab_next c) else m)\<rparr>)"
proof -
  note g = slab_geometry [OF r]
  define a where "a = unat (g_slab_next c)"
  have na: "g_slab_next c = adr a" and ua: "unat (adr a) = a"
    by (simp_all add: a_def)
  obtain R' b' m' where mf: "mark_first (reserved_objs r) (adr (a + 8)) (ram s) = (R', b', m')"
    by (metis prod_cases3)
  have bl: "adr (a + 8) + (adr (bitmap_len_bytes r) - 1) = adr (a + 8 + (bitmap_len_bytes r - 1))"
  proof -
    have "adr (bitmap_len_bytes r) - 1 = adr (bitmap_len_bytes r - 1)"
      by (subst of_nat_diff) (use g(7) in simp_all)
    then show ?thesis
      by (simp only: adr_fold)
  qed
  have ml: "mark_last 0 b m = (0, b, m)" for b m
    by (simp add: mark_last.simps)
  have nm: "NOT (drop_bit 0 0xff) = (0 :: u8)"
    by (rule bit_word_eqI) simp
  have "\<not> g_slab_end c \<le> adr a" "\<not> (r < SLAB_MIN_RADIX \<or> r > SLAB_MAX_RADIX)"
    using n(2) r by (auto simp: na SLAB_MIN_RADIX_def SLAB_MAX_RADIX_def)
  then show ?thesis
    unfolding slab_create_def fresh_slab_def Let_def na a_def [symmetric] prod.case
    by (simp only: if_False slab_header_size_def adr_fold mf prod.case g(1,3) ml nm bl SLAB_SIZE_def SLAB_SIZE_LOG2_def)
      (simp add: g na ua mf push_bit_eq_mult)
qed

subsection \<open>Taking an object\<close>

lemma byte_full: "(b :: u8) = 0xff \<longleftrightarrow> (\<forall>t < 8. bit b t)"
proof
  assume "\<forall>t < 8. bit b t"
  then show "b = 0xff"
    by (intro bit_word_eqI) simp
qed simp

text \<open>The searches find the first object that is not in use.\<close>

lemma find_byte_run:
  assumes "\<And>j. j < k \<Longrightarrow> m (adr (b + j)) = 0xff" "m (adr (b + k)) \<noteq> 0xff"
  shows "find_byte obj (adr b) m = Some (obj + word_of_nat (8 * k), adr (b + k))"
  using assms
proof (induction k arbitrary: obj b)
  case 0
  then show ?case
    using find_byte.simps [of obj "adr b" m] by simp
next
  case (Suc k)
  have "find_byte obj (adr b) m = find_byte (obj + 8) (adr (b + 1)) m"
    using find_byte.simps [of obj "adr b" m] Suc.prems(1) [of 0] by simp
  also have "\<dots> = Some (obj + 8 + word_of_nat (8 * k), adr (b + 1 + k))"
    using Suc.prems(1) [of "Suc j" for j] Suc.prems(2) by (intro Suc.IH) (simp_all add: add.assoc)
  also have "obj + 8 + word_of_nat (8 * k) = obj + word_of_nat (8 * Suc k)"
    by (simp add: of_nat_add)
  finally show ?case
    by simp
qed

lemma find_bit_run:
  assumes "\<And>i. t0 \<le> i \<Longrightarrow> i < t0 + d \<Longrightarrow> bit byte i" "\<not> bit byte (t0 + d)" "t0 + d < 8"
  shows "find_bit obj (push_bit t0 1) byte = Some (obj + word_of_nat d, push_bit (t0 + d) 1)"
  using assms
proof (induction d arbitrary: obj t0)
  case 0
  then have "byte AND push_bit t0 1 = 0"
    by (intro bit_word_eqI) (auto simp: bit_simps)
  then show ?case
    using find_bit.simps [of obj "push_bit t0 1" byte] by simp
next
  case (Suc d)
  have "bit (byte AND push_bit t0 1) t0"
    using Suc.prems(1) [of t0] Suc.prems(3) by (simp add: bit_simps)
  then have "byte AND push_bit t0 1 \<noteq> 0"
    by (metis bit_0_eq bot_apply bot_bool_def)
  then have "find_bit obj (push_bit t0 1) byte = find_bit (obj + 1) (push_bit (Suc t0) 1) byte"
    using find_bit.simps [of obj "push_bit t0 1" byte] by (simp add: mult.commute)
  also have "\<dots> = Some (obj + 1 + word_of_nat d, push_bit (Suc t0 + d) 1)"
    by (rule Suc.IH) (use Suc.prems in auto)
  finally show ?case
    by (simp add: of_nat_Suc add.assoc)
qed

lemma slab_take_run:
  assumes r: "r \<in> {1..6}" and a: "a + 1024 \<le> 4294967296" and ok: "slab_ok m a r" and free: "hdr_free m (adr a) \<noteq> 0"
  shows "\<exists>i m'. slab_take r (adr a) m = Some (adr (a + i * 2 ^ r), m') \<and> i < 2 ^ (10 - r) \<and> \<not> slab_used m a i \<and>
    modifies m m' (a + 4) (a + 8 + bitmap_len_bytes r) \<and> slab_ok m' a r \<and>
    (\<forall>j < 2 ^ (10 - r). slab_used m' a j \<longleftrightarrow> slab_used m a j \<or> j = i)"
proof -
  note g = slab_geometry [OF r]
  have fin: "finite (slab_unused m a r)"
    by (simp add: slab_unused_def)
  have "slab_unused m a r \<noteq> {}"
    using ok free by (auto simp: slab_ok_def)
  then obtain i where i: "i < 2 ^ (10 - r)" "\<not> slab_used m a i" "\<forall>j < i. slab_used m a j"
    using exists_least_iff [of "\<lambda>i. i < 2 ^ (10 - r) \<and> \<not> slab_used m a i"] by (fastforce simp: slab_unused_def)
  obtain q t where qt: "i div 8 = q" "i mod 8 = t" "i = 8 * q + t" "t < 8"
    by (metis mod_less_divisor mult_div_mod_eq zero_less_numeral)
  have q: "q < bitmap_len_bytes r"
    using i(1) g(2) qt(3) by linarith
  have i512: "i < 512"
  proof -
    have "(2 :: nat) ^ (10 - r) \<le> 2 ^ 9"
      by (rule power_increasing) (use r in auto)
    then show ?thesis using i(1) by simp
  qed
  let ?b = "adr (a + 8 + q)"
  have below: "bit (m (adr (a + 8 + j div 8))) (j mod 8)" if "j < i" for j
    using i(3) that by (simp add: slab_used_def)
  have full: "m (adr (a + 8 + j)) = 0xff" if "j < q" for j
    unfolding byte_full
  proof (intro allI impI)
    fix u :: nat assume "u < 8"
    then show "bit (m (adr (a + 8 + j))) u"
      using below [of "8 * j + u"] that qt(3) by simp
  qed
  have low: "bit (m ?b) u" if "u < t" for u
    using below [of "8 * q + u"] that qt(3,4) by simp
  have high: "\<not> bit (m ?b) t"
    using i(2) qt by (simp add: slab_used_def)
  then have nf: "m ?b \<noteq> 0xff"
    using byte_full qt(4) by blast
  have fb: "find_byte 0 (adr (a + 8)) m = Some (word_of_nat (8 * q), ?b)"
    using find_byte_run [of q m "a + 8" 0] full nf by simp
  have ft: "find_bit (word_of_nat (8 * q)) 1 (m ?b) = Some (word_of_nat (8 * q) + word_of_nat t, push_bit t 1)"
    using find_bit_run [of 0 t "m ?b" "word_of_nat (8 * q)"] low high qt(4) by simp
  let ?m1 = "m(?b := m ?b OR push_bit t 1)"
  let ?m2 = "store16 ?m1 (adr (a + 4)) (hdr_free ?m1 (adr a) - 1)"
  have oi: "word_of_nat (8 * q) + word_of_nat t = (word_of_nat i :: u16)"
    unfolding qt(3) by (simp add: of_nat_add)
  have u16: "(ucast (word_of_nat i :: u16) :: u32) = adr i"
    using i512 by (simp add: unsigned_of_nat take_bit_nat_eq_self)
  have pos: "adr a + push_bit r (ucast (word_of_nat (8 * q) + word_of_nat t :: u16)) = adr (a + i * 2 ^ r)"
    unfolding oi u16 push_bit_eq_mult by (simp only: of_nat_add of_nat_mult of_nat_power of_nat_numeral)
  have tk: "slab_take r (adr a) m = Some (adr (a + i * 2 ^ r), ?m2)"
    unfolding slab_take_def slab_header_size_def Let_def adr_fold fb ft
    by (simp only: fb ft Option.bind.bind_lunit prod.case pos)
  have md: "modifies m ?m1 (a + 4) (a + 8 + bitmap_len_bytes r)" "modifies ?m1 ?m2 (a + 4) (a + 6)"
    by (rule modifies_mono [OF modifies_upd] modifies_mono [OF modifies_store16]; use q a g(10) in simp)+
  have md1: "modifies m ?m1 (a + 8) (a + 8 + bitmap_len_bytes r)"
    by (rule modifies_mono [OF modifies_upd]) (use q a g(10) in simp_all)
  have md2: "modifies m ?m2 (a + 4) (a + 8 + bitmap_len_bytes r)"
    by (rule modifies_trans [OF md(1) modifies_mono [OF md(2)]]) simp_all
  have used: "slab_used ?m2 a j \<longleftrightarrow> slab_used m a j \<or> j = i" if j: "j < 2 ^ (10 - r)" for j
  proof -
    have "j div 8 < bitmap_len_bytes r"
      using j g(2) by linarith
    then have "?m2 (adr (a + 8 + j div 8)) = ?m1 (adr (a + 8 + j div 8))"
      using a g(10) by (intro modifies_at [OF md(2)]) simp_all
    moreover have "adr (a + 8 + j div 8) = ?b \<longleftrightarrow> j div 8 = q"
      using \<open>j div 8 < bitmap_len_bytes r\<close> q a g(10) by (subst adr_eq_iff) simp_all
    moreover have "j = i \<longleftrightarrow> j div 8 = q \<and> j mod 8 = t"
      using qt by (metis mult_div_mod_eq)
    ultimately show ?thesis
      using qt(4) by (auto simp: slab_used_def bit_simps)
  qed
  have un: "slab_unused ?m2 a r = slab_unused m a r - {i}" "i \<in> slab_unused m a r"
    using used i(1,2) by (auto simp: slab_unused_def)
  have "hdr_free ?m1 (adr a) = hdr_free m (adr a)" "hdr_radix ?m2 (adr a) = hdr_radix m (adr a)"
    using modifies_load16 [OF md1, of "a + 4"] modifies_at [OF md1, of "a + 6"]
      modifies_at [OF md(2), of "a + 6"] a
    by (simp_all add: hdr_fields)
  moreover have "card (slab_unused m a r) = Suc (card (slab_unused m a r - {i}))"
    using un(2) fin by (metis card.remove)
  ultimately have "slab_ok ?m2 a r"
    using ok used un(1) g(6) unfolding slab_ok_def hdr_fields by (auto simp: of_nat_Suc)
  then show ?thesis
    using tk i md2 used by blast
qed

subsection \<open>Objects in use\<close>

lemma slab_wfD:
  assumes "slab_wf c m R S"
  shows "length (g_slabs c) = 6" "0 < unat (g_slab_start c)" "unat (g_slab_next c) \<le> unat (g_slab_end c)"
    "1024 dvd unat (g_slab_next c)" "1024 dvd unat (g_slab_end c)"
    "r \<in> {1..6} \<Longrightarrow> slab_chain m (g_slabs c ! (r - 1)) (S r) \<and> distinct (S r) \<and> set (S r) = {a. R a = Some r}"
    "R a = Some r \<Longrightarrow> r \<in> {1..6} \<and> 1024 dvd a \<and> 0 < a \<and> a + 1024 \<le> unat (g_slab_next c) \<and> a + 1024 < 4294967296 \<and> slab_ok m a r"
    "unat (g_slab_next c) \<le> x \<Longrightarrow> x < unat (g_slab_end c) \<Longrightarrow> m (adr x) = 0"
    "unat (g_slab_start c) \<le> unat (g_slab_next c)" "1024 dvd unat (g_slab_start c)" "R a = Some r \<Longrightarrow> unat (g_slab_start c) \<le> a"
proof -
  have lt: "unat (g_slab_next c) < 4294967296"
    by (rule unat_bound)
  have ne: "unat (g_slab_next c) \<le> unat (g_slab_end c)"
    using assms by (simp add: slab_wf_def)
  show "R a = Some r \<Longrightarrow> r \<in> {1..6} \<and> 1024 dvd a \<and> 0 < a \<and> a + 1024 \<le> unat (g_slab_next c) \<and> a + 1024 < 4294967296 \<and> slab_ok m a r"
    using assms lt unfolding slab_wf_def by fastforce
qed (use assms in \<open>simp_all add: slab_wf_def\<close>)

lemma slab_addresses:
  fixes a i :: nat
  assumes "r \<in> {1..6}" "1024 dvd a" "i < 2 ^ (10 - r)"
  shows "(a + i * 2 ^ r) div 1024 * 1024 = a" "2 ^ r dvd a + i * 2 ^ r" "(a + i * 2 ^ r - a) div 2 ^ r = i"
    "a + i * 2 ^ r + 2 ^ r \<le> a + 1024"
proof -
  have "Suc i * 2 ^ r \<le> 2 ^ (10 - r) * 2 ^ r"
    using assms(3) by (intro mult_le_mono1) simp
  then have fit: "i * 2 ^ r + 2 ^ r \<le> 1024"
    using slab_geometry(8) [OF assms(1)] by simp
  then show "a + i * 2 ^ r + 2 ^ r \<le> a + 1024"
    by simp
  have "i * 2 ^ r < 1024"
    using fit zero_less_power [of "2 :: nat" r] by linarith
  then show "(a + i * 2 ^ r) div 1024 * 1024 = a"
    using assms(2) by auto
  have "(2 :: nat) ^ r dvd 1024"
    using slab_geometry(8) [OF assms(1)] by (metis dvd_triv_right)
  then show "2 ^ r dvd a + i * 2 ^ r"
    using assms(2) by (meson dvd_add dvd_trans dvd_triv_right)
qed simp

lemma slab_liveD:
  assumes wf: "slab_wf c m R S" and l: "slab_live m R x = Some k"
  obtains a r i where "R a = Some r" "r \<in> {1..6}" "k = 2 ^ r" "x = a + i * 2 ^ r" "slab_object m a r i"
    "a + 8 + bitmap_len_bytes r \<le> x" "x + k \<le> a + 1024"
proof -
  let ?a = "x div 1024 * 1024"
  obtain r where r: "R ?a = Some r"
    using l by (auto simp: slab_live_def Let_def split: option.splits)
  define i where "i = (x - ?a) div 2 ^ r"
  have o: "2 ^ r dvd x" "slab_object m ?a r i" "k = 2 ^ r"
    using l r by (auto simp: slab_live_def Let_def i_def split: if_splits)
  note w = slab_wfD(7) [OF wf r]
  then have rr: "r \<in> {1..6}"
    by simp
  note g = slab_geometry [OF rr]
  have "(2 :: nat) ^ r dvd 1024"
    using g(8) by (metis dvd_triv_right)
  then have "2 ^ r dvd x - ?a"
    using o(1) by (intro dvd_diff_nat) (auto intro: dvd_trans)
  then have x: "x = ?a + i * 2 ^ r"
    unfolding i_def by (simp add: div_mult_mod_eq [symmetric])
  have i: "i < 2 ^ (10 - r)" "reserved_objs r \<le> i"
    using o(2) by (simp_all add: slab_object_def)
  have "reserved_objs r * 2 ^ r \<le> i * 2 ^ r"
    using i(2) by simp
  then have "?a + 8 + bitmap_len_bytes r \<le> x"
    using g(4) x by linarith
  moreover have "x + k \<le> ?a + 1024"
    using slab_addresses(4) [OF rr _ i(1), of ?a] x o(3) by simp
  ultimately show thesis
    using that [OF r rr o(3) x o(2)] by blast
qed

lemma slab_liveI:
  assumes "slab_wf c m R S" "R a = Some r" "i < 2 ^ (10 - r)"
  shows "slab_live m' R (a + i * 2 ^ r) = (if slab_object m' a r i then Some (2 ^ r) else None)"
  using slab_addresses [of r a i] slab_wfD(7) [OF assms(1,2)] assms by (simp add: slab_live_def Let_def)

text \<open>Slabs do not overlap.\<close>

lemma aligned_apart: "(1024 :: nat) dvd a \<Longrightarrow> 1024 dvd b \<Longrightarrow> a \<noteq> b \<Longrightarrow> a + 1024 \<le> b \<or> b + 1024 \<le> a"
  by (elim dvdE) (auto simp: neq_iff Suc_le_eq)

text \<open>A change of memory outside all headers and bitmaps, and outside the unused part of the region.\<close>

lemma slab_live_agree:
  assumes wf: "slab_wf c m R S" and ag: "\<And>a r. R a = Some r \<Longrightarrow> agree m m' (a + 4) (a + 8 + bitmap_len_bytes r)"
  shows "slab_live m' R = slab_live m R"
proof
  fix x
  show "slab_live m' R x = slab_live m R x"
  proof (cases "R (x div 1024 * 1024)")
    case (Some r)
    then have "slab_object m' (x div 1024 * 1024) r i = slab_object m (x div 1024 * 1024) r i" for i
      using slab_ok_agree(2) [OF ag] slab_wfD(7) [OF wf] by blast
    then show ?thesis
      using Some by (simp add: slab_live_def Let_def)
  qed (simp add: slab_live_def)
qed

lemma slab_wf_frame:
  assumes wf: "slab_wf c m R S" and ok: "\<And>a r. R a = Some r \<Longrightarrow> slab_ok m' a r"
    and link: "\<And>a r. R a = Some r \<Longrightarrow> agree m m' a (a + 4)"
    and zero: "\<And>x. unat (g_slab_next c) \<le> x \<Longrightarrow> x < unat (g_slab_end c) \<Longrightarrow> m' (adr x) = m (adr x)"
  shows "slab_wf c m' R S"
proof -
  have "slab_chain m' (g_slabs c ! (r - 1)) (S r)" if "r \<in> {1..6}" for r
  proof -
    note w = slab_wfD(6) [OF wf that]
    then show ?thesis
      using link by (subst slab_chain_agree) auto
  qed
  then show ?thesis
    using wf ok zero unfolding slab_wf_def by simp
qed

text \<open>A change of one bitmap and its header.\<close>

lemma slab_wf_update:
  assumes wf: "slab_wf c m R S" and a: "R a = Some r" and md: "modifies m m' (a + 4) (a + 8 + bitmap_len_bytes r)"
    and ok: "slab_ok m' a r"
  shows "slab_wf c m' R S" "preserves (slab_live m R) m m'"
    "\<And>x. x div 1024 * 1024 \<noteq> a \<Longrightarrow> slab_live m' R x = slab_live m R x"
proof -
  note wa = slab_wfD(7) [OF wf a]
  then have ra: "r \<in> {1..6}"
    by simp
  note ga = slab_geometry [OF ra]
  have other: "agree m m' (b + 4) (b + 8 + bitmap_len_bytes q)" "agree m m' b (b + 4)" if b: "R b = Some q" "b \<noteq> a" for b q
  proof -
    note wb = slab_wfD(7) [OF wf b(1)]
    then have "a + 1024 \<le> b \<or> b + 1024 \<le> a"
      using aligned_apart [of a b] wa b(2) by auto
    moreover have "bitmap_len_bytes q \<le> 64"
      using slab_geometry(10) [of q] wb by simp
    ultimately show "agree m m' (b + 4) (b + 8 + bitmap_len_bytes q)" "agree m m' b (b + 4)"
      using wb ga(10) by (intro modifies_agree [OF md]; simp; linarith)+
  qed
  have link: "agree m m' b (b + 4)" if "R b = Some q" for b q
  proof (cases "b = a")
    case True
    then show ?thesis
      using wa by (intro modifies_agree [OF md]) simp_all
  qed (use other that in blast)
  have oks: "slab_ok m' b q" if "R b = Some q" for b q
  proof (cases "b = a")
    case True
    then show ?thesis using ok a that by simp
  next
    case False
    then show ?thesis
      using slab_ok_agree(1) [OF other(1) [OF that False]] slab_wfD(7) [OF wf that] by simp
  qed
  have zero: "m' (adr x) = m (adr x)" if "unat (g_slab_next c) \<le> x" "x < unat (g_slab_end c)" for x
  proof -
    have "x < 4294967296"
      using that(2) unat_bound [of "g_slab_end c"] by linarith
    then show ?thesis
      by (intro modifies_at [OF md]) (use wa ga(10) that in simp_all)
  qed
  show "slab_wf c m' R S"
    by (rule slab_wf_frame [OF wf oks link zero])
  show "slab_live m' R x = slab_live m R x" if "x div 1024 * 1024 \<noteq> a" for x
  proof (cases "R (x div 1024 * 1024)")
    case (Some q)
    then have "slab_object m' (x div 1024 * 1024) q i = slab_object m (x div 1024 * 1024) q i" for i
      using slab_ok_agree(2) [OF other(1) [OF Some that]] slab_wfD(7) [OF wf Some] by simp
    then show ?thesis
      using Some by (simp add: slab_live_def Let_def)
  qed (simp add: slab_live_def)
  show "preserves (slab_live m R) m m'"
    unfolding preserves_def
  proof (intro allI impI)
    fix x k assume "slab_live m R x = Some k"
    then obtain b q i where b: "R b = Some q" "b + 8 + bitmap_len_bytes q \<le> x" "x + k \<le> b + 1024"
      using slab_liveD [OF wf] by metis
    note wb = slab_wfD(7) [OF wf b(1)]
    have "b = a \<and> q = r \<or> a + 1024 \<le> b \<or> b + 1024 \<le> a"
      using aligned_apart [of a b] wa wb a b(1) by (cases "b = a") auto
    then show "agree m m' x (x + k)"
      using b(2,3) wa wb ga(10) by (intro modifies_agree [OF md]) auto
  qed
qed

lemma slab_wf_take:
  assumes wf: "slab_wf c m R S" and a: "R a = Some r" and free: "hdr_free m (adr a) \<noteq> 0"
  shows "\<exists>x m'. slab_take r (adr a) m = Some (adr x, m') \<and> 0 < x \<and> x < 4294967296 \<and> slab_wf c m' R S \<and> slab_live m R x = None \<and>
    slab_live m' R = (slab_live m R)(x \<mapsto> 2 ^ r) \<and> preserves (slab_live m R) m m'"
proof -
  note wa = slab_wfD(7) [OF wf a]
  then have ra: "r \<in> {1..6}"
    by simp
  obtain i m' where t: "slab_take r (adr a) m = Some (adr (a + i * 2 ^ r), m')" "i < 2 ^ (10 - r)" "\<not> slab_used m a i"
    "modifies m m' (a + 4) (a + 8 + bitmap_len_bytes r)" "slab_ok m' a r"
    "\<forall>j < 2 ^ (10 - r). slab_used m' a j \<longleftrightarrow> slab_used m a j \<or> j = i"
    using slab_take_run [OF ra _ _ free] wa by fastforce
  note u = slab_wf_update [OF wf a t(4,5)]
  have res: "reserved_objs r \<le> i"
    using wa t(3) by (meson leI slab_ok_def)
  have "slab_live m' R x = ((slab_live m R)(a + i * 2 ^ r \<mapsto> 2 ^ r)) x" for x
  proof (cases "x div 1024 * 1024 = a")
    case True
    have "slab_object m' a r j \<longleftrightarrow> slab_object m a r j \<or> j = i" for j
      using t(2,6) res by (auto simp: slab_object_def)
    moreover have "x = a + i * 2 ^ r \<longleftrightarrow> 2 ^ r dvd x \<and> (x - a) div 2 ^ r = i"
    proof
      assume "2 ^ r dvd x \<and> (x - a) div 2 ^ r = i"
      moreover have "(2 :: nat) ^ r dvd a"
        using slab_addresses(2) [OF ra, of a 0] wa by simp
      ultimately have "2 ^ r dvd x - a" "a \<le> x" "(x - a) div 2 ^ r = i"
        using True by (auto intro: dvd_diff_nat)
      then show "x = a + i * 2 ^ r"
        by (metis dvd_div_mult_self le_add_diff_inverse)
    qed (use slab_addresses [OF ra _ t(2), of a] wa in auto)
    ultimately show ?thesis
      using True a by (auto simp: slab_live_def)
  next
    case False
    moreover have "x \<noteq> a + i * 2 ^ r"
      using False slab_addresses(1) [OF ra _ t(2), of a] wa by auto
    ultimately show ?thesis
      using u(3) by simp
  qed
  moreover have "slab_live m R (a + i * 2 ^ r) = None"
    using slab_liveI [OF wf a t(2)] t(3) by (simp add: slab_object_def)
  moreover have "0 < a + i * 2 ^ r" "a + i * 2 ^ r < 4294967296"
    using wa slab_addresses(4) [OF ra _ t(2), of a] by simp_all
  ultimately show ?thesis
    using t(1) u(1,2) by (intro exI [of _ "a + i * 2 ^ r"] exI [of _ m']) (auto simp: fun_eq_iff)
qed

text \<open>Writing inside an object in use.\<close>

lemma slab_wf_write:
  assumes wf: "slab_wf c m R S" and l: "slab_live m R x = Some k" and md: "modifies m m' x (x + k)"
  shows "slab_wf c m' R S" "slab_live m' R = slab_live m R"
proof -
  obtain a r where a: "R a = Some r" "r \<in> {1..6}" "a + 8 + bitmap_len_bytes r \<le> x" "x + k \<le> a + 1024"
    using slab_liveD [OF wf l] by metis
  note wa = slab_wfD(7) [OF wf a(1)]
  have low: "agree m m' b (b + 8 + bitmap_len_bytes q)" if b: "R b = Some q" for b q
  proof -
    note wb = slab_wfD(7) [OF wf b]
    have "b = a \<and> q = r \<or> a + 1024 \<le> b \<or> b + 1024 \<le> a"
      using aligned_apart [of a b] wa wb a(1) b by (cases "b = a") auto
    moreover have "bitmap_len_bytes q \<le> 64"
      using slab_geometry(10) [of q] wb by simp
    ultimately show ?thesis
      using a(3,4) wa wb by (intro modifies_agree [OF md]; auto)
  qed
  show "slab_live m' R = slab_live m R"
    by (rule slab_live_agree [OF wf]) (use low agree_mono in fastforce)
  have oks: "slab_ok m' b q" if "R b = Some q" for b q
    using slab_ok_agree(1) [OF agree_mono [OF low [OF that]]] slab_wfD(7) [OF wf that] by simp
  have zero: "m' (adr y) = m (adr y)" if "unat (g_slab_next c) \<le> y" "y < unat (g_slab_end c)" for y
  proof -
    have "y < 4294967296"
      using that(2) unat_bound [of "g_slab_end c"] by linarith
    then show ?thesis
      by (intro modifies_at [OF md]) (use wa a that in simp_all)
  qed
  show "slab_wf c m' R S"
  proof (rule slab_wf_frame [OF wf oks _ zero])
    fix b q assume "R b = Some q"
    from agree_mono [OF low [OF this], of b "b + 4"] show "agree m m' b (b + 4)"
      by simp
  qed
qed

subsection \<open>A new slab joins its list\<close>

text \<open>\<open>link_slab\<close> is what the callers of \<^verbatim>\<open>slab_create\<close> do with the new slab.\<close>

definition link_slab :: "nat \<Rightarrow> nat list \<Rightarrow> u32 \<Rightarrow> slab_ctx \<Rightarrow> slab_ctx" where
  "link_slab r as p c = (if as = [] then c\<lparr>g_slab_next := p + 1024, g_slabs := (g_slabs c)[r - 1 := p]\<rparr> else c\<lparr>g_slab_next := p + 1024\<rparr>)"

definition linked_slab :: "nat \<Rightarrow> nat list \<Rightarrow> nat \<Rightarrow> mem \<Rightarrow> mem" where
  "linked_slab r as n m = (if as = [] then fresh_slab r n m else store32 (fresh_slab r n m) (adr (last as)) (adr n))"

lemma slab_chain_snoc:
  assumes "slab_chain m p (as @ [a])" "hdr_next m' (adr a) = adr n" "hdr_next m' (adr n) = 0" "\<forall>b \<in> set as. agree m m' b (b + 4)"
  shows "slab_chain m' p (as @ [a, n])"
  using assms
proof (induction as arbitrary: p)
  case (Cons b as)
  have "hdr_next m' (adr b) = hdr_next m (adr b)"
    using agree_load32 [of m m' b "b + 4" b] Cons.prems(4) by (simp add: hdr_fields)
  then show ?case
    using Cons.IH [of "hdr_next m (adr b)"] Cons.prems by simp
qed simp

text \<open>What the new slab and the link to it change.\<close>

lemma slab_room:
  assumes wf: "slab_wf c m R S" and room: "g_slab_next c < g_slab_end c"
  defines "n \<equiv> unat (g_slab_next c)"
  shows "n + 1024 \<le> unat (g_slab_end c)" "n + 1024 < 4294967296" "0 < n" "1024 dvd n" "R n = None"
    "\<forall>x. n \<le> x \<and> x < n + 1024 \<longrightarrow> m (adr x) = 0" "R a = Some q \<Longrightarrow> a + 1024 \<le> n"
proof -
  note w = slab_wfD [OF wf]
  have lt: "n < unat (g_slab_end c)"
    using room by (simp add: n_def word_less_nat_alt)
  show dn: "1024 dvd n"
    using w(4) by (simp add: n_def)
  show fit: "n + 1024 \<le> unat (g_slab_end c)"
    using aligned_apart [OF dn w(5)] lt by auto
  then show "n + 1024 < 4294967296" "0 < n"
    using unat_bound [of "g_slab_end c"] w(2,9) by (auto simp: n_def)
  show "\<forall>x. n \<le> x \<and> x < n + 1024 \<longrightarrow> m (adr x) = 0"
    using w(8) fit by (simp add: n_def)
  show below: "R a = Some q \<Longrightarrow> a + 1024 \<le> n" for a q
    using w(7) by (simp add: n_def)
  show "R n = None"
    using below [of n] by (cases "R n") auto
qed

lemma linked_slab_frame:
  assumes wf: "slab_wf c m R S" and r: "r \<in> {1..6}" and room: "g_slab_next c < g_slab_end c"
  defines "n \<equiv> unat (g_slab_next c)"
  defines "m' \<equiv> linked_slab r (S r) n m"
  shows "agree (fresh_slab r n m) m' n 4294967296" "R a = Some q \<Longrightarrow> agree m m' (a + 4) (a + 1024)"
    "R a = Some q \<Longrightarrow> S r = [] \<or> a \<noteq> last (S r) \<Longrightarrow> agree m m' a (a + 1024)"
proof -
  let ?f = "fresh_slab r n m"
  note rm = slab_room [OF wf room, folded n_def]
  note fs = fresh_slab_spec [OF r less_imp_le [OF rm(2)] rm(6)]
  have l: "R (last (S r)) = Some r" if "S r \<noteq> []"
    using slab_wfD(6) [OF wf r] last_in_set [OF that] by auto
  have lt: "last (S r) + 1024 \<le> n" if "S r \<noteq> []"
    using rm(7) [OF l [OF that]] .
  have far: "m' (adr x) = ?f (adr x)" if "x < 4294967296" "S r = [] \<or> x < last (S r) \<or> last (S r) + 4 \<le> x" for x
  proof (cases "S r = []")
    case False
    then have "modifies ?f m' (last (S r)) (last (S r) + 4)"
      using lt rm(2) by (simp add: m'_def linked_slab_def modifies_store32)
    then show ?thesis
      by (rule modifies_at) (use that False in simp_all)
  qed (simp add: m'_def linked_slab_def)
  have near: "m' (adr x) = m (adr x)" if "x < n" "S r = [] \<or> x < last (S r) \<or> last (S r) + 4 \<le> x" for x
  proof -
    have "m' (adr x) = ?f (adr x)"
      by (rule far) (use that rm(2) in simp_all)
    also have "\<dots> = m (adr x)"
      by (rule modifies_at [OF fs(1)]) (use that rm(2) in simp_all)
    finally show ?thesis .
  qed
  show "agree ?f m' n 4294967296"
    unfolding agree_def using far lt by fastforce
  show "agree m m' a (a + 1024)" if a: "R a = Some q" "S r = [] \<or> a \<noteq> last (S r)"
    unfolding agree_def
  proof (intro allI impI near)
    fix x assume x: "a \<le> x \<and> x < a + 1024"
    show "x < n"
      using x rm(7) [OF a(1)] by simp
    show "S r = [] \<or> x < last (S r) \<or> last (S r) + 4 \<le> x"
      using aligned_apart [of a "last (S r)"] slab_wfD(7) [OF wf a(1)] slab_wfD(7) [OF wf l] a(2) x by fastforce
  qed
  show "agree m m' (a + 4) (a + 1024)" if a: "R a = Some q"
  proof (cases "S r = [] \<or> a \<noteq> last (S r)")
    case True
    then show ?thesis
      unfolding agree_def
    proof (intro allI impI near)
      fix x assume x: "a + 4 \<le> x \<and> x < a + 1024"
      show "x < n"
        using x rm(7) [OF a] by simp
      show "S r = [] \<or> x < last (S r) \<or> last (S r) + 4 \<le> x"
        using aligned_apart [of a "last (S r)"] slab_wfD(7) [OF wf a] slab_wfD(7) [OF wf l] True x by fastforce
    qed
  next
    case False
    then show ?thesis
      unfolding agree_def by (intro allI impI near) (use rm(7) [OF a] in auto)
  qed
qed

lemma linked_slab_new:
  assumes wf: "slab_wf c m R S" and r: "r \<in> {1..6}" and room: "g_slab_next c < g_slab_end c"
  defines "n \<equiv> unat (g_slab_next c)"
  defines "m' \<equiv> linked_slab r (S r) n m"
  shows "slab_ok m' n r" "\<not> slab_object m' n r i" "hdr_next m' (adr n) = 0" "hdr_free m' (adr n) \<noteq> 0"
    "S r \<noteq> [] \<Longrightarrow> hdr_next m' (adr (last (S r))) = adr n"
proof -
  let ?f = "fresh_slab r n m"
  note rm = slab_room [OF wf room, folded n_def]
  note fs = fresh_slab_spec [OF r less_imp_le [OF rm(2)] rm(6)]
  note new = linked_slab_frame(1) [OF wf r room, folded n_def, folded m'_def]
  note g = slab_geometry [OF r]
  have "agree ?f m' (n + 4) (n + 8 + bitmap_len_bytes r)"
    by (rule agree_mono [OF new]) (use g(10) rm(2) in simp_all)
  note ok = slab_ok_agree [OF this r]
  show "slab_ok m' n r" "\<not> slab_object m' n r i"
    using ok fs(3,4) by (auto simp: slab_object_def)
  have hn: "hdr_next m' (adr n) = 0" "hdr_free m' (adr n) = hdr_free ?f (adr n)"
    using fs(2) agree_load32 [OF new, of n] agree_load16 [OF new, of "n + 4"] rm(2) by (simp_all add: hdr_fields)
  show "hdr_next m' (adr n) = 0"
    by (rule hn)
  have "slab_unused ?f n r = {reserved_objs r..<2 ^ (10 - r)}"
    using fs(4) by (auto simp: slab_unused_def)
  then have "hdr_free ?f (adr n) = word_of_nat (2 ^ (10 - r) - reserved_objs r)"
    using fs(3) by (simp add: slab_ok_def)
  moreover have "0 < 2 ^ (10 - r) - reserved_objs r" "2 ^ (10 - r) - reserved_objs r < 2 ^ 16"
    using radix_cases [OF r] g(6) by auto
  ultimately show "hdr_free m' (adr n) \<noteq> 0"
    unfolding hn(2) by (simp add: word_of_nat_eq_0_iff nat_dvd_not_less)
  show "hdr_next m' (adr (last (S r))) = adr n" if "S r \<noteq> []"
    using that by (simp add: hdr_fields m'_def linked_slab_def)
qed

lemma linked_slab_chain:
  assumes wf: "slab_wf c m R S" and r: "r \<in> {1..6}" and room: "g_slab_next c < g_slab_end c"
  defines "n \<equiv> unat (g_slab_next c)"
  defines "m' \<equiv> linked_slab r (S r) n m" and "c' \<equiv> link_slab r (S r) (g_slab_next c) c"
  assumes q: "q \<in> {1..6}"
  shows "slab_chain m' (g_slabs c' ! (q - 1)) ((S(r := S r @ [n])) q)"
proof -
  have gs: "g_slabs c' = (if S r = [] then (g_slabs c)[r - 1 := adr n] else g_slabs c)"
    by (simp add: c'_def link_slab_def n_def)
  note old = linked_slab_frame(3) [OF wf r room, folded n_def, folded m'_def]
  note new = linked_slab_new [OF wf r room, folded n_def, folded m'_def]
  note wq = slab_wfD(6) [OF wf q] and wr = slab_wfD(6) [OF wf r]
  show ?thesis
  proof (cases "q = r")
    case False
    have "slab_chain m' (g_slabs c ! (q - 1)) (S q)"
    proof (subst slab_chain_agree)
      fix a assume "a \<in> set (S q)"
      then have aq: "R a = Some q"
        using wq by auto
      have "S r = [] \<or> a \<noteq> last (S r)"
        using wr last_in_set [of "S r"] False aq by auto
      from old [OF aq this] show "agree m m' a (a + 4)"
        by (rule agree_mono) simp_all
    qed (use wq in simp)
    moreover have "q - 1 \<noteq> r - 1"
      using False q r by auto
    ultimately show ?thesis
      using False gs by simp
  next
    case True
    show ?thesis
    proof (cases "S r = []")
      case e: True
      have "r - 1 < length (g_slabs c)"
        using r slab_wfD(1) [OF wf] by auto
      then show ?thesis
        using e True new(3) gs by simp
    next
      case ne: False
      obtain as a where as: "S r = as @ [a]"
        using ne by (metis append_butlast_last_id)
      have "slab_chain m' (g_slabs c ! (r - 1)) (as @ [a, n])"
      proof (rule slab_chain_snoc)
        show "slab_chain m (g_slabs c ! (r - 1)) (as @ [a])" "hdr_next m' (adr a) = adr n" "hdr_next m' (adr n) = 0"
          using wr as new(3,5) by simp_all
        show "\<forall>b \<in> set as. agree m m' b (b + 4)"
        proof
          fix b assume "b \<in> set as"
          then have "R b = Some r" "S r = [] \<or> b \<noteq> last (S r)"
            using wr as by auto
          from old [OF this] show "agree m m' b (b + 4)"
            by (rule agree_mono) simp_all
        qed
      qed
      then show ?thesis
        using ne as gs True by simp
    qed
  qed
qed

lemma slab_wf_create:
  assumes wf: "slab_wf c m R S" and r: "r \<in> {1..6}" and room: "g_slab_next c < g_slab_end c"
  defines "n \<equiv> unat (g_slab_next c)"
  defines "m' \<equiv> linked_slab r (S r) n m" and "c' \<equiv> link_slab r (S r) (g_slab_next c) c"
  shows "slab_wf c' m' (R(n \<mapsto> r)) (S(r := S r @ [n]))" "slab_live m' (R(n \<mapsto> r)) = slab_live m R"
    "preserves (slab_live m R) m m'"
proof -
  note w = slab_wfD [OF wf]
  note rm = slab_room [OF wf room, folded n_def]
  note frame = linked_slab_frame [OF wf r room, folded n_def, folded m'_def]
  note new = linked_slab_new [OF wf r room, folded n_def, folded m'_def]
  have ok: "slab_ok m' a q" "slab_object m' a q i = slab_object m a q i" if a: "R a = Some q" for a q i
  proof -
    have q: "q \<in> {1..6}"
      using w(7) [OF a] by simp
    have "agree m m' (a + 4) (a + 8 + bitmap_len_bytes q)"
      by (rule agree_mono [OF frame(2) [OF a]]) (use slab_geometry(10) [OF q] in simp_all)
    from slab_ok_agree [OF this q] show "slab_ok m' a q" "slab_object m' a q i = slab_object m a q i"
      using w(7) [OF a] by simp_all
  qed
  show "slab_live m' (R(n \<mapsto> r)) = slab_live m R"
  proof
    fix x
    show "slab_live m' (R(n \<mapsto> r)) x = slab_live m R x"
      using new(2) ok(2) rm(5) by (cases "x div 1024 * 1024 = n"; cases "R (x div 1024 * 1024)") (auto simp: slab_live_def Let_def)
  qed
  show "preserves (slab_live m R) m m'"
    unfolding preserves_def
  proof (intro allI impI)
    fix x k assume "slab_live m R x = Some k"
    then obtain a q where a: "R a = Some q" "a + 8 + bitmap_len_bytes q \<le> x" "x + k \<le> a + 1024"
      using slab_liveD [OF wf] by metis
    show "agree m m' x (x + k)"
      by (rule agree_mono [OF frame(2) [OF a(1)]]) (use a in simp_all)
  qed
  have nx: "unat (g_slab_next c') = n + 1024" "length (g_slabs c') = 6" "g_slab_start c' = g_slab_start c" "g_slab_end c' = g_slab_end c"
    using rm(2) w(1) by (simp_all add: n_def c'_def link_slab_def unat_word_ariths)
  have sets: "distinct ((S(r := S r @ [n])) q)" "set ((S(r := S r @ [n])) q) = {a. (R(n \<mapsto> r)) a = Some q}"
    if "q \<in> {1..6}" for q
    using w(6) [OF that] rm(5) by auto
  have zeros: "m' (adr x) = 0" if "n + 1024 \<le> x" "x < unat (g_slab_end c)" for x
  proof -
    have xl: "x < 4294967296"
      using that(2) unat_bound [of "g_slab_end c"] by linarith
    have "m' (adr x) = fresh_slab r n m (adr x)"
      using frame(1) that xl by (simp add: agree_def)
    also have "\<dots> = m (adr x)"
      by (rule modifies_at [OF fresh_slab_spec(1) [OF r less_imp_le [OF rm(2)] rm(6)]]) (use that xl in simp_all)
    finally show ?thesis
      using w(8) that by (simp add: n_def)
  qed
  have slab: "q \<in> {1..6} \<and> 1024 dvd a \<and> unat (g_slab_start c') \<le> a \<and> a + 1024 \<le> n + 1024 \<and> slab_ok m' a q"
    if "(R(n \<mapsto> r)) a = Some q" for a q
    using that r rm(4) rm(7) [of a q] new(1) w(7) [of a q] w(9) w(11) [of a q] ok(1) [of a q] nx(3)
    by (cases "a = n") (simp_all add: n_def)
  show "slab_wf c' m' (R(n \<mapsto> r)) (S(r := S r @ [n]))"
    unfolding slab_wf_def nx(1)
    using linked_slab_chain [OF wf r room, folded n_def, folded m'_def c'_def] sets slab zeros nx(2,3,4) w(2,5,10)
      trans_le_add1 [OF w(9), of 1024] rm(1,4) by (auto simp: n_def)
qed

subsection \<open>Allocation\<close>

lemma slab_chain_next:
  "slab_chain m p (pre @ a # as) \<Longrightarrow> hdr_next m (adr a) = (case as of [] \<Rightarrow> 0 | b # _ \<Rightarrow> adr b)"
  by (induction pre arbitrary: p) (auto split: list.splits)

lemma slab_walk_run:
  assumes wf: "slab_wf c (ram s) R S" and r: "r \<in> {1..6}" and S: "S r = pre @ a # as"
  defines "n \<equiv> unat (g_slab_next c)"
  shows "(\<exists>b. R b = Some r \<and> hdr_free (ram s) (adr b) \<noteq> 0 \<and> slab_walk r (adr a) (c, s) = Some (adr b, c, s)) \<or>
    (\<forall>b \<in> set (a # as). hdr_free (ram s) (adr b) = 0) \<and>
      (if g_slab_next c < g_slab_end c
       then slab_walk r (adr a) (c, s) = Some (adr n, link_slab r (S r) (adr n) c, s\<lparr>ram := linked_slab r (S r) n (ram s)\<rparr>)
       else slab_walk r (adr a) (c, s) = Some (0, c, s))"
  using S
proof (induction as arbitrary: a pre)
  case Nil
  have "R a = Some r" "hdr_next (ram s) (adr a) = 0"
    using slab_wfD(6) [OF wf r] Nil slab_chain_next [of "ram s" _ pre a "[]"] by auto
  then have a: "R a = Some r" "hdr_next (ram s) (adr a) = 0" "adr a \<noteq> 0"
    using slab_wfD(7) [OF wf, of a r] adr_eq_0_iff [of a] by simp_all
  note step = slab_walk.simps [of r "adr a" "(c, s)"]
  show ?case
  proof (cases "hdr_free (ram s) (adr a) = 0")
    case False
    then show ?thesis
      using step a(1) by auto
  next
    case full: True
    show ?thesis
    proof (cases "g_slab_next c < g_slab_end c")
      case True
      note rm = slab_room [OF wf True, folded n_def]
      note new = linked_slab_new [OF wf r True, folded n_def]
      let ?m = "linked_slab r (S r) n (ram s)"
      let ?cs = "(link_slab r (S r) (adr n) c, s\<lparr>ram := ?m\<rparr>)"
      have nn: "g_slab_next c = adr n"
        by (simp add: n_def)
      have cr: "slab_create r (adr a) (c, s) = (0, adr n, ?cs)"
        using slab_create_run [OF r _ True, of "adr a" s] rm(2) Nil a(3)
        by (simp add: n_def link_slab_def linked_slab_def Let_def)
      have nx: "hdr_next ?m (adr a) = adr n"
        using new(5) Nil by simp
      have "slab_walk r (adr a) (c, s) = slab_walk r (adr n) ?cs"
        using step full a(2) cr nx by simp
      also have "\<dots> = Some (adr n, ?cs)"
        using slab_walk.simps [of r "adr n" ?cs] new(4) by simp
      finally show ?thesis
        using full True by simp
    next
      case False
      have "slab_create r (adr a) (c, s) = (- 12, 0, c, s)"
        using r False by (auto simp: slab_create_def SLAB_MIN_RADIX_def SLAB_MAX_RADIX_def)
      then show ?thesis
        using step full a(2) False by simp
    qed
  qed
next
  case (Cons b as)
  have "R a = Some r" "R b = Some r" "hdr_next (ram s) (adr a) = adr b"
    using slab_wfD(6) [OF wf r] Cons.prems slab_chain_next [of "ram s" _ pre a "b # as"] by auto
  then have a: "R a = Some r" "R b = Some r" "hdr_next (ram s) (adr a) = adr b" "adr b \<noteq> 0"
    using slab_wfD(7) [OF wf, of b r] adr_eq_0_iff [of b] by simp_all
  note step = slab_walk.simps [of r "adr a" "(c, s)"]
  show ?case
  proof (cases "hdr_free (ram s) (adr a) = 0")
    case False
    then show ?thesis
      using step a(1) by auto
  next
    case True
    then have e: "slab_walk r (adr a) (c, s) = slab_walk r (adr b) (c, s)"
      using step a(3,4) by simp
    have "S r = (pre @ [a]) @ b # as"
      using Cons.prems by simp
    from Cons.IH [OF this] True show ?thesis
      unfolding e by simp
  qed
qed

lemma slab_radix_table:
  "list_all (\<lambda>n. slab_radix (word_of_nat n) \<in> {1..6} \<and> n \<le> 2 ^ slab_radix (word_of_nat n) \<and>
     (slab_radix (word_of_nat n) = 1 \<or> 2 ^ (slab_radix (word_of_nat n) - 1) < n)) [1..<65]"
  by code_simp

lemma slab_radix_bounds:
  assumes "sz \<noteq> 0" "unat sz \<le> 64"
  shows "slab_radix sz \<in> {1..6}" "unat sz \<le> 2 ^ slab_radix sz" "slab_radix sz = 1 \<or> 2 ^ (slab_radix sz - 1) < unat sz"
proof -
  have "unat sz \<in> set [1..<65]"
    using assms by (simp add: unat_gt_0 Suc_le_eq)
  with slab_radix_table show "slab_radix sz \<in> {1..6}" "unat sz \<le> 2 ^ slab_radix sz"
    "slab_radix sz = 1 \<or> 2 ^ (slab_radix sz - 1) < unat sz"
    unfolding list_all_iff by (metis adr_unat)+
qed

text \<open>\<open>slab_full c m R r\<close>: every slab of the radix is full and there is no memory for another one.\<close>

definition slab_full :: "slab_ctx \<Rightarrow> mem \<Rightarrow> (nat \<Rightarrow> nat option) \<Rightarrow> nat \<Rightarrow> bool" where
  "slab_full c m R r \<longleftrightarrow> g_slab_end c \<le> g_slab_next c \<and> (\<forall>a. R a = Some r \<longrightarrow> slab_unused m a r = {})"

lemma slab_free_zero:
  assumes "slab_wf c m R S" "R a = Some r" "hdr_free m (adr a) = 0"
  shows "slab_unused m a r = {}"
proof -
  note w = slab_wfD(7) [OF assms(1,2)]
  have fin: "finite (slab_unused m a r)"
    by (simp add: slab_unused_def)
  have "card (slab_unused m a r) \<le> card {..<2 ^ (10 - r) :: nat}"
    by (rule card_mono) (auto simp: slab_unused_def)
  also have "\<dots> < 2 ^ 16"
    using radix_cases [of r] w by auto
  finally have "card (slab_unused m a r) < 2 ^ 16" .
  moreover have "(word_of_nat (card (slab_unused m a r)) :: u16) = 0"
    using w assms(3) by (simp add: slab_ok_def)
  ultimately have "card (slab_unused m a r) = 0"
    by (auto simp: word_of_nat_eq_0_iff dest: dvd_imp_le)
  then show ?thesis
    using fin by simp
qed

text \<open>The slab the object is taken from: an existing one, a new one, or none.\<close>

definition slab_choose :: "nat \<Rightarrow> slabs \<Rightarrow> (u32 \<times> slabs) option" where
  "slab_choose radix cs = (case cs of (c, s) \<Rightarrow>
     let slab = g_slabs c ! (radix - SLAB_MIN_RADIX)
     in if slab = 0
        then (case slab_create radix 0 (c, s) of (ret, hdr, c, s) \<Rightarrow>
                if ret \<noteq> 0 then Some (0, c, s)
                else let c = c\<lparr>g_slabs := (g_slabs c)[radix - SLAB_MIN_RADIX := hdr]\<rparr>
                  in Some (g_slabs c ! (radix - SLAB_MIN_RADIX), c, s))
        else slab_walk radix slab (c, s))"

lemma slab_alloc_eq:
  "sz \<noteq> 0 \<Longrightarrow> unat sz \<le> 64 \<Longrightarrow> slab_alloc sz (c, s) = do {
     (slab, c, s) \<leftarrow> slab_choose (slab_radix sz) (c, preempt_disable s);
     if slab = 0 then Some (0, c, preempt_enable s)
     else do {
       (p, m) \<leftarrow> slab_take (slab_radix sz) slab (ram s);
       Some (p, c, preempt_enable (s\<lparr>ram := m\<rparr>))
     }
   }"
  by (simp add: slab_alloc_def slab_choose_def SLAB_MAX_RADIX_def Let_def word_less_nat_alt)

lemma slab_choose_run:
  assumes wf: "slab_wf c (ram s) R S" and r: "r \<in> {1..6}"
  shows "slab_choose r (c, s) = Some (0, c, s) \<and> slab_full c (ram s) R r \<or>
    (\<exists>a c' m R' S'. slab_choose r (c, s) = Some (adr a, c', s\<lparr>ram := m\<rparr>) \<and> slab_wf c' m R' S' \<and> R' a = Some r \<and>
       hdr_free m (adr a) \<noteq> 0 \<and> slab_live m R' = slab_live (ram s) R \<and> preserves (slab_live (ram s) R) (ram s) m)"
proof -
  let ?n = "unat (g_slab_next c)"
  note wr = slab_wfD(6) [OF wf r]
  have idx: "r - SLAB_MIN_RADIX = r - 1" "r - 1 < length (g_slabs c)"
    using r slab_wfD(1) [OF wf] by (auto simp: SLAB_MIN_RADIX_def)
  have new: "\<exists>c' R' S'. c' = link_slab r (S r) (adr ?n) c \<and> slab_wf c' (linked_slab r (S r) ?n (ram s)) R' S' \<and> R' ?n = Some r \<and>
      hdr_free (linked_slab r (S r) ?n (ram s)) (adr ?n) \<noteq> 0 \<and> slab_live (linked_slab r (S r) ?n (ram s)) R' = slab_live (ram s) R \<and>
      preserves (slab_live (ram s) R) (ram s) (linked_slab r (S r) ?n (ram s))" if "g_slab_next c < g_slab_end c"
    using slab_wf_create [OF wf r that] linked_slab_new(4) [OF wf r that]
    by (intro exI [of _ "link_slab r (S r) (adr ?n) c"] exI [of _ "R(?n \<mapsto> r)"] exI [of _ "S(r := S r @ [?n])"]) simp
  have full: "slab_full c (ram s) R r" if "\<not> g_slab_next c < g_slab_end c" "\<forall>b \<in> set (S r). hdr_free (ram s) (adr b) = 0"
    using that wr slab_free_zero [OF wf] by (auto simp: slab_full_def)
  show ?thesis
  proof (cases "S r")
    case Nil
    then have e: "g_slabs c ! (r - 1) = 0"
      using wr by simp
    show ?thesis
    proof (cases "g_slab_next c < g_slab_end c")
      case True
      note rm = slab_room [OF wf True]
      have "slab_create r 0 (c, s) = (0, g_slab_next c, c\<lparr>g_slab_next := g_slab_next c + 1024\<rparr>, s\<lparr>ram := fresh_slab r ?n (ram s)\<rparr>)"
        using slab_create_run [OF r _ True, of 0 s] rm(2) by (simp add: Let_def)
      then have "slab_choose r (c, s) = Some (adr ?n, link_slab r (S r) (adr ?n) c, s\<lparr>ram := linked_slab r (S r) ?n (ram s)\<rparr>)"
        using e idx Nil by (simp add: slab_choose_def Let_def link_slab_def linked_slab_def)
      then show ?thesis
        using new [OF True] by blast
    next
      case False
      have "slab_create r 0 (c, s) = (- 12, 0, c, s)"
        using r False by (auto simp: slab_create_def SLAB_MIN_RADIX_def SLAB_MAX_RADIX_def)
      then show ?thesis
        using e idx Nil full [OF False] by (simp add: slab_choose_def Let_def)
    qed
  next
    case (Cons a as)
    then have a: "R a = Some r" "g_slabs c ! (r - 1) = adr a"
      using wr by auto
    then have "adr a \<noteq> 0"
      using slab_wfD(7) [OF wf, of a r] adr_eq_0_iff [of a] by simp
    then have ch: "slab_choose r (c, s) = slab_walk r (adr a) (c, s)"
      using a idx by (simp add: slab_choose_def Let_def)
    have "S r = [] @ a # as"
      using Cons by simp
    from slab_walk_run [OF wf r this] show ?thesis
    proof (elim disjE exE conjE)
      fix b assume "R b = Some r" "hdr_free (ram s) (adr b) \<noteq> 0" "slab_walk r (adr a) (c, s) = Some (adr b, c, s)"
      then show ?thesis
        using ch wf by (intro disjI2 exI [of _ b] exI [of _ c] exI [of _ "ram s"] exI [of _ R] exI [of _ S]) simp
    next
      assume f: "\<forall>b \<in> set (a # as). hdr_free (ram s) (adr b) = 0"
        and w: "if g_slab_next c < g_slab_end c
          then slab_walk r (adr a) (c, s) = Some (adr ?n, link_slab r (S r) (adr ?n) c, s\<lparr>ram := linked_slab r (S r) ?n (ram s)\<rparr>)
          else slab_walk r (adr a) (c, s) = Some (0, c, s)"
      show ?thesis
      proof (cases "g_slab_next c < g_slab_end c")
        case True
        have "slab_choose r (c, s) = Some (adr ?n, link_slab r (S r) (adr ?n) c, s\<lparr>ram := linked_slab r (S r) ?n (ram s)\<rparr>)"
          using w ch True by simp
        then show ?thesis
          using new [OF True] by blast
      next
        case False
        then show ?thesis
          using full [OF False] f w ch Cons by simp
      qed
    qed
  qed
qed

lemma slab_alloc_cases:
  assumes wf: "slab_wf c (ram s) R S" and sz: "sz \<noteq> 0" "unat sz \<le> 64"
  shows "slab_alloc sz (c, s) = Some (0, c, section_exit s (ram s)) \<and> slab_full c (ram s) R (slab_radix sz) \<or>
    (\<exists>p c' m R' S'. slab_alloc sz (c, s) = Some (p, c', section_exit s m) \<and> p \<noteq> 0 \<and> slab_wf c' m R' S' \<and>
       slab_live (ram s) R (unat p) = None \<and> unat sz \<le> 2 ^ slab_radix sz \<and> 2 ^ slab_radix sz dvd unat p \<and>
       slab_live m R' = (slab_live (ram s) R)(unat p \<mapsto> 2 ^ slab_radix sz) \<and> preserves (slab_live (ram s) R) (ram s) m)"
proof -
  let ?r = "slab_radix sz" and ?s = "preempt_disable s"
  note r = slab_radix_bounds [OF sz]
  have wf': "slab_wf c (ram ?s) R S"
    using wf by simp
  have se: "section_exit s m = preempt_enable (?s\<lparr>ram := m\<rparr>)" for m
    by (simp add: section_exit_def)
  from slab_choose_run [OF wf' r(1)] show ?thesis
  proof (elim disjE exE conjE)
    assume "slab_choose ?r (c, ?s) = Some (0, c, ?s)" "slab_full c (ram ?s) R ?r"
    moreover have "section_exit s (ram s) = preempt_enable ?s"
      by (simp add: section_exit_def)
    ultimately show ?thesis
      by (simp add: slab_alloc_eq [OF sz])
  next
    fix a c' m R' S'
    assume ch: "slab_choose ?r (c, ?s) = Some (adr a, c', ?s\<lparr>ram := m\<rparr>)" "slab_wf c' m R' S'" "R' a = Some ?r"
      "hdr_free m (adr a) \<noteq> 0" "slab_live m R' = slab_live (ram ?s) R" "preserves (slab_live (ram ?s) R) (ram ?s) m"
    obtain x m' where t: "slab_take ?r (adr a) m = Some (adr x, m')" "0 < x" "x < 4294967296" "slab_wf c' m' R' S'"
      "slab_live m R' x = None" "slab_live m' R' = (slab_live m R')(x \<mapsto> 2 ^ ?r)" "preserves (slab_live m R') m m'"
      using slab_wf_take [OF ch(2-4)] by blast
    have "adr a \<noteq> 0"
      using slab_wfD(7) [OF ch(2,3)] adr_eq_0_iff [of a] by simp
    then have "slab_alloc sz (c, s) = Some (adr x, c', section_exit s m')"
      using ch(1) t(1) by (simp add: slab_alloc_eq [OF sz] se)
    moreover have "slab_live m' R' x = Some (2 ^ ?r)"
      using t(6) by simp
    then have "2 ^ ?r dvd x"
      by (auto simp: slab_live_def Let_def split: option.splits if_splits)
    moreover have "preserves (slab_live (ram s) R) (ram s) m'"
      using ch(5,6) t(7) preserves_trans by fastforce
    ultimately show ?thesis
      using t ch(5) r(2) adr_eq_0_iff [of x]
      by (intro disjI2 exI [of _ "adr x"] exI [of _ c'] exI [of _ m'] exI [of _ R'] exI [of _ S']) simp
  qed
qed

subsection \<open>Release\<close>

lemma slab_free_address:
  assumes r: "r \<in> {1..6}" and a: "1024 dvd a" "a + 1024 < 4294967296" and i: "i < 2 ^ (10 - r)"
  defines "p \<equiv> adr (a + i * 2 ^ r)"
  shows "p AND NOT (SLAB_SIZE - 1) = adr a"
    "ucast (drop_bit r (p AND (SLAB_SIZE - 1))) = (word_of_nat i :: u16)"
    "ucast (drop_bit 3 (word_of_nat i :: u16)) = adr (i div 8)"
    "unat ((word_of_nat i :: u16) AND 7) = i mod 8"
proof -
  note ad = slab_addresses [OF r a(1) i]
  have m10: "SLAB_SIZE - 1 = mask 10"
    by (simp add: SLAB_SIZE_def SLAB_SIZE_LOG2_def mask_eq_exp_minus_1)
  have up: "unat p = a + i * 2 ^ r"
    unfolding p_def by (rule unat_adr) (use ad(4) a(2) in simp)
  have pos: "0 < (2 :: nat) ^ r"
    by simp
  have "p AND NOT (mask 10) = adr (unat p div 2 ^ 10 * 2 ^ 10)"
    using and_not_mask_nat [of p 10] by (metis adr_unat)
  then show "p AND NOT (SLAB_SIZE - 1) = adr a"
    unfolding m10 up using ad(1) by simp
  have "i * 2 ^ r < 1024"
    using ad(4) pos by linarith
  then have mod: "(a + i * 2 ^ r) mod 1024 = i * 2 ^ r"
    using a(1) by (elim dvdE) simp
  have i512: "i < 512"
  proof -
    have "(2 :: nat) ^ (10 - r) \<le> 2 ^ 9"
      by (rule power_increasing) (use r in auto)
    then show ?thesis using i by simp
  qed
  have "unat (take_bit 10 p) = i * 2 ^ r"
    using mod by (subst unsigned_take_bit_eq) (simp add: up take_bit_eq_mod)
  then have "unat (drop_bit r (take_bit 10 p)) = drop_bit r (take_bit 32 (i * 2 ^ r))"
    by (simp only: unsigned_drop_bit_eq) simp
  also have "\<dots> = i"
    using \<open>i * 2 ^ r < 1024\<close> by (simp add: take_bit_nat_eq_self drop_bit_eq_div)
  finally have "unat (drop_bit r (p AND mask 10)) = i"
    by (simp only: take_bit_eq_mask)
  then show "ucast (drop_bit r (p AND (SLAB_SIZE - 1))) = (word_of_nat i :: u16)"
    unfolding m10 by (metis of_nat_unat ucast_id)
  have "unat (drop_bit 3 (word_of_nat i :: u16)) = i div 8"
    using i512 by (simp only: unsigned_drop_bit_eq) (simp add: unsigned_of_nat take_bit_nat_eq_self drop_bit_eq_div)
  then show "ucast (drop_bit 3 (word_of_nat i :: u16)) = adr (i div 8)"
    by (metis of_nat_unat)
  have "(7 :: u16) = mask 3"
    by (simp add: mask_eq_exp_minus_1)
  then have "unat ((word_of_nat i :: u16) AND 7) = take_bit 3 (unat (word_of_nat i :: u16))"
    by (metis take_bit_eq_mask unsigned_take_bit_eq)
  then show "unat ((word_of_nat i :: u16) AND 7) = i mod 8"
    using i512 by (simp add: unsigned_of_nat take_bit_nat_eq_self take_bit_eq_mod)
qed

lemma slab_free_run:
  assumes r: "r \<in> {1..6}" and a: "1024 dvd a" "0 < a" "a + 1024 < 4294967296" and ok: "slab_ok (ram s) a r" and o: "slab_object (ram s) a r i"
  shows "\<exists>m. slab_free (adr (a + i * 2 ^ r)) (c, s) = Some (c, s\<lparr>ram := m\<rparr>) \<and>
    modifies (ram s) m (a + 4) (a + 8 + bitmap_len_bytes r) \<and> slab_ok m a r \<and>
    (\<forall>j < 2 ^ (10 - r). slab_used m a j \<longleftrightarrow> slab_used (ram s) a j \<and> j \<noteq> i)"
proof -
  note g = slab_geometry [OF r]
  have i: "i < 2 ^ (10 - r)" "reserved_objs r \<le> i" "slab_used (ram s) a i"
    using o by (simp_all add: slab_object_def)
  note ad = slab_free_address [OF r a(1,3) i(1)]
  obtain q t where qt: "i div 8 = q" "i mod 8 = t" "i = 8 * q + t" "t < 8"
    by (metis mod_less_divisor mult_div_mod_eq zero_less_numeral)
  have q: "q < bitmap_len_bytes r"
    using i(1) g(2) qt(3) by linarith
  have rad: "unat (hdr_radix (ram s) (adr a)) = r"
    using ok r by (simp add: slab_ok_def unsigned_of_nat take_bit_nat_eq_self)
  let ?p = "adr (a + i * 2 ^ r)" and ?b = "adr (a + 8 + q)"
  let ?m1 = "(ram s)(?b := ram s ?b AND NOT (push_bit t 1))"
  let ?m2 = "store16 ?m1 (adr (a + 4)) (hdr_free ?m1 (adr a) + 1)"
  have set: "bit (ram s ?b) t"
    using i(3) by (simp add: slab_used_def qt)
  have "bit (ram s ?b AND push_bit t 1) t"
    using set qt(4) by (simp add: bit_simps)
  then have nz: "ram s ?b AND push_bit t 1 \<noteq> 0"
    by (metis bit_0_eq bot_apply bot_bool_def)
  have "?p \<noteq> 0"
    using adr_eq_0_iff [of "a + i * 2 ^ r"] slab_addresses(4) [OF r a(1) i(1)] a by simp
  then have run: "slab_free ?p (c, s) = Some (c, s\<lparr>ram := ?m2\<rparr>)"
    using nz unfolding slab_free_def prod.case Let_def ad(1) rad ad(2) ad(3) ad(4) slab_header_size_def adr_fold qt(1,2)
    by (simp only: if_False if_True not_False_eq_True)
  have md: "modifies (ram s) ?m1 (a + 8) (a + 8 + bitmap_len_bytes r)" "modifies ?m1 ?m2 (a + 4) (a + 6)"
    by (rule modifies_mono [OF modifies_upd] modifies_mono [OF modifies_store16]; use q a g(10) in simp)+
  have md2: "modifies (ram s) ?m2 (a + 4) (a + 8 + bitmap_len_bytes r)"
    by (rule modifies_trans [OF modifies_mono [OF md(1)] modifies_mono [OF md(2)]]) simp_all
  have used: "slab_used ?m2 a j \<longleftrightarrow> slab_used (ram s) a j \<and> j \<noteq> i" if j: "j < 2 ^ (10 - r)" for j
  proof -
    have jb: "j div 8 < bitmap_len_bytes r"
      using j g(2) by linarith
    then have "?m2 (adr (a + 8 + j div 8)) = ?m1 (adr (a + 8 + j div 8))"
      using a g(10) by (intro modifies_at [OF md(2)]) simp_all
    moreover have "adr (a + 8 + j div 8) = ?b \<longleftrightarrow> j div 8 = q"
      using jb q a g(10) by (subst adr_eq_iff) simp_all
    moreover have "j = i \<longleftrightarrow> j div 8 = q \<and> j mod 8 = t"
      using qt by (metis mult_div_mod_eq)
    ultimately show ?thesis
      using qt(4) by (auto simp: slab_used_def bit_simps)
  qed
  have un: "slab_unused ?m2 a r = insert i (slab_unused (ram s) a r)" "i \<notin> slab_unused (ram s) a r"
    using used i(1,3) by (auto simp: slab_unused_def)
  have "finite (slab_unused (ram s) a r)"
    by (simp add: slab_unused_def)
  then have "card (slab_unused ?m2 a r) = Suc (card (slab_unused (ram s) a r))"
    using un by simp
  moreover have "hdr_free ?m1 (adr a) = hdr_free (ram s) (adr a)" "hdr_radix ?m2 (adr a) = hdr_radix (ram s) (adr a)"
    using modifies_load16 [OF md(1), of "a + 4"] modifies_at [OF md(1), of "a + 6"] modifies_at [OF md(2), of "a + 6"] a
    by (simp_all add: hdr_fields)
  ultimately have "slab_ok ?m2 a r"
    using ok used i(2) g(6) unfolding slab_ok_def hdr_fields by (auto simp: of_nat_Suc)
  then show ?thesis
    using run md2 used by blast
qed

lemma slab_free_live:
  assumes wf: "slab_wf c (ram s) R S" and l: "slab_live (ram s) R (unat p) = Some k"
  shows "\<exists>m. slab_free p (c, s) = Some (c, s\<lparr>ram := m\<rparr>) \<and> slab_wf c m R S \<and>
    slab_live m R = (slab_live (ram s) R)(unat p := None) \<and> preserves (slab_live (ram s) R) (ram s) m"
proof -
  obtain a r i where a: "R a = Some r" "r \<in> {1..6}" "unat p = a + i * 2 ^ r" "slab_object (ram s) a r i"
    using slab_liveD [OF wf l] by metis
  note wa = slab_wfD(7) [OF wf a(1)]
  have i: "i < 2 ^ (10 - r)"
    using a(4) by (simp add: slab_object_def)
  obtain m where m: "slab_free p (c, s) = Some (c, s\<lparr>ram := m\<rparr>)" "modifies (ram s) m (a + 4) (a + 8 + bitmap_len_bytes r)"
    "slab_ok m a r" "\<forall>j < 2 ^ (10 - r). slab_used m a j \<longleftrightarrow> slab_used (ram s) a j \<and> j \<noteq> i"
    using slab_free_run [OF a(2) _ _ _ _ a(4), of c] wa a(3) by (metis adr_unat)
  note u = slab_wf_update [OF wf a(1) m(2,3)]
  have "slab_live m R x = ((slab_live (ram s) R)(unat p := None)) x" for x
  proof (cases "x div 1024 * 1024 = a")
    case True
    have "slab_object m a r j \<longleftrightarrow> slab_object (ram s) a r j \<and> j \<noteq> i" for j
      using m(4) by (auto simp: slab_object_def)
    moreover have "2 ^ r dvd x \<Longrightarrow> (x - a) div 2 ^ r = i \<longleftrightarrow> x = unat p"
    proof -
      assume "2 ^ r dvd x"
      moreover have "(2 :: nat) ^ r dvd a"
        using slab_addresses(2) [OF a(2), of a 0] wa by simp
      ultimately have "2 ^ r dvd x - a" "a \<le> x"
        using True by (auto intro: dvd_diff_nat)
      then show "(x - a) div 2 ^ r = i \<longleftrightarrow> x = unat p"
        unfolding a(3) by (metis add_diff_cancel_left' dvd_div_mult_self le_add_diff_inverse nonzero_mult_div_cancel_right power_not_zero zero_neq_numeral)
    qed
    ultimately show ?thesis
      using True a(1) by (auto simp: slab_live_def)
  next
    case False
    moreover have "x \<noteq> unat p"
      using False slab_addresses(1) [OF a(2) _ i, of a] wa a(3) by auto
    ultimately show ?thesis
      using u(3) by simp
  qed
  then show ?thesis
    using m(1) u(1,2) by (intro exI [of _ m]) (auto simp: fun_eq_iff)
qed


text \<open>Freeing an object a second time changes nothing.\<close>

lemma slab_free_unused:
  assumes wf: "slab_wf c (ram s) R S" and a: "R a = Some r" "i < 2 ^ (10 - r)" "\<not> slab_used (ram s) a i"
  shows "slab_free (adr (a + i * 2 ^ r)) (c, s) = Some (c, s)"
proof -
  note w = slab_wfD(7) [OF wf a(1)]
  then have r: "r \<in> {1..6}"
    by simp
  note ad = slab_free_address [OF r _ _ a(2), of a]
  have rad: "unat (hdr_radix (ram s) (adr a)) = r"
    using w by (auto simp: slab_ok_def unsigned_of_nat take_bit_nat_eq_self)
  have z: "ram s (adr (a + 8 + i div 8)) AND push_bit (i mod 8) 1 = 0"
    using a(3) by (intro bit_word_eqI) (auto simp: slab_used_def bit_simps)
  have "adr (a + i * 2 ^ r) \<noteq> 0"
    using adr_eq_0_iff [of "a + i * 2 ^ r"] slab_addresses(4) [OF r _ a(2), of a] w by simp
  then show ?thesis
    using z w ad unfolding slab_free_def prod.case Let_def slab_header_size_def by (simp add: rad adr_fold)
qed

subsection \<open>The allocator interface\<close>

definition slab_rep :: "slabs \<Rightarrow> (nat \<Rightarrow> nat option) \<Rightarrow> bool" where
  "slab_rep cs L \<longleftrightarrow> (\<exists>R S. slab_wf (fst cs) (ram (snd cs)) R S \<and> L = slab_live (ram (snd cs)) R)"

lemma slab_live_apart:
  assumes wf: "slab_wf c m R S" and l: "slab_live m R x = Some j" "slab_live m R y = Some k" "x < y"
  shows "x + j \<le> y"
proof -
  obtain a r i where a: "R a = Some r" "r \<in> {1..6}" "j = 2 ^ r" "x = a + i * 2 ^ r" "x + j \<le> a + 1024" "a + 8 + bitmap_len_bytes r \<le> x"
    using slab_liveD [OF wf l(1)] by metis
  obtain b q i' where b: "R b = Some q" "k = 2 ^ q" "y = b + i' * 2 ^ q" "y + k \<le> b + 1024" "b + 8 + bitmap_len_bytes q \<le> y"
    using slab_liveD [OF wf l(2)] by metis
  show ?thesis
  proof (cases "a = b")
    case True
    then have "q = r" using a b by simp
    then have "Suc i * 2 ^ r \<le> i' * 2 ^ r"
      using l(3) a(4) b(3) True by (intro mult_le_mono1) simp
    then show ?thesis
      using a b True \<open>q = r\<close> by simp
  next
    case False
    then show ?thesis
      using aligned_apart [of a b] slab_wfD(7) [OF wf a(1)] slab_wfD(7) [OF wf b(1)] a b l(3) by auto
  qed
qed

lemma slab_live_range:
  assumes wf: "slab_wf c m R S" and l: "slab_live m R x = Some j"
  shows "0 < x \<and> x + j < 4294967296"
proof -
  obtain a r where a: "R a = Some r" "a + 8 + bitmap_len_bytes r \<le> x" "x + j \<le> a + 1024"
    using slab_liveD [OF wf l] by metis
  then show ?thesis
    using slab_wfD(7) [OF wf a(1)] by simp
qed

interpretation slab: allocator "\<lambda>cs. ram (snd cs)" "\<lambda>m cs. (fst cs, (snd cs)\<lparr>ram := m\<rparr>)" slab_rep id slab_alloc slab_free 64
proof (unfold_locales, goal_cases)
  case (1 cs)
  show ?case
    by (simp add: slab_alloc_def)
next
  case (2 cs L sz)
  obtain c s where cs: "cs = (c, s)"
    by (cases cs)
  obtain R S where R: "slab_wf c (ram s) R S" "L = slab_live (ram s) R"
    using 2(1) by (auto simp: slab_rep_def cs)
  from slab_alloc_cases [OF R(1) 2(2,3)] show ?case
  proof (elim disjE exE conjE)
    assume "slab_alloc sz (c, s) = Some (0, c, section_exit s (ram s))"
    then show ?thesis
      using R by (auto simp: cs slab_rep_def)
  next
    fix p c' m R' S'
    assume "slab_alloc sz (c, s) = Some (p, c', section_exit s m)" "p \<noteq> 0" "slab_wf c' m R' S'"
      "slab_live (ram s) R (unat p) = None" "unat sz \<le> 2 ^ slab_radix sz"
      "slab_live m R' = (slab_live (ram s) R)(unat p \<mapsto> 2 ^ slab_radix sz)" "preserves (slab_live (ram s) R) (ram s) m"
    moreover from this(3,6) have "slab_rep (c', section_exit s m) ((slab_live (ram s) R)(unat p \<mapsto> 2 ^ slab_radix sz))"
      unfolding slab_rep_def by (intro exI [of _ R'] exI [of _ S']) simp
    ultimately show ?thesis
      unfolding cs R(2) id_apply by (intro disjI2 exI conjI) (assumption | simp)+
  qed
next
  case (3 cs)
  show ?case
    by (cases cs) (simp add: slab_free_def)
next
  case (4 cs L p k)
  obtain c s where cs: "cs = (c, s)"
    by (cases cs)
  obtain R S where R: "slab_wf c (ram s) R S" "L = slab_live (ram s) R"
    using 4(1) by (auto simp: slab_rep_def cs)
  with slab_free_live [OF R(1), of p k] 4(2) obtain m where "slab_free p (c, s) = Some (c, s\<lparr>ram := m\<rparr>)" "slab_wf c m R S"
    "slab_live m R = L(unat p := None)" "preserves L (ram s) m"
    by auto
  then show ?case
    unfolding cs by (intro exI [of _ "(c, s\<lparr>ram := m\<rparr>)"] exI [of _ "L(unat p := None)"]) (auto simp: slab_rep_def preserves_remove)
next
  case (5 cs L x j y k)
  then show ?case
    using slab_live_apart by (auto simp: slab_rep_def)
next
  case (6 cs L x j)
  then show ?case
    using slab_live_range by (auto simp: slab_rep_def)
next
  case (7 cs L x j m)
  then obtain R S where R: "slab_wf (fst cs) (ram (snd cs)) R S" "L = slab_live (ram (snd cs)) R"
    by (auto simp: slab_rep_def)
  with slab_wf_write [OF R(1), of x j m] 7(2,3) show ?case
    unfolding slab_rep_def by (intro exI [of _ R] exI [of _ S]) simp
qed

lemma slab_init_wf:
  assumes "start \<noteq> 0" "1024 dvd unat start" "1024 dvd unat len" "unat start + unat len < 4294967296"
    "\<forall>x. unat start \<le> x \<and> x < unat start + unat len \<longrightarrow> m (adr x) = 0"
  shows "slab_wf (slab_init start len) m Map.empty (\<lambda>_. [])"
proof -
  have "unat (start + len) = unat start + unat len"
    using assms(4) by (simp add: unat_word_ariths)
  then show ?thesis
    using assms by (auto simp: slab_wf_def slab_init_def SLAB_MAX_RADIX_def SLAB_MIN_RADIX_def unat_gt_0 nth_Cons' intro!: dvd_add)
qed

subsection \<open>Statistics\<close>

lemma stats_loop_run:
  assumes "slab_chain m p as" "\<forall>a \<in> set as. adr a \<noteq> 0"
  shows "stats_loop r p t f m = Some (t + word_of_nat (length as * (slab_nobjs r - (reserved_objs r + end_reserved_objs r))),
    f + word_of_nat (\<Sum>a \<leftarrow> as. unat (hdr_free m (adr a))))"
  using assms
proof (induction as arbitrary: p t f)
  case Nil
  then show ?case
    using stats_loop.simps [of r p t f m] by simp
next
  case (Cons a as)
  have u: "ucast (hdr_free m (adr a)) = adr (unat (hdr_free m (adr a)))"
    by simp
  have "p \<noteq> 0" "stats_loop r (hdr_next m p) t' f' m = Some (t' + word_of_nat (length as * (slab_nobjs r - (reserved_objs r + end_reserved_objs r))),
      f' + word_of_nat (\<Sum>b \<leftarrow> as. unat (hdr_free m (adr b))))" for t' f'
    using Cons by auto
  then show ?case
    using stats_loop.simps [of r p t f m] Cons.prems(1) u by (simp add: of_nat_add add.assoc)
qed

lemma slab_count:
  assumes wf: "slab_wf c m R S" and r: "r \<in> {1..6}"
  defines "K \<equiv> slab_nobjs r - reserved_objs r"
  shows "length (S r) * K < 4294967296" "(\<Sum>a \<leftarrow> S r. card (slab_unused m a r)) + card {x. slab_live m R x = Some (2 ^ r)} = length (S r) * K"
proof -
  note w = slab_wfD(6) [OF wf r]
  note g = slab_geometry [OF r]
  let ?O = "\<lambda>a. {i. slab_object m a r i}"
  have fin: "finite (?O a)" "finite (slab_unused m a r)" for a
    by (rule finite_subset [of _ "{..<2 ^ (10 - r)}"]; auto simp: slab_object_def slab_unused_def)+
  have in_S: "R a = Some r" "slab_ok m a r" "1024 dvd a" "a < 4294967296" if "a \<in> set (S r)" for a
    using that w slab_wfD(7) [OF wf, of a r] by auto
  have each: "card (slab_unused m a r) + card (?O a) = K" if a: "a \<in> set (S r)" for a
  proof -
    have "slab_unused m a r \<union> ?O a = {reserved_objs r..<2 ^ (10 - r)}" "slab_unused m a r \<inter> ?O a = {}"
      using in_S(2) [OF a] by (auto simp: slab_unused_def slab_object_def slab_ok_def) (meson leI)
    then show ?thesis
      using card_Un_disjoint [OF fin(2,1), of a a] g(1) by (simp add: K_def)
  qed
  have inj: "inj_on (\<lambda>a. a div 1024) (set (S r))"
    using in_S(3) by (intro inj_onI) (metis dvd_div_mult_self)
  have "(\<lambda>a. a div 1024) ` set (S r) \<subseteq> {..<4194304}"
    using in_S(4) by (auto intro!: less_mult_imp_div_less)
  from card_mono [OF _ this] have "card (set (S r)) \<le> 4194304"
    unfolding card_image [OF inj] by simp
  then have "length (S r) \<le> 4194304"
    using distinct_card [OF conjunct1 [OF conjunct2 [OF w]]] by linarith
  moreover have "K \<le> 512"
    using radix_cases [OF r] by (auto simp: K_def slab_nobjs_def SLAB_SIZE_LOG2_def)
  ultimately have "length (S r) * K \<le> 4194304 * 512"
    by (rule mult_le_mono)
  then show "length (S r) * K < 4294967296"
    by simp
  let ?obj = "\<lambda>a i. a + i * 2 ^ r"
  have live: "{x. slab_live m R x = Some (2 ^ r)} = (\<Union>a \<in> set (S r). ?obj a ` ?O a)" (is "?L = ?U")
  proof (intro set_eqI iffI)
    fix x assume "x \<in> ?L"
    then obtain a q i where a: "R a = Some q" "(2 :: nat) ^ r = 2 ^ q" "x = a + i * 2 ^ q" "slab_object m a q i"
      using slab_liveD [OF wf] by (metis mem_Collect_eq)
    moreover have "a \<in> set (S r)"
      using a w by simp
    ultimately show "x \<in> ?U"
      by auto
  next
    fix x assume "x \<in> ?U"
    then obtain a i where a: "a \<in> set (S r)" "x = a + i * 2 ^ r" "slab_object m a r i"
      by auto
    then show "x \<in> ?L"
      using slab_liveI [OF wf in_S(1) [OF a(1)], of i m] by (simp add: slab_object_def)
  qed
  have disj: "?obj a ` ?O a \<inter> ?obj b ` ?O b = {}" if "a \<in> set (S r)" "b \<in> set (S r)" "a \<noteq> b" for a b
  proof -
    have h: "x div 1024 * 1024 = d" if d: "d \<in> set (S r)" "x \<in> ?obj d ` ?O d" for d x
    proof -
      obtain i where i: "x = d + i * 2 ^ r" "slab_object m d r i"
        using d(2) by blast
      then show ?thesis
        using slab_addresses(1) [OF r in_S(3) [OF d(1)], of i] unfolding slab_object_def by blast
    qed
    show ?thesis
    proof (rule equals0I)
      fix x assume "x \<in> ?obj a ` ?O a \<inter> ?obj b ` ?O b"
      then have "x div 1024 * 1024 = a" "x div 1024 * 1024 = b"
        by (intro h; simp add: that)+
      then show False
        using that(3) by simp
    qed
  qed
  have "card ?L = (\<Sum>a \<in> set (S r). card (?obj a ` ?O a))"
    unfolding live using disj fin by (intro card_UN_disjoint) auto
  also have "\<dots> = (\<Sum>a \<in> set (S r). card (?O a))"
    by (intro sum.cong refl card_image inj_onI) simp
  finally have "(\<Sum>a \<leftarrow> S r. card (slab_unused m a r)) + card ?L = (\<Sum>a \<in> set (S r). card (slab_unused m a r) + card (?O a))"
    using w by (simp add: sum_list_distinct_conv_sum_set sum.distrib)
  also have "\<dots> = length (S r) * K"
    using each distinct_card [OF conjunct1 [OF conjunct2 [OF w]]] by simp
  finally show "(\<Sum>a \<leftarrow> S r. card (slab_unused m a r)) + card ?L = length (S r) * K" .
qed

lemma slab_get_stats_run:
  assumes wf: "slab_wf c (ram s) R S" and r: "r \<in> {1..6}"
  shows "\<exists>t f. slab_get_stats r (c, s) = Some (0, t, f) \<and> unat t = length (S r) * (slab_nobjs r - reserved_objs r) \<and>
    unat t = unat f + card {x. slab_live (ram s) R x = Some (2 ^ r)}"
proof -
  note w = slab_wfD(6) [OF wf r] and n = slab_count [OF wf r]
  let ?u = "\<lambda>a. card (slab_unused (ram s) a r)"
  have free: "unat (hdr_free (ram s) (adr a)) = ?u a" "adr a \<noteq> 0" if "a \<in> set (S r)" for a
  proof -
    note wa = slab_wfD(7) [OF wf, of a r]
    have "?u a \<le> card {..<2 ^ (10 - r) :: nat}"
      by (rule card_mono) (auto simp: slab_unused_def)
    also have "\<dots> < 2 ^ 16"
      using radix_cases [OF r] by auto
    finally show "unat (hdr_free (ram s) (adr a)) = ?u a" "adr a \<noteq> 0"
      using wa that w adr_eq_0_iff [of a] by (auto simp: slab_ok_def unsigned_of_nat take_bit_nat_eq_self)
  qed
  define t f where "t = length (S r) * (slab_nobjs r - reserved_objs r)" and "f = (\<Sum>a \<leftarrow> S r. ?u a)"
  have sums: "(\<Sum>a \<leftarrow> S r. unat (hdr_free (ram s) (adr a))) = f"
    unfolding f_def using free(1) by (metis (mono_tags, lifting) map_cong)
  have "slab_get_stats r (c, s) = Some (0, word_of_nat t, word_of_nat f)"
    using r stats_loop_run [of "ram s" "g_slabs c ! (r - 1)" "S r" r 0 0] w free(2) slab_geometry(3) [OF r] sums
    by (simp add: slab_get_stats_def SLAB_MIN_RADIX_def SLAB_MAX_RADIX_def t_def)
  moreover have b: "t < 4294967296" "f + card {x. slab_live (ram s) R x = Some (2 ^ r)} = t"
    using n by (simp_all add: t_def f_def)
  then have "unat (word_of_nat t :: u32) = t" "unat (word_of_nat f :: u32) = f"
    by simp_all
  ultimately show ?thesis
    using b by (intro exI conjI) (assumption | simp add: t_def)+
qed

text \<open>
  \<^verbatim>\<open>slab_get_stats\<close> returns for each radix the number of objects in its slabs and the number
  of free ones; the difference is the number of objects in use.  For a size class that does not
  exist the result is \<^verbatim>\<open>-EINVAL\<close>.
\<close>

theorem slab_get_stats_correct:
  assumes "slab_wf c (ram s) R S"
  shows "if r \<in> {1..6}
    then \<exists>t f. slab_get_stats r (c, s) = Some (0, t, f) \<and> unat t = length (S r) * (slab_nobjs r - reserved_objs r) \<and>
      unat t = unat f + card {x. slab_live (ram s) R x = Some (2 ^ r)}
    else slab_get_stats r (c, s) = Some (- 22, 0, 0)"
proof (cases "r \<in> {1..6}")
  case True
  then show ?thesis
    using slab_get_stats_run [OF assms] by simp
qed (auto simp: slab_get_stats_def SLAB_MIN_RADIX_def SLAB_MAX_RADIX_def)

text \<open>
  C33: Allocation of 1 to 64 bytes with \<^verbatim>\<open>slab_alloc\<close> ends, and its result is NULL only when all
  slabs of the size class are full and the region has no room for another slab; then the state is
  unchanged.  Otherwise it is an object that was not in use, long enough and aligned to its
  length, and it is the only change of the objects in use; the contents of the other objects
  are kept and the state stays well-formed, also when a new slab was made and linked.
\<close>

theorem slab_alloc_correct:
  assumes "slab_wf c (ram s) R S" "sz \<noteq> 0" "unat sz \<le> 64"
  shows "\<exists>p c' m. slab_alloc sz (c, s) = Some (p, c', section_exit s m) \<and>
    (if p = 0 then c' = c \<and> m = ram s \<and> g_slab_end c \<le> g_slab_next c \<and> (\<forall>a \<in> set (S (slab_radix sz)). slab_unused (ram s) a (slab_radix sz) = {})
     else slab_live (ram s) R (unat p) = None \<and> unat sz \<le> 2 ^ slab_radix sz \<and> 2 ^ slab_radix sz dvd unat p \<and>
       (\<exists>R' S'. slab_wf c' m R' S' \<and> slab_live m R' = (slab_live (ram s) R)(unat p \<mapsto> 2 ^ slab_radix sz)) \<and>
       preserves (slab_live (ram s) R) (ram s) m)"
  using slab_alloc_cases [OF assms]
proof (elim disjE exE conjE)
  assume "slab_alloc sz (c, s) = Some (0, c, section_exit s (ram s))" "slab_full c (ram s) R (slab_radix sz)"
  then show ?thesis
    using slab_wfD(6) [OF assms(1) slab_radix_bounds(1) [OF assms(2,3)]] by (auto simp: slab_full_def)
next
  fix p c' m R' S'
  assume "slab_alloc sz (c, s) = Some (p, c', section_exit s m)" "p \<noteq> 0" "slab_wf c' m R' S'"
    "slab_live (ram s) R (unat p) = None" "unat sz \<le> 2 ^ slab_radix sz" "2 ^ slab_radix sz dvd unat p"
    "slab_live m R' = (slab_live (ram s) R)(unat p \<mapsto> 2 ^ slab_radix sz)" "preserves (slab_live (ram s) R) (ram s) m"
  then show ?thesis
    by (intro exI [of _ p] exI [of _ c'] exI [of _ m]) auto
qed

text \<open>
  C34: \<^verbatim>\<open>slab_free\<close> of an object in use makes it free and changes nothing else: the other objects
  stay in use with their contents.  To free it once more has no effect.
\<close>

theorem slab_free_correct:
  assumes "slab_wf c (ram s) R S" "slab_live (ram s) R (unat p) = Some k"
  shows "\<exists>m. slab_free p (c, s) = Some (c, s\<lparr>ram := m\<rparr>) \<and> slab_wf c m R S \<and>
    slab_live m R = (slab_live (ram s) R)(unat p := None) \<and> preserves (slab_live (ram s) R) (ram s) m \<and>
    slab_free p (c, s\<lparr>ram := m\<rparr>) = Some (c, s\<lparr>ram := m\<rparr>)"
proof -
  obtain a r i where a: "R a = Some r" "r \<in> {1..6}" "unat p = a + i * 2 ^ r" "slab_object (ram s) a r i"
    using slab_liveD [OF assms] by metis
  obtain m where m: "slab_free p (c, s) = Some (c, s\<lparr>ram := m\<rparr>)" "slab_wf c m R S"
    "slab_live m R = (slab_live (ram s) R)(unat p := None)" "preserves (slab_live (ram s) R) (ram s) m"
    using slab_free_live [OF assms] by blast
  have "i < 2 ^ (10 - r)" "reserved_objs r \<le> i"
    using a(4) by (simp_all add: slab_object_def)
  then have "\<not> slab_used m a i"
    using slab_liveI [OF m(2) a(1), of i m] m(3) a(3) by (auto simp: slab_object_def split: if_splits)
  with slab_free_unused [of c "s\<lparr>ram := m\<rparr>" R S a r i] m(2) a(1) \<open>i < 2 ^ (10 - r)\<close>
  have "slab_free (adr (a + i * 2 ^ r)) (c, s\<lparr>ram := m\<rparr>) = Some (c, s\<lparr>ram := m\<rparr>)"
    by simp
  then have "slab_free p (c, s\<lparr>ram := m\<rparr>) = Some (c, s\<lparr>ram := m\<rparr>)"
    using a(3) by (metis adr_unat)
  then show ?thesis
    using m by blast
qed

text \<open>A region of two slabs at address 1024, after \<^verbatim>\<open>slab_init\<close>.\<close>

definition slab_sample :: "slab_ctx \<times> machine" where
  "slab_sample = (slab_init 1024 2048, \<lparr>ram = \<lambda>_. 0, irq_enabled = True, preempt_count = 1\<rparr>)"

lemma slab_sample_wf: "slab_wf (fst slab_sample) (ram (snd slab_sample)) Map.empty (\<lambda>_. [])"
  unfolding slab_sample_def fst_conv by (rule slab_init_wf) simp_all

lemma slab_sample_room: "g_slab_next (fst slab_sample) < g_slab_end (fst slab_sample)"
  by (simp add: slab_sample_def slab_init_def)

lemma slab_sample_alloc:
  "\<exists>p c m R S. slab_alloc 5 slab_sample = Some (p, c, section_exit (snd slab_sample) m) \<and> p \<noteq> 0 \<and> slab_wf c m R S \<and>
     slab_live m R (unat p) = Some (2 ^ slab_radix 5)"
proof -
  have "slab_wf (fst slab_sample) (ram (snd slab_sample)) Map.empty (\<lambda>_. [])" "(5 :: u32) \<noteq> 0" "unat (5 :: u32) \<le> 64"
    using slab_sample_wf by simp_all
  from slab_alloc_cases [OF this] slab_sample_room show ?thesis
    by (auto simp: slab_full_def) (metis fun_upd_same)
qed

theorem slab_alloc_correct_witness:
  "\<exists>p c m. slab_alloc 5 slab_sample = Some (p, c, section_exit (snd slab_sample) m) \<and> p \<noteq> 0 \<and> 5 \<le> (2 :: nat) ^ slab_radix 5"
proof -
  have "(5 :: u32) \<noteq> 0" "unat (5 :: u32) \<le> 64"
    by simp_all
  from slab_alloc_correct [OF slab_sample_wf this] slab_sample_room show ?thesis
    by (auto split: if_splits)
qed

theorem slab_free_correct_witness:
  "\<exists>p c s m. slab_alloc 5 slab_sample = Some (p, c, s) \<and> p \<noteq> 0 \<and> slab_free p (c, s) = Some (c, s\<lparr>ram := m\<rparr>)"
proof -
  obtain p c m R S where a: "slab_alloc 5 slab_sample = Some (p, c, section_exit (snd slab_sample) m)" "p \<noteq> 0"
    "slab_wf c (ram (section_exit (snd slab_sample) m)) R S"
    "slab_live (ram (section_exit (snd slab_sample) m)) R (unat p) = Some (2 ^ slab_radix 5)"
    using slab_sample_alloc by auto
  from slab_free_correct [OF a(3,4)] a(1,2) show ?thesis
    by blast
qed

theorem slab_get_stats_correct_witness:
  "\<exists>f. slab_get_stats 3 slab_sample = Some (0, 0, f)"
  using slab_get_stats_correct [OF slab_sample_wf, of 3] by (auto simp: unat_eq_0)

end
