(* ===== verification/Sched.thy ===== *)
theory Sched
  imports Process "HOL-Library.Multiset"
begin

text \<open>
  The process queues: an invariant of the scheduler, the effect of every operation on the run
  and sleep queues, and the bounded wait of a runnable process.  The proofs rest on the facts of
  the \<open>queues\<close> interface that \<^verbatim>\<open>list.h\<close> provides.
\<close>

definition sched_ok :: "kernel \<Rightarrow> u32 list \<Rightarrow> u32 list \<Rightarrow> bool" where
  "sched_ok s run sleep \<longleftrightarrow>
     is_list (k_links s) Run_queue (map Proc run) \<and> is_list (k_links s) Sleep_queue (map Proc sleep) \<and>
     set run \<inter> set sleep = {} \<and> 0 \<notin> set run \<and> 0 \<notin> set sleep \<and> g_current_proc s \<in> set run \<and>
     (\<forall>p \<in> set run. p_state (k_procs s p) = ps_runnable) \<and> (\<forall>p \<in> set sleep. p_state (k_procs s p) = ps_sleeping)"

lemma update_proc_sel [simp]:
  "k_links (update_proc p f s) = k_links s" "g_current_proc (update_proc p f s) = g_current_proc s"
  "k_mach (update_proc p f s) = k_mach s" "k_procs (update_proc p f s) = (k_procs s)(p := f (k_procs s p))"
  "k_images (update_proc p f s) = k_images s" "g_next_pid (update_proc p f s) = g_next_pid s"
  "g_ncontext_switches (update_proc p f s) = g_ncontext_switches s"
  by (simp_all add: update_proc_def)

lemma proc_of_simps [simp]:
  "proc_of (Proc p) = Some p" "proc_of Run_queue = None" "proc_of Sleep_queue = None"
  "proc_of Exited_queue = None" "proc_of Invalid_item = None"
  by (simp_all add: proc_of_def)

lemma hd_map_append: "xs \<noteq> [] \<Longrightarrow> hd (map f xs @ ys) = f (hd xs)"
  by (cases xs) simp_all

lemma queues_disjoint:
  "set run \<inter> set sleep = {} \<Longrightarrow> set (Run_queue # map Proc run) \<inter> set (Sleep_queue # map Proc sleep) = {}"
  by auto

text \<open>What the scheduler picks: the process behind the current one, or the first of the queue.\<close>

lemma sched_next:
  assumes "is_list l Run_queue (map Proc (xs @ c # ys))"
  shows "proc_of (if list_is_last (Proc c) Run_queue l then lnext l Run_queue else lnext l (Proc c)) = Some (hd (ys @ xs @ [c]))"
proof -
  have l: "is_list l Run_queue (map Proc xs @ Proc c # map Proc ys)"
    using assms by simp
  note n = klist.rep_succ [OF l]
  show ?thesis
  proof (cases ys)
    case Nil
    then have "hd (map Proc (xs @ [c]) @ [Run_queue]) = Proc (hd (xs @ [c]))"
      by (intro hd_map_append) simp
    then show ?thesis
      using n klist.rep_first [OF assms] Nil by (simp add: list_is_last_def)
  qed (use n in \<open>simp add: list_is_last_def\<close>)
qed

lemma sched_ok_split:
  assumes "sched_ok s run sleep"
  obtains xs ys where "run = xs @ g_current_proc s # ys" "g_current_proc s \<noteq> 0"
  using assms split_list [of "g_current_proc s" run] unfolding sched_ok_def by metis

lemma sched_runs:
  assumes ok: "sched_ok s run sleep" and run: "run = xs @ g_current_proc s # ys"
  shows "\<exists>s'. sched s = Some s' \<and> sched_ok s' run sleep \<and> g_current_proc s' = hd (ys @ xs @ [g_current_proc s])"
proof -
  let ?c = "g_current_proc s"
  have c: "?c \<noteq> 0" "p_state (k_procs s ?c) = ps_runnable"
    using ok by (auto simp: sched_ok_def)
  have l: "is_list (k_links s) Run_queue (map Proc (xs @ ?c # ys))"
    using ok run by (simp add: sched_ok_def)
  have n: "hd (ys @ xs @ [?c]) \<in> set run"
    using hd_in_set [of "ys @ xs @ [?c]"] run by auto
  have "sched s = Some ((update_proc ?c (\<lambda>p. p\<lparr>p_quanta := p_quanta p + 1\<rparr>) s)
      \<lparr>g_current_proc := hd (ys @ xs @ [?c]), g_ncontext_switches := g_ncontext_switches s + 1\<rparr>)"
    using c unfolding sched_def Let_def update_proc_sel sched_next [OF l] by simp
  then show ?thesis
    using ok n c by (auto simp: sched_ok_def)
qed

lemma sched_blocks:
  assumes ok: "sched_ok s run sleep" and run: "run = xs @ g_current_proc s # ys" and more: "xs @ ys \<noteq> []"
  shows "\<exists>s'. proc_sleep s = Some s' \<and> sched_ok s' (xs @ ys) (sleep @ [g_current_proc s]) \<and> g_current_proc s' = hd (ys @ xs)"
proof -
  let ?c = "g_current_proc s"
  define l where "l = list_move_insert (Proc ?c) Sleep_queue (k_links s)"
  have c: "?c \<noteq> 0" and d: "set run \<inter> set sleep = {}"
    and q: "is_list (k_links s) Run_queue (map Proc run)" "is_list (k_links s) Sleep_queue (map Proc sleep)"
    using ok by (auto simp: sched_ok_def)
  have q1: "is_list (k_links s) Run_queue (map Proc xs @ Proc ?c # map Proc ys)"
    using q(1) run by simp
  have l1: "is_list (k_links s) Run_queue (map Proc (xs @ ?c # ys))"
    using q(1) run by simp
  have "distinct (map Proc run)"
    using klist.rep_distinct [OF q(1)] by simp
  then have dr: "distinct run"
    by (simp add: distinct_map)
  have mv: "is_list l Run_queue (map Proc xs @ map Proc ys)" "is_list l Sleep_queue (map Proc sleep @ [Proc ?c])"
    using klist.move_back [OF q1 q(2)] queues_disjoint [OF d] run unfolding l_def list_move_insert_def by simp_all
  have n: "hd (ys @ xs @ [?c]) = hd (ys @ xs)" "hd (ys @ xs) \<in> set (xs @ ys)"
    using more hd_in_set [of "ys @ xs"] by (auto simp: hd_append)
  have "proc_sleep s = Some ((update_proc ?c (\<lambda>p. p\<lparr>p_state := ps_sleeping, p_quanta := p_quanta p + 1\<rparr>) s)
      \<lparr>g_current_proc := hd (ys @ xs), k_links := l, g_ncontext_switches := g_ncontext_switches s + 1\<rparr>)"
    using c unfolding proc_sleep_def sched_def Let_def update_proc_sel sched_next [OF l1] n l_def
    by (simp add: update_proc_def)
  then show ?thesis
    using ok mv n d dr c run by (auto simp: sched_ok_def)
qed

subsection \<open>Waking a process\<close>

definition woken :: "u32 \<Rightarrow> kernel \<Rightarrow> kernel" where
  "woken p s = (let s = update_proc p (\<lambda>p. p\<lparr>p_state := ps_runnable\<rparr>) s
     in s\<lparr>k_links := list_move_append (Proc p) Run_queue (k_links s)\<rparr>)"

lemma wake_loop_walk:
  assumes "is_list (k_links s) Sleep_queue (map Proc (us @ vs))"
  shows "wake_loop pid (hd (map Proc vs @ [Sleep_queue])) s =
    (case filter (\<lambda>p. p_id (k_procs s p) = pid) vs of [] \<Rightarrow> Some s | p # _ \<Rightarrow> Some (woken p s))"
  using assms
proof (induction vs arbitrary: us)
  case Nil
  show ?case
    by (subst wake_loop.simps) simp
next
  case (Cons p vs)
  have "is_list (k_links s) Sleep_queue (map Proc us @ Proc p # map Proc vs)"
    using Cons.prems by simp
  then have n: "lnext (k_links s) (Proc p) = hd (map Proc vs @ [Sleep_queue])"
    by (rule klist.rep_succ)
  have "wake_loop pid (lnext (k_links s) (Proc p)) s =
      (case filter (\<lambda>p. p_id (k_procs s p) = pid) vs of [] \<Rightarrow> Some s | p # _ \<Rightarrow> Some (woken p s))"
    unfolding n by (rule Cons.IH [of "us @ [p]"]) (use Cons.prems in simp)
  then show ?case
    by (subst wake_loop.simps) (simp add: woken_def Let_def)
qed

lemma wake_cases:
  assumes ok: "sched_ok s run sleep"
  shows "(\<forall>p \<in> set sleep. p_id (k_procs s p) \<noteq> pid) \<and> proc_wake_by_id pid s = Some s \<or>
    (\<exists>us p vs s'. sleep = us @ p # vs \<and> p_id (k_procs s p) = pid \<and> proc_wake_by_id pid s = Some s' \<and>
       sched_ok s' (p # run) (us @ vs) \<and> g_current_proc s' = g_current_proc s)"
proof -
  have q: "is_list (k_links s) Run_queue (map Proc run)" "is_list (k_links s) Sleep_queue (map Proc sleep)"
    and d: "set run \<inter> set sleep = {}"
    using ok by (simp_all add: sched_ok_def)
  have first: "lnext (k_links s) Sleep_queue = hd (map Proc sleep @ [Sleep_queue])"
    using klist.rep_first [OF q(2)] .
  have run: "proc_wake_by_id pid s =
      (case filter (\<lambda>p. p_id (k_procs s p) = pid) sleep of [] \<Rightarrow> Some s | p # _ \<Rightarrow> Some (woken p s))"
    unfolding proc_wake_by_id_def first using wake_loop_walk [of s "[]" sleep pid] q(2) by simp
  show ?thesis
  proof (cases "filter (\<lambda>p. p_id (k_procs s p) = pid) sleep")
    case Nil
    then show ?thesis
      using run by (auto simp: filter_empty_conv)
  next
    case (Cons p ps)
    then obtain us vs where e: "sleep = us @ p # vs" "p_id (k_procs s p) = pid"
      by (auto dest: filter_eq_ConsD)
    have q2: "is_list (k_links s) Sleep_queue (map Proc us @ Proc p # map Proc vs)"
      using q(2) e by simp
    have "set (Sleep_queue # map Proc us @ Proc p # map Proc vs) \<inter> set (Run_queue # map Proc run) = {}"
      using queues_disjoint [OF d] e by auto
    from klist.move_front [OF q2 q(1) this]
    have mv: "is_list (k_links (woken p s)) Sleep_queue (map Proc us @ map Proc vs)"
      "is_list (k_links (woken p s)) Run_queue (Proc p # map Proc run)"
      by (simp_all add: woken_def list_move_append_def)
    have "distinct sleep"
      using klist.rep_distinct [OF q(2)] by (simp add: distinct_map)
    moreover have "p \<noteq> 0"
      using ok e by (auto simp: sched_ok_def)
    ultimately have "sched_ok (woken p s) (p # run) (us @ vs)"
      using ok mv e d by (auto simp: sched_ok_def woken_def Let_def)
    then show ?thesis
      using run Cons e by (intro disjI2 exI [of _ us] exI [of _ p] exI [of _ vs] exI [of _ "woken p s"])
        (simp add: woken_def Let_def)
  qed
qed

subsection \<open>Waiting for the processor\<close>

text \<open>What happens to the queues: the time slice ends, the current process blocks, or one is woken.\<close>

datatype sched_event = Preempt | Block | Wake "16 word"

fun sched_step :: "sched_event \<Rightarrow> kernel \<Rightarrow> kernel option" where
  "sched_step Preempt s = sched s"
| "sched_step Block s = proc_sleep s"
| "sched_step (Wake pid) s = proc_wake_by_id pid s"

fun sched_steps :: "sched_event list \<Rightarrow> kernel \<Rightarrow> kernel option" where
  "sched_steps [] s = Some s"
| "sched_steps (e # es) s = (case sched_step e s of None \<Rightarrow> None | Some s \<Rightarrow> sched_steps es s)"

definition switches :: "sched_event list \<Rightarrow> nat" where
  "switches es = length (filter (\<lambda>e. e = Preempt \<or> e = Block) es)"

text \<open>
  \<open>waits n p c run t\<close>: when \<open>c\<close> is running, \<open>p\<close> is \<open>n\<close> switches away: its distance behind \<open>c\<close>,
  or, when the queue has to wrap around first, the way to its end and a whole turn.
\<close>

definition waits :: "nat \<Rightarrow> u32 \<Rightarrow> u32 \<Rightarrow> u32 list \<Rightarrow> nat \<Rightarrow> bool" where
  "waits n p c run t \<longleftrightarrow> p = c \<and> n = 0 \<or>
     p \<noteq> c \<and> (\<exists>xs us vs. run = xs @ c # us @ p # vs \<and> n = length us + 1) \<or>
     p \<noteq> c \<and> (\<exists>us vs ys. run = us @ p # vs @ c # ys \<and> n = length ys + 1 + t)"

lemma waits_switch:
  assumes "waits n p c (xs @ c # ys) t" "distinct (xs @ c # ys)" "p \<noteq> c" "length (xs @ c # ys) \<le> t"
    and keep: "keep = [c] \<or> keep = []"
  shows "\<exists>n' < n. waits n' p (hd (ys @ xs @ keep)) (xs @ keep @ ys) t"
proof -
  have c: "c \<notin> set xs" "c \<notin> set ys"
    using assms(2) by auto
  have "p \<in> set ys \<and> (\<exists>us vs. ys = us @ p # vs \<and> n = length us + 1) \<or> p \<in> set xs \<and> n = length ys + 1 + t"
    using assms(1) unfolding waits_def
  proof (elim disjE conjE exE)
    fix xs' us vs assume e: "xs @ c # ys = xs' @ c # us @ p # vs" "n = length us + 1"
    then have "xs = xs' \<and> ys = us @ p # vs"
      by (simp only: append_Cons_eq_iff [OF c])
    then show ?thesis
      using e by auto
  next
    fix us vs ys' assume e: "xs @ c # ys = us @ p # vs @ c # ys'" "n = length ys' + 1 + t"
    then have "xs @ c # ys = (us @ p # vs) @ c # ys'"
      by simp
    then have "xs = us @ p # vs \<and> ys = ys'"
      by (simp only: append_Cons_eq_iff [OF c])
    then show ?thesis
      using e by auto
  qed (use assms(3) in simp)
  then show ?thesis
  proof (elim disjE conjE exE)
    fix us vs assume e: "ys = us @ p # vs" "n = length us + 1"
    show ?thesis
    proof (cases us)
      case Nil
      then show ?thesis
        using e by (intro exI [of _ 0]) (simp add: waits_def)
    next
      case (Cons u us')
      have "p \<noteq> u"
        using assms(2) e Cons by auto
      then have "waits (length us' + 1) p u ((xs @ keep) @ u # us' @ p # vs) t"
        unfolding waits_def by blast
      then show ?thesis
        using e Cons by (intro exI [of _ "length us' + 1"]) simp
    qed
  next
    assume p: "p \<in> set xs" "n = length ys + 1 + t"
    obtain us vs where xs: "xs = us @ p # vs"
      using split_list [OF p(1)] by blast
    show ?thesis
    proof (cases ys)
      case (Cons y ys')
      have "p \<noteq> y"
        using assms(2) p Cons by auto
      then have "waits (length ys' + 1 + t) p y (us @ p # (vs @ keep) @ y # ys') t"
        unfolding waits_def by blast
      then show ?thesis
        using p xs Cons by (intro exI [of _ "length ys' + 1 + t"]) simp
    next
      case Nil
      show ?thesis
      proof (cases us)
        case Nil
        then show ?thesis
          using \<open>ys = []\<close> xs p by (intro exI [of _ 0]) (simp add: waits_def)
      next
        case (Cons u us')
        have "p \<noteq> u"
          using assms(2) xs Cons by auto
        then have "waits (length us' + 1) p u ([] @ u # us' @ p # (vs @ keep)) t"
          unfolding waits_def by blast
        then show ?thesis
          using \<open>ys = []\<close> xs p Cons assms(4) by (intro exI [of _ "length us' + 1"]) simp
      qed
    qed
  qed
qed

lemma waits_wake: "waits n p c run t \<Longrightarrow> waits n p c (q # run) t"
  unfolding waits_def by (metis append_Cons)

lemma waits_start:
  assumes "c \<in> set run" "p \<in> set run" "length run \<le> t"
  shows "\<exists>n \<le> 2 * t. waits n p c run t"
proof (cases "p = c")
  case True
  then show ?thesis
    by (intro exI [of _ 0]) (simp add: waits_def)
next
  case False
  obtain xs ys where e: "run = xs @ c # ys"
    using split_list [OF assms(1)] by blast
  then consider us vs where "ys = us @ p # vs" | us vs where "xs = us @ p # vs"
    using assms(2) False by (auto dest: split_list)
  then show ?thesis
  proof cases
    case 1
    then have "waits (length us + 1) p c run t"
      using e False unfolding waits_def by blast
    then show ?thesis
      using 1 e assms(3) by (intro exI [of _ "length us + 1"]) simp
  next
    case 2
    then have "waits (length ys + 1 + t) p c run t"
      using e False unfolding waits_def by (metis append.assoc append_Cons)
    then show ?thesis
      using 2 e assms(3) by (intro exI [of _ "length ys + 1 + t"]) simp
  qed
qed

lemma waits_step:
  assumes ok: "sched_ok s run sleep" and w: "waits n p (g_current_proc s) run (length run + length sleep)"
    and p: "p \<in> set run" "p \<noteq> g_current_proc s"
  shows "\<exists>s' run' sleep' n'. sched_step e s = Some s' \<and> sched_ok s' run' sleep' \<and>
    length run' + length sleep' = length run + length sleep \<and> p \<in> set run' \<and>
    waits n' p (g_current_proc s') run' (length run' + length sleep') \<and> n' + switches [e] \<le> n"
proof -
  obtain xs ys where e: "run = xs @ g_current_proc s # ys"
    using sched_ok_split [OF ok] .
  have "is_list (k_links s) Run_queue (map Proc run)"
    using ok by (simp add: sched_ok_def)
  then have d: "distinct (xs @ g_current_proc s # ys)"
    using klist.rep_distinct e by (fastforce simp: distinct_map)
  have le: "length (xs @ g_current_proc s # ys) \<le> length run + length sleep"
    using e by simp
  have more: "xs @ ys \<noteq> []"
    using p e by auto
  note w' = waits_switch [OF w [unfolded e] d p(2), folded e]
  show ?thesis
  proof (cases e)
    case Preempt
    obtain n' where "n' < n" "waits n' p (hd (ys @ xs @ [g_current_proc s])) (xs @ [g_current_proc s] @ ys) (length run + length sleep)"
      using w' [of "[g_current_proc s]"] e by auto
    then show ?thesis
      using sched_runs [OF ok e] Preempt e p(1) by (fastforce simp: switches_def)
  next
    case Block
    obtain n' where "n' < n" "waits n' p (hd (ys @ xs)) (xs @ ys) (length run + length sleep)"
      using w' [of "[]"] e by auto
    moreover obtain s' where "proc_sleep s = Some s'" "sched_ok s' (xs @ ys) (sleep @ [g_current_proc s])"
      "g_current_proc s' = hd (ys @ xs)"
      using sched_blocks [OF ok e more] by blast
    ultimately show ?thesis
      using Block e p by (intro exI [of _ s'] exI [of _ "xs @ ys"] exI [of _ "sleep @ [g_current_proc s]"] exI [of _ n'])
        (auto simp: switches_def)
  next
    case (Wake pid)
    from wake_cases [OF ok, of pid] show ?thesis
    proof (elim disjE conjE exE)
      assume "proc_wake_by_id pid s = Some s"
      then show ?thesis
        using Wake ok w p(1) by (fastforce simp: switches_def)
    next
      fix us q vs s' assume q: "sleep = us @ q # vs" "proc_wake_by_id pid s = Some s'" "sched_ok s' (q # run) (us @ vs)"
        "g_current_proc s' = g_current_proc s"
      have "waits n p (g_current_proc s') (q # run) (length run + length sleep)"
        using waits_wake w q(4) by simp
      then show ?thesis
        using q Wake p(1) by (intro exI [of _ s'] exI [of _ "q # run"] exI [of _ "us @ vs"] exI [of _ n])
          (auto simp: switches_def)
    qed
  qed
qed

lemma waits_events:
  assumes "sched_ok s run sleep" "p \<in> set run" "waits n p (g_current_proc s) run (length run + length sleep)" "n \<le> switches es"
  shows "\<exists>us vs s'. es = us @ vs \<and> sched_steps us s = Some s' \<and> g_current_proc s' = p"
  using assms
proof (induction es arbitrary: s run sleep n)
  case Nil
  then have "p = g_current_proc s"
    unfolding waits_def switches_def by auto
  then have "([] :: sched_event list) = [] @ [] \<and> sched_steps [] s = Some s \<and> g_current_proc s = p"
    by simp
  then show ?case
    by blast
next
  case (Cons e es)
  show ?case
  proof (cases "p = g_current_proc s")
    case True
    then have "e # es = [] @ (e # es) \<and> sched_steps [] s = Some s \<and> g_current_proc s = p"
      by simp
    then show ?thesis
      by blast
  next
    case False
    obtain s' run' sleep' n' where s': "sched_step e s = Some s'" "sched_ok s' run' sleep'" "p \<in> set run'"
      "waits n' p (g_current_proc s') run' (length run' + length sleep')" "n' + switches [e] \<le> n"
      using waits_step [OF Cons.prems(1,3,2) False, of e] by blast
    have "n' \<le> switches es"
      using s'(5) Cons.prems(4) by (simp add: switches_def split: if_splits)
    from Cons.IH [OF s'(2-4) this] obtain us vs s2 where "es = us @ vs" "sched_steps us s' = Some s2" "g_current_proc s2 = p"
      by blast
    then show ?thesis
      using s'(1) by (intro exI [of _ "e # us"] exI [of _ vs] exI [of _ s2]) simp
  qed
qed

subsection \<open>The last runnable process blocks\<close>

lemma sched_blocks_alone:
  assumes ok: "sched_ok s [g_current_proc s] sleep"
  shows "\<exists>s'. proc_sleep s = Some s' \<and> g_current_proc s' = g_current_proc s \<and>
    list_is_empty Run_queue (k_links s') \<and> p_state (k_procs s' (g_current_proc s')) = ps_sleeping \<and> sched s' = None"
proof -
  let ?c = "g_current_proc s"
  define l where "l = list_move_insert (Proc ?c) Sleep_queue (k_links s)"
  have c: "?c \<noteq> 0" and d: "set [?c] \<inter> set sleep = {}"
    and q: "is_list (k_links s) Run_queue (map Proc ([] @ ?c # []))" "is_list (k_links s) Sleep_queue (map Proc sleep)"
    using ok by (auto simp: sched_ok_def)
  have q1: "is_list (k_links s) Run_queue ([] @ Proc ?c # [])"
    using q(1) by simp
  have mv: "is_list l Run_queue []" "is_list l Sleep_queue (map Proc sleep @ [Proc ?c])"
    using klist.move_back [OF q1 q(2)] queues_disjoint [OF d] unfolding l_def list_move_insert_def by simp_all
  have e: "lnext l Run_queue = Run_queue" "lnext l (Proc ?c) = Sleep_queue"
    using klist.rep_first [OF mv(1)] klist.rep_succ [OF mv(2)] by simp_all
  have "proc_sleep s = Some ((update_proc ?c (\<lambda>p. p\<lparr>p_state := ps_sleeping, p_quanta := p_quanta p + 1\<rparr>) s)
      \<lparr>g_current_proc := ?c, k_links := l, g_ncontext_switches := g_ncontext_switches s + 1\<rparr>)"
    using c unfolding proc_sleep_def sched_def Let_def update_proc_sel sched_next [OF q(1)] l_def
    by (simp add: update_proc_def)
  then show ?thesis
    using c e by (auto simp: list_is_empty_def sched_def Let_def list_is_last_def)
qed

subsection \<open>Semaphores\<close>

text \<open>
  Processes that share a semaphore: the byte and the processes between a successful
  \<^verbatim>\<open>sem_try_acquire\<close> and their \<^verbatim>\<open>sem_release\<close>.
\<close>

inductive sem_step :: "u8 \<times> nat set \<Rightarrow> u8 \<times> nat set \<Rightarrow> bool" where
  sem_got: "sem_try_acquire b = (0, b') \<Longrightarrow> sem_step (b, H) (b', insert i H)"
| sem_busy: "sem_try_acquire b = (- 11, b') \<Longrightarrow> sem_step (b, H) (b', H)"
| sem_put: "i \<in> H \<Longrightarrow> sem_step (b, H) (sem_release b, H - {i})"

inductive_cases sem_stepE: "sem_step st st'"

definition sem_ok :: "u8 \<times> nat set \<Rightarrow> bool" where
  "sem_ok st \<longleftrightarrow> (case st of (b, H) \<Rightarrow> b = 0 \<and> H = {} \<or> b \<noteq> 0 \<and> (\<exists>i. H = {i}))"

lemma tas_nonzero: "(b :: u8) OR 0x80 \<noteq> 0"
  by (simp add: or_eq_0_iff)

lemma sem_ok_step: "sem_step st st' \<Longrightarrow> sem_ok st \<Longrightarrow> sem_ok st'"
  by (erule sem_stepE) (auto simp: sem_ok_def sem_try_acquire_def cpu_tas_def sem_release_def Let_def tas_nonzero split: if_splits)

lemma sem_ok_reachable: "sem_step\<^sup>*\<^sup>* (sem_init, {}) st \<Longrightarrow> sem_ok st"
  by (induction rule: rtranclp_induct) (auto simp: sem_ok_def sem_init_def dest: sem_ok_step)

subsection \<open>Properties\<close>

text \<open>
  C8: No process is starved.  Let a process be in the run queue; then in every sequence of
  time-slice ends, blocking calls of the running process and wake-ups, as soon as the number
  of context switches reaches twice the number of processes, there has been a moment at which the
  process was selected, and every scheduler operation up to it succeeded.  (Woken processes are
  put at the front of the queue, so the wait may take more than one turn.)
\<close>

theorem sched_no_starvation:
  assumes "sched_ok s run sleep" "p \<in> set run" "2 * (length run + length sleep) \<le> switches es"
  shows "\<exists>us vs s'. es = us @ vs \<and> sched_steps us s = Some s' \<and> g_current_proc s' = p"
proof -
  have "g_current_proc s \<in> set run"
    using assms(1) by (simp add: sched_ok_def)
  then obtain n where "n \<le> 2 * (length run + length sleep)" "waits n p (g_current_proc s) run (length run + length sleep)"
    using waits_start [OF _ assms(2)] by (meson le_add1)
  then show ?thesis
    using waits_events [OF assms(1,2)] assms(3) le_trans by blast
qed

text \<open>
  C9: The queues stay well formed and no process is lost or duplicated: the end of a time
  slice, a blocking call (while another process is runnable) and a wake-up by any id return, with
  the links of both queues intact, the current process in the run queue, exactly the runnable
  processes in the run queue and the sleeping ones in the sleep queue.
\<close>

theorem sched_keeps_queues:
  assumes "sched_ok s run sleep" "e = Block \<Longrightarrow> 2 \<le> length run"
  shows "\<exists>s' run' sleep'. sched_step e s = Some s' \<and> sched_ok s' run' sleep' \<and> mset (run' @ sleep') = mset (run @ sleep)"
proof -
  obtain xs ys where r: "run = xs @ g_current_proc s # ys"
    using sched_ok_split [OF assms(1)] .
  show ?thesis
  proof (cases e)
    case Preempt
    then show ?thesis
      using sched_runs [OF assms(1) r] by fastforce
  next
    case Block
    have "xs @ ys \<noteq> []"
      using assms(2) [OF Block] r by (cases xs) auto
    from sched_blocks [OF assms(1) r this] obtain s' where
      "proc_sleep s = Some s'" "sched_ok s' (xs @ ys) (sleep @ [g_current_proc s])"
      by blast
    moreover have "mset ((xs @ ys) @ (sleep @ [g_current_proc s])) = mset (run @ sleep)"
      unfolding r by simp
    ultimately show ?thesis
      using Block by (metis sched_step.simps(2))
  next
    case (Wake pid)
    from wake_cases [OF assms(1), of pid] show ?thesis
      using Wake assms(1) by fastforce
  qed
qed

text \<open>
  C32: When the only runnable process blocks, the scheduler breaks: the process stays current
  although it is asleep, the run queue is empty, and at the next switch the head of the sleep
  queue is taken for a process.
\<close>

theorem sched_last_process_sleeps:
  assumes "sched_ok s [g_current_proc s] sleep"
  shows "\<exists>s'. proc_sleep s = Some s' \<and> g_current_proc s' = g_current_proc s \<and>
    list_is_empty Run_queue (k_links s') \<and> p_state (k_procs s' (g_current_proc s')) = ps_sleeping \<and> sched s' = None"
  by (rule sched_blocks_alone [OF assms])

text \<open>
  C31: A semaphore has at most one holder, and it is free exactly when it has none, in every
  interleaving of attempts to acquire it and releases by its holder.
\<close>

theorem sem_mutual_exclusion:
  assumes "sem_step\<^sup>*\<^sup>* (sem_init, {}) (b, H)"
  shows "card H \<le> 1 \<and> (b = 0 \<longleftrightarrow> H = {}) \<and> (fst (sem_try_acquire b) = 0 \<longleftrightarrow> H = {})"
  using sem_ok_reachable [OF assms]
  by (auto simp: sem_ok_def sem_try_acquire_def cpu_tas_def Let_def)

subsection \<open>A concrete system\<close>

definition three_procs :: kernel where
  "three_procs = \<lparr>k_mach = reset_machine, k_procs = (\<lambda>p. zero_proc\<lparr>p_state := if p = 0x3000 then ps_sleeping else ps_runnable,
       p_id := ucast (drop_bit 12 p)\<rparr>), k_images = (\<lambda>_. \<lparr>img_start = 0, img_entry = 0\<rparr>),
     k_links = list_insert (Proc 0x3000) Sleep_queue (list_insert (Proc 0x2000) Run_queue (list_insert (Proc 0x1000) Run_queue
       (list_init Sleep_queue (list_init Run_queue \<lparr>lnext = (\<lambda>_. Invalid_item), lprev = (\<lambda>_. Invalid_item)\<rparr>)))),
     g_current_proc = 0x1000, g_next_pid = 4, g_ncontext_switches = 0\<rparr>"

lemma three_procs_ok: "sched_ok three_procs [0x1000, 0x2000] [0x3000]"
  by (simp add: sched_ok_def three_procs_def is_list_def linked_def list_insert_def do_list_append_def list_init_def Let_def)

theorem sched_no_starvation_witness:
  "\<exists>us vs s'. [Block, Wake 1, Preempt, Preempt, Wake 3, Preempt, Preempt, Preempt] = us @ vs \<and>
     sched_steps us three_procs = Some s' \<and> g_current_proc s' = 0x2000"
  by (rule sched_no_starvation [OF three_procs_ok]) (simp_all add: switches_def)

theorem sched_keeps_queues_witness:
  "\<exists>s' run' sleep'. sched_step Block three_procs = Some s' \<and> sched_ok s' run' sleep' \<and>
     mset (run' @ sleep') = mset [0x1000, 0x2000, 0x3000]"
  using sched_keeps_queues [OF three_procs_ok, of Block] by simp

definition one_proc :: kernel where
  "one_proc = three_procs\<lparr>k_links := list_insert (Proc 0x1000) Run_queue
       (list_init Sleep_queue (list_init Run_queue \<lparr>lnext = (\<lambda>_. Invalid_item), lprev = (\<lambda>_. Invalid_item)\<rparr>))\<rparr>"

theorem sched_last_process_sleeps_witness:
  "\<exists>s'. proc_sleep one_proc = Some s' \<and> g_current_proc s' = 0x1000 \<and> sched s' = None"
proof -
  have c: "g_current_proc one_proc = 0x1000"
    by (simp add: one_proc_def three_procs_def)
  have "sched_ok one_proc [g_current_proc one_proc] []"
    by (simp add: sched_ok_def one_proc_def three_procs_def is_list_def linked_def list_insert_def do_list_append_def list_init_def Let_def)
  from sched_last_process_sleeps [OF this] show ?thesis
    unfolding c by blast
qed

theorem sem_mutual_exclusion_witness:
  "fst (sem_try_acquire (snd (sem_try_acquire sem_init))) \<noteq> 0"
proof -
  have "sem_step\<^sup>*\<^sup>* (sem_init, {}) (snd (sem_try_acquire sem_init), insert 1 {})"
    by (intro r_into_rtranclp sem_got) (simp add: sem_try_acquire_def cpu_tas_def sem_init_def Let_def)
  from sem_mutual_exclusion [OF this] show ?thesis
    by simp
qed

end
