(* ===== verification/Arenas.thy ===== *)
theory Arenas
  imports Kmalloc CString
begin

text \<open>
  What one kernel function does with the two heaps: the regions \<open>L\<close> that were live when it
  began, which it must not touch, and the regions \<open>own\<close> it has allocated since.  Every
  allocator call and every write into a region of its own keeps this invariant, so a function
  that ends with no regions of its own has leaked nothing.
\<close>

definition outside :: "mem_ctxs \<Rightarrow> nat \<Rightarrow> bool" where
  "outside g x \<longleftrightarrow> (\<forall>A. x \<notin> region (arena_heap g A))"

definition arenas ::
    "mem_ctxs \<Rightarrow> (arena \<Rightarrow> nat \<Rightarrow> nat option) \<Rightarrow> (arena \<Rightarrow> nat \<Rightarrow> nat option) \<Rightarrow> mem \<Rightarrow> machine \<Rightarrow> bool" where
  "arenas g L own r0 m \<longleftrightarrow> apart g \<and>
     (\<forall>A. \<exists>bs. heap_wf (arena_heap g A) (ram m) bs \<and> live (unat (start (arena_heap g A))) bs = L A ++ own A \<and>
        dom (L A) \<inter> dom (own A) = {} \<and> preserves (L A) r0 (ram m)) \<and>
     (\<forall>x < 4294967296. outside g x \<longrightarrow> ram m (adr x) = r0 (adr x))"

lemma arenasD:
  assumes "arenas g L own r0 m"
  obtains bs where "heap_wf (arena_heap g A) (ram m) bs" "live (unat (start (arena_heap g A))) bs = L A ++ own A"
    "dom (L A) \<inter> dom (own A) = {}" "preserves (L A) r0 (ram m)" "apart g"
  using assms unfolding arenas_def by blast

lemma arenas_start:
  assumes "apart g" "\<And>A. \<exists>bs. heap_wf (arena_heap g A) (ram m) bs \<and> live (unat (start (arena_heap g A))) bs = L A"
  shows "arenas g L (\<lambda>_. Map.empty) (ram m) m"
  using assms by (simp add: arenas_def)

text \<open>A write confined to one arena leaves the regions of the other alone.\<close>

lemma other_arena:
  assumes "apart g" "A \<noteq> B" "heap_wf (arena_heap g B) m bs" "modifies m m' lo hi"
    "unat (start (arena_heap g A)) \<le> lo" "hi \<le> unat (start (arena_heap g A)) + unat (hsize (arena_heap g A))"
  shows "heap_wf (arena_heap g B) m' bs" "preserves (live (unat (start (arena_heap g B))) bs) m m'"
proof -
  let ?h = "arena_heap g B"
  have ap: "unat (start ?h) + unat (hsize ?h) \<le> lo \<or> hi \<le> unat (start ?h)"
    using assms(1,2,5,6) by (cases A; cases B) (auto simp: apart_def)
  show "heap_wf ?h m' bs"
    by (rule heap_wf_frame [OF assms(3,4) ap])
  show "preserves (live (unat (start ?h)) bs) m m'"
    unfolding preserves_def
  proof (intro allI impI)
    fix x k assume l: "live (unat (start ?h)) bs x = Some k"
    have "x + k \<le> lo \<or> hi \<le> x"
      using live_in_heap [OF assms(3) l] ap by linarith
    then show "agree m m' x (x + k)"
      using live_fits [OF assms(3) l] by (intro modifies_agree [OF assms(4)]) simp_all
  qed
qed

lemma arenas_step:
  assumes ar: "arenas g L own r0 m"
    and wf: "heap_wf (arena_heap g A) (ram m') bs'" "live (unat (start (arena_heap g A))) bs' = L A ++ own' A"
    and d: "dom (L A) \<inter> dom (own' A) = {}" and pr: "preserves (L A) (ram m) (ram m')"
    and other: "\<And>B. B \<noteq> A \<Longrightarrow> own' B = own B"
    and mod: "modifies (ram m) (ram m') lo hi" "unat (start (arena_heap g A)) \<le> lo"
      "hi \<le> unat (start (arena_heap g A)) + unat (hsize (arena_heap g A))"
  shows "arenas g L own' r0 m'" "B \<noteq> A \<Longrightarrow> preserves (own B) (ram m) (ram m')"
proof -
  have ap: "apart g"
    using ar by (simp add: arenas_def)
  have B: "\<exists>bs. heap_wf (arena_heap g B) (ram m') bs \<and> live (unat (start (arena_heap g B))) bs = L B ++ own' B \<and>
      dom (L B) \<inter> dom (own' B) = {} \<and> preserves (L B) r0 (ram m')" for B
  proof (cases "B = A")
    case True
    obtain bs where "preserves (L A) r0 (ram m)"
      using ar by (rule arenasD)
    then show ?thesis
      using True wf d preserves_trans [OF _ pr] by blast
  next
    case False
    obtain bs where bs: "heap_wf (arena_heap g B) (ram m) bs" "live (unat (start (arena_heap g B))) bs = L B ++ own B"
      "dom (L B) \<inter> dom (own B) = {}" "preserves (L B) r0 (ram m)"
      using ar by (rule arenasD)
    note o = other_arena [OF ap False [symmetric] bs(1) mod]
    have "preserves (L B) (ram m) (ram m')"
      by (rule preserves_mono [OF o(2)]) (use bs(2,3) in \<open>auto simp: map_le_def map_add_def split: option.splits\<close>)
    then show ?thesis
      using o(1) bs False other preserves_trans by metis
  qed
  have out: "ram m' (adr x) = r0 (adr x)" if "x < 4294967296" "outside g x" for x
  proof -
    have "x \<notin> region (arena_heap g A)"
      using that(2) by (simp add: outside_def)
    then have "x < lo \<or> hi \<le> x"
      using mod(2,3) by (auto simp: region_def)
    then have "ram m' (adr x) = ram m (adr x)"
      using mod(1) that(1) by (auto simp: modifies_def agree_def)
    then show ?thesis
      using ar that by (simp add: arenas_def)
  qed
  show "arenas g L own' r0 m'"
    using ap B out by (simp add: arenas_def)
  show "preserves (own B) (ram m) (ram m')" if "B \<noteq> A"
  proof -
    obtain bs where bs: "heap_wf (arena_heap g B) (ram m) bs" "live (unat (start (arena_heap g B))) bs = L B ++ own B"
      using ar by (rule arenasD)
    show ?thesis
      by (rule preserves_mono [OF other_arena(2) [OF ap that [symmetric] bs(1) mod]]) (simp add: bs(2))
  qed
qed

subsection \<open>The operations\<close>

lemma arenas_own_live:
  assumes "arenas g L own r0 m" "own A x = Some k"
  obtains bs where "heap_wf (arena_heap g A) (ram m) bs" "live (unat (start (arena_heap g A))) bs = L A ++ own A"
    "dom (L A) \<inter> dom (own A) = {}" "live (unat (start (arena_heap g A))) bs x = Some k" "L A x = None"
proof -
  obtain bs where bs: "heap_wf (arena_heap g A) (ram m) bs" "live (unat (start (arena_heap g A))) bs = L A ++ own A"
    "dom (L A) \<inter> dom (own A) = {}"
    using assms(1) by (rule arenasD)
  moreover have "live (unat (start (arena_heap g A))) bs x = Some k" "L A x = None"
    using bs(2,3) assms(2) by (auto simp: dom_def)
  ultimately show thesis
    using that by blast
qed

lemma arenas_range:
  assumes "arenas g L own r0 m" "own A x = Some k"
  shows "0 < x" "x + k < 4294967296"
  using arenas_own_live [OF assms] live_fits by metis+

lemma arenas_malloc:
  assumes ar: "arenas g L own r0 m" and n: "n \<noteq> 0" "unat n \<le> 4294967292"
  shows "(\<exists>m'. arena_malloc g A n m = Some (0, m') \<and> arenas g L own r0 m' \<and> (\<forall>B. preserves (own B) (ram m) (ram m'))) \<or>
    (\<exists>p m' k. arena_malloc g A n m = Some (p, m') \<and> p \<noteq> 0 \<and> align4 (unat n) \<le> k \<and> L A (unat p) = None \<and> own A (unat p) = None \<and>
       arenas g L (own(A := (own A)(unat p \<mapsto> k))) r0 m' \<and> (\<forall>B. preserves (own B) (ram m) (ram m')))"
proof -
  let ?h = "arena_heap g A"
  obtain bs where bs: "heap_wf ?h (ram m) bs" "live (unat (start ?h)) bs = L A ++ own A" "dom (L A) \<inter> dom (own A) = {}"
    using ar by (rule arenasD)
  from heap_malloc_cases [OF bs(1) n] show ?thesis
  proof (elim disjE exE conjE)
    assume r: "heap_malloc ?h n m = Some (0, section_exit m (ram m))"
    have "arenas g L own r0 (section_exit m (ram m))"
      using ar by (simp add: arenas_def)
    then show ?thesis
      using r by auto
  next
    fix p r bs' k
    assume r: "heap_malloc ?h n m = Some (p, section_exit m r)" "p \<noteq> 0" "heap_wf ?h r bs'"
      "live (unat (start ?h)) bs (unat p) = None" "align4 (unat n) \<le> k"
      "live (unat (start ?h)) bs' = (live (unat (start ?h)) bs)(unat p \<mapsto> k)" "preserves (live (unat (start ?h)) bs) (ram m) r"
    let ?own = "own(A := (own A)(unat p \<mapsto> k))"
    have fresh: "L A (unat p) = None" "own A (unat p) = None"
      using r(4) unfolding bs(2) by auto
    have pr: "preserves (L A) (ram m) r" "preserves (own A) (ram m) r"
      by (rule preserves_mono [OF r(7)], use bs(2,3) in \<open>auto simp: map_le_def map_add_def split: option.splits\<close>)+
    have mod: "modifies (ram m) r (unat (start ?h)) (unat (start ?h) + unat (hsize ?h))"
      using malloc_step(1) [OF bs(1) _ n(2) r(1)] n(1) by (simp add: unat_gt_0)
    note st = arenas_step [OF ar, of A "section_exit m r" bs' ?own "unat (start ?h)" "unat (start ?h) + unat (hsize ?h)"]
    have "arenas g L ?own r0 (section_exit m r)"
      by (rule st) (use r(3,6) bs(2,3) fresh pr mod in auto)
    moreover have "preserves (own B) (ram m) r" for B
    proof (cases "B = A")
      case False
      show ?thesis
        using arenas_step(2) [OF ar, of A "section_exit m r" bs' ?own "unat (start ?h)" "unat (start ?h) + unat (hsize ?h)" B]
          r(3,6) bs(2,3) fresh pr mod False by auto
    qed (use pr in simp)
    ultimately show ?thesis
      using r(1,2,5) fresh by (intro disjI2 exI [of _ p] exI [of _ "section_exit m r"] exI [of _ k]) simp
  qed
qed

lemma arenas_write:
  assumes ar: "arenas g L own r0 m" and own: "own A x = Some k" and w: "modifies (ram m) r x (x + k)"
  shows "arenas g L own r0 (m\<lparr>ram := r\<rparr>)" "preserves ((own A)(x := None)) (ram m) r" "B \<noteq> A \<Longrightarrow> preserves (own B) (ram m) r"
proof -
  let ?h = "arena_heap g A"
  obtain bs where bs: "heap_wf ?h (ram m) bs" "live (unat (start ?h)) bs = L A ++ own A" "dom (L A) \<inter> dom (own A) = {}"
    "live (unat (start ?h)) bs x = Some k" "L A x = None"
    using arenas_own_live [OF ar own] .
  have wf: "heap_wf ?h r bs"
    by (rule heap_wf_payload [OF bs(1,4) w])
  have pr: "preserves ((live (unat (start ?h)) bs)(x := None)) (ram m) r"
    using heap.write_preserves [of h m bs x k r for h] bs(1,4) w by auto
  have L: "preserves (L A) (ram m) r"
    by (rule preserves_mono [OF pr]) (use bs(2,3,5) in \<open>auto simp: map_le_def map_add_def split: option.splits\<close>)
  note st = arenas_step [OF ar, of A "m\<lparr>ram := r\<rparr>" bs own x "x + k"]
  note reg = live_in_heap [OF bs(1,4)]
  show "arenas g L own r0 (m\<lparr>ram := r\<rparr>)"
    by (rule st(1)) (use wf bs(2,3) L w reg in auto)
  show "preserves ((own A)(x := None)) (ram m) r"
    by (rule preserves_mono [OF pr]) (use bs(2) in \<open>auto simp: map_le_def\<close>)
  show "preserves (own B) (ram m) r" if "B \<noteq> A"
    using st(2) [of B] wf bs(2,3) L w reg that by simp
qed

lemma arenas_free:
  assumes ar: "arenas g L own r0 m" and own: "own A (unat p) = Some k"
  shows "\<exists>m'. arena_free g A p m = Some m' \<and> arenas g L (own(A := (own A)(unat p := None))) r0 m' \<and>
    (\<forall>B. preserves ((own(A := (own A)(unat p := None))) B) (ram m) (ram m'))"
proof -
  let ?h = "arena_heap g A" and ?own = "own(A := (own A)(unat p := None))"
  obtain bs where bs: "heap_wf ?h (ram m) bs" "live (unat (start ?h)) bs = L A ++ own A" "dom (L A) \<inter> dom (own A) = {}"
    "live (unat (start ?h)) bs (unat p) = Some k" "L A (unat p) = None"
    using arenas_own_live [OF ar own] .
  obtain m' bs' where r: "heap_free ?h p m = Some m'" "heap_wf ?h (ram m') bs'"
    "live (unat (start ?h)) bs' = (live (unat (start ?h)) bs)(unat p := None)" "preserves (live (unat (start ?h)) bs') (ram m) (ram m')"
    using heap.free_live [of ?h m bs p k] bs(1,4) by auto
  have l: "live (unat (start ?h)) bs' = L A ++ ?own A"
    using r(3) bs(2,5) by (auto simp: fun_eq_iff map_add_def split: option.splits)
  have d: "dom (L A) \<inter> dom (?own A) = {}"
    using bs(3) by auto
  have pr: "preserves (L A) (ram m) (ram m')" "preserves (?own A) (ram m) (ram m')"
    by (rule preserves_mono [OF r(4)], use l d in \<open>auto simp: map_le_def map_add_def split: option.splits\<close>)+
  note mod = free_step(1) [OF bs(1,4) r(1)]
  note st = arenas_step [where own' = ?own and A = A, OF ar r(2) l d pr(1) _ mod]
  have "arenas g L ?own r0 m'"
    by (rule st(1)) auto
  moreover have "preserves (?own B) (ram m) (ram m')" for B
    using pr(2) st(2) [of B] by (cases "B = A") auto
  ultimately show ?thesis
    using r(1) by auto
qed

lemma arenas_kcalloc:
  assumes ar: "arenas g L own r0 m" and n: "0 < unat n * unat sz" "unat n * unat sz \<le> 4294967292"
  shows "(\<exists>m'. kcalloc g n sz m = Some (0, m') \<and> arenas g L own r0 m' \<and> (\<forall>B. preserves (own B) (ram m) (ram m'))) \<or>
    (\<exists>p m' k. kcalloc g n sz m = Some (p, m') \<and> p \<noteq> 0 \<and> unat n * unat sz \<le> k \<and> L Kernel (unat p) = None \<and>
       own Kernel (unat p) = None \<and> arenas g L (own(Kernel := (own Kernel)(unat p \<mapsto> k))) r0 m' \<and>
       (\<forall>B. preserves (own B) (ram m) (ram m')))"
proof -
  have un: "unat (n * sz) = unat n * unat sz"
    using n(2) by (simp add: unat_mult_lem [THEN iffD1])
  then have nz: "n * sz \<noteq> 0" "unat (n * sz) \<le> 4294967292"
    using n by auto
  let ?w = "unat (drop_bit 2 (n * sz + (2 ^ 2 - 1)))"
  have run: "kcalloc g n sz m = (case arena_malloc g Kernel (n * sz) m of None \<Rightarrow> None
      | Some (p, s') \<Rightarrow> Some (p, if p \<noteq> 0 then s'\<lparr>ram := zero_words p ?w (ram s')\<rparr> else s'))"
    by (simp add: kcalloc_def kmalloc_def heap_calloc_def Let_def)
  from arenas_malloc [OF ar nz, of Kernel] show ?thesis
  proof (elim disjE exE conjE)
    fix m' assume "arena_malloc g Kernel (n * sz) m = Some (0, m')" "arenas g L own r0 m'" "\<forall>B. preserves (own B) (ram m) (ram m')"
    then show ?thesis
      unfolding run by simp
  next
    fix p m' k
    assume p: "arena_malloc g Kernel (n * sz) m = Some (p, m')" "p \<noteq> 0" "align4 (unat (n * sz)) \<le> k" "L Kernel (unat p) = None"
      "own Kernel (unat p) = None" "arenas g L (own(Kernel := (own Kernel)(unat p \<mapsto> k))) r0 m'"
      "\<forall>B. preserves (own B) (ram m) (ram m')"
    let ?own = "own(Kernel := (own Kernel)(unat p \<mapsto> k))" and ?r = "zero_words p ?w (ram m')"
    have own: "?own Kernel (unat p) = Some k"
      by simp
    note range = arenas_range [OF p(6) own]
    have w: "4 * ?w \<le> k" "unat n * unat sz \<le> k"
      using word_count_align4 [OF nz(2)] p(3) align4_bounds(1) [of "unat (n * sz)"] un by simp_all
    have mod: "modifies (ram m') ?r (unat p) (unat p + k)"
      using zero_words_spec [of "unat p" ?w "ram m'"] range w by (auto elim: modifies_mono)
    note wr = arenas_write [OF p(6) own mod]
    have own': "(?own Kernel)(unat p := None) = own Kernel"
      using p(5) by (auto simp: fun_eq_iff)
    have "preserves (own B) (ram m') ?r" for B
      using wr(2) [unfolded own'] wr(3) [of B] by (cases "B = Kernel") simp_all
    then have "preserves (own B) (ram m) ?r" for B
      using p(7) preserves_trans by blast
    moreover define own2 where "own2 = ?own"
    have "arenas g L own2 r0 (m'\<lparr>ram := ?r\<rparr>)"
      unfolding own2_def by (rule wr(1))
    ultimately show ?thesis
      using p(1-5) w(2) unfolding run
      by (intro disjI2 exI [of _ p] exI [of _ "m'\<lparr>ram := ?r\<rparr>"] exI [of _ k], unfold own2_def [symmetric]) simp
  qed
qed

subsection \<open>Ranges that stay as they are\<close>

text \<open>A range inside a region of the two heaps, or outside both heaps.\<close>

definition within :: "(arena \<Rightarrow> nat \<Rightarrow> nat option) \<Rightarrow> nat \<Rightarrow> nat \<Rightarrow> bool" where
  "within l a n \<longleftrightarrow> (\<exists>A x k. l A x = Some k \<and> x \<le> a \<and> a + n \<le> x + k)"

definition kept :: "mem_ctxs \<Rightarrow> (arena \<Rightarrow> nat \<Rightarrow> nat option) \<Rightarrow> nat \<Rightarrow> nat \<Rightarrow> bool" where
  "kept g L a n \<longleftrightarrow> a + n \<le> 4294967296 \<and> (within L a n \<or> (\<forall>x. a \<le> x \<and> x < a + n \<longrightarrow> outside g x))"

lemma kept_agree:
  assumes "arenas g L own r0 m" "kept g L a n"
  shows "agree r0 (ram m) a (a + n)"
proof -
  consider A x k where "L A x = Some k" "x \<le> a" "a + n \<le> x + k" | "\<forall>x. a \<le> x \<and> x < a + n \<longrightarrow> outside g x"
    using assms(2) by (auto simp: kept_def within_def)
  then show ?thesis
  proof cases
    case 1
    obtain bs where "preserves (L A) r0 (ram m)"
      using assms(1) by (rule arenasD)
    then show ?thesis
      by (intro agree_mono [OF _ 1(2,3)] preservesD [of "L A", OF _ 1(1)])
  next
    case 2
    then show ?thesis
      using assms by (auto simp: arenas_def agree_def kept_def)
  qed
qed

text \<open>Two live regions are apart, and a region is apart from what is outside the heaps.\<close>

lemma arenas_apart:
  assumes ar: "arenas g L own r0 m" and x: "(L A ++ own A) x = Some j" and y: "(L B ++ own B) y = Some k"
    and ne: "(A, x) \<noteq> (B, y)"
  shows "x + j \<le> y \<or> y + k \<le> x"
proof -
  obtain bs where a: "heap_wf (arena_heap g A) (ram m) bs" "live (unat (start (arena_heap g A))) bs = L A ++ own A" "apart g"
    using ar by (rule arenasD)
  obtain cs where b: "heap_wf (arena_heap g B) (ram m) cs" "live (unat (start (arena_heap g B))) cs = L B ++ own B"
    using ar by (rule arenasD)
  show ?thesis
  proof (cases "A = B")
    case True
    have l: "live (unat (start (arena_heap g A))) bs x = Some j" "live (unat (start (arena_heap g A))) bs y = Some k"
      using a(2) x y True by simp_all
    have "x \<noteq> y"
      using ne True by simp
    then show ?thesis
      using live_disjoint [OF l] live_disjoint [OF l(2,1)] by (cases "x < y") auto
  next
    case False
    then show ?thesis
      using live_in_heap [OF a(1), of x j] live_in_heap [OF b(1), of y k] a(2,3) b(2) x y
      by (cases A; cases B) (auto simp: apart_def)
  qed
qed

lemma arenas_outside:
  assumes "arenas g L own r0 m" "(L A ++ own A) x = Some j" "outside g y"
  shows "y < x \<or> x + j \<le> y"
proof -
  obtain bs where a: "heap_wf (arena_heap g A) (ram m) bs" "live (unat (start (arena_heap g A))) bs = L A ++ own A"
    using assms(1) by (rule arenasD)
  have "y \<notin> region (arena_heap g A)"
    using assms(3) by (simp add: outside_def)
  then show ?thesis
    using live_in_heap [OF a(1), of x j] a(2) assms(2) by (auto simp: region_def)
qed

text \<open>A source range that is kept, or lies in a region of the function's own.\<close>

definition stable :: "mem_ctxs \<Rightarrow> (arena \<Rightarrow> nat \<Rightarrow> nat option) \<Rightarrow> (arena \<Rightarrow> nat \<Rightarrow> nat option) \<Rightarrow> nat \<Rightarrow> nat \<Rightarrow> bool" where
  "stable g L own a n \<longleftrightarrow> a + n \<le> 4294967296 \<and> (kept g L a n \<or> within own a n)"

lemma stable_agree:
  assumes "arenas g L own r0 m" "arenas g L own' r0 m'" "stable g L own a n" "\<forall>B. preserves (own B) (ram m) (ram m')"
  shows "agree (ram m) (ram m') a (a + n)"
proof -
  consider "kept g L a n" | A x k where "own A x = Some k" "x \<le> a" "a + n \<le> x + k"
    using assms(3) by (auto simp: stable_def within_def)
  then show ?thesis
  proof cases
    case 1
    then show ?thesis
      using kept_agree [OF assms(1)] kept_agree [OF assms(2)] agree_sym agree_trans by blast
  next
    case 2
    then show ?thesis
      using preservesD [of "own A"] assms(4) agree_mono by blast
  qed
qed

lemma stable_apart:
  assumes ar: "arenas g L own' r0 m" and st: "stable g L own a n" and n: "0 < n"
    and le: "\<And>A. own A \<subseteq>\<^sub>m own' A" and p: "own' A p = Some k" "own A p = None" "0 < k"
  shows "a + n \<le> p \<or> p + k \<le> a"
proof -
  have d: "dom (L B) \<inter> dom (own' B) = {}" for B
    using ar by (rule arenasD)
  have pl: "(L A ++ own' A) p = Some k"
    using p(1) by simp
  consider B x j where "L B x = Some j" "x \<le> a" "a + n \<le> x + j" | "\<forall>x. a \<le> x \<and> x < a + n \<longrightarrow> outside g x"
    | B x j where "own B x = Some j" "x \<le> a" "a + n \<le> x + j"
    using st by (auto simp: stable_def kept_def within_def)
  then show ?thesis
  proof cases
    case 1
    have "own' B x = None"
      using d [of B] 1(1) by (auto simp: dom_def)
    then have "(L B ++ own' B) x = Some j" "(A, p) \<noteq> (B, x)"
      using 1(1) p(1) by (auto simp: map_add_def)
    then show ?thesis
      using arenas_apart [OF ar pl, of B x j] 1(2,3) by linarith
  next
    case 2
    show ?thesis
    proof (rule ccontr)
      assume "\<not> ?thesis"
      then have o: "a < p + k" "p < a + n"
        by auto
      show False
      proof (cases "p \<le> a")
        case True
        then show False
          using arenas_outside [OF ar pl, of a] 2 n o by auto
      next
        case False
        then show False
          using arenas_outside [OF ar pl, of p] 2 o p(3) by auto
      qed
    qed
  next
    case 3
    have "own' B x = Some j"
      using le [of B] 3(1) by (auto simp: map_le_def dom_def)
    then have "(L B ++ own' B) x = Some j" "(A, p) \<noteq> (B, x)"
      using 3(1) p(1,2) by auto
    then show ?thesis
      using arenas_apart [OF ar pl, of B x j] 3(2,3) by linarith
  qed
qed

lemma cstr_agree:
  assumes "cstr m (adr a) t" "agree m m' a (a + length t + 1)"
  shows "cstr m' (adr a) t"
proof (rule cstr_frame [OF assms(1)], intro allI impI)
  fix i assume "i \<le> length t"
  then have "m' (adr (a + i)) = m (adr (a + i))"
    using assms(2) by (simp add: agree_def)
  then show "m' (adr a + adr i) = m (adr a + adr i)"
    by (simp only: of_nat_add)
qed

text \<open>\<^verbatim>\<open>strdup\<close> of a string that the allocation cannot disturb.\<close>

lemma arenas_strdup:
  assumes ar: "arenas g L own r0 m" and t: "cstr (ram m) (adr a) t" "stable g L own a (length t + 1)"
    and len: "length t < 4294967292"
  shows "(\<exists>m'. strdup (kmalloc g) (adr a) m = Some (0, m') \<and> arenas g L own r0 m' \<and> (\<forall>B. preserves (own B) (ram m) (ram m'))) \<or>
    (\<exists>p m' k. strdup (kmalloc g) (adr a) m = Some (p, m') \<and> p \<noteq> 0 \<and> length t + 1 \<le> k \<and> L Kernel (unat p) = None \<and>
       own Kernel (unat p) = None \<and> arenas g L (own(Kernel := (own Kernel)(unat p \<mapsto> k))) r0 m' \<and> cstr (ram m') p t \<and>
       (\<forall>B. preserves (own B) (ram m) (ram m')))"
proof -
  have n: "adr (length t) + 1 + 0 \<noteq> 0" "unat (adr (length t) + 1 + 0) = length t + 1"
    using len by (simp_all add: unat_word_ariths unat_of_nat unat_eq_0 [symmetric])
  then have n': "unat (adr (length t) + 1 + 0) \<le> 4294967292"
    using len by simp
  have run: "strdup (kmalloc g) (adr a) m = (case arena_malloc g Kernel (adr (length t) + 1 + 0) m of None \<Rightarrow> None
      | Some (buf, st') \<Rightarrow> if buf = 0 then Some (0, st')
          else map_option (\<lambda>(p, m). (p, st'\<lparr>ram := m\<rparr>)) (strcpy buf (adr a) (ram st')))"
    by (simp add: strdup_def strdupext_def strlen_cstr [OF t(1)] kmalloc_def)
  have a: "a + length t < 4294967296"
    using t(2) by (simp add: stable_def)
  from arenas_malloc [OF ar n(1) n', of Kernel] show ?thesis
  proof (elim disjE exE conjE)
    fix m' assume "arena_malloc g Kernel (adr (length t) + 1 + 0) m = Some (0, m')" "arenas g L own r0 m'" "\<forall>B. preserves (own B) (ram m) (ram m')"
    then show ?thesis
      unfolding run by simp
  next
    fix p m1 k
    assume p: "arena_malloc g Kernel (adr (length t) + 1 + 0) m = Some (p, m1)" "p \<noteq> 0" "align4 (unat (adr (length t) + 1 + 0)) \<le> k"
      "L Kernel (unat p) = None" "own Kernel (unat p) = None" "arenas g L (own(Kernel := (own Kernel)(unat p \<mapsto> k))) r0 m1"
      "\<forall>B. preserves (own B) (ram m) (ram m1)"
    define own2 where "own2 = own(Kernel := (own Kernel)(unat p \<mapsto> k))"
    note ar2 = p(6) [folded own2_def]
    have k: "length t + 1 \<le> k"
      using p(3) n(2) align4_bounds(1) [of "length t + 1"] by simp
    have own: "own2 Kernel (unat p) = Some k"
      by (simp add: own2_def)
    have sub: "own A \<subseteq>\<^sub>m own2 A" for A
      using p(5) by (auto simp: own2_def map_le_def dom_def)
    have src: "cstr (ram m1) (adr a) t"
      using cstr_agree [OF t(1)] stable_agree [OF ar ar2 t(2) p(7)] by (simp add: add.assoc)
    have ap: "a + (length t + 1) \<le> unat p \<or> unat p + k \<le> a"
      by (rule stable_apart [OF ar2 t(2) _ sub own p(5)]) (use k in auto)
    note range = arenas_range [OF ar2 own]
    have "p + adr i \<noteq> adr a + adr j" if "i \<le> length t" "j \<le> length t" for i j
    proof -
      have u: "unat (p + adr i) = unat p + i" "unat (adr a + adr j) = a + j"
        using that range k a by (simp_all add: unat_word_ariths unat_of_nat)
      have "unat p + i \<noteq> a + j"
        using that ap k by auto
      then show ?thesis
        using u by metis
    qed
    then obtain r where r: "strcpy_loop p (adr a) (ram m1) = Some r" "cstr r p t"
      "\<forall>x. (\<forall>i \<le> length t. x \<noteq> p + adr i) \<longrightarrow> r x = ram m1 x"
      using strcpy_loop_cstr [OF src, of p] len by auto
    have mod: "modifies (ram m1) r (unat p) (unat p + k)"
      unfolding modifies_def agree_def
    proof (intro conjI allI impI; elim conjE)
      fix x assume x: "x < unat p"
      have "adr x \<noteq> p + adr i" if "i \<le> length t" for i
      proof -
        have "unat (p + adr i) = unat p + i" "unat (adr x) = x"
          using that range k x unsigned_less [of p, where 'a = nat] by (simp_all add: unat_word_ariths unat_of_nat)
        then show ?thesis
          using x by auto
      qed
      then show "r (adr x) = ram m1 (adr x)"
        using r(3) by blast
    next
      fix x assume x: "unat p + k \<le> x" "x < 4294967296"
      have "adr x \<noteq> p + adr i" if "i \<le> length t" for i
      proof -
        have "unat (p + adr i) = unat p + i" "unat (adr x) = x"
          using that range k x by (simp_all add: unat_word_ariths unat_of_nat)
        then have "unat (adr x) \<noteq> unat (p + adr i)"
          using x that k by linarith
        then show ?thesis
          by metis
      qed
      then show "r (adr x) = ram m1 (adr x)"
        using r(3) by blast
    qed
    note wr = arenas_write [OF ar2 own mod]
    have own': "(own2 Kernel)(unat p := None) = own Kernel"
      using p(5) by (auto simp: fun_eq_iff own2_def)
    have "preserves (own B) (ram m1) r" for B
      using wr(2) [unfolded own'] wr(3) [of B] by (cases "B = Kernel") (simp_all add: own2_def)
    then have "preserves (own B) (ram m) r" for B
      using p(7) preserves_trans by blast
    moreover have "strdup (kmalloc g) (adr a) m = Some (p, m1\<lparr>ram := r\<rparr>)"
      unfolding run p(1) using p(2) r(1) by (simp add: strcpy_def)
    ultimately show ?thesis
      using p(2,4,5) k wr(1) r(2)
      by (intro disjI2 exI [of _ p] exI [of _ "m1\<lparr>ram := r\<rparr>"] exI [of _ k], unfold own2_def [symmetric]) simp
  qed
qed

end
