(* ===== verification/Process_Create.thy ===== *)
theory Process_Create
  imports Sched Arenas
begin

text \<open>
  \<^verbatim>\<open>proc_create\<close> on the two heaps and the queues: whatever fails, all memory it took is given
  back; when it succeeds the process is at the end of the run queue and owns its structure, its
  stacks and its working directory.
\<close>

definition owns :: "(nat \<Rightarrow> nat option) \<Rightarrow> (nat \<Rightarrow> nat option) \<Rightarrow> arena \<Rightarrow> nat \<Rightarrow> nat option" where
  "owns K U A = (case A of Kernel \<Rightarrow> K | User \<Rightarrow> U)"

lemma owns_simps [simp]:
  "owns K U Kernel = K" "owns K U User = U"
  "(owns K U)(Kernel := K') = owns K' U" "(owns K U)(User := U') = owns K U'"
  by (auto simp: owns_def fun_eq_iff split: arena.splits)

lemma owns_empty: "(\<lambda>_. Map.empty) = owns Map.empty Map.empty"
  by (auto simp: owns_def fun_eq_iff split: arena.splits)

lemma kfree_owned:
  assumes "arenas g L (owns K U) r0 m" "K (unat q) = Some k"
  shows "\<exists>m'. kfree g q m = Some m' \<and> arenas g L (owns (K(unat q := None)) U) r0 m' \<and>
    preserves (K(unat q := None)) (ram m) (ram m') \<and> preserves U (ram m) (ram m')"
  using arenas_free [OF assms(1), of Kernel q k] assms(2)
  by (auto simp: kfree_def) (metis owns_simps(1) owns_simps(2))+

lemma ufree_owned:
  assumes ar: "arenas g L (owns K U) r0 m" and q: "q = 0 \<or> U (unat q) = Some k"
  shows "\<exists>m'. ufree g q m = Some m' \<and> arenas g L (owns K (U(unat q := None))) r0 m'"
proof (cases "q = 0")
  case True
  have "U 0 = None"
    using arenas_range(1) [OF ar, of User 0] by (cases "U 0") auto
  then have "U(unat q := None) = U"
    using True by (auto simp: fun_eq_iff)
  then show ?thesis
    using ar True by (simp add: ufree_def heap_free_def)
next
  case False
  then show ?thesis
    using arenas_free [OF ar, of User q k] q by (auto simp: ufree_def)
qed

lemma create_ustack_cases:
  assumes ar: "arenas g L (owns [unat p \<mapsto> kp] Map.empty) r0 m" and len: "unat n \<le> 4294967292"
  shows "(\<exists>ret m'. proc_create_ustack g p n flags m = Some (Inl ret, m') \<and> ret \<in> {- 12, - 22} \<and>
       arenas g L (owns Map.empty Map.empty) r0 m') \<or>
    (\<exists>u U m'. proc_create_ustack g p n flags m = Some (Inr u, m') \<and> arenas g L (owns [unat p \<mapsto> kp] U) r0 m' \<and>
       (U = Map.empty \<and> u = 0 \<and> n = 0 \<and> flags AND PROC_TYPE_KERNEL \<noteq> 0 \<or> u \<noteq> 0 \<and> n \<noteq> 0 \<and> (\<exists>k. U = [unat u \<mapsto> k] \<and> unat n \<le> k)))"
proof (cases "n = 0")
  case True
  have e: "[unat p \<mapsto> kp](unat p := None) = Map.empty"
    by auto
  show ?thesis
    using kfree_owned [OF ar, of p kp, unfolded e] ar True by (auto simp: proc_create_ustack_def)
next
  case False
  have e: "[unat p \<mapsto> kp](unat p := None) = Map.empty"
    by auto
  from arenas_malloc [OF ar False len, of User] show ?thesis
  proof (elim disjE exE conjE)
    fix m' assume m: "arena_malloc g User n m = Some (0, m')" "arenas g L (owns [unat p \<mapsto> kp] Map.empty) r0 m'"
    show ?thesis
      using kfree_owned [OF m(2), of p kp, unfolded e] m(1) False by (auto simp: proc_create_ustack_def umalloc_def)
  next
    fix u m' k assume m: "arena_malloc g User n m = Some (u, m')" "u \<noteq> 0" "align4 (unat n) \<le> k"
      "arenas g L ((owns [unat p \<mapsto> kp] Map.empty)(User := (owns [unat p \<mapsto> kp] Map.empty User)(unat u \<mapsto> k))) r0 m'"
    have "unat n \<le> k"
      using m(3) align4_bounds(1) order.trans by blast
    moreover have "arenas g L (owns [unat p \<mapsto> kp] [unat u \<mapsto> k]) r0 m'"
      using m(4) by simp
    ultimately show ?thesis
      using m(1,2) False by (intro disjI2 exI [of _ u] exI [of _ "[unat u \<mapsto> k]"] exI [of _ m']) (auto simp: proc_create_ustack_def umalloc_def)
  qed
qed

text \<open>A canonical path is not longer than the path.\<close>

lemma outs_push: "length (outs (push st c)) \<le> length (outs st) + length c + 1"
  by (cases st rule: rev_cases) (auto simp: push_def outs_def)

lemma outs_foldl_push: "length (outs (foldl push st cs)) \<le> length (outs st) + sum_list (map (\<lambda>c. length c + 1) cs)"
proof (induction cs arbitrary: st)
  case (Cons c cs)
  show ?case
    using Cons.IH [of "push st c"] outs_push [of st c] by simp
qed simp

lemma split_sep_size: "sum_list (map (\<lambda>c. length c + 1) (split_sep s)) = length s + 1"
  by (induction s rule: split_sep.induct) (auto split: list.splits)

lemma canonical_shorter: "length (outs (canonical s)) \<le> length s + 1"
  using outs_foldl_push [of "[]" "split_sep s"] unfolding canonical_def split_sep_size by simp

text \<open>What the working directory of the new process is, given the text of the path.\<close>

definition cwd_text :: "bool \<Rightarrow> u8 list \<Rightarrow> u8 list" where
  "cwd_text given t = (if given then outs (canonical (tl t)) else t)"

lemma create_cwd_cases:
  assumes ar: "arenas g L (owns K U) r0 m" and src: "src = (if wd = 0 then dir else wd)"
    and t: "cstr (ram m) (adr (unat src)) t" "kept g L (unat src) (length t + 1)" "length t < 4294967292"
    and wd: "wd = 0 \<or> t \<noteq> [] \<and> hd t = 47"
  shows "(\<exists>m'. proc_create_cwd g wd dir m = Some (0, m') \<and> arenas g L (owns K U) r0 m') \<or>
    (\<exists>c k m'. proc_create_cwd g wd dir m = Some (c, m') \<and> c \<noteq> 0 \<and> K (unat c) = None \<and>
       length (cwd_text (wd \<noteq> 0) t) + 1 \<le> k \<and>
       arenas g L (owns (K(unat c \<mapsto> k)) U) r0 m' \<and> cstr (ram m') c (cwd_text (wd \<noteq> 0) t))"
proof -
  have st: "stable g L (owns K U) (unat src) (length t + 1)"
    using t(2) by (simp add: stable_def kept_def)
  note dup = arenas_strdup [OF ar t(1) st t(3)]
  show ?thesis
  proof (cases "wd = 0")
    case True
    from dup show ?thesis
      using True src by (auto simp: proc_create_cwd_def cwd_text_def)
  next
    case False
    obtain t' where t': "t = 47 # t'"
      using wd False by (cases t) auto
    from dup show ?thesis
    proof (elim disjE exE conjE)
      fix m' assume "strdup (kmalloc g) (adr (unat src)) m = Some (0, m')" "arenas g L (owns K U) r0 m'"
      then show ?thesis
        using False src by (auto simp: proc_create_cwd_def)
    next
      fix w m1 k1
      assume w: "strdup (kmalloc g) (adr (unat src)) m = Some (w, m1)" "w \<noteq> 0" "length t + 1 \<le> k1" "owns K U Kernel (unat w) = None"
        "arenas g L ((owns K U)(Kernel := (owns K U Kernel)(unat w \<mapsto> k1))) r0 m1" "cstr (ram m1) w t"
      let ?K = "K(unat w \<mapsto> k1)" and ?o = "outs (canonical t')"
      have ar1: "arenas g L (owns ?K U) r0 m1"
        using w(5) by simp
      have own1: "owns ?K U Kernel (unat w) = Some k1"
        by simp
      note range = arenas_range [OF ar1 own1]
      have fit: "unat w + length t' + 1 < 4294967296" "cstr (ram m1) (adr (unat w)) (47 # t')"
        using range w(3,6) t' by simp_all
      obtain r where r: "path_canonicalise (adr (unat w)) (ram m1) = Some (adr (unat w), r)" "cstr r (adr (unat w)) ?o"
        "modifies (ram m1) r (unat w) (unat w + length t' + 2)"
        using path_canonicalise_run [OF range(1) fit] by blast
      have mod: "modifies (ram m1) r (unat w) (unat w + k1)"
        by (rule modifies_mono [OF r(3)]) (use w(3) t' in simp_all)
      note ar2 = arenas_write(1) [OF ar1 own1 mod]
      have short: "length ?o + 1 \<le> k1" "length ?o < 4294967292"
        using canonical_shorter [of t'] w(3) t' t(3) by simp_all
      have c1: "cstr (ram (m1\<lparr>ram := r\<rparr>)) (adr (unat w)) ?o"
        using r(2) by simp
      have "within (owns ?K U) (unat w) (length ?o + 1)"
        unfolding within_def using short(1) by (intro exI [of _ Kernel] exI [of _ "unat w"] exI [of _ k1]) simp
      then have st1: "stable g L (owns ?K U) (unat w) (length ?o + 1)"
        using range short(1) by (simp add: stable_def)
      have run: "proc_create_cwd g wd dir m = do {
          (cwd, m) \<leftarrow> strdup (kmalloc g) w (m1\<lparr>ram := r\<rparr>);
          m \<leftarrow> kfree g w m;
          Some (cwd, m) }"
        using False src w(1,2) r(1) by (simp add: proc_create_cwd_def)
      have K: "?K(unat w := None) = K"
        using w(4) by (auto simp: fun_eq_iff)
      from arenas_strdup [OF ar2 c1 st1 short(2)] show ?thesis
      proof (elim disjE exE conjE)
        fix m2 assume m2: "strdup (kmalloc g) (adr (unat w)) (m1\<lparr>ram := r\<rparr>) = Some (0, m2)" "arenas g L (owns ?K U) r0 m2"
        obtain m3 where "kfree g w m2 = Some m3" "arenas g L (owns K U) r0 m3"
          using kfree_owned [OF m2(2), of w k1, unfolded K] by auto
        then show ?thesis
          using m2(1) unfolding run by simp
      next
        fix c m2 k2
        assume m2: "strdup (kmalloc g) (adr (unat w)) (m1\<lparr>ram := r\<rparr>) = Some (c, m2)" "c \<noteq> 0" "length ?o + 1 \<le> k2"
          "owns ?K U Kernel (unat c) = None" "arenas g L ((owns ?K U)(Kernel := (owns ?K U Kernel)(unat c \<mapsto> k2))) r0 m2"
          "cstr (ram m2) c ?o"
        let ?K2 = "?K(unat c \<mapsto> k2)"
        have ar3: "arenas g L (owns ?K2 U) r0 m2"
          using m2(5) by simp
        have cw: "unat c \<noteq> unat w" "K (unat c) = None"
          using m2(4) by (auto split: if_splits)
        have K2: "?K2(unat w := None) = K(unat c \<mapsto> k2)"
          using cw w(4) by (auto simp: fun_eq_iff)
        obtain m3 where m3: "kfree g w m2 = Some m3" "arenas g L (owns (K(unat c \<mapsto> k2)) U) r0 m3"
          "preserves (K(unat c \<mapsto> k2)) (ram m2) (ram m3)"
          using kfree_owned [OF ar3, of w k1, unfolded K2] cw by auto
        have "agree (ram m2) (ram m3) (unat c) (unat c + length ?o + 1)"
          by (rule agree_mono [OF preservesD [OF m3(3), of "unat c" k2]]) (use m2(3) in simp_all)
        then have "cstr (ram m3) c ?o"
          using cstr_agree [of "ram m2" "unat c" ?o] m2(6) by simp
        moreover have "proc_create_cwd g wd dir m = Some (c, m3)"
          using m2(1) m3(1) unfolding run by simp
        moreover have "cwd_text (wd \<noteq> 0) t = ?o"
          using False t' by (simp add: cwd_text_def)
        ultimately show ?thesis
          using m2(2,3) m3(2) cw by (intro disjI2 exI [of _ c] exI [of _ k2] exI [of _ m3]) simp
      qed
    qed
  qed
qed

subsection \<open>The first stack frames\<close>

lemma adr_minus: "n \<le> a \<Longrightarrow> adr a - adr n = adr (a - n)"
  by (simp only: of_nat_diff)

lemma two_longs:
  assumes "8 \<le> a" "a \<le> 4294967296"
  shows "modifies m (store32 (store32 m (adr a - 4) v) (adr a - 4 - 4) w) (a - 8) a"
proof -
  have e: "adr a - 4 = adr (a - 4)" "adr (a - 4) - 4 = adr (a - 8)"
    using adr_minus [of 4 a] adr_minus [of 4 "a - 4"] assms(1) by simp_all
  have "modifies m (store32 m (adr (a - 4)) v) (a - 8) a"
    by (rule modifies_mono [OF modifies_store32]) (use assms in simp_all)
  moreover have "modifies (store32 m (adr (a - 4)) v) (store32 (store32 m (adr (a - 4)) v) (adr (a - 8)) w) (a - 8) a"
    by (rule modifies_mono [OF modifies_store32]) (use assms in simp_all)
  ultimately show ?thesis
    unfolding e by (rule modifies_trans)
qed

lemma exception_frame:
  assumes "8 \<le> a" "a \<le> 4294967296"
  shows "modifies m (store16 (store32 (store16 m (adr a - 8 + 6) x) (adr a - 8 + 2) y) (adr a - 8) z) (a - 8) a"
proof -
  have e: "adr a - 8 = adr (a - 8)" "adr (a - 8) + 6 = adr (a - 8 + 6)" "adr (a - 8) + 2 = adr (a - 8 + 2)"
    using adr_minus [of 8 a] assms(1) by (simp_all only: of_nat_add of_nat_numeral)
  let ?m1 = "store16 m (adr (a - 8 + 6)) x"
  let ?m2 = "store32 ?m1 (adr (a - 8 + 2)) y"
  have "modifies m ?m1 (a - 8) a"
    by (rule modifies_mono [OF modifies_store16]) (use assms in simp_all)
  moreover have "modifies ?m1 ?m2 (a - 8) a"
    by (rule modifies_mono [OF modifies_store32]) (use assms in simp_all)
  moreover have "modifies ?m2 (store16 ?m2 (adr (a - 8)) z) (a - 8) a"
    by (rule modifies_mono [OF modifies_store16]) (use assms in simp_all)
  ultimately show ?thesis
    unfolding e by (blast intro: modifies_trans)
qed

text \<open>
  \<^verbatim>\<open>cpu_proc_init\<close> fails without touching memory, or fills the top of the kernel stack and,
  for a user process, the top of the user stack.
\<close>

lemma cpu_proc_init_cases:
  assumes "16 \<le> kt" "kt \<le> 4294967296" "flags AND PROC_TYPE_KERNEL = 0 \<Longrightarrow> 8 \<le> ut \<and> ut \<le> 4294967296"
  shows "(\<exists>r. cpu_proc_init rg entry arg (adr ut) (adr kt) flags m = (- 22, r, m)) \<or>
    (\<exists>r m1 m2. cpu_proc_init rg entry arg (adr ut) (adr kt) flags m = (0, r, m2) \<and> r_pc r = entry \<and>
       (if flags AND PROC_TYPE_KERNEL = 0 then modifies m m1 (ut - 8) ut else m1 = m) \<and> modifies m1 m2 (kt - 16) kt)"
proof (cases "entry AND 1 \<noteq> 0 \<or> adr kt AND 1 \<noteq> 0 \<or> adr ut AND 1 \<noteq> 0")
  case True
  then show ?thesis
    by (simp add: cpu_proc_init_def)
next
  case odd: False
  show ?thesis
  proof (cases "flags AND PROC_TYPE_KERNEL = 0")
    case True
    let ?m1 = "store32 (store32 m (adr ut - 4) arg) (adr ut - 4 - 4) 0"
    have "modifies m ?m1 (ut - 8) ut"
      using two_longs assms(3) True by blast
    moreover have "modifies ?m1 (store16 (store32 (store16 ?m1 (adr kt - 8 + 6) 0) (adr kt - 8 + 2) entry) (adr kt - 8) 0) (kt - 16) kt"
      by (rule modifies_mono [OF exception_frame]) (use assms in simp_all)
    ultimately show ?thesis
      using odd True unfolding cpu_proc_init_def by (intro disjI2) (simp add: Let_def, blast)
  next
    case False
    let ?m1 = "store32 (store32 m (adr kt - 4) arg) (adr kt - 4 - 4) 0"
    have e: "adr kt - 4 - 4 = adr (kt - 8)"
      using adr_minus [of 8 kt] assms(1) by simp
    have "modifies m ?m1 (kt - 16) kt"
      by (rule modifies_mono [OF two_longs]) (use assms in simp_all)
    moreover have "modifies ?m1 (store16 (store32 (store16 ?m1 (adr kt - 4 - 4 - 8 + 6) 0) (adr kt - 4 - 4 - 8 + 2) entry)
        (adr kt - 4 - 4 - 8) MC68K_SR_SUPERVISOR) (kt - 16) kt"
      unfolding e by (rule modifies_mono [OF exception_frame]) (use assms in simp_all)
    ultimately have "modifies m (store16 (store32 (store16 ?m1 (adr kt - 4 - 4 - 8 + 6) 0) (adr kt - 4 - 4 - 8 + 2) entry)
        (adr kt - 4 - 4 - 8) MC68K_SR_SUPERVISOR) (kt - 16) kt"
      by (rule modifies_trans)
    then show ?thesis
      using odd False unfolding cpu_proc_init_def by (intro disjI2) (simp add: Let_def)
  qed
qed

text \<open>The stacks are written inside the blocks of the two stacks, and nothing else of the process.\<close>

lemma start_frames:
  assumes ar: "arenas g L (owns K U) r0 m"
    and ks: "K (unat ks) = Some kk" "2048 \<le> kk" and c: "K (unat c) = Some kc" "unat c \<noteq> unat ks"
    and u: "U = Map.empty \<and> u = 0 \<and> n = 0 \<and> flags AND PROC_TYPE_KERNEL \<noteq> 0 \<or> (\<exists>k. U = [unat u \<mapsto> k] \<and> unat n \<le> k)"
    and n: "flags AND PROC_TYPE_KERNEL \<noteq> 0 \<or> 8 \<le> unat n"
  shows "(\<exists>r. cpu_proc_init rg entry arg (u + n) (ks + PROC_KSTACK_LEN) flags (ram m) = (- 22, r, ram m)) \<or>
    (\<exists>r m2. cpu_proc_init rg entry arg (u + n) (ks + PROC_KSTACK_LEN) flags (ram m) = (0, r, m2) \<and> r_pc r = entry \<and>
       arenas g L (owns K U) r0 (m\<lparr>ram := m2\<rparr>) \<and> agree (ram m) m2 (unat c) (unat c + kc))"
proof -
  note kr = arenas_range [OF ar, of Kernel "unat ks" kk, simplified, OF ks(1)]
  have kt: "ks + PROC_KSTACK_LEN = adr (unat ks + 2048)" "16 \<le> unat ks + 2048" "unat ks + 2048 \<le> 4294967296"
    using kr ks(2) by (simp_all add: PROC_KSTACK_LEN_def of_nat_add)
  have ut: "u + n = adr (unat u + unat n)"
    by (simp add: of_nat_add)
  have user: "8 \<le> unat u + unat n \<and> unat u + unat n \<le> 4294967296" if f: "flags AND PROC_TYPE_KERNEL = 0"
  proof -
    obtain k where k: "U = [unat u \<mapsto> k]" "unat n \<le> k"
      using u f by auto
    then show ?thesis
      using arenas_range [OF ar, of User "unat u" k] n f by simp
  qed
  have "(\<exists>r. cpu_proc_init rg entry arg (adr (unat u + unat n)) (adr (unat ks + 2048)) flags (ram m) = (- 22, r, ram m)) \<or>
    (\<exists>r m1 m2. cpu_proc_init rg entry arg (adr (unat u + unat n)) (adr (unat ks + 2048)) flags (ram m) = (0, r, m2) \<and> r_pc r = entry \<and>
       (if flags AND PROC_TYPE_KERNEL = 0 then modifies (ram m) m1 (unat u + unat n - 8) (unat u + unat n) else m1 = ram m) \<and>
       modifies m1 m2 (unat ks + 2048 - 16) (unat ks + 2048))"
    by (rule cpu_proc_init_cases [OF kt(2,3) user])
  then show ?thesis
    unfolding kt(1) ut
  proof (elim disjE exE conjE)
    fix r m1 m2
    assume run: "cpu_proc_init rg entry arg (adr (unat u + unat n)) (adr (unat ks + 2048)) flags (ram m) = (0, r, m2)"
      and pc: "r_pc r = entry"
      and w: "if flags AND PROC_TYPE_KERNEL = 0 then modifies (ram m) m1 (unat u + unat n - 8) (unat u + unat n) else m1 = ram m"
        "modifies m1 m2 (unat ks + 2048 - 16) (unat ks + 2048)"
    have one: "arenas g L (owns K U) r0 (m\<lparr>ram := m1\<rparr>) \<and> agree (ram m) m1 (unat c) (unat c + kc)"
    proof (cases "flags AND PROC_TYPE_KERNEL = 0")
      case True
      obtain k where k: "U = [unat u \<mapsto> k]" "unat n \<le> k"
        using u True by auto
      have own: "owns K U User (unat u) = Some k"
        using k(1) by simp
      have mod: "modifies (ram m) m1 (unat u) (unat u + k)"
        by (rule modifies_mono [of "ram m" m1 "unat u + unat n - 8" "unat u + unat n"]) (use w(1) True k(2) n in auto)
      note wr = arenas_write [OF ar own mod]
      have "preserves (owns K U Kernel) (ram m) m1"
        by (rule wr(3)) simp
      then have "agree (ram m) m1 (unat c) (unat c + kc)"
        by (rule preservesD) (use c(1) in simp)
      then show ?thesis
        using wr(1) by simp
    qed (use ar w(1) in simp)
    then have ar1: "arenas g L (owns K U) r0 (m\<lparr>ram := m1\<rparr>)" by simp
    have own: "owns K U Kernel (unat ks) = Some kk"
      using ks(1) by simp
    have mod: "modifies (ram (m\<lparr>ram := m1\<rparr>)) m2 (unat ks) (unat ks + kk)"
      using modifies_mono [OF w(2)] ks(2) by simp
    note wr = arenas_write [OF ar1 own mod]
    have "agree m1 m2 (unat c) (unat c + kc)"
      using preservesD [OF wr(2), of "unat c" kc] c by simp
    then have "agree (ram m) m2 (unat c) (unat c + kc)"
      using one agree_trans by blast
    then show "(\<exists>r. cpu_proc_init rg entry arg (adr (unat u + unat n)) (adr (unat ks + 2048)) flags (ram m) = (- 22, r, ram m)) \<or>
      (\<exists>r m2. cpu_proc_init rg entry arg (adr (unat u + unat n)) (adr (unat ks + 2048)) flags (ram m) = (0, r, m2) \<and> r_pc r = entry \<and>
         arenas g L (owns K U) r0 (m\<lparr>ram := m2\<rparr>) \<and> agree (ram m) m2 (unat c) (unat c + kc))"
      using run pc wr(1) by auto
  qed blast
qed

lemma kfree_all:
  assumes ar: "arenas g L (owns K U) r0 m" and K: "K = [unat p \<mapsto> kp, unat ks \<mapsto> kk, unat c \<mapsto> kc]"
    and d: "distinct [unat p, unat ks, unat c]" and u: "u = 0 \<and> U = Map.empty \<or> (\<exists>k. U = [unat u \<mapsto> k])"
  shows "\<exists>m1 m2 m3 m4. kfree g c m = Some m1 \<and> kfree g ks m1 = Some m2 \<and> ufree g u m2 = Some m3 \<and> kfree g p m3 = Some m4 \<and>
    arenas g L (owns Map.empty Map.empty) r0 m4"
proof -
  have e: "K(unat c := None) = [unat p \<mapsto> kp, unat ks \<mapsto> kk]" "[unat p \<mapsto> kp, unat ks \<mapsto> kk](unat ks := None) = [unat p \<mapsto> kp]"
    "[unat p \<mapsto> kp](unat p := None) = Map.empty"
    using d by (auto simp: K fun_eq_iff)
  have "K (unat c) = Some kc"
    by (simp add: K)
  then obtain m1 where m1: "kfree g c m = Some m1" "arenas g L (owns [unat p \<mapsto> kp, unat ks \<mapsto> kk] U) r0 m1"
    using kfree_owned [OF ar, of c kc, unfolded e] by auto
  obtain m2 where m2: "kfree g ks m1 = Some m2" "arenas g L (owns [unat p \<mapsto> kp] U) r0 m2"
    using kfree_owned [OF m1(2), of ks kk, unfolded e] by auto
  have U: "U(unat u := None) = Map.empty"
    using u by (auto simp: fun_eq_iff)
  have "\<exists>k. u = 0 \<or> U (unat u) = Some k"
    using u by auto
  then obtain k where "u = 0 \<or> U (unat u) = Some k"
    by blast
  then obtain m3 where m3: "ufree g u m2 = Some m3" "arenas g L (owns [unat p \<mapsto> kp] Map.empty) r0 m3"
    using ufree_owned [OF m2(2), of u, unfolded U] by blast
  obtain m4 where "kfree g p m3 = Some m4" "arenas g L (owns Map.empty Map.empty) r0 m4"
    using kfree_owned [OF m3(2), of p kp, unfolded e] by auto
  then show ?thesis
    using m1(1) m2(1) m3(1) by blast
qed

text \<open>A process that is in neither queue joins the run queue.\<close>

lemma sched_ok_join:
  assumes ok: "sched_ok s run sleep" and p: "p \<notin> set run" "p \<notin> set sleep" "p \<noteq> 0"
    and s': "k_links s' = list_insert (Proc p) Run_queue (list_init (Proc p) (k_links s))"
      "g_current_proc s' = g_current_proc s" "\<And>q. q \<noteq> p \<Longrightarrow> k_procs s' q = k_procs s q" "p_state (k_procs s' p) = ps_runnable"
  shows "sched_ok s' (run @ [p]) sleep"
proof -
  let ?l = "list_init (Proc p) (k_links s)"
  have q: "is_list (k_links s) Run_queue (map Proc run)" "is_list (k_links s) Sleep_queue (map Proc sleep)"
    and d: "set run \<inter> set sleep = {}"
    using ok by (simp_all add: sched_ok_def)
  have new: "Proc p \<notin> set (Run_queue # map Proc run)" "Proc p \<notin> set (Sleep_queue # map Proc sleep)"
    using p by auto
  have q': "is_list ?l Run_queue (map Proc run)" "is_list ?l Sleep_queue (map Proc sleep)"
    using q new by (subst is_list_cong; auto simp: list_init_def Let_def)+
  have "is_list (k_links s') Run_queue (map Proc run @ [Proc p])" "is_list (k_links s') Sleep_queue (map Proc sleep)"
    unfolding s'(1) using klist.push_back [OF q'(1) new(1)] klist.push_back_frame [OF q'(1) new(1) q'(2) new(2) queues_disjoint [OF d]]
    by simp_all
  then show ?thesis
    using ok p s' by (auto simp: sched_ok_def) (metis)+
qed

lemma sched_ok_same:
  assumes ok: "sched_ok s run sleep" and p: "p \<notin> set run" "p \<notin> set sleep"
    and s': "k_links s' = list_init (Proc p) (k_links s)" "g_current_proc s' = g_current_proc s"
      "\<And>q. q \<noteq> p \<Longrightarrow> k_procs s' q = k_procs s q"
  shows "sched_ok s' run sleep"
proof -
  have q: "is_list (k_links s) Run_queue (map Proc run)" "is_list (k_links s) Sleep_queue (map Proc sleep)"
    using ok by (simp_all add: sched_ok_def)
  have new: "Proc p \<notin> set (Run_queue # map Proc run)" "Proc p \<notin> set (Sleep_queue # map Proc sleep)"
    using p by auto
  have q': "is_list (k_links s') Run_queue (map Proc run)" "is_list (k_links s') Sleep_queue (map Proc sleep)"
    unfolding s'(1) using q new by (subst is_list_cong; auto simp: list_init_def Let_def)+
  then show ?thesis
    using ok p s' by (auto simp: sched_ok_def) (metis)+
qed

text \<open>What the new process is given.\<close>

definition born :: "proc_args \<Rightarrow> u32 \<Rightarrow> u32 \<Rightarrow> u32 \<Rightarrow> 16 word \<Rightarrow> proc \<Rightarrow> bool" where
  "born a u ks c pid pr \<longleftrightarrow> p_id pr = pid \<and> p_state pr = ps_runnable \<and> p_uid pr = a_uid a \<and> p_gid pr = a_gid a \<and>
     p_parent pr = a_parent a \<and> p_ustack pr = u \<and> p_kstack pr = ks \<and> p_cwd pr = c \<and> p_name pr = take 31 (a_name a)"

lemma create_start_cases:
  assumes ar: "arenas g L (owns K U) r0 (k_mach s)" and K: "K = [unat p \<mapsto> kp, unat ks \<mapsto> kk, unat c \<mapsto> kc]"
    and d: "distinct [unat p, unat ks, unat c]" and kk: "2048 \<le> kk"
    and u: "U = Map.empty \<and> u = 0 \<and> a_stack_len a = 0 \<and> ucast (a_flags a) AND PROC_TYPE_KERNEL \<noteq> 0 \<or>
      (\<exists>k. U = [unat u \<mapsto> k] \<and> unat (a_stack_len a) \<le> k)"
    and n: "ucast (a_flags a) AND PROC_TYPE_KERNEL \<noteq> 0 \<or> 8 \<le> unat (a_stack_len a)"
    and img: "a_entry a \<noteq> 0 \<or> a_img a \<noteq> 0"
    and ok: "sched_ok s run sleep" "p \<notin> set run" "p \<notin> set sleep" "p \<noteq> 0"
    and t: "cstr (ram (k_mach s)) c t" "length t + 1 \<le> kc"
  shows "(\<exists>s'. proc_create_start g a p u ks c s = Some (- 22, 0, s') \<and> arenas g L (owns Map.empty Map.empty) r0 (k_mach s') \<and>
       sched_ok s' run sleep) \<or>
    (\<exists>s'. proc_create_start g a p u ks c s = Some (0, g_next_pid s, s') \<and> arenas g L (owns K U) r0 (k_mach s') \<and>
       sched_ok s' (run @ [p]) sleep \<and> born a u ks c (g_next_pid s) (k_procs s' p) \<and> cstr (ram (k_mach s')) c t)"
proof -
  define pr where "pr = zero_proc\<lparr>p_ustack := u, p_kstack := ks, p_cwd := c, p_exit_code := S32_MIN,
      p_default_perm := PROC_DEFAULT_FILE_PERM, p_parent := a_parent a, p_uid := a_uid a, p_gid := a_gid a,
      p_img := a_img a, p_arg := a_arg a, p_name := take 31 (a_name a)\<rparr>"
  define entry where "entry = (if a_entry a = 0 then img_entry (k_images s (a_img a)) else a_entry a)"
  have img': "\<not> (a_entry a = 0 \<and> a_img a = 0)"
    using img by simp
  have e: "K (unat ks) = Some kk" "K (unat c) = Some kc" "unat c \<noteq> unat ks"
    using d by (auto simp: K)
  have u': "u = 0 \<and> U = Map.empty \<or> (\<exists>k. U = [unat u \<mapsto> k])"
    using u by blast
  from start_frames [OF ar e(1) kk e(2,3) u n, of "p_regs pr" entry "a_arg a"]
  show ?thesis
  proof (elim disjE exE conjE)
    fix r assume r: "cpu_proc_init (p_regs pr) entry (a_arg a) (u + a_stack_len a) (ks + PROC_KSTACK_LEN) (ucast (a_flags a)) (ram (k_mach s))
        = (- 22, r, ram (k_mach s))"
    obtain m1 m2 m3 m4 where f: "kfree g c (k_mach s) = Some m1" "kfree g ks m1 = Some m2" "ufree g u m2 = Some m3" "kfree g p m3 = Some m4"
      "arenas g L (owns Map.empty Map.empty) r0 m4"
      using kfree_all [OF ar K d u'] by blast
    define s' where "s' = s\<lparr>k_procs := (k_procs s)(p := pr\<lparr>p_regs := r\<rparr>), k_links := list_init (Proc p) (k_links s), k_mach := m4\<rparr>"
    have "proc_create_start g a p u ks c s = Some (- 22, 0, s')"
      unfolding proc_create_start_def Let_def pr_def [symmetric] if_not_P [OF img']
      using r f(1-4) by (cases "a_entry a = 0") (simp_all add: s'_def entry_def)
    moreover have "sched_ok s' run sleep"
      by (rule sched_ok_same [OF ok(1-3)]) (simp_all add: s'_def)
    ultimately show ?thesis
      using f(5) by (intro disjI1 exI [of _ s']) (simp add: s'_def)
  next
    fix r m2
    assume r: "cpu_proc_init (p_regs pr) entry (a_arg a) (u + a_stack_len a) (ks + PROC_KSTACK_LEN) (ucast (a_flags a)) (ram (k_mach s))
        = (0, r, m2)"
      and ar2: "arenas g L (owns K U) r0 ((k_mach s)\<lparr>ram := m2\<rparr>)" and ag: "agree (ram (k_mach s)) m2 (unat c) (unat c + kc)"
    define s' where "s' = s\<lparr>k_procs := (k_procs s)(p := pr\<lparr>p_regs := r, p_state := ps_runnable, p_id := g_next_pid s\<rparr>),
        k_links := list_insert (Proc p) Run_queue (list_init (Proc p) (k_links s)), g_next_pid := g_next_pid s + 1,
        k_mach := preempt_enable (preempt_disable ((k_mach s)\<lparr>ram := m2\<rparr>))\<rparr>"
    have "proc_create_start g a p u ks c s = Some (0, g_next_pid s, s')"
      unfolding proc_create_start_def Let_def pr_def [symmetric] if_not_P [OF img']
      using r by (cases "a_entry a = 0") (simp_all add: s'_def entry_def update_proc_def)
    moreover have "sched_ok s' (run @ [p]) sleep"
      by (rule sched_ok_join [OF ok]) (simp_all add: s'_def)
    moreover have "arenas g L (owns K U) r0 (k_mach s')"
      using ar2 by (simp add: arenas_def s'_def)
    moreover have "born a u ks c (g_next_pid s) (k_procs s' p)"
      by (simp add: born_def s'_def pr_def)
    moreover have "cstr m2 c t"
      using cstr_agree [of "ram (k_mach s)" "unat c" t m2] t agree_mono [OF ag, of "unat c" "unat c + length t + 1"] by simp
    ultimately show ?thesis
      by (intro disjI2 exI [of _ s']) (simp add: s'_def)
  qed
qed

subsection \<open>The whole function\<close>

definition cwd_source :: "u32 \<Rightarrow> proc_args \<Rightarrow> kernel \<Rightarrow> u32" where
  "cwd_source ROOT_DIR a s = (if a_wd a \<noteq> 0 then a_wd a else if a_parent a = 0 then ROOT_DIR else p_cwd (k_procs s (a_parent a)))"

definition failed :: "mem_ctxs \<Rightarrow> (arena \<Rightarrow> nat \<Rightarrow> nat option) \<Rightarrow> mem \<Rightarrow> u32 list \<Rightarrow> u32 list \<Rightarrow> (int \<times> 16 word \<times> kernel) option \<Rightarrow> bool" where
  "failed g L r0 run sleep x \<longleftrightarrow> (\<exists>ret s'. x = Some (ret, 0, s') \<and> ret \<in> {- 12, - 22} \<and>
     arenas g L (owns Map.empty Map.empty) r0 (k_mach s') \<and> sched_ok s' run sleep)"

definition created ::
    "mem_ctxs \<Rightarrow> (arena \<Rightarrow> nat \<Rightarrow> nat option) \<Rightarrow> mem \<Rightarrow> u32 list \<Rightarrow> u32 list \<Rightarrow> proc_args \<Rightarrow> 16 word \<Rightarrow> u8 list \<Rightarrow>
     (int \<times> 16 word \<times> kernel) option \<Rightarrow> bool" where
  "created g L r0 run sleep a pid t x \<longleftrightarrow> (\<exists>s' p u ks c K U. x = Some (0, pid, s') \<and>
     sched_ok s' (run @ [p]) sleep \<and> born a u ks c pid (k_procs s' p) \<and> cstr (ram (k_mach s')) c t \<and>
     arenas g L (owns K U) r0 (k_mach s') \<and> dom K = {unat p, unat ks, unat c} \<and> distinct [unat p, unat ks, unat c] \<and>
     (if a_stack_len a = 0 then U = Map.empty else dom U = {unat u}))"

lemma failedI:
  assumes "arenas g L (owns Map.empty Map.empty) r0 m" "sched_ok s run sleep" "ret \<in> {- 12, - 22}"
  shows "failed g L r0 run sleep (Some (ret, 0, s\<lparr>k_mach := m\<rparr>))"
  using assms by (auto simp: failed_def sched_ok_def)

lemma proc_create_kstack:
  assumes ar: "arenas g L (owns [unat p \<mapsto> kp] U) r0 m" and p: "p \<noteq> 0" "L Kernel (unat p) = None"
    and u: "U = Map.empty \<and> u = 0 \<and> a_stack_len a = 0 \<and> ucast (a_flags a) AND PROC_TYPE_KERNEL \<noteq> 0 \<or>
      u \<noteq> 0 \<and> a_stack_len a \<noteq> 0 \<and> (\<exists>k. U = [unat u \<mapsto> k] \<and> unat (a_stack_len a) \<le> k)"
    and n: "ucast (a_flags a) AND PROC_TYPE_KERNEL \<noteq> 0 \<or> a_stack_len a = 0 \<or> 8 \<le> unat (a_stack_len a)"
    and img: "a_entry a \<noteq> 0 \<or> a_img a \<noteq> 0"
    and ok: "sched_ok s run sleep" and procs: "\<forall>q \<in> set run \<union> set sleep. L Kernel (unat q) \<noteq> None"
    and src: "src = cwd_source ROOT_DIR a s"
    and t: "cstr r0 src t" "kept g L (unat src) (length t + 1)" "length t < 4294967292" "a_wd a = 0 \<or> t \<noteq> [] \<and> hd t = 47"
  defines "x \<equiv> do {
      (kstack, m) \<leftarrow> kmalloc g PROC_KSTACK_LEN m;
      if kstack = 0 then do { m \<leftarrow> ufree g u m; m \<leftarrow> kfree g p m; Some (- 12, 0, s\<lparr>k_mach := m\<rparr>) }
      else do {
        (cwd, m) \<leftarrow> proc_create_cwd g (a_wd a) (if a_parent a = 0 then ROOT_DIR else p_cwd (k_procs s (a_parent a))) m;
        if cwd = 0 then do { m \<leftarrow> ufree g u m; m \<leftarrow> kfree g kstack m; m \<leftarrow> kfree g p m; Some (- 12, 0, s\<lparr>k_mach := m\<rparr>) }
        else proc_create_start g a p u kstack cwd (s\<lparr>k_mach := m\<rparr>)
      }
    }"
  shows "failed g L r0 run sleep x \<or> created g L r0 run sleep a (g_next_pid s) (cwd_text (a_wd a \<noteq> 0) t) x"
proof -
  have uk: "\<exists>k. u = 0 \<or> U (unat u) = Some k" and U: "U(unat u := None) = Map.empty"
    using u by (auto simp: fun_eq_iff)
  then obtain k where k: "u = 0 \<or> U (unat u) = Some k"
    by blast
  have pe: "[unat p \<mapsto> kp](unat p := None) = Map.empty"
    by auto
  have q: "p \<notin> set run" "p \<notin> set sleep"
    using procs p(2) by (metis UnI1 UnI2)+
  have klen: "PROC_KSTACK_LEN \<noteq> 0" "unat PROC_KSTACK_LEN \<le> 4294967292"
    by (simp_all add: PROC_KSTACK_LEN_def)
  from arenas_malloc [OF ar klen, of Kernel] show ?thesis
  proof (elim disjE exE conjE, goal_cases)
    case 1
    then obtain m1 where m1: "kmalloc g PROC_KSTACK_LEN m = Some (0, m1)" "arenas g L (owns [unat p \<mapsto> kp] U) r0 m1"
      by (auto simp: kmalloc_def)
    obtain m2 where m2: "ufree g u m1 = Some m2" "arenas g L (owns [unat p \<mapsto> kp] Map.empty) r0 m2"
      using ufree_owned [OF m1(2) k, unfolded U] by blast
    obtain m3 where m3: "kfree g p m2 = Some m3" "arenas g L (owns Map.empty Map.empty) r0 m3"
      using kfree_owned [OF m2(2), of p kp, unfolded pe] by auto
    have "x = Some (- 12, 0, s\<lparr>k_mach := m3\<rparr>)"
      using m1(1) m2(1) m3(1) by (simp add: x_def)
    then show ?case
      using failedI [OF m3(2) ok] by simp
  next
    case (2 ks m1 kk)
    let ?K = "[unat p \<mapsto> kp, unat ks \<mapsto> kk]"
    have m1: "kmalloc g PROC_KSTACK_LEN m = Some (ks, m1)" "ks \<noteq> 0" "unat ks \<noteq> unat p" "arenas g L (owns ?K U) r0 m1"
      using 2 by (auto simp: kmalloc_def split: if_splits)
    have kk: "2048 \<le> kk"
      using 2(3) by (simp add: PROC_KSTACK_LEN_def align4_def)
    have ke: "?K(unat ks := None) = [unat p \<mapsto> kp]"
      using m1(3) by (auto simp: fun_eq_iff)
    have "agree r0 (ram m1) (unat src) (unat src + (length t + 1))"
      by (rule kept_agree [OF m1(4) t(2)])
    then have src1: "cstr (ram m1) (adr (unat src)) t"
      using cstr_agree [of r0 "unat src" t "ram m1"] t(1) by (simp add: add.assoc)
    have src': "src = (if a_wd a = 0 then (if a_parent a = 0 then ROOT_DIR else p_cwd (k_procs s (a_parent a))) else a_wd a)"
      using src by (simp add: cwd_source_def)
    from create_cwd_cases [OF m1(4) src' src1 t(2,3,4)] show ?case
    proof (elim disjE exE conjE)
      fix m2 assume m2: "proc_create_cwd g (a_wd a) (if a_parent a = 0 then ROOT_DIR else p_cwd (k_procs s (a_parent a))) m1 = Some (0, m2)"
        "arenas g L (owns ?K U) r0 m2"
      obtain m3 where m3: "ufree g u m2 = Some m3" "arenas g L (owns ?K Map.empty) r0 m3"
        using ufree_owned [OF m2(2) k, unfolded U] by blast
      obtain m4 where m4: "kfree g ks m3 = Some m4" "arenas g L (owns [unat p \<mapsto> kp] Map.empty) r0 m4"
        using kfree_owned [OF m3(2), of ks kk, unfolded ke] by auto
      obtain m5 where m5: "kfree g p m4 = Some m5" "arenas g L (owns Map.empty Map.empty) r0 m5"
        using kfree_owned [OF m4(2), of p kp, unfolded pe] by auto
      have "x = Some (- 12, 0, s\<lparr>k_mach := m5\<rparr>)"
        using m1(1,2) m2(1) m3(1) m4(1) m5(1) by (simp add: x_def)
      then show ?case
        using failedI [OF m5(2) ok] by simp
    next
      fix c kc m2
      assume m2: "proc_create_cwd g (a_wd a) (if a_parent a = 0 then ROOT_DIR else p_cwd (k_procs s (a_parent a))) m1 = Some (c, m2)"
        "c \<noteq> 0" "?K (unat c) = None" "length (cwd_text (a_wd a \<noteq> 0) t) + 1 \<le> kc"
        "arenas g L (owns (?K(unat c \<mapsto> kc)) U) r0 m2" "cstr (ram m2) c (cwd_text (a_wd a \<noteq> 0) t)"
      let ?s = "s\<lparr>k_mach := m2\<rparr>"
      have x: "x = proc_create_start g a p u ks c ?s"
        using m1(1,2) m2(1,2) by (simp add: x_def)
      have d: "distinct [unat p, unat ks, unat c]"
        using m1(3) m2(3) by (auto split: if_splits)
      have ar2: "arenas g L (owns (?K(unat c \<mapsto> kc)) U) r0 (k_mach ?s)"
        using m2(5) by simp
      have ok2: "sched_ok ?s run sleep"
        using ok by (simp add: sched_ok_def)
      have u2: "U = Map.empty \<and> u = 0 \<and> a_stack_len a = 0 \<and> ucast (a_flags a) AND PROC_TYPE_KERNEL \<noteq> 0 \<or>
          (\<exists>k. U = [unat u \<mapsto> k] \<and> unat (a_stack_len a) \<le> k)"
        and n2: "ucast (a_flags a) AND PROC_TYPE_KERNEL \<noteq> 0 \<or> 8 \<le> unat (a_stack_len a)"
        using u n by auto
      have t2: "cstr (ram (k_mach ?s)) c (cwd_text (a_wd a \<noteq> 0) t)"
        using m2(6) by simp
      from create_start_cases [OF ar2 refl d kk u2 n2 img ok2 q p(1) t2 m2(4)] show ?case
        unfolding x [symmetric]
      proof (elim disjE exE conjE)
        fix s' assume "x = Some (- 22, 0, s')" "arenas g L (owns Map.empty Map.empty) r0 (k_mach s')" "sched_ok s' run sleep"
        then show ?case
          by (auto simp: failed_def)
      next
        fix s' assume s': "x = Some (0, g_next_pid ?s, s')" "arenas g L (owns (?K(unat c \<mapsto> kc)) U) r0 (k_mach s')"
          "sched_ok s' (run @ [p]) sleep" "born a u ks c (g_next_pid ?s) (k_procs s' p)" "cstr (ram (k_mach s')) c (cwd_text (a_wd a \<noteq> 0) t)"
        have "dom (?K(unat c \<mapsto> kc)) = {unat p, unat ks, unat c}"
          by auto
        moreover have "if a_stack_len a = 0 then U = Map.empty else dom U = {unat u}"
          using u by (auto split: if_splits)
        moreover have "g_next_pid ?s = g_next_pid s"
          by simp
        ultimately show ?case
          using s' d unfolding created_def by metis
      qed
    qed
  qed
qed

lemma proc_create_cases:
  assumes ar: "arenas g L (\<lambda>_. Map.empty) (ram (k_mach s)) (k_mach s)" and ok: "sched_ok s run sleep"
    and procs: "\<forall>q \<in> set run \<union> set sleep. L Kernel (unat q) \<noteq> None"
    and len: "unat (a_stack_len a) \<le> 4294967292"
    and n: "ucast (a_flags a) AND PROC_TYPE_KERNEL \<noteq> 0 \<or> a_stack_len a = 0 \<or> 8 \<le> unat (a_stack_len a)"
    and img: "a_entry a \<noteq> 0 \<or> a_img a \<noteq> 0"
    and src: "src = cwd_source ROOT_DIR a s"
    and t: "cstr (ram (k_mach s)) src t" "kept g L (unat src) (length t + 1)" "length t < 4294967292"
  shows "failed g L (ram (k_mach s)) run sleep (proc_create g ROOT_DIR a s) \<or>
    created g L (ram (k_mach s)) run sleep a (g_next_pid s) (cwd_text (a_wd a \<noteq> 0) t) (proc_create g ROOT_DIR a s)"
proof (cases "a_wd a \<noteq> 0 \<and> ram (k_mach s) (a_wd a) \<noteq> 47")
  case True
  have "failed g L (ram (k_mach s)) run sleep (Some (- 22, 0, s\<lparr>k_mach := k_mach s\<rparr>))"
    using ar ok by (intro failedI) (simp_all add: owns_empty)
  then show ?thesis
    using True by (simp add: proc_create_def)
next
  case False
  let ?r0 = "ram (k_mach s)"
  note run = proc_create_def [of g ROOT_DIR a s, unfolded if_not_P [OF False]]
  have wd: "a_wd a = 0 \<or> t \<noteq> [] \<and> hd t = 47"
  proof (cases "a_wd a = 0")
    case nz: False
    then have "ram (k_mach s) src = 47"
      using False src by (simp add: cwd_source_def)
    then show ?thesis
      using t(1) by (cases t) auto
  qed simp
  have n1: "0 < unat (1 :: u32) * unat PROC_SIZE" "unat (1 :: u32) * unat PROC_SIZE \<le> 4294967292"
    by (simp_all add: PROC_SIZE_def)
  from arenas_kcalloc [OF ar [unfolded owns_empty] n1] show ?thesis
  proof (elim disjE exE conjE)
    fix m1 assume "kcalloc g 1 PROC_SIZE (k_mach s) = Some (0, m1)" "arenas g L (owns Map.empty Map.empty) ?r0 m1"
    then show ?thesis
      using failedI [of g L ?r0 m1 s run sleep "- 12"] ok unfolding run by simp
  next
    fix p m1 kp
    assume p: "kcalloc g 1 PROC_SIZE (k_mach s) = Some (p, m1)" "p \<noteq> 0" "L Kernel (unat p) = None"
      "arenas g L ((owns Map.empty Map.empty)(Kernel := (owns Map.empty Map.empty Kernel)(unat p \<mapsto> kp))) ?r0 m1"
    have ar1: "arenas g L (owns [unat p \<mapsto> kp] Map.empty) ?r0 m1"
      using p(4) by simp
    have step: "proc_create g ROOT_DIR a s = do {
        (kstack, m) \<leftarrow> kmalloc g PROC_KSTACK_LEN m2;
        if kstack = 0 then do { m \<leftarrow> ufree g u m; m \<leftarrow> kfree g p m; Some (- 12, 0, s\<lparr>k_mach := m\<rparr>) }
        else do {
          (cwd, m) \<leftarrow> proc_create_cwd g (a_wd a) (if a_parent a = 0 then ROOT_DIR else p_cwd (k_procs s (a_parent a))) m;
          if cwd = 0 then do { m \<leftarrow> ufree g u m; m \<leftarrow> kfree g kstack m; m \<leftarrow> kfree g p m; Some (- 12, 0, s\<lparr>k_mach := m\<rparr>) }
          else proc_create_start g a p u kstack cwd (s\<lparr>k_mach := m\<rparr>)
        }
      }" if "proc_create_ustack g p (a_stack_len a) (ucast (a_flags a)) m1 = Some (Inr u, m2)" for u m2
      using that p(1,2) unfolding run by simp
    from create_ustack_cases [OF ar1 len, of "ucast (a_flags a)"] show ?thesis
    proof (elim disjE exE conjE, goal_cases)
      case (1 ret m2)
      then have "proc_create g ROOT_DIR a s = Some (ret, 0, s\<lparr>k_mach := m2\<rparr>)"
        using p(1,2) unfolding run by simp
      then show ?case
        using failedI [OF 1(3) ok 1(2)] by simp
    next
      case (2 u U m2)
      show ?case
        unfolding step [OF 2(1)] by (rule proc_create_kstack [OF 2(2) p(2,3) _ n img ok procs src t(1-3) wd]) (use 2 in simp)
    next
      case (3 u U m2 k)
      show ?case
        unfolding step [OF 3(1)] by (rule proc_create_kstack [OF 3(2) p(2,3) _ n img ok procs src t(1-3) wd]) (use 3 in auto)
    qed
  qed
qed

subsection \<open>Property\<close>

text \<open>
  C10: \<^verbatim>\<open>proc_create\<close> is all or nothing.  With any two well-formed heaps and run and sleep
  queues, it returns.  Either it fails with \<open>-ENOMEM\<close> or \<open>-EINVAL\<close>: then every region it
  allocated has been given back and the queues are as before.  Or it succeeds: then the
  process is at the end of the run queue, runnable, with the next process id, the credentials of the
  caller, a canonical working directory of its own, and it owns exactly its structure, its kernel
  stack, its directory and (unless the length was zero) its user stack.  In both cases the regions that
  were live before and all memory outside the heaps are unchanged.  (The length of a user stack is zero
  or at least the eight bytes that are pushed on it.)
\<close>

theorem proc_create_correct:
  assumes "arenas g L (\<lambda>_. Map.empty) (ram (k_mach s)) (k_mach s)" "sched_ok s run sleep"
    "\<forall>q \<in> set run \<union> set sleep. L Kernel (unat q) \<noteq> None" "unat (a_stack_len a) \<le> 4294967292"
    "ucast (a_flags a) AND PROC_TYPE_KERNEL \<noteq> 0 \<or> a_stack_len a = 0 \<or> 8 \<le> unat (a_stack_len a)"
    "a_entry a \<noteq> 0 \<or> a_img a \<noteq> 0" "src = cwd_source ROOT_DIR a s"
    "cstr (ram (k_mach s)) src t" "kept g L (unat src) (length t + 1)" "length t < 4294967292"
  shows "(\<exists>ret s'. proc_create g ROOT_DIR a s = Some (ret, 0, s') \<and> ret \<in> {- 12, - 22} \<and>
       arenas g L (\<lambda>_. Map.empty) (ram (k_mach s)) (k_mach s') \<and> sched_ok s' run sleep) \<or>
    (\<exists>s' p u ks c K U. proc_create g ROOT_DIR a s = Some (0, g_next_pid s, s') \<and>
       sched_ok s' (run @ [p]) sleep \<and> born a u ks c (g_next_pid s) (k_procs s' p) \<and>
       cstr (ram (k_mach s')) c (cwd_text (a_wd a \<noteq> 0) t) \<and>
       arenas g L (owns K U) (ram (k_mach s)) (k_mach s') \<and>
       dom K = {unat p, unat ks, unat c} \<and> distinct [unat p, unat ks, unat c] \<and>
       (if a_stack_len a = 0 then U = Map.empty else dom U = {unat u}))"
  using proc_create_cases [OF assms] unfolding failed_def created_def owns_empty [symmetric] by blast

definition two_heaps :: "mem_ctxs \<times> machine" where
  "two_heaps = umeminit 12288 13312 (kmeminit 4096 8192
     (\<lparr>g_kheap = boot_heap, g_uheap = boot_heap\<rparr>, reset_machine\<lparr>ram := (\<lambda>_. 0)(256 := 47)\<rparr>))"

definition boot_kernel :: "machine \<Rightarrow> kernel" where
  "boot_kernel m = \<lparr>k_mach = m, k_procs = (\<lambda>_. zero_proc\<lparr>p_state := ps_runnable\<rparr>),
     k_images = (\<lambda>_. \<lparr>img_start = 0, img_entry = 0\<rparr>), k_links = list_insert (Proc 4104) Run_queue
       (list_init Sleep_queue (list_init Run_queue \<lparr>lnext = (\<lambda>_. Invalid_item), lprev = (\<lambda>_. Invalid_item)\<rparr>)),
     g_current_proc = 4104, g_next_pid = 1, g_ncontext_switches = 0\<rparr>"

definition shell_args :: proc_args where
  "shell_args = \<lparr>a_uid = 0, a_gid = 0, a_name = ''shell'', a_img = 0, a_entry = 0x20000, a_arg = 0, a_stack_len = 512,
     a_flags = 0, a_wd = 0, a_parent = 0\<rparr>"

lemma two_heaps_boot:
  "\<exists>m. kmalloc (fst two_heaps) PROC_SIZE (snd two_heaps) = Some (4104, m) \<and>
     (\<exists>L. arenas (fst two_heaps) L (\<lambda>_. Map.empty) (ram m) m \<and> L Kernel 4104 \<noteq> None) \<and> ram m 256 = 47 \<and> ram m 257 = 0"
proof -
  let ?w = "reset_machine\<lparr>ram := (\<lambda>_. 0)(256 := 47)\<rparr>"
  obtain h1 s1 where i1: "heap_init 4096 4096 ?w = (h1, s1)"
    by (cases "heap_init 4096 4096 ?w")
  obtain h2 s2 where i2: "heap_init 12288 1024 s1 = (h2, s2)"
    by (cases "heap_init 12288 1024 s1")
  have g: "two_heaps = (\<lparr>g_kheap = h1, g_uheap = h2\<rparr>, s2)"
    using i1 i2 by (simp add: two_heaps_def kmeminit_def umeminit_def)
  have h: "start h1 = 4096" "hsize h1 = 4096" "start h2 = 12288" "hsize h2 = 1024"
    using i1 i2 by (auto simp: heap_init_def Let_def)
  have w: "heap_wf h1 (ram s1) [(4080, False)]" "modifies (ram ?w) (ram s1) 4096 8192"
    "heap_wf h2 (ram s2) [(1008, False)]" "modifies (ram s1) (ram s2) 12288 13312"
    using heap_init_wf [of 4096 4096 ?w] heap_init_wf [of 12288 1024 s1] i1 i2 by auto
  have w1: "heap_wf h1 (ram s2) [(4080, False)]"
    by (rule heap_wf_frame [OF w(1,4)]) (simp add: h)
  obtain m' where m: "heap_malloc h1 PROC_SIZE s2 = Some (4104, section_exit s2 m')"
    "heap_wf h1 m' [(168, True), (3904, False)]" "modifies (ram s2) m' 4096 8184"
  proof -
    have "unat PROC_SIZE = 166" "PROC_SIZE \<noteq> 0" and first_fit: "a_malloc (align4 166) [(4080, False)] = Some (0, [(168, True), (3904, False)])"
      by (simp_all add: PROC_SIZE_def align4_def)
    then have "\<exists>m'. heap_malloc h1 PROC_SIZE s2 = Some (adr (unat (start h1) + 0 + 8), section_exit s2 m') \<and>
        heap_wf h1 m' [(168, True), (3904, False)] \<and> modifies (ram s2) m' (unat (start h1)) (unat (start h1) + span [(4080, False)])"
      using heap_malloc_refines [OF w1, of PROC_SIZE] by (simp only:, simp only: first_fit) auto
    then show thesis
      using that by (auto simp: h)
  qed
  have w2: "heap_wf h2 m' [(1008, False)]"
    by (rule heap_wf_frame [OF w(3) m(3)]) (simp add: h)
  let ?m = "section_exit s2 m'" and ?g = "\<lparr>g_kheap = h1, g_uheap = h2\<rparr>"
  have "\<exists>bs. heap_wf (arena_heap ?g A) (ram ?m) bs \<and> live (unat (start (arena_heap ?g A))) bs = owns [4104 \<mapsto> 168] Map.empty A" for A
  proof (cases A)
    case Kernel
    then show ?thesis
      using m(2) by (intro exI [of _ "[(168, True), (3904, False)]"]) (auto simp: h fun_eq_iff)
  next
    case User
    then show ?thesis
      using w2 by (intro exI [of _ "[(1008, False)]"]) (auto simp: h fun_eq_iff)
  qed
  then have "arenas ?g (owns [4104 \<mapsto> 168] Map.empty) (\<lambda>_. Map.empty) (ram ?m) ?m"
    by (intro arenas_start) (simp_all add: apart_def h)
  moreover have "m' (adr x) = ((\<lambda>_. 0)(256 := 47)) (adr x)" if "x < 4096" for x
    using modifies_at [OF w(2), of x] modifies_at [OF w(4), of x] modifies_at [OF m(3), of x] that by simp
  from this [of 256] this [of 257] have "m' 256 = 47" "m' 257 = 0"
    by simp_all
  ultimately show ?thesis
    using m(1) by (intro exI [of _ ?m]) (auto simp: g kmalloc_def intro!: exI [of _ "owns [4104 \<mapsto> 168] Map.empty"])
qed

lemma boot_kernel_ok: "sched_ok (boot_kernel m) [4104] []"
  by (simp add: sched_ok_def boot_kernel_def is_list_def linked_def list_insert_def do_list_append_def list_init_def Let_def)

theorem proc_create_correct_witness:
  "\<exists>m ret pid s'. kmalloc (fst two_heaps) PROC_SIZE (snd two_heaps) = Some (4104, m) \<and>
     proc_create (fst two_heaps) 256 shell_args (boot_kernel m) = Some (ret, pid, s') \<and>
     (ret \<in> {- 12, - 22} \<and> sched_ok s' [4104] [] \<or>
      pid = 1 \<and> (\<exists>p. sched_ok s' [4104, p] [] \<and> cstr (ram (k_mach s')) (p_cwd (k_procs s' p)) [47]))"
proof -
  obtain m L where m: "kmalloc (fst two_heaps) PROC_SIZE (snd two_heaps) = Some (4104, m)"
    "arenas (fst two_heaps) L (\<lambda>_. Map.empty) (ram m) m" "L Kernel 4104 \<noteq> None" "ram m 256 = 47" "ram m 257 = 0"
    using two_heaps_boot by blast
  have sel: "k_mach (boot_kernel m) = m" "g_next_pid (boot_kernel m) = 1"
    by (simp_all add: boot_kernel_def)
  have src: "(256 :: u32) = cwd_source 256 shell_args (boot_kernel m)"
    by (simp add: cwd_source_def shell_args_def)
  have "outside (fst two_heaps) x" if "256 \<le> x" "x < 258" for x
    unfolding outside_def
  proof
    fix A
    show "x \<notin> region (arena_heap (fst two_heaps) A)"
      using that by (cases A) (auto simp: two_heaps_def kmeminit_def umeminit_def heap_init_def Let_def region_def)
  qed
  then have kept: "kept (fst two_heaps) L (unat (256 :: u32)) (length [47 :: u8] + 1)"
    by (simp add: kept_def)
  have "cstr (ram (k_mach (boot_kernel m))) 256 [47]"
    using m(4,5) by (simp add: sel)
  from proc_create_correct [OF _ boot_kernel_ok _ _ _ _ src this kept] m(1,2,3) show ?thesis
    unfolding sel by (auto simp: shell_args_def cwd_text_def born_def)
qed

end
