(* ===== verification/KUtil.thy ===== *)
theory KUtil
  imports CStdlib Kmalloc
begin

text \<open>
  The utility functions of the kernel, \<^verbatim>\<open>kernel/util\<close>: circular and plain buffers
  (\<^verbatim>\<open>buffer.c\<close>), the Fletcher checksum (\<^verbatim>\<open>checksum.c\<close>), the FNV-1a hash
  (\<^verbatim>\<open>hash.c\<close>), integer logarithms (\<^verbatim>\<open>numeric.c\<close>) and strings (\<^verbatim>\<open>string.c\<close>).
  The structures the functions receive by pointer are records; the data they point to is memory.
\<close>

section \<open>Definitions\<close>

subsection \<open>buffer.c\<close>

record buffer =
  buf_len :: u32
  buf_data :: u32

definition buffer_init :: "mem_ctxs \<Rightarrow> u32 \<Rightarrow> machine \<Rightarrow> (buffer result \<times> machine) option" where
  "buffer_init g n s =
     (if n \<noteq> 0 then do {
        (data, s) \<leftarrow> kmalloc g n s;
        Some (if data = 0 then Inl ENOMEM else Inr \<lparr>buf_len = n, buf_data = data\<rparr>, s)
      }
      else Some (Inr \<lparr>buf_len = 0, buf_data = 0\<rparr>, s))"

definition buffer_deinit :: "mem_ctxs \<Rightarrow> buffer \<Rightarrow> machine \<Rightarrow> (buffer \<times> machine) option" where
  "buffer_deinit g b s =
     (if buf_len b \<noteq> 0 then do {
        s \<leftarrow> kfree g (buf_data b) s;
        Some (\<lparr>buf_len = 0, buf_data = 0\<rparr>, s)
      }
      else Some (b, s))"

record circbuf =
  cb_buf :: u32
  cb_end :: u32
  cb_read :: u32
  cb_write :: u32

definition circbuf_alloc :: "mem_ctxs \<Rightarrow> u32 \<Rightarrow> machine \<Rightarrow> (circbuf result \<times> machine) option" where
  "circbuf_alloc g n s = do {
     (buf, s) \<leftarrow> kmalloc g n s;
     Some (if buf = 0 then Inl ENOMEM
           else Inr \<lparr>cb_buf = buf, cb_end = buf + n, cb_read = buf, cb_write = buf\<rparr>, s)
   }"

definition circbuf_free :: "mem_ctxs \<Rightarrow> circbuf \<Rightarrow> machine \<Rightarrow> machine option" where
  "circbuf_free g cb s = (if cb_buf cb \<noteq> 0 then kfree g (cb_buf cb) s else Some s)"

definition circbuf_read :: "circbuf \<Rightarrow> mem \<Rightarrow> (u8 \<times> circbuf) result" where
  "circbuf_read cb m =
     (if cb_read cb = cb_write cb then Inl EAGAIN
      else let v = m (cb_read cb);
          cb = cb\<lparr>cb_read := cb_read cb + 1\<rparr>
        in Inr (v, if cb_read cb = cb_end cb then cb\<lparr>cb_read := cb_buf cb\<rparr> else cb))"

definition circbuf_write :: "circbuf \<Rightarrow> u8 \<Rightarrow> mem \<Rightarrow> (circbuf \<times> mem) result" where
  "circbuf_write cb v m =
     (let next = cb_write cb + 1;
          next = (if next = cb_end cb then cb_buf cb else next)
      in if next = cb_read cb then Inl EAGAIN
         else Inr (cb\<lparr>cb_write := next\<rparr>, m(cb_write cb := v)))"

subsection \<open>checksum.c and hash.c\<close>

fun fletcher_block :: "nat \<Rightarrow> mem \<Rightarrow> u32 \<Rightarrow> u16 \<Rightarrow> u16 \<Rightarrow> u16 \<times> u16" where
  "fletcher_block 0 m buf sum1 sum2 = (sum1, sum2)"
| "fletcher_block (Suc tlen) m buf sum1 sum2 =
     (let sum1 = sum1 + ucast (m buf)
      in fletcher_block tlen m (buf + 1) sum1 (sum2 + sum1))"

definition fletcher_fold :: "u16 \<Rightarrow> u16" where
  "fletcher_fold x = (x AND 0xff) + drop_bit 8 x"

function fletcher_loop :: "nat \<Rightarrow> mem \<Rightarrow> u32 \<Rightarrow> u16 \<Rightarrow> u16 \<Rightarrow> u16 \<times> u16" where
  "fletcher_loop len m buf sum1 sum2 =
     (if len = 0 then (sum1, sum2)
      else let tlen = (if len > 20 then 20 else len);
          (sum1, sum2) = fletcher_block tlen m buf sum1 sum2
        in fletcher_loop (len - tlen) m (buf + adr tlen) (fletcher_fold sum1) (fletcher_fold sum2))"
  by auto
termination
  by (relation "measure (\<lambda>(len, _). len)") (auto split: if_splits)

declare fletcher_loop.simps [simp del]

definition fletcher16 :: "mem \<Rightarrow> u32 \<Rightarrow> u32 \<Rightarrow> u16" where
  "fletcher16 m buf len =
     (case fletcher_loop (unat len) m buf 0xff 0xff of (sum1, sum2) \<Rightarrow>
        push_bit 8 (fletcher_fold sum2) OR fletcher_fold sum1)"

fun fnv_loop :: "nat \<Rightarrow> mem \<Rightarrow> u32 \<Rightarrow> u32 \<Rightarrow> u32" where
  "fnv_loop 0 m buf h = h"
| "fnv_loop (Suc len) m buf h = fnv_loop len m (buf + 1) ((h XOR ucast (m buf)) * 0x1000193)"

definition fnv1a32 :: "mem \<Rightarrow> u32 \<Rightarrow> u32 \<Rightarrow> u32" where
  "fnv1a32 m buf len = fnv_loop (unat len) m buf 0x811c9dc5"

subsection \<open>numeric.c\<close>

definition log10 :: "u32 \<Rightarrow> u16" where
  "log10 n =
     (if n < 10 then 0
      else if n < 100 then 1
      else if n < 1000 then 2
      else if n < 10000 then 3
      else if n < 100000 then 4
      else if n < 1000000 then 5
      else if n < 10000000 then 6
      else if n < 100000000 then 7
      else if n < 1000000000 then 8
      else 9)"

definition log2 :: "u32 \<Rightarrow> u16" where
  "log2 n =
     (let (ret, n) = (if n \<ge> 0x10000 then (16, drop_bit 16 n) else (0, n));
          (ret, n) = (if n \<ge> 0x100 then (ret + 8, drop_bit 8 n) else (ret, n));
          (ret, n) = (if n \<ge> 0x10 then (ret + 4, drop_bit 4 n) else (ret, n));
          (ret, n) = (if n \<ge> 0x4 then (ret + 2, drop_bit 2 n) else (ret, n))
      in if n \<ge> 2 then ret + 1 else ret)"

subsection \<open>string.c\<close>

partial_function (option) sum_loop :: "mem \<Rightarrow> u32 \<Rightarrow> u32 \<Rightarrow> u32 option" where
  "sum_loop m s ret = (if m s = 0 then Some ret else sum_loop m (s + 1) (ret + ucast (m s)))"

definition str_sum :: "mem \<Rightarrow> u32 \<Rightarrow> u32 option" where
  "str_sum m s = sum_loop m s 0"

definition KERNEL_MIN_ERRNO :: int where "KERNEL_MIN_ERRNO = 500"

definition kernel_errors :: "(int \<times> string) list" where
  "kernel_errors =
    [(500, ''Unknown error''),
     (501, ''Media error''),
     (502, ''Media changed''),
     (503, ''Data error''),
     (504, ''Checksum error''),
     (505, ''Bad superblock''),
     (506, ''Device initialisation failed''),
     (507, ''Command sent to hardware device failed''),
     (600, ''Not an executable file''),
     (601, ''Bad header in executable file''),
     (602, ''Unsupported endianness in executable file''),
     (603, ''Unsupported machine architecture''),
     (604, ''Required section is missing from executable file''),
     (605, ''Bad section in executable file'')]"

definition kstrerror :: "int \<Rightarrow> string" where
  "kstrerror errnum =
     (if errnum < KERNEL_MIN_ERRNO then strerror errnum
      else case map_of kernel_errors errnum of Some text \<Rightarrow> text | None \<Rightarrow> ''Unrecognised error code'')"

section \<open>Circular buffers are bounded queues\<close>

datatype circ_op = Rd | Wr u8

fun circ_step :: "circ_op \<Rightarrow> circbuf \<times> mem \<Rightarrow> u8 option result \<times> circbuf \<times> mem" where
  "circ_step Rd (cb, m) = (case circbuf_read cb m of Inl e \<Rightarrow> (Inl e, cb, m) | Inr (v, cb') \<Rightarrow> (Inr (Some v), cb', m))"
| "circ_step (Wr v) (cb, m) = (case circbuf_write cb v m of Inl e \<Rightarrow> (Inl e, cb, m) | Inr (cb', m') \<Rightarrow> (Inr None, cb', m'))"

fun circ_run :: "circ_op list \<Rightarrow> circbuf \<times> mem \<Rightarrow> u8 option result list \<times> circbuf \<times> mem" where
  "circ_run [] st = ([], st)"
| "circ_run (p # ops) st = (case circ_step p st of (r, st) \<Rightarrow> case circ_run ops st of (rs, st) \<Rightarrow> (r # rs, st))"

text \<open>The specification: a queue of at most \<open>n - 1\<close> bytes.\<close>

fun queue_step :: "nat \<Rightarrow> circ_op \<Rightarrow> u8 list \<Rightarrow> u8 option result \<times> u8 list" where
  "queue_step n Rd [] = (Inl EAGAIN, [])"
| "queue_step n Rd (x # q) = (Inr (Some x), q)"
| "queue_step n (Wr v) q = (if Suc (length q) < n then (Inr None, q @ [v]) else (Inl EAGAIN, q))"

fun queue_run :: "nat \<Rightarrow> circ_op list \<Rightarrow> u8 list \<Rightarrow> u8 option result list \<times> u8 list" where
  "queue_run n [] q = ([], q)"
| "queue_run n (p # ops) q = (case queue_step n p q of (r, q) \<Rightarrow> case queue_run n ops q of (rs, q) \<Rightarrow> (r # rs, q))"

definition circ_abs :: "nat \<Rightarrow> nat \<Rightarrow> circbuf \<times> mem \<Rightarrow> u8 list \<Rightarrow> bool" where
  "circ_abs b n st q \<longleftrightarrow> (\<exists>r. r < n \<and> length q < n \<and> b + n < 4294967296 \<and> cb_buf (fst st) = adr b \<and> cb_end (fst st) = adr (b + n) \<and>
     cb_read (fst st) = adr (b + r) \<and> cb_write (fst st) = adr (b + (r + length q) mod n) \<and>
     (\<forall>i < length q. snd st (adr (b + (r + i) mod n)) = q ! i))"

lemma ring_inj: "i < n \<Longrightarrow> j < n \<Longrightarrow> (r + i) mod n = (r + j) mod n \<Longrightarrow> i = (j :: nat)"
proof (induction i j rule: linorder_wlog)
  case (le i j)
  then have "n dvd r + j - (r + i)"
    by (metis add_le_cancel_left mod_eq_dvd_iff_nat)
  then show ?case
    using le by (auto dest: dvd_imp_le)
qed simp

lemma ring_next: "Suc k mod n = (if Suc (k mod n) = n then 0 else Suc (k mod n :: nat))"
  by (simp add: mod_Suc)

lemma circ_step_queue:
  assumes "circ_abs b n (cb, m) q"
  shows "\<exists>q' cb' m' r. circ_step p (cb, m) = (r, cb', m') \<and> queue_step n p q = (r, q') \<and> circ_abs b n (cb', m') q' \<and> modifies m m' b (b + n)"
proof -
  obtain r where r: "r < n" "length q < n" "b + n < 4294967296" "cb_buf cb = adr b" "cb_end cb = adr (b + n)"
    "cb_read cb = adr (b + r)" "cb_write cb = adr (b + (r + length q) mod n)" "\<forall>i < length q. m (adr (b + (r + i) mod n)) = q ! i"
    using assms by (auto simp: circ_abs_def)
  have n: "0 < n" and mn: "k mod n < n" for k
    using r by (simp_all add: mod_less_divisor)
  have eq: "adr (b + k) = adr (b + j) \<longleftrightarrow> k = j" if "k \<le> n" "j \<le> n" for k j
    using that r(3) adr_eq_iff [of "b + k" "b + j"] by simp
  have nx: "(if adr (b + k mod n) + 1 = adr (b + n) then adr b else adr (b + k mod n) + 1) = adr (b + Suc k mod n)" for k
    using eq [of "Suc (k mod n)" n] mn [of k] ring_next [of k n] by (auto simp: Suc_le_eq)
  show ?thesis
  proof (cases p)
    case Rd
    show ?thesis
    proof (cases q)
      case Nil
      then show ?thesis
        using r Rd assms by (auto simp: circbuf_read_def)
    next
      case (Cons x q')
      have "r \<noteq> (r + length q) mod n"
        using ring_inj [of 0 n "length q" r] r(1,2) Cons by auto
      then have "cb_read cb \<noteq> cb_write cb"
        using r(6,7) eq [of r "(r + length q) mod n"] r(1) mn [of "r + length q"] by simp
      moreover have "m (cb_read cb) = x"
        using r(8) [rule_format, of 0] Cons r(1,6) by simp
      moreover have rm: "r mod n = r"
        using r(1) by simp
      have "(if cb_read cb + 1 = cb_end cb then cb_buf cb else cb_read cb + 1) = adr (b + Suc r mod n)"
        using nx [of r] unfolding rm r(4-6) .
      ultimately have "circ_step p (cb, m) = (Inr (Some x), cb\<lparr>cb_read := adr (b + Suc r mod n)\<rparr>, m)"
        using Rd by (auto simp: circbuf_read_def Let_def)
      moreover have "circ_abs b n (cb\<lparr>cb_read := adr (b + Suc r mod n)\<rparr>, m) q'"
        unfolding circ_abs_def
      proof (intro exI [of _ "Suc r mod n"] conjI)
        show "cb_write (fst (cb\<lparr>cb_read := adr (b + Suc r mod n)\<rparr>, m)) = adr (b + (Suc r mod n + length q') mod n)"
          using r(7) Cons by (simp add: mod_simps)
        show "\<forall>i < length q'. snd (cb\<lparr>cb_read := adr (b + Suc r mod n)\<rparr>, m) (adr (b + (Suc r mod n + i) mod n)) = q' ! i"
          using r(8) Cons by (auto simp: mod_simps dest: spec [of _ "Suc _"])
      qed (use r Cons mn in simp_all)
      ultimately show ?thesis
        using Rd Cons by (intro exI conjI) (assumption | simp)+
    qed
  next
    case (Wr v)
    let ?w = "(r + length q) mod n"
    have next': "(if cb_write cb + 1 = cb_end cb then cb_buf cb else cb_write cb + 1) = adr (b + Suc (r + length q) mod n)"
      using nx [of "r + length q"] unfolding r(4,5,7) .
    show ?thesis
    proof (cases "Suc (length q) < n")
      case True
      then have "Suc (r + length q) mod n \<noteq> r"
        using ring_inj [of "Suc (length q)" n 0 r] r(1) by auto
      then have "adr (b + Suc (r + length q) mod n) \<noteq> cb_read cb"
        using eq [of "Suc (r + length q) mod n" r] r(1,6) mn [of "Suc (r + length q)"] by simp
      then have "circ_step p (cb, m) = (Inr None, cb\<lparr>cb_write := adr (b + Suc (r + length q) mod n)\<rparr>, m(adr (b + ?w) := v))"
        using Wr r(7) unfolding circ_step.simps circbuf_write_def Let_def next' Wr by simp
      moreover have "circ_abs b n (cb\<lparr>cb_write := adr (b + Suc (r + length q) mod n)\<rparr>, m(adr (b + ?w) := v)) (q @ [v])"
        unfolding circ_abs_def
      proof (intro exI [of _ r] conjI)
        have "(r + i) mod n \<noteq> ?w" if "i < length q" for i
          using ring_inj [of i n "length q" r] that r(2) by auto
        then have "adr (b + (r + i) mod n) \<noteq> adr (b + ?w)" if "i < length q" for i
          using eq [of "(r + i) mod n" ?w] mn [of "r + i"] mn [of "r + length q"] that by simp
        then show "\<forall>i < length (q @ [v]). snd (cb\<lparr>cb_write := adr (b + Suc (r + length q) mod n)\<rparr>, m(adr (b + ?w) := v)) (adr (b + (r + i) mod n)) = (q @ [v]) ! i"
          using r(8) by (auto simp: nth_append less_Suc_eq)
      qed (use r True in simp_all)
      moreover have "modifies m (m(adr (b + ?w) := v)) b (b + n)"
        by (rule modifies_mono [OF modifies_upd]) (use mn [of "r + length q"] r(3) in simp_all)
      ultimately show ?thesis
        using Wr True by (intro exI conjI) (assumption | simp)+
    next
      case False
      then have "Suc (length q) = n"
        using r(2) by simp
      then have "Suc (r + length q) mod n = r"
        using r(1) by (metis add_Suc_right mod_add_self2 mod_less)
      then have "circ_step p (cb, m) = (Inl EAGAIN, cb, m)"
        using r(6) unfolding circ_step.simps circbuf_write_def Let_def next' Wr by simp
      then show ?thesis
        using Wr False assms by simp
    qed
  qed
qed

lemma circ_run_queue:
  assumes "circ_abs b n (cb, m) q"
  shows "\<exists>q' cb' m'. circ_run ops (cb, m) = (fst (queue_run n ops q), cb', m') \<and> snd (queue_run n ops q) = q' \<and>
    circ_abs b n (cb', m') q' \<and> modifies m m' b (b + n)"
  using assms
proof (induction ops arbitrary: cb m q)
  case (Cons p ops)
  obtain q1 cb1 m1 r where s: "circ_step p (cb, m) = (r, cb1, m1)" "queue_step n p q = (r, q1)" "circ_abs b n (cb1, m1) q1" "modifies m m1 b (b + n)"
    using circ_step_queue [OF Cons.prems] by blast
  obtain cb2 m2 where t: "circ_run ops (cb1, m1) = (fst (queue_run n ops q1), cb2, m2)"
    "circ_abs b n (cb2, m2) (snd (queue_run n ops q1))" "modifies m1 m2 b (b + n)"
    using Cons.IH [OF s(3)] by blast
  show ?case
    using s t modifies_trans [OF s(4) t(3)] by (cases "queue_run n ops q1") auto
qed simp

text \<open>
  C35: A circular buffer of \<open>n\<close> bytes from the kernel heap behaves as a queue of at most \<open>n - 1\<close>
  bytes for every sequence of reads and writes: reads return the bytes in the order written and
  -EAGAIN exactly when the queue is empty, writes fail exactly when it is full.  The heap stays
  well-formed and the blocks of other users keep their contents throughout.
\<close>

theorem circbuf_bounded_queue:
  assumes "heap_wf (g_kheap g) (ram s) bs" "n \<noteq> 0" "unat n \<le> 4294967292"
  defines "L \<equiv> live (unat (start (g_kheap g)))"
  shows "(\<exists>s'. circbuf_alloc g n s = Some (Inl ENOMEM, s') \<and> ram s' = ram s) \<or>
    (\<exists>cb s' bs'. circbuf_alloc g n s = Some (Inr cb, s') \<and> (\<forall>ops. \<exists>cb' m'.
       circ_run ops (cb, ram s') = (fst (queue_run (unat n) ops []), cb', m') \<and>
       heap_wf (g_kheap g) m' bs' \<and> preserves (L bs) (ram s) m'))"
  using kheap.malloc_cases [OF assms(1-3)]
proof (elim disjE exE conjE, goal_cases)
  case (2 p s' bs' k)
  note a = 2
  define cb where "cb = \<lparr>cb_buf = p, cb_end = p + n, cb_read = p, cb_write = p\<rparr>"
  have l: "live (unat (start (g_kheap g))) bs' (unat p) = Some k"
    using a(6) by simp
  have fit: "unat p + k < 4294967296"
    using kheap.live_range [OF a(3) l] by simp
  have "p = adr (unat p)" "p + n = adr (unat p + unat n)"
    by (simp_all only: adr_unat adr_add)
  then have start: "circ_abs (unat p) (unat n) (cb, ram s') []"
    using fit a(5) assms(2) by (auto simp: circ_abs_def cb_def unat_gt_0 intro!: exI [of _ 0])
  show ?thesis
  proof (rule disjI2, rule exI [of _ cb], rule exI [of _ s'], rule exI [of _ bs'], intro conjI allI)
    show "circbuf_alloc g n s = Some (Inr cb, s')"
      using a(1,2) by (simp add: circbuf_alloc_def cb_def)
    fix ops
    obtain cb' m' where r: "circ_run ops (cb, ram s') = (fst (queue_run (unat n) ops []), cb', m')" "modifies (ram s') m' (unat p) (unat p + unat n)"
      using circ_run_queue [OF start] by blast
    from modifies_mono [OF r(2), of "unat p" "unat p + k"] a(5) have md: "modifies (ram s') m' (unat p) (unat p + k)"
      by simp
    have "(live (unat (start (g_kheap g))) bs')(unat p := None) = L bs"
      using a(4,6) by (simp add: L_def fun_upd_idem)
    then have "preserves (L bs) (ram s') m'"
      using kheap.write_preserves [OF a(3) l md] by simp
    then show "\<exists>cb' m'. circ_run ops (cb, ram s') = (fst (queue_run (unat n) ops []), cb', m') \<and>
       heap_wf (g_kheap g) m' bs' \<and> preserves (L bs) (ram s) m'"
      using r(1) kheap.write_live [OF a(3) l md] preserves_trans [OF a(7)] by (auto simp: L_def)
  qed
qed (simp add: circbuf_alloc_def)

theorem circbuf_bounded_queue_witness:
  "(\<exists>s'. circbuf_alloc big_ctxs 3 (snd (heap_init 4096 65536 reset_machine)) = Some (Inl ENOMEM, s')) \<or>
   (\<exists>cb s' st. circbuf_alloc big_ctxs 3 (snd (heap_init 4096 65536 reset_machine)) = Some (Inr cb, s') \<and>
      circ_run [Rd, Wr 1, Wr 2, Wr 3, Rd, Wr 4, Rd, Rd, Rd] (cb, ram s') =
        ([Inl EAGAIN, Inr None, Inr None, Inl EAGAIN, Inr (Some 1), Inr None, Inr (Some 2), Inr (Some 4), Inl EAGAIN], st))"
proof -
  have p: "(3 :: u32) \<noteq> 0" "unat (3 :: u32) \<le> 4294967292"
    by simp_all
  from circbuf_bounded_queue [OF big_ctxs_wf p] show ?thesis
  proof (elim disjE exE conjE, goal_cases)
    case (2 cb s' bs')
    have "fst (queue_run (unat (3 :: u32)) [Rd, Wr 1, Wr 2, Wr 3, Rd, Wr 4, Rd, Rd, Rd] []) =
      [Inl EAGAIN, Inr None, Inr None, Inl EAGAIN, Inr (Some 1), Inr None, Inr (Some 2), Inr (Some 4), Inl EAGAIN]"
      by simp
    then show ?case
      using 2(1) spec [OF 2(2), of "[Rd, Wr 1, Wr 2, Wr 3, Rd, Wr 4, Rd, Rd, Rd]"] by metis
  qed blast
qed

section \<open>The Fletcher checksum\<close>

text \<open>
  The reference: both sums modulo 255.  The result represents the residue 0 by 255, because the
  sums start at 255 and are folded, which never gives 0.
\<close>

definition fletcher_sums :: "nat list \<Rightarrow> nat \<times> nat" where
  "fletcher_sums = foldl (\<lambda>(a, b) x. ((a + x) mod 255, (b + a + x) mod 255)) (0, 0)"

definition residue255 :: "nat \<Rightarrow> nat" where
  "residue255 x = (if x mod 255 = 0 then 255 else x mod 255)"

definition bytes_from :: "mem \<Rightarrow> u32 \<Rightarrow> nat \<Rightarrow> nat list" where
  "bytes_from m p n = map (\<lambda>i. unat (m (p + adr i))) [0..<n]"

lemma bytes_from_Suc: "bytes_from m p (Suc n) = unat (m p) # bytes_from m (p + 1) n"
  by (simp add: bytes_from_def upt_conv_Cons map_Suc_upt [symmetric] adr_shift del: upt_Suc)

lemma bytes_from_add: "bytes_from m p (k + n) = bytes_from m p k @ bytes_from m (p + adr k) n"
  by (induction k arbitrary: p) (simp_all add: bytes_from_Suc bytes_from_def [of _ _ 0] adr_shift)

lemma unat_fletcher_fold: "unat (fletcher_fold x) = unat x mod 256 + unat x div 256"
proof -
  have "unat (x AND 0xff) = unat x mod 256"
  proof -
    have "x AND 0xff = take_bit 8 x"
      by (simp add: take_bit_eq_mask mask_eq_exp_minus_1)
    then show ?thesis
      by (simp only: unsigned_take_bit_eq) (simp add: take_bit_eq_mod)
  qed
  moreover have "unat (drop_bit 8 x) = unat x div 256"
    by (simp add: drop_bit_eq_div unat_div)
  moreover have "unat x < 65536"
    using unsigned_less [of x] by simp
  then have "unat x div 256 < 256" "unat x mod 256 < 256"
    by auto
  ultimately show ?thesis
    by (simp add: fletcher_fold_def unat_word_ariths)
qed

lemma fold255:
  fixes x :: nat
  shows "(x mod 256 + x div 256) mod 255 = x mod 255" "0 < x \<Longrightarrow> 0 < x mod 256 + x div 256"
    "x < 5632 \<Longrightarrow> x mod 256 + x div 256 \<le> 276" "x < 65536 \<Longrightarrow> x mod 256 + x div 256 \<le> 510"
    "0 < x \<Longrightarrow> x \<le> 510 \<Longrightarrow> x mod 256 + x div 256 = residue255 x"
proof -
  define q r where "q = x div 256" and "r = x mod 256"
  have x: "x = 256 * q + r" "r < 256"
    by (simp_all add: q_def r_def)
  have "x = r + q + 255 * q"
    using x by simp
  then have m: "(r + q) mod 255 = x mod 255"
    by (metis mod_mult_self2)
  then show "(x mod 256 + x div 256) mod 255 = x mod 255"
    by (simp add: q_def r_def)
  show "0 < x \<Longrightarrow> 0 < x mod 256 + x div 256"
    "x < 5632 \<Longrightarrow> x mod 256 + x div 256 \<le> 276" "x < 65536 \<Longrightarrow> x mod 256 + x div 256 \<le> 510"
    unfolding q_def [symmetric] r_def [symmetric] using x by linarith+
  show "x mod 256 + x div 256 = residue255 x" if "0 < x" "x \<le> 510"
  proof -
    have "0 < r + q" "r + q \<le> 255"
      using x that by linarith+
    then have "r + q = (if (r + q) mod 255 = 0 then 255 else (r + q) mod 255)"
      by (cases "r + q = 255") auto
    then show ?thesis
      unfolding residue255_def m by (simp add: q_def r_def)
  qed
qed

lemma fletcher_block_run:
  assumes "unat s1 + 255 * k < 65536" "2 * unat s2 + 2 * (k * unat s1) + 255 * (k * (k + 1)) < 131072"
    "unat s1 mod 255 = a mod 255" "unat s2 mod 255 = b mod 255"
  shows "\<exists>t1 t2. fletcher_block k m p s1 s2 = (t1, t2) \<and> unat s1 \<le> unat t1 \<and> unat t1 \<le> unat s1 + 255 * k \<and> unat s2 \<le> unat t2 \<and>
    (unat t1 mod 255, unat t2 mod 255) = foldl (\<lambda>(a, b) x. ((a + x) mod 255, (b + a + x) mod 255)) (a mod 255, b mod 255) (bytes_from m p k)"
  using assms
proof (induction k arbitrary: p s1 s2 a b)
  case 0
  then show ?case
    by (simp add: bytes_from_def)
next
  case (Suc k)
  define x where "x = unat (m p)"
  have "unat (m p) < 2 ^ LENGTH(8)"
    by (rule unsigned_less)
  then have x: "x \<le> 255"
    by (simp add: x_def)
  have kx: "k * x \<le> k * 255"
    using x by (rule mult_le_mono2)
  let ?s1 = "s1 + ucast (m p)"
  have u1: "unat ?s1 = unat s1 + x"
    using Suc.prems(1) x by (simp add: unat_word_ariths x_def unsigned_ucast_eq take_bit_nat_eq_self unsigned_less)
  have u2: "unat (s2 + ?s1) = unat s2 + (unat s1 + x)"
    using Suc.prems(2) x u1 by (simp add: unat_word_ariths)
  have c: "unat ?s1 + 255 * k < 65536" "2 * unat (s2 + ?s1) + 2 * (k * unat ?s1) + 255 * (k * (k + 1)) < 131072"
    using Suc.prems(1,2) x kx unfolding u1 u2 Suc_eq_plus1 add_mult_distrib add_mult_distrib2 mult_1 mult_1_right by linarith+
  have "(unat s1 + x) mod 255 = (a mod 255 + x) mod 255" "(unat s2 + (unat s1 + x)) mod 255 = (b mod 255 + a mod 255 + x) mod 255"
    using Suc.prems(3,4) by (metis mod_add_left_eq, metis (no_types, lifting) mod_add_cong mod_add_left_eq add.assoc)
  then have d: "unat ?s1 mod 255 = (a mod 255 + x) mod 255" "unat (s2 + ?s1) mod 255 = (b mod 255 + a mod 255 + x) mod 255"
    unfolding u1 u2 by simp_all
  from Suc.IH [OF c d, of "p + 1"] x show ?case
    unfolding u1 u2 by (auto simp: bytes_from_Suc Let_def x_def [symmetric])
qed

lemma fletcher_loop_run:
  assumes "0 < unat s1" "unat s1 \<le> 276" "0 < unat s2" "unat s2 \<le> 510" "unat s1 mod 255 = a mod 255" "unat s2 mod 255 = b mod 255"
  shows "\<exists>t1 t2. fletcher_loop n m p s1 s2 = (t1, t2) \<and> 0 < unat t1 \<and> unat t1 \<le> 276 \<and> 0 < unat t2 \<and> unat t2 \<le> 510 \<and>
    (unat t1 mod 255, unat t2 mod 255) = foldl (\<lambda>(a, b) x. ((a + x) mod 255, (b + a + x) mod 255)) (a mod 255, b mod 255) (bytes_from m p n)"
  using assms
proof (induction n arbitrary: p s1 s2 a b rule: less_induct)
  case (less n)
  show ?case
  proof (cases "n = 0")
    case True
    then show ?thesis
      using less.prems by (simp add: fletcher_loop.simps [of 0] bytes_from_def)
  next
    case False
    define k where "k = (if n > 20 then 20 else n)"
    have k: "0 < k" "k \<le> 20" "k \<le> n" "n = k + (n - k)"
      using False by (auto simp: k_def)
    have "k * unat s1 \<le> 20 * 276" "k * (k + 1) \<le> 20 * 21"
      by (rule mult_le_mono; use k less.prems in simp)+
    then have c: "unat s1 + 255 * k < 65536" "2 * unat s2 + 2 * (k * unat s1) + 255 * (k * (k + 1)) < 131072"
      using k less.prems by simp_all
    obtain t1 t2 where t: "fletcher_block k m p s1 s2 = (t1, t2)" "unat s1 \<le> unat t1" "unat t1 \<le> unat s1 + 255 * k" "unat s2 \<le> unat t2"
      "(unat t1 mod 255, unat t2 mod 255) = foldl (\<lambda>(a, b) x. ((a + x) mod 255, (b + a + x) mod 255)) (a mod 255, b mod 255) (bytes_from m p k)"
      using fletcher_block_run [OF c less.prems(5,6)] by blast
    have "unat t2 < 65536" "unat t1 < 5632"
      using unsigned_less [of t2] t(3) k(2) less.prems(2) by simp_all
    then have f: "0 < unat (fletcher_fold t1)" "unat (fletcher_fold t1) \<le> 276" "0 < unat (fletcher_fold t2)" "unat (fletcher_fold t2) \<le> 510"
      unfolding unat_fletcher_fold using t(2,4) less.prems(1,3) fold255(2) [of "unat t1"] fold255(2) [of "unat t2"]
      by (simp_all add: fold255(3,4))
    have g: "unat (fletcher_fold t1) mod 255 = unat t1 mod 255" "unat (fletcher_fold t2) mod 255 = unat t2 mod 255"
      unfolding unat_fletcher_fold by (rule fold255)+
    have "n - k < n"
      using k by simp
    have e: "fletcher_loop n m p s1 s2 = fletcher_loop (n - k) m (p + adr k) (fletcher_fold t1) (fletcher_fold t2)"
      using t(1) False unfolding fletcher_loop.simps [of n] k_def [symmetric] Let_def by simp
    have b: "bytes_from m p n = bytes_from m p k @ bytes_from m (p + adr k) (n - k)"
      using bytes_from_add [of m p k "n - k"] k(3) by simp
    show ?thesis
      unfolding e b foldl_append t(5) [symmetric] using less.IH [OF \<open>n - k < n\<close> f g, of "p + adr k"] by simp
  qed
qed

text \<open>
  C36: \<^verbatim>\<open>fletcher16\<close> computes the Fletcher checksum: its two bytes are the sum of the bytes and the
  sum of the prefix sums modulo 255, with 255 for the residue 0.  No intermediate sum overflows
  its 16 bits, although reductions are made every 20 bytes only.
\<close>

theorem fletcher16_correct:
  "fletcher16 m p n = (case fletcher_sums (bytes_from m p (unat n)) of (a, b) \<Rightarrow> word_of_nat (256 * residue255 b + residue255 a))"
proof -
  have s: "unat (0xff :: u16) = 255"
    by simp
  obtain t1 t2 where t: "fletcher_loop (unat n) m p 0xff 0xff = (t1, t2)" "0 < unat t1" "unat t1 \<le> 276" "0 < unat t2" "unat t2 \<le> 510"
    "(unat t1 mod 255, unat t2 mod 255) = fletcher_sums (bytes_from m p (unat n))"
    using fletcher_loop_run [of "0xff" "0xff" 0 0 "unat n" m p] unfolding fletcher_sums_def s by auto
  have u: "unat (fletcher_fold t1) = residue255 (unat t1)" "unat (fletcher_fold t2) = residue255 (unat t2)"
    unfolding unat_fletcher_fold using t by (simp_all add: fold255(5))
  have b: "residue255 x \<le> 255" for x
    by (simp add: residue255_def)
  have "fletcher_fold t1 = take_bit 8 (fletcher_fold t1)"
    by (intro word_unat_eq_iff [THEN iffD2], subst unsigned_take_bit_eq) (use b [of "unat t1"] u(1) in \<open>simp add: take_bit_nat_eq_self\<close>)
  then have "\<not> bit (fletcher_fold t1) i" if "8 \<le> i" for i
    using that by (metis bit_take_bit_iff leD)
  then have "push_bit 8 (fletcher_fold t2) OR fletcher_fold t1 = push_bit 8 (fletcher_fold t2) + fletcher_fold t1"
    by (intro disjunctive_add [symmetric]) (metis bit_push_bit_iff leI)
  also have "\<dots> = word_of_nat (256 * residue255 (unat t2) + residue255 (unat t1))"
    by (simp add: push_bit_eq_mult of_nat_add mult.commute flip: u)
  also have "\<dots> = word_of_nat (256 * residue255 (unat t2 mod 255) + residue255 (unat t1 mod 255))"
    by (simp add: residue255_def)
  finally show ?thesis
    using t(6) by (simp add: fletcher16_def t(1) split: prod.splits) (metis fst_conv snd_conv)
qed

section \<open>Logarithms\<close>

definition floor_log :: "nat \<Rightarrow> nat \<Rightarrow> nat \<Rightarrow> bool" where
  "floor_log b n r \<longleftrightarrow> b ^ r \<le> n \<and> n < b ^ (r + 1)"

lemma floor_log_div: "floor_log 2 (n div 2 ^ k) r \<Longrightarrow> floor_log 2 n (r + k)"
  by (simp add: floor_log_def power_add less_eq_div_iff_mult_less_eq div_less_iff_less_mult mult.assoc)

lemma log_stage:
  fixes v :: u32
  assumes F: "\<And>v ret. 0 < unat v \<Longrightarrow> unat v < 2 ^ k \<Longrightarrow> \<exists>r < k. floor_log 2 (unat v) r \<and> F v ret = ret + word_of_nat r"
    and v: "0 < unat v" "unat v < 2 ^ (k + k)" and b: "unat b = 2 ^ k" "l = word_of_nat k"
  shows "\<exists>r < k + k. floor_log 2 (unat v) r \<and> (if v \<ge> b then F (drop_bit k v) (ret + l) else F v ret) = ret + (word_of_nat r :: u16)"
proof (cases "v \<ge> b")
  case True
  have "unat v < 2 ^ LENGTH(32)"
    by (rule unsigned_less)
  then have d: "unat (drop_bit k v) = unat v div 2 ^ k"
    by (simp only: unsigned_drop_bit_eq) (simp add: take_bit_nat_eq_self drop_bit_eq_div)
  have "2 ^ k \<le> unat v"
    using True b by (simp add: word_le_nat_alt)
  then have "0 < unat (drop_bit k v)" "unat (drop_bit k v) < 2 ^ k"
    using v(2) unfolding d by (simp_all add: div_greater_zero_iff power_add less_mult_imp_div_less)
  from F [OF this, of "ret + l"] obtain r where "r < k" "floor_log 2 (unat v div 2 ^ k) r" "F (drop_bit k v) (ret + l) = ret + l + word_of_nat r"
    unfolding d by blast
  then show ?thesis
    using True floor_log_div by (intro exI [of _ "r + k"]) (simp add: b(2) of_nat_add add.commute add.left_commute)
next
  case False
  then have "unat v < 2 ^ k"
    using b by (simp add: word_le_nat_alt)
  from F [OF v(1) this, of ret] show ?thesis
    using False by (auto intro: exI [of _ "_ :: nat"] trans_less_add1)
qed

text \<open>
  \<^verbatim>\<open>log2\<close> and \<^verbatim>\<open>log10\<close> are the logarithms to base 2 and 10, rounded down, of every
  positive 32-bit number.
\<close>

theorem logs_round_down:
  assumes "n \<noteq> 0"
  shows "floor_log 2 (unat n) (unat (log2 n)) \<and> floor_log 10 (unat n) (unat (log10 n))"
proof
  have "0 < unat n"
    using assms by (simp add: unat_gt_0)
  then show "floor_log 10 (unat n) (unat (log10 n))"
    using unat_bound [of n] by (simp add: log10_def floor_log_def word_less_nat_alt)
  define F1 F2 F3 F4 :: "u32 \<Rightarrow> u16 \<Rightarrow> u16"
    where "F1 v ret = (if v \<ge> 2 then ret + 1 else ret)" and "F2 v ret = (if v \<ge> 0x4 then F1 (drop_bit 2 v) (ret + 2) else F1 v ret)"
      and "F3 v ret = (if v \<ge> 0x10 then F2 (drop_bit 4 v) (ret + 4) else F2 v ret)"
      and "F4 v ret = (if v \<ge> 0x100 then F3 (drop_bit 8 v) (ret + 8) else F3 v ret)" for v ret
  have 1: "\<exists>r < 2. floor_log 2 (unat v) r \<and> F1 v ret = ret + word_of_nat r" if "0 < unat v" "unat v < 2 ^ 2" for v ret
    using that by (intro exI [of _ "if v \<ge> 2 then 1 else 0"]) (auto simp: F1_def floor_log_def word_le_nat_alt of_nat_Suc)
  have 2: "\<exists>r < 4. floor_log 2 (unat v) r \<and> F2 v ret = ret + word_of_nat r" if "0 < unat v" "unat v < 2 ^ 4" for v ret
    using log_stage [of 2 F1 v 4 2 ret, OF 1] that unfolding F2_def by simp
  have 3: "\<exists>r < 8. floor_log 2 (unat v) r \<and> F3 v ret = ret + word_of_nat r" if "0 < unat v" "unat v < 2 ^ 8" for v ret
    using log_stage [of 4 F2 v "0x10" 4 ret, OF 2] that unfolding F3_def by simp
  have 4: "\<exists>r < 16. floor_log 2 (unat v) r \<and> F4 v ret = ret + word_of_nat r" if "0 < unat v" "unat v < 2 ^ 16" for v ret
    using log_stage [of 8 F3 v "0x100" 8 ret, OF 3] that unfolding F4_def by simp
  have p: "(case if c then (a, b) else (d, e) of (x, y) \<Rightarrow> f x y) = (if c then f a b else f d e)" for c a b d e and f :: "u16 \<Rightarrow> u32 \<Rightarrow> u16"
    by simp
  have "log2 n = (if n \<ge> 0x10000 then F4 (drop_bit 16 n) (0 + 16) else F4 n 0)"
    unfolding log2_def F1_def F2_def F3_def F4_def Let_def p add_0 ..
  then show "floor_log 2 (unat n) (unat (log2 n))"
    using log_stage [of 16 F4 n "0x10000" 16 0, OF 4] \<open>0 < unat n\<close> unat_bound [of n] by (auto simp: unsigned_of_nat take_bit_nat_eq_self)
qed

theorem logs_round_down_witness: "floor_log 2 1000 (unat (log2 1000)) \<and> floor_log 10 1000 (unat (log10 1000))"
  using logs_round_down [of 1000] by simp

end
