(* ===== verification/Net.thy ===== *)
theory Net
  imports Slab KUtil
begin

text \<open>
  The network stack, \<^verbatim>\<open>kernel/net\<close>: addresses, packets, interfaces, the registry of protocol
  drivers, Ethernet, ARP, IPv4, ICMP, UDP and the receive and transmit paths.  A network address
  is its type and its six bytes as a word of 48 bits.  A packet is a record; its data is memory.
  The table of interfaces, the drivers, the ARP cache and the routes are lists in the order of
  their links, with the pointers of the items where the code keeps pointers to them.

  Every handler of the receive and transmit paths ends with a call of the dispatcher whose result
  it returns.  A handler is a function that returns this call, an \<open>action\<close>; \<open>net_run\<close>
  performs the calls until one returns a value.  \<open>None\<close> stands for \<^verbatim>\<open>kernel_fatal\<close>.
  The network device is a parameter: the result of \<^verbatim>\<open>dev->write\<close> for each frame.
\<close>

section \<open>Types\<close>

datatype net_protocol = Np_unknown | Np_raw | Np_ethernet | Np_arp | Np_ipv4 | Np_ipv6 | Np_tcp | Np_udp | Np_icmp | Np_invalid

datatype net_addr_type = Na_unknown | Na_ethernet | Na_ipv4 | Na_ipv6 | Na_invalid

record net_address =
  na_addr :: "48 word"
  na_type :: net_addr_type

record net_iface_stats =
  rx_packets :: u32
  rx_bytes :: u32
  rx_checksum_err :: u32
  rx_dropped :: u32
  tx_packets :: u32
  tx_bytes :: u32

record net_iface =
  if_dev :: u32
  if_hw_addr :: net_address
  if_proto_addr :: net_address
  if_stats :: net_iface_stats
  if_proto :: net_protocol

record net_packet =
  pk_iface :: u32
  pk_proto :: net_protocol
  pk_start :: u32
  pk_len :: u32
  pk_raw :: buffer

datatype rx_fn = Net_rx_unimplemented | Eth_rx | Ipv4_rx | Arp_rx | Icmp_rx | Udp_rx | Tcp_rx
datatype tx_fn = Net_tx_unimplemented | Eth_tx | Ipv4_tx | Udp_tx
datatype compare_fn = Net_addr_compare_unimplemented | Eth_addr_compare | Ipv4_addr_compare
datatype alloc_fn = Net_packet_alloc_unimplemented | Eth_packet_alloc | Ipv4_packet_alloc | Udp_packet_alloc | Arp_packet_alloc | Raw_packet_alloc
datatype route_fn = Net_route_get_iface_unimplemented | Ipv4_route_get_iface

record net_proto_fns =
  fn_rx :: rx_fn
  fn_tx :: tx_fn
  fn_addr_compare :: compare_fn
  fn_packet_alloc :: alloc_fn
  fn_route_get_iface :: route_fn

record arp_cache_item =
  ai_iface :: u32
  ai_hw_addr :: net_address
  ai_proto_addr :: net_address
  ai_etime :: u32

record ipv4_route =
  rt_iface :: u32
  rt_dest :: u32
  rt_mask :: u32
  rt_gateway :: u32
  rt_metric :: u16
  rt_flags :: u16
  rt_prefix_len :: u16

text \<open>The lines the DHCP client prints for the options of a reply, and at its end.\<close>

datatype dhcp_line = Subnet_mask u32 | Router u32 | Dns_resolver u32 | Broadcast u32 | Option_id u8 u8 | Bootp_reply u32 u32 u32 u32

text \<open>
  \<open>g_ifaces\<close> and \<open>routes\<close> pair each item with its address, \<open>sent\<close> is the list of the frames
  passed to a device, \<open>rand_state\<close> the state of \<^verbatim>\<open>rand\<close>, \<open>dhcp_log\<close> what the DHCP client printed.
\<close>

record net =
  net_mach :: machine
  net_slab :: slab_ctx
  net_heap :: mem_ctxs
  g_ifaces :: "(u32 \<times> net_iface) list"
  drivers :: "(net_protocol \<times> net_proto_fns) list"
  g_arp_cache :: "arp_cache_item list option"
  routes :: "(u32 \<times> ipv4_route) list"
  default_route :: u32
  g_current_timestamp :: u32
  rand_state :: u32
  sent :: "(u32 \<times> u8 list) list"
  dhcp_log :: "dhcp_line list"

abbreviation nmem :: "net \<Rightarrow> mem" where "nmem st \<equiv> ram (net_mach st)"

definition put_nmem :: "mem \<Rightarrow> net \<Rightarrow> net" where
  "put_nmem m st = st\<lparr>net_mach := (net_mach st)\<lparr>ram := m\<rparr>\<rparr>"

section \<open>net.c: the Internet checksum\<close>

fun cksum_loop :: "nat \<Rightarrow> mem \<Rightarrow> u32 \<Rightarrow> u32 \<Rightarrow> u32 \<times> u32" where
  "cksum_loop 0 m p sm = (p, sm)"
| "cksum_loop (Suc x) m p sm = cksum_loop x m (p + 2) (sm + ucast (load16 m p))"

definition net_cksum :: "mem \<Rightarrow> u32 \<Rightarrow> u32 \<Rightarrow> u16 option" where
  "net_cksum m buf len =
     (if buf AND 1 \<noteq> 0 then None
      else if len > 65535 then None
      else case cksum_loop (unat (drop_bit 1 len)) m buf 0 of (p, sm) \<Rightarrow>
        let sm = (if len AND 1 \<noteq> 0 then sm + push_bit 8 (ucast (m p)) else sm)
        in Some (ucast (NOT (sm + drop_bit 16 sm))))"

section \<open>address.c and the address functions of ethernet.c and ipv4.c\<close>

definition net_address_set_type :: "net_addr_type \<Rightarrow> net_address \<Rightarrow> int \<times> net_address" where
  "net_address_set_type type a = (if type = Na_invalid then (- 22, a) else (0, a\<lparr>na_type := type\<rparr>))"

definition net_address_get_proto :: "net_address \<Rightarrow> net_protocol" where
  "net_address_get_proto a = (case na_type a of
       Na_ethernet \<Rightarrow> Np_ethernet
     | Na_ipv4 \<Rightarrow> Np_ipv4
     | Na_ipv6 \<Rightarrow> Np_ipv6
     | _ \<Rightarrow> Np_unknown)"

definition net_protocol_from_address :: "net_address \<Rightarrow> net_protocol" where
  "net_protocol_from_address a = (case na_type a of
       Na_ethernet \<Rightarrow> Np_ethernet
     | Na_ipv4 \<Rightarrow> Np_ipv4
     | Na_ipv6 \<Rightarrow> Np_ipv6
     | _ \<Rightarrow> Np_unknown)"

definition net_address_type_from_proto :: "net_protocol \<Rightarrow> net_addr_type" where
  "net_address_type_from_proto proto = (case proto of
       Np_ethernet \<Rightarrow> Na_ethernet
     | Np_ipv4 \<Rightarrow> Na_ipv4
     | Np_ipv6 \<Rightarrow> Na_ipv6
     | _ \<Rightarrow> Na_unknown)"

definition mac_at :: "mem \<Rightarrow> u32 \<Rightarrow> 48 word" where
  "mac_at m p = push_bit 16 (ucast (load32 m p)) OR ucast (load16 m (p + 4))"

definition store_mac :: "mem \<Rightarrow> u32 \<Rightarrow> 48 word \<Rightarrow> mem" where
  "store_mac m p a = store16 (store32 m p (ucast (drop_bit 16 a))) (p + 4) (ucast a)"

definition eth_mac_broadcast :: "48 word" where "eth_mac_broadcast = 0xffffffffffff"

definition eth_make_addr :: "48 word \<Rightarrow> net_address" where
  "eth_make_addr mac = \<lparr>na_addr = mac, na_type = Na_ethernet\<rparr>"

definition eth_make_broadcast_addr :: net_address where
  "eth_make_broadcast_addr = eth_make_addr eth_mac_broadcast"

definition eth_get_addr :: "net_address \<Rightarrow> 48 word option" where
  "eth_get_addr a = (if na_type a \<noteq> Na_ethernet then None else Some (na_addr a))"

fun compare6 :: "nat \<Rightarrow> 48 word \<Rightarrow> 48 word \<Rightarrow> int" where
  "compare6 n a b =
     (let x = ucast (drop_bit (8 * n) a) :: u8; y = ucast (drop_bit (8 * n) b) :: u8
      in if n \<noteq> 0 \<and> x = y then compare6 (n - 1) a b else uint x - uint y)"

declare compare6.simps [simp del]

definition eth_addr_compare :: "net_address \<Rightarrow> net_address \<Rightarrow> int" where
  "eth_addr_compare a1 a2 =
     (if na_type a1 \<noteq> Na_ethernet \<or> na_type a2 \<noteq> Na_ethernet then - 1 else compare6 5 (na_addr a1) (na_addr a2))"

definition ETHERTYPE_IPV4 :: u16 where "ETHERTYPE_IPV4 = 0x0800"
definition ETHERTYPE_ARP :: u16 where "ETHERTYPE_ARP = 0x0806"

definition eth_proto_from_ethertype :: "u16 \<Rightarrow> net_protocol" where
  "eth_proto_from_ethertype e = (if e = ETHERTYPE_IPV4 then Np_ipv4 else if e = ETHERTYPE_ARP then Np_arp else Np_unknown)"

definition eth_ethertype_from_proto :: "net_protocol \<Rightarrow> u16" where
  "eth_ethertype_from_proto proto = (case proto of Np_ipv4 \<Rightarrow> ETHERTYPE_IPV4 | Np_arp \<Rightarrow> ETHERTYPE_ARP | _ \<Rightarrow> 0)"

definition ipv4_make_addr :: "u32 \<Rightarrow> u16 \<Rightarrow> net_address" where
  "ipv4_make_addr ip port = \<lparr>na_addr = push_bit 16 (ucast ip) OR ucast port, na_type = Na_ipv4\<rparr>"

definition ipv4_make_broadcast_addr :: net_address where
  "ipv4_make_broadcast_addr = ipv4_make_addr 0xffffffff 0"

definition ipv4_get_addr :: "net_address \<Rightarrow> u32" where
  "ipv4_get_addr a = (if na_type a \<noteq> Na_ipv4 then 0 else ucast (drop_bit 16 (na_addr a)))"

definition ipv4_get_port :: "net_address \<Rightarrow> u16" where
  "ipv4_get_port a = (if na_type a \<noteq> Na_ipv4 then 0 else ucast (na_addr a))"

definition ipv4_addr_set_port :: "net_address \<Rightarrow> u16 \<Rightarrow> net_address" where
  "ipv4_addr_set_port a port = a\<lparr>na_addr := push_bit 16 (drop_bit 16 (na_addr a)) OR ucast port\<rparr>"

definition ipv4_addr_compare :: "net_address \<Rightarrow> net_address \<Rightarrow> int" where
  "ipv4_addr_compare a1 a2 =
     (if na_type a1 \<noteq> Na_ipv4 \<or> na_type a2 \<noteq> Na_ipv4 then - 1
      else if (ucast (drop_bit 16 (na_addr a1)) :: u32) = ucast (drop_bit 16 (na_addr a2)) then 0 else 1)"

definition ipv4_get_ipproto :: "net_protocol \<Rightarrow> u8" where
  "ipv4_get_ipproto proto = (case proto of Np_tcp \<Rightarrow> 6 | Np_udp \<Rightarrow> 17 | Np_icmp \<Rightarrow> 1 | _ \<Rightarrow> 255)"

definition ipv4_get_proto :: "u8 \<Rightarrow> net_protocol" where
  "ipv4_get_proto proto = (if proto = 6 then Np_tcp else if proto = 17 then Np_udp else if proto = 1 then Np_icmp else Np_unknown)"

section \<open>packet.c\<close>

definition net_packet_reset :: "net_packet \<Rightarrow> net_packet" where
  "net_packet_reset pk = pk\<lparr>pk_start := buf_data (pk_raw pk), pk_len := buf_len (pk_raw pk)\<rparr>"

definition net_packet_set_len :: "net_packet \<Rightarrow> u32 \<Rightarrow> int \<times> net_packet" where
  "net_packet_set_len pk new_len = (if new_len > buf_len (pk_raw pk) then (- 22, pk) else (0, pk\<lparr>pk_len := new_len\<rparr>))"

definition net_packet_insert :: "net_packet \<Rightarrow> u32 \<Rightarrow> int \<times> net_packet" where
  "net_packet_insert pk len =
     (if pk_len pk + len > buf_len (pk_raw pk) then (- 22, pk)
      else (0, pk\<lparr>pk_start := pk_start pk - len, pk_len := pk_len pk + len\<rparr>))"

definition net_packet_encapsulate :: "net_packet \<Rightarrow> net_protocol \<Rightarrow> u32 \<Rightarrow> int \<times> net_packet" where
  "net_packet_encapsulate pk proto len = net_packet_insert (pk\<lparr>pk_proto := proto\<rparr>) len"

definition net_packet_consume :: "net_packet \<Rightarrow> u32 \<Rightarrow> int \<times> net_packet" where
  "net_packet_consume pk len =
     (if pk_len pk < len then (- 22, pk)
      else (0, pk\<lparr>pk_start := pk_start pk + len, pk_len := pk_len pk - len\<rparr>))"

section \<open>interface.c\<close>

definition the_iface :: "net \<Rightarrow> u32 \<Rightarrow> net_iface option" where
  "the_iface st p = map_of (g_ifaces st) p"

definition update_iface :: "u32 \<Rightarrow> (net_iface \<Rightarrow> net_iface) \<Rightarrow> net \<Rightarrow> net" where
  "update_iface p f st = st\<lparr>g_ifaces := map (\<lambda>(q, i). (q, if q = p then f i else i)) (g_ifaces st)\<rparr>"

definition update_stats :: "u32 \<Rightarrow> (net_iface_stats \<Rightarrow> net_iface_stats) \<Rightarrow> net \<Rightarrow> net" where
  "update_stats p f = update_iface p (\<lambda>i. i\<lparr>if_stats := f (if_stats i)\<rparr>)"

definition net_interface_stats_inc_rx_packets :: "u32 \<Rightarrow> net \<Rightarrow> net" where
  "net_interface_stats_inc_rx_packets p = update_stats p (\<lambda>t. t\<lparr>rx_packets := rx_packets t + 1\<rparr>)"

definition net_interface_stats_add_rx_bytes :: "u32 \<Rightarrow> u32 \<Rightarrow> net \<Rightarrow> net" where
  "net_interface_stats_add_rx_bytes p bytes = update_stats p (\<lambda>t. t\<lparr>rx_bytes := rx_bytes t + bytes\<rparr>)"

definition net_interface_stats_inc_tx_packets :: "u32 \<Rightarrow> net \<Rightarrow> net" where
  "net_interface_stats_inc_tx_packets p = update_stats p (\<lambda>t. t\<lparr>tx_packets := tx_packets t + 1\<rparr>)"

definition net_interface_stats_add_tx_bytes :: "u32 \<Rightarrow> u32 \<Rightarrow> net \<Rightarrow> net" where
  "net_interface_stats_add_tx_bytes p bytes = update_stats p (\<lambda>t. t\<lparr>tx_bytes := tx_bytes t + bytes\<rparr>)"

definition net_interface_stats_inc_cksum_err :: "u32 \<Rightarrow> net \<Rightarrow> net" where
  "net_interface_stats_inc_cksum_err p = update_stats p (\<lambda>t. t\<lparr>rx_checksum_err := rx_checksum_err t + 1\<rparr>)"

definition net_interface_stats_inc_rx_dropped :: "u32 \<Rightarrow> net \<Rightarrow> net" where
  "net_interface_stats_inc_rx_dropped p = update_stats p (\<lambda>t. t\<lparr>rx_dropped := rx_dropped t + 1\<rparr>)"

definition net_interface_set_proto_addr :: "u32 \<Rightarrow> net_address \<Rightarrow> net \<Rightarrow> net" where
  "net_interface_set_proto_addr p a = update_iface p (\<lambda>i. i\<lparr>if_proto_addr := a\<rparr>)"

definition net_interface_get_by_dev :: "(u32 \<Rightarrow> string) \<Rightarrow> string \<Rightarrow> net \<Rightarrow> u32" where
  "net_interface_get_by_dev dev_name name st =
     (case find (\<lambda>(p, i). dev_name (if_dev i) = name) (g_ifaces st) of Some (p, i) \<Rightarrow> p | None \<Rightarrow> 0)"

section \<open>protocol.c\<close>

definition net_proto_fns_struct_init :: net_proto_fns where
  "net_proto_fns_struct_init = \<lparr>fn_rx = Net_rx_unimplemented, fn_tx = Net_tx_unimplemented,
     fn_addr_compare = Net_addr_compare_unimplemented, fn_packet_alloc = Net_packet_alloc_unimplemented,
     fn_route_get_iface = Net_route_get_iface_unimplemented\<rparr>"

definition net_protocol_get_driver :: "net_protocol \<Rightarrow> net \<Rightarrow> net_proto_fns option" where
  "net_protocol_get_driver proto st = map_of (drivers st) proto"

definition net_protocol_addr_compare :: "net_protocol \<Rightarrow> net_address \<Rightarrow> net_address \<Rightarrow> net \<Rightarrow> int" where
  "net_protocol_addr_compare proto a1 a2 st =
     (case net_protocol_get_driver proto st of
        None \<Rightarrow> - 1
      | Some drv \<Rightarrow>
          if proto = Np_unknown then - 1
          else case fn_addr_compare drv of
            Net_addr_compare_unimplemented \<Rightarrow> - 38
          | Eth_addr_compare \<Rightarrow> eth_addr_compare a1 a2
          | Ipv4_addr_compare \<Rightarrow> ipv4_addr_compare a1 a2)"

definition net_address_compare :: "net_address \<Rightarrow> net_address \<Rightarrow> net \<Rightarrow> int" where
  "net_address_compare a1 a2 st =
     (if na_type a1 = na_type a2 then net_protocol_addr_compare (net_protocol_from_address a1) a1 a2 st else - 1)"

section \<open>arp.c: the cache\<close>

definition ARP_CACHE_SIZE :: nat where "ARP_CACHE_SIZE = 16"
definition ARP_CACHE_ITEM_LIFETIME :: u32 where "ARP_CACHE_ITEM_LIFETIME = 1200"
definition TIME_T_MAX :: u32 where "TIME_T_MAX = 0x7fffffff"

definition arp_hit :: "net \<Rightarrow> u32 \<Rightarrow> net_address \<Rightarrow> arp_cache_item \<Rightarrow> bool" where
  "arp_hit st iface proto_addr p \<longleftrightarrow> ai_iface p = iface \<and> net_address_compare proto_addr (ai_proto_addr p) st = 0 \<and>
     g_current_timestamp st <s ai_etime p"

text \<open>The index of the entry found, in place of a pointer to it.\<close>

fun find_index :: "('a \<Rightarrow> bool) \<Rightarrow> 'a list \<Rightarrow> nat option" where
  "find_index P [] = None"
| "find_index P (x # xs) = (if P x then Some 0 else map_option Suc (find_index P xs))"

definition arp_cache_lookup :: "u32 \<Rightarrow> net_address \<Rightarrow> net \<Rightarrow> nat option" where
  "arp_cache_lookup iface proto_addr st =
     (case g_arp_cache st of None \<Rightarrow> None | Some c \<Rightarrow> find_index (arp_hit st iface proto_addr) c)"

fun soonest :: "u32 \<Rightarrow> arp_cache_item list \<Rightarrow> nat \<Rightarrow> u32 \<Rightarrow> nat option \<Rightarrow> nat option" where
  "soonest now [] i shortest_expiry expiring_soonest = expiring_soonest"
| "soonest now (p # ps) i shortest_expiry expiring_soonest =
     (if ai_etime p \<le>s now \<or> ai_iface p = 0 then Some i
      else if ai_etime p <s shortest_expiry then soonest now ps (i + 1) (ai_etime p) (Some i)
      else soonest now ps (i + 1) shortest_expiry expiring_soonest)"

definition arp_cache_get_entry_for_insert :: "net \<Rightarrow> nat option" where
  "arp_cache_get_entry_for_insert st =
     (case g_arp_cache st of None \<Rightarrow> None | Some c \<Rightarrow> soonest (g_current_timestamp st) c 0 TIME_T_MAX None)"

definition update_arp :: "nat \<Rightarrow> (arp_cache_item \<Rightarrow> arp_cache_item) \<Rightarrow> net \<Rightarrow> net" where
  "update_arp i f st = st\<lparr>g_arp_cache := map_option (\<lambda>c. c[i := f (c ! i)]) (g_arp_cache st)\<rparr>"

definition arp_cache_add :: "u32 \<Rightarrow> net_address \<Rightarrow> net_address \<Rightarrow> net \<Rightarrow> int \<times> net" where
  "arp_cache_add iface hw_addr proto_addr st =
     (case arp_cache_lookup iface proto_addr st of
        None \<Rightarrow>
          (case arp_cache_get_entry_for_insert st of
             Some i \<Rightarrow> (0, update_arp i (\<lambda>_. \<lparr>ai_iface = iface, ai_hw_addr = hw_addr, ai_proto_addr = proto_addr,
                 ai_etime = g_current_timestamp st + ARP_CACHE_ITEM_LIFETIME\<rparr>) st)
           | None \<Rightarrow> (0, st))
      | Some i \<Rightarrow> (0, update_arp i (\<lambda>p. p\<lparr>ai_etime := g_current_timestamp st + ARP_CACHE_ITEM_LIFETIME\<rparr>) st))"

definition arp_cache_get_item :: "nat \<Rightarrow> net \<Rightarrow> arp_cache_item option" where
  "arp_cache_get_item n st = (case g_arp_cache st of None \<Rightarrow> None | Some c \<Rightarrow> if n \<ge> ARP_CACHE_SIZE then None else Some (c ! n))"

section \<open>protocol.c: registering a driver\<close>

text \<open>\<open>name\<close> is the address of the name, a driver structure has 32 bytes.\<close>

definition net_protocol_register_driver :: "net_protocol \<Rightarrow> u32 \<Rightarrow> net_proto_fns \<Rightarrow> net \<Rightarrow> (int \<times> net) option" where
  "net_protocol_register_driver proto name f st = do {
     (driver, c, s) \<leftarrow> slab_alloc 32 (net_slab st, net_mach st);
     let st = st\<lparr>net_slab := c, net_mach := s\<rparr>;
     if driver = 0 then Some (- 12, st)
     else do {
       (name, s) \<leftarrow> strdup (kmalloc (net_heap st)) name (net_mach st);
       if name = 0
       then do {
         (c, s) \<leftarrow> slab_free driver (net_slab st, s);
         Some (- 22, st\<lparr>net_slab := c, net_mach := s\<rparr>)
       }
       else Some (0, st\<lparr>net_mach := s, drivers := drivers st @ [(proto, f)]\<rparr>)
     }
   }"

text \<open>What each protocol registers; \<open>name\<close> is the address of the string literal.\<close>

definition eth_fns :: net_proto_fns where
  "eth_fns = net_proto_fns_struct_init\<lparr>fn_rx := Eth_rx, fn_tx := Eth_tx, fn_addr_compare := Eth_addr_compare,
     fn_packet_alloc := Eth_packet_alloc\<rparr>"

definition eth_init :: "u32 \<Rightarrow> net \<Rightarrow> (int \<times> net) option" where
  "eth_init name st = net_protocol_register_driver Np_ethernet name eth_fns st"

definition arp_fns :: net_proto_fns where
  "arp_fns = net_proto_fns_struct_init\<lparr>fn_rx := Arp_rx, fn_packet_alloc := Arp_packet_alloc\<rparr>"

definition ipv4_fns :: net_proto_fns where
  "ipv4_fns = net_proto_fns_struct_init\<lparr>fn_rx := Ipv4_rx, fn_tx := Ipv4_tx, fn_addr_compare := Ipv4_addr_compare,
     fn_packet_alloc := Ipv4_packet_alloc, fn_route_get_iface := Ipv4_route_get_iface\<rparr>"

definition icmp_fns :: net_proto_fns where
  "icmp_fns = net_proto_fns_struct_init\<lparr>fn_rx := Icmp_rx\<rparr>"

definition icmp_init :: "u32 \<Rightarrow> net \<Rightarrow> (int \<times> net) option" where
  "icmp_init name st = net_protocol_register_driver Np_icmp name icmp_fns st"

definition tcp_fns :: net_proto_fns where
  "tcp_fns = net_proto_fns_struct_init\<lparr>fn_rx := Tcp_rx\<rparr>"

definition tcp_init :: "u32 \<Rightarrow> net \<Rightarrow> (int \<times> net) option" where
  "tcp_init name st = net_protocol_register_driver Np_tcp name tcp_fns st"

definition udp_fns :: net_proto_fns where
  "udp_fns = net_proto_fns_struct_init\<lparr>fn_rx := Udp_rx, fn_tx := Udp_tx, fn_packet_alloc := Udp_packet_alloc\<rparr>"

definition udp_init :: "u32 \<Rightarrow> net \<Rightarrow> (int \<times> net) option" where
  "udp_init name st = net_protocol_register_driver Np_udp name udp_fns st"

definition raw_fns :: net_proto_fns where
  "raw_fns = net_proto_fns_struct_init\<lparr>fn_packet_alloc := Raw_packet_alloc\<rparr>"

definition raw_init :: "u32 \<Rightarrow> net \<Rightarrow> (int \<times> net) option" where
  "raw_init name st = net_protocol_register_driver Np_raw name raw_fns st"

section \<open>The routes of ipv4.c\<close>

definition IPV4_ROUTE_UP :: u16 where "IPV4_ROUTE_UP = 1"

definition ipv4_mask_valid :: "u32 \<Rightarrow> bool" where
  "ipv4_mask_valid msk \<longleftrightarrow> msk = 0 \<or> NOT msk AND (NOT msk + 1) = 0"

function prefix_loop :: "u32 \<Rightarrow> u8 \<Rightarrow> u8" where
  "prefix_loop m cidr = (if m = 0 then cidr else prefix_loop (drop_bit 1 m) (cidr - 1))"
  by auto
termination
proof (relation "measure (\<lambda>(m, cidr). unat m)")
  fix m :: u32 and cidr :: u8 assume "m \<noteq> 0"
  then have "0 < unat m"
    by (simp add: unat_gt_0)
  then have "unat m div 2 < unat m"
    by simp
  then show "((drop_bit 1 m, cidr - 1), (m, cidr)) \<in> measure (\<lambda>(m, cidr). unat m)"
    by (simp add: drop_bit_eq_div unat_div)
qed simp

declare prefix_loop.simps [simp del]

definition ipv4_mask_to_prefix_len :: "u32 \<Rightarrow> u8" where
  "ipv4_mask_to_prefix_len msk = prefix_loop (NOT msk) 32"

definition duplicate_route :: "ipv4_route \<Rightarrow> ipv4_route \<Rightarrow> bool" where
  "duplicate_route rt r \<longleftrightarrow> rt_mask rt = rt_mask r \<and> rt_dest rt = rt_dest r \<and> (rt_gateway rt = rt_gateway r \<or> rt_dest rt = 0)"

text \<open>A routing table entry has 26 bytes; its route is at its start.\<close>

definition ipv4_route_add :: "ipv4_route \<Rightarrow> net \<Rightarrow> (int \<times> net) option" where
  "ipv4_route_add r st =
     (if \<not> ipv4_mask_valid (rt_mask r) \<or> rt_metric r <s 0 then Some (- 22, st)
      else if list_ex (\<lambda>(p, rt). duplicate_route rt r) (routes st) then Some (- 17, st)
      else do {
        (p, c, s) \<leftarrow> slab_alloc 26 (net_slab st, net_mach st);
        let st = st\<lparr>net_slab := c, net_mach := s\<rparr>;
        if p = 0 then Some (- 12, st)
        else let st = st\<lparr>routes := routes st @ [(p, r\<lparr>rt_prefix_len := ucast (ipv4_mask_to_prefix_len (rt_mask r))\<rparr>)]\<rparr>
          in Some (0, if rt_gateway r = 0 \<and> rt_mask r = 0 then st\<lparr>default_route := p\<rparr> else st)
      })"

text \<open>
  \<open>prev\<close> is NULL for the first item, and writing through it is undefined; for the others it is
  the address of the loop variable \<^verbatim>\<open>p\<close>, so the assignment stores the link of the item in the
  item itself and the list stays as it is.
\<close>

definition same_route :: "ipv4_route \<Rightarrow> ipv4_route \<Rightarrow> bool" where
  "same_route rt r \<longleftrightarrow> rt_dest rt = rt_dest r \<and> rt_mask rt = rt_mask r \<and> rt_gateway rt = rt_gateway r"

fun delete_loop :: "bool \<Rightarrow> (u32 \<times> ipv4_route) list \<Rightarrow> ipv4_route \<Rightarrow> net \<Rightarrow> (int \<times> net) option" where
  "delete_loop first [] r st = Some (- 2, st)"
| "delete_loop first ((p, rt) # rts) r st =
     (if same_route rt r
      then let st = (if rt_gateway r = 0 \<and> rt_mask r = 0 then st\<lparr>default_route := 0\<rparr> else st)
        in if first then None
           else do {
             (c, s) \<leftarrow> slab_free p (net_slab st, net_mach st);
             Some (0, st\<lparr>net_slab := c, net_mach := s\<rparr>)
           }
      else delete_loop False rts r st)"

definition ipv4_route_delete :: "ipv4_route \<Rightarrow> net \<Rightarrow> (int \<times> net) option" where
  "ipv4_route_delete r st = delete_loop True (routes st) r st"

fun best_loop :: "(u32 \<times> ipv4_route) list \<Rightarrow> u32 \<Rightarrow> u16 \<Rightarrow> u16 \<Rightarrow> u32 \<Rightarrow> u32" where
  "best_loop [] ipv4_addr best_prefix_len best_metric best_route = best_route"
| "best_loop ((p, r) # rts) ipv4_addr best_prefix_len best_metric best_route =
     (if rt_dest r AND rt_mask r = ipv4_addr AND rt_mask r \<and> rt_flags r AND IPV4_ROUTE_UP \<noteq> 0 \<and>
         best_prefix_len <s rt_prefix_len r \<and> best_metric <s rt_metric r
      then best_loop rts ipv4_addr (rt_prefix_len r) (rt_metric r) p
      else best_loop rts ipv4_addr best_prefix_len best_metric best_route)"

definition ipv4_route_get :: "net_address \<Rightarrow> net \<Rightarrow> u32" where
  "ipv4_route_get proto_addr st =
     (if na_type proto_addr \<noteq> Na_ipv4 then 0
      else best_loop (routes st) (ipv4_get_addr proto_addr) (- 1) (- 1) (default_route st))"

text \<open>The interface of the route, as \<open>Inr\<close>; a default route that is no longer in the table is undefined.\<close>

definition ipv4_route_get_iface :: "net_address \<Rightarrow> net \<Rightarrow> (int + u32) option" where
  "ipv4_route_get_iface proto_addr st =
     (let route = ipv4_route_get proto_addr st
      in if route \<noteq> 0 then map_option (\<lambda>r. Inr (rt_iface r)) (map_of (routes st) route) else Some (Inl (- 113)))"

definition net_route_get_iface :: "net_address \<Rightarrow> net \<Rightarrow> (int + u32) option" where
  "net_route_get_iface a st =
     (case net_protocol_get_driver (net_address_get_proto a) st of
        None \<Rightarrow> Some (Inl (- 93))
      | Some drv \<Rightarrow> (case fn_route_get_iface drv of
            Net_route_get_iface_unimplemented \<Rightarrow> Some (Inl (- 38))
          | Ipv4_route_get_iface \<Rightarrow> ipv4_route_get_iface a st))"

definition ipv4_route_get_hw_addr :: "u32 \<Rightarrow> net_address \<Rightarrow> net \<Rightarrow> int + net_address" where
  "ipv4_route_get_hw_addr iface proto_addr st =
     (if na_type proto_addr \<noteq> Na_ipv4 then Inl (- 113)
      else case arp_cache_lookup iface proto_addr st of
        Some i \<Rightarrow> Inr (ai_hw_addr (the (g_arp_cache st) ! i))
      | None \<Rightarrow> if ipv4_addr_compare proto_addr ipv4_make_broadcast_addr = 0 then Inr eth_make_broadcast_addr
               else Inl (- 113))"

section \<open>Handlers of received packets\<close>

text \<open>
  \<open>Return ret\<close> ends the processing; \<open>Rx\<close> and \<open>Tx\<close> are the calls of \<^verbatim>\<open>net_protocol_rx\<close> and
  \<^verbatim>\<open>net_protocol_tx\<close>.  A source address may be NULL when transmitting.
\<close>

datatype net_action = Return int | Rx net_address net_address net_packet | Tx "net_address option" net_address net_packet

definition eth_rx :: "net_address \<Rightarrow> net_address \<Rightarrow> net_packet \<Rightarrow> net \<Rightarrow> (net_action \<times> net) option" where
  "eth_rx src dest pk st =
     (let ehdr = pk_start pk; m = nmem st
      in case net_packet_consume pk 14 of (ret, pk) \<Rightarrow>
        if ret \<noteq> 0 then Some (Return ret, st)
        else let src = (if net_address_get_proto src = Np_unknown then eth_make_addr (mac_at m (ehdr + 6)) else src);
            dest = (if net_address_get_proto dest = Np_unknown then eth_make_addr (mac_at m ehdr) else dest);
            pk = pk\<lparr>pk_proto := eth_proto_from_ethertype (load16 m (ehdr + 12))\<rparr>
          in Some (Rx src dest pk, st))"

definition ipv4_rx :: "net_address \<Rightarrow> net_address \<Rightarrow> net_packet \<Rightarrow> net \<Rightarrow> (net_action \<times> net) option" where
  "ipv4_rx src dest pk st = do {
     let hdr = pk_start pk;
     let m = nmem st;
     ck \<leftarrow> net_cksum m hdr (push_bit 2 (ucast (m hdr AND 0xf)));
     if ck \<noteq> 0 then Some (Return (- 504), st)
     else case net_packet_consume pk 20 of (ret, pk) \<Rightarrow>
       if ret \<noteq> 0 then Some (Return ret, st)
       else let ipv4_src = ipv4_make_addr (load32 m (hdr + 12)) 0;
           ipv4_dest = ipv4_make_addr (load32 m (hdr + 16)) 0;
           pk = pk\<lparr>pk_proto := ipv4_get_proto (m (hdr + 9))\<rparr>;
           st = (if load32 m (hdr + 12) \<noteq> 0 then snd (arp_cache_add (pk_iface pk) src ipv4_src st) else st)
         in Some (Rx ipv4_src ipv4_dest pk, st)
   }"

text \<open>
  The ARP packet: hardware type at 0, protocol type at 2, opcode at 6, source MAC at 8, source IP
  at 14, destination MAC at 18, destination IP at 24.
\<close>

definition arp_rx :: "net_address \<Rightarrow> net_address \<Rightarrow> net_packet \<Rightarrow> net \<Rightarrow> (net_action \<times> net) option" where
  "arp_rx src dest pk st =
     (let hdr = pk_start pk; m = nmem st
      in if pk_len pk < 28 then Some (Return (- 22), st)
         else if load16 m hdr \<noteq> 1 \<or> load16 m (hdr + 2) \<noteq> ETHERTYPE_IPV4 then Some (Return 0, st)
         else do {
           let dst = ipv4_make_addr (load32 m (hdr + 24)) 0;
           let hw_addr = eth_make_addr (mac_at m (hdr + 8));
           let proto_addr = ipv4_make_addr (load32 m (hdr + 14)) 0;
           if load16 m (hdr + 6) = 1
           then do {
             iface \<leftarrow> the_iface st (pk_iface pk);
             if net_address_compare dst (if_proto_addr iface) st = 0
             then do {
               let (ret, st) = arp_cache_add (pk_iface pk) hw_addr proto_addr st;
               let m = store16 m (hdr + 6) 2;
               let m = store32 m (hdr + 24) (load32 m (hdr + 14));
               let m = store_mac m (hdr + 18) (mac_at m (hdr + 8));
               let m = store32 m (hdr + 14) (ipv4_get_addr (if_proto_addr iface));
               mac \<leftarrow> eth_get_addr (if_hw_addr iface);
               let m = store_mac m (hdr + 8) mac;
               Some (Tx None hw_addr pk, put_nmem m st)
             }
             else Some (Return 0, st)
           }
           else if load16 m (hdr + 6) = 2
           then (case arp_cache_add (pk_iface pk) hw_addr proto_addr st of (ret, st) \<Rightarrow> Some (Return ret, st))
           else Some (Return 0, st)
         })"

definition icmp_handle_echo_request :: "net_address \<Rightarrow> net_address \<Rightarrow> net_packet \<Rightarrow> net \<Rightarrow> (net_action \<times> net) option" where
  "icmp_handle_echo_request src dest pk st = do {
     let r = pk_start pk;
     let m = nmem st;
     if m (r + 1) \<noteq> 0 then Some (Return 0, st)
     else do {
       let m = store16 m (r + 2) 0;
       let m = m(r := 0);
       ck \<leftarrow> net_cksum m r (pk_len pk);
       Some (Tx (Some dest) src pk, put_nmem (store16 m (r + 2) ck) st)
     }
   }"

definition icmp_rx :: "net_address \<Rightarrow> net_address \<Rightarrow> net_packet \<Rightarrow> net \<Rightarrow> (net_action \<times> net) option" where
  "icmp_rx src dest pk st = do {
     ck \<leftarrow> net_cksum (nmem st) (pk_start pk) (pk_len pk);
     if ck \<noteq> 0
     then Some (Return 0, net_interface_stats_inc_rx_dropped (pk_iface pk) (net_interface_stats_inc_cksum_err (pk_iface pk) st))
     else if nmem st (pk_start pk) = 8 then icmp_handle_echo_request src dest pk st
     else Some (Return 0, st)
   }"

definition tcp_rx :: "net_address \<Rightarrow> net_address \<Rightarrow> net_packet \<Rightarrow> net \<Rightarrow> (net_action \<times> net) option" where
  "tcp_rx src dest pk st = Some (Return 0, st)"

section \<open>dhcp.c and udp.c: received packets\<close>

partial_function (option) dhcp_options :: "mem \<Rightarrow> u32 \<Rightarrow> u32 \<Rightarrow> dhcp_line list \<Rightarrow> dhcp_line list option" where
  "dhcp_options m p pend log =
     (if p < pend
      then let oid = m p; len = m (p + 1); a = load32 m (p + 2);
          log = log @ (if oid = 0 \<or> oid = 53 then []
                       else if oid = 1 then [Subnet_mask a]
                       else if oid = 3 then [Router a]
                       else if oid = 6 then [Dns_resolver a]
                       else if oid = 28 then [Broadcast a]
                       else [Option_id oid len])
        in if oid = 255 then Some log
           else dhcp_options m ((if oid = 0 then p + 1 else p) + (2 + ucast len)) pend log
      else Some log)"

definition dhcp_rx :: "net_packet \<Rightarrow> net \<Rightarrow> (int \<times> net) option" where
  "dhcp_rx pk st =
     (let msg = pk_start pk; m = nmem st
      in if pk_len pk < 240 then Some (0, st)
         else if m msg = 2 \<and> load32 m (msg + 236) = 0x63825363
         then do {
           iface \<leftarrow> the_iface st (pk_iface pk);
           if m (msg + 1) = 1 \<and> m (msg + 2) = 6 \<and> na_type (if_hw_addr iface) = Na_ethernet \<and>
              mac_at m (msg + 28) = na_addr (if_hw_addr iface)
           then do {
             log \<leftarrow> dhcp_options m (pk_start pk + 240) (pk_start pk + pk_len pk) (dhcp_log st);
             Some (0, st\<lparr>dhcp_log := log @ [Bootp_reply (load32 m (msg + 12)) (load32 m (msg + 16)) (load32 m (msg + 20)) (load32 m (msg + 24))]\<rparr>)
           }
           else Some (0, st)
         }
         else Some (0, st))"

definition udp_rx :: "net_address \<Rightarrow> net_address \<Rightarrow> net_packet \<Rightarrow> net \<Rightarrow> (net_action \<times> net) option" where
  "udp_rx src dest pk st =
     (let hdr = pk_start pk; m = nmem st
      in case net_packet_consume pk 8 of (ret, pk) \<Rightarrow>
        if ret \<noteq> 0 then Some (Return ret, st)
        else let src = ipv4_addr_set_port src (load16 m hdr);
            dest = ipv4_addr_set_port dest (load16 m (hdr + 2))
          in if load16 m (hdr + 2) = 68 then map_option (\<lambda>(ret, st). (Return ret, st)) (dhcp_rx pk st)
             else Some (Return 0, st))"

section \<open>Transmission\<close>

definition packet_bytes :: "mem \<Rightarrow> u32 \<Rightarrow> u32 \<Rightarrow> u8 list" where
  "packet_bytes m p len = map (\<lambda>i. m (p + adr i)) [0..<unat len]"

text \<open>\<open>dw dev frame\<close> is the result of the device's \<^verbatim>\<open>write\<close>.\<close>

definition net_tx :: "(u32 \<Rightarrow> u8 list \<Rightarrow> int) \<Rightarrow> net_packet \<Rightarrow> net \<Rightarrow> (int \<times> net) option" where
  "net_tx dw pk st =
     (if pk_iface pk = 0 then Some (- 113, st)
      else do {
        iface \<leftarrow> the_iface st (pk_iface pk);
        if pk_proto pk \<noteq> if_proto iface then Some (- 93, st)
        else let dev = if_dev iface;
            st = net_interface_stats_inc_tx_packets (pk_iface pk) st;
            st = net_interface_stats_add_tx_bytes (pk_iface pk) (pk_len pk) st;
            frame = packet_bytes (nmem st) (pk_start pk) (pk_len pk)
          in Some (dw dev frame, st\<lparr>sent := sent st @ [(dev, frame)]\<rparr>)
      })"

definition eth_tx :: "(u32 \<Rightarrow> u8 list \<Rightarrow> int) \<Rightarrow> net_address option \<Rightarrow> net_address \<Rightarrow> net_packet \<Rightarrow> net \<Rightarrow> (net_action \<times> net) option" where
  "eth_tx dw src dest pk st =
     (if src = None \<and> pk_iface pk = 0 then Some (Return (- 113), st)
      else do {
        src \<leftarrow> (case src of None \<Rightarrow> map_option if_hw_addr (the_iface st (pk_iface pk)) | Some a \<Rightarrow> Some a);
        if na_type src \<noteq> Na_ethernet \<or> na_type dest \<noteq> Na_ethernet then Some (Return (- 97), st)
        else let proto = pk_proto pk
          in case net_packet_encapsulate pk Np_ethernet 14 of (ret, pk) \<Rightarrow>
            if ret \<noteq> 0 then Some (Return ret, st)
            else let hdr = pk_start pk;
                m = store16 (nmem st) (hdr + 12) (eth_ethertype_from_proto proto)
              in if load16 m (hdr + 12) = 0 then Some (Return (- 93), put_nmem m st)
                 else let m = store_mac m (hdr + 6) (na_addr src);
                     m = store_mac m hdr (na_addr dest)
                   in map_option (\<lambda>(ret, st). (Return ret, st)) (net_tx dw pk (put_nmem m st))
      })"

text \<open>
  The IPv4 header: version and length at 0, services at 1, total length at 2, identification at
  4, flags at 6, time to live at 8, protocol at 9, checksum at 10, source at 12, destination at 16.
\<close>

definition write_ipv4_hdr :: "mem \<Rightarrow> u32 \<Rightarrow> u16 \<Rightarrow> u16 \<Rightarrow> u8 \<Rightarrow> u32 \<Rightarrow> u32 \<Rightarrow> mem" where
  "write_ipv4_hdr m hdr total_len ident proto src dest =
     (let m = m(hdr := 0x45);
          m = m(hdr + 1 := 0);
          m = store16 m (hdr + 2) total_len;
          m = store16 m (hdr + 4) ident;
          m = store16 m (hdr + 6) 0x4000;
          m = m(hdr + 8 := 64);
          m = m(hdr + 9 := proto);
          m = store32 m (hdr + 12) src;
          m = store32 m (hdr + 16) dest
      in store16 m (hdr + 10) 0)"

definition ipv4_tx :: "net_address option \<Rightarrow> net_address \<Rightarrow> net_packet \<Rightarrow> net \<Rightarrow> (net_action \<times> net) option" where
  "ipv4_tx src dest pk st = do {
     iface \<leftarrow> (if pk_iface pk = 0 then ipv4_route_get_iface dest st else Some (Inr (pk_iface pk)));
     case iface of
       Inl ret \<Rightarrow> Some (Return ret, st)
     | Inr iface \<Rightarrow>
         (case net_packet_insert pk 20 of (ret, pk) \<Rightarrow>
            if ret \<noteq> 0 then Some (Return ret, st)
            else do {
              src \<leftarrow> src;
              let hdr = pk_start pk;
              let (ident, g) = rand (rand_state st);
              let m = write_ipv4_hdr (nmem st) hdr (ucast (pk_len pk)) (word_of_int ident) (ipv4_get_ipproto (pk_proto pk))
                (ipv4_get_addr src) (ipv4_get_addr dest);
              ck \<leftarrow> net_cksum m hdr 20;
              let m = store16 m (hdr + 10) ck;
              let st = put_nmem m (st\<lparr>rand_state := g\<rparr>);
              let pk = pk\<lparr>pk_proto := Np_ipv4, pk_iface := iface\<rparr>;
              i \<leftarrow> the_iface st iface;
              case ipv4_route_get_hw_addr iface dest st of
                Inl ret \<Rightarrow> Some (Return ret, st)
              | Inr routed_dest \<Rightarrow> Some (Tx (Some (if_hw_addr i)) routed_dest pk, st)
            })
   }"

definition udp_tx :: "net_address option \<Rightarrow> net_address \<Rightarrow> net_packet \<Rightarrow> net \<Rightarrow> (net_action \<times> net) option" where
  "udp_tx src dest pk st = do {
     src \<leftarrow> src;
     if na_type src \<noteq> Na_ipv4 \<or> na_type dest \<noteq> Na_ipv4 then Some (Return (- 97), st)
     else case net_packet_insert pk 8 of (ret, pk) \<Rightarrow>
       if ret \<noteq> 0 then Some (Return ret, st)
       else let hdr = pk_start pk;
           m = store16 (nmem st) hdr (ipv4_get_port src);
           m = store16 m (hdr + 2) (ipv4_get_port dest);
           m = store16 m (hdr + 4) (ucast (pk_len pk));
           m = store16 m (hdr + 6) 0
         in Some (Tx (Some src) dest pk, put_nmem m st)
   }"

section \<open>The dispatcher\<close>

definition net_protocol_rx :: "net_address \<Rightarrow> net_address \<Rightarrow> net_packet \<Rightarrow> net \<Rightarrow> (net_action \<times> net) option" where
  "net_protocol_rx src dest pk st =
     (case net_protocol_get_driver (pk_proto pk) st of
        None \<Rightarrow> Some (Return (- 93), st)
      | Some drv \<Rightarrow> (case fn_rx drv of
            Net_rx_unimplemented \<Rightarrow> Some (Return (- 38), st)
          | Eth_rx \<Rightarrow> eth_rx src dest pk st
          | Ipv4_rx \<Rightarrow> ipv4_rx src dest pk st
          | Arp_rx \<Rightarrow> arp_rx src dest pk st
          | Icmp_rx \<Rightarrow> icmp_rx src dest pk st
          | Udp_rx \<Rightarrow> udp_rx src dest pk st
          | Tcp_rx \<Rightarrow> tcp_rx src dest pk st))"

definition net_protocol_tx :: "(u32 \<Rightarrow> u8 list \<Rightarrow> int) \<Rightarrow> net_address option \<Rightarrow> net_address \<Rightarrow> net_packet \<Rightarrow> net \<Rightarrow> (net_action \<times> net) option" where
  "net_protocol_tx dw src dest pk st =
     (case net_protocol_get_driver (net_address_get_proto dest) st of
        None \<Rightarrow> Some (Return (- 93), st)
      | Some drv \<Rightarrow> (case fn_tx drv of
            Net_tx_unimplemented \<Rightarrow> Some (Return (- 38), st)
          | Eth_tx \<Rightarrow> eth_tx dw src dest pk st
          | Ipv4_tx \<Rightarrow> ipv4_tx src dest pk st
          | Udp_tx \<Rightarrow> udp_tx src dest pk st))"

partial_function (option) net_run :: "(u32 \<Rightarrow> u8 list \<Rightarrow> int) \<Rightarrow> net_action \<Rightarrow> net \<Rightarrow> (int \<times> net) option" where
  "net_run dw a st = (case a of
       Return ret \<Rightarrow> Some (ret, st)
     | Rx src dest pk \<Rightarrow> (case net_protocol_rx src dest pk st of None \<Rightarrow> None | Some (a, st) \<Rightarrow> net_run dw a st)
     | Tx src dest pk \<Rightarrow> (case net_protocol_tx dw src dest pk st of None \<Rightarrow> None | Some (a, st) \<Rightarrow> net_run dw a st))"

text \<open>
  \<open>dr\<close> is what the device's \<^verbatim>\<open>read\<close> returns for the length of the buffer: an error or a frame;
  \<open>src\<close> and \<open>dest\<close> are the contents of the local variables before they are set.
\<close>

definition net_interface_rx :: "(u32 \<Rightarrow> u8 list \<Rightarrow> int) \<Rightarrow> (u32 \<Rightarrow> u32 \<Rightarrow> int + u8 list) \<Rightarrow> net_address \<Rightarrow> net_address \<Rightarrow>
    u32 \<Rightarrow> net_packet \<Rightarrow> net \<Rightarrow> (int \<times> net) option" where
  "net_interface_rx dw dr src dest iface pk st = do {
     i \<leftarrow> the_iface st iface;
     let pk = net_packet_reset pk;
     case dr (if_dev i) (buf_len (pk_raw pk)) of
       Inl ret \<Rightarrow> Some (ret, st)
     | Inr frame \<Rightarrow> do {
         let st = put_nmem (write_bytes frame (pk_start pk) (nmem st)) st;
         let pk = pk\<lparr>pk_iface := iface, pk_proto := if_proto i\<rparr>;
         let pk = snd (net_packet_set_len pk (word_of_nat (length frame)));
         let st = net_interface_stats_add_rx_bytes iface (word_of_nat (length frame)) st;
         let src = snd (net_address_set_type Na_unknown src);
         let dest = snd (net_address_set_type Na_unknown dest);
         (ret, st) \<leftarrow> net_run dw (Rx src dest pk) st;
         if ret = 0 then Some (ret, net_interface_stats_inc_rx_packets iface st)
         else let st = (if ret = - 504 then net_interface_stats_inc_cksum_err iface st else st)
           in Some (ret, net_interface_stats_inc_rx_dropped iface st)
       }
   }"

end
