(* ===== verification/Net_Route.thy ===== *)
theory Net_Route
  imports Net
begin

text \<open>
  The routing table of \<^verbatim>\<open>ipv4.c\<close>: masks and prefix lengths, the route that is chosen for an
  address, insertion and deletion.
\<close>

section \<open>Masks\<close>

lemma and_Suc_0: "n AND Suc n = 0 \<Longrightarrow> \<exists>j. n = 2 ^ j - (1 :: nat)"
proof (induction n rule: less_induct)
  case (less n)
  show ?case
  proof (cases "even n")
    case True
    then obtain q where "n = 2 * q"
      by (auto elim: evenE)
    then have "n AND Suc n = n"
      using and_rec [of n "Suc n"] by simp
    then show ?thesis
      using less.prems by (intro exI [of _ 0]) simp
  next
    case False
    then obtain q where q: "n = Suc (2 * q)"
      by (auto elim: oddE)
    then have "2 * (q AND Suc q) = n AND Suc n"
      using and_rec [of n "Suc n"] by simp
    then obtain j where "q = 2 ^ j - 1"
      using less.IH [of q] less.prems q by auto
    moreover have "(1 :: nat) \<le> 2 ^ j"
      by simp
    ultimately have "n = 2 ^ Suc j - 1"
      using q unfolding power_Suc by linarith
    then show ?thesis ..
  qed
qed

lemma low_mask_iff: "x AND (x + 1) = 0 \<longleftrightarrow> (\<exists>j \<le> 32. x = mask j)" for x :: u32
proof
  assume a: "x AND (x + 1) = 0"
  show "\<exists>j \<le> 32. x = mask j"
  proof (cases "x + 1 = 0")
    case True
    then have "x = - 1"
      by (metis add.inverse_inverse add_eq_0_iff)
    then show ?thesis
      by (intro exI [of _ 32]) (simp add: mask_eq_exp_minus_1)
  next
    case False
    then have "unat (x + 1) = Suc (unat x)"
      using unatSuc [of x] by (simp add: add.commute)
    then have "unat x AND Suc (unat x) = 0"
      using arg_cong [OF a, of unat] by (simp add: unsigned_and_eq)
    then obtain j where j: "unat x = 2 ^ j - 1"
      using and_Suc_0 by blast
    have "j \<le> 32"
    proof (rule ccontr)
      assume "\<not> j \<le> 32"
      then have "(2 :: nat) ^ 33 \<le> 2 ^ j"
        by (intro power_increasing) simp_all
      then show False
        using j unat_bound [of x] by simp
    qed
    moreover have "x = mask j"
      using j by (metis mask_eq_exp_minus_1 of_nat_mask_eq of_nat_unat ucast_id)
    ultimately show ?thesis
      by blast
  qed
next
  assume "\<exists>j \<le> 32. x = mask j"
  then obtain j where j: "x = mask j" "j \<le> 32"
    by blast
  then have "x + 1 = push_bit j 1"
    by (simp add: mask_eq_exp_minus_1 push_bit_eq_mult)
  then show "x AND (x + 1) = 0"
    unfolding j(1) by (intro bit_word_eqI) (auto simp: bit_simps)
qed

lemma prefix_loop_mask: "j \<le> 32 \<Longrightarrow> prefix_loop (mask j) c = c - word_of_nat j"
proof (induction j arbitrary: c)
  case 0
  then show ?case
    by (simp add: prefix_loop.simps [of 0])
next
  case (Suc j)
  have "drop_bit 1 (mask (Suc j) :: u32) = mask j"
    using Suc.prems by (intro bit_word_eqI) (auto simp: bit_simps)
  moreover have "(mask (Suc j) :: u32) \<noteq> 0"
  proof
    assume z: "(mask (Suc j) :: u32) = 0"
    have "bit (mask (Suc j) :: u32) 0"
      by (simp add: bit_mask_iff)
    then show False
      unfolding z by simp
  qed
  ultimately have "prefix_loop (mask (Suc j)) c = prefix_loop (mask j) (c - 1)"
    by (subst prefix_loop.simps) simp
  then show ?case
    using Suc by (simp add: of_nat_Suc)
qed

text \<open>The mask with \<open>k\<close> leading ones.\<close>

definition netmask :: "nat \<Rightarrow> u32" where
  "netmask k = NOT (mask (32 - k))"

text \<open>
  \<^verbatim>\<open>ipv4_mask_valid\<close> accepts exactly the masks that consist of \<open>k\<close> leading ones, and
  \<^verbatim>\<open>ipv4_mask_to_prefix_len\<close> returns this \<open>k\<close>; a destination and an address agree under the
  mask if and only if their first \<open>k\<close> bits are equal.
\<close>

lemma ipv4_mask_correct:
  "(ipv4_mask_valid msk \<longleftrightarrow> (\<exists>k \<le> 32. msk = netmask k)) \<and>
   (k \<le> 32 \<longrightarrow> unat (ipv4_mask_to_prefix_len (netmask k)) = k \<and>
     (dest AND netmask k = a AND netmask k \<longleftrightarrow> drop_bit (32 - k) dest = drop_bit (32 - k) a))"
proof (intro conjI impI)
  have "ipv4_mask_valid msk \<longleftrightarrow> NOT msk AND (NOT msk + 1) = 0"
    by (auto simp: ipv4_mask_valid_def)
  also have "\<dots> \<longleftrightarrow> (\<exists>j \<le> 32. NOT msk = mask j)"
    by (rule low_mask_iff)
  also have "\<dots> \<longleftrightarrow> (\<exists>k \<le> 32. msk = netmask k)"
  proof
    assume "\<exists>j \<le> 32. NOT msk = mask j"
    then obtain j where j: "j \<le> 32" "NOT msk = mask j"
      by blast
    then show "\<exists>k \<le> 32. msk = netmask k"
      by (intro exI [of _ "32 - j"]) (simp add: netmask_def flip: j(2))
  next
    assume "\<exists>k \<le> 32. msk = netmask k"
    then show "\<exists>j \<le> 32. NOT msk = mask j"
      by (auto simp: netmask_def intro: exI [of _ "32 - _"])
  qed
  finally show "ipv4_mask_valid msk \<longleftrightarrow> (\<exists>k \<le> 32. msk = netmask k)" .
  assume k: "k \<le> 32"
  have "ipv4_mask_to_prefix_len (netmask k) = 32 - word_of_nat (32 - k)"
    by (simp add: ipv4_mask_to_prefix_len_def netmask_def prefix_loop_mask)
  also have "(32 :: u8) = word_of_nat 32"
    by simp
  also have "word_of_nat 32 - word_of_nat (32 - k) = (word_of_nat k :: u8)"
    using k by (simp only: of_nat_diff) simp
  finally show "unat (ipv4_mask_to_prefix_len (netmask k)) = k"
    using k by (simp add: unsigned_of_nat take_bit_nat_eq_self)
  show "dest AND netmask k = a AND netmask k \<longleftrightarrow> drop_bit (32 - k) dest = drop_bit (32 - k) a"
  proof
    assume h: "dest AND netmask k = a AND netmask k"
    show "drop_bit (32 - k) dest = drop_bit (32 - k) a"
    proof (rule bit_word_eqI)
      fix i assume "i < LENGTH(32)"
      show "bit (drop_bit (32 - k) dest) i = bit (drop_bit (32 - k) a) i"
        using arg_cong [OF h, of "\<lambda>w. bit w (32 - k + i)"]
        by (auto simp: netmask_def bit_simps dest: bit_imp_le_length)
    qed
  next
    assume h: "drop_bit (32 - k) dest = drop_bit (32 - k) a"
    show "dest AND netmask k = a AND netmask k"
    proof (rule bit_word_eqI)
      fix i assume i: "i < LENGTH(32)"
      show "bit (dest AND netmask k) i = bit (a AND netmask k) i"
        using arg_cong [OF h, of "\<lambda>w. bit w (i - (32 - k))"] i
        by (auto simp: netmask_def bit_simps)
    qed
  qed
qed

section \<open>The choice of a route\<close>

definition covers :: "ipv4_route \<Rightarrow> u32 \<Rightarrow> bool" where
  "covers r a \<longleftrightarrow> rt_dest r AND rt_mask r = a AND rt_mask r \<and> rt_flags r AND IPV4_ROUTE_UP \<noteq> 0"

definition beats :: "ipv4_route \<Rightarrow> u16 \<Rightarrow> u16 \<Rightarrow> bool" where
  "beats r prefix_len metric \<longleftrightarrow> prefix_len <s rt_prefix_len r \<and> metric <s rt_metric r"

lemma best_loop_Cons:
  "best_loop ((p, r) # rts) a bp bm b =
     (if covers r a \<and> beats r bp bm then best_loop rts a (rt_prefix_len r) (rt_metric r) p else best_loop rts a bp bm b)"
  by (simp add: covers_def beats_def)

lemma best_loop_cases:
  "(best_loop rts a bp bm b = b \<and> (\<forall>(p, r) \<in> set rts. covers r a \<longrightarrow> \<not> beats r bp bm)) \<or>
   (\<exists>(p, r) \<in> set rts. best_loop rts a bp bm b = p \<and> covers r a \<and> beats r bp bm \<and>
      (\<forall>(q, r') \<in> set rts. covers r' a \<longrightarrow> \<not> beats r' (rt_prefix_len r) (rt_metric r)))"
proof (induction rts arbitrary: bp bm b)
  case (Cons x rts)
  obtain p r where x: "x = (p, r)"
    by (cases x)
  have tr: "beats r' u v" if "beats r' (rt_prefix_len s) (rt_metric s)" "beats s u v" for r' s u v
    using that by (auto simp: beats_def word_sless_alt)
  have irr: "\<not> beats s (rt_prefix_len s) (rt_metric s)" for s
    by (simp add: beats_def word_sless_alt)
  show ?case
  proof (cases "covers r a \<and> beats r bp bm")
    case True
    from Cons.IH [of "rt_prefix_len r" "rt_metric r" p] show ?thesis
    proof
      assume "best_loop rts a (rt_prefix_len r) (rt_metric r) p = p \<and>
        (\<forall>(p', r') \<in> set rts. covers r' a \<longrightarrow> \<not> beats r' (rt_prefix_len r) (rt_metric r))"
      then show ?thesis
        using True irr [of r] unfolding x best_loop_Cons by auto
    next
      assume "\<exists>(p', s) \<in> set rts. best_loop rts a (rt_prefix_len r) (rt_metric r) p = p' \<and> covers s a \<and>
        beats s (rt_prefix_len r) (rt_metric r) \<and> (\<forall>(q, r') \<in> set rts. covers r' a \<longrightarrow> \<not> beats r' (rt_prefix_len s) (rt_metric s))"
      then obtain p' s where s: "(p', s) \<in> set rts" "best_loop rts a (rt_prefix_len r) (rt_metric r) p = p'" "covers s a"
        "beats s (rt_prefix_len r) (rt_metric r)" "\<forall>(q, r') \<in> set rts. covers r' a \<longrightarrow> \<not> beats r' (rt_prefix_len s) (rt_metric s)"
        by auto
      have "\<not> beats r (rt_prefix_len s) (rt_metric s)" "beats s bp bm"
        using tr [OF _ s(4)] irr [of s] tr [of s r] True s(4) tr irr by blast+
      then show ?thesis
        using s True unfolding x best_loop_Cons by (intro disjI2 bexI [of _ "(p', s)"]) auto
    qed
  next
    case False
    have old: "\<not> beats r (rt_prefix_len s) (rt_metric s)" if "covers r a" "beats s bp bm" for s
      using that False tr by blast
    show ?thesis
      using Cons.IH [of bp bm b] False old unfolding x best_loop_Cons by (simp only: if_False) auto
  qed
qed simp

text \<open>Tables that \<^verbatim>\<open>ipv4_route_add\<close> makes.\<close>

definition route_ok :: "ipv4_route \<Rightarrow> bool" where
  "route_ok r \<longleftrightarrow> ipv4_mask_valid (rt_mask r) \<and> 0 \<le>s rt_metric r \<and> rt_prefix_len r = ucast (ipv4_mask_to_prefix_len (rt_mask r))"

definition routes_ok :: "net \<Rightarrow> bool" where
  "routes_ok st \<longleftrightarrow> (\<forall>(p, r) \<in> set (routes st). route_ok r \<and> p \<noteq> 0) \<and> distinct (map fst (routes st)) \<and>
     (\<forall>i < length (routes st). \<forall>j < i. \<not> duplicate_route (snd (routes st ! j)) (snd (routes st ! i)))"

lemma route_ok_beats: "route_ok r \<Longrightarrow> beats r (- 1) (- 1)"
proof -
  assume ok: "route_ok r"
  then obtain k where k: "k \<le> 32" "rt_mask r = netmask k"
    using ipv4_mask_correct [of "rt_mask r" 0 0 0] by (auto simp: route_ok_def)
  have "unat (ipv4_mask_to_prefix_len (netmask k)) = k"
    using ipv4_mask_correct [of 0 k 0 0] k(1) by simp
  then have "uint (ipv4_mask_to_prefix_len (rt_mask r)) \<le> 32"
    using k by (metis int_ops(3) of_nat_le_iff of_nat_numeral uint_nat)
  moreover have "uint (rt_prefix_len r) = uint (ipv4_mask_to_prefix_len (rt_mask r))"
    using ok uint_lt2p [of "ipv4_mask_to_prefix_len (rt_mask r)"]
    by (simp add: route_ok_def unsigned_ucast_eq take_bit_int_eq_self_iff)
  ultimately have "uint (rt_prefix_len r) div 2 ^ 15 = 0"
    by (simp add: div_pos_pos_trivial)
  then have "\<not> bit (uint (rt_prefix_len r)) 15"
    unfolding bit_iff_odd by simp
  then have "0 \<le> sint (rt_prefix_len r)"
    unfolding sint_uint by simp
  moreover have "0 \<le> sint (rt_metric r)"
    using ok by (simp add: route_ok_def word_sle_eq)
  ultimately show ?thesis
    by (simp add: beats_def word_sless_alt)
qed

text \<open>
  C19: For an IPv4 address \<^verbatim>\<open>ipv4_route_get\<close> returns a route of the table that is up and covers
  the address, such that no other such route has both a longer prefix and a larger metric; if
  no route of the table covers the address it returns the default route.
\<close>

theorem ipv4_route_get_correct:
  assumes "routes_ok st" "na_type addr = Na_ipv4"
  shows "(\<exists>(p, r) \<in> set (routes st). ipv4_route_get addr st = p \<and> covers r (ipv4_get_addr addr) \<and>
      (\<forall>(q, r') \<in> set (routes st). covers r' (ipv4_get_addr addr) \<longrightarrow>
         \<not> (rt_prefix_len r <s rt_prefix_len r' \<and> rt_metric r <s rt_metric r'))) \<or>
    (\<forall>(p, r) \<in> set (routes st). \<not> covers r (ipv4_get_addr addr)) \<and> ipv4_route_get addr st = default_route st"
proof -
  have b: "beats r (- 1) (- 1)" if "(p, r) \<in> set (routes st)" for p r
    using assms(1) that route_ok_beats by (auto simp: routes_ok_def)
  from best_loop_cases [of "routes st" "ipv4_get_addr addr" "- 1" "- 1" "default_route st"] b show ?thesis
    unfolding ipv4_route_get_def using assms(2) by (auto simp: beats_def)
qed

text \<open>
  When all routes have the same metric the route returned is the first one in the table
  that covers the address, not the one with the longest prefix: a later route must have a
  strictly larger metric as well.
\<close>

theorem ipv4_route_get_first_match:
  assumes "routes_ok st" "na_type addr = Na_ipv4" "\<forall>(p, r) \<in> set (routes st). rt_metric r = w"
    "routes st = ys @ (p, r) # zs" "\<forall>(q, r') \<in> set ys. \<not> covers r' (ipv4_get_addr addr)" "covers r (ipv4_get_addr addr)"
  shows "ipv4_route_get addr st = p"
proof -
  let ?a = "ipv4_get_addr addr"
  have skip: "best_loop (ys @ rts) ?a bp bm b = best_loop rts ?a bp bm b" if "\<forall>(q, r') \<in> set ys. \<not> covers r' ?a" for ys rts bp bm b
    using that by (induction ys) (auto simp: best_loop_Cons simp del: best_loop.simps(2))
  have stay: "best_loop zs ?a bp w b = b" if "\<forall>(q, r') \<in> set zs. rt_metric r' = w" for zs bp b
    using that by (induction zs) (auto simp: best_loop_Cons beats_def word_sless_alt simp del: best_loop.simps(2))
  have "beats r (- 1) (- 1)" "rt_metric r = w" "\<forall>(q, r') \<in> set zs. rt_metric r' = w"
    using assms(1,3,4) route_ok_beats by (auto simp: routes_ok_def)
  then show ?thesis
    unfolding ipv4_route_get_def assms(4) using assms(2,6) skip [OF assms(5)] stay
    by (simp add: best_loop_Cons del: best_loop.simps(2))
qed

section \<open>Insertion and deletion\<close>

text \<open>The items of the table are objects of the slab allocator that are in use.\<close>

definition routes_live :: "net \<Rightarrow> (nat \<Rightarrow> nat option) \<Rightarrow> bool" where
  "routes_live st L \<longleftrightarrow> slab_rep (net_slab st, net_mach st) L \<and> routes_ok st \<and> (\<forall>(p, r) \<in> set (routes st). L (unat p) \<noteq> None)"

lemma routes_ok_append:
  assumes "routes_ok st" "ipv4_mask_valid (rt_mask r)" "0 \<le>s rt_metric r"
    "\<not> list_ex (\<lambda>(p, rt). duplicate_route rt r) (routes st)" "p \<noteq> 0" "p \<notin> fst ` set (routes st)"
    "routes st' = routes st @ [(p, r\<lparr>rt_prefix_len := ucast (ipv4_mask_to_prefix_len (rt_mask r))\<rparr>)]"
  shows "routes_ok st'"
proof -
  have "\<not> duplicate_route (snd (routes st ! j)) r" if "j < length (routes st)" for j
    using assms(4) that by (auto simp: list_ex_iff case_prod_unfold)
  then show ?thesis
    using assms(1-3,5,6) unfolding routes_ok_def assms(7)
    by (auto simp: nth_append route_ok_def duplicate_route_def less_Suc_eq)
qed

lemma prefix_len_netmask:
  assumes "k \<le> 32"
  shows "ucast (ipv4_mask_to_prefix_len (netmask k)) = (word_of_nat k :: u16)"
proof -
  have "unat (ipv4_mask_to_prefix_len (netmask k)) = k" using ipv4_mask_correct [of 0 k 0 0] assms by blast
  then show ?thesis by (metis of_nat_unat)
qed


text \<open>
  C20: \<^verbatim>\<open>ipv4_route_delete\<close> never unlinks an item.  To delete the first route writes through a
  null pointer; to delete another one reports success and gives its memory back, but leaves the
  item in the table.
\<close>

theorem ipv4_route_delete_dangles:
  assumes "slab_rep (net_slab st, net_mach st) L" "L (unat p) \<noteq> None"
    "routes st = ys @ (p, rt) # zs" "same_route rt r" "\<forall>(q, r') \<in> set ys. \<not> same_route r' r"
  shows "if ys = [] then ipv4_route_delete r st = None
    else \<exists>st' L'. ipv4_route_delete r st = Some (0, st') \<and> routes st' = routes st \<and>
      slab_rep (net_slab st', net_mach st') L' \<and> L' (unat p) = None"
proof -
  have skip: "delete_loop f (ys @ rts) r st = delete_loop (f \<and> ys = []) rts r st" if "\<forall>(q, r') \<in> set ys. \<not> same_route r' r" for f ys rts
    using that by (induction ys arbitrary: f) auto
  show ?thesis
  proof (cases "ys = []")
    case True
    then show ?thesis
      using assms(3,4) by (simp add: ipv4_route_delete_def)
  next
    case False
    obtain k where "id L (unat p) = Some k"
      using assms(2) by auto
    from slab.free_live [OF assms(1) this] obtain cs L' where cs: "slab_free p (net_slab st, net_mach st) = Some cs" "slab_rep cs L'"
      "id L' = (id L)(unat p := None)"
      by blast
    then show ?thesis
      using False assms(3-5) skip [OF assms(5)]
      by (cases cs) (auto simp: ipv4_route_delete_def intro: exI [of _ L'])
  qed
qed

section \<open>Examples\<close>

text \<open>A network stack without interfaces, and two routes: to the network 192.168.1.0, and to any other address.\<close>

definition net_sample :: net where
  "net_sample = \<lparr>net_mach = snd slab_sample, net_slab = fst slab_sample, net_heap = big_ctxs, g_ifaces = [], drivers = [],
     g_arp_cache = None, routes = [], default_route = 0, g_current_timestamp = 0, rand_state = 1, sent = [], dhcp_log = []\<rparr>"

definition route_lan :: ipv4_route where
  "route_lan = \<lparr>rt_iface = 64, rt_dest = 0xc0a80100, rt_mask = 0xffffff00, rt_gateway = 0, rt_metric = 1, rt_flags = 1, rt_prefix_len = 24\<rparr>"

definition route_any :: ipv4_route where
  "route_any = \<lparr>rt_iface = 64, rt_dest = 0, rt_mask = 0, rt_gateway = 0xc0a80101, rt_metric = 1, rt_flags = 1, rt_prefix_len = 0\<rparr>"

definition routes_sample :: net where
  "routes_sample = net_sample\<lparr>routes := [(2, route_any), (4, route_lan)]\<rparr>"

lemma sample_masks: "(0xffffff00 :: u32) = netmask 24" "(0 :: u32) = netmask 0"
  by (simp_all add: netmask_def mask_eq_exp_minus_1)

lemma sample_prefix_len: "ipv4_mask_to_prefix_len 0xffffff00 = 24" "ipv4_mask_to_prefix_len 0 = 0"
  using ipv4_mask_correct [of 0 24 0 0] ipv4_mask_correct [of 0 0 0 0]
  by (simp_all add: word_unat_eq_iff flip: sample_masks)

lemma routes_sample_ok: "routes_ok routes_sample"
  by (auto simp: routes_ok_def routes_sample_def route_ok_def route_lan_def route_any_def ipv4_mask_valid_def
      sample_prefix_len duplicate_route_def word_sle_eq less_Suc_eq)

lemma net_sample_rep: "slab_rep (net_slab net_sample, net_mach net_sample) (slab_live (ram (snd slab_sample)) Map.empty)"
  unfolding slab_rep_def net_sample_def
  using slab_sample_wf by (intro exI [of _ Map.empty] exI [of _ "\<lambda>_. []"]) simp

theorem ipv4_route_get_correct_witness:
  "ipv4_route_get (ipv4_make_addr 0xc0a80105 0) routes_sample \<in> {2, 4}"
proof -
  have a: "na_type (ipv4_make_addr 0xc0a80105 0) = Na_ipv4" "ipv4_get_addr (ipv4_make_addr 0xc0a80105 0) = 0xc0a80105"
    by (simp_all add: ipv4_make_addr_def ipv4_get_addr_def)
  from ipv4_route_get_correct [OF routes_sample_ok a(1)] show ?thesis
    unfolding a(2) by (auto simp: routes_sample_def covers_def route_any_def route_lan_def IPV4_ROUTE_UP_def)
qed

theorem ipv4_route_get_first_match_witness:
  "ipv4_route_get (ipv4_make_addr 0xc0a80105 0) routes_sample = 2"
proof -
  have a: "na_type (ipv4_make_addr 0xc0a80105 0) = Na_ipv4" "ipv4_get_addr (ipv4_make_addr 0xc0a80105 0) = 0xc0a80105"
    by (simp_all add: ipv4_make_addr_def ipv4_get_addr_def)
  have "\<forall>(p, r) \<in> set (routes routes_sample). rt_metric r = 1" "routes routes_sample = [] @ (2, route_any) # [(4, route_lan)]"
    by (simp_all add: routes_sample_def route_any_def route_lan_def)
  from ipv4_route_get_first_match [OF routes_sample_ok a(1) this] show ?thesis
    unfolding a(2) by (simp add: covers_def route_any_def IPV4_ROUTE_UP_def)
qed


theorem ipv4_route_delete_dangles_witness:
  "\<exists>c s p st'. ipv4_route_delete route_lan (net_sample\<lparr>net_slab := c, net_mach := s, routes := [(2, route_any), (p, route_lan)]\<rparr>) = Some (0, st') \<and>
     routes st' = [(2, route_any), (p, route_lan)]"
proof -
  obtain p :: u32 and c m R S where a: "slab_wf c m R S" "slab_live m R (unat p) = Some (2 ^ slab_radix 5)"
    using slab_sample_alloc by blast
  let ?st = "net_sample\<lparr>net_slab := c, net_mach := section_exit (snd slab_sample) m, routes := [(2, route_any), (p, route_lan)]\<rparr>"
  have "slab_rep (net_slab ?st, net_mach ?st) (slab_live m R)"
    unfolding slab_rep_def using a(1) by (intro exI [of _ R] exI [of _ S]) simp
  moreover have "routes ?st = [(2, route_any)] @ (p, route_lan) # []" "same_route route_lan route_lan"
    by (simp_all add: same_route_def)
  ultimately show ?thesis
    using ipv4_route_delete_dangles [of ?st _ p "[(2, route_any)]" route_lan "[]" route_lan] a(2)
    by (fastforce simp: same_route_def route_any_def route_lan_def)
qed

end
