(* ===== verification/Net_Arp.thy ===== *)
theory Net_Arp
  imports Net
begin

text \<open>
  The ARP cache as a table: which hardware address belongs to an interface and an IPv4 address.
\<close>

section \<open>Lookup\<close>

lemma find_index_cases:
  "(find_index P xs = None \<and> (\<forall>x \<in> set xs. \<not> P x)) \<or> (\<exists>i < length xs. find_index P xs = Some i \<and> P (xs ! i))"
proof (induction xs)
  case (Cons x xs)
  then show ?case
  proof (cases "P x")
    case False
    with Cons show ?thesis
      by (elim disjE exE) auto
  qed auto
qed simp

text \<open>The driver of IPv4 is registered with its comparison of addresses.\<close>

definition ipv4_compares :: "net \<Rightarrow> bool" where
  "ipv4_compares st \<longleftrightarrow> (\<exists>d. net_protocol_get_driver Np_ipv4 st = Some d \<and> fn_addr_compare d = Ipv4_addr_compare)"

lemma ipv4_addr_compare_zero:
  "na_type a = Na_ipv4 \<Longrightarrow> na_type b = Na_ipv4 \<Longrightarrow> ipv4_addr_compare a b = 0 \<longleftrightarrow> ipv4_get_addr a = ipv4_get_addr b"
  by (simp add: ipv4_addr_compare_def ipv4_get_addr_def)

lemma net_address_compare_ipv4:
  assumes "ipv4_compares st" "na_type a = Na_ipv4"
  shows "net_address_compare a b st = 0 \<longleftrightarrow> na_type b = Na_ipv4 \<and> ipv4_get_addr a = ipv4_get_addr b"
  using assms ipv4_addr_compare_zero [of a b]
  by (auto simp: net_address_compare_def net_protocol_from_address_def net_protocol_addr_compare_def ipv4_compares_def)

text \<open>The entry of an interface and an IPv4 address that has not expired.\<close>

definition arp_entry :: "u32 \<Rightarrow> u32 \<Rightarrow> u32 \<Rightarrow> arp_cache_item \<Rightarrow> bool" where
  "arp_entry now iface ip p \<longleftrightarrow> ai_iface p = iface \<and> na_type (ai_proto_addr p) = Na_ipv4 \<and>
     ipv4_get_addr (ai_proto_addr p) = ip \<and> now <s ai_etime p"

lemma arp_hit_entry:
  "ipv4_compares st \<Longrightarrow> na_type a = Na_ipv4 \<Longrightarrow>
    arp_hit st iface a p \<longleftrightarrow> arp_entry (g_current_timestamp st) iface (ipv4_get_addr a) p"
  by (auto simp: arp_hit_def arp_entry_def net_address_compare_ipv4)

text \<open>
  The cache is disabled or has 16 entries; no two of them are for the same address, none expires
  later than 1200 seconds from now, and those in use have the right types of addresses.
\<close>

definition arp_typed :: "arp_cache_item \<Rightarrow> bool" where
  "arp_typed p \<longleftrightarrow> (ai_iface p \<noteq> 0 \<longrightarrow> na_type (ai_hw_addr p) = Na_ethernet \<and> na_type (ai_proto_addr p) = Na_ipv4)"

definition arp_ok :: "net \<Rightarrow> bool" where
  "arp_ok st \<longleftrightarrow> (case g_arp_cache st of
       None \<Rightarrow> True
     | Some c \<Rightarrow> length c = ARP_CACHE_SIZE \<and> (\<forall>p \<in> set c. arp_typed p \<and> sint (ai_etime p) \<le> sint (g_current_timestamp st) + 1200) \<and>
         (\<forall>i < length c. \<forall>j < length c. \<forall>iface ip. arp_entry (g_current_timestamp st) iface ip (c ! i) \<and>
            arp_entry (g_current_timestamp st) iface ip (c ! j) \<longrightarrow> i = j))"

definition arp_table :: "net \<Rightarrow> u32 \<times> u32 \<Rightarrow> net_address option" where
  "arp_table st k = map_option (\<lambda>i. ai_hw_addr (the (g_arp_cache st) ! i)) (arp_cache_lookup (fst k) (ipv4_make_addr (snd k) 0) st)"

lemma ipv4_make_addr_sel [simp]:
  "na_type (ipv4_make_addr ip port) = Na_ipv4" "ipv4_get_addr (ipv4_make_addr ip port) = ip"
proof -
  show "na_type (ipv4_make_addr ip port) = Na_ipv4"
    by (simp add: ipv4_make_addr_def)
  show "ipv4_get_addr (ipv4_make_addr ip port) = ip"
    unfolding ipv4_make_addr_def ipv4_get_addr_def by simp (rule bit_word_eqI, auto simp: bit_simps dest: bit_imp_le_length)
qed

lemma lookup_cases:
  assumes "arp_ok st" "ipv4_compares st" "na_type a = Na_ipv4" "g_arp_cache st = Some c"
  shows "(arp_cache_lookup iface a st = None \<and> arp_table st (iface, ipv4_get_addr a) = None \<and>
      (\<forall>p \<in> set c. \<not> arp_entry (g_current_timestamp st) iface (ipv4_get_addr a) p)) \<or>
    (\<exists>i < length c. arp_cache_lookup iface a st = Some i \<and> arp_table st (iface, ipv4_get_addr a) = Some (ai_hw_addr (c ! i)) \<and>
      arp_entry (g_current_timestamp st) iface (ipv4_get_addr a) (c ! i))"
proof -
  have hit: "arp_hit st iface a = arp_entry (g_current_timestamp st) iface (ipv4_get_addr a)"
    "arp_hit st iface (ipv4_make_addr (ipv4_get_addr a) 0) = arp_entry (g_current_timestamp st) iface (ipv4_get_addr a)"
    using arp_hit_entry [OF assms(2)] assms(3) by (auto simp: fun_eq_iff)
  show ?thesis
    using find_index_cases [of "arp_entry (g_current_timestamp st) iface (ipv4_get_addr a)" c]
    by (auto simp: arp_cache_lookup_def arp_table_def hit assms(4))
qed

text \<open>What the table holds, without reference to the search.\<close>

lemma arp_table_eq:
  assumes "arp_ok st" "ipv4_compares st" "g_arp_cache st = Some c"
  shows "arp_table st (iface, ip) = Some h \<longleftrightarrow>
    (\<exists>i < length c. arp_entry (g_current_timestamp st) iface ip (c ! i) \<and> ai_hw_addr (c ! i) = h)"
proof -
  have "\<forall>i < length c. \<forall>j < length c. \<forall>iface ip. arp_entry (g_current_timestamp st) iface ip (c ! i) \<and>
      arp_entry (g_current_timestamp st) iface ip (c ! j) \<longrightarrow> i = j"
    using assms(1,3) by (simp add: arp_ok_def)
  then have uniq: "i = j" if "i < length c" "j < length c" "arp_entry (g_current_timestamp st) iface ip (c ! i)"
    "arp_entry (g_current_timestamp st) iface ip (c ! j)" for i j
    using that by blast
  have "(arp_table st (iface, ip) = None \<and> (\<forall>p \<in> set c. \<not> arp_entry (g_current_timestamp st) iface ip p)) \<or>
    (\<exists>i < length c. arp_table st (iface, ip) = Some (ai_hw_addr (c ! i)) \<and> arp_entry (g_current_timestamp st) iface ip (c ! i))"
    using lookup_cases [OF assms(1,2), of "ipv4_make_addr ip 0" c iface] assms(3) by auto
  then show ?thesis
    using uniq by (auto simp: set_conv_nth)
qed

section \<open>The entry that is replaced\<close>

definition arp_unused :: "u32 \<Rightarrow> arp_cache_item \<Rightarrow> bool" where
  "arp_unused now p \<longleftrightarrow> ai_etime p \<le>s now \<or> ai_iface p = 0"

lemma soonest_cases:
  "(\<exists>k < length ps. soonest now ps i se b = Some (i + k) \<and> arp_unused now (ps ! k)) \<or>
   (\<forall>p \<in> set ps. \<not> arp_unused now p) \<and>
     ((soonest now ps i se b = b \<and> (\<forall>p \<in> set ps. \<not> ai_etime p <s se)) \<or>
      (\<exists>k < length ps. soonest now ps i se b = Some (i + k) \<and> ai_etime (ps ! k) <s se \<and>
         (\<forall>p \<in> set ps. \<not> ai_etime p <s ai_etime (ps ! k))))"
proof (induction ps arbitrary: i se b)
  case (Cons p ps)
  consider "arp_unused now p" | "\<not> arp_unused now p" "ai_etime p <s se" | "\<not> arp_unused now p" "\<not> ai_etime p <s se"
    by blast
  then show ?case
  proof cases
    case 1
    then show ?thesis
      by (auto simp: arp_unused_def intro!: exI [of _ 0])
  next
    case 2
    then have e: "soonest now (p # ps) i se b = soonest now ps (Suc i) (ai_etime p) (Some i)"
      by (auto simp: arp_unused_def)
    from Cons.IH [of "Suc i" "ai_etime p" "Some i"] show ?thesis
    proof (elim disjE conjE exE)
      fix k assume "k < length ps" "soonest now ps (Suc i) (ai_etime p) (Some i) = Some (Suc i + k)" "arp_unused now (ps ! k)"
      then show ?thesis
        unfolding e by (intro disjI1 exI [of _ "Suc k"]) simp
    next
      assume "\<forall>q \<in> set ps. \<not> arp_unused now q" "soonest now ps (Suc i) (ai_etime p) (Some i) = Some i" "\<forall>q \<in> set ps. \<not> ai_etime q <s ai_etime p"
      then show ?thesis
        using 2 unfolding e by (intro disjI2 conjI disjI2 exI [of _ 0]) (auto simp: word_sless_alt)
    next
      fix k
      assume "\<forall>q \<in> set ps. \<not> arp_unused now q" "k < length ps" "soonest now ps (Suc i) (ai_etime p) (Some i) = Some (Suc i + k)"
        "ai_etime (ps ! k) <s ai_etime p" "\<forall>q \<in> set ps. \<not> ai_etime q <s ai_etime (ps ! k)"
      then show ?thesis
        using 2 unfolding e by (intro disjI2 conjI disjI2 exI [of _ "Suc k"]) (auto simp: word_sless_alt)
    qed
  next
    case 3
    then have e: "soonest now (p # ps) i se b = soonest now ps (Suc i) se b"
      by (auto simp: arp_unused_def)
    have less: "\<not> ai_etime p <s w" if "w <s se" for w
      using 3(2) that by (auto simp: word_sless_alt)
    from Cons.IH [of "Suc i" se b] show ?thesis
      unfolding e using 3 less by (auto intro: exI [of _ "Suc _"]) 
  qed
qed simp

section \<open>Insertion\<close>

lemma ex_update:
  assumes "k < length xs"
  shows "(\<exists>j < length xs. P (xs[k := y] ! j)) \<longleftrightarrow> P y \<or> (\<exists>j < length xs. j \<noteq> k \<and> P (xs ! j))"
  using assms by (metis nth_list_update_eq nth_list_update_neq)

lemma option_eqI: "(\<And>y. u = Some y \<longleftrightarrow> v = Some y) \<Longrightarrow> u = v"
  by (cases u; cases v) auto

lemma expiry: "sint now < 2147482447 \<Longrightarrow> sint (now + ARP_CACHE_ITEM_LIFETIME) = sint now + 1200" for now :: u32
  using sint_greater_eq [of now] unfolding ARP_CACHE_ITEM_LIFETIME_def
  by (subst sint_word_ariths) (simp add: signed_take_bit_int_eq_self)

text \<open>An entry can always be replaced when the cache is enabled.\<close>

lemma entry_for_insert_cases:
  assumes "arp_ok st" "g_arp_cache st = Some c" "sint (g_current_timestamp st) < 2147482447"
  shows "\<exists>k < length c. arp_cache_get_entry_for_insert st = Some k \<and>
    (arp_unused (g_current_timestamp st) (c ! k) \<or>
     (\<forall>p \<in> set c. \<not> arp_unused (g_current_timestamp st) p \<and> sint (ai_etime (c ! k)) \<le> sint (ai_etime p)))"
proof -
  have c: "length c = ARP_CACHE_SIZE" "\<forall>p \<in> set c. sint (ai_etime p) \<le> sint (g_current_timestamp st) + 1200"
    using assms(1,2) by (simp_all add: arp_ok_def)
  have max: "ai_etime p <s TIME_T_MAX" if "p \<in> set c" for p
  proof -
    have "sint (ai_etime p) < 2147483647"
      using c(2) that assms(3) by fastforce
    then show ?thesis
      by (simp add: word_sless_alt TIME_T_MAX_def)
  qed
  have "c ! 0 \<in> set c"
    using c(1) by (simp add: ARP_CACHE_SIZE_def)
  then have "\<not> (\<forall>p \<in> set c. \<not> ai_etime p <s TIME_T_MAX)"
    using max by blast
  then show ?thesis
    using soonest_cases [of c "g_current_timestamp st" 0 TIME_T_MAX None]
    unfolding arp_cache_get_entry_for_insert_def assms(2) by (auto simp: word_sless_alt not_less)
qed

lemma update_arp_sel [simp]:
  "g_current_timestamp (update_arp i f st) = g_current_timestamp st" "drivers (update_arp i f st) = drivers st"
  "g_ifaces (update_arp i f st) = g_ifaces st" "net_mach (update_arp i f st) = net_mach st"
  "net_slab (update_arp i f st) = net_slab st" "net_heap (update_arp i f st) = net_heap st"
  "routes (update_arp i f st) = routes st" "default_route (update_arp i f st) = default_route st"
  "rand_state (update_arp i f st) = rand_state st" "sent (update_arp i f st) = sent st" "dhcp_log (update_arp i f st) = dhcp_log st"
  by (simp_all add: update_arp_def)

lemma ipv4_compares_cong: "drivers st' = drivers st \<Longrightarrow> ipv4_compares st' = ipv4_compares st"
  by (simp add: ipv4_compares_def net_protocol_get_driver_def)

text \<open>To overwrite one entry keeps the invariant if the new one is for the same address or for one that has no entry.\<close>

lemma arp_ok_update:
  assumes "arp_ok st" "g_arp_cache st = Some c" "k < length c" "arp_typed q"
    "sint (ai_etime q) \<le> sint (g_current_timestamp st) + 1200"
    "\<And>i iface ip. i < length c \<Longrightarrow> i \<noteq> k \<Longrightarrow> arp_entry (g_current_timestamp st) iface ip q \<Longrightarrow>
       \<not> arp_entry (g_current_timestamp st) iface ip (c ! i)"
  shows "arp_ok (update_arp k (\<lambda>_. q) st)"
proof -
  let ?now = "g_current_timestamp st"
  have c: "length c = ARP_CACHE_SIZE" "\<forall>p \<in> set c. arp_typed p \<and> sint (ai_etime p) \<le> sint ?now + 1200"
    "\<forall>i < length c. \<forall>j < length c. \<forall>iface ip. arp_entry ?now iface ip (c ! i) \<and> arp_entry ?now iface ip (c ! j) \<longrightarrow> i = j"
    using assms(1,2) by (simp_all add: arp_ok_def)
  have uniq: "i = j" if "i < length c" "j < length c" "arp_entry ?now iface ip (c ! i)" "arp_entry ?now iface ip (c ! j)" for i j iface ip
    using c(3) that by blast
  have "\<forall>p \<in> set (c[k := q]). arp_typed p \<and> sint (ai_etime p) \<le> sint ?now + 1200"
    using c(2) assms(4,5) set_update_subset_insert [of c k q] by blast
  moreover have "i = j" if "i < length c" "j < length c" "arp_entry ?now iface ip (c[k := q] ! i)" "arp_entry ?now iface ip (c[k := q] ! j)" for i j iface ip
  proof (cases "i = k \<or> j = k")
    case True
    then show ?thesis
      using that assms(6) [of i iface ip] assms(6) [of j iface ip] assms(3) by (auto simp: nth_list_update split: if_splits)
  next
    case False
    then show ?thesis
      using uniq [of i j iface ip] that by simp
  qed
  ultimately show ?thesis
    using c(1) assms(2) by (simp add: arp_ok_def update_arp_def) blast
qed

text \<open>The two cases of an insertion: an entry is replaced, or the one that is there lives longer.\<close>

definition new_entry :: "net \<Rightarrow> u32 \<Rightarrow> net_address \<Rightarrow> net_address \<Rightarrow> arp_cache_item" where
  "new_entry st iface hw a = \<lparr>ai_iface = iface, ai_hw_addr = hw, ai_proto_addr = a, ai_etime = g_current_timestamp st + ARP_CACHE_ITEM_LIFETIME\<rparr>"

lemma arp_entry_new:
  "sint (g_current_timestamp st) < 2147482447 \<Longrightarrow> na_type a = Na_ipv4 \<Longrightarrow>
     arp_entry (g_current_timestamp st) i p (new_entry st iface hw a) \<longleftrightarrow> i = iface \<and> p = ipv4_get_addr a"
  using expiry [of "g_current_timestamp st"] by (auto simp: arp_entry_def new_entry_def word_sless_alt)

lemma arp_cache_add_cases:
  assumes "arp_ok st" "ipv4_compares st" "sint (g_current_timestamp st) < 2147482447"
    and "na_type hw = Na_ethernet" "na_type a = Na_ipv4" "g_arp_cache st = Some c"
  shows "\<exists>k < length c. \<exists>q. arp_cache_add iface hw a st = (0, update_arp k (\<lambda>_. q) st) \<and> arp_ok (update_arp k (\<lambda>_. q) st) \<and>
    ((arp_table st (iface, ipv4_get_addr a) = None \<and> (\<forall>p \<in> set c. \<not> arp_entry (g_current_timestamp st) iface (ipv4_get_addr a) p) \<and>
      q = new_entry st iface hw a \<and>
      (arp_unused (g_current_timestamp st) (c ! k) \<or>
       (\<forall>p \<in> set c. \<not> arp_unused (g_current_timestamp st) p \<and> sint (ai_etime (c ! k)) \<le> sint (ai_etime p)))) \<or>
     (arp_table st (iface, ipv4_get_addr a) = Some (ai_hw_addr (c ! k)) \<and>
      q = (c ! k)\<lparr>ai_etime := g_current_timestamp st + ARP_CACHE_ITEM_LIFETIME\<rparr> \<and> ai_hw_addr q = ai_hw_addr (c ! k) \<and>
      (\<forall>i p. arp_entry (g_current_timestamp st) i p q \<longleftrightarrow> arp_entry (g_current_timestamp st) i p (c ! k)) \<and>
      arp_entry (g_current_timestamp st) iface (ipv4_get_addr a) q))"
proof -
  let ?now = "g_current_timestamp st" and ?ip = "ipv4_get_addr a"
  let ?until = "?now + ARP_CACHE_ITEM_LIFETIME"
  have e: "sint ?until = sint ?now + 1200"
    by (rule expiry [OF assms(3)])
  have c: "\<forall>p \<in> set c. arp_typed p"
    "\<forall>i < length c. \<forall>j < length c. \<forall>iface ip. arp_entry ?now iface ip (c ! i) \<and> arp_entry ?now iface ip (c ! j) \<longrightarrow> i = j"
    using assms(1,6) by (simp_all add: arp_ok_def)
  then have uniq: "i = j" if "i < length c" "j < length c" "arp_entry ?now if' ip (c ! i)" "arp_entry ?now if' ip (c ! j)" for i j if' ip
    using that by blast
  from lookup_cases [OF assms(1,2,5,6), of iface] show ?thesis
  proof (elim disjE conjE exE)
    assume none: "arp_cache_lookup iface a st = None" "arp_table st (iface, ?ip) = None"
      "\<forall>p \<in> set c. \<not> arp_entry ?now iface ?ip p"
    obtain k where k: "k < length c" "arp_cache_get_entry_for_insert st = Some k"
      "arp_unused ?now (c ! k) \<or> (\<forall>p \<in> set c. \<not> arp_unused ?now p \<and> sint (ai_etime (c ! k)) \<le> sint (ai_etime p))"
      using entry_for_insert_cases [OF assms(1,6,3)] by blast
    have "arp_ok (update_arp k (\<lambda>_. new_entry st iface hw a) st)"
      using none(3) assms(4,5) e by (intro arp_ok_update [OF assms(1,6) k(1)])
        (auto simp: arp_entry_new [OF assms(3,5)], auto simp: arp_typed_def new_entry_def)
    then show ?thesis
      using none k by (intro exI [of _ k] exI [of _ "new_entry st iface hw a"] conjI) (simp_all add: arp_cache_add_def new_entry_def)
  next
    fix k assume k: "k < length c" "arp_cache_lookup iface a st = Some k" "arp_table st (iface, ?ip) = Some (ai_hw_addr (c ! k))"
      "arp_entry ?now iface ?ip (c ! k)"
    let ?q = "(c ! k)\<lparr>ai_etime := ?until\<rparr>"
    have q: "arp_entry ?now i p ?q \<longleftrightarrow> arp_entry ?now i p (c ! k)" for i p
      using k(4) e by (auto simp: arp_entry_def word_sless_alt)
    have "arp_ok (update_arp k (\<lambda>_. ?q) st)"
      using c(1) k(1) e uniq [OF _ k(1)] by (intro arp_ok_update [OF assms(1,6) k(1)]) (auto simp: q arp_typed_def)
    moreover have "arp_cache_add iface hw a st = (0, update_arp k (\<lambda>_. ?q) st)"
      using k(2) assms(6) by (simp add: arp_cache_add_def update_arp_def)
    ultimately show ?thesis
      using k(1,3,4) q by (intro exI [of _ k] exI [of _ ?q] conjI disjI2) simp_all
  qed
qed

lemma arp_table_update:
  assumes "arp_ok (update_arp k (\<lambda>_. q) st)" "ipv4_compares st" "g_arp_cache st = Some c" "k < length c"
  shows "arp_table (update_arp k (\<lambda>_. q) st) (i, p) = Some h \<longleftrightarrow>
    arp_entry (g_current_timestamp st) i p q \<and> ai_hw_addr q = h \<or>
    (\<exists>j < length c. j \<noteq> k \<and> arp_entry (g_current_timestamp st) i p (c ! j) \<and> ai_hw_addr (c ! j) = h)"
proof -
  let ?st = "update_arp k (\<lambda>_. q) st"
  have "g_arp_cache ?st = Some (c[k := q])" "ipv4_compares ?st"
    using assms(2,3) ipv4_compares_cong [of ?st st] by (simp_all add: update_arp_def)
  from arp_table_eq [OF assms(1) this(2,1)] show ?thesis
    using ex_update [OF assms(4), of "\<lambda>e. arp_entry (g_current_timestamp st) i p e \<and> ai_hw_addr e = h" q] by simp
qed

text \<open>After an insertion a lookup finds an entry: the old one if there was one, the new one otherwise.\<close>

lemma arp_cache_add_finds:
  assumes "arp_ok st" "ipv4_compares st" "sint (g_current_timestamp st) < 2147482447"
    and "na_type hw = Na_ethernet" "na_type a = Na_ipv4" "g_arp_cache st = Some c"
  shows "arp_table (snd (arp_cache_add iface hw a st)) (iface, ipv4_get_addr a) =
    Some (case arp_table st (iface, ipv4_get_addr a) of None \<Rightarrow> hw | Some h \<Rightarrow> h)"
proof -
  obtain k q where k: "k < length c" "arp_cache_add iface hw a st = (0, update_arp k (\<lambda>_. q) st)" "arp_ok (update_arp k (\<lambda>_. q) st)"
    "arp_table st (iface, ipv4_get_addr a) = None \<and> q = new_entry st iface hw a \<or>
     arp_table st (iface, ipv4_get_addr a) = Some (ai_hw_addr (c ! k)) \<and> ai_hw_addr q = ai_hw_addr (c ! k) \<and>
     arp_entry (g_current_timestamp st) iface (ipv4_get_addr a) q"
    using arp_cache_add_cases [OF assms, of iface] by blast
  have "arp_entry (g_current_timestamp st) iface (ipv4_get_addr a) q"
    using k(4) arp_entry_new [OF assms(3,5)] by blast
  moreover have "ai_hw_addr q = (case arp_table st (iface, ipv4_get_addr a) of None \<Rightarrow> hw | Some h \<Rightarrow> h)"
    using k(4) by (auto simp: new_entry_def)
  ultimately show ?thesis
    using arp_table_update [OF k(3) assms(2,6) k(1)] k(2) by simp
qed

text \<open>
  C15: The ARP cache implements a table from pairs of an interface and an IPv4 address to
  hardware addresses.  \<^verbatim>\<open>arp_cache_add\<close> of an address that is not in the table overwrites one
  entry of the cache with the new address, the new hardware address and an expiry time 1200
  seconds from now; this removes at most one other address, and one only when all entries are in
  use, namely one that expires first.  For an address in the table it sets the expiry time of
  that address's entry to 1200 seconds from now and changes nothing else at all: the hardware
  address stays the old one.  The invariant of the cache, and with it the types of the addresses
  it holds, is kept.
\<close>

theorem arp_cache_add_correct:
  assumes "arp_ok st" "ipv4_compares st" "sint (g_current_timestamp st) < 2147482447"
    and "na_type hw = Na_ethernet" "na_type a = Na_ipv4" "g_arp_cache st = Some c"
  shows "\<exists>st' k until. arp_cache_add iface hw a st = (0, st') \<and> arp_ok st' \<and> k < length c \<and>
    sint until = sint (g_current_timestamp st) + 1200 \<and>
    (if arp_table st (iface, ipv4_get_addr a) \<noteq> None
     then arp_entry (g_current_timestamp st) iface (ipv4_get_addr a) (c ! k) \<and>
       st' = st\<lparr>g_arp_cache := Some (c[k := (c ! k)\<lparr>ai_etime := until\<rparr>])\<rparr> \<and> arp_table st' = arp_table st
     else st' = st\<lparr>g_arp_cache := Some (c[k := \<lparr>ai_iface = iface, ai_hw_addr = hw, ai_proto_addr = a, ai_etime = until\<rparr>])\<rparr> \<and>
       arp_table st' = (\<lambda>x. if x = (iface, ipv4_get_addr a) then Some hw
         else if arp_entry (g_current_timestamp st) (fst x) (snd x) (c ! k) then None else arp_table st x) \<and>
       (arp_unused (g_current_timestamp st) (c ! k) \<or>
        (\<forall>p \<in> set c. \<not> arp_unused (g_current_timestamp st) p \<and> sint (ai_etime (c ! k)) \<le> sint (ai_etime p))))"
proof -
  let ?now = "g_current_timestamp st" and ?ip = "ipv4_get_addr a"
  let ?until = "?now + ARP_CACHE_ITEM_LIFETIME"
  obtain k q where k: "k < length c" "arp_cache_add iface hw a st = (0, update_arp k (\<lambda>_. q) st)" "arp_ok (update_arp k (\<lambda>_. q) st)"
    and d: "(arp_table st (iface, ?ip) = None \<and> (\<forall>p \<in> set c. \<not> arp_entry ?now iface ?ip p) \<and> q = new_entry st iface hw a \<and>
      (arp_unused ?now (c ! k) \<or> (\<forall>p \<in> set c. \<not> arp_unused ?now p \<and> sint (ai_etime (c ! k)) \<le> sint (ai_etime p)))) \<or>
     (arp_table st (iface, ?ip) = Some (ai_hw_addr (c ! k)) \<and> q = (c ! k)\<lparr>ai_etime := ?until\<rparr> \<and>
      (\<forall>i p. arp_entry ?now i p q \<longleftrightarrow> arp_entry ?now i p (c ! k)) \<and> arp_entry ?now iface ?ip q)"
    using arp_cache_add_cases [OF assms, of iface] by blast
  let ?st = "update_arp k (\<lambda>_. q) st"
  have upd: "?st = st\<lparr>g_arp_cache := Some (c[k := q])\<rparr>" by (simp add: update_arp_def assms(6))
  note e = expiry [OF assms(3)] and hit = k(2) [unfolded upd] k(3) [unfolded upd] k(1)
  note table = arp_table_update [OF k(3) assms(2,6) k(1)] and old = arp_table_eq [OF assms(1,2,6)]
  have "\<forall>i < length c. \<forall>j < length c. \<forall>iface ip. arp_entry ?now iface ip (c ! i) \<and> arp_entry ?now iface ip (c ! j) \<longrightarrow> i = j"
    using assms(1,6) by (simp add: arp_ok_def)
  then have uniq: "i = j" if "i < length c" "j < length c" "arp_entry ?now if' ip (c ! i)" "arp_entry ?now if' ip (c ! j)" for i j if' ip
    using that by blast
  from d show ?thesis
  proof
    assume n: "arp_table st (iface, ?ip) = None \<and> (\<forall>p \<in> set c. \<not> arp_entry ?now iface ?ip p) \<and> q = new_entry st iface hw a \<and>
      (arp_unused ?now (c ! k) \<or> (\<forall>p \<in> set c. \<not> arp_unused ?now p \<and> sint (ai_etime (c ! k)) \<le> sint (ai_etime p)))"
    have tab: "arp_table ?st (i, p) = Some h \<longleftrightarrow> (if (i, p) = (iface, ?ip) then h = hw
        else \<not> arp_entry ?now i p (c ! k) \<and> arp_table st (i, p) = Some h)" for i p h
    proof -
      have "arp_entry ?now i p q \<longleftrightarrow> i = iface \<and> p = ?ip" "ai_hw_addr q = hw"
        using n arp_entry_new [OF assms(3,5)] by (simp_all add: new_entry_def)
      then show ?thesis
        unfolding table old using n uniq [OF _ k(1), of _ i p] by (auto simp: set_conv_nth)
    qed
    have "arp_table ?st = (\<lambda>x. if x = (iface, ?ip) then Some hw else if arp_entry ?now (fst x) (snd x) (c ! k) then None else arp_table st x)"
      by (rule ext, rule option_eqI) (use tab in \<open>auto split: if_splits\<close>)
    note tab = this [unfolded upd]
    show ?thesis
      using n tab by (intro exI [of _ "st\<lparr>g_arp_cache := Some (c[k := q])\<rparr>"] exI [of _ k] exI [of _ ?until] conjI hit e)
        (simp add: new_entry_def)
  next
    assume n: "arp_table st (iface, ?ip) = Some (ai_hw_addr (c ! k)) \<and> q = (c ! k)\<lparr>ai_etime := ?until\<rparr> \<and>
      (\<forall>i p. arp_entry ?now i p q \<longleftrightarrow> arp_entry ?now i p (c ! k)) \<and> arp_entry ?now iface ?ip q"
    have "arp_table ?st (i, p) = Some h \<longleftrightarrow> arp_table st (i, p) = Some h" for i p h
      unfolding table old using n k(1) by auto
    then have "arp_table ?st = arp_table st"
      by (intro ext option_eqI) auto
    note tab = this [unfolded upd]
    have "arp_entry ?now iface ?ip (c ! k)" using n by blast
    then show ?thesis
      using n tab by (intro exI [of _ "st\<lparr>g_arp_cache := Some (c[k := q])\<rparr>"] exI [of _ k] exI [of _ ?until] conjI hit e)
        simp
  qed
qed

section \<open>Example\<close>

definition arp_sample :: net where
  "arp_sample = \<lparr>net_mach = \<lparr>ram = \<lambda>_. 0, irq_enabled = True, preempt_count = 1\<rparr>, net_slab = slab_init 1024 2048, net_heap = big_ctxs,
     g_ifaces = [], drivers = [(Np_ipv4, net_proto_fns_struct_init\<lparr>fn_addr_compare := Ipv4_addr_compare\<rparr>)],
     g_arp_cache = Some (replicate 16 \<lparr>ai_iface = 0, ai_hw_addr = \<lparr>na_addr = 0, na_type = Na_unknown\<rparr>,
       ai_proto_addr = \<lparr>na_addr = 0, na_type = Na_unknown\<rparr>, ai_etime = 0\<rparr>),
     routes = [], default_route = 0, g_current_timestamp = 1000, rand_state = 1, sent = [], dhcp_log = []\<rparr>"

theorem arp_cache_add_correct_witness:
  "\<exists>st'. arp_cache_add 64 (eth_make_addr 0x20304050607) (ipv4_make_addr 0xc0a80105 0) arp_sample = (0, st') \<and> arp_ok st'"
proof -
  have "arp_ok arp_sample" "ipv4_compares arp_sample" "sint (g_current_timestamp arp_sample) < 2147482447"
    "na_type (eth_make_addr 0x20304050607) = Na_ethernet" "na_type (ipv4_make_addr 0xc0a80105 0) = Na_ipv4"
    by (simp_all add: arp_sample_def arp_ok_def ARP_CACHE_SIZE_def arp_typed_def arp_entry_def ipv4_compares_def
        net_protocol_get_driver_def eth_make_addr_def word_sless_alt)
  then show ?thesis
    using arp_cache_add_correct [of arp_sample "eth_make_addr 0x20304050607" "ipv4_make_addr 0xc0a80105 0" _ 64]
    by (fastforce simp: arp_sample_def)
qed

end
