(* ===== verification/Net_Fields.thy ===== *)
theory Net_Fields
  imports Net
begin

text \<open>
  The fields of packets: big-endian words and hardware addresses as bytes, and what memory holds
  after a field was written.
\<close>

definition be16 :: "u16 \<Rightarrow> u8 list" where
  "be16 v = [ucast (drop_bit 8 v), ucast v]"

definition be32 :: "u32 \<Rightarrow> u8 list" where
  "be32 v = [ucast (drop_bit 24 v), ucast (drop_bit 16 v), ucast (drop_bit 8 v), ucast v]"

lemma length_be [simp]: "length (be16 v) = 2" "length (be32 w) = 4"
  by (simp_all add: be16_def be32_def)

lemma length_packet_bytes [simp]: "length (packet_bytes m p n) = unat n"
  by (simp add: packet_bytes_def)

section \<open>Reading and writing fields\<close>

text \<open>What memory holds after a write: the field written, and everything that does not overlap it.\<close>

lemma holds_Nil [simp]: "holds m a []"
  by (simp add: holds_def)

lemma holds_upd_same: "holds (m(adr x := v)) x [v]"
  by (simp add: holds_def)

lemma holds_other:
  assumes "modifies m m' x y" "a + length s \<le> x \<or> y \<le> a" "a + length s \<le> 4294967296"
  shows "holds m' a s \<longleftrightarrow> holds m a s"
proof -
  have "m' (adr (a + i)) = m (adr (a + i))" if "i < length s" for i
    using assms(2,3) that by (intro modifies_at [OF assms(1)]) auto
  then show ?thesis
    by (simp add: holds_def)
qed

lemma holds_upd_other:
  "a + length s \<le> x \<or> x + 1 \<le> a \<Longrightarrow> a + length s \<le> 4294967296 \<Longrightarrow> x < 4294967296 \<Longrightarrow> holds (m(adr x := v)) a s \<longleftrightarrow> holds m a s"
  by (rule holds_other [OF modifies_upd]) auto

lemma holds_store16_same: "holds (store16 m (adr x) v) x (be16 v)"
  by (auto simp: holds_def be16_def store16_def less_Suc_eq numeral_2_eq_2 adr_distrib simp del: adr_fold)

lemma holds_store16_other:
  "a + length s \<le> x \<or> x + 2 \<le> a \<Longrightarrow> a + length s \<le> 4294967296 \<Longrightarrow> x + 2 \<le> 4294967296 \<Longrightarrow>
    holds (store16 m (adr x) v) a s \<longleftrightarrow> holds m a s"
  by (rule holds_other [OF modifies_store16]) auto

lemma holds_store32_same: "holds (store32 m (adr x) v) x (be32 v)"
proof -
  have "be32 v ! i = ucast (drop_bit (24 - 8 * i) v)" if "i < 4" for i
    using that by (auto simp: be32_def less_Suc_eq numeral_eq_Suc)
  then show ?thesis
    by (simp add: holds_def store32_byte)
qed

lemma holds_store32_other:
  "a + length s \<le> x \<or> x + 4 \<le> a \<Longrightarrow> a + length s \<le> 4294967296 \<Longrightarrow> x + 4 \<le> 4294967296 \<Longrightarrow>
    holds (store32 m (adr x) v) a s \<longleftrightarrow> holds m a s"
  by (rule holds_other [OF modifies_store32]) auto

definition be48 :: "48 word \<Rightarrow> u8 list" where
  "be48 a = be32 (ucast (drop_bit 16 a)) @ be16 (ucast a)"

lemma length_be48 [simp]: "length (be48 a) = 6"
  by (simp add: be48_def)

lemma holds_store_mac_same: "x + 6 \<le> 4294967296 \<Longrightarrow> holds (store_mac m (adr x) v) x (be48 v)"
  by (simp add: store_mac_def be48_def holds_append holds_store16_same holds_store16_other holds_store32_same)

lemma holds_store_mac_other:
  "a + length s \<le> x \<or> x + 6 \<le> a \<Longrightarrow> a + length s \<le> 4294967296 \<Longrightarrow> x + 6 \<le> 4294967296 \<Longrightarrow>
    holds (store_mac m (adr x) v) a s \<longleftrightarrow> holds m a s"
  unfolding store_mac_def by (auto simp: holds_store16_other holds_store32_other)

lemmas holds_same = holds_upd_same holds_store16_same holds_store32_same holds_store_mac_same
lemmas holds_others = holds_upd_other holds_store16_other holds_store32_other holds_store_mac_other

text \<open>Fields that are read.\<close>

lemma holds_byte: "holds m a [v] \<Longrightarrow> m (adr a) = v"
  by (simp add: holds_single)

lemma holds_load16: "holds m a (be16 v) \<Longrightarrow> load16 m (adr a) = v"
proof -
  assume "holds m a (be16 v)"
  then have "m (adr a) = ucast (drop_bit 8 v)" "m (adr a + 1) = ucast v"
    by (auto simp: holds_def be16_def less_Suc_eq numeral_2_eq_2)
  then show ?thesis
    unfolding load16_def by (intro bit_word_eqI) (auto simp: bit_simps)
qed

lemma holds_load32: "holds m a (be32 v) \<Longrightarrow> load32 m (adr a) = v"
proof -
  assume h: "holds m a (be32 v)"
  have "agree m (store32 m (adr a) v) a (a + 4)"
    unfolding agree_def
  proof (intro allI impI)
    fix x assume "a \<le> x \<and> x < a + 4"
    then obtain i where "x = a + i" "i < 4"
      by (metis le_Suc_ex nat_add_left_cancel_less)
    then show "store32 m (adr a) v (adr x) = m (adr x)"
      using h [unfolded holds_def, rule_format, of i] holds_store32_same [of m a v, unfolded holds_def, rule_format, of i] by simp
  qed
  then have "load32 (store32 m (adr a) v) (adr a) = load32 m (adr a)"
    by (rule agree_load32) simp_all
  then show ?thesis
    by simp
qed

lemma holds_mac_at: "holds m a (be48 v) \<Longrightarrow> mac_at m (adr a) = v"
proof -
  assume "holds m a (be48 v)"
  then have "load32 m (adr a) = ucast (drop_bit 16 v)" "load16 m (adr a + 4) = ucast v"
    using holds_load32 [of m a] holds_load16 [of m "a + 4"] by (simp_all add: be48_def holds_append)
  then show ?thesis
    unfolding mac_at_def by (intro bit_word_eqI) (auto simp: bit_simps)
qed

lemma holds_packet_bytes: "holds m a s \<Longrightarrow> length s = unat n \<Longrightarrow> packet_bytes m (adr a) n = s"
  by (intro nth_equalityI) (auto simp: packet_bytes_def holds_def)

end
