(* ===== verification/Net_Cksum.thy ===== *)
theory Net_Cksum
  imports Net_Fields
begin

text \<open>
  The Internet checksum of \<^verbatim>\<open>net_cksum\<close>: its exact value over the bytes of a buffer.  The carries
  are added only once, so the value is one too large when that addition carries again; the test
  of a received checksum is exact nevertheless.
\<close>

text \<open>The sum of the bytes of a buffer as 16-bit words, the last one padded with zero.\<close>

fun inet_sum :: "u8 list \<Rightarrow> nat" where
  "inet_sum [] = 0"
| "inet_sum [a] = 256 * unat a"
| "inet_sum (a # b # bs) = 256 * unat a + unat b + inet_sum bs"

definition inet_cksum :: "u8 list \<Rightarrow> u16" where
  "inet_cksum bs = NOT (word_of_nat (inet_sum bs + inet_sum bs div 65536))"

text \<open>The checksum of RFC 1071: the complement of the sum with end-around carry.\<close>

definition end_around :: "nat \<Rightarrow> nat" where
  "end_around n = (if n = 0 then 0 else (n - 1) mod 65535 + 1)"

definition double_carry :: "nat \<Rightarrow> bool" where
  "double_carry n \<longleftrightarrow> 65536 \<le> n mod 65536 + n div 65536"

lemma u8_less: "unat (b :: u8) < 256"
  using unsigned_less [of b] by simp

lemma u16_less: "unat (b :: u16) < 65536"
  using unsigned_less [of b] by simp

lemma unat_load16: "unat (load16 m p) = 256 * unat (m p) + unat (m (p + 1))"
proof -
  have "unat (push_bit 8 (ucast (m p) :: u16)) = 256 * unat (m p)"
    using u8_less [of "m p"] by (simp add: push_bit_eq_mult unat_word_ariths unsigned_ucast_eq take_bit_nat_eq_self)
  moreover have "unat (ucast (m (p + 1)) :: u16) = unat (m (p + 1))"
    using u8_less [of "m (p + 1)"] by (simp add: unsigned_ucast_eq take_bit_nat_eq_self)
  moreover have "load16 m p = push_bit 8 (ucast (m p)) + ucast (m (p + 1))"
    unfolding load16_def by (rule disjunctive_add [symmetric]) (auto simp: bit_simps dest: bit_imp_le_length)
  ultimately show ?thesis
    using u8_less [of "m p"] u8_less [of "m (p + 1)"] by (simp add: unat_word_ariths)
qed

lemma packet_bytes_Suc: "unat n = Suc k \<Longrightarrow> packet_bytes m p n = m p # packet_bytes m (p + 1) (word_of_nat k)"
proof -
  assume n: "unat n = Suc k"
  then have "unat (word_of_nat k :: u32) = k"
    using unat_bound [of n] by simp
  then show ?thesis
    unfolding packet_bytes_def n by (simp add: upt_conv_Cons map_Suc_upt [symmetric] adr_shift del: upt_Suc)
qed

lemma word_odd_unat: "len AND 1 \<noteq> 0 \<longleftrightarrow> odd (unat (len :: u32))"
proof -
  have "len AND 1 \<noteq> 0 \<longleftrightarrow> bit len 0"
    by (simp add: and_one_eq bit_0 odd_iff_mod_2_eq_one)
  also have "\<dots> \<longleftrightarrow> bit (unat len) 0"
    by (simp add: bit_unsigned_iff)
  finally show ?thesis
    by (simp add: bit_0)
qed

lemma unat_not16: "unat (NOT (w :: u16)) = 65535 - unat w"
proof -
  have "NOT w = - 1 - w"
    by (simp add: not_eq_complement)
  moreover have "unat (- 1 - w) = unat (- 1 :: u16) - unat w"
    by (rule unat_sub) simp
  moreover have "unat (- 1 :: u16) = 65535"
    by (simp add: unsigned_minus_1_eq_mask mask_eq_exp_minus_1)
  ultimately show ?thesis
    by simp
qed

lemma inet_sum_bound: "inet_sum bs \<le> 65535 * ((length bs + 1) div 2)"
proof (induction bs rule: inet_sum.induct)
  case (2 a)
  then show ?case using u8_less [of a] by simp
next
  case (3 a b bs)
  then show ?case using u8_less [of a] u8_less [of b] by simp
qed simp

lemma cksum_loop_run:
  "cksum_loop k m p s = (p + 2 * word_of_nat k, s + word_of_nat (inet_sum (map (\<lambda>i. m (p + adr i)) [0..<2 * k])))"
proof (induction k arbitrary: p s)
  case (Suc k)
  have "[0..<2 * Suc k] = 0 # 1 # [2..<2 * k + 2]"
    by (simp add: upt_conv_Cons numeral_2_eq_2 del: upt_Suc)
  also have "[2..<2 * k + 2] = map (\<lambda>i. i + 2) [0..<2 * k]"
    by (simp only: map_add_upt)
  finally have "[0..<2 * Suc k] = 0 # 1 # map (\<lambda>i. i + 2) [0..<2 * k]" .
  then have l: "map (\<lambda>i. m (p + adr i)) [0..<2 * Suc k] = m p # m (p + 1) # map (\<lambda>i. m (p + 2 + adr i)) [0..<2 * k]"
    by (simp add: of_nat_add ac_simps)
  have "ucast (load16 m p) = (word_of_nat (256 * unat (m p) + unat (m (p + 1))) :: u32)"
    by (metis unat_load16 of_nat_unat)
  then show ?case
    unfolding l cksum_loop.simps Suc inet_sum.simps of_nat_Suc of_nat_add distrib_left mult_1_right
    by (simp only: add.assoc add.commute add.left_commute)
qed simp

lemma inet_sum_append: "even (length xs) \<Longrightarrow> inet_sum (xs @ ys) = inet_sum xs + inet_sum ys"
proof (induction xs rule: inet_sum.induct)
  case (3 a b bs)
  then show ?case by simp
qed simp_all

lemma net_cksum_bytes:
  assumes "buf AND 1 = 0" "unat len \<le> 65535"
  shows "net_cksum m buf len = Some (inet_cksum (packet_bytes m buf len))"
proof -
  define k where "k = unat len div 2"
  have k: "unat (drop_bit 1 len) = k"
    by (simp add: k_def drop_bit_eq_div unat_div)
  have par: "len AND 1 \<noteq> 0 \<longleftrightarrow> odd (unat len)"
    by (simp add: word_odd_unat)
  let ?w = "map (\<lambda>i. m (buf + adr i)) [0..<2 * k]"
  let ?S = "inet_sum (packet_bytes m buf len)"
  obtain p sm where sm: "cksum_loop k m buf 0 = (p, sm)" "sm = word_of_nat (inet_sum ?w)" "p = buf + 2 * word_of_nat k"
    by (simp add: cksum_loop_run)
  have "(if len AND 1 \<noteq> 0 then sm + push_bit 8 (ucast (m p)) else sm) = word_of_nat ?S"
  proof (cases "odd (unat len)")
    case True
    then have n: "unat len = Suc (2 * k)"
      by (simp add: k_def)
    then have "packet_bytes m buf len = ?w @ [m p]"
      by (simp add: packet_bytes_def sm(3) of_nat_mult)
    then have "?S = inet_sum ?w + 256 * unat (m p)"
      by (simp add: inet_sum_append)
    then show ?thesis
      using True par sm(2) by (simp add: of_nat_add push_bit_eq_mult of_nat_mult mult.commute)
  next
    case False
    then have "unat len = 2 * k"
      by (simp add: k_def)
    then show ?thesis
      using False par sm(2) by (simp add: packet_bytes_def)
  qed
  moreover have "?S < 4294967296"
  proof -
    have "?S \<le> 65535 * ((unat len + 1) div 2)"
      using inet_sum_bound [of "packet_bytes m buf len"] by simp
    also have "\<dots> \<le> 65535 * 32768"
      using assms(2) by (intro mult_le_mono2) simp
    finally show ?thesis by simp
  qed
  moreover have "drop_bit 16 (word_of_nat n :: u32) = word_of_nat (n div 65536)" if "n < 4294967296" for n
    using that by (intro word_unat_eq_iff [THEN iffD2]) (simp add: drop_bit_eq_div unat_div)
  moreover have "ucast (NOT (w :: u32)) = (NOT (ucast w) :: u16)" for w
    by (rule bit_word_eqI) (simp add: bit_simps)
  moreover have "ucast (word_of_nat n :: u32) = (word_of_nat n :: u16)" for n
    by (rule bit_word_eqI) (auto simp: bit_simps)
  ultimately show ?thesis
    using assms unfolding net_cksum_def k sm(1) by (simp add: Let_def inet_cksum_def word_le_nat_alt word_less_nat_alt flip: of_nat_add)
qed

lemma unat_inet_cksum: "unat (inet_cksum bs) = 65535 - (inet_sum bs + inet_sum bs div 65536) mod 65536"
  by (simp add: inet_cksum_def unat_not16 unsigned_of_nat take_bit_eq_mod)

lemma end_around_le: "end_around n \<le> 65535"
  using mod_less_divisor [of 65535 "n - 1"] unfolding end_around_def by (auto simp: Suc_le_eq)

lemma fold_nat:
  fixes n :: nat
  assumes "n < 2147483648"
  shows "(n + n div 65536) mod 65536 + (if double_carry n then 1 else 0) = end_around n"
    "(n + n div 65536) mod 65536 = 65535 \<longleftrightarrow> 0 < n \<and> 65535 dvd n"
proof -
  define h l where "h = n div 65536" and "l = n mod 65536"
  have n: "n = 65536 * h + l" "l < 65536" "h < 32768"
    using assms by (simp_all add: h_def l_def)
  have d: "double_carry n \<longleftrightarrow> 65536 \<le> l + h"
    by (simp add: double_carry_def h_def l_def add.commute)
  have "n + h = (l + h) + 65536 * h"
    using n(1) by simp
  then have m: "(n + h) mod 65536 = (l + h) mod 65536"
    by (metis mod_mult_self2)
  have e: "end_around n = (if n = 0 then 0 else (l + h - 1) mod 65535 + 1)"
  proof (cases "n = 0")
    case False
    then have "n - 1 = (l + h - 1) + 65535 * h"
      using n(1) by (cases "l + h") auto
    then show ?thesis
      using False by (simp add: end_around_def)
  qed (simp add: end_around_def)
  have z: "n = 0 \<longleftrightarrow> l + h = 0"
    using n(1) by auto
  have "n = (l + h) + 65535 * h"
    using n(1) by simp
  then have v: "65535 dvd n \<longleftrightarrow> 65535 dvd l + h"
    by (metis dvd_add_left_iff dvd_triv_left)
  show "(n + n div 65536) mod 65536 + (if double_carry n then 1 else 0) = end_around n"
  proof (cases "l + h < 65536")
    case True
    then show ?thesis
      unfolding d e h_def [symmetric] m using z by auto
  next
    case False
    then have "(l + h) mod 65536 = l + h - 65536" "(l + h - 1) mod 65535 = l + h - 65536"
      using n(2,3) by (simp_all add: le_mod_geq)
    then show ?thesis
      unfolding d e h_def [symmetric] m using False z by (auto simp: not_less)
  qed
  show "(n + n div 65536) mod 65536 = 65535 \<longleftrightarrow> 0 < n \<and> 65535 dvd n"
  proof -
    have "(l + h) mod 65536 = 65535 \<longleftrightarrow> l + h = 65535"
    proof (cases "l + h < 65536")
      case False
      then have "(l + h) mod 65536 = l + h - 65536" "l + h - 65536 < 65535"
        using n by (simp_all add: le_mod_geq)
      then show ?thesis using False by simp
    qed simp
    moreover have "l + h = 65535 \<longleftrightarrow> 0 < l + h \<and> 65535 dvd l + h"
      using n(2,3) by (auto elim!: dvdE)
    ultimately show ?thesis
      unfolding h_def [symmetric] m using z v by auto
  qed
qed

lemma inet_sum_small: "length bs \<le> 65535 \<Longrightarrow> inet_sum bs < 2147483648"
  using inet_sum_bound [of bs] mult_le_mono2 [of "(length bs + 1) div 2" 32768 65535] by linarith

lemma inet_cksum_value:
  assumes "length bs \<le> 65535"
  shows "unat (inet_cksum bs) = 65535 - end_around (inet_sum bs) + (if double_carry (inet_sum bs) then 1 else 0)"
    "inet_cksum bs = 0 \<longleftrightarrow> 0 < inet_sum bs \<and> 65535 dvd inet_sum bs"
proof -
  note f = fold_nat [OF inet_sum_small [OF assms]]
  have m: "(inet_sum bs + inet_sum bs div 65536) mod 65536 < 65536"
    by simp
  have "end_around (inet_sum bs) \<le> 65535"
    by (rule end_around_le)
  then show "unat (inet_cksum bs) = 65535 - end_around (inet_sum bs) + (if double_carry (inet_sum bs) then 1 else 0)"
    unfolding unat_inet_cksum using f(1) m by (auto split: if_splits)
  have "inet_cksum bs = 0 \<longleftrightarrow> unat (inet_cksum bs) = 0"
    by (simp add: unat_eq_zero)
  then show "inet_cksum bs = 0 \<longleftrightarrow> 0 < inet_sum bs \<and> 65535 dvd inet_sum bs"
    unfolding unat_inet_cksum f(2) [symmetric] using m by linarith
qed

text \<open>
  C16: \<^verbatim>\<open>net_cksum\<close> is the complement of the end-around sum of the 16-bit words of the buffer, the
  last byte padded, except when adding the carries carries again: then it is one too large.  The
  test of a received buffer is exact: the result is 0 if and only if the sum is a positive
  multiple of 65535.
\<close>

theorem net_cksum_correct:
  fixes m :: mem
  assumes "buf AND 1 = 0" "unat len \<le> 65535"
  defines "n \<equiv> inet_sum (packet_bytes m buf len)"
  shows "\<exists>c. net_cksum m buf len = Some c \<and>
    unat c = 65535 - end_around n + (if double_carry n then 1 else 0) \<and> (c = 0 \<longleftrightarrow> 0 < n \<and> 65535 dvd n)"
  using inet_cksum_value [of "packet_bytes m buf len"] assms by (simp add: net_cksum_bytes)

theorem net_cksum_correct_witness:
  "net_cksum (\<lambda>p. if p = 0 then 0xff else if p = 1 then 0x01 else if p = 2 then 0x00 else 0xfe) 0 4 = Some 0"
  using net_cksum_correct [of 0 4 "\<lambda>p. if p = 0 then 0xff else if p = 1 then 0x01 else if p = 2 then 0x00 else 0xfe"]
  by (simp add: packet_bytes_def upt_conv_Cons of_nat_Suc del: upt_Suc)

section \<open>Sender and receiver\<close>

lemma inet_sum_be16: "inet_sum (be16 v) = unat v"
proof -
  have "unat (ucast (drop_bit 8 v) :: u8) = unat v div 256"
    using u16_less [of v] by (simp add: unsigned_ucast_eq drop_bit_eq_div unat_div take_bit_nat_eq_self)
  moreover have "unat (ucast v :: u8) = unat v mod 256"
    by (simp add: unsigned_ucast_eq take_bit_eq_mod)
  ultimately show ?thesis
    by (simp add: be16_def)
qed

lemma inet_sum_field: "even (length xs) \<Longrightarrow> inet_sum (xs @ be16 c @ ys) = inet_sum (xs @ be16 0 @ ys) + unat c"
  by (simp add: inet_sum_append inet_sum_be16)

lemma inet_cksum_stored:
  assumes "even (length xs)" "length xs + 2 + length ys \<le> 65535"
  shows "inet_cksum (xs @ be16 (inet_cksum (xs @ be16 0 @ ys)) @ ys) = 0 \<longleftrightarrow> \<not> double_carry (inet_sum (xs @ be16 0 @ ys))"
proof -
  define n where "n = inet_sum (xs @ be16 0 @ ys)"
  define c where "c = inet_cksum (xs @ be16 0 @ ys)"
  have len: "length (xs @ be16 v @ ys) \<le> 65535" for v
    using assms(2) by simp
  note c = inet_cksum_value(1) [OF len [of 0], folded c_def n_def]
  have e: "end_around n \<le> 65535"
    by (rule end_around_le)
  obtain q where q: "n = end_around n + 65535 * q"
  proof (cases "n = 0")
    case True
    then show thesis by (intro that [of 0]) (simp add: end_around_def)
  next
    case False
    then have "n = (n - 1) mod 65535 + 1 + 65535 * ((n - 1) div 65535)"
      using mod_mult_div_eq [of "n - 1" 65535] by linarith
    then show thesis using False by (intro that [of "(n - 1) div 65535"]) (simp add: end_around_def)
  qed
  have s: "inet_sum (xs @ be16 c @ ys) = (if double_carry n then 1 else 0) + 65535 * (q + 1)"
    using inet_sum_field [OF assms(1), of c ys, folded n_def] c q e by (simp add: algebra_simps)
  have "65535 dvd inet_sum (xs @ be16 c @ ys) \<longleftrightarrow> \<not> double_carry n"
    unfolding s by (auto simp: dvd_add_left_iff)
  then show ?thesis
    unfolding c_def [symmetric] n_def [symmetric] inet_cksum_value(2) [OF len] using s by auto
qed

text \<open>
  C17: The checksum that a sender computes over a header or message with a zero checksum field
  and stores in the field is accepted by the receiver if and only if the sum does not carry
  twice.  In the other case the packet is rejected everywhere.
\<close>

theorem net_cksum_roundtrip:
  assumes "holds m a (xs @ be16 0 @ ys)" "even a" "even (length xs)"
    and "unat len = length xs + 2 + length ys" "unat len \<le> 65535" "a + unat len < 4294967296"
  shows "\<exists>c. net_cksum m (adr a) len = Some c \<and>
    (net_cksum (store16 m (adr (a + length xs)) c) (adr a) len = Some 0 \<longleftrightarrow> \<not> double_carry (inet_sum (xs @ be16 0 @ ys)))"
proof -
  have even: "adr a AND 1 = 0"
    using word_odd_unat [of "adr a"] assms(2,6) by auto
  define c where "c = inet_cksum (xs @ be16 0 @ ys)"
  have "holds (store16 m (adr (a + length xs)) c) a (xs @ be16 c @ ys)"
    using assms by (simp add: holds_append holds_store16_same holds_store16_other)
  then have "packet_bytes (store16 m (adr (a + length xs)) c) (adr a) len = xs @ be16 c @ ys"
    using assms(4) by (intro holds_packet_bytes) simp_all
  moreover have "packet_bytes m (adr a) len = xs @ be16 0 @ ys"
    using assms(4) by (intro holds_packet_bytes [OF assms(1)]) simp
  ultimately show ?thesis
    using net_cksum_bytes [OF even assms(5)] inet_cksum_stored [OF assms(3), of ys] assms(4,5) by (simp add: c_def)
qed

definition carry_header :: "u16 \<Rightarrow> u8 list" where
  "carry_header ck = [0x45, 0, 0, 0x54, 0, 0, 0x40, 0, 64, 1] @ be16 ck @ [0xff, 0xff, 0xff, 0xff, 0x3a, 0xab, 0xff, 0xff]"

theorem net_cksum_roundtrip_witness:
  "\<exists>c. net_cksum (write_bytes (carry_header 0) 8192 (\<lambda>_. 0)) 8192 20 = Some c \<and>
     net_cksum (store16 (write_bytes (carry_header 0) 8192 (\<lambda>_. 0)) 8202 c) 8192 20 \<noteq> Some 0"
proof -
  have "double_carry (inet_sum (carry_header 0))"
    by (simp add: carry_header_def be16_def double_carry_def)
  moreover have "holds (write_bytes (carry_header 0) (adr 8192) (\<lambda>_. 0)) 8192 (carry_header 0)"
    using write_bytes_spec [of 8192 "carry_header 0" "\<lambda>_. 0"] by (simp add: holds_def carry_header_def)
  ultimately show ?thesis
    using net_cksum_roundtrip [of "write_bytes (carry_header 0) (adr 8192) (\<lambda>_. 0)" 8192 "[0x45, 0, 0, 0x54, 0, 0, 0x40, 0, 64, 1]"
      "[0xff, 0xff, 0xff, 0xff, 0x3a, 0xab, 0xff, 0xff]" 20] unfolding carry_header_def by simp
qed

end
