(* ===== verification/Net_Rx.thy ===== *)
theory Net_Rx
  imports Net_Arp Net_Cksum
begin

text \<open>
  The receive path as a sequence of calls of handlers: it ends whatever drivers are registered,
  and with the drivers of the kernel it never fails on a received frame, writes only into the
  packet buffer and keeps the types of all addresses.
\<close>

section \<open>Steps\<close>

text \<open>A step is the call of a handler; its result is the next call or the value returned.\<close>

inductive net_step :: "(u32 \<Rightarrow> u8 list \<Rightarrow> int) \<Rightarrow> net_action \<times> net \<Rightarrow> net_action \<times> net \<Rightarrow> bool" for dw where
  rx: "net_protocol_rx src dest pk st = Some (a, st') \<Longrightarrow> net_step dw (Rx src dest pk, st) (a, st')"
| tx: "net_protocol_tx dw src' dest pk st = Some (a, st') \<Longrightarrow> net_step dw (Tx src' dest pk, st) (a, st')"

inductive_cases net_step_RxE: "net_step dw (Rx src dest pk, st) (a, st')"
inductive_cases net_step_TxE: "net_step dw (Tx src dest pk, st) (a, st')"
inductive_cases net_step_ReturnE: "net_step dw (Return ret, st) (a, st')"

inductive_simps net_step_simps: "net_step dw (Rx src dest pk, st) y" "net_step dw (Tx src' dest pk, st) y" "net_step dw (Return ret, st) y"

text \<open>A call is stuck when its handler stops the kernel or follows a null pointer.\<close>

definition net_stuck :: "(u32 \<Rightarrow> u8 list \<Rightarrow> int) \<Rightarrow> net_action \<Rightarrow> net \<Rightarrow> bool" where
  "net_stuck dw a st \<longleftrightarrow> (\<forall>ret. a \<noteq> Return ret) \<and> (\<nexists>y. net_step dw (a, st) y)"

lemma net_run_Return [simp]: "net_run dw (Return ret) st = Some (ret, st)"
  by (subst net_run.simps) simp

lemma net_run_step: "net_step dw (a, st) (a', st') \<Longrightarrow> net_run dw a st = net_run dw a' st'"
  by (subst net_run.simps) (auto simp: net_step.simps)

lemma net_run_stuck: "net_stuck dw a st \<Longrightarrow> net_run dw a st = None"
  by (subst net_run.simps) (auto simp: net_stuck_def net_step_simps split: net_action.splits option.splits)

section \<open>What each handler does next\<close>

text \<open>These facts list the possible next calls and new states of each handler.\<close>

lemma eth_protos: "eth_proto_from_ethertype e \<in> {Np_ipv4, Np_arp, Np_unknown}"
  by (simp add: eth_proto_from_ethertype_def)

lemma ipv4_protos: "ipv4_get_proto x \<in> {Np_tcp, Np_udp, Np_icmp, Np_unknown}"
  by (simp add: ipv4_get_proto_def)

lemma eth_rx_cases:
  assumes "eth_rx src dest pk st = Some (a, st')"
  shows "st' = st \<and> ((\<exists>ret. a = Return ret) \<or>
    (\<exists>pk' s d p. net_packet_consume pk 14 = (0, pk') \<and> a = Rx s d (pk'\<lparr>pk_proto := p\<rparr>) \<and> p \<in> {Np_ipv4, Np_arp, Np_unknown} \<and>
       (na_type src = Na_unknown \<longrightarrow> na_type s = Na_ethernet)))"
proof -
  obtain ret pk' where c: "net_packet_consume pk 14 = (ret, pk')"
    by fastforce
  define s where "s = (if net_address_get_proto src = Np_unknown then eth_make_addr (mac_at (nmem st) (pk_start pk + 6)) else src)"
  define d where "d = (if net_address_get_proto dest = Np_unknown then eth_make_addr (mac_at (nmem st) (pk_start pk)) else dest)"
  define p where "p = eth_proto_from_ethertype (load16 (nmem st) (pk_start pk + 12))"
  have "na_type src = Na_unknown \<longrightarrow> na_type s = Na_ethernet"
    by (auto simp: s_def eth_make_addr_def net_address_get_proto_def)
  moreover have "p \<in> {Np_ipv4, Np_arp, Np_unknown}"
    unfolding p_def by (rule eth_protos)
  moreover have "st' = st \<and> a = (if ret \<noteq> 0 then Return ret else Rx s d (pk'\<lparr>pk_proto := p\<rparr>))"
    using assms unfolding eth_rx_def Let_def c s_def d_def p_def by (auto split: if_splits)
  ultimately show ?thesis
    unfolding c by (metis Pair_inject)
qed

lemma ipv4_rx_cases:
  assumes "ipv4_rx src dest pk st = Some (a, st')"
  shows "(\<exists>ret. a = Return ret \<and> st' = st) \<or>
    (\<exists>pk' s d p. net_packet_consume pk 20 = (0, pk') \<and> a = Rx s d (pk'\<lparr>pk_proto := p\<rparr>) \<and>
       p \<in> {Np_tcp, Np_udp, Np_icmp, Np_unknown} \<and> na_type s = Na_ipv4 \<and> na_type d = Na_ipv4 \<and>
       (st' = st \<or> st' = snd (arp_cache_add (pk_iface pk) src s st)))"
proof -
  obtain ret pk' where c: "net_packet_consume pk 20 = (ret, pk')"
    by fastforce
  then have i: "pk_iface pk' = pk_iface pk"
    by (auto simp: net_packet_consume_def split: if_splits)
  define s where "s = ipv4_make_addr (load32 (nmem st) (pk_start pk + 12)) 0"
  define d where "d = ipv4_make_addr (load32 (nmem st) (pk_start pk + 16)) 0"
  define p where "p = ipv4_get_proto (nmem st (pk_start pk + 9))"
  have "p \<in> {Np_tcp, Np_udp, Np_icmp, Np_unknown}"
    unfolding p_def by (rule ipv4_protos)
  moreover have "na_type s = Na_ipv4" "na_type d = Na_ipv4"
    by (simp_all add: s_def d_def)
  moreover have "(\<exists>ret. a = Return ret \<and> st' = st) \<or> ret = 0 \<and> a = Rx s d (pk'\<lparr>pk_proto := p\<rparr>) \<and>
      (st' = st \<or> st' = snd (arp_cache_add (pk_iface pk) src s st))"
    using assms unfolding ipv4_rx_def Let_def c s_def d_def p_def by (auto simp: i split: bind_splits if_splits)
  ultimately show ?thesis
    unfolding c by (metis Pair_inject)
qed

lemma arp_rx_cases:
  assumes "arp_rx src dest pk st = Some (a, st')"
  shows "(\<exists>ret. a = Return ret \<and> st' = st) \<or>
    (\<exists>hw pa. na_type hw = Na_ethernet \<and> na_type pa = Na_ipv4 \<and>
      ((\<exists>ret. a = Return ret \<and> st' = snd (arp_cache_add (pk_iface pk) hw pa st)) \<or>
       (\<exists>u v w x. a = Tx None hw pk \<and> 28 \<le> pk_len pk \<and> st' = put_nmem (store_mac (store32 (store_mac (store32 (store16 (nmem st)
          (pk_start pk + 6) 2) (pk_start pk + 24) u) (pk_start pk + 18) v) (pk_start pk + 14) w) (pk_start pk + 8) x)
          (snd (arp_cache_add (pk_iface pk) hw pa st)))))"
proof -
  define hw where "hw = eth_make_addr (mac_at (nmem st) (pk_start pk + 8))"
  define pa where "pa = ipv4_make_addr (load32 (nmem st) (pk_start pk + 14)) 0"
  obtain ret st1 where c: "arp_cache_add (pk_iface pk) hw pa st = (ret, st1)"
    by fastforce
  have "(\<exists>ret. a = Return ret \<and> (st' = st \<or> st' = st1)) \<or>
    (\<exists>u v w x. a = Tx None hw pk \<and> 28 \<le> pk_len pk \<and> st' = put_nmem (store_mac (store32 (store_mac (store32 (store16 (nmem st)
      (pk_start pk + 6) 2) (pk_start pk + 24) u) (pk_start pk + 18) v) (pk_start pk + 14) w) (pk_start pk + 8) x) st1)"
    using assms unfolding arp_rx_def Let_def hw_def [symmetric] pa_def [symmetric] c
    by (simp add: not_less split: if_splits bind_splits) blast+
  moreover have "na_type hw = Na_ethernet" "na_type pa = Na_ipv4" "snd (arp_cache_add (pk_iface pk) hw pa st) = st1"
    by (simp add: hw_def eth_make_addr_def, simp add: pa_def, simp add: c)
  ultimately show ?thesis
    by blast
qed

text \<open>The memory after \<^verbatim>\<open>icmp_handle_echo_request\<close> and after the headers of \<^verbatim>\<open>ipv4_tx\<close>, \<^verbatim>\<open>udp_tx\<close> and \<^verbatim>\<open>eth_tx\<close>.\<close>

lemma icmp_rx_cases:
  assumes "icmp_rx src dest pk st = Some (a, st')"
  shows "(\<exists>ret. a = Return ret \<and> (st' = st \<or>
      st' = net_interface_stats_inc_rx_dropped (pk_iface pk) (net_interface_stats_inc_cksum_err (pk_iface pk) st))) \<or>
    (\<exists>c. a = Tx (Some dest) src pk \<and> st' = put_nmem (store16 ((store16 (nmem st) (pk_start pk + 2) 0)(pk_start pk := 0)) (pk_start pk + 2) c) st)"
  using assms unfolding icmp_rx_def icmp_handle_echo_request_def Let_def by (auto split: bind_splits if_splits)

lemma udp_rx_cases:
  assumes "udp_rx src dest pk st = Some (a, st')"
  shows "\<exists>ret log. a = Return ret \<and> (st' = st \<or> st' = st\<lparr>dhcp_log := log\<rparr>)"
proof -
  have dhcp: "st' = st \<or> (\<exists>log. st' = st\<lparr>dhcp_log := log\<rparr>)" if "dhcp_rx p st = Some (r, st')" for p r
    using that unfolding dhcp_rx_def Let_def by (auto split: bind_splits if_splits)
  obtain ret pk' where c: "net_packet_consume pk 8 = (ret, pk')"
    by fastforce
  show ?thesis
    using assms dhcp unfolding udp_rx_def Let_def c by (auto split: if_splits)
qed

lemma net_tx_cases:
  assumes "net_tx dw pk st = Some (ret, st')"
  shows "st' = st \<or> (\<exists>i. the_iface st (pk_iface pk) = Some i \<and>
    st' = (net_interface_stats_add_tx_bytes (pk_iface pk) (pk_len pk) (net_interface_stats_inc_tx_packets (pk_iface pk) st))
      \<lparr>sent := sent st @ [(if_dev i, packet_bytes (nmem st) (pk_start pk) (pk_len pk))]\<rparr>)"
proof -
  have s: "sent (net_interface_stats_add_tx_bytes p n (net_interface_stats_inc_tx_packets p st)) = sent st"
    "net_mach (net_interface_stats_add_tx_bytes p n (net_interface_stats_inc_tx_packets p st)) = net_mach st" for p n
    by (simp_all add: net_interface_stats_add_tx_bytes_def net_interface_stats_inc_tx_packets_def update_stats_def update_iface_def)
  show ?thesis
    using assms unfolding net_tx_def Let_def by (auto simp: s split: bind_splits if_splits)
qed

lemma eth_tx_cases:
  assumes "eth_tx dw src' dest pk st = Some (a, st')"
  shows "\<exists>ret. a = Return ret \<and> (st' = st \<or>
    (\<exists>pk' m u v w. net_packet_insert (pk\<lparr>pk_proto := Np_ethernet\<rparr>) 14 = (0, pk') \<and>
       (m = store16 (nmem st) (pk_start pk' + 12) u \<or>
        m = store_mac (store_mac (store16 (nmem st) (pk_start pk' + 12) u) (pk_start pk' + 6) v) (pk_start pk') w) \<and>
       (st' = put_nmem m st \<or> net_tx dw pk' (put_nmem m st) = Some (ret, st'))))"
proof -
  obtain ret pk' where c: "net_packet_insert (pk\<lparr>pk_proto := Np_ethernet\<rparr>) 14 = (ret, pk')"
    by fastforce
  show ?thesis
    using assms unfolding eth_tx_def net_packet_encapsulate_def Let_def c
    by (auto split: bind_splits if_splits) blast+
qed

lemma ipv4_tx_cases:
  assumes "ipv4_tx src' dest pk st = Some (a, st')"
  shows "(\<exists>ret. a = Return ret \<and> st' = st) \<or>
    (\<exists>pk' g t u v w x c. net_packet_insert pk 20 = (0, pk') \<and>
       st' = put_nmem (store16 (write_ipv4_hdr (nmem st) (pk_start pk') t u v w x) (pk_start pk' + 10) c) (st\<lparr>rand_state := g\<rparr>) \<and>
       ((\<exists>ret. a = Return ret) \<or>
        (\<exists>iface i d. a = Tx (Some (if_hw_addr i)) d (pk'\<lparr>pk_proto := Np_ipv4, pk_iface := iface\<rparr>) \<and>
           (pk_iface pk \<noteq> 0 \<longrightarrow> iface = pk_iface pk) \<and> the_iface st iface = Some i \<and>
           ipv4_route_get_hw_addr iface dest st' = Inr d)))"
proof -
  obtain ret pk' where c: "net_packet_insert pk 20 = (ret, pk')"
    by fastforce
  have i: "the_iface (put_nmem m (st\<lparr>rand_state := g\<rparr>)) p = the_iface st p" for m g p
    by (simp add: the_iface_def put_nmem_def)
  show ?thesis
    using assms unfolding ipv4_tx_def Let_def c
    by (auto simp: i split: bind_splits if_splits sum.splits prod.splits) blast+
qed

lemma udp_tx_cases:
  assumes "udp_tx src' dest pk st = Some (a, st')"
  shows "(\<exists>ret. a = Return ret \<and> st' = st) \<or>
    (\<exists>pk' t u v src. net_packet_insert pk 8 = (0, pk') \<and> src' = Some src \<and> na_type src = Na_ipv4 \<and> na_type dest = Na_ipv4 \<and>
       a = Tx src' dest pk' \<and>
       st' = put_nmem (store16 (store16 (store16 (store16 (nmem st) (pk_start pk') t) (pk_start pk' + 2) u) (pk_start pk' + 4) v) (pk_start pk' + 6) 0) st)"
proof -
  obtain ret pk' where c: "net_packet_insert pk 8 = (ret, pk')"
    by fastforce
  show ?thesis
    using assms unfolding udp_tx_def Let_def c by (auto split: bind_splits if_splits)
qed

section \<open>Termination\<close>

text \<open>
  Receiving consumes at least eight bytes of the packet or replies with it, transmitting adds at
  least eight bytes to it, as long as it has room.
\<close>

fun weight :: "net_action \<Rightarrow> nat" where
  "weight (Return ret) = 0"
| "weight (Rx src dest pk) = unat (pk_len pk) + unat (buf_len (pk_raw pk)) + 2"
| "weight (Tx src' dest pk) = unat (buf_len (pk_raw pk)) - unat (pk_len pk) + 1"

definition packet_fits :: "net_packet \<Rightarrow> bool" where
  "packet_fits pk \<longleftrightarrow> unat (pk_len pk) \<le> unat (buf_len (pk_raw pk)) \<and> unat (buf_len (pk_raw pk)) + 20 < 4294967296 \<and>
     unat (pk_start pk + pk_len pk) + 259 < 4294967296"

fun action_fits :: "net_action \<Rightarrow> bool" where
  "action_fits (Return ret) = True"
| "action_fits (Rx src dest pk) = packet_fits pk"
| "action_fits (Tx src' dest pk) = packet_fits pk"

lemma packet_fits_proto [simp]:
  "packet_fits (pk\<lparr>pk_proto := p\<rparr>) = packet_fits pk" "packet_fits (pk\<lparr>pk_iface := i\<rparr>) = packet_fits pk"
  by (simp_all add: packet_fits_def)

lemma consume_cases:
  assumes "packet_fits pk"
  shows "net_packet_consume pk n = (- 22, pk) \<or>
    (\<exists>pk'. net_packet_consume pk n = (0, pk') \<and> packet_fits pk' \<and> unat (pk_len pk') + unat n = unat (pk_len pk) \<and>
       pk_start pk' = pk_start pk + n \<and> pk_raw pk' = pk_raw pk \<and> pk_iface pk' = pk_iface pk)"
proof (cases "pk_len pk < n")
  case False
  then have "unat (pk_len pk - n) + unat n = unat (pk_len pk)"
    by (simp add: unat_sub word_le_nat_alt not_less)
  moreover have "pk_start pk + n + (pk_len pk - n) = pk_start pk + pk_len pk"
    by simp
  ultimately show ?thesis
    using False assms by (auto simp: net_packet_consume_def packet_fits_def)
qed (simp add: net_packet_consume_def)

lemma insert_cases:
  assumes "packet_fits pk" "unat n \<le> 20"
  shows "net_packet_insert pk n = (- 22, pk) \<or>
    (\<exists>pk'. net_packet_insert pk n = (0, pk') \<and> packet_fits pk' \<and> unat (pk_len pk') = unat (pk_len pk) + unat n \<and>
       unat (pk_len pk) + unat n \<le> unat (buf_len (pk_raw pk)) \<and> pk_start pk' = pk_start pk - n \<and> pk_raw pk' = pk_raw pk \<and> pk_iface pk' = pk_iface pk \<and> pk_proto pk' = pk_proto pk)"
proof (cases "pk_len pk + n > buf_len (pk_raw pk)")
  case False
  have "unat (pk_len pk + n) = unat (pk_len pk) + unat n"
    using assms by (intro unat_add_lem [THEN iffD1]) (simp add: packet_fits_def)
  moreover from this have "unat (pk_len pk) + unat n \<le> unat (buf_len (pk_raw pk))"
    using False by (simp add: word_less_nat_alt not_less)
  moreover have "pk_start pk - n + (pk_len pk + n) = pk_start pk + pk_len pk"
    by simp
  ultimately show ?thesis
    using False assms by (auto simp: net_packet_insert_def packet_fits_def)
qed (simp add: net_packet_insert_def)

lemma net_step_weight:
  assumes "net_step dw (a, st) (a', st')" "action_fits a"
  shows "action_fits a' \<and> weight a' < weight a"
  using assms
proof (cases rule: net_step.cases)
  case (rx src dest pk)
  have fits: "packet_fits pk"
    using assms(2) rx(1) by simp
  obtain drv where drv: "net_protocol_get_driver (pk_proto pk) st = Some drv \<or> (\<exists>ret. a' = Return ret)"
    using rx(2) by (auto simp: net_protocol_rx_def split: option.splits)
  show ?thesis
  proof (cases "\<exists>ret. a' = Return ret")
    case True
    then show ?thesis
      using rx(1) by auto
  next
    case False
    with drv rx(2) consider "eth_rx src dest pk st = Some (a', st')" | "ipv4_rx src dest pk st = Some (a', st')"
      | "arp_rx src dest pk st = Some (a', st')" | "icmp_rx src dest pk st = Some (a', st')" | "udp_rx src dest pk st = Some (a', st')"
      by (auto simp: net_protocol_rx_def tcp_rx_def split: rx_fn.splits)
    then show ?thesis
    proof cases
      case 1
      show ?thesis
        using eth_rx_cases [OF 1] False consume_cases [OF fits, of 14] fits unfolding rx(1) by auto
    next
      case 2
      show ?thesis
        using ipv4_rx_cases [OF 2] False consume_cases [OF fits, of 20] fits unfolding rx(1) by auto
    next
      case 3
      show ?thesis
        using arp_rx_cases [OF 3] False fits unfolding rx(1) by auto
    next
      case 4
      show ?thesis
        using icmp_rx_cases [OF 4] False fits unfolding rx(1) by auto
    next
      case 5
      show ?thesis
        using udp_rx_cases [OF 5] False by auto
    qed
  qed
next
  case (tx src' dest pk)
  have fits: "packet_fits pk"
    using assms(2) tx(1) by simp
  show ?thesis
  proof (cases "\<exists>ret. a' = Return ret")
    case True
    then show ?thesis
      using tx(1) by auto
  next
    case False
    with tx(2) consider "eth_tx dw src' dest pk st = Some (a', st')" | "ipv4_tx src' dest pk st = Some (a', st')" | "udp_tx src' dest pk st = Some (a', st')"
      by (auto simp: net_protocol_tx_def split: tx_fn.splits option.splits)
    then show ?thesis
    proof cases
      case 1
      show ?thesis
        using eth_tx_cases [OF 1] False by blast
    next
      case 2
      show ?thesis
        using ipv4_tx_cases [OF 2] False insert_cases [OF fits, of 20] fits unfolding tx(1) by (elim disjE exE conjE) auto
    next
      case 3
      show ?thesis
        using udp_tx_cases [OF 3] False insert_cases [OF fits, of 8] fits unfolding tx(1) by (elim disjE exE conjE) auto
    qed
  qed
qed

text \<open>The options of a DHCP reply are scanned to their end, since each has at least two bytes.\<close>

lemma dhcp_options_ends:
  assumes "unat pend + 259 < 4294967296"
  shows "dhcp_options m p pend log \<noteq> None"
proof (induction "unat pend - unat p" arbitrary: p log rule: less_induct)
  case less
  let ?q = "(if m p = 0 then p + 1 else p) + (2 + ucast (m (p + 1)))"
  show ?case
  proof (cases "p < pend")
    case True
    have len: "unat (ucast (m (p + 1)) :: u32) < 256"
      using u8_less [of "m (p + 1)"] by (simp add: unsigned_ucast_eq take_bit_nat_eq_self)
    have p: "unat p < unat pend"
      using True by (simp add: word_less_nat_alt)
    have "unat ?q = unat p + (if m p = 0 then 1 else 0) + 2 + unat (ucast (m (p + 1)) :: u32)"
      using p len assms by (simp add: unat_word_ariths)
    then have "unat pend - unat ?q < unat pend - unat p"
      using p by simp
    then have "dhcp_options m ?q pend log' \<noteq> None" for log'
      by (rule less)
    then show ?thesis
      by (subst dhcp_options.simps) (simp add: Let_def)
  next
    case False
    then show ?thesis
      by (subst dhcp_options.simps) simp
  qed
qed

text \<open>
  What is enough for a handler to return: the packet has an even address, at most 65535 bytes and
  an interface whose hardware address is an Ethernet address, and only Ethernet is asked to send
  without a source address.
\<close>

definition packet_sound :: "net \<Rightarrow> net_packet \<Rightarrow> bool" where
  "packet_sound st pk \<longleftrightarrow> pk_start pk AND 1 = 0 \<and> unat (pk_len pk) \<le> 65535 \<and> pk_iface pk \<noteq> 0 \<and>
     (\<exists>i. the_iface st (pk_iface pk) = Some i \<and> na_type (if_hw_addr i) = Na_ethernet)"

fun action_sound :: "net \<Rightarrow> net_action \<Rightarrow> bool" where
  "action_sound st (Return ret) = True"
| "action_sound st (Rx src dest pk) = packet_sound st pk"
| "action_sound st (Tx src' dest pk) =
     (packet_sound st pk \<and> (src' = None \<longrightarrow> net_protocol_get_driver (net_address_get_proto dest) st = Some eth_fns))"

lemma even_offset: "p AND 1 = 0 \<Longrightarrow> n AND 1 = 0 \<Longrightarrow> (p + n) AND 1 = 0 \<and> (p - n) AND 1 = 0" for p n :: u32
proof -
  assume "p AND 1 = 0" "n AND 1 = 0"
  then have "even p" "even n"
    by (simp_all add: and_one_eq even_iff_mod_2_eq_zero)
  then have "even (p + n)" "even (p - n)"
    by simp_all
  then show ?thesis
    by (simp add: and_one_eq even_iff_mod_2_eq_zero)
qed

lemma the_iface_put_nmem [simp]: "the_iface (put_nmem m st) p = the_iface st p" "the_iface (st\<lparr>rand_state := g\<rparr>) p = the_iface st p"
  by (simp_all add: put_nmem_def the_iface_def)

lemma the_iface_arp_cache_add [simp]: "the_iface (snd (arp_cache_add i h a st)) p = the_iface st p"
  by (auto simp: arp_cache_add_def the_iface_def split: option.splits)

lemma header_len: "unat (push_bit 2 (ucast (y :: u8)) :: u32) \<le> 65535"
  using u8_less [of y] by (simp add: push_bit_eq_mult unat_word_ariths unsigned_ucast_eq take_bit_nat_eq_self)

lemma net_rx_returns:
  assumes "packet_fits pk" "packet_sound st pk"
  shows "net_protocol_rx src dest pk st \<noteq> None"
proof -
  obtain i where i: "pk_start pk AND 1 = 0" "unat (pk_len pk) \<le> 65535" "the_iface st (pk_iface pk) = Some i" "na_type (if_hw_addr i) = Na_ethernet"
    using assms(2) by (auto simp: packet_sound_def)
  have ipv4: "ipv4_rx src dest pk st \<noteq> None"
    unfolding ipv4_rx_def Let_def by (auto simp: net_cksum_bytes [OF i(1) header_len] split: bind_splits prod.splits)
  have arp: "arp_rx src dest pk st \<noteq> None"
    unfolding arp_rx_def Let_def using i(3,4) by (auto simp: eth_get_addr_def split: bind_splits prod.splits)
  have icmp: "icmp_rx src dest pk st \<noteq> None"
    unfolding icmp_rx_def icmp_handle_echo_request_def Let_def by (auto simp: net_cksum_bytes [OF i(1,2)] split: bind_splits)
  have udp: "udp_rx src dest pk st \<noteq> None"
  proof (cases "net_packet_consume pk 8 = (- 22, pk)")
    case False
    then obtain pk' where pk': "net_packet_consume pk 8 = (0, pk')" "packet_fits pk'" "pk_iface pk' = pk_iface pk"
      using consume_cases [OF assms(1), of 8] by blast
    have "\<forall>log. \<exists>l. dhcp_options (nmem st) (pk_start pk' + 240) (pk_start pk' + pk_len pk') log = Some l"
      using pk'(2) dhcp_options_ends by (auto simp: packet_fits_def)
    then have "dhcp_rx pk' st \<noteq> None"
      unfolding dhcp_rx_def Let_def using i(3) pk'(3) by (auto split: bind_splits) (metis option.distinct(1))
    then show ?thesis
      using pk'(1) by (auto simp: udp_rx_def Let_def)
  qed (simp add: udp_rx_def Let_def)
  show ?thesis
    using ipv4 arp icmp udp unfolding net_protocol_rx_def
    by (auto simp: eth_rx_def tcp_rx_def Let_def split: option.splits rx_fn.splits prod.splits)
qed

lemma net_tx_returns: "the_iface st (pk_iface pk) \<noteq> None \<Longrightarrow> net_tx dw pk st \<noteq> None"
  by (auto simp: net_tx_def Let_def split: bind_splits)

lemma net_protocol_tx_returns:
  assumes "packet_fits pk" "packet_sound st pk" "src' = None \<longrightarrow> net_protocol_get_driver (net_address_get_proto dest) st = Some eth_fns"
  shows "net_protocol_tx dw src' dest pk st \<noteq> None"
proof -
  obtain i where i: "pk_start pk AND 1 = 0" "the_iface st (pk_iface pk) = Some i" "pk_iface pk \<noteq> 0"
    using assms(2) by (auto simp: packet_sound_def)
  have eth: "eth_tx dw src' dest pk st \<noteq> None"
  proof -
    obtain ret pk' where c: "net_packet_encapsulate pk Np_ethernet 14 = (ret, pk')"
      by fastforce
    then have "pk_iface pk' = pk_iface pk"
      by (auto simp: net_packet_encapsulate_def net_packet_insert_def split: if_splits)
    then have n: "\<exists>r s. net_tx dw pk' (put_nmem m st) = Some (r, s)" for m
      using net_tx_returns [of "put_nmem m st" pk' dw] i(2) by fastforce
    obtain src where "(case src' of None \<Rightarrow> map_option if_hw_addr (the_iface st (pk_iface pk)) | Some a \<Rightarrow> Some a) = Some src"
      using i(2) by (cases src') auto
    then show ?thesis
      unfolding eth_tx_def Let_def c using n by (auto split: bind_splits) (metis option.distinct(1))+
  qed
  have even: "(pk_start pk - 20) AND 1 = 0"
    using even_offset [OF i(1), of 20] by simp
  have ck: "net_cksum m (pk_start pk - 20) 20 = Some (inet_cksum (packet_bytes m (pk_start pk - 20) 20))" for m
    using net_cksum_bytes [OF even, of 20 m] by simp
  have ipv4: "ipv4_tx src' dest pk st \<noteq> None" if "src' \<noteq> None"
    using that i(2,3) ck insert_cases [OF assms(1), of 20] unfolding ipv4_tx_def Let_def
    by (auto split: bind_splits prod.splits option.splits sum.splits)
  have udp: "udp_tx src' dest pk st \<noteq> None" if "src' \<noteq> None"
    using that unfolding udp_tx_def Let_def by (auto split: prod.splits)
  show ?thesis
    using eth ipv4 udp assms(3) unfolding net_protocol_tx_def
    by (auto simp: eth_fns_def split: option.splits tx_fn.splits)
qed

lemma net_stuck_unsound: "action_fits a \<Longrightarrow> net_stuck dw a st \<Longrightarrow> \<not> action_sound st a"
proof (cases a)
  case (Rx src dest pk)
  assume "action_fits a" "net_stuck dw a st"
  then show ?thesis
    using net_rx_returns [of pk st src dest] by (auto simp: Rx net_stuck_def net_step_simps)
next
  case (Tx src' dest pk)
  assume "action_fits a" "net_stuck dw a st"
  then show ?thesis
    using net_protocol_tx_returns [of pk st src' dest dw] by (auto simp: Tx net_stuck_def net_step_simps)
qed (simp add: net_stuck_def)

text \<open>
  C14: Whatever drivers are registered, whatever the packet holds and whatever the device
  answers, the processing of a packet ends, and it calls at most as many handlers as the sum of
  the packet's length, the buffer's length and two: then either a value is returned, or the last
  handler called stops the kernel or follows a null pointer, because the packet is at an odd
  address, has more than 65535 bytes or no Ethernet interface, or there is no source address.
\<close>

theorem net_run_terminates:
  assumes "action_fits a"
  shows "\<exists>k a' st'. k \<le> weight a \<and> (net_step dw ^^ k) (a, st) (a', st') \<and>
    ((\<exists>ret. a' = Return ret \<and> net_run dw a st = Some (ret, st')) \<or> (net_stuck dw a' st' \<and> \<not> action_sound st' a' \<and> net_run dw a st = None))"
  using assms
proof (induction "weight a" arbitrary: a st rule: less_induct)
  case less
  show ?case
  proof (cases "\<exists>y. net_step dw (a, st) y")
    case True
    then obtain b st1 where b: "net_step dw (a, st) (b, st1)"
      by auto
    from net_step_weight [OF b less.prems] have w: "action_fits b" "weight b < weight a"
      by simp_all
    from less.hyps [OF w(2,1), of st1] obtain k a' st' where k: "k \<le> weight b" "(net_step dw ^^ k) (b, st1) (a', st')"
      "(\<exists>ret. a' = Return ret \<and> net_run dw b st1 = Some (ret, st')) \<or> (net_stuck dw a' st' \<and> \<not> action_sound st' a' \<and> net_run dw b st1 = None)"
      by blast
    have "(net_step dw ^^ Suc k) (a, st) (a', st')"
      using b k(2) by (rule relpowp_Suc_I2)
    then show ?thesis
      using k(1,3) w(2) net_run_step [OF b] by (intro exI [of _ "Suc k"] exI [of _ a'] exI [of _ st']) auto
  next
    case False
    have "(\<exists>ret. a = Return ret \<and> net_run dw a st = Some (ret, st)) \<or> (net_stuck dw a st \<and> \<not> action_sound st a \<and> net_run dw a st = None)"
      using False net_run_stuck net_stuck_unsound [OF less.prems] by (cases a) (auto simp: net_stuck_def)
    then show ?thesis
      by (intro exI [of _ 0] exI [of _ a] exI [of _ st]) simp
  qed
qed

section \<open>Frames from the network\<close>

text \<open>
  The drivers as the kernel registers them, and states whose addresses have the right types: the
  interfaces are Ethernet interfaces, and the entries in use of the ARP cache map IPv4 addresses
  to Ethernet addresses.
\<close>

fun std_fns :: "net_protocol \<Rightarrow> net_proto_fns" where
  "std_fns Np_ethernet = eth_fns"
| "std_fns Np_arp = arp_fns"
| "std_fns Np_ipv4 = ipv4_fns"
| "std_fns Np_icmp = icmp_fns"
| "std_fns Np_tcp = tcp_fns"
| "std_fns Np_udp = udp_fns"
| "std_fns Np_raw = raw_fns"
| "std_fns _ = net_proto_fns_struct_init"

definition net_typed :: "net \<Rightarrow> bool" where
  "net_typed st \<longleftrightarrow> (\<forall>(p, f) \<in> set (drivers st). f = std_fns p) \<and> net_protocol_get_driver Np_ethernet st \<noteq> None \<and>
     (\<forall>(p, i) \<in> set (g_ifaces st). p \<noteq> 0 \<and> if_proto i = Np_ethernet \<and> na_type (if_hw_addr i) = Na_ethernet) \<and>
     (case g_arp_cache st of None \<Rightarrow> True | Some c \<Rightarrow> length c = ARP_CACHE_SIZE \<and> (\<forall>p \<in> set c. arp_typed p))"

lemma net_typed_driver: "net_typed st \<Longrightarrow> net_protocol_get_driver p st = Some f \<Longrightarrow> f = std_fns p"
  unfolding net_typed_def net_protocol_get_driver_def using map_of_SomeD by fastforce

lemma net_typed_iface:
  "net_typed st \<Longrightarrow> the_iface st p = Some i \<Longrightarrow> p \<noteq> 0 \<and> if_proto i = Np_ethernet \<and> na_type (if_hw_addr i) = Na_ethernet"
  unfolding net_typed_def the_iface_def using map_of_SomeD by fastforce

text \<open>
  The effect of a handler on a frame in the buffer from \<open>b\<close> to \<open>e\<close>: it writes only there, and
  apart from the memory it changes only statistics, the ARP cache, the state of the random
  numbers, and the frames sent, of which each lies in the buffer, and what the DHCP client printed.
\<close>

definition iface_ids :: "net \<Rightarrow> (u32 \<times> u32 \<times> net_address \<times> net_address \<times> net_protocol) list" where
  "iface_ids st = map (\<lambda>(p, i). (p, if_dev i, if_hw_addr i, if_proto_addr i, if_proto i)) (g_ifaces st)"

definition net_effect :: "nat \<Rightarrow> nat \<Rightarrow> net \<Rightarrow> net \<Rightarrow> bool" where
  "net_effect b e st st' \<longleftrightarrow> modifies (nmem st) (nmem st') b e \<and> irq_enabled (net_mach st') = irq_enabled (net_mach st) \<and>
     preempt_count (net_mach st') = preempt_count (net_mach st) \<and> net_slab st' = net_slab st \<and> net_heap st' = net_heap st \<and> drivers st' = drivers st \<and> routes st' = routes st \<and>
     default_route st' = default_route st \<and> g_current_timestamp st' = g_current_timestamp st \<and> iface_ids st' = iface_ids st \<and>
     (g_arp_cache st' = None \<longleftrightarrow> g_arp_cache st = None)"

lemma net_effect_refl [simp]: "net_effect b e st st"
  by (simp add: net_effect_def)

lemma net_effect_trans: "net_effect b e st st1 \<Longrightarrow> net_effect b e st1 st2 \<Longrightarrow> net_effect b e st st2"
  unfolding net_effect_def by (auto intro: modifies_trans)

lemma net_effect_put: "modifies (nmem st) m b e \<Longrightarrow> net_effect b e st (put_nmem m st)"
  by (simp add: net_effect_def put_nmem_def iface_ids_def)

lemma net_effect_updates [simp]:
  "net_effect b e st (st\<lparr>dhcp_log := l\<rparr>)" "net_effect b e st (st\<lparr>rand_state := g\<rparr>)" "net_effect b e st (st\<lparr>sent := fs\<rparr>)"
  by (simp_all add: net_effect_def iface_ids_def)

lemma net_effect_stats [simp]: "net_effect b e st (update_stats p f st)"
  by (auto simp: net_effect_def update_stats_def update_iface_def iface_ids_def)

lemma net_effect_counters [simp]:
  "net_effect b e st (net_interface_stats_inc_rx_packets p st)" "net_effect b e st (net_interface_stats_add_rx_bytes p n st)"
  "net_effect b e st (net_interface_stats_inc_tx_packets p st)" "net_effect b e st (net_interface_stats_add_tx_bytes p n st)"
  "net_effect b e st (net_interface_stats_inc_cksum_err p st)" "net_effect b e st (net_interface_stats_inc_rx_dropped p st)"
  by (simp_all add: net_interface_stats_inc_rx_packets_def net_interface_stats_add_rx_bytes_def net_interface_stats_inc_tx_packets_def
      net_interface_stats_add_tx_bytes_def net_interface_stats_inc_cksum_err_def net_interface_stats_inc_rx_dropped_def)

lemma net_effect_arp_cache_add [simp]: "net_effect b e st (snd (arp_cache_add p h a st))"
  by (auto simp: arp_cache_add_def net_effect_def iface_ids_def update_arp_def split: option.splits)

text \<open>The writes of the handlers, at offsets of an address that stays in the buffer.\<close>

lemma modifies_store16_step:
  "modifies m m' lo hi \<Longrightarrow> lo \<le> x \<Longrightarrow> x + 2 \<le> hi \<Longrightarrow> hi \<le> 4294967296 \<Longrightarrow> modifies m (store16 m' (adr x) v) lo hi"
  by (rule modifies_trans, assumption, rule modifies_mono [OF modifies_store16]) auto

lemma modifies_upd_step:
  "modifies m m' lo hi \<Longrightarrow> lo \<le> x \<Longrightarrow> x + 1 \<le> hi \<Longrightarrow> hi \<le> 4294967296 \<Longrightarrow> modifies m (m'(adr x := v)) lo hi"
  by (rule modifies_trans, assumption, rule modifies_mono [OF modifies_upd]) auto

lemma modifies_store_mac_step:
  "modifies m m' lo hi \<Longrightarrow> lo \<le> x \<Longrightarrow> x + 6 \<le> hi \<Longrightarrow> hi \<le> 4294967296 \<Longrightarrow> modifies m (store_mac m' (adr x) v) lo hi"
  unfolding store_mac_def by (simp add: modifies_store16_step modifies_store32_step)

lemma modifies_write_ipv4_hdr_step:
  "modifies m m' lo hi \<Longrightarrow> lo \<le> x \<Longrightarrow> x + 20 \<le> hi \<Longrightarrow> hi \<le> 4294967296 \<Longrightarrow> modifies m (write_ipv4_hdr m' (adr x) t u v w y) lo hi"
  unfolding write_ipv4_hdr_def Let_def by (simp add: modifies_store16_step modifies_store32_step modifies_upd_step)

lemmas modifies_steps = modifies_store16_step modifies_store32_step modifies_upd_step modifies_store_mac_step modifies_write_ipv4_hdr_step

text \<open>
  A received frame lies in a buffer of \<open>n\<close> bytes at \<open>b\<close>; each handler sees it at the
  offset of its header, and with addresses of the types it expects.
\<close>

definition packet_at :: "nat \<Rightarrow> nat \<Rightarrow> nat \<Rightarrow> net \<Rightarrow> net_packet \<Rightarrow> bool" where
  "packet_at b n off st pk \<longleftrightarrow> pk_start pk = adr (b + off) \<and> off + unat (pk_len pk) \<le> n \<and> buf_len (pk_raw pk) = adr n \<and>
     the_iface st (pk_iface pk) \<noteq> None"

fun frame_phase :: "nat \<Rightarrow> nat \<Rightarrow> net \<Rightarrow> net_action \<Rightarrow> bool" where
  "frame_phase b n st (Return ret) = True"
| "frame_phase b n st (Rx src dest pk) =
     (pk_proto pk = Np_ethernet \<and> packet_at b n 0 st pk \<and> na_type src = Na_unknown \<or>
      pk_proto pk \<in> {Np_ipv4, Np_arp, Np_unknown} \<and> packet_at b n 14 st pk \<and> na_type src = Na_ethernet \<or>
      pk_proto pk \<in> {Np_tcp, Np_udp, Np_icmp, Np_unknown} \<and> packet_at b n 34 st pk \<and> na_type src = Na_ipv4 \<and> na_type dest = Na_ipv4)"
| "frame_phase b n st (Tx src' dest pk) =
     (na_type dest = Na_ethernet \<and> packet_at b n 14 st pk \<or>
      na_type dest = Na_ipv4 \<and> packet_at b n 34 st pk \<and> (\<exists>src. src' = Some src \<and> na_type src = Na_ipv4))"

definition buffer_ok :: "nat \<Rightarrow> nat \<Rightarrow> bool" where
  "buffer_ok b n \<longleftrightarrow> even b \<and> 38 \<le> n \<and> n \<le> 65535 \<and> b + n + 300 < 4294967296"

lemma packet_at_fits:
  assumes "buffer_ok b n" "packet_at b n off st pk" "even off"
  shows "packet_fits pk" "net_typed st \<Longrightarrow> packet_sound st pk"
proof -
  have n: "unat (buf_len (pk_raw pk)) = n" "unat (pk_len pk) \<le> n" "pk_start pk = adr (b + off)"
    using assms(1,2) by (auto simp: packet_at_def buffer_ok_def)
  have "unat (pk_start pk + pk_len pk) = b + off + unat (pk_len pk)"
    using assms(1,2) n(3) by (simp add: packet_at_def buffer_ok_def unat_word_ariths)
  then show "packet_fits pk"
    using n assms(1,2) by (simp add: packet_fits_def buffer_ok_def packet_at_def)
  assume t: "net_typed st"
  have "unat (pk_start pk) = b + off"
    using assms(1,2) n(3) by (simp add: packet_at_def buffer_ok_def)
  then have "pk_start pk AND 1 = 0"
    using word_odd_unat [of "pk_start pk"] assms(1,3) by (auto simp: buffer_ok_def)
  moreover obtain i where i: "the_iface st (pk_iface pk) = Some i"
    using assms(2) by (auto simp: packet_at_def)
  ultimately show "packet_sound st pk"
    using net_typed_iface [OF t i] i n(2) assms(1) by (auto simp: packet_sound_def buffer_ok_def)
qed

lemma frame_phase_sound:
  assumes "buffer_ok b n" "net_typed st" "frame_phase b n st a"
  shows "action_fits a \<and> action_sound st a"
proof (cases a)
  case (Rx src dest pk)
  then show ?thesis
    using assms packet_at_fits [OF assms(1), of 0 st pk] packet_at_fits [OF assms(1), of 14 st pk] packet_at_fits [OF assms(1), of 34 st pk]
    by auto
next
  case (Tx src' dest pk)
  have "net_protocol_get_driver Np_ethernet st = Some eth_fns"
    using assms(2) net_typed_driver [OF assms(2), of Np_ethernet] by (auto simp: net_typed_def)
  then show ?thesis
    using Tx assms packet_at_fits [OF assms(1), of 14 st pk] packet_at_fits [OF assms(1), of 34 st pk]
    by (auto simp: net_address_get_proto_def)
qed simp

lemma packet_at_proto [simp]:
  "packet_at b n off st (pk\<lparr>pk_proto := p\<rparr>) = packet_at b n off st pk"
  by (simp add: packet_at_def)

lemma packet_at_consume:
  assumes "packet_at b n off st pk" "net_packet_consume pk w = (0, pk')"
  shows "packet_at b n (off + unat w) st pk'"
proof -
  have c: "\<not> pk_len pk < w" "pk' = pk\<lparr>pk_start := pk_start pk + w, pk_len := pk_len pk - w\<rparr>"
    using assms(2) by (auto simp: net_packet_consume_def split: if_splits)
  have "adr (b + off) + w = adr (b + (off + unat w))"
    using adr_fold(5) [of "b + off" "unat w"] by (simp add: add.assoc)
  moreover have "unat (pk_len pk - w) + unat w = unat (pk_len pk)"
    using c(1) by (simp add: unat_sub word_le_nat_alt not_less)
  ultimately show ?thesis
    using assms(1) by (simp add: packet_at_def c(2))
qed

lemma packet_at_insert:
  assumes "buffer_ok b n" "packet_at b n off st pk" "net_packet_insert pk w = (0, pk')" "unat w \<le> off"
  shows "packet_at b n (off - unat w) st pk' \<and> pk_iface pk' = pk_iface pk \<and> pk_proto pk' = pk_proto pk \<and>
    unat (pk_len pk') = unat (pk_len pk) + unat w"
proof -
  have c: "pk' = pk\<lparr>pk_start := pk_start pk - w, pk_len := pk_len pk + w\<rparr>"
    using assms(3) by (auto simp: net_packet_insert_def split: if_splits)
  have "adr (b + off) - w = adr (b + (off - unat w))"
    using adr_diff [of "unat w" "b + off"] assms(4) by simp
  moreover have "unat (pk_len pk + w) = unat (pk_len pk) + unat w"
    using assms by (intro unat_add_lem [THEN iffD1]) (simp add: packet_at_def buffer_ok_def)
  ultimately show ?thesis
    using assms(2,4) by (auto simp: packet_at_def c)
qed

lemma the_iface_ids: "the_iface st p = None \<longleftrightarrow> p \<notin> fst ` set (iface_ids st)"
  unfolding the_iface_def iface_ids_def map_of_eq_None_iff by force

lemma packet_at_effect: "net_effect b' e st st' \<Longrightarrow> packet_at b n off st' pk = packet_at b n off st pk"
  by (simp add: packet_at_def the_iface_ids net_effect_def)

lemma net_typed_effect:
  assumes "net_typed st" "net_effect b e st st'" "g_arp_cache st' = g_arp_cache st"
  shows "net_typed st'"
proof -
  have ids: "(\<forall>(p, i) \<in> set (g_ifaces s). p \<noteq> 0 \<and> if_proto i = Np_ethernet \<and> na_type (if_hw_addr i) = Na_ethernet) \<longleftrightarrow>
    (\<forall>(p, d, h, a, q) \<in> set (iface_ids s). p \<noteq> 0 \<and> q = Np_ethernet \<and> na_type h = Na_ethernet)" for s
    by (force simp: iface_ids_def)
  show ?thesis
    using assms unfolding net_typed_def ids by (simp add: net_effect_def net_protocol_get_driver_def)
qed

lemma net_typed_arp_cache_add:
  assumes "net_typed st" "na_type h = Na_ethernet" "na_type a = Na_ipv4"
  shows "net_typed (snd (arp_cache_add p h a st))"
proof -
  have upd: "net_typed (update_arp k f st)" if "\<And>q. arp_typed q \<Longrightarrow> arp_typed (f q)" for k f
  proof (cases "g_arp_cache st")
    case (Some c)
    have "\<forall>q \<in> set (c[k := f (c ! k)]). arp_typed q"
    proof (cases "k < length c")
      case True
      then show ?thesis
        using assms(1) Some that [of "c ! k"] set_update_subset_insert [of c k "f (c ! k)"] by (fastforce simp: net_typed_def)
    next
      case False
      then show ?thesis
        using assms(1) Some by (simp add: net_typed_def list_update_beyond)
    qed
    then show ?thesis
      using assms(1) Some by (simp add: net_typed_def update_arp_def net_protocol_get_driver_def)
  next
    case None
    then show ?thesis
      using assms(1) by (simp add: net_typed_def update_arp_def net_protocol_get_driver_def)
  qed
  show ?thesis
    unfolding arp_cache_add_def using assms upd by (auto simp: arp_typed_def split: option.splits)
qed

lemma route_hw_addr_typed:
  assumes "net_typed st" "iface \<noteq> 0" "ipv4_route_get_hw_addr iface dest st = Inr d"
  shows "na_type d = Na_ethernet"
proof (cases "arp_cache_lookup iface dest st")
  case None
  then show ?thesis
    using assms(3) by (auto simp: ipv4_route_get_hw_addr_def eth_make_broadcast_addr_def eth_make_addr_def split: if_splits)
next
  case (Some i)
  then obtain c where c: "g_arp_cache st = Some c" "find_index (arp_hit st iface dest) c = Some i"
    by (auto simp: arp_cache_lookup_def split: option.splits)
  then have "i < length c" "arp_hit st iface dest (c ! i)"
    using find_index_cases [of "arp_hit st iface dest" c] by auto
  then show ?thesis
    using assms c Some by (auto simp: ipv4_route_get_hw_addr_def net_typed_def arp_hit_def arp_typed_def split: if_splits)
qed

text \<open>What holds after each step that started in \<open>st\<close>.\<close>

definition step_ok :: "nat \<Rightarrow> nat \<Rightarrow> net \<Rightarrow> net_action \<Rightarrow> net \<Rightarrow> bool" where
  "step_ok b n st a' st' \<longleftrightarrow> net_typed st' \<and> net_effect b (b + n) st st' \<and> frame_phase b n st' a' \<and>
     (sent st' = sent st \<or> (\<exists>ret. a' = Return ret) \<and>
       (\<exists>dev frame. sent st' = sent st @ [(dev, frame)] \<and> 14 \<le> length frame \<and> length frame \<le> n))"

lemma step_okI:
  "net_typed st' \<Longrightarrow> net_effect b (b + n) st st' \<Longrightarrow> frame_phase b n st' a' \<Longrightarrow> sent st' = sent st \<Longrightarrow> step_ok b n st a' st'"
  by (simp add: step_ok_def)

lemma sent_arp_cache_add [simp]: "sent (snd (arp_cache_add p h a st)) = sent st"
  by (simp add: arp_cache_add_def split: option.splits)

lemma stats_sel [simp]:
  "sent (net_interface_stats_inc_rx_packets p st) = sent st" "g_arp_cache (net_interface_stats_inc_rx_packets p st) = g_arp_cache st"
  "sent (net_interface_stats_add_rx_bytes p k st) = sent st" "g_arp_cache (net_interface_stats_add_rx_bytes p k st) = g_arp_cache st"
  "sent (net_interface_stats_inc_tx_packets p st) = sent st" "g_arp_cache (net_interface_stats_inc_tx_packets p st) = g_arp_cache st"
  "sent (net_interface_stats_add_tx_bytes p k st) = sent st" "g_arp_cache (net_interface_stats_add_tx_bytes p k st) = g_arp_cache st"
  "sent (net_interface_stats_inc_cksum_err p st) = sent st" "g_arp_cache (net_interface_stats_inc_cksum_err p st) = g_arp_cache st"
  "sent (net_interface_stats_inc_rx_dropped p st) = sent st" "g_arp_cache (net_interface_stats_inc_rx_dropped p st) = g_arp_cache st"
  by (simp_all add: net_interface_stats_inc_rx_packets_def net_interface_stats_add_rx_bytes_def net_interface_stats_inc_tx_packets_def
      net_interface_stats_add_tx_bytes_def net_interface_stats_inc_cksum_err_def net_interface_stats_inc_rx_dropped_def
      update_stats_def update_iface_def)

lemma put_nmem_sel [simp]: "rand_state (put_nmem m st) = rand_state st" "drivers (put_nmem m st) = drivers st" "sent (put_nmem m st) = sent st" "g_arp_cache (put_nmem m st) = g_arp_cache st" "nmem (put_nmem m st) = m"
  by (simp_all add: put_nmem_def)

lemma eth_rx_ok:
  assumes "net_typed st" "packet_at b n 0 st pk" "na_type src = Na_unknown" "eth_rx src dest pk st = Some (a', st')"
  shows "step_ok b n st a' st'"
proof (rule step_okI)
  show "frame_phase b n st' a'"
    using eth_rx_cases [OF assms(4)] assms(3) packet_at_consume [OF assms(2), of 14] by auto
qed (use eth_rx_cases [OF assms(4)] assms(1) in simp_all)

lemma ipv4_rx_ok:
  assumes "net_typed st" "packet_at b n 14 st pk" "na_type src = Na_ethernet" "ipv4_rx src dest pk st = Some (a', st')"
  shows "step_ok b n st a' st'"
proof -
  from ipv4_rx_cases [OF assms(4)] show ?thesis
  proof (elim disjE exE conjE)
    fix ret assume "a' = Return ret" "st' = st"
    then show ?thesis
      using assms(1) by (intro step_okI) simp_all
  next
    fix pk' s d p
    assume h: "net_packet_consume pk 20 = (0, pk')" "a' = Rx s d (pk'\<lparr>pk_proto := p\<rparr>)" "p \<in> {Np_tcp, Np_udp, Np_icmp, Np_unknown}"
      "na_type s = Na_ipv4" "na_type d = Na_ipv4" "st' = st"
    then show ?thesis
      using assms(1) packet_at_consume [OF assms(2), of 20] by (intro step_okI) auto
  next
    fix pk' s d p
    assume h: "net_packet_consume pk 20 = (0, pk')" "a' = Rx s d (pk'\<lparr>pk_proto := p\<rparr>)" "p \<in> {Np_tcp, Np_udp, Np_icmp, Np_unknown}"
      "na_type s = Na_ipv4" "na_type d = Na_ipv4" "st' = snd (arp_cache_add (pk_iface pk) src s st)"
    have "net_effect b (b + n) st st'"
      unfolding h(6) by simp
    then show ?thesis
      using h net_typed_arp_cache_add [OF assms(1,3) h(4)] packet_at_consume [OF assms(2) h(1)]
      by (intro step_okI) (auto simp: packet_at_effect [OF net_effect_arp_cache_add])
  qed
qed

lemma arp_rx_ok:
  assumes "buffer_ok b n" "net_typed st" "packet_at b n 14 st pk" "arp_rx src dest pk st = Some (a', st')"
  shows "step_ok b n st a' st'"
proof -
  from arp_rx_cases [OF assms(4)] show ?thesis
  proof (elim disjE exE conjE)
    fix ret assume "a' = Return ret" "st' = st"
    then show ?thesis
      using assms(2) by (intro step_okI) simp_all
  next
    fix hw pa ret
    assume "na_type hw = Na_ethernet" "na_type pa = Na_ipv4" "a' = Return ret" "st' = snd (arp_cache_add (pk_iface pk) hw pa st)"
    then show ?thesis
      using net_typed_arp_cache_add [OF assms(2)] by (intro step_okI) simp_all
  next
    fix hw pa u v w x
    assume h: "na_type hw = Na_ethernet" "na_type pa = Na_ipv4" "a' = Tx None hw pk" "28 \<le> pk_len pk"
      "st' = put_nmem (store_mac (store32 (store_mac (store32 (store16 (nmem st)
          (pk_start pk + 6) 2) (pk_start pk + 24) u) (pk_start pk + 18) v) (pk_start pk + 14) w) (pk_start pk + 8) x)
          (snd (arp_cache_add (pk_iface pk) hw pa st))" (is "st' = put_nmem ?m ?st1")
    have p: "pk_start pk = adr (b + 14)" "b + 42 \<le> b + n" "b + n \<le> 4294967296"
      using assms(1,3) h(4) by (auto simp: packet_at_def buffer_ok_def word_le_nat_alt)
    have m1: "nmem ?st1 = nmem st"
      by (simp add: arp_cache_add_def split: option.splits)
    have "modifies (nmem ?st1) ?m b (b + n)"
      unfolding m1 p(1) using p(2,3) by (simp add: modifies_steps)
    then have e1: "net_effect b (b + n) ?st1 st'"
      unfolding h(5) by (rule net_effect_put)
    have e: "net_effect b (b + n) st st'"
      by (rule net_effect_trans [OF net_effect_arp_cache_add e1])
    have "net_typed st'"
      by (rule net_typed_effect [OF net_typed_arp_cache_add [OF assms(2) h(1,2)] e1]) (simp add: h(5))
    then show ?thesis
      using e h(1,3) packet_at_effect [OF e] assms(3) by (intro step_okI) (simp_all add: h(5))
  qed
qed

lemma icmp_rx_ok:
  assumes "buffer_ok b n" "net_typed st" "packet_at b n 34 st pk" "na_type src = Na_ipv4" "na_type dest = Na_ipv4"
    "icmp_rx src dest pk st = Some (a', st')"
  shows "step_ok b n st a' st'"
proof -
  from icmp_rx_cases [OF assms(6)] show ?thesis
  proof (elim disjE exE conjE)
    fix ret assume "a' = Return ret" "st' = st"
    then show ?thesis
      using assms(2) by (intro step_okI) simp_all
  next
    fix ret
    assume h: "a' = Return ret" "st' = net_interface_stats_inc_rx_dropped (pk_iface pk) (net_interface_stats_inc_cksum_err (pk_iface pk) st)"
    have e: "net_effect b (b + n) st st'"
      unfolding h(2) by (rule net_effect_trans [OF net_effect_counters(5) net_effect_counters(6)])
    show ?thesis
      using h net_typed_effect [OF assms(2) e] e by (intro step_okI) simp_all
  next
    fix c
    assume h: "a' = Tx (Some dest) src pk"
      "st' = put_nmem (store16 ((store16 (nmem st) (pk_start pk + 2) 0)(pk_start pk := 0)) (pk_start pk + 2) c) st"
    have p: "pk_start pk = adr (b + 34)" "b + 38 \<le> b + n" "b + n \<le> 4294967296"
      using assms(1,3) by (auto simp: packet_at_def buffer_ok_def)
    have e: "net_effect b (b + n) st st'"
      unfolding h(2) p(1) using p(2,3) by (intro net_effect_put) (simp add: modifies_steps)
    show ?thesis
      using h assms(3-5) net_typed_effect [OF assms(2) e] e packet_at_effect [OF e] by (intro step_okI) simp_all
  qed
qed

lemma udp_rx_ok:
  assumes "net_typed st" "udp_rx src dest pk st = Some (a', st')"
  shows "step_ok b n st a' st'"
proof -
  obtain ret log where h: "a' = Return ret" "st' = st \<or> st' = st\<lparr>dhcp_log := log\<rparr>"
    using udp_rx_cases [OF assms(2)] by blast
  then have e: "net_effect b (b + n) st st'" "g_arp_cache st' = g_arp_cache st" "sent st' = sent st"
    by auto
  then show ?thesis
    using h net_typed_effect [OF assms(1) e(1,2)] by (intro step_okI) simp_all
qed

lemma eth_tx_ok:
  assumes "buffer_ok b n" "net_typed st" "packet_at b n 14 st pk" "eth_tx dw src' dest pk st = Some (a', st')"
  shows "step_ok b n st a' st'"
proof -
  obtain ret where r: "a' = Return ret" and c: "st' = st \<or>
    (\<exists>pk' m u v w. net_packet_insert (pk\<lparr>pk_proto := Np_ethernet\<rparr>) 14 = (0, pk') \<and>
       (m = store16 (nmem st) (pk_start pk' + 12) u \<or>
        m = store_mac (store_mac (store16 (nmem st) (pk_start pk' + 12) u) (pk_start pk' + 6) v) (pk_start pk') w) \<and>
       (st' = put_nmem m st \<or> net_tx dw pk' (put_nmem m st) = Some (ret, st')))"
    using eth_tx_cases [OF assms(4)] by blast
  show ?thesis
  proof (cases "st' = st")
    case True
    then show ?thesis
      using assms(2) r by (intro step_okI) simp_all
  next
    case False
    then obtain pk' m u v w where h: "a' = Return ret" "net_packet_insert (pk\<lparr>pk_proto := Np_ethernet\<rparr>) 14 = (0, pk')"
      "m = store16 (nmem st) (pk_start pk' + 12) u \<or>
       m = store_mac (store_mac (store16 (nmem st) (pk_start pk' + 12) u) (pk_start pk' + 6) v) (pk_start pk') w"
      and d: "st' = put_nmem m st \<or> net_tx dw pk' (put_nmem m st) = Some (ret, st')"
      using c r by blast
    have p': "packet_at b n 0 st pk'" "unat (pk_len pk') = unat (pk_len pk) + 14"
      using packet_at_insert [OF assms(1) _ h(2), of 14 st] assms(3) by auto
    then have p: "pk_start pk' = adr b" "b + 14 \<le> b + n" "b + n \<le> 4294967296" "unat (pk_len pk') \<le> n"
      using assms(1) by (auto simp: packet_at_def buffer_ok_def)
    have "modifies (nmem st) m b (b + n)"
      using h(3) p(2,3) unfolding p(1) by (auto simp: modifies_steps)
    then have e: "net_effect b (b + n) st (put_nmem m st)"
      by (rule net_effect_put)
    have t: "net_typed (put_nmem m st)"
      by (rule net_typed_effect [OF assms(2) e]) simp
    show ?thesis
      using d
    proof
      assume "st' = put_nmem m st"
      then show ?thesis
        using h(1) e t by (intro step_okI) simp_all
    next
      assume "net_tx dw pk' (put_nmem m st) = Some (ret, st')"
      from net_tx_cases [OF this] show ?thesis
      proof (elim disjE exE conjE)
        assume "st' = put_nmem m st"
        then show ?thesis
          using h(1) e t by (intro step_okI) simp_all
      next
        fix i
        let ?frame = "packet_bytes (nmem (put_nmem m st)) (pk_start pk') (pk_len pk')"
        assume s: "st' = (net_interface_stats_add_tx_bytes (pk_iface pk') (pk_len pk') (net_interface_stats_inc_tx_packets (pk_iface pk') (put_nmem m st)))
            \<lparr>sent := sent (put_nmem m st) @ [(if_dev i, ?frame)]\<rparr>"
        have "net_effect b (b + n) (put_nmem m st) st'"
          unfolding s by (rule net_effect_trans [OF net_effect_counters(3) net_effect_trans [OF net_effect_counters(4) net_effect_updates(3)]])
        moreover from this have "net_typed st'"
          by (rule net_typed_effect [OF t]) (simp add: s)
        ultimately show ?thesis
          using h(1) net_effect_trans [OF e] p'(2) p(4) unfolding step_ok_def
          by (auto simp: s)
      qed
    qed
  qed
qed

lemma ipv4_tx_ok:
  assumes "buffer_ok b n" "net_typed st" "packet_at b n 34 st pk" "ipv4_tx src' dest pk st = Some (a', st')"
  shows "step_ok b n st a' st'"
proof -
  from ipv4_tx_cases [OF assms(4)] show ?thesis
  proof (elim disjE conjE, goal_cases)
    case 1
    then show ?case
      using assms(2) by (auto intro: step_okI)
  next
    case 2
    then obtain pk' g t u v w x c where h: "net_packet_insert pk 20 = (0, pk')"
      "st' = put_nmem (store16 (write_ipv4_hdr (nmem st) (pk_start pk') t u v w x) (pk_start pk' + 10) c) (st\<lparr>rand_state := g\<rparr>)"
      "(\<exists>ret. a' = Return ret) \<or> (\<exists>iface i d. a' = Tx (Some (if_hw_addr i)) d (pk'\<lparr>pk_proto := Np_ipv4, pk_iface := iface\<rparr>) \<and>
         (pk_iface pk \<noteq> 0 \<longrightarrow> iface = pk_iface pk) \<and> the_iface st iface = Some i \<and> ipv4_route_get_hw_addr iface dest st' = Inr d)"
      by blast
    have p': "packet_at b n 14 st pk'" "pk_iface pk' = pk_iface pk"
      using packet_at_insert [OF assms(1,3) h(1)] by auto
    have "pk_start pk' = adr (b + 14)" "b + 38 \<le> b + n" "b + n \<le> 4294967296"
      using p' assms(1) by (auto simp: packet_at_def buffer_ok_def)
    then have m: "modifies (nmem st) (store16 (write_ipv4_hdr (nmem st) (pk_start pk') t u v w x) (pk_start pk' + 10) c) b (b + n)"
      by (simp add: modifies_steps)
    have e: "net_effect b (b + n) st st'"
      unfolding h(2) by (rule net_effect_trans [OF net_effect_updates(2) net_effect_put]) (use m in simp)
    have t: "net_typed st'"
      by (rule net_typed_effect [OF assms(2) e]) (simp add: h(2))
    have s: "sent st' = sent st"
      by (simp add: h(2))
    from h(3) show ?case
    proof
      assume "\<exists>ret. a' = Return ret"
      then show ?thesis
        using e t s by (auto intro: step_okI)
    next
      assume "\<exists>iface i d. a' = Tx (Some (if_hw_addr i)) d (pk'\<lparr>pk_proto := Np_ipv4, pk_iface := iface\<rparr>) \<and>
         (pk_iface pk \<noteq> 0 \<longrightarrow> iface = pk_iface pk) \<and> the_iface st iface = Some i \<and> ipv4_route_get_hw_addr iface dest st' = Inr d"
      then obtain iface i d where d: "a' = Tx (Some (if_hw_addr i)) d (pk'\<lparr>pk_proto := Np_ipv4, pk_iface := iface\<rparr>)"
         "pk_iface pk \<noteq> 0 \<longrightarrow> iface = pk_iface pk" "the_iface st iface = Some i" "ipv4_route_get_hw_addr iface dest st' = Inr d"
        by blast
      have "iface = pk_iface pk"
        using assms(3) d(2) net_typed_iface [OF assms(2), of "pk_iface pk"] by (auto simp: packet_at_def)
      moreover have "na_type d = Na_ethernet"
        using route_hw_addr_typed [OF t _ d(4)] net_typed_iface [OF assms(2) d(3)] by simp
      moreover have "packet_at b n 14 st (pk'\<lparr>pk_proto := Np_ipv4, pk_iface := pk_iface pk\<rparr>)"
        using p' by (simp add: packet_at_def)
      ultimately show ?thesis
        using e t s d(1) packet_at_effect [OF e] by (intro step_okI) auto
    qed
  qed
qed

lemma frame_step_ok:
  assumes "buffer_ok b n" "net_typed st" "frame_phase b n st a" "net_step dw (a, st) (a', st')"
  shows "step_ok b n st a' st'"
  using assms(4)
proof (cases rule: net_step.cases)
  case (rx src dest pk)
  have none: ?thesis if "net_protocol_get_driver (pk_proto pk) st = None \<or> pk_proto pk = Np_unknown"
  proof -
    have "\<exists>ret. a' = Return ret" "st' = st"
      using rx(2) that net_typed_driver [OF assms(2), of Np_unknown]
      by (auto simp: net_protocol_rx_def net_proto_fns_struct_init_def split: option.splits)
    then show ?thesis
      using assms(2) by (auto intro: step_okI)
  qed
  show ?thesis
  proof (cases "net_protocol_get_driver (pk_proto pk) st")
    case (Some drv)
    then have drv: "drv = std_fns (pk_proto pk)"
      by (rule net_typed_driver [OF assms(2)])
    show ?thesis
      using assms(3) unfolding rx(1) frame_phase.simps
    proof (elim disjE conjE)
      assume "pk_proto pk = Np_ethernet" "packet_at b n 0 st pk" "na_type src = Na_unknown"
      then show ?thesis
        using rx(2) Some drv by (intro eth_rx_ok [OF assms(2)]) (auto simp: net_protocol_rx_def eth_fns_def)
    next
      assume "pk_proto pk \<in> {Np_ipv4, Np_arp, Np_unknown}" and h: "packet_at b n 14 st pk" "na_type src = Na_ethernet"
      then consider "pk_proto pk = Np_ipv4" | "pk_proto pk = Np_arp" | "pk_proto pk = Np_unknown"
        by auto
      then show ?thesis
      proof cases
        case 1
        then show ?thesis
          using h rx(2) Some drv by (intro ipv4_rx_ok [OF assms(2)]) (auto simp: net_protocol_rx_def ipv4_fns_def)
      next
        case 2
        then show ?thesis
          using h rx(2) Some drv by (intro arp_rx_ok [OF assms(1,2)]) (auto simp: net_protocol_rx_def arp_fns_def)
      qed (simp add: none)
    next
      assume "pk_proto pk \<in> {Np_tcp, Np_udp, Np_icmp, Np_unknown}" and h: "packet_at b n 34 st pk" "na_type src = Na_ipv4" "na_type dest = Na_ipv4"
      then consider "pk_proto pk = Np_tcp" | "pk_proto pk = Np_udp" | "pk_proto pk = Np_icmp" | "pk_proto pk = Np_unknown"
        by auto
      then show ?thesis
      proof cases
        case 1
        then have "a' = Return 0" "st' = st"
          using rx(2) Some drv by (auto simp: net_protocol_rx_def tcp_fns_def tcp_rx_def)
        then show ?thesis
          using assms(2) by (intro step_okI) simp_all
      next
        case 2
        then show ?thesis
          using rx(2) Some drv by (intro udp_rx_ok [OF assms(2)]) (auto simp: net_protocol_rx_def udp_fns_def)
      next
        case 3
        then show ?thesis
          using h rx(2) Some drv by (intro icmp_rx_ok [OF assms(1,2)]) (auto simp: net_protocol_rx_def icmp_fns_def)
      qed (simp add: none)
    qed
  qed (simp add: none)
next
  case (tx src' dest pk)
  show ?thesis
  proof (cases "net_protocol_get_driver (net_address_get_proto dest) st")
    case None
    then have "a' = Return (- 93)" "st' = st"
      using tx(2) by (simp_all add: net_protocol_tx_def)
    then show ?thesis
      using assms(2) by (intro step_okI) simp_all
  next
    case (Some drv)
    then have drv: "drv = std_fns (net_address_get_proto dest)"
      by (rule net_typed_driver [OF assms(2)])
    show ?thesis
      using assms(3) unfolding tx(1) frame_phase.simps
    proof (elim disjE conjE)
      assume "na_type dest = Na_ethernet" "packet_at b n 14 st pk"
      then show ?thesis
        using tx(2) Some drv by (intro eth_tx_ok [OF assms(1,2)]) (auto simp: net_protocol_tx_def eth_fns_def net_address_get_proto_def)
    next
      assume "na_type dest = Na_ipv4" "packet_at b n 34 st pk"
      then show ?thesis
        using tx(2) Some drv by (intro ipv4_tx_ok [OF assms(1,2)]) (auto simp: net_protocol_tx_def ipv4_fns_def net_address_get_proto_def)
    qed
  qed
qed

lemma net_run_frame:
  assumes "buffer_ok b n" "net_typed st" "frame_phase b n st a"
  shows "\<exists>ret st'. net_run dw a st = Some (ret, st') \<and> step_ok b n st (Return ret) st'"
  using assms(2,3)
proof (induction "weight a" arbitrary: a st rule: less_induct)
  case less
  note sound = frame_phase_sound [OF assms(1) less.prems]
  show ?case
  proof (cases "\<exists>y. net_step dw (a, st) y")
    case True
    then obtain a' st' where s: "net_step dw (a, st) (a', st')"
      by auto
    note ok = frame_step_ok [OF assms(1) less.prems s]
    have "weight a' < weight a"
      using net_step_weight [OF s] sound by simp
    then obtain ret st2 where r: "net_run dw a' st' = Some (ret, st2)" "step_ok b n st' (Return ret) st2"
      using less.hyps [of a' st'] ok by (auto simp: step_ok_def)
    have "\<nexists>y. net_step dw (Return ret', st) y" for ret' st
      by (simp add: net_step_simps)
    then have "step_ok b n st (Return ret) st2"
      using ok r by (cases a') (auto simp: step_ok_def dest: net_effect_trans)
    then show ?thesis
      using r net_run_step [OF s] by simp
  next
    case False
    then have "\<not> net_stuck dw a st"
      using net_stuck_unsound sound by blast
    then obtain ret where "a = Return ret"
      using False by (auto simp: net_stuck_def)
    then show ?thesis
      using less.prems(1) by (auto intro: step_okI)
  qed
qed

text \<open>
  C13: Types are preserved and guarantee progress: when a frame in a sound buffer is processed in
  a well-typed state, every state on the way is well-typed (Ethernet interfaces, ARP entries from
  IPv4 to Ethernet addresses), every handler is called with addresses of the types and with a
  packet at the offset it expects, and a handler that is called returns.
\<close>

theorem net_types_sound:
  assumes "buffer_ok b n" "net_typed st" "frame_phase b n st a" "(net_step dw)\<^sup>*\<^sup>* (a, st) (a', st')"
  shows "net_typed st' \<and> frame_phase b n st' a' \<and> ((\<exists>ret. a' = Return ret) \<or> (\<exists>y. net_step dw (a', st') y))"
proof -
  from assms(4) have "net_typed st' \<and> frame_phase b n st' a'"
  proof (induction rule: rtranclp_induct2)
    case refl
    then show ?case
      using assms(2,3) by simp
  next
    case (step a1 st1 a2 st2)
    then show ?case
      using frame_step_ok [OF assms(1) _ _ step(2)] by (simp add: step_ok_def)
  qed
  then show ?thesis
    using frame_phase_sound [OF assms(1)] net_stuck_unsound unfolding net_stuck_def by blast
qed

lemma net_effect_frame:
  assumes "net_effect b e st st'"
  shows "st' = st\<lparr>net_mach := (net_mach st)\<lparr>ram := nmem st'\<rparr>, g_ifaces := g_ifaces st', g_arp_cache := g_arp_cache st',
    rand_state := rand_state st', sent := sent st', dhcp_log := dhcp_log st'\<rparr>"
  using assms by (intro net.equality) (simp_all add: net_effect_def)

text \<open>
  C12: \<^verbatim>\<open>net_interface_rx\<close> returns for every frame the device delivers into the packet
  buffer, however malformed and whatever the device does with the replies.  Of the memory it writes
  only the packet buffer.  It sends at most one frame, of at most the length of the buffer.  Of
  the other state it may change the statistics of the interfaces, entries of the ARP cache, which
  keeps its size and the types of its addresses, the state of the random numbers and the log of
  DHCP; everything else is as before: the interfaces apart from their statistics, the protocol
  drivers, the routes, both allocators, the clock, and the interrupt and preemption state.
\<close>

theorem net_receive_safe:
  assumes "net_typed st" "the_iface st iface = Some i" "buffer_ok b n"
    and "buf_data (pk_raw pk) = adr b" "buf_len (pk_raw pk) = adr n"
    and "\<And>frame. dr (if_dev i) (adr n) = Inr frame \<Longrightarrow> length frame \<le> n"
  shows "\<exists>ret st'. net_interface_rx dw dr src dest iface pk st = Some (ret, st') \<and> net_typed st' \<and>
    modifies (nmem st) (nmem st') b (b + n) \<and>
    st' = st\<lparr>net_mach := (net_mach st)\<lparr>ram := nmem st'\<rparr>, g_ifaces := g_ifaces st', g_arp_cache := g_arp_cache st',
      rand_state := rand_state st', sent := sent st', dhcp_log := dhcp_log st'\<rparr> \<and>
    iface_ids st' = iface_ids st \<and> (g_arp_cache st' = None \<longleftrightarrow> g_arp_cache st = None) \<and>
    (sent st' = sent st \<or> (\<exists>dev frame. sent st' = sent st @ [(dev, frame)] \<and> 14 \<le> length frame \<and> length frame \<le> n))"
proof -
  have run: "\<exists>ret st'. net_interface_rx dw dr src dest iface pk st = Some (ret, st') \<and> step_ok b n st (Return ret) st'"
  proof (cases "dr (if_dev i) (buf_len (pk_raw pk))")
    case (Inl ret)
    then show ?thesis
      using assms(1,2) by (auto simp: net_interface_rx_def net_packet_reset_def intro: step_okI)
  next
    case (Inr frame)
    have len: "length frame \<le> n" "b + n < 4294967296" "n \<le> 65535"
      using assms(3) assms(6) [of frame] Inr assms(5) by (auto simp: buffer_ok_def)
    let ?m = "write_bytes frame (adr b) (nmem st)"
    let ?st1 = "net_interface_stats_add_rx_bytes iface (adr (length frame)) (put_nmem ?m st)"
    let ?pk = "pk\<lparr>pk_start := adr b, pk_iface := iface, pk_proto := Np_ethernet, pk_len := adr (length frame)\<rparr>"
    have "modifies (nmem st) ?m b (b + n)"
      by (rule modifies_mono [OF conjunct1 [OF write_bytes_spec]]) (use len in simp_all)
    then have e: "net_effect b (b + n) st ?st1"
      by (rule net_effect_trans [OF net_effect_put net_effect_counters(2)])
    have t: "net_typed ?st1"
      by (rule net_typed_effect [OF assms(1) e]) simp
    have "packet_at b n 0 ?st1 ?pk"
      using len assms(2,5) packet_at_effect [OF e, of b n 0 ?pk] by (simp add: packet_at_def)
    then have "frame_phase b n ?st1 (Rx (src\<lparr>na_type := Na_unknown\<rparr>) d ?pk)" for d
      by simp
    then obtain ret st2 where r: "net_run dw (Rx (src\<lparr>na_type := Na_unknown\<rparr>) (dest\<lparr>na_type := Na_unknown\<rparr>) ?pk) ?st1 = Some (ret, st2)"
      "step_ok b n ?st1 (Return ret) st2"
      using net_run_frame [OF assms(3) t] by blast
    let ?st3 = "if ret = 0 then net_interface_stats_inc_rx_packets iface st2
      else net_interface_stats_inc_rx_dropped iface (if ret = - 504 then net_interface_stats_inc_cksum_err iface st2 else st2)"
    have "net_interface_rx dw dr src dest iface pk st = Some (ret, ?st3)"
      using assms(2,4,5) Inr r(1) len net_typed_iface [OF assms(1,2)]
      by (simp add: net_interface_rx_def net_packet_reset_def net_packet_set_len_def net_address_set_type_def Let_def word_less_nat_alt)
    moreover have e3: "net_effect b (b + n) st2 ?st3"
      using net_effect_trans [OF net_effect_counters(5) net_effect_counters(6)] by simp
    moreover have "net_typed ?st3"
      by (rule net_typed_effect [OF _ e3]) (use r(2) in \<open>auto simp: step_ok_def\<close>)
    moreover have "sent ?st3 = sent st2" "sent ?st1 = sent st"
      by auto
    ultimately show ?thesis
      using r(2) net_effect_trans [OF net_effect_trans [OF e] e3] unfolding step_ok_def by auto
  qed
  then obtain ret st' where r: "net_interface_rx dw dr src dest iface pk st = Some (ret, st')"
    "net_typed st'" "net_effect b (b + n) st st'"
    "sent st' = sent st \<or> (\<exists>dev frame. sent st' = sent st @ [(dev, frame)] \<and> 14 \<le> length frame \<and> length frame \<le> n)"
    by (auto simp: step_ok_def)
  have "modifies (nmem st) (nmem st') b (b + n)" "iface_ids st' = iface_ids st" "g_arp_cache st' = None \<longleftrightarrow> g_arp_cache st = None"
    using r(3) by (auto simp: net_effect_def)
  then show ?thesis
    by (intro exI [of _ ret] exI [of _ st'] conjI r(1,2,4) net_effect_frame [OF r(3)])
qed

section \<open>Example\<close>

text \<open>All protocols registered, one Ethernet interface with the address 192.168.1.1, an empty ARP cache.\<close>

definition lan_sample :: net where
  "lan_sample = \<lparr>net_mach = \<lparr>ram = \<lambda>_. 0, irq_enabled = True, preempt_count = 1\<rparr>, net_slab = slab_init 1024 2048, net_heap = big_ctxs,
     g_ifaces = [(64, \<lparr>if_dev = 128, if_hw_addr = eth_make_addr 0x20304050607, if_proto_addr = ipv4_make_addr 0xc0a80101 0,
       if_stats = \<lparr>rx_packets = 0, rx_bytes = 0, rx_checksum_err = 0, rx_dropped = 0, tx_packets = 0, tx_bytes = 0\<rparr>, if_proto = Np_ethernet\<rparr>)],
     drivers = [(Np_arp, arp_fns), (Np_icmp, icmp_fns), (Np_ipv4, ipv4_fns), (Np_ethernet, eth_fns), (Np_tcp, tcp_fns), (Np_udp, udp_fns), (Np_raw, raw_fns)],
     g_arp_cache = Some (replicate 16 \<lparr>ai_iface = 0, ai_hw_addr = \<lparr>na_addr = 0, na_type = Na_unknown\<rparr>,
       ai_proto_addr = \<lparr>na_addr = 0, na_type = Na_unknown\<rparr>, ai_etime = 0\<rparr>),
     routes = [], default_route = 0, g_current_timestamp = 1000, rand_state = 1, sent = [], dhcp_log = []\<rparr>"

lemma lan_sample_typed: "net_typed lan_sample"
  by (simp add: net_typed_def lan_sample_def net_protocol_get_driver_def ARP_CACHE_SIZE_def arp_typed_def eth_make_addr_def)

lemma lan_sample_iface: "the_iface lan_sample 64 \<noteq> None"
  by (simp add: lan_sample_def the_iface_def)

definition packet_sample :: net_packet where
  "packet_sample = \<lparr>pk_iface = 64, pk_proto = Np_ethernet, pk_start = 8192, pk_len = 60, pk_raw = \<lparr>buf_len = 1500, buf_data = 8192\<rparr>\<rparr>"

lemma packet_sample_phase: "frame_phase 8192 1500 lan_sample (Rx \<lparr>na_addr = 0, na_type = Na_unknown\<rparr> d packet_sample)"
  using lan_sample_iface by (simp add: packet_sample_def packet_at_def)

theorem net_run_terminates_witness:
  "\<exists>k a' st'. k \<le> 1562 \<and>
     (net_step (\<lambda>_ _. 0) ^^ k) (Rx \<lparr>na_addr = 0, na_type = Na_unknown\<rparr> \<lparr>na_addr = 0, na_type = Na_unknown\<rparr> packet_sample, lan_sample) (a', st')"
proof -
  have "action_fits (Rx \<lparr>na_addr = 0, na_type = Na_unknown\<rparr> \<lparr>na_addr = 0, na_type = Na_unknown\<rparr> packet_sample)"
    by (simp add: packet_sample_def packet_fits_def)
  from net_run_terminates [OF this, of "\<lambda>_ _. 0" lan_sample] show ?thesis
    by (auto simp: packet_sample_def)
qed

theorem net_types_sound_witness:
  "\<exists>y. net_step (\<lambda>_ _. 0) (Rx \<lparr>na_addr = 0, na_type = Na_unknown\<rparr> \<lparr>na_addr = 0, na_type = Na_unknown\<rparr> packet_sample, lan_sample) y"
proof -
  have "buffer_ok 8192 1500"
    by (simp add: buffer_ok_def)
  from net_types_sound [OF this lan_sample_typed packet_sample_phase rtranclp.rtrancl_refl] show ?thesis
    by blast
qed

theorem net_receive_safe_witness:
  "\<exists>ret st'. net_interface_rx (\<lambda>_ _. 0) (\<lambda>_ _. Inr (replicate 60 0xff)) \<lparr>na_addr = 0, na_type = Na_unknown\<rparr>
     \<lparr>na_addr = 0, na_type = Na_unknown\<rparr> 64 packet_sample lan_sample = Some (ret, st') \<and>
   modifies (nmem lan_sample) (nmem st') 8192 9692"
proof -
  obtain i where "the_iface lan_sample 64 = Some i"
    using lan_sample_iface by auto
  moreover have "buffer_ok 8192 1500" "buf_data (pk_raw packet_sample) = adr 8192" "buf_len (pk_raw packet_sample) = adr 1500"
    by (simp_all add: buffer_ok_def packet_sample_def)
  moreover have "length frame \<le> 1500" if "Inr (replicate 60 0xff) = (Inr frame :: int + u8 list)" for frame
    using that by auto
  ultimately show ?thesis
    using net_receive_safe [OF lan_sample_typed, of 64 i 8192 1500 packet_sample "\<lambda>_ _. Inr (replicate 60 0xff)" "\<lambda>_ _. 0"] by fastforce
qed

end
