(* ===== verification/Net_Ping.thy ===== *)
theory Net_Ping
  imports Net_Rx
begin

text \<open>
  The exact answer to an echo request: the frame that is sent, byte by byte, computed from the
  frame that was received, through all handlers of the receive and the transmit path.
\<close>

section \<open>Frames\<close>

definition eth_frame :: "48 word \<Rightarrow> 48 word \<Rightarrow> u16 \<Rightarrow> u8 list \<Rightarrow> u8 list" where
  "eth_frame dmac smac ety payload = be48 dmac @ be48 smac @ be16 ety @ payload"

text \<open>A header of five words: service, length, identification, fragment, time to live, protocol, checksum, addresses.\<close>

definition ip_header :: "u8 \<Rightarrow> u16 \<Rightarrow> u16 \<Rightarrow> u16 \<Rightarrow> u8 \<Rightarrow> u8 \<Rightarrow> u16 \<Rightarrow> u32 \<Rightarrow> u32 \<Rightarrow> u8 list" where
  "ip_header tos tlen ident frag ttl proto ck s d =
     [0x45] @ [tos] @ be16 tlen @ be16 ident @ be16 frag @ [ttl] @ [proto] @ be16 ck @ be32 s @ be32 d"

definition echo_msg :: "u8 \<Rightarrow> u16 \<Rightarrow> u8 list \<Rightarrow> u8 list" where
  "echo_msg typ ck rest = [typ] @ [0] @ be16 ck @ rest"

lemma length_frames [simp]:
  "length (eth_frame dmac smac ety payload) = 14 + length payload"
  "length (ip_header tos tlen ident frag ttl proto ck s d) = 20"
  "length (echo_msg typ ck rest) = 4 + length rest"
  by (simp_all add: eth_frame_def ip_header_def echo_msg_def)

lemma holds_eth_frame:
  "holds m a (eth_frame dmac smac ety payload) \<longleftrightarrow>
     holds m a (be48 dmac) \<and> holds m (a + 6) (be48 smac) \<and> holds m (a + 12) (be16 ety) \<and> holds m (a + 14) payload"
  by (simp add: eth_frame_def holds_append ac_simps)

lemma holds_ip_header:
  "holds m a (ip_header tos tlen ident frag ttl proto ck s d) \<longleftrightarrow>
     holds m a [0x45] \<and> holds m (Suc a) [tos] \<and> holds m (Suc (Suc a)) (be16 tlen) \<and> holds m (a + 4) (be16 ident) \<and>
     holds m (a + 6) (be16 frag) \<and> holds m (a + 8) [ttl] \<and> holds m (a + 9) [proto] \<and> holds m (a + 10) (be16 ck) \<and>
     holds m (a + 12) (be32 s) \<and> holds m (a + 16) (be32 d)"
  by (simp add: ip_header_def holds_append numeral_eq_Suc del: append_Cons)

lemma holds_echo_msg:
  "holds m a (echo_msg typ ck rest) \<longleftrightarrow>
     holds m a [typ] \<and> holds m (Suc a) [0] \<and> holds m (Suc (Suc a)) (be16 ck) \<and> holds m (a + 4) rest"
  by (simp add: echo_msg_def holds_append numeral_eq_Suc del: append_Cons)

lemmas holds_frames = holds_eth_frame holds_ip_header holds_echo_msg

lemma eth_rx_frame:
  assumes "holds (nmem st) a (eth_frame dmac smac ety payload)" "pk_start pk = adr a" "14 \<le> pk_len pk"
    "na_type src = Na_unknown" "na_type dest = Na_unknown"
  shows "eth_rx src dest pk st = Some (Rx (eth_make_addr smac) (eth_make_addr dmac)
    (pk\<lparr>pk_start := adr (a + 14), pk_len := pk_len pk - 14, pk_proto := eth_proto_from_ethertype ety\<rparr>), st)"
proof -
  have "holds (nmem st) a (be48 dmac)" "holds (nmem st) (a + 6) (be48 smac)" "holds (nmem st) (a + 12) (be16 ety)"
    using assms(1) by (simp_all add: holds_frames)
  then have "mac_at (nmem st) (adr a) = dmac" "mac_at (nmem st) (adr (a + 6)) = smac" "load16 (nmem st) (adr (a + 12)) = ety"
    by (simp_all add: holds_mac_at holds_load16)
  then show ?thesis
    using assms(2-5) by (simp add: eth_rx_def net_packet_consume_def net_address_get_proto_def not_less)
qed

lemma ipv4_rx_frame:
  assumes "holds (nmem st) a (ip_header tos tlen ident frag ttl proto ck s d)" "inet_cksum (ip_header tos tlen ident frag ttl proto ck s d) = 0"
    "pk_start pk = adr a" "adr a AND 1 = 0" "20 \<le> pk_len pk" "s \<noteq> 0"
  shows "ipv4_rx src dest pk st = Some (Rx (ipv4_make_addr s 0) (ipv4_make_addr d 0)
    (pk\<lparr>pk_start := adr (a + 20), pk_len := pk_len pk - 20, pk_proto := ipv4_get_proto proto\<rparr>),
     snd (arp_cache_add (pk_iface pk) src (ipv4_make_addr s 0) st))"
proof -
  have "holds (nmem st) a [0x45]" "holds (nmem st) (a + 9) [proto]" "holds (nmem st) (a + 12) (be32 s)" "holds (nmem st) (a + 16) (be32 d)"
    using assms(1) by (simp_all add: holds_frames)
  then have f: "nmem st (adr a) = 0x45" "nmem st (adr (a + 9)) = proto" "load32 (nmem st) (adr (a + 12)) = s" "load32 (nmem st) (adr (a + 16)) = d"
    by (simp_all add: holds_byte holds_load32)
  have "net_cksum (nmem st) (adr a) 20 = Some 0"
    using net_cksum_bytes [OF assms(4), of 20 "nmem st"] holds_packet_bytes [OF assms(1), of 20] assms(2) by simp
  then show ?thesis
    using assms(3,5,6) f by (simp add: ipv4_rx_def net_packet_consume_def Let_def not_less)
qed

lemma icmp_rx_echo:
  assumes "holds (nmem st) a (echo_msg 8 ck rest)" "inet_cksum (echo_msg 8 ck rest) = 0"
    "pk_start pk = adr a" "adr a AND 1 = 0" "unat (pk_len pk) = 4 + length rest" "a + 4 + length rest \<le> 4294967296" "4 + length rest \<le> 65535"
  shows "\<exists>m. icmp_rx src dest pk st = Some (Tx (Some dest) src pk, put_nmem m st) \<and>
    holds m a (echo_msg 0 (inet_cksum (echo_msg 0 0 rest)) rest) \<and> modifies (nmem st) m a (a + 4)"
proof -
  have "holds (nmem st) a [8]" "holds (nmem st) (Suc a) [0]" "holds (nmem st) (a + 4) rest"
    using assms(1) by (simp_all add: holds_frames)
  then have f: "nmem st (adr a) = 8" "nmem st (adr (Suc a)) = 0" "holds (nmem st) (a + 4) rest" "holds (nmem st) (Suc a) [0]"
    by (simp_all add: holds_byte)
  have ck: "net_cksum m (adr a) (pk_len pk) = Some (inet_cksum s)" if "holds m a s" "length s = 4 + length rest" for m s
    using net_cksum_bytes [OF assms(4), of "pk_len pk" m] holds_packet_bytes [OF that(1), of "pk_len pk"] that(2) assms(5,7) by simp
  let ?m = "(store16 (nmem st) (adr (a + 2)) 0)(adr a := 0)"
  let ?c = "inet_cksum (echo_msg 0 0 rest)"
  have m: "holds ?m a (echo_msg 0 0 rest)"
    using f assms(6) by (simp add: holds_frames holds_same holds_others)
  then have c: "net_cksum ?m (adr a) (pk_len pk) = Some ?c"
    by (rule ck) simp
  have "holds (store16 ?m (adr (a + 2)) ?c) a (echo_msg 0 ?c rest)"
    using f assms(6) by (simp add: holds_frames holds_same holds_others)
  moreover have "modifies (nmem st) (store16 ?m (adr (a + 2)) ?c) a (a + 4)"
    using assms(6) by (simp add: modifies_steps)
  moreover have "icmp_rx src dest pk st = Some (Tx (Some dest) src pk, put_nmem (store16 ?m (adr (a + 2)) ?c) st)"
    using ck [OF assms(1)] assms(2,3) f(1,2) c by (simp add: icmp_rx_def icmp_handle_echo_request_def)
  ultimately show ?thesis
    by blast
qed

lemma route_hw_addr_cong:
  assumes "g_arp_cache st' = g_arp_cache st" "drivers st' = drivers st" "g_current_timestamp st' = g_current_timestamp st"
  shows "ipv4_route_get_hw_addr iface a st' = ipv4_route_get_hw_addr iface a st"
proof -
  have "arp_hit st' = arp_hit st"
    using assms(2,3) by (intro ext) (simp add: arp_hit_def net_address_compare_def net_protocol_addr_compare_def net_protocol_get_driver_def)
  then have "arp_cache_lookup iface a st' = arp_cache_lookup iface a st"
    using assms(1) by (simp add: arp_cache_lookup_def split: option.split)
  then show ?thesis
    using assms(1) by (simp add: ipv4_route_get_hw_addr_def split: option.split)
qed

lemma ipv4_tx_frame:
  fixes st :: net and pk :: net_packet and src dest :: net_address
  defines "ident \<equiv> word_of_int (fst (rand (rand_state st)))"
  assumes "pk_start pk = adr (a + 20)" "adr a AND 1 = 0" "a + 20 \<le> 4294967296" "pk_len pk + 20 \<le> buf_len (pk_raw pk)"
    "the_iface st (pk_iface pk) = Some i" "pk_iface pk \<noteq> 0" "ipv4_route_get_hw_addr (pk_iface pk) dest st = Inr h"
  defines "hdr ck \<equiv> ip_header 0 (ucast (pk_len pk + 20)) ident 0x4000 64 (ipv4_get_ipproto (pk_proto pk)) ck (ipv4_get_addr src) (ipv4_get_addr dest)"
  shows "\<exists>m. ipv4_tx (Some src) dest pk st = Some (Tx (Some (if_hw_addr i)) h (pk\<lparr>pk_start := adr a, pk_len := pk_len pk + 20, pk_proto := Np_ipv4\<rparr>),
      put_nmem m (st\<lparr>rand_state := snd (rand (rand_state st))\<rparr>)) \<and>
    holds m a (hdr (inet_cksum (hdr 0))) \<and> modifies (nmem st) m a (a + 20)"
proof -
  obtain n g where r: "rand (rand_state st) = (n, g)"
    by fastforce
  let ?m = "write_ipv4_hdr (nmem st) (adr a) (ucast (pk_len pk + 20)) ident (ipv4_get_ipproto (pk_proto pk)) (ipv4_get_addr src) (ipv4_get_addr dest)"
  have m: "holds ?m a (hdr 0)"
    using assms(4) by (simp add: write_ipv4_hdr_def Let_def hdr_def holds_frames holds_same holds_others)
  have c: "net_cksum ?m (adr a) 20 = Some (inet_cksum (hdr 0))"
    using net_cksum_bytes [OF assms(3), of 20 ?m] holds_packet_bytes [OF m, of 20] by (simp add: hdr_def)
  let ?m' = "store16 ?m (adr (a + 10)) (inet_cksum (hdr 0))"
  have "holds ?m' a (hdr (inet_cksum (hdr 0)))"
    using assms(4) m by (simp add: hdr_def holds_frames holds_same holds_others)
  moreover have "modifies (nmem st) ?m' a (a + 20)"
    using assms(4) by (simp add: modifies_steps)
  moreover have "ipv4_tx (Some src) dest pk st = Some (Tx (Some (if_hw_addr i)) h (pk\<lparr>pk_start := adr a, pk_len := pk_len pk + 20, pk_proto := Np_ipv4\<rparr>),
      put_nmem ?m' (st\<lparr>rand_state := g\<rparr>))"
  proof -
    have "ipv4_route_get_hw_addr (pk_iface pk) dest (put_nmem ?m' (st\<lparr>rand_state := g\<rparr>)) = Inr h"
      using assms(8) by (subst route_hw_addr_cong [of _ st]) (simp_all add: put_nmem_def)
    moreover have "net_packet_insert pk 20 = (0, pk\<lparr>pk_start := adr a, pk_len := pk_len pk + 20\<rparr>)"
      using assms(2,5) adr_diff_numeral [of "num.Bit0 (num.Bit0 (num.Bit1 (num.Bit0 num.One)))" "a + 20"]
      by (simp add: net_packet_insert_def not_less)
    ultimately show ?thesis
      using c r assms(6,7) by (simp add: ipv4_tx_def ident_def Let_def)
  qed
  ultimately show ?thesis
    using r by auto
qed

lemma eth_tx_frame:
  assumes "pk_start pk = adr (a + 14)" "a + 14 + length payload \<le> 4294967296" "unat (pk_len pk) = length payload"
    "pk_len pk + 14 \<le> buf_len (pk_raw pk)" "unat (pk_len pk + 14) = unat (pk_len pk) + 14" "pk_proto pk = Np_ipv4"
    "the_iface st (pk_iface pk) = Some i" "pk_iface pk \<noteq> 0" "if_proto i = Np_ethernet" "na_type s = Na_ethernet" "na_type h = Na_ethernet"
    "holds (nmem st) (a + 14) payload"
  defines "frame \<equiv> eth_frame (na_addr h) (na_addr s) 0x0800 payload"
  shows "\<exists>st'. eth_tx dw (Some s) h pk st = Some (Return (dw (if_dev i) frame), st') \<and> sent st' = sent st @ [(if_dev i, frame)]"
proof -
  let ?pk = "pk\<lparr>pk_proto := Np_ethernet, pk_start := adr a, pk_len := pk_len pk + 14\<rparr>"
  let ?m1 = "store16 (nmem st) (adr (a + 12)) ETHERTYPE_IPV4"
  let ?m = "store_mac (store_mac ?m1 (adr (a + 6)) (na_addr s)) (adr a) (na_addr h)"
  have enc: "net_packet_encapsulate pk Np_ethernet 14 = (0, ?pk)"
    using assms(1,4) adr_diff_numeral [of "num.Bit0 (num.Bit1 (num.Bit1 num.One))" "a + 14"]
    by (simp add: net_packet_encapsulate_def net_packet_insert_def not_less)
  have m: "holds ?m a frame"
    using assms(2,12) by (simp add: frame_def holds_frames holds_same holds_others ETHERTYPE_IPV4_def)
  have bytes: "packet_bytes ?m (adr a) (pk_len pk + 14) = frame"
    by (rule holds_packet_bytes [OF m]) (simp add: frame_def assms(3,5))
  have tx: "eth_tx dw (Some s) h pk st = map_option (\<lambda>(ret, st). (Return ret, st)) (net_tx dw ?pk (put_nmem ?m st))"
    using enc assms(6,8,10,11) by (simp add: eth_tx_def Let_def eth_ethertype_from_proto_def) (simp add: ETHERTYPE_IPV4_def)
  let ?st = "net_interface_stats_add_tx_bytes (pk_iface pk) (pk_len pk + 14) (net_interface_stats_inc_tx_packets (pk_iface pk) (put_nmem ?m st))"
  have "nmem ?st = ?m"
    by (simp add: net_interface_stats_add_tx_bytes_def net_interface_stats_inc_tx_packets_def update_stats_def update_iface_def put_nmem_def)
  then have "net_tx dw ?pk (put_nmem ?m st) = Some (dw (if_dev i) frame, ?st\<lparr>sent := sent st @ [(if_dev i, frame)]\<rparr>)"
    using assms(7-9) bytes by (simp add: net_tx_def Let_def)
  then show ?thesis
    unfolding tx by simp
qed

section \<open>The answer to an echo request\<close>

text \<open>A step taken for a driver that is registered.\<close>

lemma net_run_rx:
  "net_typed st \<Longrightarrow> net_protocol_get_driver (pk_proto pk) st \<noteq> None \<Longrightarrow>
    (case fn_rx (std_fns (pk_proto pk)) of
        Net_rx_unimplemented \<Rightarrow> Some (Return (- 38), st) | Eth_rx \<Rightarrow> eth_rx src dest pk st | Ipv4_rx \<Rightarrow> ipv4_rx src dest pk st
      | Arp_rx \<Rightarrow> arp_rx src dest pk st | Icmp_rx \<Rightarrow> icmp_rx src dest pk st | Udp_rx \<Rightarrow> udp_rx src dest pk st
      | Tcp_rx \<Rightarrow> tcp_rx src dest pk st) = Some (a, st') \<Longrightarrow>
    net_run dw (Rx src dest pk) st = net_run dw a st'"
  by (rule net_run_step [OF net_step.rx]) (auto simp: net_protocol_rx_def dest: net_typed_driver)

lemma net_run_tx:
  "net_typed st \<Longrightarrow> net_protocol_get_driver (net_address_get_proto dest) st \<noteq> None \<Longrightarrow>
    (case fn_tx (std_fns (net_address_get_proto dest)) of
        Net_tx_unimplemented \<Rightarrow> Some (Return (- 38), st) | Eth_tx \<Rightarrow> eth_tx dw src' dest pk st
      | Ipv4_tx \<Rightarrow> ipv4_tx src' dest pk st | Udp_tx \<Rightarrow> udp_tx src' dest pk st) = Some (a, st') \<Longrightarrow>
    net_run dw (Tx src' dest pk) st = net_run dw a st'"
  by (rule net_run_step [OF net_step.tx]) (auto simp: net_protocol_tx_def dest: net_typed_driver)

lemma the_iface_stats:
  "the_iface st p = Some i \<Longrightarrow> \<exists>i'. the_iface (update_stats q f st) p = Some i' \<and> if_dev i' = if_dev i \<and> if_hw_addr i' = if_hw_addr i \<and> if_proto i' = if_proto i"
proof -
  have "map_of (map (\<lambda>(r, i). (r, if r = q then g i else i)) xs) p = map_option (\<lambda>i. if p = q then g i else i) (map_of xs p)" for g and xs :: "(u32 \<times> net_iface) list"
    by (induction xs) auto
  then show "the_iface st p = Some i \<Longrightarrow> ?thesis"
    by (auto simp: the_iface_def update_stats_def update_iface_def)
qed

text \<open>The received frame in memory, and what the first handlers do with it.\<close>

lemma same_table:
  assumes "g_arp_cache st' = g_arp_cache st" "drivers st' = drivers st" "g_current_timestamp st' = g_current_timestamp st"
  shows "arp_ok st' = arp_ok st" "ipv4_compares st' = ipv4_compares st" "arp_table st' = arp_table st"
proof -
  show "arp_ok st' = arp_ok st" "ipv4_compares st' = ipv4_compares st"
    using assms ipv4_compares_cong [of st' st] by (simp_all add: arp_ok_def split: option.split)
  have "arp_hit st' = arp_hit st"
    using assms(2,3) by (intro ext) (simp add: arp_hit_def net_address_compare_def net_protocol_addr_compare_def net_protocol_get_driver_def)
  then have "arp_cache_lookup iface a st' = arp_cache_lookup iface a st" for iface a
    using assms(1) by (simp add: arp_cache_lookup_def split: option.split)
  then show "arp_table st' = arp_table st"
    using assms(1) by (intro ext) (simp add: arp_table_def)
qed

lemma arp_table_route: "arp_table st (iface, ip) = Some h \<Longrightarrow> ipv4_route_get_hw_addr iface (ipv4_make_addr ip 0) st = Inr h"
  by (auto simp: arp_table_def ipv4_route_get_hw_addr_def)

lemma arp_cache_add_sel [simp]:
  "nmem (snd (arp_cache_add p h a st)) = nmem st" "rand_state (snd (arp_cache_add p h a st)) = rand_state st"
  "drivers (snd (arp_cache_add p h a st)) = drivers st" "g_current_timestamp (snd (arp_cache_add p h a st)) = g_current_timestamp st"
  by (simp_all add: arp_cache_add_def split: option.splits)

lemma net_typed_ipv4_compares: "net_typed st \<Longrightarrow> net_protocol_get_driver Np_ipv4 st \<noteq> None \<Longrightarrow> ipv4_compares st"
  using net_typed_driver [of st Np_ipv4] by (fastforce simp: ipv4_compares_def ipv4_fns_def)

lemma even_word: "even a \<Longrightarrow> a < 4294967296 \<Longrightarrow> adr a AND 1 = 0"
  using word_odd_unat [of "adr a"] by auto

lemma request_received:
  assumes typed: "net_typed st" and drivers: "net_protocol_get_driver Np_ipv4 st \<noteq> None" "net_protocol_get_driver Np_icmp st \<noteq> None"
    and buffer: "buffer_ok b n" "38 + length rest \<le> n"
    and pk: "pk_start pk = adr b" "pk_proto pk = Np_ethernet" "pk_len pk = adr (38 + length rest)"
    and unknown: "na_type src = Na_unknown" "na_type dest = Na_unknown"
    and request: "holds (nmem st) b (eth_frame dmac smac 0x0800 (ip_header tos tlen ident frag ttl 1 ipck s d @ echo_msg 8 ck rest))"
      "inet_cksum (ip_header tos tlen ident frag ttl 1 ipck s d) = 0" "inet_cksum (echo_msg 8 ck rest) = 0" "s \<noteq> 0"
  defines "st2 \<equiv> snd (arp_cache_add (pk_iface pk) (eth_make_addr smac) (ipv4_make_addr s 0) st)"
    and "pk3 \<equiv> pk\<lparr>pk_start := adr (b + 34), pk_len := adr (4 + length rest), pk_proto := Np_icmp\<rparr>"
  shows "\<exists>m. net_run dw (Rx src dest pk) st = net_run dw (Tx (Some (ipv4_make_addr d 0)) (ipv4_make_addr s 0) pk3) (put_nmem m st2) \<and>
    holds m (b + 34) (echo_msg 0 (inet_cksum (echo_msg 0 0 rest)) rest) \<and> modifies (nmem st) m b (b + n)"
proof -
  have n: "b + n + 300 < 4294967296" "n \<le> 65535" "even b"
    using buffer(1) by (simp_all add: buffer_ok_def)
  have even: "adr (b + 14) AND 1 = 0" "adr (b + 34) AND 1 = 0"
    using n by (simp_all add: even_word)
  have f: "holds (nmem st) (b + 14) (ip_header tos tlen ident frag ttl 1 ipck s d)" "holds (nmem st) (b + 34) (echo_msg 8 ck rest)"
    using request(1) unfolding holds_eth_frame holds_append by (simp_all add: ac_simps)
  have len: "adr (38 + length rest) - 14 = adr (24 + length rest)" "adr (24 + length rest) - 20 = adr (4 + length rest)"
    by (simp_all add: adr_distrib del: adr_fold)
  have le: "14 \<le> pk_len pk" "20 \<le> pk_len pk - 14"
    using buffer(2) n(2) unfolding pk(3) len by (simp_all add: word_le_nat_alt)
  let ?pk1 = "pk\<lparr>pk_start := adr (b + 14), pk_len := adr (24 + length rest), pk_proto := Np_ipv4\<rparr>"
  have 1: "net_run dw (Rx src dest pk) st = net_run dw (Rx (eth_make_addr smac) (eth_make_addr dmac) ?pk1) st"
    using typed eth_rx_frame [OF request(1) pk(1) le(1) unknown] pk
    by (intro net_run_rx) (simp_all add: net_typed_def eth_fns_def eth_proto_from_ethertype_def ETHERTYPE_IPV4_def len)
  have 2: "net_run dw (Rx (eth_make_addr smac) (eth_make_addr dmac) ?pk1) st = net_run dw (Rx (ipv4_make_addr s 0) (ipv4_make_addr d 0) pk3) st2"
    using typed drivers ipv4_rx_frame [OF f(1) request(2), of ?pk1 "eth_make_addr smac" "eth_make_addr dmac"] even(1) le(2) request(4) pk(3)
    by (intro net_run_rx) (simp_all add: ipv4_fns_def len ipv4_get_proto_def pk3_def st2_def add.commute [of 34 b])
  have typed2: "net_typed st2"
    unfolding st2_def by (rule net_typed_arp_cache_add [OF typed]) (simp_all add: eth_make_addr_def)
  have st2: "nmem st2 = nmem st" "drivers st2 = drivers st"
    by (simp_all add: st2_def)
  have "\<exists>m. icmp_rx (ipv4_make_addr s 0) (ipv4_make_addr d 0) pk3 st2 = Some (Tx (Some (ipv4_make_addr d 0)) (ipv4_make_addr s 0) pk3, put_nmem m st2) \<and>
      holds m (b + 34) (echo_msg 0 (inet_cksum (echo_msg 0 0 rest)) rest) \<and> modifies (nmem st) m (b + 34) (b + 38)"
    using icmp_rx_echo [of st2 "b + 34" ck rest pk3 "ipv4_make_addr s 0" "ipv4_make_addr d 0"] f(2) request(3) even(2) buffer(2) n(1,2)
    by (simp add: st2 pk3_def add.commute [of 38 b])
  then obtain m where m: "icmp_rx (ipv4_make_addr s 0) (ipv4_make_addr d 0) pk3 st2 = Some (Tx (Some (ipv4_make_addr d 0)) (ipv4_make_addr s 0) pk3, put_nmem m st2)"
    "holds m (b + 34) (echo_msg 0 (inet_cksum (echo_msg 0 0 rest)) rest)" "modifies (nmem st) m (b + 34) (b + 38)"
    by blast
  have 3: "net_run dw (Rx (ipv4_make_addr s 0) (ipv4_make_addr d 0) pk3) st2 =
      net_run dw (Tx (Some (ipv4_make_addr d 0)) (ipv4_make_addr s 0) pk3) (put_nmem m st2)"
    using typed2 drivers m(1) by (intro net_run_rx) (simp_all add: pk3_def icmp_fns_def net_protocol_get_driver_def st2(2))
  have "modifies (nmem st) m b (b + n)"
    by (rule modifies_mono [OF m(3)]) (use buffer(2) in linarith)+
  then show ?thesis
    using 1 2 3 m(2) by auto
qed

lemma reply_sent:
  fixes s d :: u32
  assumes typed: "net_typed st" and drivers: "net_protocol_get_driver Np_ipv4 st \<noteq> None"
    and buffer: "buffer_ok b n" "34 + length msg \<le> n"
    and pk: "pk_start pk = adr (b + 34)" "pk_proto pk = Np_icmp" "pk_len pk = adr (length msg)" "buf_len (pk_raw pk) = adr n"
    and iface: "the_iface st (pk_iface pk) = Some i" and route: "ipv4_route_get_hw_addr (pk_iface pk) (ipv4_make_addr s 0) st = Inr h"
    and msg: "holds (nmem st) (b + 34) msg"
  defines "hdr c \<equiv> ip_header 0 (word_of_nat (20 + length msg)) (word_of_int (fst (rand (rand_state st)))) 0x4000 64 1 c d s"
  defines "reply \<equiv> eth_frame (na_addr h) (na_addr (if_hw_addr i)) 0x0800 (hdr (inet_cksum (hdr 0)) @ msg)"
  shows "\<exists>st'. net_run dw (Tx (Some (ipv4_make_addr d 0)) (ipv4_make_addr s 0) pk) st = Some (dw (if_dev i) reply, st') \<and>
    sent st' = sent st @ [(if_dev i, reply)]"
proof -
  have n: "b + n + 300 < 4294967296" "n \<le> 65535" "even b"
    using buffer(1) by (simp_all add: buffer_ok_def)
  have i: "pk_iface pk \<noteq> 0" "if_proto i = Np_ethernet" "na_type (if_hw_addr i) = Na_ethernet" "na_type h = Na_ethernet"
    using net_typed_iface [OF typed iface] route_hw_addr_typed [OF typed _ route] by auto
  have len: "ucast (adr (length msg + 20)) = (word_of_nat (20 + length msg) :: u16)"
    using buffer(2) n(2) by (simp add: unsigned_of_nat take_bit_nat_eq_self add.commute [of 20])
  have fits: "adr (length msg + 20) \<le> adr n" "adr (length msg + 20 + 14) \<le> adr n"
    using buffer(2) n(1) by (simp_all add: word_le_nat_alt)
  let ?pk4 = "pk\<lparr>pk_start := adr (b + 14), pk_len := adr (length msg + 20), pk_proto := Np_ipv4\<rparr>"
  let ?g = "snd (rand (rand_state st))"
  have "\<exists>m. ipv4_tx (Some (ipv4_make_addr d 0)) (ipv4_make_addr s 0) pk st =
      Some (Tx (Some (if_hw_addr i)) h ?pk4, put_nmem m (st\<lparr>rand_state := ?g\<rparr>)) \<and>
      holds m (b + 14) (hdr (inet_cksum (hdr 0))) \<and> modifies (nmem st) m (b + 14) (b + 34)"
    using ipv4_tx_frame [of pk "b + 14" st i "ipv4_make_addr s 0" h "ipv4_make_addr d 0"] pk iface i(1) route n even_word [of "b + 14"] fits(1)
    by (simp add: len hdr_def ipv4_get_ipproto_def add.commute [of 34 b])
  then obtain m where m: "ipv4_tx (Some (ipv4_make_addr d 0)) (ipv4_make_addr s 0) pk st =
      Some (Tx (Some (if_hw_addr i)) h ?pk4, put_nmem m (st\<lparr>rand_state := ?g\<rparr>))"
    "holds m (b + 14) (hdr (inet_cksum (hdr 0)))" "modifies (nmem st) m (b + 14) (b + 34)"
    by blast
  let ?st4 = "put_nmem m (st\<lparr>rand_state := ?g\<rparr>)"
  have typed4: "net_typed ?st4"
    using typed by (simp add: net_typed_def put_nmem_def net_protocol_get_driver_def)
  have "holds m (b + 34) msg"
    using holds_other [OF m(3), of "b + 34" msg] msg buffer(2) n(1) by simp
  then have payload: "holds (nmem ?st4) (b + 14) (hdr (inet_cksum (hdr 0)) @ msg)"
    using m(2) by (simp add: holds_append hdr_def ac_simps)
  have drv4: "net_protocol_get_driver p ?st4 = net_protocol_get_driver p st" for p
    by (simp add: net_protocol_get_driver_def put_nmem_def)
  have 4: "net_run dw (Tx (Some (ipv4_make_addr d 0)) (ipv4_make_addr s 0) pk) st = net_run dw (Tx (Some (if_hw_addr i)) h ?pk4) ?st4"
    using typed drivers m(1) by (intro net_run_tx) (simp_all add: net_address_get_proto_def ipv4_fns_def)
  have "\<exists>st'. eth_tx dw (Some (if_hw_addr i)) h ?pk4 ?st4 = Some (Return (dw (if_dev i) reply), st') \<and> sent st' = sent ?st4 @ [(if_dev i, reply)]"
    unfolding reply_def using payload i iface buffer(2) n fits(2) pk(4)
    by (intro eth_tx_frame [where a = b]) (simp_all add: hdr_def)
  then obtain st' where st': "eth_tx dw (Some (if_hw_addr i)) h ?pk4 ?st4 = Some (Return (dw (if_dev i) reply), st')"
    "sent st' = sent st @ [(if_dev i, reply)]"
    by auto
  have "net_protocol_get_driver Np_ethernet ?st4 \<noteq> None"
    using typed4 by (simp add: net_typed_def)
  then have "net_run dw (Tx (Some (if_hw_addr i)) h ?pk4) ?st4 = net_run dw (Return (dw (if_dev i) reply)) st'"
    using typed4 st'(1) i(4) by (intro net_run_tx) (simp_all add: net_address_get_proto_def eth_fns_def)
  then show ?thesis
    using 4 st'(2) by simp
qed

text \<open>
  C11: A well-formed echo request gets its echo reply.  If a frame holds an IPv4 header of five
  words and an ICMP echo request, both with correct checksums, then exactly one frame is sent:
  from the hardware address of the interface to the one the ARP cache has for the sender, the
  sender's own one if it was not in the cache; with a fresh IPv4 header whose addresses are those
  of the request in reverse and whose checksum is right up to a double carry; and with the
  identifier, the sequence number and all the data of the request.  The result is that of the
  device.
\<close>

theorem echo_request_answered:
  fixes st :: net and rest :: "u8 list" and s d :: u32 and ttl tos :: u8 and tlen ident frag ipck ck :: u16 and smac dmac :: "48 word"
    and iface :: u32
  defines "request \<equiv> eth_frame dmac smac 0x0800 (ip_header tos tlen ident frag ttl 1 ipck s d @ echo_msg 8 ck rest)"
  assumes typed: "net_typed st" "arp_ok st" "sint (g_current_timestamp st) < 2147482447" "g_arp_cache st \<noteq> None"
    and drivers: "net_protocol_get_driver Np_ipv4 st \<noteq> None" "net_protocol_get_driver Np_icmp st \<noteq> None"
    and iface: "the_iface st iface = Some i"
    and buffer: "buffer_ok b n" "buf_data (pk_raw pk) = adr b" "buf_len (pk_raw pk) = adr n"
    and frame: "dr (if_dev i) (adr n) = Inr request" "length request \<le> n"
    and valid: "inet_cksum (ip_header tos tlen ident frag ttl 1 ipck s d) = 0" "inet_cksum (echo_msg 8 ck rest) = 0" "s \<noteq> 0"
  defines "h \<equiv> (case arp_table st (iface, s) of None \<Rightarrow> eth_make_addr smac | Some h \<Rightarrow> h)"
    and "hdr c \<equiv> ip_header 0 (word_of_nat (24 + length rest)) (word_of_int (fst (rand (rand_state st)))) 0x4000 64 1 c d s"
  defines "reply \<equiv> eth_frame (na_addr h) (na_addr (if_hw_addr i)) 0x0800
     (hdr (inet_cksum (hdr 0)) @ echo_msg 0 (inet_cksum (echo_msg 0 0 rest)) rest)"
  shows "\<exists>st'. net_interface_rx dw dr src dest iface pk st = Some (dw (if_dev i) reply, st') \<and> sent st' = sent st @ [(if_dev i, reply)]"
proof -
  have len: "length request = 38 + length rest" "38 + length rest \<le> n" and n: "b + n + 300 < 4294967296" "n \<le> 65535"
    using buffer(1) frame(2) by (simp_all add: request_def buffer_ok_def)
  define m0 where "m0 = write_bytes request (adr b) (nmem st)"
  define st1 where "st1 = net_interface_stats_add_rx_bytes iface (adr (length request)) (put_nmem m0 st)"
  have st1: "nmem st1 = m0" "drivers st1 = drivers st" "g_arp_cache st1 = g_arp_cache st" "g_current_timestamp st1 = g_current_timestamp st"
    "sent st1 = sent st" "rand_state st1 = rand_state st"
    by (simp_all add: st1_def net_interface_stats_add_rx_bytes_def update_stats_def update_iface_def put_nmem_def)
  obtain i1 where i1: "the_iface st1 iface = Some i1" "if_dev i1 = if_dev i" "if_hw_addr i1 = if_hw_addr i" "if_proto i1 = if_proto i"
    using the_iface_stats [of "put_nmem m0 st" iface i iface] iface by (fastforce simp: st1_def net_interface_stats_add_rx_bytes_def)
  have m0: "modifies (nmem st) m0 b (b + n)" "holds m0 b request"
    using write_bytes_spec [of b request "nmem st"] len n modifies_mono [of "nmem st" m0 b "b + length request" b "b + n"]
    by (auto simp: m0_def holds_def)
  have typed1: "net_typed st1"
    by (rule net_typed_effect [OF typed(1) net_effect_trans [OF net_effect_put [OF m0(1)]]]) (simp_all add: st1_def)
  let ?pk1 = "pk\<lparr>pk_start := adr b, pk_iface := iface, pk_proto := Np_ethernet, pk_len := adr (38 + length rest)\<rparr>"
  define src1 where "src1 = src\<lparr>na_type := Na_unknown\<rparr>"
  define dest1 where "dest1 = dest\<lparr>na_type := Na_unknown\<rparr>"
  define st2 where "st2 = snd (arp_cache_add iface (eth_make_addr smac) (ipv4_make_addr s 0) st1)"
  let ?msg = "echo_msg 0 (inet_cksum (echo_msg 0 0 rest)) rest"
  let ?pk3 = "?pk1\<lparr>pk_start := adr (b + 34), pk_len := adr (4 + length rest), pk_proto := Np_icmp\<rparr>"
  have "\<exists>m. net_run dw (Rx src1 dest1 ?pk1) st1 = net_run dw (Tx (Some (ipv4_make_addr d 0)) (ipv4_make_addr s 0) ?pk3) (put_nmem m st2) \<and>
      holds m (b + 34) ?msg \<and> modifies (nmem st1) m b (b + n)"
    using request_received [of st1 b n rest ?pk1 src1 dest1 dmac smac tos tlen ident frag ttl ipck s d ck dw]
      typed1 drivers buffer(1) len(2) m0(2) valid
    by (simp add: st1 st2_def request_def src1_def dest1_def net_protocol_get_driver_def)
  then obtain m where m: "net_run dw (Rx src1 dest1 ?pk1) st1 = net_run dw (Tx (Some (ipv4_make_addr d 0)) (ipv4_make_addr s 0) ?pk3) (put_nmem m st2)"
    "holds m (b + 34) ?msg" "modifies (nmem st1) m b (b + n)"
    by blast
  have typed2: "net_typed st2"
    unfolding st2_def by (rule net_typed_arp_cache_add [OF typed1]) (simp_all add: eth_make_addr_def)
  have typed3: "net_typed (put_nmem m st2)"
    using typed2 by (simp add: net_typed_def put_nmem_def net_protocol_get_driver_def)
  have cmp: "ipv4_compares st1"
    using net_typed_ipv4_compares [OF typed1] drivers(1) by (simp add: net_protocol_get_driver_def st1(2))
  obtain c where c: "g_arp_cache st1 = Some c"
    using typed(4) st1(3) by auto
  have "arp_table st2 (iface, s) = Some h"
    using arp_cache_add_finds [OF _ cmp _ _ _ c, of "eth_make_addr smac" "ipv4_make_addr s 0" iface] typed
    by (simp add: same_table [of st1 st] st1 st2_def h_def) (simp add: eth_make_addr_def)
  then have route: "ipv4_route_get_hw_addr iface (ipv4_make_addr s 0) (put_nmem m st2) = Inr h"
    by (subst route_hw_addr_cong [of _ st2]) (simp_all add: arp_table_route, simp_all add: put_nmem_def)
  have st2: "drivers st2 = drivers st" "rand_state st2 = rand_state st" "sent st2 = sent st" "the_iface st2 iface = Some i1"
    using st1 i1(1) by (simp_all add: st2_def)
  have "\<exists>st'. net_run dw (Tx (Some (ipv4_make_addr d 0)) (ipv4_make_addr s 0) ?pk3) (put_nmem m st2) = Some (dw (if_dev i) reply, st') \<and>
      sent st' = sent st @ [(if_dev i, reply)]"
    using reply_sent [where st = "put_nmem m st2" and b = b and n = n and msg = ?msg and pk = ?pk3 and i = i1 and s = s and h = h and d = d and dw = dw] typed3 drivers buffer len(2) st2 route m(2) i1(2,3)
    by (simp add: reply_def hdr_def net_protocol_get_driver_def)
  then obtain st' where st': "net_run dw (Rx src1 dest1 ?pk1) st1 = Some (dw (if_dev i) reply, st')" "sent st' = sent st @ [(if_dev i, reply)]"
    using m(1) by auto
  let ?ret = "dw (if_dev i) reply"
  have "net_interface_rx dw dr src dest iface pk st = Some (?ret, if ?ret = 0 then net_interface_stats_inc_rx_packets iface st'
      else net_interface_stats_inc_rx_dropped iface (if ?ret = - 504 then net_interface_stats_inc_cksum_err iface st' else st'))"
    using iface buffer(2,3) frame(1) st'(1) len n net_typed_iface [OF typed(1) iface] unfolding src1_def dest1_def st1_def m0_def
    by (simp add: net_interface_rx_def net_packet_reset_def net_packet_set_len_def net_address_set_type_def Let_def word_less_nat_alt)
  then show ?thesis
    using st'(2) by simp
qed

section \<open>Example\<close>

text \<open>A request from 192.168.1.5 with two bytes of data.\<close>

definition ping_sample :: "u8 list" where
  "ping_sample = eth_frame 0x20304050607 0x0a0b0c0d0e0f 0x0800 (ip_header 0 32 0x1234 0 64 1 0xe552 0xc0a80105 0xc0a80101 @ echo_msg 8 0x969a [0, 1, 0, 2, 0x61, 0x62])"

theorem echo_request_answered_witness:
  "\<exists>frame st'. net_interface_rx (\<lambda>_ _. 0) (\<lambda>_ _. Inr ping_sample) \<lparr>na_addr = 0, na_type = Na_unknown\<rparr> \<lparr>na_addr = 0, na_type = Na_unknown\<rparr>
     64 packet_sample lan_sample = Some (0, st') \<and> sent st' = [(128, frame)] \<and> length frame = 44"
proof -
  obtain i where i: "the_iface lan_sample 64 = Some i" "if_dev i = 128"
    by (simp add: lan_sample_def the_iface_def)
  have typed: "arp_ok lan_sample" "sint (g_current_timestamp lan_sample) < 2147482447" "g_arp_cache lan_sample \<noteq> None"
    "net_protocol_get_driver Np_ipv4 lan_sample \<noteq> None" "net_protocol_get_driver Np_icmp lan_sample \<noteq> None"
    by (simp_all add: lan_sample_def arp_ok_def ARP_CACHE_SIZE_def arp_typed_def arp_entry_def net_protocol_get_driver_def)
  have buffer: "buffer_ok 8192 1500" "buf_data (pk_raw packet_sample) = adr 8192" "buf_len (pk_raw packet_sample) = adr 1500"
    by (simp_all add: buffer_ok_def packet_sample_def)
  have valid: "inet_cksum (ip_header 0 32 0x1234 0 64 1 0xe552 0xc0a80105 0xc0a80101) = 0" "inet_cksum (echo_msg 8 0x969a [0, 1, 0, 2, 0x61, 0x62]) = 0"
    by (simp_all add: inet_cksum_def ip_header_def echo_msg_def be16_def be32_def)
  have nonzero: "(0xc0a80105 :: u32) \<noteq> 0"
    by simp
  have frame: "(\<lambda>_ _. Inr ping_sample :: int + u8 list) (if_dev i) (adr 1500) =
      Inr (eth_frame 0x20304050607 0x0a0b0c0d0e0f 0x0800 (ip_header 0 32 0x1234 0 64 1 0xe552 0xc0a80105 0xc0a80101 @ echo_msg 8 0x969a [0, 1, 0, 2, 0x61, 0x62]))"
    by (simp add: ping_sample_def)
  have len: "length (eth_frame 0x20304050607 0x0a0b0c0d0e0f 0x0800 (ip_header 0 32 0x1234 0 64 1 0xe552 0xc0a80105 0xc0a80101 @ echo_msg 8 0x969a [0, 1, 0, 2, 0x61, 0x62])) \<le> 1500"
    by simp
  have "sent lan_sample = []"
    by (simp add: lan_sample_def)
  then show ?thesis
    using echo_request_answered [OF lan_sample_typed typed i(1) buffer frame len valid nonzero, of "\<lambda>_ _. 0"] i(2) by fastforce
qed

end
