(* ===== verification/Spec2Isabelle.thy ===== *)
theory Spec2Isabelle
  imports Kmalloc Ata CStdlib Format Disasm_Move Timetext Readline_Echo Srec_Image Slab Process_Create KUtil Net_Route Net_Ping
begin

text \<open>
  A verification library for ayumos, the operating system for MC68010 boards under
  \<^verbatim>\<open>src/ayumos\<close>.  All paths below are relative to that directory.

  \<^bold>\<open>The program.\<close>  The kernel runs in one address space.  Two heaps (\<^verbatim>\<open>kernel/memory\<close>) serve the
  kernel and the user programs, a slab allocator serves small kernel objects.  Processes are items
  of two circular lists, the run queue and the sleep queue, between which the scheduler and the
  semaphores move them.  Block devices are read and written through a cache of sectors; partitions are
  devices in front of other devices.  The network stack passes a packet from handler to handler
  through tables of function pointers.  The monitor is the interactive part: a line editor, an
  S-record loader and a disassembler.  \<^verbatim>\<open>klibc\<close> is the C library all parts use.

  \<^bold>\<open>How the code is modelled.\<close>  Integers are words of their width, so sums wrap as in C; pointers are
  32-bit words.  Memory is a function from addresses to bytes (\<open>mem\<close>), and multi-byte accesses
  are big-endian as on the processor; \<open>machine\<close> is the memory with the interrupt mask and the
  pre-emption counter.  A C function is a HOL function that takes and returns the state it uses.
  Errors are the negative numbers the code returns.  \<open>None\<close> always means that the C code has
  no defined result: it would access a table or a buffer out of its range, dereference NULL, take an
  argument of the wrong type, overflow a signed integer, or it does not return (it waits for input
  or for a semaphore, or follows a damaged list).  Loops are structural recursion, recursion with
  a termination proof, or, where they may run forever (on a damaged heap or list, on memory without a
  NUL), \<open>partial_function (option)\<close>; theorems about those state that a result exists.  There
  is no fuel: the loops of \<^verbatim>\<open>readline\<close> and \<^verbatim>\<open>srec\<close> recurse over the list of input characters, and the
  chain of network handlers (\<open>net_run\<close>) is a partial function whose end \<open>net_run_terminates\<close>
  proves, with a number of calls computed from the packet.  The wait for the ATA drive has the bound
  of the code itself, 1000000 readings.  Statements about lists of queue items and of
  heap blocks are over the lists that the links and the headers in memory represent.

  The build is the default one: \<^verbatim>\<open>KMALLOC_HEAP\<close>, big-endian target, revision 1 of the board, networking
  with \<^verbatim>\<open>IPV4_VERIFY_CHECKSUM\<close> and \<^verbatim>\<open>ICMP_VERIFY_CHECKSUM\<close> enabled.  Output that only informs
  (\<^verbatim>\<open>printf\<close>, \<^verbatim>\<open>put\<close>, debug messages) is left out where the result does not depend on it.

  \<^bold>\<open>The theories.\<close>
  \<^item> \<open>Prelude\<close>: word types, memory, \<open>agree\<close>/\<open>modifies\<close> (which bytes change), the simplification
    rules shared by all components.  \<open>Preempt\<close>: \<^verbatim>\<open>preempt.h\<close> and \<^verbatim>\<open>lock.h\<close>.  \<open>Allocator\<close>: the
    interfaces \<open>allocator\<close> and \<open>reallocator\<close> every client of dynamic memory relies on.
  \<^item> \<open>Heap\<close>: \<^verbatim>\<open>kernel/memory/heap.c\<close>.  The blocks in memory represent a list of sizes with a flag
    (\<open>heap_wf\<close>); every operation refines one on such lists (\<open>a_malloc\<close>, \<open>a_free\<close>), keeps the invariant
    and the contents of the other regions.  The heap interprets \<open>allocator\<close>.  \<open>Kmalloc\<close>:
    \<^verbatim>\<open>kmalloc.c\<close>, the two heaps and, as a step relation, the clients of both; it interprets
    \<open>reallocator\<close>.  \<open>Arenas\<close>: composition of allocations within one kernel function.
  \<^item> \<open>Slab\<close>: \<^verbatim>\<open>kernel/memory/slab.c\<close>, with headers and bitmaps in memory; a second interpretation
    of \<open>allocator\<close>.
  \<^item> \<open>KList\<close>: \<^verbatim>\<open>list.h\<close>, the links and the interface \<open>queues\<close>.  \<open>Process\<close>: \<^verbatim>\<open>process.c\<close>,
    \<^verbatim>\<open>sched.c\<close>, \<^verbatim>\<open>semaphore.c\<close>.  \<open>Sched\<close>: invariant of the queues, bounded waiting, mutual exclusion.
    \<open>Process_Create\<close>: \<^verbatim>\<open>proc_create\<close> on both heaps and the queues, with all its error paths.
  \<^item> \<open>Block\<close>, \<open>Block_Cache\<close>: \<^verbatim>\<open>kernel/device/block.c\<close> and \<^verbatim>\<open>partition.c\<close>.  The functions of a
    driver are fields of the device; the laws of a disk (\<open>reads_disk\<close>, \<open>writes_disk\<close>) are what the cache
    needs of it, and a partition of a disk satisfies them again.  \<open>Ata\<close>: the transfer functions
    of \<^verbatim>\<open>ata.c\<close> over a bus that is a parameter.
  \<^item> \<open>CMem\<close>, \<open>CString\<close>, \<open>CStdlib\<close>: \<^verbatim>\<open>klibc/string.c\<close>, \<^verbatim>\<open>strings.c\<close>, \<^verbatim>\<open>stdlib.c\<close>,
    \<^verbatim>\<open>ctype.c\<close>, each function against its plain meaning.  \<open>Printf\<close>, \<open>Format\<close>:
    \<^verbatim>\<open>klibc/printf.c\<close> against a reference formatter, and what it writes.
  \<^item> \<open>KUtil\<close>: \<^verbatim>\<open>kernel/util\<close>: buffers, checksum, hash, dump and the other small functions.  \<open>KTime\<close>,
    \<open>Calendar\<close>, \<open>Timetext\<close>: \<^verbatim>\<open>ktime.c\<close> against the Gregorian calendar, and dates as text.
  \<^item> \<open>Net\<close>: \<^verbatim>\<open>kernel/net\<close>.  A handler is a function from a packet to the next call or a result
    (\<open>net_action\<close>); \<open>net_step\<close> is one call and \<open>net_run\<close> a chain of them.  \<open>Net_Fields\<close>,
    \<open>Net_Cksum\<close>: packet fields and the Internet checksum.  \<open>Net_Arp\<close>: the ARP cache as a table.
    \<open>Net_Route\<close>: masks and the routing table.  \<open>Net_Rx\<close>: termination, type safety and frame of
    the receive path.  \<open>Net_Ping\<close>: the byte-exact answer to an echo request.
  \<^item> \<open>Readline\<close>, \<open>Readline_Echo\<close>: \<^verbatim>\<open>monitor/readline.c\<close> as an editor of two strings, and what
    the terminal shows.  \<open>Srec\<close>, \<open>Srec_Lines\<close>, \<open>Srec_Image\<close>: \<^verbatim>\<open>monitor/srec.c\<close> against a writer of
    S-records.  \<open>Disasm\<close>, \<open>Disasm_Bounds\<close>, \<open>Disasm_Move\<close>: \<^verbatim>\<open>monitor/disasm.c\<close>, its buffers and the round
    trip with an assembler.

  \<^bold>\<open>What the theorems show.\<close>  The numbered properties stand in the theory of their component.  For
  the allocators: first fit with merging, no loss of memory, contents and disjointness of all
  live regions in every reachable state, exact failure conditions.  For processes: no process is
  lost, duplicated or starved; creation is all or nothing; semaphores exclude.  For the network: every frame is
  processed within a bound, touches nothing but the packet buffer and the tables named, and a
  ping is answered exactly.  For the libraries and the monitor: equality with independent
  specifications, round trips and buffer bounds.  A witness beside each property applies it to a
  concrete state.  Where the code differs from what it means to do, the deviation is part of a
  statement and described in its text: memory requests that wrap, the last runnable process going to
  sleep, routes that are freed but not unlinked, the double carry of the checksum, the month of
  timestamps, register lists that overflow the disassembler's buffer, blocks that read as zeros
  after another block was zeroed, and ATA writes that never succeed through the cache.

  \<^bold>\<open>What is not modelled.\<close>  Assembly code (context switch, interrupt entry) and device registers have no
  description in the repository other than the accesses to them; the scheduler is modelled up to
  the pointer of the process it selects, a device driver of the network is the function that
  delivers or takes a frame, and the ATA drive is a bus.  Left out are the file systems and the VFS,
  the creation and probing of devices, the console and keyboard, the monitor's command table,
  the ELF loader, the allocators that the configuration does not build, and the host tools.
\<close>

end
